(* ===== verification/Poker_Prelude.thy ===== *)
theory Poker_Prelude
  imports Main "HOL-Library.Monad_Syntax" "HOL-Library.Multiset"
begin

text \<open>
  Shared vocabulary of the development: Go's 64-bit integers and their division, Go maps
  with integer values as association lists in insertion order, index search in slices, and the
  collections of rewrite rules the component theories add to.

  Conventions used everywhere:
  \<^item> an \<open>int64\<close> is an \<open>int\<close>; where a product of two of them could leave the 64-bit range the
    result is passed through \<open>wrap64\<close>, and \<open>in_i64\<close> states that a value is representable;
  \<^item> a computation that can end in a Go runtime panic returns an \<open>option\<close>, \<open>None\<close> being the
    panic (the table actor recovers it and reloads the stored state, so no state survives it);
  \<^item> a Go \<open>error\<close> is a constructor of an error datatype, returned in the left of a sum.
\<close>

named_theorems chip_simps \<open>how an operation moves chips\<close>
named_theorems frame_simps \<open>fields an operation leaves alone\<close>

section \<open>Go integers\<close>

definition i64_max :: int where
  "i64_max = 2 ^ 63 - 1"

definition in_i64 :: "int \<Rightarrow> bool" where
  "in_i64 x \<longleftrightarrow> - (2 ^ 63) \<le> x \<and> x \<le> i64_max"

text \<open>The value of a 64-bit two's complement result.\<close>

definition wrap64 :: "int \<Rightarrow> int" where
  "wrap64 x = (x + 2 ^ 63) mod 2 ^ 64 - 2 ^ 63"

lemma wrap64_in_i64 [simp]: "in_i64 (wrap64 x)"
  using pos_mod_bound[of "2 ^ 64" "x + 2 ^ 63"] pos_mod_sign[of "2 ^ 64" "x + 2 ^ 63"]
  by (simp add: wrap64_def in_i64_def i64_max_def)

lemma wrap64_id: "in_i64 x \<Longrightarrow> wrap64 x = x"
  by (simp add: wrap64_def in_i64_def i64_max_def)

lemma in_i64_between: "0 \<le> x \<Longrightarrow> x \<le> y \<Longrightarrow> in_i64 y \<Longrightarrow> in_i64 x"
  by (simp add: in_i64_def)

text \<open>Go's integer division truncates towards zero.\<close>

definition go_div :: "int \<Rightarrow> int \<Rightarrow> int" where
  "go_div a b = sgn a * sgn b * (\<bar>a\<bar> div \<bar>b\<bar>)"

lemma go_div_nonneg: "0 \<le> a \<Longrightarrow> 0 < b \<Longrightarrow> go_div a b = a div b"
  by (cases "a = 0") (simp_all add: go_div_def)

lemma go_div_bounds:
  assumes "0 \<le> a" and "0 < b"
  shows "0 \<le> go_div a b" and "go_div a b * b \<le> a" and "go_div a b \<le> a"
proof -
  show "0 \<le> go_div a b"
    using assms by (simp add: go_div_nonneg pos_imp_zdiv_nonneg_iff)
  show "go_div a b * b \<le> a"
    using assms pos_mod_sign[of b a] by (simp add: go_div_nonneg minus_mod_eq_div_mult [symmetric])
  show "go_div a b \<le> a"
    using assms by (simp add: go_div_nonneg div_le_dividend zdiv_mono2[of a 1 b, simplified])
qed

section \<open>Go maps to integers, in insertion order\<close>

text \<open>
  \<open>m[k] += v\<close> on a \<open>map[string]int64\<close>: the entry is created at zero when it is missing. The
  order of the entries is the order of first insertion; the code never depends on it.
\<close>

fun madd :: "'k \<Rightarrow> int \<Rightarrow> ('k \<times> int) list \<Rightarrow> ('k \<times> int) list" where
  "madd k v [] = [(k, v)]"
| "madd k v ((k', v') # m) = (if k' = k then (k', v' + v) # m else (k', v') # madd k v m)"

definition msum :: "('k \<times> int) list \<Rightarrow> int" where
  "msum m = (\<Sum>e\<leftarrow>m. snd e)"

lemma msum_simps [simp]:
  "msum [] = 0"
  "msum ((k, v) # m) = v + msum m"
  by (simp_all add: msum_def)

lemma msum_madd [simp]: "msum (madd k v m) = msum m + v"
  by (induction k v m rule: madd.induct) auto

lemma keys_madd [simp]: "fst ` set (madd k v m) = insert k (fst ` set m)"
  by (induction k v m rule: madd.induct) auto

lemma distinct_madd [simp]: "distinct (map fst m) \<Longrightarrow> distinct (map fst (madd k v m))"
proof (induction k v m rule: madd.induct)
  case (2 k v k' v' m)
  have "set (map fst (madd k v m)) = insert k (set (map fst m))"
    using keys_madd[of k v m] by simp
  with 2 show ?case by auto
qed simp

lemma map_of_madd:
  "map_of (madd k v m) x =
     (if x = k then Some (v + (case map_of m k of None \<Rightarrow> 0 | Some w \<Rightarrow> w)) else map_of m x)"
  by (induction k v m rule: madd.induct) auto

text \<open>Every entry is non-negative: kept by adding a non-negative amount.\<close>

definition mnonneg :: "('k \<times> int) list \<Rightarrow> bool" where
  "mnonneg m \<longleftrightarrow> (\<forall>e\<in>set m. 0 \<le> snd e)"

lemma mnonneg_Nil [simp]: "mnonneg []"
  by (simp add: mnonneg_def)

lemma mnonneg_madd [simp]: "mnonneg m \<Longrightarrow> 0 \<le> v \<Longrightarrow> mnonneg (madd k v m)"
  by (induction k v m rule: madd.induct) (auto simp: mnonneg_def)

text \<open>\<open>for _, k := range ks { m[k] += v }\<close>\<close>

definition madd_all :: "'k list \<Rightarrow> int \<Rightarrow> ('k \<times> int) list \<Rightarrow> ('k \<times> int) list" where
  "madd_all ks v m = fold (\<lambda>k. madd k v) ks m"

lemma madd_all_simps [simp]:
  "madd_all [] v m = m"
  "madd_all (k # ks) v m = madd_all ks v (madd k v m)"
  by (simp_all add: madd_all_def)

lemma msum_madd_all [simp]: "msum (madd_all ks v m) = msum m + int (length ks) * v"
  by (induction ks arbitrary: m) (auto simp: algebra_simps)

lemma keys_madd_all [simp]: "fst ` set (madd_all ks v m) = set ks \<union> fst ` set m"
  by (induction ks arbitrary: m) auto

lemma distinct_madd_all [simp]:
  "distinct (map fst m) \<Longrightarrow> distinct (map fst (madd_all ks v m))"
  by (induction ks arbitrary: m) auto

lemma mnonneg_madd_all [simp]: "mnonneg m \<Longrightarrow> 0 \<le> v \<Longrightarrow> mnonneg (madd_all ks v m)"
  by (induction ks arbitrary: m) auto

section \<open>Slices\<close>

text \<open>The first index at which a slice holds a value, and the first element with a property.\<close>

fun index_of :: "'a \<Rightarrow> 'a list \<Rightarrow> nat option" where
  "index_of x [] = None"
| "index_of x (y # ys) = (if y = x then Some 0 else map_option Suc (index_of x ys))"

lemma index_of_Some: "index_of x xs = Some i \<Longrightarrow> i < length xs \<and> xs ! i = x"
  by (induction xs arbitrary: i) (auto split: if_splits)

lemma index_of_None [simp]: "index_of x xs = None \<longleftrightarrow> x \<notin> set xs"
  by (induction xs) auto

lemma index_of_nth: "distinct xs \<Longrightarrow> i < length xs \<Longrightarrow> index_of (xs ! i) xs = Some i"
  by (induction xs arbitrary: i) (auto simp: nth_Cons split: nat.splits)

lemma index_of_mem: "x \<in> set xs \<Longrightarrow> \<exists>i. index_of x xs = Some i"
  by (cases "index_of x xs") auto

lemma sum_list_update_nth:
  fixes f :: "'a \<Rightarrow> int"
  assumes "i < length xs"
  shows "(\<Sum>x\<leftarrow>xs[i := y]. f x) = (\<Sum>x\<leftarrow>xs. f x) - f (xs ! i) + f y"
  using assms by (induction xs arbitrary: i) (auto simp: nth_Cons split: nat.splits)

lemma sum_list_nonneg_le:
  fixes f :: "'a \<Rightarrow> int"
  assumes "\<forall>x\<in>set xs. 0 \<le> f x" and "x \<in> set xs"
  shows "f x \<le> (\<Sum>x\<leftarrow>xs. f x)"
  using assms
proof (induction xs)
  case (Cons a xs)
  have "0 \<le> (\<Sum>x\<leftarrow>xs. f x)"
    using Cons.prems by (intro sum_list_nonneg) auto
  with Cons show ?case by auto
qed simp

lemma sum_list_filter_pos:
  fixes f :: "'a \<Rightarrow> int"
  assumes "\<forall>x\<in>set xs. 0 \<le> f x"
  shows "(\<Sum>x\<leftarrow>filter (\<lambda>x. 0 < f x) xs. f x) = (\<Sum>x\<leftarrow>xs. f x)"
  using assms by (induction xs) auto

lemma find_Some_mem: "List.find P xs = Some x \<Longrightarrow> x \<in> set xs \<and> P x"
  by (induction xs) (auto split: if_splits)

lemma find_None_iff_all: "List.find P xs = None \<longleftrightarrow> (\<forall>x\<in>set xs. \<not> P x)"
  by (induction xs) auto

lemma find_unique:
  assumes "distinct (map f xs)" and "x \<in> set xs"
  shows "List.find (\<lambda>y. f y = f x) xs = Some x"
  using assms by (induction xs) (auto simp: rev_image_eqI)

lemma sorted_le_last: "sorted xs \<Longrightarrow> x \<in> set xs \<Longrightarrow> (x :: int) \<le> last xs"
  by (induction xs) auto

text \<open>Updating a store at one address changes a sum over distinct addresses at that address only.\<close>

lemma sum_list_fun_upd:
  fixes f :: "'b \<Rightarrow> int"
  assumes "distinct rs"
  shows "(\<Sum>r\<leftarrow>rs. f ((s(a := v)) r)) =
    (\<Sum>r\<leftarrow>rs. f (s r)) + (if a \<in> set rs then f v - f (s a) else 0)"
  using assms by (induction rs) auto

text \<open>A scan once around a table, starting anywhere.\<close>

lemma scan_around: "map (\<lambda>i. xs ! ((s + i) mod length xs)) [0..<length xs] = rotate s xs"
  by (rule nth_equalityI) (simp_all add: nth_rotate)

section \<open>Loops whose body can panic\<close>

fun foldM :: "('a \<Rightarrow> 's \<Rightarrow> 's option) \<Rightarrow> 'a list \<Rightarrow> 's \<Rightarrow> 's option" where
  "foldM f [] s = Some s"
| "foldM f (x # xs) s = do { s' \<leftarrow> f x s; foldM f xs s' }"

text \<open>A loop whose body keeps an invariant and does not panic under it.\<close>

lemma foldM_inv:
  assumes "I s" and "\<And>x s. x \<in> set xs \<Longrightarrow> I s \<Longrightarrow> \<exists>s'. f x s = Some s' \<and> I s'"
  shows "\<exists>s'. foldM f xs s = Some s' \<and> I s'"
  using assms
proof (induction xs arbitrary: s)
  case (Cons x xs)
  obtain s' where "f x s = Some s'" "I s'" using Cons.prems by auto
  with Cons.IH [of s'] Cons.prems(2) show ?case by auto
qed simp

lemma foldM_keeps:
  assumes "foldM f xs s = Some s'" and "I s"
    and "\<And>x s s'. x \<in> set xs \<Longrightarrow> f x s = Some s' \<Longrightarrow> I s \<Longrightarrow> I s'"
  shows "I s'"
  using assms
proof (induction xs arbitrary: s)
  case (Cons x xs)
  from Cons.prems(1) obtain u where "f x s = Some u" and "foldM f xs u = Some s'"
    by (auto split: bind_splits)
  moreover from this Cons.prems have "I u" by auto
  ultimately show ?case using Cons.IH [of u] Cons.prems(3) by auto
qed simp

lemma foldM_append: "foldM f (xs @ ys) s = do { s' \<leftarrow> foldM f xs s; foldM f ys s' }"
  by (induction xs arbitrary: s) (auto split: bind_splits)

end
