(* ===== verification/Betting.thy ===== *)
theory Betting
  imports Poker_Prelude
begin

text \<open>
  One betting round, from \<open>api/internal/engine/betting/betting.go\<close>: the per-player state, the
  round, \<open>Act\<close> with every rejection of the code, and \<open>IsComplete\<close>. The slice of pointers
  \<open>Round.Players\<close> is a list (the round owns its entries and no other value aliases them, so the
  test \<open>other != p\<close> is a test on positions).
\<close>

section \<open>State\<close>

datatype action = ActionFold | ActionCheck | ActionCall | ActionBet | ActionRaise
  | ActionOther string

record bet_player =
  bp_id :: string
  bp_stack :: int
  bp_contributed :: int
  bp_folded :: bool
  bp_all_in :: bool
  bp_acted :: bool \<comment> \<open>\<open>ActedSinceLastFullRaise\<close>\<close>

record bet_round =
  rd_players :: "bet_player list"
  rd_current_bet :: int
  rd_min_raise :: int
  rd_last_actor :: string

datatype bet_error =
    InvalidPlayerIndex int
  | CannotAct string
  | MustCallOrFold string int
  | NothingToCall string
  | AlreadyActed string
  | RaiseNotAboveBet int int
  | RaiseNotAboveContribution int int
  | AllInNotAboveBet int int
  | BelowMinRaise int int
  | UnknownAction string

definition new_round :: "bet_player list \<Rightarrow> int \<Rightarrow> int \<Rightarrow> bet_round" where
  "new_round ps current_bet min_raise =
     \<lparr>rd_players = ps, rd_current_bet = current_bet, rd_min_raise = min_raise, rd_last_actor = ''''\<rparr>"

section \<open>Actions\<close>

text \<open>The four actions, each on the player's position; \<open>round_act\<close> does the checks they share.\<close>

definition act_fold :: "bet_round \<Rightarrow> nat \<Rightarrow> bet_round" where
  "act_fold r i =
     (let p = rd_players r ! i
      in r\<lparr>rd_players := (rd_players r)[i := p\<lparr>bp_folded := True\<rparr>], rd_last_actor := bp_id p\<rparr>)"

definition act_check :: "bet_round \<Rightarrow> nat \<Rightarrow> bet_error + bet_round" where
  "act_check r i =
     (let p = rd_players r ! i
      in if bp_contributed p < rd_current_bet r
         then Inl (MustCallOrFold (bp_id p) (rd_current_bet r - bp_contributed p))
         else Inr (r\<lparr>rd_players := (rd_players r)[i := p\<lparr>bp_acted := True\<rparr>],
                     rd_last_actor := bp_id p\<rparr>))"

definition act_call :: "bet_round \<Rightarrow> nat \<Rightarrow> bet_error + bet_round" where
  "act_call r i =
     (let p = rd_players r ! i; owed = rd_current_bet r - bp_contributed p
      in if owed \<le> 0 then Inl (NothingToCall (bp_id p))
         else let p' = (if owed \<ge> bp_stack p
                        then p\<lparr>bp_contributed := bp_contributed p + bp_stack p,
                               bp_stack := 0, bp_all_in := True\<rparr>
                        else p\<lparr>bp_stack := bp_stack p - owed,
                               bp_contributed := bp_contributed p + owed\<rparr>)
              in Inr (r\<lparr>rd_players := (rd_players r)[i := p'\<lparr>bp_acted := True\<rparr>],
                        rd_last_actor := bp_id p\<rparr>))"

text \<open>A full raise reopens the action for every other player.\<close>

definition reopen_others :: "nat \<Rightarrow> bet_player list \<Rightarrow> bet_player list" where
  "reopen_others i ps = map (\<lambda>(j, q). if j = i then q else q\<lparr>bp_acted := False\<rparr>) (enumerate 0 ps)"

definition act_raise :: "bet_round \<Rightarrow> nat \<Rightarrow> int \<Rightarrow> bet_error + bet_round" where
  "act_raise r i amount0 =
     (let p = rd_players r ! i
      in if bp_acted p then Inl (AlreadyActed (bp_id p))
         else if amount0 \<le> rd_current_bet r then Inl (RaiseNotAboveBet amount0 (rd_current_bet r))
         else let delta0 = amount0 - bp_contributed p
              in if delta0 \<le> 0 then Inl (RaiseNotAboveContribution amount0 (bp_contributed p))
                 else let going_all_in = (delta0 \<ge> bp_stack p);
                          delta = (if going_all_in then bp_stack p else delta0);
                          amount = (if going_all_in then bp_contributed p + delta else amount0);
                          raise_size = amount - rd_current_bet r
                      in if raise_size \<le> 0 then Inl (AllInNotAboveBet amount (rd_current_bet r))
                         else if raise_size < rd_min_raise r \<and> \<not> going_all_in
                         then Inl (BelowMinRaise raise_size (rd_min_raise r))
                         else let full = (raise_size \<ge> rd_min_raise r);
                                  p' = p\<lparr>bp_all_in := bp_all_in p \<or> going_all_in,
                                         bp_stack := bp_stack p - delta,
                                         bp_contributed := bp_contributed p + delta,
                                         bp_acted := True\<rparr>;
                                  ps = (rd_players r)[i := p'];
                                  ps' = (if full then reopen_others i ps else ps)
                              in Inr \<lparr>rd_players = ps', rd_current_bet = amount,
                                      rd_min_raise = (if full then raise_size else rd_min_raise r),
                                      rd_last_actor = bp_id p\<rparr>)"

text \<open>
  \<open>Round.Act\<close>. \<open>amount\<close> is the player's total contribution this round after a bet or raise. A
  rejected action returns before any write, so the error carries no state.
\<close>

definition round_act :: "bet_round \<Rightarrow> int \<Rightarrow> action \<Rightarrow> int \<Rightarrow> bet_error + bet_round" where
  "round_act r idx a amount =
     (if idx < 0 \<or> idx \<ge> int (length (rd_players r)) then Inl (InvalidPlayerIndex idx)
      else let i = nat idx; p = rd_players r ! i
           in if bp_folded p \<or> bp_all_in p then Inl (CannotAct (bp_id p))
              else case a of
                ActionFold \<Rightarrow> Inr (act_fold r i)
              | ActionCheck \<Rightarrow> act_check r i
              | ActionCall \<Rightarrow> act_call r i
              | ActionBet \<Rightarrow> act_raise r i amount
              | ActionRaise \<Rightarrow> act_raise r i amount
              | ActionOther s \<Rightarrow> Inl (UnknownAction s))"

definition is_complete :: "bet_round \<Rightarrow> bool" where
  "is_complete r =
     (let live = filter (\<lambda>p. \<not> bp_folded p) (rd_players r);
          all_matched = (\<forall>p\<in>set live. bp_all_in p \<or>
             (bp_acted p \<and> bp_contributed p = rd_current_bet r))
      in length live \<le> 1 \<or> all_matched)"

section \<open>Who still owes the round a decision\<close>

definition needs_action :: "bet_round \<Rightarrow> bet_player \<Rightarrow> bool" where
  "needs_action r p \<longleftrightarrow> \<not> bp_folded p \<and> \<not> bp_all_in p \<and>
     (\<not> bp_acted p \<or> bp_contributed p \<noteq> rd_current_bet r)"

definition pending :: "bet_round \<Rightarrow> nat" where
  "pending r = length (filter (needs_action r) (rd_players r))"

definition round_stacks :: "bet_round \<Rightarrow> int" where
  "round_stacks r = (\<Sum>p\<leftarrow>rd_players r. bp_stack p)"

definition round_chips :: "bet_round \<Rightarrow> int" where
  "round_chips r = (\<Sum>p\<leftarrow>rd_players r. bp_stack p + bp_contributed p)"

text \<open>What holds of a round between actions.\<close>

definition player_wf :: "int \<Rightarrow> bet_player \<Rightarrow> bool" where
  "player_wf bet p \<longleftrightarrow> 0 \<le> bp_stack p \<and> 0 \<le> bp_contributed p \<and> bp_contributed p \<le> bet \<and>
     (\<not> bp_all_in p \<longrightarrow> 0 < bp_stack p)"

definition round_wf :: "bet_round \<Rightarrow> bool" where
  "round_wf r \<longleftrightarrow> 0 < rd_min_raise r \<and> (\<forall>p\<in>set (rd_players r). player_wf (rd_current_bet r) p)"

lemma round_wfD:
  assumes "round_wf r" and "i < length (rd_players r)"
  shows "player_wf (rd_current_bet r) (rd_players r ! i)"
  using assms by (simp add: round_wf_def)

lemma player_wf_mono: "player_wf b p \<Longrightarrow> b \<le> b' \<Longrightarrow> player_wf b' p"
  by (auto simp: player_wf_def)

lemma player_wf_flags [simp]:
  "player_wf b (p\<lparr>bp_acted := x\<rparr>) = player_wf b p"
  "player_wf b (p\<lparr>bp_folded := x\<rparr>) = player_wf b p"
  by (simp_all add: player_wf_def)

section \<open>The reopening pass\<close>

lemma length_reopen_others [simp]: "length (reopen_others i ps) = length ps"
  by (simp add: reopen_others_def)

lemma nth_reopen_others:
  "j < length ps \<Longrightarrow>
   reopen_others i ps ! j = (if j = i then ps ! j else (ps ! j)\<lparr>bp_acted := False\<rparr>)"
  by (simp add: reopen_others_def nth_enumerate_eq)

lemma map_reopen_others:
  assumes "\<And>p x. f (p\<lparr>bp_acted := x\<rparr>) = f p"
  shows "map f (reopen_others i ps) = map f ps"
  by (rule nth_equalityI) (simp_all add: nth_reopen_others assms)

lemma wf_reopen_others [simp]:
  "(\<forall>p\<in>set (reopen_others i ps). player_wf b p) = (\<forall>p\<in>set ps. player_wf b p)"
proof -
  have "map (player_wf b) (reopen_others i ps) = map (player_wf b) ps"
    by (rule map_reopen_others) simp
  then have "set (map (player_wf b) (reopen_others i ps)) = set (map (player_wf b) ps)"
    by (simp only:)
  moreover have "(\<forall>b\<in>set (map P xs). b) = (\<forall>p\<in>set xs. P p)" for P :: "bet_player \<Rightarrow> bool" and xs by simp
  ultimately show ?thesis by (metis (no_types))
qed

section \<open>Shape of an accepted action\<close>

text \<open>
  One case rule for every accepted action: the position is valid and live, and the new round is
  the one of the action's branch, with the branch's guards. The component's proofs are case
  splits over it.
\<close>

definition put_in :: "bet_player \<Rightarrow> int \<Rightarrow> bet_player" where
  "put_in p d = p\<lparr>bp_all_in := bp_all_in p \<or> d = bp_stack p, bp_stack := bp_stack p - d,
     bp_contributed := bp_contributed p + d, bp_acted := True\<rparr>"

lemma put_in_simps [simp]:
  "bp_id (put_in p d) = bp_id p"
  "bp_stack (put_in p d) = bp_stack p - d"
  "bp_contributed (put_in p d) = bp_contributed p + d"
  "bp_folded (put_in p d) = bp_folded p"
  "bp_all_in (put_in p d) = (bp_all_in p \<or> d = bp_stack p)"
  "bp_acted (put_in p d) = True"
  by (simp_all add: put_in_def)

definition raise_to :: "bet_round \<Rightarrow> nat \<Rightarrow> int \<Rightarrow> bet_round" where
  "raise_to r i to =
     (let p = rd_players r ! i; size = to - rd_current_bet r;
          ps = (rd_players r)[i := put_in p (to - bp_contributed p)]
      in \<lparr>rd_players = (if rd_min_raise r \<le> size then reopen_others i ps else ps),
          rd_current_bet = to,
          rd_min_raise = (if rd_min_raise r \<le> size then size else rd_min_raise r),
          rd_last_actor = bp_id p\<rparr>)"

lemma act_call_eq:
  assumes "bp_contributed (rd_players r ! i) < rd_current_bet r"
  shows "act_call r i = Inr (r\<lparr>rd_players := (rd_players r)[i :=
      put_in (rd_players r ! i)
        (min (bp_stack (rd_players r ! i)) (rd_current_bet r - bp_contributed (rd_players r ! i)))],
      rd_last_actor := bp_id (rd_players r ! i)\<rparr>)"
  using assms by (cases "rd_players r ! i") (auto simp: act_call_def Let_def put_in_def min_def)

text \<open>The total the player really reaches: the requested one, cut to the whole stack.\<close>

definition reached :: "bet_player \<Rightarrow> int \<Rightarrow> int" where
  "reached p amount = min amount (bp_contributed p + bp_stack p)"

definition raise_ok :: "bet_round \<Rightarrow> bet_player \<Rightarrow> int \<Rightarrow> bool" where
  "raise_ok r p amount \<longleftrightarrow> \<not> bp_acted p \<and> rd_current_bet r < reached p amount \<and>
     (rd_min_raise r \<le> reached p amount - rd_current_bet r \<or> bp_contributed p + bp_stack p \<le> amount)"

lemma put_in_whole:
  "p\<lparr>bp_all_in := True, bp_stack := 0, bp_contributed := bp_contributed p + bp_stack p,
     bp_acted := True\<rparr> = put_in p (bp_stack p)"
  by (cases p) (simp add: put_in_def)

lemma put_in_part:
  "a < bp_contributed p + bp_stack p \<Longrightarrow>
   p\<lparr>bp_stack := bp_stack p - (a - bp_contributed p), bp_contributed := a, bp_acted := True\<rparr> =
     put_in p (a - bp_contributed p)"
  by (cases p) (auto simp: put_in_def)

text \<open>\<open>act_raise\<close> with its local variables resolved, for a whole-stack and for a smaller raise.\<close>

lemma act_raise_all_in:
  fixes r :: bet_round and i :: nat and p :: bet_player
  defines "p \<equiv> rd_players r ! i"
  assumes "player_wf (rd_current_bet r) p" and "\<not> bp_all_in p"
    and "bp_contributed p + bp_stack p \<le> amount"
  shows "act_raise r i amount =
    (if bp_acted p then Inl (AlreadyActed (bp_id p))
     else if amount \<le> rd_current_bet r then Inl (RaiseNotAboveBet amount (rd_current_bet r))
     else if bp_contributed p + bp_stack p \<le> rd_current_bet r
     then Inl (AllInNotAboveBet (bp_contributed p + bp_stack p) (rd_current_bet r))
     else Inr (raise_to r i (bp_contributed p + bp_stack p)))"
proof -
  have "bp_stack p \<le> amount - bp_contributed p" "0 < amount - bp_contributed p"
    using assms by (auto simp: player_wf_def)
  then show ?thesis
    unfolding act_raise_def raise_to_def Let_def p_def [symmetric]
    by (simp add: put_in_whole)
qed

lemma act_raise_part:
  fixes r :: bet_round and i :: nat and p :: bet_player
  defines "p \<equiv> rd_players r ! i"
  assumes "player_wf (rd_current_bet r) p" and "\<not> bp_all_in p"
    and "amount < bp_contributed p + bp_stack p"
  shows "act_raise r i amount =
    (if bp_acted p then Inl (AlreadyActed (bp_id p))
     else if amount \<le> rd_current_bet r then Inl (RaiseNotAboveBet amount (rd_current_bet r))
     else if amount - rd_current_bet r < rd_min_raise r
     then Inl (BelowMinRaise (amount - rd_current_bet r) (rd_min_raise r))
     else Inr (raise_to r i amount))"
proof -
  have "\<not> bp_stack p \<le> amount - bp_contributed p"
    and "rd_current_bet r < amount \<Longrightarrow> 0 < amount - bp_contributed p"
    using assms by (auto simp: player_wf_def)
  then show ?thesis
    unfolding act_raise_def raise_to_def Let_def p_def [symmetric]
    using assms(4) by (auto simp: put_in_part)
qed

lemma act_raise_ok:
  assumes "player_wf (rd_current_bet r) (rd_players r ! i)"
    and "\<not> bp_all_in (rd_players r ! i)"
  shows "raise_ok r (rd_players r ! i) amount \<Longrightarrow>
      act_raise r i amount = Inr (raise_to r i (reached (rd_players r ! i) amount))"
    and "\<not> raise_ok r (rd_players r ! i) amount \<Longrightarrow> \<exists>e. act_raise r i amount = Inl e"
proof -
  let ?p = "rd_players r ! i"
  show "act_raise r i amount = Inr (raise_to r i (reached ?p amount))" if "raise_ok r ?p amount"
    using that act_raise_all_in [OF assms, of amount] act_raise_part [OF assms, of amount]
    by (cases "amount < bp_contributed ?p + bp_stack ?p") (auto simp: raise_ok_def reached_def)
  show "\<exists>e. act_raise r i amount = Inl e" if "\<not> raise_ok r ?p amount"
    using that act_raise_all_in [OF assms, of amount] act_raise_part [OF assms, of amount]
    by (cases "amount < bp_contributed ?p + bp_stack ?p") (auto simp: raise_ok_def reached_def)
qed

lemma act_raise_Inr:
  assumes "round_wf r" and "i < length (rd_players r)" and "\<not> bp_all_in (rd_players r ! i)"
    and "act_raise r i amount = Inr r'"
  shows "raise_ok r (rd_players r ! i) amount"
    and "r' = raise_to r i (reached (rd_players r ! i) amount)"
proof -
  note wf = round_wfD [OF assms(1,2)]
  show ok: "raise_ok r (rd_players r ! i) amount"
    using act_raise_ok(2) [OF wf assms(3), of amount] assms(4) by auto
  show "r' = raise_to r i (reached (rd_players r ! i) amount)"
    using act_raise_ok(1) [OF wf assms(3) ok] assms(4) by simp
qed

inductive accepted :: "bet_round \<Rightarrow> nat \<Rightarrow> bet_round \<Rightarrow> bool" for r i where
  fold: "accepted r i (act_fold r i)"
| check: "bp_contributed (rd_players r ! i) = rd_current_bet r \<Longrightarrow>
    accepted r i (r\<lparr>rd_players := (rd_players r)[i := (rd_players r ! i)\<lparr>bp_acted := True\<rparr>],
      rd_last_actor := bp_id (rd_players r ! i)\<rparr>)"
| call: "bp_contributed (rd_players r ! i) < rd_current_bet r \<Longrightarrow>
    d = min (bp_stack (rd_players r ! i)) (rd_current_bet r - bp_contributed (rd_players r ! i)) \<Longrightarrow>
    accepted r i (r\<lparr>rd_players := (rd_players r)[i := put_in (rd_players r ! i) d],
      rd_last_actor := bp_id (rd_players r ! i)\<rparr>)"
| raised: "raise_ok r (rd_players r ! i) amount \<Longrightarrow>
    accepted r i (raise_to r i (reached (rd_players r ! i) amount))"

text \<open>Every accepted action of \<open>Act\<close> is one of these four; the converse gives acceptance.\<close>

lemma round_act_accepted:
  assumes "round_wf r" and "round_act r idx a amount = Inr r'"
  shows "0 \<le> idx" and "nat idx < length (rd_players r)"
    and "\<not> bp_folded (rd_players r ! nat idx)" and "\<not> bp_all_in (rd_players r ! nat idx)"
    and "accepted r (nat idx) r'"
proof -
  show i: "0 \<le> idx" "nat idx < length (rd_players r)"
    using assms(2) by (auto simp: round_act_def Let_def split: if_splits)
  show live: "\<not> bp_folded (rd_players r ! nat idx)" "\<not> bp_all_in (rd_players r ! nat idx)"
    using assms(2) by (auto simp: round_act_def Let_def split: if_splits)
  note wf = round_wfD [OF assms(1) i(2)]
  let ?p = "rd_players r ! nat idx"
  have body: "(case a of ActionFold \<Rightarrow> Inr (act_fold r (nat idx))
      | ActionCheck \<Rightarrow> act_check r (nat idx) | ActionCall \<Rightarrow> act_call r (nat idx)
      | ActionBet \<Rightarrow> act_raise r (nat idx) amount | ActionRaise \<Rightarrow> act_raise r (nat idx) amount
      | ActionOther s \<Rightarrow> Inl (UnknownAction s)) = Inr r'"
    using assms(2) by (auto simp: round_act_def Let_def split: if_splits)
  show "accepted r (nat idx) r'"
  proof (cases a)
    case ActionCheck
    have "bp_contributed ?p \<le> rd_current_bet r"
      using wf by (simp add: player_wf_def)
    with ActionCheck body show ?thesis
      by (auto simp: act_check_def Let_def intro: accepted.check split: if_splits)
  next
    case ActionCall
    have owes: "bp_contributed ?p < rd_current_bet r"
      using ActionCall body by (auto simp: act_call_def Let_def split: if_splits)
    with ActionCall body show ?thesis
      by (auto simp: act_call_eq intro: accepted.call)
  qed (use body act_raise_Inr [OF assms(1) i(2) live(2), of amount r'] in
      \<open>auto intro: accepted.intros\<close>)
qed

section \<open>Invariant, conservation, frame\<close>

lemma stack_pos:
  "round_wf r \<Longrightarrow> i < length (rd_players r) \<Longrightarrow> \<not> bp_all_in (rd_players r ! i) \<Longrightarrow>
   0 < bp_stack (rd_players r ! i)"
  by (drule round_wfD) (auto simp: player_wf_def)

lemma reached_bounds:
  assumes "round_wf r" and "i < length (rd_players r)"
    and "raise_ok r (rd_players r ! i) amount"
  shows "bp_contributed (rd_players r ! i) < reached (rd_players r ! i) amount"
    and "reached (rd_players r ! i) amount \<le> bp_contributed (rd_players r ! i) + bp_stack (rd_players r ! i)"
    and "rd_current_bet r < reached (rd_players r ! i) amount"
  using round_wfD [OF assms(1,2)] assms(3) by (auto simp: raise_ok_def reached_def player_wf_def)

lemma put_in_wf:
  assumes "player_wf b p" and "0 \<le> d" and "d \<le> bp_stack p" and "bp_contributed p + d \<le> b'"
  shows "player_wf b' (put_in p d)"
  using assms by (auto simp: player_wf_def)

lemma set_update_all:
  "(\<forall>p\<in>set xs. P p) \<Longrightarrow> P y \<Longrightarrow> \<forall>p\<in>set (xs[i := y]). P p"
  by (auto dest: set_update_subset_insert [THEN subsetD])

lemma round_wf_update:
  assumes "round_wf r" and "player_wf (rd_current_bet r) q"
    and "rd_players r' = (rd_players r)[i := q]"
    and "rd_current_bet r' = rd_current_bet r" and "rd_min_raise r' = rd_min_raise r"
  shows "round_wf r'"
  using assms set_update_all [of "rd_players r" "player_wf (rd_current_bet r)" q i]
  by (simp add: round_wf_def)

lemma accepted_wf:
  assumes "round_wf r" and "i < length (rd_players r)" and "\<not> bp_all_in (rd_players r ! i)"
    and "accepted r i r'"
  shows "round_wf r'"
  using assms(4)
proof cases
  case fold
  then show ?thesis
    using round_wfD [OF assms(1,2)]
    by (intro round_wf_update [OF assms(1)]) (auto simp: act_fold_def Let_def)
next
  case check
  then show ?thesis
    using round_wfD [OF assms(1,2)] by (intro round_wf_update [OF assms(1)]) auto
next
  case (call d)
  have "player_wf (rd_current_bet r) (put_in (rd_players r ! i) d)"
    using call round_wfD [OF assms(1,2)] stack_pos [OF assms(1-3)]
    by (intro put_in_wf) auto
  then show ?thesis
    using call by (intro round_wf_update [OF assms(1)]) auto
next
  case (raised amount)
  let ?p = "rd_players r ! i" and ?to = "reached (rd_players r ! i) amount"
  note b = reached_bounds [OF assms(1,2) raised(2)]
  have "player_wf ?to (put_in ?p (?to - bp_contributed ?p))"
    using b by (intro put_in_wf [OF round_wfD [OF assms(1,2)]]) auto
  then have "\<forall>p\<in>set ((rd_players r)[i := put_in ?p (?to - bp_contributed ?p)]). player_wf ?to p"
    using assms(1) b(3)
    by (intro set_update_all) (auto simp: round_wf_def intro: player_wf_mono)
  then show ?thesis
    using raised assms(1) by (simp add: raise_to_def Let_def round_wf_def)
qed

lemma accepted_chips:
  assumes "i < length (rd_players r)" and "accepted r i r'"
  shows "round_chips r' = round_chips r"
  using assms(2)
proof cases
  case (raised amount)
  have "(\<Sum>p\<leftarrow>reopen_others i ps. bp_stack p + bp_contributed p) = (\<Sum>p\<leftarrow>ps. bp_stack p + bp_contributed p)"
    for ps by (subst map_reopen_others) simp_all
  then show ?thesis
    using raised assms(1)
    by (simp add: round_chips_def raise_to_def Let_def sum_list_update_nth)
qed (use assms(1) in \<open>auto simp: round_chips_def act_fold_def Let_def sum_list_update_nth\<close>)

lemma accepted_shape:
  assumes "i < length (rd_players r)" and "accepted r i r'"
  shows "length (rd_players r') = length (rd_players r)"
    and "map bp_id (rd_players r') = map bp_id (rd_players r)"
    and "rd_last_actor r' = bp_id (rd_players r ! i)"
  using assms
  by (auto elim!: accepted.cases simp: act_fold_def raise_to_def Let_def map_update list_update_id
      map_reopen_others list_update_same_conv)

text \<open>Nobody but the actor is touched, except that a full raise clears their \<open>acted\<close> flag.\<close>

lemma accepted_others:
  assumes "i < length (rd_players r)" and "accepted r i r'" and "j < length (rd_players r)" and "j \<noteq> i"
  shows "rd_players r' ! j =
    (if rd_min_raise r \<le> rd_current_bet r' - rd_current_bet r \<and> rd_current_bet r < rd_current_bet r'
     then (rd_players r ! j)\<lparr>bp_acted := False\<rparr> else rd_players r ! j)"
  using assms
  by (auto elim!: accepted.cases
      simp: act_fold_def raise_to_def Let_def nth_reopen_others raise_ok_def)

text \<open>The actor: chips go from stack to contribution; only a fold folds, and it moves no chips.\<close>

lemma accepted_actor:
  assumes "round_wf r" and "i < length (rd_players r)" and "\<not> bp_folded (rd_players r ! i)"
    and "\<not> bp_all_in (rd_players r ! i)" and "round_act r (int i) a amount = Inr r'"
  shows "bp_stack (rd_players r' ! i) + bp_contributed (rd_players r' ! i) =
      bp_stack (rd_players r ! i) + bp_contributed (rd_players r ! i)"
    and "bp_contributed (rd_players r ! i) \<le> bp_contributed (rd_players r' ! i)"
    and "bp_id (rd_players r' ! i) = bp_id (rd_players r ! i)"
    and "bp_folded (rd_players r' ! i) = (a = ActionFold)"
    and "a = ActionFold \<longrightarrow> \<not> bp_all_in (rd_players r' ! i) \<and> bp_stack (rd_players r' ! i) = bp_stack (rd_players r ! i)"
proof -
  let ?p = "rd_players r ! i"
  note acc = round_act_accepted [OF assms(1,5)]
  have "accepted r i r'" using acc(5) by simp
  then have shape: "bp_stack (rd_players r' ! i) + bp_contributed (rd_players r' ! i) =
      bp_stack ?p + bp_contributed ?p \<and> bp_contributed ?p \<le> bp_contributed (rd_players r' ! i) \<and>
      bp_id (rd_players r' ! i) = bp_id ?p"
  proof cases
    case (call d)
    then show ?thesis
      using assms(2) stack_pos [OF assms(1,2,4)] by auto
  next
    case (raised amount)
    then show ?thesis
      using assms(2) reached_bounds [OF assms(1,2) raised(2)]
      by (auto simp: raise_to_def Let_def nth_reopen_others)
  qed (use assms(2) in \<open>auto simp: act_fold_def Let_def\<close>)
  then show "bp_stack (rd_players r' ! i) + bp_contributed (rd_players r' ! i) =
      bp_stack (rd_players r ! i) + bp_contributed (rd_players r ! i)"
    "bp_contributed (rd_players r ! i) \<le> bp_contributed (rd_players r' ! i)"
    "bp_id (rd_players r' ! i) = bp_id (rd_players r ! i)" by simp_all
  have eq: "(case a of ActionFold \<Rightarrow> Inr (act_fold r i)
      | ActionCheck \<Rightarrow> act_check r i | ActionCall \<Rightarrow> act_call r i
      | ActionBet \<Rightarrow> act_raise r i amount | ActionRaise \<Rightarrow> act_raise r i amount
      | ActionOther s \<Rightarrow> Inl (UnknownAction s)) = Inr r'"
    using assms(2-5) by (simp add: round_act_def Let_def)
  show "bp_folded (rd_players r' ! i) = (a = ActionFold)"
    using eq assms(2,3) act_raise_Inr [OF assms(1,2,4), of amount r']
    by (cases a) (auto simp: act_fold_def act_check_def act_call_def Let_def raise_to_def
        nth_reopen_others split: if_splits)
  show "a = ActionFold \<longrightarrow> \<not> bp_all_in (rd_players r' ! i) \<and> bp_stack (rd_players r' ! i) = bp_stack ?p"
    using eq assms(2,4) by (auto simp: act_fold_def Let_def)
qed

section \<open>Termination of a betting round\<close>

text \<open>
  Turn order is the table's business (\<open>Act\<close> does not check it); what the table guarantees is that
  the actor still owes a decision. Under that guard every action lowers a weight: chips leave a
  stack, or one decision fewer is outstanding.
\<close>

inductive turn_step :: "bet_round \<Rightarrow> bet_round \<Rightarrow> bool" where
  act: "round_wf r \<Longrightarrow> i < length (rd_players r) \<Longrightarrow> needs_action r (rd_players r ! i) \<Longrightarrow>
    round_act r (int i) a amount = Inr r' \<Longrightarrow> turn_step r r'"

inductive_cases turn_stepE: "turn_step r r'"

definition round_weight :: "bet_round \<Rightarrow> nat" where
  "round_weight r = nat (round_stacks r) * Suc (length (rd_players r)) + pending r"

lemma pending_le: "pending r \<le> length (rd_players r)"
  by (simp add: pending_def)

lemma length_filter_update:
  assumes "i < length xs" and "P (xs ! i)" and "\<not> P y"
  shows "Suc (length (filter P (xs[i := y]))) = length (filter P xs)"
  using assms by (induction xs arbitrary: i) (auto simp: nth_Cons split: nat.splits)

lemma round_stacks_nonneg: "round_wf r \<Longrightarrow> 0 \<le> round_stacks r"
  unfolding round_stacks_def by (rule sum_list_nonneg) (auto simp: round_wf_def player_wf_def)

lemma pending_update:
  assumes "i < length (rd_players r)" and "needs_action r (rd_players r ! i)"
    and "\<not> needs_action r q" and "rd_players r' = (rd_players r)[i := q]"
    and "rd_current_bet r' = rd_current_bet r"
  shows "Suc (pending r') = pending r"
proof -
  have "needs_action r' = needs_action r"
    using assms(5) by (auto simp: needs_action_def)
  then show ?thesis
    using assms length_filter_update [of i "rd_players r" "needs_action r" q]
    by (simp add: pending_def)
qed

lemma weight_stack_down:
  assumes "round_wf r'" and "round_stacks r' < round_stacks r"
    and "length (rd_players r') = length (rd_players r)"
  shows "round_weight r' < round_weight r"
proof -
  let ?n = "length (rd_players r)"
  have "Suc (nat (round_stacks r')) \<le> nat (round_stacks r)"
    using assms(2) round_stacks_nonneg [OF assms(1)] by linarith
  then have "Suc (nat (round_stacks r')) * Suc ?n \<le> nat (round_stacks r) * Suc ?n"
    by (rule mult_le_mono1)
  moreover have "pending r' \<le> ?n"
    using pending_le [of r'] assms(3) by simp
  ultimately show ?thesis
    using assms(3) by (simp add: round_weight_def)
qed

lemma weight_pending_down:
  assumes "Suc (pending r') = pending r" and "round_stacks r' = round_stacks r"
    and "length (rd_players r') = length (rd_players r)"
  shows "round_weight r' < round_weight r"
  using assms by (simp add: round_weight_def)

lemma accepted_weight:
  assumes "round_wf r" and "i < length (rd_players r)" and "needs_action r (rd_players r ! i)"
    and "accepted r i r'"
  shows "round_weight r' < round_weight r"
proof -
  have "\<not> bp_all_in (rd_players r ! i)"
    using assms(3) by (simp add: needs_action_def)
  note wf' = accepted_wf [OF assms(1,2) this assms(4)]
  note pos = stack_pos [OF assms(1,2) \<open>\<not> bp_all_in (rd_players r ! i)\<close>]
  note len = accepted_shape(1) [OF assms(2,4)]
  from assms(4) show ?thesis
  proof cases
    case fold
    then show ?thesis
      using assms(2,3) len
      by (intro weight_pending_down pending_update [of i r])
        (auto simp: act_fold_def Let_def needs_action_def round_stacks_def sum_list_update_nth)
  next
    case check
    then show ?thesis
      using assms(2,3) len
      by (intro weight_pending_down pending_update [of i r])
        (auto simp: needs_action_def round_stacks_def sum_list_update_nth)
  next
    case (call d)
    then show ?thesis
      using assms(2) len pos
      by (intro weight_stack_down wf') (simp_all add: round_stacks_def sum_list_update_nth)
  next
    case (raised amount)
    note b = reached_bounds [OF assms(1,2) raised(2)]
    have "map bp_stack (reopen_others i ps) = map bp_stack ps" for ps
      by (rule map_reopen_others) simp
    then show ?thesis
      using raised assms(2) len b
      by (intro weight_stack_down wf')
        (simp_all add: round_stacks_def raise_to_def Let_def sum_list_update_nth)
  qed
qed

lemma turn_step_weight: "turn_step r r' \<Longrightarrow> round_wf r' \<and> round_weight r' < round_weight r"
proof (erule turn_stepE)
  fix i a amount
  assume r: "round_wf r" "i < length (rd_players r)" "needs_action r (rd_players r ! i)"
    and act: "round_act r (int i) a amount = Inr r'"
  have "\<not> bp_all_in (rd_players r ! i)" "accepted r i r'"
    using round_act_accepted [OF r(1) act] by simp_all
  then show ?thesis
    using accepted_wf accepted_weight r by blast
qed

section \<open>Progress\<close>

lemma round_act_eq:
  assumes "i < length (rd_players r)" and "\<not> bp_folded (rd_players r ! i)"
    and "\<not> bp_all_in (rd_players r ! i)"
  shows "round_act r (int i) a amount = (case a of
      ActionFold \<Rightarrow> Inr (act_fold r i) | ActionCheck \<Rightarrow> act_check r i | ActionCall \<Rightarrow> act_call r i
    | ActionBet \<Rightarrow> act_raise r i amount | ActionRaise \<Rightarrow> act_raise r i amount
    | ActionOther s \<Rightarrow> Inl (UnknownAction s))"
  using assms by (simp add: round_act_def Let_def)

lemma is_complete_pending:
  "is_complete r \<longleftrightarrow> length (filter (\<lambda>p. \<not> bp_folded p) (rd_players r)) \<le> 1 \<or> pending r = 0"
proof -
  have "pending r = 0 \<longleftrightarrow> (\<forall>p\<in>set (rd_players r). \<not> needs_action r p)"
    by (auto simp: pending_def filter_empty_conv)
  then show ?thesis
    by (auto simp: is_complete_def Let_def needs_action_def)
qed

lemma incomplete_someone_needs_action:
  assumes "\<not> is_complete r"
  obtains i where "i < length (rd_players r)" and "needs_action r (rd_players r ! i)"
proof -
  have "filter (needs_action r) (rd_players r) \<noteq> []"
    using assms by (auto simp: is_complete_pending pending_def)
  then obtain p where "p \<in> set (rd_players r)" and "needs_action r p"
    by (auto simp: filter_empty_conv)
  then show thesis
    using that by (auto simp: in_set_conv_nth)
qed

lemma fold_steps:
  "round_wf r \<Longrightarrow> i < length (rd_players r) \<Longrightarrow> needs_action r (rd_players r ! i) \<Longrightarrow>
   turn_step r (act_fold r i)"
  by (rule turn_step.act [where a = ActionFold and amount = 0])
    (auto simp: round_act_eq needs_action_def)

section \<open>Properties\<close>

definition sample_round :: bet_round where
  "sample_round = \<lparr>rd_players =
     [\<lparr>bp_id = ''a'', bp_stack = 1000, bp_contributed = 0, bp_folded = False, bp_all_in = False, bp_acted = False\<rparr>,
      \<lparr>bp_id = ''b'', bp_stack = 990, bp_contributed = 10, bp_folded = False, bp_all_in = False, bp_acted = False\<rparr>,
      \<lparr>bp_id = ''c'', bp_stack = 25, bp_contributed = 20, bp_folded = False, bp_all_in = False, bp_acted = False\<rparr>],
     rd_current_bet = 20, rd_min_raise = 20, rd_last_actor = ''''\<rparr>"

lemma sample_round_wf: "round_wf sample_round"
  by (simp add: sample_round_def round_wf_def player_wf_def)

text \<open>C22: an accepted action of a betting round moves chips only from the actor's stack to the
  actor's contribution: the round stays well formed (no stack below zero, nobody above the current
  bet, everyone not all-in still has chips), the sum of stacks and contributions is unchanged, and
  every seat of the round keeps its player's identity, the actor's included, and every other player
  keeps stack, contribution and folded/all-in flags.\<close>

theorem betting_act_conserves:
  assumes "round_wf r" and "round_act r idx a amount = Inr r'"
  shows "round_wf r' \<and> round_chips r' = round_chips r \<and>
    map bp_id (rd_players r') = map bp_id (rd_players r) \<and>
    length (rd_players r') = length (rd_players r) \<and>
    (\<forall>j<length (rd_players r). j \<noteq> nat idx \<longrightarrow>
      (rd_players r' ! j)\<lparr>bp_acted := bp_acted (rd_players r ! j)\<rparr> = rd_players r ! j)"
proof -
  note acc = round_act_accepted [OF assms]
  show ?thesis
    using accepted_wf [OF assms(1) acc(2,4,5)] accepted_chips [OF acc(2,5)]
      accepted_shape(1,2) [OF acc(2,5)] accepted_others [OF acc(2,5)]
    by simp
qed

lemma betting_act_conserves_witness:
  "\<exists>r'. round_act sample_round 0 ActionRaise 60 = Inr r' \<and> round_wf r' \<and> round_chips r' = 2045"
proof -
  have "\<exists>r'. round_act sample_round 0 ActionRaise 60 = Inr r'"
    by (simp add: sample_round_def round_act_def act_raise_def Let_def)
  then obtain r' where r': "round_act sample_round 0 ActionRaise 60 = Inr r'" ..
  show ?thesis
    using r' betting_act_conserves [OF sample_round_wf r']
    by (auto simp: round_chips_def sample_round_def)
qed

text \<open>Minimum raise and reopening. An accepted bet or raise lifts the current bet; when the lift
  reaches the minimum raise it becomes the new minimum and every other player's action is reopened,
  and when it does not (a short all-in) the raiser is all-in, the minimum raise stays and no other
  player's state changes, so nobody who already acted may raise again.\<close>

theorem betting_short_all_in_does_not_reopen:
  assumes "round_wf r" and "a = ActionBet \<or> a = ActionRaise" and "round_act r idx a amount = Inr r'"
  shows "rd_current_bet r < rd_current_bet r' \<and>
    (if rd_min_raise r \<le> rd_current_bet r' - rd_current_bet r
     then rd_min_raise r' = rd_current_bet r' - rd_current_bet r \<and>
       (\<forall>j<length (rd_players r). j \<noteq> nat idx \<longrightarrow>
          rd_players r' ! j = (rd_players r ! j)\<lparr>bp_acted := False\<rparr>)
     else rd_min_raise r' = rd_min_raise r \<and> bp_all_in (rd_players r' ! nat idx) \<and>
       (\<forall>j<length (rd_players r). j \<noteq> nat idx \<longrightarrow> rd_players r' ! j = rd_players r ! j))"
proof -
  note acc = round_act_accepted [OF assms(1,3)]
  let ?p = "rd_players r ! nat idx"
  have "act_raise r (nat idx) amount = Inr r'"
    using assms(2,3) acc(1-4) by (auto simp: round_act_def Let_def split: if_splits)
  note up = act_raise_Inr [OF assms(1) acc(2,4) this]
  note b = reached_bounds [OF assms(1) acc(2) up(1)]
  have "rd_current_bet r' = reached ?p amount"
    and "rd_min_raise r' = (if rd_min_raise r \<le> reached ?p amount - rd_current_bet r
      then reached ?p amount - rd_current_bet r else rd_min_raise r)"
    using up(2) by (simp_all add: raise_to_def Let_def)
  moreover have "bp_all_in (rd_players r' ! nat idx)"
    if "\<not> rd_min_raise r \<le> reached ?p amount - rd_current_bet r"
    using that up acc(2) by (auto simp: raise_to_def raise_ok_def reached_def Let_def)
  ultimately show ?thesis
    using accepted_others [OF acc(2,5)] b(3) by simp
qed

lemma betting_short_all_in_does_not_reopen_witness:
  "\<exists>r'. round_act sample_round 2 ActionRaise 1000 = Inr r' \<and> rd_current_bet r' = 45 \<and>
     rd_min_raise r' = 25 \<and> rd_players r' ! 1 = (rd_players sample_round ! 1)\<lparr>bp_acted := False\<rparr>"
proof -
  let ?r' = "raise_to sample_round 2 45"
  have r': "round_act sample_round 2 ActionRaise 1000 = Inr ?r'"
    by (simp add: sample_round_def round_act_def act_raise_def raise_to_def put_in_def Let_def)
  have bet: "rd_current_bet ?r' = 45"
    by (simp add: raise_to_def Let_def)
  show ?thesis
    using r' bet betting_short_all_in_does_not_reopen [OF sample_round_wf _ r']
    by (auto simp: sample_round_def)
qed

text \<open>C23: exactly which actions a betting round accepts. A player who is in range, not folded and not
  all-in may always fold; may check only when matching the bet and call only when owing; may bet or
  raise only if not closed out by an earlier action, only to a total above the current bet, by at
  least the minimum raise or with the whole stack. Everything else is an error.\<close>

theorem betting_accepts_iff:
  assumes "round_wf r"
  shows "(\<exists>r'. round_act r idx a amount = Inr r') \<longleftrightarrow>
    0 \<le> idx \<and> nat idx < length (rd_players r) \<and>
    (let p = rd_players r ! nat idx; whole = bp_contributed p + bp_stack p
     in \<not> bp_folded p \<and> \<not> bp_all_in p \<and>
       (case a of ActionFold \<Rightarrow> True
        | ActionCheck \<Rightarrow> bp_contributed p = rd_current_bet r
        | ActionCall \<Rightarrow> bp_contributed p < rd_current_bet r
        | ActionOther s \<Rightarrow> False
        | _ \<Rightarrow> \<not> bp_acted p \<and> rd_current_bet r < min amount whole \<and>
            (rd_min_raise r \<le> min amount whole - rd_current_bet r \<or> whole \<le> amount)))"
proof (cases "0 \<le> idx \<and> nat idx < length (rd_players r) \<and> \<not> bp_folded (rd_players r ! nat idx) \<and>
    \<not> bp_all_in (rd_players r ! nat idx)")
  case True
  let ?p = "rd_players r ! nat idx"
  have wf: "player_wf (rd_current_bet r) ?p"
    using assms True by (simp add: round_wfD)
  have "bp_contributed ?p \<le> rd_current_bet r"
    using wf by (simp add: player_wf_def)
  moreover have "(\<exists>r'. act_raise r (nat idx) amount = Inr r') \<longleftrightarrow> raise_ok r ?p amount"
    using act_raise_ok [OF wf, of amount] True by (cases "raise_ok r ?p amount") auto
  moreover have "round_act r idx a amount = (case a of
      ActionFold \<Rightarrow> Inr (act_fold r (nat idx)) | ActionCheck \<Rightarrow> act_check r (nat idx)
    | ActionCall \<Rightarrow> act_call r (nat idx) | ActionBet \<Rightarrow> act_raise r (nat idx) amount
    | ActionRaise \<Rightarrow> act_raise r (nat idx) amount | ActionOther s \<Rightarrow> Inl (UnknownAction s))"
    using round_act_eq [of "nat idx" r a amount] True by simp
  ultimately show ?thesis
    using True
    by (cases a) (auto simp: act_check_def act_call_def raise_ok_def reached_def Let_def)
next
  case False
  then show ?thesis
    by (auto simp: round_act_def Let_def)
qed

lemma betting_accepts_iff_witness:
  "(\<exists>r'. round_act sample_round 1 ActionCall 0 = Inr r') \<and>
   \<not> (\<exists>r'. round_act sample_round 1 ActionCheck 0 = Inr r') \<and>
   \<not> (\<exists>r'. round_act sample_round 0 ActionRaise 30 = Inr r')"
  using betting_accepts_iff [OF sample_round_wf, of 1 ActionCall 0]
    betting_accepts_iff [OF sample_round_wf, of 1 ActionCheck 0]
    betting_accepts_iff [OF sample_round_wf, of 0 ActionRaise 30]
  by (simp add: sample_round_def Let_def)

text \<open>C24: a betting round ends. Starting from a well-formed round, the number of accepted actions by
  players who still owe a decision is bounded by the round's weight (chips behind times seats, plus
  outstanding decisions); and a run that cannot be extended has reached \<open>IsComplete\<close>.\<close>

theorem betting_round_terminates:
  assumes "round_wf r" and "(turn_step ^^ n) r r'"
  shows "n \<le> round_weight r \<and> ((\<nexists>r''. turn_step r' r'') \<longrightarrow> is_complete r')"
proof
  have run: "round_wf r' \<and> n + round_weight r' \<le> round_weight r"
    using assms(2)
  proof (induction n arbitrary: r')
    case 0
    then show ?case using assms(1) by simp
  next
    case (Suc n)
    then obtain s where "(turn_step ^^ n) r s" and "turn_step s r'" by auto
    with Suc.IH [of s] turn_step_weight [of s r'] show ?case by auto
  qed
  then show "n \<le> round_weight r" by simp
  show "(\<nexists>r''. turn_step r' r'') \<longrightarrow> is_complete r'"
    using run fold_steps [of r'] incomplete_someone_needs_action [of r'] by metis
qed

lemma betting_round_terminates_witness:
  "(turn_step ^^ 1) sample_round (act_fold sample_round 0) \<and> 1 \<le> round_weight sample_round"
proof -
  have step: "(turn_step ^^ 1) sample_round (act_fold sample_round 0)"
    unfolding relpowp_1
    by (rule fold_steps [OF sample_round_wf]) (simp_all add: sample_round_def needs_action_def)
  then show ?thesis
    using betting_round_terminates [OF sample_round_wf step] by blast
qed

end
