(* ===== verification/Side_Pots.thy ===== *)
theory Side_Pots
  imports Poker_Prelude
begin

text \<open>
  The side-pot computation of \<open>api/internal/engine/sidepots/sidepots.go\<close>: \<open>ComputeSidePots\<close> cuts
  the contributions of a hand into layers. The two nested loops are folds, with the code's local
  variables as the state of the outer one; the lemmas replace the inner loop by its closed form.
  The interface the showdown relies on is the locale \<open>pot_splitter\<close>, interpreted here.
\<close>

record contribution =
  co_player :: string
  co_amount :: int
  co_folded :: bool

record pot_layer =
  pl_amount :: int
  pl_eligible :: "string list"
  pl_uncalled :: bool

section \<open>The computation\<close>

definition top_live :: "contribution list \<Rightarrow> int" where
  "top_live cs = fold (\<lambda>c top. if \<not> co_folded c \<and> co_amount c > top then co_amount c else top) cs 0"

text \<open>Layer boundaries: every live amount, and folded amounts above all live ones.\<close>

definition boundary_levels :: "contribution list \<Rightarrow> int list" where
  "boundary_levels cs = remdups_adj (sort (map co_amount
     (filter (\<lambda>c. 0 < co_amount c \<and> (\<not> co_folded c \<or> co_amount c > top_live cs)) cs)))"

text \<open>One pass over the contributions for the band between \<open>prev\<close> and \<open>level\<close>.\<close>

record band =
  bd_amount :: int
  bd_contributors :: nat
  bd_sole :: string
  bd_eligible :: "string list"

definition band_add :: "int \<Rightarrow> int \<Rightarrow> contribution \<Rightarrow> band \<Rightarrow> band" where
  "band_add prev level c b =
     (let lo = min (co_amount c) prev; hi = min (co_amount c) level;
          b1 = (if hi > lo
                then b\<lparr>bd_amount := bd_amount b + (hi - lo),
                       bd_contributors := Suc (bd_contributors b), bd_sole := co_player c\<rparr>
                else b)
      in if \<not> co_folded c \<and> co_amount c \<ge> level
         then b1\<lparr>bd_eligible := bd_eligible b1 @ [co_player c]\<rparr> else b1)"

definition band_of :: "contribution list \<Rightarrow> int \<Rightarrow> int \<Rightarrow> band" where
  "band_of cs prev level = fold (band_add prev level) cs
     \<lparr>bd_amount = 0, bd_contributors = 0, bd_sole = '''', bd_eligible = []\<rparr>"

record pot_scan =
  sc_layers :: "pot_layer list"
  sc_last_contested :: int
  sc_prev :: int
  sc_dead :: int

definition layer_add :: "int \<Rightarrow> pot_layer \<Rightarrow> pot_layer" where
  "layer_add d l = l\<lparr>pl_amount := pl_amount l + d\<rparr>"

definition level_step :: "contribution list \<Rightarrow> int \<Rightarrow> pot_scan \<Rightarrow> pot_scan" where
  "level_step cs level st =
     (let b = band_of cs (sc_prev st) level;
          st1 = st\<lparr>sc_prev := level\<rparr>
      in if bd_amount b = 0 then st1
         else if bd_contributors b = 1
         then st1\<lparr>sc_layers := sc_layers st @
                [\<lparr>pl_amount = bd_amount b, pl_eligible = [bd_sole b], pl_uncalled = True\<rparr>]\<rparr>
         else if bd_eligible b = []
         then (if sc_last_contested st \<ge> 0
               then let k = nat (sc_last_contested st)
                    in st1\<lparr>sc_layers := (sc_layers st)[k := layer_add (bd_amount b) (sc_layers st ! k)]\<rparr>
               else st1\<lparr>sc_dead := sc_dead st + bd_amount b\<rparr>)
         else st1\<lparr>sc_layers := sc_layers st @
                [\<lparr>pl_amount = bd_amount b + sc_dead st, pl_eligible = bd_eligible b, pl_uncalled = False\<rparr>],
                sc_dead := 0, sc_last_contested := int (length (sc_layers st))\<rparr>)"

definition scan_levels :: "contribution list \<Rightarrow> int list \<Rightarrow> pot_scan" where
  "scan_levels cs levels = fold (level_step cs) levels
     \<lparr>sc_layers = [], sc_last_contested = -1, sc_prev = 0, sc_dead = 0\<rparr>"

definition compute_side_pots :: "contribution list \<Rightarrow> pot_layer list" where
  "compute_side_pots cs =
     (let levels = boundary_levels cs
      in if levels = [] then []
         else let st = scan_levels cs levels; layers = sc_layers st
              in if sc_dead st > 0
                 then (if layers \<noteq> []
                       then layers[length layers - 1 := layer_add (sc_dead st) (last layers)]
                       else [\<lparr>pl_amount = sc_dead st,
                              pl_eligible = map co_player (filter (\<lambda>c. co_amount c > 0) cs),
                              pl_uncalled = True\<rparr>])
                 else layers)"

section \<open>Closed forms\<close>

text \<open>The chips lying below a level: what each contribution put in, cut at the level.\<close>

definition below :: "contribution list \<Rightarrow> int \<Rightarrow> int" where
  "below cs l = (\<Sum>c\<leftarrow>cs. max 0 (min (co_amount c) l))"

definition put_total :: "contribution list \<Rightarrow> int" where
  "put_total cs = (\<Sum>c\<leftarrow>cs. max 0 (co_amount c))"

definition above :: "contribution list \<Rightarrow> int \<Rightarrow> contribution list" where
  "above cs l = filter (\<lambda>c. co_amount c > l) cs"

definition live_at :: "contribution list \<Rightarrow> int \<Rightarrow> string list" where
  "live_at cs l = map co_player (filter (\<lambda>c. \<not> co_folded c \<and> co_amount c \<ge> l) cs)"

definition layer_total :: "pot_layer list \<Rightarrow> int" where
  "layer_total ls = (\<Sum>l\<leftarrow>ls. pl_amount l)"

lemma below_Cons: "below (c # cs) l = max 0 (min (co_amount c) l) + below cs l"
  by (simp add: below_def)

lemma below_zero [simp]: "below cs 0 = 0"
  by (induction cs) (simp_all add: below_def)

lemma below_mono: "l \<le> l' \<Longrightarrow> below cs l \<le> below cs l'"
  unfolding below_def by (rule sum_list_mono) simp

lemma band_fold:
  assumes "0 \<le> prev" and "prev < level"
  shows "fold (band_add prev level) cs b =
    \<lparr>bd_amount = bd_amount b + (below cs level - below cs prev),
     bd_contributors = bd_contributors b + length (above cs prev),
     bd_sole = (if above cs prev = [] then bd_sole b else co_player (last (above cs prev))),
     bd_eligible = bd_eligible b @ live_at cs level\<rparr>"
proof (induction cs arbitrary: b)
  case Nil
  then show ?case by (simp add: below_def above_def live_at_def)
next
  case (Cons c cs)
  have "min (co_amount c) prev < min (co_amount c) level \<longleftrightarrow> prev < co_amount c"
    using assms by auto
  then show ?case
    using assms Cons.IH
    by (auto simp: band_add_def below_Cons above_def live_at_def Let_def)
qed

lemma band_of_eq:
  assumes "0 \<le> prev" and "prev < level"
  shows "bd_amount (band_of cs prev level) = below cs level - below cs prev"
    and "bd_contributors (band_of cs prev level) = length (above cs prev)"
    and "above cs prev \<noteq> [] \<Longrightarrow> bd_sole (band_of cs prev level) = co_player (last (above cs prev))"
    and "bd_eligible (band_of cs prev level) = live_at cs level"
  using band_fold [OF assms] by (simp_all add: band_of_def)

lemma fold_max:
  "fold (\<lambda>c top. if \<not> co_folded c \<and> co_amount c > top then co_amount c else top) cs (t::int) =
   Max (insert t (co_amount ` {c \<in> set cs. \<not> co_folded c}))"
proof (induction cs arbitrary: t)
  case Nil
  then show ?case by simp
next
  case (Cons c cs)
  have fin: "finite (co_amount ` {c \<in> set cs. \<not> co_folded c})" by simp
  have split: "{x \<in> set (c # cs). \<not> co_folded x} =
    (if co_folded c then {} else {c}) \<union> {x \<in> set cs. \<not> co_folded x}"
    by auto
  have rest: "Max (insert u (insert v S)) = Max (insert (max u v) S)" if "finite S"
    for u v :: int and S
    using that by (cases "S = {}") (simp_all add: max.assoc)
  show ?case
    using Cons.IH rest [OF fin] unfolding split by (auto simp: max_def insert_commute)
qed

lemma top_live_ge: "c \<in> set cs \<Longrightarrow> \<not> co_folded c \<Longrightarrow> co_amount c \<le> top_live cs"
  unfolding top_live_def fold_max by (rule Max_ge) auto

lemma top_live_nonneg [simp]: "0 \<le> top_live cs"
  unfolding top_live_def fold_max by (rule Max_ge) auto

lemma top_live_pos_iff: "0 < top_live cs \<or> top_live cs = 0"
  using top_live_nonneg [of cs] by linarith

lemma top_live_attained:
  assumes "0 < top_live cs"
  obtains c where "c \<in> set cs" and "\<not> co_folded c" and "co_amount c = top_live cs"
proof -
  let ?S = "insert 0 (co_amount ` {c \<in> set cs. \<not> co_folded c})"
  have "Max ?S \<in> ?S" by (rule Max_in) auto
  then have "top_live cs \<in> ?S" unfolding top_live_def fold_max .
  with assms that show thesis by auto
qed

lemma set_levels:
  "set (boundary_levels cs) = co_amount `
     {c \<in> set cs. 0 < co_amount c \<and> (\<not> co_folded c \<or> co_amount c > top_live cs)}"
  by (auto simp: boundary_levels_def)

lemma strict_remdups_adj: "sorted xs \<Longrightarrow> sorted_wrt (<) (remdups_adj (xs :: int list))"
  by (induction xs rule: remdups_adj.induct) auto

lemma top_live_level: "0 < top_live cs \<Longrightarrow> top_live cs \<in> set (boundary_levels cs)"
proof -
  assume T: "0 < top_live cs"
  obtain c where "c \<in> set cs" "\<not> co_folded c" "co_amount c = top_live cs"
    using T by (rule top_live_attained)
  with T show ?thesis unfolding set_levels by (intro image_eqI [of _ _ c]) auto
qed

lemma levels_strict: "sorted_wrt (<) (boundary_levels cs)"
  by (simp add: boundary_levels_def strict_remdups_adj)

lemma level_pos: "l \<in> set (boundary_levels cs) \<Longrightarrow> 0 < l"
  by (auto simp: set_levels)

lemma live_at_nonempty: "0 < l \<Longrightarrow> live_at cs l \<noteq> [] \<longleftrightarrow> l \<le> top_live cs"
proof
  assume "0 < l" and "live_at cs l \<noteq> []"
  then show "l \<le> top_live cs"
    by (auto simp: live_at_def filter_empty_conv intro: order_trans top_live_ge)
next
  assume l: "0 < l" "l \<le> top_live cs"
  then have "0 < top_live cs" by simp
  then obtain c where "c \<in> set cs" "\<not> co_folded c" "co_amount c = top_live cs"
    by (rule top_live_attained)
  with l(2) show "live_at cs l \<noteq> []" by (auto simp: live_at_def filter_empty_conv)
qed

section \<open>The scan's invariant\<close>

text \<open>Consecutive boundaries: no live amount falls strictly between them.\<close>

definition next_level :: "contribution list \<Rightarrow> int \<Rightarrow> int \<Rightarrow> bool" where
  "next_level cs l n \<longleftrightarrow> 0 \<le> l \<and> l < n \<and> (\<exists>c\<in>set cs. co_amount c = n) \<and>
     (\<forall>c\<in>set cs. \<not> co_folded c \<longrightarrow> co_amount c \<le> l \<or> n \<le> co_amount c)"

fun level_chain :: "contribution list \<Rightarrow> int \<Rightarrow> int list \<Rightarrow> bool" where
  "level_chain cs l [] = True"
| "level_chain cs l (n # ns) = (next_level cs l n \<and> level_chain cs n ns)"

lemma level_chainI:
  assumes "sorted_wrt (<) (l # ns)" and "0 \<le> l" and "set ns \<subseteq> co_amount ` set cs"
    and "\<forall>c\<in>set cs. \<not> co_folded c \<longrightarrow> co_amount c \<le> l \<or> co_amount c \<in> set ns"
  shows "level_chain cs l ns"
  using assms
proof (induction ns arbitrary: l)
  case Nil
  then show ?case by simp
next
  case (Cons n ns)
  have "level_chain cs n ns"
    using Cons.prems by (intro Cons.IH) auto
  moreover have "next_level cs l n"
    using Cons.prems by (fastforce simp: next_level_def)
  ultimately show ?case by simp
qed

lemma boundary_chain: "level_chain cs 0 (boundary_levels cs)"
proof (rule level_chainI)
  show "sorted_wrt (<) (0 # boundary_levels cs)"
    using levels_strict [of cs] by (auto dest: level_pos)
qed (auto simp: set_levels)

definition elig_total :: "string \<Rightarrow> pot_layer list \<Rightarrow> int" where
  "elig_total p ls = (\<Sum>l\<leftarrow>ls. if p \<in> set (pl_eligible l) then pl_amount l else 0)"

definition layer_ok :: "contribution list \<Rightarrow> pot_layer \<Rightarrow> bool" where
  "layer_ok cs l \<longleftrightarrow> 0 < pl_amount l \<and>
     (if pl_uncalled l
      then (\<exists>c lo. above cs lo = [c] \<and> pl_eligible l = [co_player c] \<and> 0 \<le> lo \<and>
              pl_amount l = co_amount c - lo \<and> (lo = 0 \<or> lo \<in> co_amount ` set cs))
      else (\<exists>a. 0 < a \<and> a \<le> top_live cs \<and> pl_eligible l = live_at cs a))"

definition scan_inv :: "contribution list \<Rightarrow> pot_scan \<Rightarrow> bool" where
  "scan_inv cs st \<longleftrightarrow>
     (let l = sc_prev st; ls = sc_layers st
      in 0 \<le> l \<and> (l = 0 \<or> l \<in> co_amount ` set cs) \<and>
         layer_total ls + sc_dead st = below cs l \<and> 0 \<le> sc_dead st \<and>
         (0 < top_live cs \<longrightarrow> sc_dead st = 0) \<and> (\<forall>x\<in>set ls. layer_ok cs x) \<and>
         (above cs l \<noteq> [] \<longrightarrow>
            (if l = 0 \<or> top_live cs = 0 then sc_last_contested st = -1
             else \<exists>k<length ls. sc_last_contested st = int k \<and> \<not> pl_uncalled (ls ! k) \<and>
                    pl_eligible (ls ! k) = live_at cs (min l (top_live cs)))))"

lemma below_step_pos: "next_level cs l n \<Longrightarrow> below cs l < below cs n"
proof -
  assume n: "next_level cs l n"
  then obtain c where c: "c \<in> set cs" "co_amount c = n" and l: "0 \<le> l" "l < n"
    by (auto simp: next_level_def)
  let ?f = "\<lambda>c. max 0 (min (co_amount c) n) - max 0 (min (co_amount c) l)"
  have "0 < ?f c" using c l by simp
  also have "?f c \<le> (\<Sum>c\<leftarrow>cs. ?f c)"
    using c(1) l by (intro sum_list_nonneg_le) auto
  also have "\<dots> = below cs n - below cs l"
    by (simp add: below_def sum_list_subtractf)
  finally show ?thesis by simp
qed

lemma above_nonempty: "next_level cs l n \<Longrightarrow> above cs l \<noteq> []"
  by (auto simp: next_level_def above_def filter_empty_conv)

lemma above_single:
  assumes "above cs l = [c]"
  shows "c \<in> set cs" and "l < co_amount c" and "\<And>x. x \<in> set cs \<Longrightarrow> l < co_amount x \<Longrightarrow> x = c"
proof -
  have "{x \<in> set cs. l < co_amount x} = {c}"
    using arg_cong [OF assms, of set] by (simp add: above_def)
  then show "c \<in> set cs" and "l < co_amount c"
    and "\<And>x. x \<in> set cs \<Longrightarrow> l < co_amount x \<Longrightarrow> x = c"
    by auto
qed

lemma sole_level:
  assumes "next_level cs l n" and "length (above cs l) = 1"
  obtains c where "above cs l = [c]" and "co_amount c = n" and "above cs n = []"
proof -
  obtain c where c: "above cs l = [c]"
    using assms(2) by (auto simp: length_Suc_conv)
  obtain c' where c': "c' \<in> set cs" "co_amount c' = n" and l: "l < n"
    using assms(1) by (auto simp: next_level_def)
  have "c' \<in> set (above cs l)" using c' l by (simp add: above_def)
  then have "co_amount c = n" using c c' by simp
  moreover have "above cs n = filter (\<lambda>c. co_amount c > n) (above cs l)"
    using l by (auto simp: above_def intro!: filter_cong)
  ultimately have "above cs n = []" using c by simp
  with c \<open>co_amount c = n\<close> show thesis by (rule that)
qed

lemma below_sole:
  assumes "above cs l = [c]" and "0 \<le> l" and "l < co_amount c"
  shows "below cs (co_amount c) - below cs l = co_amount c - l"
proof -
  let ?n = "co_amount c"
  let ?f = "\<lambda>x. max 0 (min (co_amount x) ?n) - max 0 (min (co_amount x) l)"
  have zero: "?f x = 0" if "x \<in> set cs" "\<not> l < co_amount x" for x
    using that assms by auto
  have "below cs ?n - below cs l = (\<Sum>x\<leftarrow>cs. ?f x)"
    by (simp add: below_def sum_list_subtractf)
  also have "\<dots> = (\<Sum>x\<leftarrow>above cs l. ?f x)"
    using zero unfolding above_def by (induction cs) auto
  also have "\<dots> = ?n - l" using assms by simp
  finally show ?thesis .
qed

text \<open>The three things a band can become, with what the code tests resolved.\<close>

lemma level_step_cases:
  assumes "next_level cs (sc_prev st) n"
  defines "d \<equiv> below cs n - below cs (sc_prev st)"
  shows "level_step cs n st =
    (if length (above cs (sc_prev st)) = 1
     then st\<lparr>sc_prev := n, sc_layers := sc_layers st @
            [\<lparr>pl_amount = d, pl_eligible = [co_player (last (above cs (sc_prev st)))], pl_uncalled = True\<rparr>]\<rparr>
     else if top_live cs < n
     then (if sc_last_contested st \<ge> 0
           then st\<lparr>sc_prev := n, sc_layers := (sc_layers st)[nat (sc_last_contested st) :=
                  layer_add d (sc_layers st ! nat (sc_last_contested st))]\<rparr>
           else st\<lparr>sc_prev := n, sc_dead := sc_dead st + d\<rparr>)
     else st\<lparr>sc_prev := n, sc_layers := sc_layers st @
            [\<lparr>pl_amount = d + sc_dead st, pl_eligible = live_at cs n, pl_uncalled = False\<rparr>],
            sc_dead := 0, sc_last_contested := int (length (sc_layers st))\<rparr>)"
proof -
  have l: "0 \<le> sc_prev st" "sc_prev st < n" using assms(1) by (auto simp: next_level_def)
  have "d \<noteq> 0" using below_step_pos [OF assms(1)] by (simp add: d_def)
  moreover have "live_at cs n = [] \<longleftrightarrow> top_live cs < n"
    using live_at_nonempty [of n cs] l by auto
  ultimately show ?thesis
    using above_nonempty [OF assms(1)] l
    by (simp add: level_step_def band_of_eq d_def Let_def)
qed

lemma layer_total_simps [simp]:
  "layer_total [] = 0"
  "layer_total (l # ls) = pl_amount l + layer_total ls"
  "layer_total (ls @ ls') = layer_total ls + layer_total ls'"
  by (simp_all add: layer_total_def)

lemma layer_add_simps [simp]:
  "pl_amount (layer_add d l) = pl_amount l + d"
  "pl_eligible (layer_add d l) = pl_eligible l"
  "pl_uncalled (layer_add d l) = pl_uncalled l"
  by (simp_all add: layer_add_def)

lemma layer_total_add:
  "k < length ls \<Longrightarrow> layer_total (ls[k := layer_add d (ls ! k)]) = layer_total ls + d"
  by (simp add: layer_total_def sum_list_update_nth)

lemma top_live_between: "next_level cs l n \<Longrightarrow> top_live cs \<le> l \<or> n \<le> top_live cs"
proof (cases "0 < top_live cs")
  case True
  assume "next_level cs l n"
  with top_live_attained [OF True] show ?thesis by (metis next_level_def)
qed (auto simp: next_level_def)

lemma layer_ok_add: "layer_ok cs l \<Longrightarrow> \<not> pl_uncalled l \<Longrightarrow> 0 \<le> d \<Longrightarrow> layer_ok cs (layer_add d l)"
  by (auto simp: layer_ok_def)

lemma level_step_inv:
  assumes "scan_inv cs st" and "next_level cs (sc_prev st) n"
  shows "scan_inv cs (level_step cs n st) \<and> sc_prev (level_step cs n st) = n"
proof -
  let ?l = "sc_prev st" and ?T = "top_live cs"
  let ?d = "below cs n - below cs ?l"
  note step = level_step_cases [OF assms(2)]
  have l: "0 \<le> ?l" "?l < n" "n \<in> co_amount ` set cs"
    using assms(2) by (auto simp: next_level_def)
  have d: "0 < ?d" using below_step_pos [OF assms(2)] by simp
  note ab = above_nonempty [OF assms(2)]
  note inv = assms(1) [unfolded scan_inv_def Let_def]
  consider (sole) "length (above cs ?l) = 1"
    | (dead) "length (above cs ?l) \<noteq> 1" "?T < n"
    | (contested) "length (above cs ?l) \<noteq> 1" "n \<le> ?T"
    by linarith
  then show ?thesis
  proof cases
    case sole
    then obtain c where c: "above cs ?l = [c]" "co_amount c = n" "above cs n = []"
      using sole_level [OF assms(2)] by blast
    have "layer_ok cs \<lparr>pl_amount = ?d, pl_eligible = [co_player c], pl_uncalled = True\<rparr>"
      using below_sole [OF c(1) l(1)] c d l(2) inv by (auto simp: layer_ok_def)
    then show ?thesis
      using step sole inv c l d by (auto simp: scan_inv_def Let_def)
  next
    case dead
    then have T: "?T \<le> ?l" using top_live_between [OF assms(2)] by auto
    show ?thesis
    proof (cases "?T = 0")
      case True
      then have "sc_last_contested st = -1" using inv ab by simp
      then show ?thesis
        using step dead inv True l d by (auto simp: scan_inv_def Let_def)
    next
      case False
      then have "0 < ?T" using top_live_nonneg [of cs] by linarith
      then obtain k where k: "k < length (sc_layers st)" "sc_last_contested st = int k"
          "\<not> pl_uncalled (sc_layers st ! k)" "pl_eligible (sc_layers st ! k) = live_at cs ?T"
        using inv ab T False by (auto simp: min_def)
      have "layer_ok cs (sc_layers st ! k)"
        using inv k(1) by simp
      then have "layer_ok cs (layer_add ?d (sc_layers st ! k))"
        using k(3) d by (intro layer_ok_add) auto
      then have "\<forall>x\<in>set ((sc_layers st)[k := layer_add ?d (sc_layers st ! k)]). layer_ok cs x"
        using inv by (auto dest!: set_update_subset_insert [THEN subsetD])
      then show ?thesis
        using step dead inv k l d T \<open>0 < ?T\<close>
        by (auto simp: scan_inv_def Let_def layer_total_add min_def)
    qed
  next
    case contested
    have "0 < n" using l by simp
    then have "0 < ?T" using contested by simp
    then have dead0: "sc_dead st = 0" using inv by simp
    have "layer_ok cs \<lparr>pl_amount = ?d, pl_eligible = live_at cs n, pl_uncalled = False\<rparr>"
      using d \<open>0 < n\<close> contested by (auto simp: layer_ok_def)
    then show ?thesis
      using step contested inv l d dead0 \<open>0 < n\<close> \<open>0 < ?T\<close>
      by (auto simp: scan_inv_def Let_def nth_append min_def)
  qed
qed

lemma scan_levels_inv:
  assumes "scan_inv cs st" and "level_chain cs (sc_prev st) ns"
  shows "scan_inv cs (fold (level_step cs) ns st) \<and>
    sc_prev (fold (level_step cs) ns st) = (if ns = [] then sc_prev st else last ns)"
  using assms
proof (induction ns arbitrary: st)
  case (Cons n ns)
  have "next_level cs (sc_prev st) n" using Cons.prems(2) by simp
  note s = level_step_inv [OF Cons.prems(1) this]
  then show ?case using Cons.IH [of "level_step cs n st"] Cons.prems(2) by auto
qed simp

lemma scan_final:
  assumes "boundary_levels cs \<noteq> []"
  shows "scan_inv cs (scan_levels cs (boundary_levels cs))"
    and "sc_prev (scan_levels cs (boundary_levels cs)) = last (boundary_levels cs)"
proof -
  let ?st = "\<lparr>sc_layers = [], sc_last_contested = -1, sc_prev = 0, sc_dead = 0\<rparr>"
  have "scan_inv cs ?st" by (simp add: scan_inv_def Let_def)
  from scan_levels_inv [OF this, of "boundary_levels cs"] boundary_chain [of cs] assms
  show "scan_inv cs (scan_levels cs (boundary_levels cs))"
    and "sc_prev (scan_levels cs (boundary_levels cs)) = last (boundary_levels cs)"
    by (simp_all add: scan_levels_def)
qed

text \<open>The last boundary is the largest contribution, so everything lies below it.\<close>

lemma amount_le_last:
  assumes "boundary_levels cs \<noteq> []" and "c \<in> set cs"
  shows "co_amount c \<le> last (boundary_levels cs)"
proof -
  have "sorted (boundary_levels cs)"
    using levels_strict [of cs] strict_sorted_iff by blast
  note le = sorted_le_last [OF this]
  have pos: "0 < last (boundary_levels cs)"
    by (rule level_pos [OF last_in_set [OF assms(1)]])
  show ?thesis
  proof (cases "0 < co_amount c \<and> (\<not> co_folded c \<or> co_amount c > top_live cs)")
    case True
    then show ?thesis using assms(2) by (intro le) (auto simp: set_levels)
  next
    case False
    show ?thesis
    proof (cases "0 < top_live cs")
      case True
      from le [OF top_live_level [OF this]] show ?thesis using False pos by auto
    next
      case nT: False
      then show ?thesis using False pos by auto
    qed
  qed
qed

lemma below_last: "boundary_levels cs \<noteq> [] \<Longrightarrow> below cs (last (boundary_levels cs)) = put_total cs"
  unfolding below_def put_total_def
  by (rule arg_cong [where f = sum_list], rule map_cong) (auto dest: amount_le_last)

lemma no_levels: "boundary_levels cs = [] \<longleftrightarrow> (\<forall>c\<in>set cs. co_amount c \<le> 0)"
proof
  assume "boundary_levels cs = []"
  then have none: "\<not> (0 < co_amount c \<and> (\<not> co_folded c \<or> co_amount c > top_live cs))"
    if "c \<in> set cs" for c
    using that set_levels [of cs] by auto
  have "\<not> 0 < top_live cs"
    using none top_live_attained [of cs] by metis
  with none show "\<forall>c\<in>set cs. co_amount c \<le> 0"
    by (meson not_less order_trans)
next
  assume "\<forall>c\<in>set cs. co_amount c \<le> 0"
  then have "set (boundary_levels cs) = {}" by (auto simp: set_levels)
  then show "boundary_levels cs = []" by simp
qed

section \<open>Which band of chips a layer holds\<close>

text \<open>
  The layer at position \<open>i\<close> holds the chips above \<open>lo\<close> up to what some live player put in: the layers
  before it hold everything below \<open>lo\<close>, no live player stopped in between, and who reached the upper
  end is eligible. The last contested layer may also hold dead chips from above.
\<close>

definition band_layer :: "contribution list \<Rightarrow> pot_layer list \<Rightarrow> nat \<Rightarrow> bool" where
  "band_layer cs ls i \<longleftrightarrow> (\<exists>c0\<in>set cs. \<exists>lo\<ge>0. \<not> co_folded c0 \<and> lo < co_amount c0 \<and>
     (\<forall>c\<in>set cs. \<not> co_folded c \<longrightarrow> co_amount c \<le> lo \<or> co_amount c0 \<le> co_amount c) \<and>
     pl_eligible (ls ! i) = live_at cs (co_amount c0) \<and> layer_total (take i ls) = below cs lo \<and>
     (if co_amount c0 < top_live cs then layer_total (take (Suc i) ls) = below cs (co_amount c0)
      else below cs (co_amount c0) \<le> layer_total (take (Suc i) ls)))"

lemma band_layer_append: "i < length ls \<Longrightarrow> band_layer cs (ls @ ms) i = band_layer cs ls i"
  by (simp add: band_layer_def nth_append)

lemma band_layer_update: "i < k \<Longrightarrow> band_layer cs (ls[k := x]) i = band_layer cs ls i"
  by (simp add: band_layer_def)

lemma below_live_strict:
  assumes "c \<in> set cs" and "0 \<le> l" and "l < n" and "n \<le> co_amount c"
  shows "below cs l < below cs n"
proof -
  let ?f = "\<lambda>c. max 0 (min (co_amount c) n) - max 0 (min (co_amount c) l)"
  have "0 < ?f c" using assms by simp
  also have "?f c \<le> (\<Sum>c\<leftarrow>cs. ?f c)"
    using assms by (intro sum_list_nonneg_le) auto
  also have "\<dots> = below cs n - below cs l"
    by (simp add: below_def sum_list_subtractf)
  finally show ?thesis by simp
qed

definition bands_inv :: "contribution list \<Rightarrow> pot_scan \<Rightarrow> bool" where
  "bands_inv cs st \<longleftrightarrow>
     (let ls = sc_layers st
      in (\<forall>i<length ls. \<not> pl_uncalled (ls ! i) \<longrightarrow> band_layer cs ls i) \<and>
         (above cs (sc_prev st) \<noteq> [] \<longrightarrow> sc_last_contested st = int (length ls) - 1))"

text \<open>Dead chips on top go to the last contested layer, which reaches the top live amount.\<close>

lemma band_layer_dead:
  assumes "0 < top_live cs" and "band_layer cs ls k" and "Suc k = length ls"
    and "layer_total ls = below cs l" and "top_live cs \<le> l" and "0 \<le> d"
  shows "band_layer cs (ls[k := layer_add d (ls ! k)]) k"
proof -
  obtain c0 lo where c0: "c0 \<in> set cs" "0 \<le> lo" "\<not> co_folded c0" "lo < co_amount c0"
      "\<forall>c\<in>set cs. \<not> co_folded c \<longrightarrow> co_amount c \<le> lo \<or> co_amount c0 \<le> co_amount c"
      "pl_eligible (ls ! k) = live_at cs (co_amount c0)" "layer_total (take k ls) = below cs lo"
      "if co_amount c0 < top_live cs then layer_total (take (Suc k) ls) = below cs (co_amount c0)
       else below cs (co_amount c0) \<le> layer_total (take (Suc k) ls)"
    using assms(2) unfolding band_layer_def by metis
  have all: "take (Suc k) ls = ls" using assms(3) by simp
  obtain t where t: "t \<in> set cs" "co_amount t = top_live cs"
    using top_live_attained [OF assms(1)] by blast
  have top: "\<not> co_amount c0 < top_live cs"
  proof
    assume lt: "co_amount c0 < top_live cs"
    have "below cs (co_amount c0) < below cs (top_live cs)"
      using below_live_strict [OF t(1), of "co_amount c0" "top_live cs"] lt t(2) c0(2,4) by simp
    also have "\<dots> \<le> below cs l" by (rule below_mono [OF assms(5)])
    finally show False using c0(8) lt all assms(4) by simp
  qed
  have k: "k < length ls" using assms(3) by simp
  have "take (Suc k) (ls[k := layer_add d (ls ! k)]) = ls[k := layer_add d (ls ! k)]"
    using assms(3) by simp
  then have "below cs (co_amount c0) \<le> layer_total (take (Suc k) (ls[k := layer_add d (ls ! k)]))"
    using c0(8) top all assms(6) layer_total_add [OF k, of d] by simp
  moreover have "pl_eligible (ls[k := layer_add d (ls ! k)] ! k) = live_at cs (co_amount c0)"
    using c0(6) k by simp
  moreover have "layer_total (take k (ls[k := layer_add d (ls ! k)])) = below cs lo"
    using c0(7) by simp
  ultimately show ?thesis
    unfolding band_layer_def using c0(1-5) top by auto
qed

lemma level_step_bands:
  assumes "scan_inv cs st" and "next_level cs (sc_prev st) n" and "n \<in> set (boundary_levels cs)"
    and "bands_inv cs st"
  shows "bands_inv cs (level_step cs n st)"
proof -
  let ?l = "sc_prev st" and ?T = "top_live cs" and ?ls = "sc_layers st"
  let ?d = "below cs n - below cs ?l"
  note step = level_step_cases [OF assms(2)]
  have l: "0 \<le> ?l" "?l < n" using assms(2) by (auto simp: next_level_def)
  have d: "0 < ?d" using below_step_pos [OF assms(2)] by simp
  have last: "sc_last_contested st = int (length ?ls) - 1"
    and old: "\<And>i. i < length ?ls \<Longrightarrow> \<not> pl_uncalled (?ls ! i) \<Longrightarrow> band_layer cs ?ls i"
    using assms(4) above_nonempty [OF assms(2)] by (simp_all add: bands_inv_def Let_def)
  note inv = assms(1) [unfolded scan_inv_def Let_def]
  consider (sole) "length (above cs ?l) = 1"
    | (dead) "length (above cs ?l) \<noteq> 1" "?T < n"
    | (contested) "length (above cs ?l) \<noteq> 1" "n \<le> ?T"
    by linarith
  then show ?thesis
  proof cases
    case sole
    then obtain c where "above cs ?l = [c]" "above cs n = []"
      using sole_level [OF assms(2)] by blast
    then show ?thesis
      using sole old unfolding step bands_inv_def Let_def
      by (auto simp: nth_append band_layer_append less_Suc_eq)
  next
    case contested
    then have T: "0 < ?T" using l by simp
    obtain c0 where c0: "c0 \<in> set cs" "\<not> co_folded c0" "co_amount c0 = n"
      using assms(3) contested by (auto simp: set_levels)
    have side: "\<forall>c\<in>set cs. \<not> co_folded c \<longrightarrow> co_amount c \<le> ?l \<or> n \<le> co_amount c"
      using assms(2) by (simp add: next_level_def)
    have tot: "layer_total ?ls = below cs ?l" "sc_dead st = 0" using inv T by simp_all
    let ?new = "\<lparr>pl_amount = ?d + sc_dead st, pl_eligible = live_at cs n, pl_uncalled = False\<rparr>"
    have "band_layer cs (?ls @ [?new]) (length ?ls)"
      unfolding band_layer_def using c0 side l tot by (intro bexI [of _ c0] exI [of _ ?l]) auto
    then show ?thesis
      using contested old unfolding step bands_inv_def Let_def
      by (auto simp: nth_append band_layer_append less_Suc_eq)
  next
    case dead
    then have Tl: "?T \<le> ?l" using top_live_between [OF assms(2)] by auto
    show ?thesis
    proof (cases "?ls = []")
      case True
      then show ?thesis using dead last unfolding step bands_inv_def Let_def by simp
    next
      case False
      define k where "k = length ?ls - 1"
      have Suck: "Suc k = length ?ls" using False by (simp add: k_def)
      then have k: "Suc k = length ?ls" "sc_last_contested st = int k" "nat (int (length ?ls) - 1) = k"
        using last by linarith+
      have nonneg: "0 \<le> sc_last_contested st" using k(2) by simp
      have T: "0 < ?T" "\<not> pl_uncalled (?ls ! k)"
        using inv k(2) above_nonempty [OF assms(2)] top_live_pos_iff [of cs]
        by (auto split: if_splits)
      have tot: "layer_total ?ls = below cs ?l" using inv T by simp
      have "band_layer cs (?ls[k := layer_add ?d (?ls ! k)]) k"
        using band_layer_dead [OF T(1) old k(1) tot Tl] k(1) T(2) d by simp
      then show ?thesis
        using dead k nonneg old unfolding step bands_inv_def Let_def
        by (auto simp: nth_list_update band_layer_update less_Suc_eq)
    qed
  qed
qed

lemma scan_bands:
  assumes "scan_inv cs st" and "level_chain cs (sc_prev st) ns" and "set ns \<subseteq> set (boundary_levels cs)"
    and "bands_inv cs st"
  shows "bands_inv cs (fold (level_step cs) ns st)"
  using assms
proof (induction ns arbitrary: st)
  case (Cons n ns)
  have n: "next_level cs (sc_prev st) n" using Cons.prems(2) by simp
  note s = level_step_inv [OF Cons.prems(1) n]
  then show ?case
    using Cons.IH [of "level_step cs n st"] Cons.prems
      level_step_bands [OF Cons.prems(1) n _ Cons.prems(4)] by simp
qed simp

section \<open>What one player can win\<close>

definition share_inv :: "contribution list \<Rightarrow> contribution \<Rightarrow> pot_scan \<Rightarrow> bool" where
  "share_inv cs c st \<longleftrightarrow>
     (let a = co_amount c; e = elig_total (co_player c) (sc_layers st); b = below cs (min (sc_prev st) a)
      in b \<le> e \<and> (a < top_live cs \<or> sc_prev st \<le> a \<longrightarrow> e = b))"

lemma elig_total_simps [simp]:
  "elig_total p [] = 0"
  "elig_total p (l # ls) = (if p \<in> set (pl_eligible l) then pl_amount l else 0) + elig_total p ls"
  "elig_total p (ls @ ls') = elig_total p ls + elig_total p ls'"
  by (simp_all add: elig_total_def)

lemma elig_total_add:
  "k < length ls \<Longrightarrow> elig_total p (ls[k := layer_add d (ls ! k)]) =
   elig_total p ls + (if p \<in> set (pl_eligible (ls ! k)) then d else 0)"
  by (simp add: elig_total_def sum_list_update_nth)

lemma live_at_iff:
  assumes "distinct (map co_player cs)" and "c \<in> set cs" and "\<not> co_folded c"
  shows "co_player c \<in> set (live_at cs l) \<longleftrightarrow> l \<le> co_amount c"
proof -
  have "inj_on co_player (set cs)" using assms(1) by (simp add: distinct_map)
  then show ?thesis
    using assms(2,3) by (auto simp: live_at_def inj_on_eq_iff)
qed

lemma sole_iff:
  assumes "distinct (map co_player cs)" and "c \<in> set cs" and "above cs l = [x]"
  shows "co_player x = co_player c \<longleftrightarrow> l < co_amount c"
proof -
  have "co_player x = co_player c \<longleftrightarrow> x = c"
    using above_single(1) [OF assms(3)] assms(1,2) by (auto simp: distinct_map dest: inj_onD)
  then show ?thesis using above_single [OF assms(3)] assms(2) by metis
qed

lemma level_step_share:
  assumes "distinct (map co_player cs)" and "c \<in> set cs" and "\<not> co_folded c" and "0 < co_amount c"
    and "scan_inv cs st" and "next_level cs (sc_prev st) n" and "share_inv cs c st"
  shows "share_inv cs c (level_step cs n st)"
proof -
  let ?l = "sc_prev st" and ?T = "top_live cs" and ?a = "co_amount c" and ?p = "co_player c"
  let ?d = "below cs n - below cs ?l"
  note step = level_step_cases [OF assms(6)]
  have l: "0 \<le> ?l" "?l < n" and side: "?a \<le> ?l \<or> n \<le> ?a"
    using assms(2,3,6) by (auto simp: next_level_def)
  have aT: "?a \<le> ?T" using top_live_ge assms(2,3) by blast
  have T: "0 < ?T" using aT assms(4) by simp
  have d: "0 < ?d" using below_step_pos [OF assms(6)] by simp
  note ab = above_nonempty [OF assms(6)]
  note inv = assms(5) [unfolded scan_inv_def Let_def]
  note sh = assms(7) [unfolded share_inv_def Let_def]
  have dead0: "sc_dead st = 0" using inv T by simp
  let ?st = "level_step cs n st"
  have prev: "sc_prev ?st = n" using level_step_inv [OF assms(5,6)] by simp
  have fin: ?thesis
    if "elig_total ?p (sc_layers ?st) = elig_total ?p (sc_layers st) +
        (if n \<le> ?a then ?d else x)" and "0 \<le> x" and "?a < ?T \<Longrightarrow> x = 0" for x
  proof (cases "n \<le> ?a")
    case True
    then have "min n ?a = n" "min ?l ?a = ?l" "?l \<le> ?a" using l by auto
    with True that(1) sh show ?thesis by (simp add: share_inv_def prev)
  next
    case False
    then have "min n ?a = ?a" "min ?l ?a = ?a" using side by auto
    with False that sh show ?thesis by (auto simp: share_inv_def prev)
  qed
  consider (sole) "length (above cs ?l) = 1"
    | (dead) "length (above cs ?l) \<noteq> 1" "?T < n"
    | (contested) "length (above cs ?l) \<noteq> 1" "n \<le> ?T"
    by linarith
  then show ?thesis
  proof cases
    case sole
    then obtain x where x: "above cs ?l = [x]"
      using sole_level [OF assms(6)] by blast
    have "sc_layers ?st = sc_layers st @
        [\<lparr>pl_amount = ?d, pl_eligible = [co_player x], pl_uncalled = True\<rparr>]"
      unfolding step using x by simp
    moreover have "(?p = co_player x) = (n \<le> ?a)"
      using sole_iff [OF assms(1,2) x] side l(2) by auto
    ultimately show ?thesis by (intro fin [of 0]) simp_all
  next
    case contested
    show ?thesis
      using step contested side l dead0 live_at_iff [OF assms(1-3), of n]
      by (intro fin [of 0]) auto
  next
    case dead
    then have Tl: "?T \<le> ?l" using top_live_between [OF assms(6)] by auto
    then obtain k where k: "k < length (sc_layers st)" "sc_last_contested st = int k"
        "pl_eligible (sc_layers st ! k) = live_at cs ?T"
      using inv ab T by (auto simp: min_def)
    show ?thesis
      using step dead k l d aT Tl live_at_iff [OF assms(1-3), of ?T]
      by (intro fin [of "if ?T \<le> ?a then ?d else 0"]) (auto simp: elig_total_add)
  qed
qed

lemma scan_share:
  assumes "distinct (map co_player cs)" and "c \<in> set cs" and "\<not> co_folded c" and "0 < co_amount c"
    and "scan_inv cs st" and "level_chain cs (sc_prev st) ns" and "share_inv cs c st"
  shows "share_inv cs c (fold (level_step cs) ns st)"
  using assms(5-7)
proof (induction ns arbitrary: st)
  case (Cons n ns)
  have n: "next_level cs (sc_prev st) n" using Cons.prems(2) by simp
  note s = level_step_inv [OF Cons.prems(1) n]
  then show ?case
    using Cons.IH [of "level_step cs n st"] Cons.prems(2)
      level_step_share [OF assms(1-4) Cons.prems(1) n Cons.prems(3)] by simp
qed simp

section \<open>The result\<close>

lemma compute_live:
  assumes "0 < top_live cs"
  shows "compute_side_pots cs = sc_layers (scan_levels cs (boundary_levels cs))"
    and "boundary_levels cs \<noteq> []"
proof -
  show ne: "boundary_levels cs \<noteq> []" using top_live_level [OF assms] by auto
  show "compute_side_pots cs = sc_layers (scan_levels cs (boundary_levels cs))"
    using scan_final(1) [OF ne] assms ne
    by (simp add: compute_side_pots_def scan_inv_def Let_def)
qed

lemma compute_bands:
  assumes "0 < top_live cs" and "i < length (compute_side_pots cs)"
    and "\<not> pl_uncalled (compute_side_pots cs ! i)"
  shows "band_layer cs (compute_side_pots cs) i"
proof -
  let ?st0 = "\<lparr>sc_layers = [], sc_last_contested = -1, sc_prev = 0, sc_dead = 0\<rparr>"
  have "bands_inv cs (fold (level_step cs) (boundary_levels cs) ?st0)"
    by (rule scan_bands)
      (use boundary_chain [of cs] in \<open>simp_all add: bands_inv_def scan_inv_def Let_def\<close>)
  then show ?thesis
    using assms(2,3) by (simp add: bands_inv_def Let_def scan_levels_def compute_live(1) [OF assms(1)])
qed

lemma layer_ok_compute:
  assumes "0 < top_live cs" and "l \<in> set (compute_side_pots cs)"
  shows "layer_ok cs l"
  using assms scan_final(1) [OF compute_live(2) [OF assms(1)]]
  by (simp add: compute_live scan_inv_def Let_def)

lemma compute_total: "layer_total (compute_side_pots cs) = put_total cs"
proof (cases "boundary_levels cs = []")
  case True
  then have "put_total cs = 0"
    unfolding put_total_def no_levels by (induction cs) auto
  with True show ?thesis by (simp add: compute_side_pots_def)
next
  case False
  let ?st = "scan_levels cs (boundary_levels cs)"
  have tot: "layer_total (sc_layers ?st) + sc_dead ?st = put_total cs" "0 \<le> sc_dead ?st"
    using scan_final [OF False] below_last [OF False] by (simp_all add: scan_inv_def Let_def)
  have roll: "layer_total ((sc_layers ?st)[length (sc_layers ?st) - 1 :=
      layer_add (sc_dead ?st) (last (sc_layers ?st))]) = layer_total (sc_layers ?st) + sc_dead ?st"
    if "sc_layers ?st \<noteq> []"
    using that by (simp add: last_conv_nth layer_total_add)
  show ?thesis
  proof (cases "0 < sc_dead ?st")
    case True
    then show ?thesis
      using tot False roll by (cases "sc_layers ?st = []") (simp_all add: compute_side_pots_def Let_def)
  next
    case nd: False
    then show ?thesis
      using tot False by (simp add: compute_side_pots_def Let_def)
  qed
qed

text \<open>With nobody live left, every layer is a refund to contributors.\<close>

lemma compute_all_folded:
  assumes "top_live cs = 0" and "l \<in> set (compute_side_pots cs)"
  shows "pl_uncalled l \<and> 0 < pl_amount l \<and> pl_eligible l \<noteq> [] \<and>
    set (pl_eligible l) \<subseteq> co_player ` {c \<in> set cs. 0 < co_amount c}"
proof -
  have ne: "boundary_levels cs \<noteq> []"
    using assms(2) by (auto simp: compute_side_pots_def)
  let ?st = "scan_levels cs (boundary_levels cs)"
  let ?ok = "\<lambda>l. pl_uncalled l \<and> 0 < pl_amount l \<and> pl_eligible l \<noteq> [] \<and>
    set (pl_eligible l) \<subseteq> co_player ` {c \<in> set cs. 0 < co_amount c}"
  have inv: "\<forall>x\<in>set (sc_layers ?st). layer_ok cs x" "0 \<le> sc_dead ?st"
    using scan_final(1) [OF ne] by (simp_all add: scan_inv_def Let_def)
  have ok: "?ok x" if "x \<in> set (sc_layers ?st)" for x
  proof -
    have "layer_ok cs x" using inv that by simp
    then obtain c lo where "0 < pl_amount x" "pl_uncalled x" "above cs lo = [c]" "0 \<le> lo"
        "pl_eligible x = [co_player c]"
      using assms(1) by (auto simp: layer_ok_def split: if_splits)
    then show ?thesis using above_single(1,2) [of cs lo c] by simp
  qed
  have last: "?ok (layer_add (sc_dead ?st) (last (sc_layers ?st)))" if "sc_layers ?st \<noteq> []"
    using ok [OF last_in_set [OF that]] inv(2) by simp
  have "\<exists>c\<in>set cs. 0 < co_amount c" using ne no_levels [of cs] by force
  then have "filter (\<lambda>c. 0 < co_amount c) cs \<noteq> []" by (auto simp: filter_empty_conv)
  then have pool: "?ok \<lparr>pl_amount = sc_dead ?st,
      pl_eligible = map co_player (filter (\<lambda>c. co_amount c > 0) cs), pl_uncalled = True\<rparr>"
    if "0 < sc_dead ?st" using that by auto
  have upd: "\<forall>x\<in>set ((sc_layers ?st)[length (sc_layers ?st) - 1 :=
      layer_add (sc_dead ?st) (last (sc_layers ?st))]). ?ok x" if "sc_layers ?st \<noteq> []"
    using ok last [OF that] by (metis insert_iff set_update_subset_insert subsetD)
  have "\<forall>x\<in>set (compute_side_pots cs). ?ok x"
    unfolding compute_side_pots_def Let_def using ne ok pool upd by simp
  then show ?thesis using assms(2) by blast
qed

lemma compute_positive: "l \<in> set (compute_side_pots cs) \<Longrightarrow> 0 < pl_amount l"
  using top_live_pos_iff [of cs] layer_ok_compute [of cs l] compute_all_folded [of cs l]
  by (auto simp: layer_ok_def)

lemma compute_contested:
  assumes "l \<in> set (compute_side_pots cs)" and "\<not> pl_uncalled l"
  obtains a where "0 < a" and "a \<le> top_live cs" and "pl_eligible l = live_at cs a"
  using top_live_pos_iff [of cs] layer_ok_compute [of cs l] compute_all_folded [of cs l] assms that
  by (auto simp: layer_ok_def)

lemma compute_uncalled:
  assumes "l \<in> set (compute_side_pots cs)" and "pl_uncalled l"
  shows "pl_eligible l \<noteq> [] \<and> set (pl_eligible l) \<subseteq> co_player ` {c \<in> set cs. 0 < co_amount c}"
  using top_live_pos_iff [of cs]
proof
  assume "0 < top_live cs"
  from layer_ok_compute [OF this assms(1)] assms(2) obtain c lo
    where "above cs lo = [c]" "pl_eligible l = [co_player c]" "0 \<le> lo"
    by (auto simp: layer_ok_def)
  then show ?thesis using above_single(1,2) [of cs lo c] by simp
qed (use compute_all_folded [OF _ assms(1)] in simp)

section \<open>The interface of the showdown\<close>

locale pot_splitter =
  fixes split :: "contribution list \<Rightarrow> pot_layer list"
  assumes split_total: "layer_total (split cs) = put_total cs"
    and split_positive: "l \<in> set (split cs) \<Longrightarrow> 0 < pl_amount l"
    and split_contested: "l \<in> set (split cs) \<Longrightarrow> \<not> pl_uncalled l \<Longrightarrow>
      pl_eligible l \<noteq> [] \<and>
      set (pl_eligible l) \<subseteq> co_player ` {c \<in> set cs. \<not> co_folded c \<and> 0 < co_amount c}"
    and split_uncalled: "l \<in> set (split cs) \<Longrightarrow> pl_uncalled l \<Longrightarrow>
      pl_eligible l \<noteq> [] \<and> set (pl_eligible l) \<subseteq> co_player ` {c \<in> set cs. 0 < co_amount c}"
begin

text \<open>Whoever a layer names has put chips in; no layer is larger than everything put in.\<close>

lemma eligible_contributed:
  "l \<in> set (split cs) \<Longrightarrow> p \<in> set (pl_eligible l) \<Longrightarrow>
   \<exists>c\<in>set cs. co_player c = p \<and> 0 < co_amount c"
  using split_contested [of l cs] split_uncalled [of l cs] by (cases "pl_uncalled l") auto

lemma eligible_nonempty: "l \<in> set (split cs) \<Longrightarrow> pl_eligible l \<noteq> []"
  using split_contested [of l cs] split_uncalled [of l cs] by (cases "pl_uncalled l") auto

lemma layer_le_total: "l \<in> set (split cs) \<Longrightarrow> pl_amount l \<le> put_total cs"
  using sum_list_nonneg_le [of "split cs" pl_amount l] split_positive [of _ cs]
  by (auto simp: split_total [symmetric] layer_total_def less_imp_le)

end

interpretation pots: pot_splitter compute_side_pots
proof
  fix cs l
  assume l: "l \<in> set (compute_side_pots cs)" "\<not> pl_uncalled l"
  obtain a where "0 < a" "a \<le> top_live cs" "pl_eligible l = live_at cs a"
    using compute_contested [OF l] by blast
  then show "pl_eligible l \<noteq> [] \<and>
      set (pl_eligible l) \<subseteq> co_player ` {c \<in> set cs. \<not> co_folded c \<and> 0 < co_amount c}"
    using live_at_nonempty [of a cs] by (auto simp: live_at_def)
qed (auto simp: compute_total compute_positive compute_uncalled)

section \<open>Properties\<close>

definition sample_pot :: "contribution list" where
  "sample_pot =
     [\<lparr>co_player = ''a'', co_amount = 50, co_folded = False\<rparr>,
      \<lparr>co_player = ''b'', co_amount = 120, co_folded = False\<rparr>,
      \<lparr>co_player = ''c'', co_amount = 80, co_folded = True\<rparr>,
      \<lparr>co_player = ''d'', co_amount = 200, co_folded = False\<rparr>]"

lemma sample_levels: "boundary_levels sample_pot = [50, 120, 200]"
  by (simp add: sample_pot_def boundary_levels_def top_live_def)

lemma sample_pots:
  "compute_side_pots sample_pot =
     [\<lparr>pl_amount = 200, pl_eligible = [''a'', ''b'', ''d''], pl_uncalled = False\<rparr>,
      \<lparr>pl_amount = 170, pl_eligible = [''b'', ''d''], pl_uncalled = False\<rparr>,
      \<lparr>pl_amount = 80, pl_eligible = [''d''], pl_uncalled = True\<rparr>]"
  unfolding compute_side_pots_def sample_levels scan_levels_def
  by (simp add: level_step_def band_of_def band_add_def sample_pot_def Let_def)

text \<open>C25: no chip is lost or made by the side-pot computation. The layers add up to everything the
  players put in (folded chips included), for any list of contributions.\<close>

theorem side_pots_conserve:
  "layer_total (compute_side_pots cs) = put_total cs"
  by (rule pots.split_total)

text \<open>C26: who may win a layer. Each layer holds a positive amount and names somebody. A contested layer is
  the band of chips between a lower end \<open>lo\<close> and what some live player \<open>c0\<close> put in, with no live
  player's contribution in between: the layers before it hold exactly the chips below \<open>lo\<close>, together
  with it they hold exactly the chips below \<open>c0\<close>'s contribution (at least those, dead chips from above
  added, when no live player put in more), and the players eligible for it are exactly the live ones
  who put in at least what \<open>c0\<close> did, in seat order.\<close>

theorem side_pots_eligible:
  assumes "i < length (compute_side_pots cs)"
  shows "let ls = compute_side_pots cs; l = ls ! i
    in 0 < pl_amount l \<and> pl_eligible l \<noteq> [] \<and>
      (\<not> pl_uncalled l \<longrightarrow>
        (\<exists>c0\<in>set cs. \<exists>lo\<ge>0. \<not> co_folded c0 \<and> lo < co_amount c0 \<and>
          (\<forall>c\<in>set cs. \<not> co_folded c \<longrightarrow> co_amount c \<le> lo \<or> co_amount c0 \<le> co_amount c) \<and>
          pl_eligible l = map co_player (filter (\<lambda>c. \<not> co_folded c \<and> co_amount c0 \<le> co_amount c) cs) \<and>
          layer_total (take i ls) = (\<Sum>c\<leftarrow>cs. max 0 (min (co_amount c) lo)) \<and>
          (if \<exists>c\<in>set cs. \<not> co_folded c \<and> co_amount c0 < co_amount c
           then layer_total (take (Suc i) ls) = (\<Sum>c\<leftarrow>cs. max 0 (min (co_amount c) (co_amount c0)))
           else (\<Sum>c\<leftarrow>cs. max 0 (min (co_amount c) (co_amount c0))) \<le> layer_total (take (Suc i) ls))))"
proof -
  let ?ls = "compute_side_pots cs"
  have l: "?ls ! i \<in> set ?ls" using assms by simp
  have band: "band_layer cs ?ls i" if u: "\<not> pl_uncalled (?ls ! i)"
    using compute_contested [OF l u] compute_bands [OF _ assms u] by force
  have more: "(\<exists>c\<in>set cs. \<not> co_folded c \<and> a < co_amount c) \<longleftrightarrow> a < top_live cs" if "0 < a" for a
    using top_live_ge [of _ cs] top_live_attained [of cs] that by (metis less_trans order.strict_trans2)
  have "(\<exists>c0\<in>set cs. \<exists>lo\<ge>0. \<not> co_folded c0 \<and> lo < co_amount c0 \<and>
      (\<forall>c\<in>set cs. \<not> co_folded c \<longrightarrow> co_amount c \<le> lo \<or> co_amount c0 \<le> co_amount c) \<and>
      pl_eligible (?ls ! i) = live_at cs (co_amount c0) \<and> layer_total (take i ?ls) = below cs lo \<and>
      (if \<exists>c\<in>set cs. \<not> co_folded c \<and> co_amount c0 < co_amount c
       then layer_total (take (Suc i) ?ls) = below cs (co_amount c0)
       else below cs (co_amount c0) \<le> layer_total (take (Suc i) ?ls)))"
    if u: "\<not> pl_uncalled (?ls ! i)"
  proof -
    obtain c0 lo where c0: "c0 \<in> set cs" "0 \<le> lo" "\<not> co_folded c0" "lo < co_amount c0"
        "\<forall>c\<in>set cs. \<not> co_folded c \<longrightarrow> co_amount c \<le> lo \<or> co_amount c0 \<le> co_amount c"
        "pl_eligible (?ls ! i) = live_at cs (co_amount c0)" "layer_total (take i ?ls) = below cs lo"
        "if co_amount c0 < top_live cs then layer_total (take (Suc i) ?ls) = below cs (co_amount c0)
         else below cs (co_amount c0) \<le> layer_total (take (Suc i) ?ls)"
      using band [OF u] unfolding band_layer_def by metis
    moreover have "(\<exists>c\<in>set cs. \<not> co_folded c \<and> co_amount c0 < co_amount c) \<longleftrightarrow> co_amount c0 < top_live cs"
      using c0(2,4) by (intro more) simp
    ultimately show ?thesis by (intro bexI [of _ c0] exI [of _ lo]) simp_all
  qed
  then show ?thesis
    using pots.split_positive [OF l] pots.eligible_nonempty [OF l]
    unfolding Let_def live_at_def below_def by blast
qed

lemma side_pots_eligible_witness:
  "\<exists>c0\<in>set sample_pot. \<exists>lo\<ge>0. lo < co_amount c0 \<and>
     [''b'', ''d''] = map co_player (filter (\<lambda>c. \<not> co_folded c \<and> co_amount c0 \<le> co_amount c) sample_pot) \<and>
     layer_total (take 1 (compute_side_pots sample_pot)) = (\<Sum>c\<leftarrow>sample_pot. max 0 (min (co_amount c) lo))"
proof -
  have l: "1 < length (compute_side_pots sample_pot)" "\<not> pl_uncalled (compute_side_pots sample_pot ! 1)"
      "pl_eligible (compute_side_pots sample_pot ! 1) = [''b'', ''d'']"
    by (simp_all add: sample_pots)
  from side_pots_eligible [OF l(1), unfolded Let_def, THEN conjunct2, THEN conjunct2, THEN mp, OF l(2)]
  obtain c0 lo where w: "c0 \<in> set sample_pot" "0 \<le> lo" "lo < co_amount c0"
      "[''b'', ''d''] = map co_player (filter (\<lambda>c. \<not> co_folded c \<and> co_amount c0 \<le> co_amount c) sample_pot)"
      "layer_total (take 1 (compute_side_pots sample_pot)) = (\<Sum>c\<leftarrow>sample_pot. max 0 (min (co_amount c) lo))"
    unfolding l(3) by (elim bexE exE conjE) (rule that)
  then show ?thesis by (intro bexI [of _ c0] exI [of _ lo] conjI)
qed

text \<open>An uncalled layer is a refund. While somebody is still in the hand, an uncalled layer names the
  one player whose contribution exceeds everyone else's, and returns exactly that excess: every
  other contribution is at most what remains, and some other player put in what remains, unless
  nothing does.\<close>

theorem side_pots_uncalled_is_refund:
  assumes "l \<in> set (compute_side_pots cs)" and "pl_uncalled l"
    and "c0 \<in> set cs" and "\<not> co_folded c0" and "0 < co_amount c0"
  shows "\<exists>c\<in>set cs. pl_eligible l = [co_player c] \<and>
    filter (\<lambda>x. co_amount c - pl_amount l < co_amount x) cs = [c] \<and>
    0 \<le> co_amount c - pl_amount l \<and>
    (co_amount c = pl_amount l \<or> (\<exists>x\<in>set cs. x \<noteq> c \<and> co_amount x = co_amount c - pl_amount l))"
proof -
  have "0 < top_live cs" using top_live_ge [OF assms(3,4)] assms(5) by simp
  from layer_ok_compute [OF this assms(1)] assms(2) obtain c lo
    where c: "0 < pl_amount l" "above cs lo = [c]" "pl_eligible l = [co_player c]" "0 \<le> lo"
      "pl_amount l = co_amount c - lo" "lo = 0 \<or> lo \<in> co_amount ` set cs"
    by (auto simp: layer_ok_def)
  then have lo: "lo = co_amount c - pl_amount l" by simp
  have "filter (\<lambda>x. co_amount c - pl_amount l < co_amount x) cs = [c]"
    using c(2) unfolding above_def lo by simp
  moreover have "0 \<le> co_amount c - pl_amount l" using c(4) lo by simp
  moreover have "co_amount c = pl_amount l \<or> (\<exists>x\<in>set cs. x \<noteq> c \<and> co_amount x = co_amount c - pl_amount l)"
    using c(1,6) unfolding lo by force
  ultimately show ?thesis using above_single(1) [OF c(2)] c(3) by blast
qed

lemma side_pots_uncalled_is_refund_witness:
  "\<exists>c\<in>set sample_pot. [''d''] = [co_player c] \<and>
    filter (\<lambda>x. co_amount c - 80 < co_amount x) sample_pot = [c]"
proof -
  have "\<lparr>co_player = ''a'', co_amount = 50, co_folded = False\<rparr> \<in> set sample_pot"
    by (simp add: sample_pot_def)
  from side_pots_uncalled_is_refund [OF _ _ this,
      of "\<lparr>pl_amount = 80, pl_eligible = [''d''], pl_uncalled = True\<rparr>"]
  show ?thesis by (auto simp: sample_pots)
qed

text \<open>What a player can win is capped by what the player put in. For a live player with a positive
  contribution \<open>a\<close> (player ids being distinct), the layers naming that player hold at least
  \<open>min a\<close> of each contribution, and exactly that when some live player put in more.\<close>

theorem side_pots_cap:
  assumes "distinct (map co_player cs)" and "c \<in> set cs" and "\<not> co_folded c" and "0 < co_amount c"
  shows "(\<Sum>x\<leftarrow>cs. max 0 (min (co_amount x) (co_amount c)))
      \<le> elig_total (co_player c) (compute_side_pots cs) \<and>
    ((\<exists>x\<in>set cs. \<not> co_folded x \<and> co_amount c < co_amount x) \<longrightarrow>
      elig_total (co_player c) (compute_side_pots cs) =
      (\<Sum>x\<leftarrow>cs. max 0 (min (co_amount x) (co_amount c))))"
proof -
  have T: "0 < top_live cs" using top_live_ge [OF assms(2,3)] assms(4) by simp
  let ?st0 = "\<lparr>sc_layers = [], sc_last_contested = -1, sc_prev = 0, sc_dead = 0\<rparr>"
  have "share_inv cs c (fold (level_step cs) (boundary_levels cs) ?st0)"
    by (rule scan_share [OF assms])
      (use boundary_chain [of cs] assms(4) in \<open>simp_all add: share_inv_def scan_inv_def Let_def\<close>)
  then have "share_inv cs c (scan_levels cs (boundary_levels cs))"
    by (simp add: scan_levels_def)
  moreover have "co_amount c \<le> last (boundary_levels cs)"
    by (rule amount_le_last [OF compute_live(2) [OF T] assms(2)])
  ultimately have "below cs (co_amount c) \<le> elig_total (co_player c) (compute_side_pots cs)"
    and eq: "co_amount c < top_live cs \<Longrightarrow>
      elig_total (co_player c) (compute_side_pots cs) = below cs (co_amount c)"
    by (simp_all add: share_inv_def Let_def compute_live(1) [OF T] scan_final(2) [OF compute_live(2) [OF T]]
        min_absorb2)
  moreover have "co_amount c < top_live cs"
    if "x \<in> set cs" "\<not> co_folded x" "co_amount c < co_amount x" for x
    using top_live_ge [OF that(1,2)] that(3) by simp
  ultimately show ?thesis by (auto simp: below_def)
qed

lemma side_pots_cap_witness:
  "elig_total ''a'' (compute_side_pots sample_pot) = 200"
proof -
  let ?c = "\<lparr>co_player = ''a'', co_amount = 50, co_folded = False\<rparr>"
  have "(\<exists>x\<in>set sample_pot. \<not> co_folded x \<and> co_amount ?c < co_amount x) \<longrightarrow>
      elig_total (co_player ?c) (compute_side_pots sample_pot) =
      (\<Sum>x\<leftarrow>sample_pot. max 0 (min (co_amount x) (co_amount ?c)))"
    by (rule side_pots_cap [THEN conjunct2]) (simp_all add: sample_pot_def)
  then show ?thesis by (simp add: sample_pot_def)
qed

end
