(* ===== verification/Sha256.thy ===== *)
theory Sha256
  imports Poker_Prelude "HOL-Library.Word"
begin

text \<open>
  The two library functions the deck's fairness proof uses, Go's \<open>crypto/sha256.Sum256\<close> and
  \<open>crypto/hmac\<close> over it, as executable functions on byte lists, with the one fact the code's
  buffer layout relies on: a digest has 32 bytes.
\<close>

unbundle bit_operations_syntax

type_synonym byte = "8 word"
type_synonym bytes = "byte list"
type_synonym u32 = "32 word"

section \<open>Big-endian words\<close>

definition be32_bytes :: "u32 \<Rightarrow> bytes" where
  "be32_bytes w = [ucast (drop_bit 24 w), ucast (drop_bit 16 w), ucast (drop_bit 8 w), ucast w]"

fun be32 :: "bytes \<Rightarrow> u32" where
  "be32 (a # b # c # d # _) =
     push_bit 24 (ucast a) OR push_bit 16 (ucast b) OR push_bit 8 (ucast c) OR ucast d"
| "be32 _ = 0"

fun be32_words :: "bytes \<Rightarrow> u32 list" where
  "be32_words (a # b # c # d # rest) = be32 [a, b, c, d] # be32_words rest"
| "be32_words _ = []"

lemma length_be32_bytes [simp]: "length (be32_bytes w) = 4"
  by (simp add: be32_bytes_def)

section \<open>The compression function\<close>

text \<open>
  FIPS 180-4 defines both tables by the roots of the first primes: a round constant is the first
  32 fractional bits of a cube root, a word of the initial state those of a square root. The integer
  root of \<open>n\<close> is found from its top bit down.
\<close>

primrec root_below :: "nat \<Rightarrow> int \<Rightarrow> nat \<Rightarrow> int \<Rightarrow> int" where
  "root_below k n 0 r = r"
| "root_below k n (Suc b) r = root_below k n b (if (r + 2 ^ b) ^ k \<le> n then r + 2 ^ b else r)"

definition root_fraction :: "nat \<Rightarrow> int \<Rightarrow> u32" where
  "root_fraction k p = word_of_int (root_below k (p * (2 ^ 32) ^ k) 40 0)"

definition first_primes :: "int list" where
  "first_primes = filter (\<lambda>p. list_all (\<lambda>d. p mod d \<noteq> 0) [2..p - 1]) [2..311]"

definition round_constants :: "u32 list" where
  "round_constants = map (root_fraction 3) first_primes"

definition initial_state :: "u32 list" where
  "initial_state = map (root_fraction 2) [2, 3, 5, 7, 11, 13, 17, 19]"

definition ror :: "nat \<Rightarrow> u32 \<Rightarrow> u32" where
  "ror n w = drop_bit n w OR push_bit (32 - n) w"

text \<open>The message schedule, newest word first: 16 words of the block, then 48 computed ones.\<close>

definition schedule_next :: "u32 list \<Rightarrow> u32" where
  "schedule_next ws =
     (let w15 = ws ! 14; w2 = ws ! 1;
          s0 = ror 7 w15 XOR ror 18 w15 XOR drop_bit 3 w15;
          s1 = ror 17 w2 XOR ror 19 w2 XOR drop_bit 10 w2
      in ws ! 15 + s0 + ws ! 6 + s1)"

definition schedule :: "u32 list \<Rightarrow> u32 list" where
  "schedule block = rev (((\<lambda>ws. schedule_next ws # ws) ^^ 48) (rev block))"

fun compress_step :: "u32 list \<Rightarrow> u32 \<times> u32 \<Rightarrow> u32 list" where
  "compress_step [a, b, c, d, e, f, g, h] (k, w) =
     (let s1 = ror 6 e XOR ror 11 e XOR ror 25 e;
          ch = (e AND f) XOR ((NOT e) AND g);
          t1 = h + s1 + ch + k + w;
          s0 = ror 2 a XOR ror 13 a XOR ror 22 a;
          maj = (a AND b) XOR (a AND c) XOR (b AND c)
      in [t1 + (s0 + maj), a, b, c, d + t1, e, f, g])"
| "compress_step s _ = s"

definition compress :: "u32 list \<Rightarrow> u32 list \<Rightarrow> u32 list" where
  "compress state block =
     map2 (+) state (foldl compress_step state (zip round_constants (schedule block)))"

section \<open>Padding and hashing\<close>

definition pad :: "bytes \<Rightarrow> bytes" where
  "pad m = (let n = length m; z = (119 - n mod 64) mod 64; bits = 8 * n
     in m @ [0x80] @ replicate z 0 @
        be32_bytes (of_nat (bits div 2 ^ 32)) @ be32_bytes (of_nat bits))"

fun blocks :: "nat \<Rightarrow> 'a list \<Rightarrow> 'a list list" where
  "blocks 0 xs = []"
| "blocks (Suc n) xs = take 16 xs # blocks n (drop 16 xs)"

definition sha256 :: "bytes \<Rightarrow> bytes" where
  "sha256 m = (let ws = be32_words (pad m)
     in concat (map be32_bytes (foldl compress initial_state (blocks (length ws div 16) ws))))"

definition hmac_sha256 :: "bytes \<Rightarrow> bytes \<Rightarrow> bytes" where
  "hmac_sha256 key m =
     (let k0 = (if length key > 64 then sha256 key else key);
          k = k0 @ replicate (64 - length k0) 0
      in sha256 (map (\<lambda>b. b XOR 0x5c) k @ sha256 (map (\<lambda>b. b XOR 0x36) k @ m)))"

section \<open>Digests have 32 bytes\<close>

lemma length_compress_step [simp]: "length (compress_step s kw) = length s"
  by (induction s kw rule: compress_step.induct) (simp_all add: Let_def)

lemma length_foldl_compress_step [simp]: "length (foldl compress_step s kws) = length s"
  by (induction kws arbitrary: s) simp_all

lemma length_compress [simp]: "length (compress s b) = length s"
  by (simp add: compress_def)

lemma length_foldl_compress [simp]: "length (foldl compress s bs) = length s"
  by (induction bs arbitrary: s) simp_all

lemma length_concat_be32 [simp]: "length (concat (map be32_bytes ws)) = 4 * length ws"
  by (induction ws) simp_all

lemma length_sha256 [simp]: "length (sha256 m) = 32"
  by (simp add: sha256_def initial_state_def Let_def)

lemma length_hmac_sha256 [simp]: "length (hmac_sha256 k m) = 32"
  by (simp add: hmac_sha256_def Let_def)

end
