(* ===== verification/Deck.thy ===== *)
theory Deck
  imports Sha256
begin

text \<open>
  The deck of \<open>api/internal/engine/deck/deck.go\<close>: cards, the ordered decks of the two variants, the
  seeded Fisher-Yates shuffle with its rejection sampling, and the commitments published for it.
  A rank or suit is a \<open>uint8\<close>, kept as a \<open>nat\<close>; a seed, salt or hash is a list of bytes. The
  sampling loop has no bound in the code, so it is a partial function: \<open>None\<close> is "never returns".
\<close>

section \<open>Cards and decks\<close>

datatype card = Card (rank: nat) (suit: nat)

definition valid_card :: "card \<Rightarrow> bool" where
  "valid_card c \<longleftrightarrow> 2 \<le> rank c \<and> rank c \<le> 14 \<and> suit c \<le> 3"

datatype variant = Standard | ShortDeck

definition variant_label :: "variant \<Rightarrow> string" where
  "variant_label v = (if v = ShortDeck then ''short_deck'' else '''')"

definition standard_deck :: "card list" where
  "standard_deck = concat (map (\<lambda>s. map (\<lambda>r. Card r s) [2..<15]) [0, 1, 2, 3])"

definition short_deck :: "card list" where
  "short_deck = concat (map (\<lambda>s. map (\<lambda>r. Card r s) [6..<15]) [0, 1, 2, 3])"

section \<open>The shuffle\<close>

text \<open>The 32-bit values the shuffle draws: the first four bytes of \<open>HMAC(seed, counter)\<close>.\<close>

definition draw32 :: "bytes \<Rightarrow> u32 \<Rightarrow> u32" where
  "draw32 seed counter = be32 (take 4 (hmac_sha256 seed (be32_bytes counter)))"

definition accepts :: "u32 \<Rightarrow> u32 \<Rightarrow> bool" where
  "accepts mx v =
     (let m = - 1 :: u32; r = (m mod mx + 1) mod mx; limit = m - r + 1
      in r = 0 \<or> v < limit)"

partial_function (option) next_index :: "(u32 \<Rightarrow> u32) \<Rightarrow> u32 \<Rightarrow> u32 \<Rightarrow> (u32 \<times> u32) option" where
  "next_index f mx counter =
     (let v = f counter
      in if accepts mx v then Some (v mod mx, counter + 1) else next_index f mx (counter + 1))"

definition swap :: "'a list \<Rightarrow> nat \<Rightarrow> nat \<Rightarrow> 'a list" where
  "swap xs i j = xs[i := xs ! j, j := xs ! i]"

fun shuffle_from :: "(u32 \<Rightarrow> u32) \<Rightarrow> nat \<Rightarrow> u32 \<Rightarrow> card list \<Rightarrow> card list option" where
  "shuffle_from f 0 counter d = Some d"
| "shuffle_from f (Suc i) counter d =
     (case next_index f (of_nat (Suc (Suc i))) counter of
        None \<Rightarrow> None
      | Some (j, counter') \<Rightarrow> shuffle_from f i counter' (swap d (Suc i) (unat j)))"

definition shuffle_with_seed :: "bytes \<Rightarrow> card list option" where
  "shuffle_with_seed seed = shuffle_from (draw32 seed) (length standard_deck - 1) 0 standard_deck"

definition shuffle_short_deck_with_seed :: "bytes \<Rightarrow> card list option" where
  "shuffle_short_deck_with_seed seed = shuffle_from (draw32 seed) (length short_deck - 1) 0 short_deck"

section \<open>Commitments\<close>

definition card_bytes :: "card \<Rightarrow> bytes" where
  "card_bytes c = [of_nat (rank c), of_nat (suit c)]"

definition commit_hash :: "bytes \<Rightarrow> card list \<Rightarrow> bytes" where
  "commit_hash seed cards = sha256 (seed @ concat (map card_bytes cards))"

definition card_salt :: "bytes \<Rightarrow> nat \<Rightarrow> bytes" where
  "card_salt seed i = hmac_sha256 seed (be32_bytes (of_nat i))"

definition card_hash :: "bytes \<Rightarrow> nat \<Rightarrow> card \<Rightarrow> bytes" where
  "card_hash seed i c = sha256 (card_salt seed i @ card_bytes c)"

definition card_hashes :: "bytes \<Rightarrow> card list \<Rightarrow> bytes list" where
  "card_hashes seed cards = map (\<lambda>(i, c). card_hash seed i c) (enumerate 0 cards)"

definition root_commit_hash :: "bytes \<Rightarrow> card list \<Rightarrow> bytes" where
  "root_commit_hash seed cards = sha256 (concat (card_hashes seed cards))"

text \<open>The leaf of one position: recomputed for a revealed card, taken as given for a hidden one.\<close>

definition partial_leaf :: "(nat \<rightharpoonup> card \<times> bytes) \<Rightarrow> (nat \<rightharpoonup> bytes) \<Rightarrow> nat \<Rightarrow> bytes option" where
  "partial_leaf revealed hidden i =
     (case revealed i of
        Some (c, salt) \<Rightarrow> Some (sha256 (salt @ card_bytes c))
      | None \<Rightarrow> hidden i)"

definition verify_partial :: "bytes \<Rightarrow> (nat \<rightharpoonup> card \<times> bytes) \<Rightarrow> (nat \<rightharpoonup> bytes) \<Rightarrow> bool" where
  "verify_partial root revealed hidden =
     (case those (map (partial_leaf revealed hidden) [0..<52]) of
        None \<Rightarrow> False
      | Some leaves \<Rightarrow> sha256 (concat leaves) = root)"

record shuffle_result =
  sh_cards :: "card list"
  sh_server_seed :: bytes
  sh_commit_hash :: bytes

record short_shuffle_result =
  ssh_cards :: "card list"
  ssh_server_seed :: bytes

text \<open>\<open>NewShuffle\<close> and \<open>NewShortDeckShuffle\<close> on the seed the operating system returned.\<close>

definition new_shuffle :: "bytes \<Rightarrow> shuffle_result option" where
  "new_shuffle seed = map_option
     (\<lambda>cards. \<lparr>sh_cards = cards, sh_server_seed = seed, sh_commit_hash = commit_hash seed cards\<rparr>)
     (shuffle_with_seed seed)"

definition new_short_deck_shuffle :: "bytes \<Rightarrow> short_shuffle_result option" where
  "new_short_deck_shuffle seed =
     map_option (\<lambda>cards. \<lparr>ssh_cards = cards, ssh_server_seed = seed\<rparr>) (shuffle_short_deck_with_seed seed)"

section \<open>Decks\<close>

lemma length_decks [simp]: "length standard_deck = 52" "length short_deck = 36"
  by (simp_all add: standard_deck_def short_deck_def)

lemma distinct_standard_deck: "distinct standard_deck"
  unfolding standard_deck_def by (simp add: distinct_map inj_on_def)

lemma distinct_short_deck: "distinct short_deck"
  unfolding short_deck_def by (simp add: distinct_map inj_on_def)

lemma set_suits:
  "set (concat (map (\<lambda>s. map (\<lambda>r. Card r s) [lo..<15]) [0, 1, 2, 3])) =
   {c. lo \<le> rank c \<and> rank c \<le> 14 \<and> suit c \<le> 3}"
proof -
  have "c \<in> (\<Union>s\<in>{0, 1, 2, 3}. (\<lambda>r. Card r s) ` {lo..<15}) \<longleftrightarrow>
      lo \<le> rank c \<and> rank c \<le> 14 \<and> suit c \<le> 3" for c
    by (cases c) (auto simp: image_iff)
  then show ?thesis
    unfolding set_concat set_map set_upt list.set image_image by blast
qed

lemma set_standard_deck: "set standard_deck = {c. valid_card c}"
  by (simp only: standard_deck_def set_suits valid_card_def)

lemma set_short_deck: "set short_deck = {c. valid_card c \<and> 6 \<le> rank c}"
  unfolding short_deck_def set_suits by (auto simp: valid_card_def)

section \<open>The shuffle permutes\<close>

lemma length_swap [simp]: "length (swap xs i j) = length xs"
  by (simp add: swap_def)

lemma mset_swap_nth: "i < length xs \<Longrightarrow> j < length xs \<Longrightarrow> mset (swap xs i j) = mset xs"
  by (simp add: swap_def mset_swap)

lemma next_index_bound:
  assumes "next_index f mx counter = Some (j, counter')" and "0 < mx"
  shows "j < mx"
proof (rule next_index.raw_induct [where P = "\<lambda>f mx c r. 0 < mx \<longrightarrow> fst r < mx", OF _ assms(1),
      THEN mp, simplified])
  fix g f mx c r
  assume IH: "\<And>f mx c r. g f mx c = Some r \<Longrightarrow> 0 < mx \<longrightarrow> fst r < mx"
    and eq: "(let v = f c in if accepts mx v then Some (v mod mx, c + 1) else g f mx (c + 1)) = Some r"
  show "0 < mx \<longrightarrow> fst r < (mx :: u32)"
    using eq IH [of f mx "c + 1" r] by (auto simp: Let_def word_mod_less_divisor split: if_splits)
qed (use assms(2) in simp_all)

lemma shuffle_from_mset:
  assumes "i < length d" and "length d < 2 ^ 32" and "shuffle_from f i counter d = Some d'"
  shows "mset d' = mset d"
  using assms
proof (induction i arbitrary: counter d)
  case (Suc i)
  then obtain j counter' where j: "next_index f (of_nat (Suc (Suc i))) counter = Some (j, counter')"
    and rest: "shuffle_from f i counter' (swap d (Suc i) (unat j)) = Some d'"
    by (auto split: option.splits)
  have n: "unat (of_nat (Suc (Suc i)) :: u32) = Suc (Suc i)"
    using Suc.prems(1,2) unfolding unat_of_nat by (simp add: take_bit_eq_mod)
  then have "0 < (of_nat (Suc (Suc i)) :: u32)"
    by (simp add: word_less_nat_alt del: of_nat_Suc)
  from next_index_bound [OF j this] have "unat j < Suc (Suc i)"
    using n by (simp add: word_less_nat_alt)
  with Suc.prems Suc.IH [OF _ _ rest] show ?case
    by (simp add: mset_swap_nth)
qed simp

section \<open>The shuffle returns\<close>

text \<open>
  Every bound the shuffle uses is at most 52, and a draw below \<open>2 ^ 32 - 64\<close> is then accepted. The
  counter wraps around, so one such draw anywhere in the stream is met from every counter.
\<close>

lemma accepts_iff:
  assumes "0 < mx"
  shows "accepts mx v \<longleftrightarrow> unat v < 2 ^ 32 - 2 ^ 32 mod unat mx"
proof -
  let ?m = "unat mx"
  have m: "0 < ?m" using assms by (simp add: word_less_nat_alt)
  have max: "unat (- 1 :: u32) = 2 ^ 32 - 1" by (simp add: unsigned_minus_1_eq_mask mask_eq_exp_minus_1)
  let ?r = "((- 1 :: u32) mod mx + 1) mod mx"
  have lt: "unat ((- 1 :: u32) mod mx) < ?m"
    using m by (simp add: unat_mod_distrib)
  have "?m < 2 ^ 32" using unsigned_less [where 'a = nat and w = mx] by simp
  then have "unat ((- 1 :: u32) mod mx + 1) = (2 ^ 32 - 1) mod ?m + 1"
    using lt by (subst unat_add_lem [THEN iffD1]) (simp_all add: unat_mod_distrib max)
  then have r: "unat ?r = ((2 ^ 32 - 1) mod ?m + 1) mod ?m"
    by (simp add: unat_mod_distrib)
  also have "\<dots> = 2 ^ 32 mod ?m"
    by (simp add: mod_simps)
  finally have r: "unat ?r = 2 ^ 32 mod ?m" .
  show ?thesis
  proof (cases "?r = 0")
    case True
    then have "2 ^ 32 mod ?m = 0" using r by simp
    then show ?thesis
      using True unsigned_less [where 'a = nat and w = v] by (simp add: accepts_def Let_def)
  next
    case False
    then have pos: "0 < unat ?r" by (metis gr0I unsigned_eq_0_iff)
    have le: "unat ?r \<le> 2 ^ 32 - 1"
      using word_le_nat_alt [of ?r "- 1"] max by (metis word_n1_ge)
    have "unat (- 1 - ?r + 1) = 2 ^ 32 - unat ?r"
    proof -
      have "unat (- 1 - ?r) = 2 ^ 32 - 1 - unat ?r"
        by (subst unat_sub) (simp_all add: word_le_nat_alt max [simplified] le [simplified])
      then show ?thesis
        using pos le by (subst unat_add_lem [THEN iffD1]) simp_all
    qed
    then show ?thesis
      using False r by (simp add: accepts_def Let_def word_less_nat_alt)
  qed
qed

lemma accepts_low:
  assumes "0 < mx" and "mx \<le> 64" and "unat v < 2 ^ 32 - 64"
  shows "accepts mx v"
proof -
  have "0 < unat mx" and "unat mx \<le> 64"
    using assms(1,2) by (simp_all add: word_less_nat_alt word_le_nat_alt)
  then have "2 ^ 32 mod unat mx \<le> 64"
    by (metis less_le_not_le mod_less_divisor order_trans)
  then show ?thesis using assms by (simp add: accepts_iff)
qed

lemma next_index_returns:
  assumes "accepts mx (f (counter + of_nat k))"
  shows "\<exists>r. next_index f mx counter = Some r"
  using assms
proof (induction k arbitrary: counter)
  case 0
  then show ?case by (subst next_index.simps) (simp add: Let_def)
next
  case (Suc k)
  have "accepts mx (f (counter + 1 + of_nat k))"
    using Suc.prems by (simp add: algebra_simps)
  from Suc.IH [OF this] show ?case
    by (subst next_index.simps) (simp add: Let_def)
qed

lemma next_index_total:
  assumes "unat (f k0) < 2 ^ 32 - 64" and "0 < mx" and "mx \<le> 64"
  shows "\<exists>r. next_index f mx counter = Some r"
proof (rule next_index_returns)
  show "accepts mx (f (counter + of_nat (unat (k0 - counter))))"
    using accepts_low [OF assms(2,3,1)] by simp
qed

lemma shuffle_from_total:
  assumes "unat (f k0) < 2 ^ 32 - 64" and "i < 63"
  shows "\<exists>d'. shuffle_from f i counter d = Some d'"
  using assms(2)
proof (induction i arbitrary: counter d)
  case (Suc i)
  have n: "unat (of_nat (Suc (Suc i)) :: u32) = Suc (Suc i)"
    using Suc.prems unfolding unat_of_nat by (simp add: take_bit_eq_mod)
  then have "0 < (of_nat (Suc (Suc i)) :: u32)" "(of_nat (Suc (Suc i)) :: u32) \<le> 64"
    using Suc.prems by (simp_all add: word_less_nat_alt word_le_nat_alt del: of_nat_Suc)
  with next_index_total [where f = f, OF assms(1)] Suc show ?case
    by (fastforce split: option.splits)
qed simp

text \<open>C27: the shuffle deals every card once. For any stream of 32-bit draws, a returned shuffle of the
  52-card deck holds each of the 52 valid cards exactly once, and one of the short deck each of its
  36; and both shuffles return as soon as a single draw of the stream lies below 2^32 - 64.\<close>

theorem shuffle_is_permutation:
  "(\<forall>d. shuffle_from f 51 0 standard_deck = Some d \<longrightarrow>
      length d = 52 \<and> distinct d \<and> set d = {c. valid_card c}) \<and>
   (\<forall>d. shuffle_from f 35 0 short_deck = Some d \<longrightarrow>
      length d = 36 \<and> distinct d \<and> set d = {c. valid_card c \<and> 6 \<le> rank c}) \<and>
   ((\<exists>k. unat (f k) < 2 ^ 32 - 64) \<longrightarrow>
      (\<exists>d. shuffle_from f 51 0 standard_deck = Some d) \<and>
      (\<exists>d. shuffle_from f 35 0 short_deck = Some d))"
proof (intro conjI allI impI)
  fix d
  assume d: "shuffle_from f 51 0 standard_deck = Some d"
  have m: "mset d = mset standard_deck"
    by (rule shuffle_from_mset [OF _ _ d]) simp_all
  show "length d = 52" using mset_eq_length [OF m] by simp
  show "distinct d" using mset_eq_imp_distinct_iff [OF m] distinct_standard_deck by simp
  show "set d = {c. valid_card c}" using mset_eq_setD [OF m] set_standard_deck by simp
next
  fix d
  assume d: "shuffle_from f 35 0 short_deck = Some d"
  have m: "mset d = mset short_deck"
    by (rule shuffle_from_mset [OF _ _ d]) simp_all
  show "length d = 36" using mset_eq_length [OF m] by simp
  show "distinct d" using mset_eq_imp_distinct_iff [OF m] distinct_short_deck by simp
  show "set d = {c. valid_card c \<and> 6 \<le> rank c}" using mset_eq_setD [OF m] set_short_deck by simp
next
  assume "\<exists>k. unat (f k) < 2 ^ 32 - 64"
  then obtain k where k: "unat (f k) < 2 ^ 32 - 64" ..
  show "\<exists>d. shuffle_from f 51 0 standard_deck = Some d"
    by (rule shuffle_from_total [where f = f, OF k]) simp
  show "\<exists>d. shuffle_from f 35 0 short_deck = Some d"
    by (rule shuffle_from_total [where f = f, OF k]) simp
qed

lemma shuffle_is_permutation_witness:
  "\<exists>d. shuffle_from (\<lambda>k. 3 * k) 51 0 standard_deck = Some d \<and> length d = 52 \<and> distinct d"
proof -
  have "unat ((\<lambda>k. 3 * k) (0 :: u32)) < 2 ^ 32 - 64" by simp
  then show ?thesis using shuffle_is_permutation [of "\<lambda>k. 3 * k"] by metis
qed

text \<open>The table shuffles with the stream of its seed.\<close>

lemma shuffle_with_seed_set:
  assumes "shuffle_with_seed seed = Some d"
  shows "length d = 52" and "distinct d" and "set d = {c. valid_card c}"
proof -
  have m: "mset d = mset standard_deck"
    using assms unfolding shuffle_with_seed_def by (rule shuffle_from_mset [rotated 2]) simp_all
  show "length d = 52" using mset_eq_length [OF m] by simp
  show "distinct d" using mset_eq_imp_distinct_iff [OF m] distinct_standard_deck by simp
  show "set d = {c. valid_card c}" using mset_eq_setD [OF m] set_standard_deck by simp
qed

section \<open>No modulo bias\<close>

lemma card_residues:
  fixes m q j :: nat
  assumes "j < m"
  shows "card {n. n < m * q \<and> n mod m = j} = q"
proof -
  have "{n. n < m * q \<and> n mod m = j} = (\<lambda>k. m * k + j) ` {..<q}"
  proof (intro subset_antisym subsetI)
    fix n assume n: "n \<in> {n. n < m * q \<and> n mod m = j}"
    then have "n = m * (n div m) + j" using mult_div_mod_eq [of m n] by simp
    moreover have "n div m < q" using n by (simp add: less_mult_imp_div_less mult.commute)
    ultimately show "n \<in> (\<lambda>k. m * k + j) ` {..<q}" by blast
  next
    fix n assume "n \<in> (\<lambda>k. m * k + j) ` {..<q}"
    then obtain k where k: "n = m * k + j" "k < q" by auto
    then have "m * k + m \<le> m * q" by (metis Suc_leI mult_Suc_right mult_le_mono2 add.commute)
    with k assms show "n \<in> {n. n < m * q \<and> n mod m = j}" by auto
  qed
  moreover have "inj_on (\<lambda>k. m * k + j) {..<q}" using assms by (auto simp: inj_on_def)
  ultimately show ?thesis by (simp add: card_image)
qed

text \<open>C28: the shuffle index has no modulo bias. Of the 2^32 values a draw can take, the ones the
  rejection test accepts hit every index below the bound \<open>mx\<close> equally often, namely
  \<open>2^32 div mx\<close> times.\<close>

theorem shuffle_index_unbiased:
  assumes "0 < mx" and "j < mx"
  shows "card {v :: u32. accepts mx v \<and> v mod mx = j} = 2 ^ 32 div unat mx"
proof -
  let ?m = "unat mx" and ?q = "2 ^ 32 div unat mx"
  have lim: "2 ^ 32 - 2 ^ 32 mod ?m = ?m * ?q" by (simp add: minus_mod_eq_mult_div)
  have le: "?m * ?q \<le> 2 ^ 32" by (simp add: lim [symmetric])
  have acc: "accepts mx v \<longleftrightarrow> unat v < ?m * ?q" for v
    by (simp only: accepts_iff [OF assms(1)] lim)
  have "unat ` {v. accepts mx v \<and> v mod mx = j} = {n. n < ?m * ?q \<and> n mod ?m = unat j}"
  proof (intro subset_antisym subsetI)
    fix n assume "n \<in> unat ` {v. accepts mx v \<and> v mod mx = j}"
    then show "n \<in> {n. n < ?m * ?q \<and> n mod ?m = unat j}"
      by (auto simp: acc unat_mod_distrib)
  next
    fix n assume n: "n \<in> {n. n < ?m * ?q \<and> n mod ?m = unat j}"
    then have "n < 2 ^ 32" using order.strict_trans2 [OF _ le, of n] by blast
    then have v: "unat (of_nat n :: u32) = n" unfolding unat_of_nat by simp
    have "(of_nat n :: u32) mod mx = j"
      using n v by (intro word_unat_eq_iff [THEN iffD2]) (simp add: unat_mod_distrib)
    moreover have "accepts mx (of_nat n)" using n v by (simp add: acc)
    ultimately show "n \<in> unat ` {v. accepts mx v \<and> v mod mx = j}"
      using v by (intro image_eqI [of _ _ "of_nat n"]) auto
  qed
  moreover have "inj_on unat {v. accepts mx v \<and> v mod mx = j}"
    by (rule inj_onI) (simp only: word_unat_eq_iff)
  moreover have "unat j < ?m" using assms(2) by (simp add: word_less_nat_alt)
  ultimately show ?thesis
    using card_image [of unat "{v :: u32. accepts mx v \<and> v mod mx = j}"] card_residues [of "unat j" ?m ?q]
    by simp
qed

lemma shuffle_index_unbiased_witness:
  "card {v :: u32. accepts 52 v \<and> v mod 52 = 7} = 82595524"
  using shuffle_index_unbiased [of 52 7] by simp

section \<open>Commitments bind and open\<close>

text \<open>
  What the commitment relies on is that every digest has the same length: then the concatenation of
  the leaves can be cut back into the leaves, and a salt can be told from the card bytes behind it.
\<close>

definition collide :: "(bytes \<Rightarrow> bytes) \<Rightarrow> bytes \<Rightarrow> bytes \<Rightarrow> bool" where
  "collide H x y \<longleftrightarrow> x \<noteq> y \<and> H x = H y"

locale fixed_digest =
  fixes H :: "bytes \<Rightarrow> bytes" and n :: nat
  assumes length_digest: "length (H m) = n"
begin

lemma leaf_binds:
  assumes "H (salt @ b) = H (salt' @ b')" and "length salt = n" and "length salt' = n"
  shows "salt = salt' \<and> b = b' \<or> collide H (salt @ b) (salt' @ b')"
  using assms by (auto simp: collide_def)

lemma leaves_bind:
  assumes "H (concat xs) = H (concat ys)" and "length xs = length ys"
    and "\<forall>x\<in>set xs. length x = n" and "\<forall>y\<in>set ys. length y = n"
  shows "xs = ys \<or> collide H (concat xs) (concat ys)"
proof (cases "concat xs = concat ys")
  case True
  have "\<forall>(x, y)\<in>set (zip xs ys). length x = length y"
    using assms(3,4) by (fastforce dest: set_zip_leftD set_zip_rightD)
  with True assms(2) show ?thesis using concat_injective by blast
qed (use assms(1) in \<open>simp add: collide_def\<close>)

end

interpretation sha: fixed_digest sha256 32
  by unfold_locales simp

lemma card_bytes_inject:
  assumes "valid_card c" and "valid_card d" and "card_bytes c = card_bytes d"
  shows "c = d"
proof -
  have "unat (of_nat k :: byte) = k" if "k \<le> 14" for k
    using that unfolding unat_of_nat by (simp add: take_bit_eq_mod)
  moreover have "rank c \<le> 14" "suit c \<le> 14" "rank d \<le> 14" "suit d \<le> 14"
    using assms(1,2) by (simp_all add: valid_card_def)
  ultimately have "rank c = rank d" "suit c = suit d"
    using assms(3) unfolding card_bytes_def by (metis list.inject)+
  then show ?thesis by (cases c, cases d) simp
qed

lemma length_card_salt [simp]: "length (card_salt seed i) = 32"
  by (simp add: card_salt_def)

lemma length_card_hash [simp]: "length (card_hash seed i c) = 32"
  by (simp add: card_hash_def)

lemma card_hashes_conv: "card_hashes seed cards = map (\<lambda>i. card_hash seed i (cards ! i)) [0..<length cards]"
  by (rule nth_equalityI) (simp_all add: card_hashes_def nth_enumerate_eq)

lemma those_map_Some_iff:
  "those (map f xs) = Some ys \<longleftrightarrow> (\<forall>x\<in>set xs. f x \<noteq> None) \<and> ys = map (\<lambda>x. the (f x)) xs"
  by (induction xs arbitrary: ys) (auto split: option.splits)

definition opened :: "(nat \<rightharpoonup> card \<times> bytes) \<Rightarrow> (nat \<rightharpoonup> bytes) \<Rightarrow> bytes list" where
  "opened revealed hidden = map (\<lambda>i. the (partial_leaf revealed hidden i)) [0..<52]"

lemma verify_partial_iff:
  "verify_partial root revealed hidden \<longleftrightarrow>
     (\<forall>i<52. partial_leaf revealed hidden i \<noteq> None) \<and> sha256 (concat (opened revealed hidden)) = root"
proof (cases "\<forall>i<52. partial_leaf revealed hidden i \<noteq> None")
  case True
  then have "those (map (partial_leaf revealed hidden) [0..<52]) = Some (opened revealed hidden)"
    unfolding opened_def by (subst those_map_Some_iff) auto
  with True show ?thesis by (simp add: verify_partial_def)
next
  case False
  then have "\<not> (\<forall>i\<in>set [0..<52]. partial_leaf revealed hidden i \<noteq> None)" by auto
  then have "those (map (partial_leaf revealed hidden) [0..<52]) = None"
    using those_map_Some_iff [of "partial_leaf revealed hidden" "[0..<52]"] by (metis not_Some_eq)
  with False show ?thesis by (simp add: verify_partial_def)
qed

definition honest_revealed :: "bytes \<Rightarrow> card list \<Rightarrow> nat set \<Rightarrow> nat \<rightharpoonup> card \<times> bytes" where
  "honest_revealed seed cards S i = (if i \<in> S then Some (cards ! i, card_salt seed i) else None)"

definition honest_hidden :: "bytes \<Rightarrow> card list \<Rightarrow> nat set \<Rightarrow> nat \<rightharpoonup> bytes" where
  "honest_hidden seed cards S i = (if i \<in> S then None else Some (card_hash seed i (cards ! i)))"

lemma honest_leaf:
  "partial_leaf (honest_revealed seed cards S) (honest_hidden seed cards S) i =
     Some (card_hash seed i (cards ! i))"
  by (simp add: partial_leaf_def honest_revealed_def honest_hidden_def card_hash_def)

lemma honest_proof_verifies:
  assumes "length cards = 52"
  shows "verify_partial (root_commit_hash seed cards)
           (honest_revealed seed cards S) (honest_hidden seed cards S)"
  by (simp add: verify_partial_iff honest_leaf opened_def root_commit_hash_def card_hashes_conv assms)

text \<open>C29: an honest fairness proof is accepted. For any seed and any 52 cards and any set \<open>S\<close> of
  positions shown, the cards and salts at \<open>S\<close> together with the leaf hashes at every other position
  verify against the published root commitment.\<close>

theorem fairness_proof_complete:
  assumes "length cards = 52"
  shows "verify_partial (root_commit_hash seed cards)
           (honest_revealed seed cards S) (honest_hidden seed cards S)"
  using assms by (rule honest_proof_verifies)

lemma fairness_proof_complete_witness:
  "verify_partial (root_commit_hash [7] standard_deck)
     (honest_revealed [7] standard_deck {0, 51}) (honest_hidden [7] standard_deck {0, 51})"
  using fairness_proof_complete [of standard_deck "[7]"] by simp

text \<open>C30: the commitment binds the dealer to the shuffle. If a proof verifies against the root
  committed for \<open>seed\<close> and \<open>cards\<close> and reveals a card and salt at position \<open>i\<close>, these are the
  committed card and salt, unless the proof itself exhibits a SHA-256 collision: between the
  two leaf messages of position \<open>i\<close>, or between the two root messages.\<close>

theorem fairness_proof_binding:
  assumes "length cards = 52" and "\<forall>c\<in>set cards. valid_card c"
    and "verify_partial (root_commit_hash seed cards) revealed hidden"
    and "\<forall>h\<in>ran hidden. length h = 32"
    and "i < 52" and "revealed i = Some (c, salt)" and "valid_card c" and "length salt = 32"
  shows "c = cards ! i \<and> salt = card_salt seed i \<or>
         collide sha256 (salt @ card_bytes c) (card_salt seed i @ card_bytes (cards ! i)) \<or>
         collide sha256 (concat (opened revealed hidden)) (concat (card_hashes seed cards))"
proof -
  let ?leaf = "partial_leaf revealed hidden"
  have some: "\<forall>i<52. ?leaf i \<noteq> None"
    and root: "sha256 (concat (opened revealed hidden)) = sha256 (concat (card_hashes seed cards))"
    using assms(3) by (simp_all add: verify_partial_iff root_commit_hash_def)
  have "length l = 32" if "?leaf j = Some l" for j l
    using that assms(4) by (auto simp: partial_leaf_def ran_def split: option.splits)
  then have "\<forall>x\<in>set (opened revealed hidden). length x = 32"
    using some by (auto simp: opened_def)
  moreover have "length (opened revealed hidden) = length (card_hashes seed cards)"
    by (simp add: opened_def card_hashes_conv assms(1))
  ultimately consider "opened revealed hidden = card_hashes seed cards"
    | "collide sha256 (concat (opened revealed hidden)) (concat (card_hashes seed cards))"
    using sha.leaves_bind [OF root] by (auto simp: card_hashes_conv)
  then show ?thesis
  proof cases
    case 1
    then have "opened revealed hidden ! i = card_hashes seed cards ! i" by simp
    then have "sha256 (salt @ card_bytes c) = sha256 (card_salt seed i @ card_bytes (cards ! i))"
      using assms(1,5,6) by (simp add: opened_def card_hashes_conv partial_leaf_def card_hash_def)
    from sha.leaf_binds [OF this assms(8)] show ?thesis
      using card_bytes_inject [OF assms(7), of "cards ! i"] assms(1,2,5) by auto
  qed simp
qed

lemma fairness_proof_binding_witness:
  "(0 :: nat) < 52 \<and>
   verify_partial (root_commit_hash [] standard_deck)
     (honest_revealed [] standard_deck {0}) (honest_hidden [] standard_deck {0}) \<and>
   (Card 2 0 = standard_deck ! 0 \<and> card_salt [] 0 = card_salt [] 0 \<or>
    collide sha256 (card_salt [] 0 @ card_bytes (Card 2 0)) (card_salt [] 0 @ card_bytes (standard_deck ! 0)) \<or>
    collide sha256 (concat (opened (honest_revealed [] standard_deck {0}) (honest_hidden [] standard_deck {0})))
      (concat (card_hashes [] standard_deck)))"
proof -
  have v: "verify_partial (root_commit_hash [] standard_deck)
     (honest_revealed [] standard_deck {0}) (honest_hidden [] standard_deck {0})"
    by (rule honest_proof_verifies) simp
  have h: "\<forall>h\<in>ran (honest_hidden [] standard_deck {0}). length h = 32"
    by (auto simp: ran_def honest_hidden_def split: if_splits)
  have d: "standard_deck ! 0 = Card 2 0" by (simp add: standard_deck_def)
  have r: "honest_revealed [] standard_deck {0} 0 = Some (Card 2 0, card_salt [] 0)"
    by (simp add: honest_revealed_def d)
  show ?thesis
    using fairness_proof_binding [OF _ _ v h _ r] set_standard_deck v by (simp add: valid_card_def)
qed

end
