(* ===== verification/Hand_Ranking.thy ===== *)
theory Hand_Ranking
  imports Deck "HOL-Library.Product_Lexorder" "HOL-Library.List_Lexorder"
begin

text \<open>
  The combinatorial hand evaluators: \<open>api/internal/engine/handeval/ref/ref.go\<close> for the 52-card deck
  and \<open>api/internal/engine/handeval/shortdeck/shortdeck.go\<close> for the 36-card one. Both classify five
  cards by the multiplicities of their ranks, flush and straight, pack the category and its tiebreak
  ranks into one \<open>uint32\<close>, and take the maximum over the five-card subsets a combination counter
  enumerates. They differ in the order of the categories and in the lowest straight; the locale
  \<open>hand_ranking\<close> states what their shared lemmas need of these two and is interpreted on both.
\<close>

section \<open>Categories\<close>

datatype category = HighCard | Pair | TwoPair | ThreeOfAKind | Straight | Flush | FullHouse
  | FourOfAKind | StraightFlush | RoyalFlush

fun category_number :: "category \<Rightarrow> nat" where
  "category_number HighCard = 0"
| "category_number Pair = 1"
| "category_number TwoPair = 2"
| "category_number ThreeOfAKind = 3"
| "category_number Straight = 4"
| "category_number Flush = 5"
| "category_number FullHouse = 6"
| "category_number FourOfAKind = 7"
| "category_number StraightFlush = 8"
| "category_number RoyalFlush = 9"

lemma category_number_inject [simp]: "category_number c = category_number d \<longleftrightarrow> c = d"
  by (cases c; cases d) simp_all

lemma category_number_less: "category_number c < 10"
  by (cases c) simp_all

text \<open>Categories are ordered by their numbers, the order of standard hold'em.\<close>

instantiation category :: linorder
begin

definition less_eq_category :: "category \<Rightarrow> category \<Rightarrow> bool" where
  "less_eq_category c d \<longleftrightarrow> category_number c \<le> category_number d"

definition less_category :: "category \<Rightarrow> category \<Rightarrow> bool" where
  "less_category c d \<longleftrightarrow> category_number c < category_number d"

instance
  by standard (auto simp: less_eq_category_def less_category_def)

end

definition strength_order :: "category list" where
  "strength_order = [HighCard, Pair, TwoPair, ThreeOfAKind, Straight, FullHouse, Flush, FourOfAKind,
     StraightFlush, RoyalFlush]"

definition strength_of :: "category \<Rightarrow> nat" where
  "strength_of c = the (index_of c strength_order)"

definition category_of :: "nat \<Rightarrow> category option" where
  "category_of n = (if n < length strength_order then Some (strength_order ! n) else None)"

section \<open>Packed scores\<close>

text \<open>\<open>s |= r << shift\<close> for each rank, four bits lower every time.\<close>

fun put_ranks :: "u32 \<Rightarrow> nat \<Rightarrow> nat list \<Rightarrow> u32" where
  "put_ranks s shift [] = s"
| "put_ranks s shift (r # rs) = put_ranks (s OR push_bit shift (of_nat r)) (shift - 4) rs"

definition pack_score :: "nat \<Rightarrow> nat list \<Rightarrow> u32" where
  "pack_score n ts = put_ranks (push_bit 24 (of_nat n)) 20 ts"

definition make_score :: "category \<Rightarrow> nat list \<Rightarrow> u32" where
  "make_score c ts = pack_score (category_number c) ts"

definition short_make_score :: "category \<Rightarrow> nat list \<Rightarrow> u32" where
  "short_make_score c ts = pack_score (strength_of c) ts"

text \<open>The category read back from a score; the numbers above nine name no category.\<close>

definition score_category :: "u32 \<Rightarrow> category option" where
  "score_category s = List.find (\<lambda>c. category_number c = unat (drop_bit 24 s))
     [HighCard, Pair, TwoPair, ThreeOfAKind, Straight, Flush, FullHouse, FourOfAKind, StraightFlush,
      RoyalFlush]"

definition short_score_category :: "u32 \<Rightarrow> category option" where
  "short_score_category s = category_of (unat (drop_bit 24 s))"

section \<open>Five cards\<close>

text \<open>
  \<open>straightHighCard\<close> on the ranks in descending order. The \<open>uint8\<close> subtraction never wraps on a
  descending list.
\<close>

definition straight_high_card :: "nat list \<Rightarrow> nat option" where
  "straight_high_card rs =
     (if \<not> distinct rs then None
      else if rs ! 0 - rs ! 4 = 4 then Some (rs ! 0)
      else if rs ! 0 = 14 \<and> rs ! 1 = 5 \<and> rs ! 2 = 4 \<and> rs ! 3 = 3 \<and> rs ! 4 = 2 then Some 5
      else None)"

definition short_straight_high_card :: "nat list \<Rightarrow> nat option" where
  "short_straight_high_card rs =
     (if \<not> distinct rs then None
      else if rs ! 0 - rs ! 4 = 4 then Some (rs ! 0)
      else if rs ! 0 = 14 \<and> rs ! 1 = 9 \<and> rs ! 2 = 8 \<and> rs ! 3 = 7 \<and> rs ! 4 = 6 then Some 9
      else None)"

text \<open>
  The ranks with their counts, by descending count, then descending rank. The keys of the sort are
  distinct, so neither the order of the Go map nor the stability of the sort matters.
\<close>

definition rank_groups :: "nat list \<Rightarrow> (nat \<times> nat) list" where
  "rank_groups rs =
     rev (sort_key (\<lambda>g. (snd g, fst g)) (map (\<lambda>r. (r, count_list rs r)) (remdups rs)))"

definition classify :: "(nat list \<Rightarrow> nat option) \<Rightarrow> card list \<Rightarrow> category \<times> nat list" where
  "classify straight_high hand =
     (let ranks = rev (sort (map rank hand));
          is_flush = (length (remdups (map suit hand)) = 1);
          straight = straight_high ranks;
          groups = rank_groups (map rank hand);
          g_rank = (\<lambda>i. fst (groups ! i));
          g_count = (\<lambda>i. snd (groups ! i))
      in if is_flush \<and> straight = Some 14 then (RoyalFlush, [])
         else if is_flush \<and> straight \<noteq> None then (StraightFlush, [the straight])
         else if g_count 0 = 4 then (FourOfAKind, [g_rank 0, g_rank 1])
         else if g_count 0 = 3 \<and> g_count 1 = 2 then (FullHouse, [g_rank 0, g_rank 1])
         else if is_flush then (Flush, [ranks ! 0, ranks ! 1, ranks ! 2, ranks ! 3, ranks ! 4])
         else if straight \<noteq> None then (Straight, [the straight])
         else if g_count 0 = 3 then (ThreeOfAKind, [g_rank 0, g_rank 1, g_rank 2])
         else if g_count 0 = 2 \<and> g_count 1 = 2 then (TwoPair, [g_rank 0, g_rank 1, g_rank 2])
         else if g_count 0 = 2 then (Pair, [g_rank 0, g_rank 1, g_rank 2, g_rank 3])
         else (HighCard, [ranks ! 0, ranks ! 1, ranks ! 2, ranks ! 3, ranks ! 4]))"

definition evaluate5 :: "card list \<Rightarrow> u32" where
  "evaluate5 hand = (case classify straight_high_card hand of (c, ts) \<Rightarrow> make_score c ts)"

definition short_evaluate5 :: "card list \<Rightarrow> u32" where
  "short_evaluate5 hand = (case classify short_straight_high_card hand of (c, ts) \<Rightarrow> short_make_score c ts)"

section \<open>Every five-card subset\<close>

text \<open>The largest index below \<open>i\<close> whose entry can still move up.\<close>

fun last_movable :: "nat list \<Rightarrow> nat \<Rightarrow> nat \<Rightarrow> nat option" where
  "last_movable idx n 0 = None"
| "last_movable idx n (Suc i) = (if idx ! i = n - 5 + i then last_movable idx n i else Some i)"

definition next_combination :: "nat list \<Rightarrow> nat \<Rightarrow> nat list option" where
  "next_combination idx n =
     (case last_movable idx n 5 of
        None \<Rightarrow> None
      | Some i \<Rightarrow> Some (foldl (\<lambda>xs j. xs[j := xs ! (j - 1) + 1]) (idx[i := idx ! i + 1]) [Suc i..<5]))"

partial_function (option) best_loop ::
    "(card list \<Rightarrow> u32) \<Rightarrow> card list \<Rightarrow> nat \<Rightarrow> nat list \<Rightarrow> u32 \<Rightarrow> u32 option" where
  "best_loop evaluate cards n idx best =
     (let s = evaluate (map ((!) cards) idx);
          best' = (if best < s then s else best)
      in case next_combination idx n of
           None \<Rightarrow> Some best'
         | Some idx' \<Rightarrow> best_loop evaluate cards n idx' best')"

definition best_n :: "card list \<Rightarrow> u32 option" where
  "best_n cards = best_loop evaluate5 cards (length cards) [0, 1, 2, 3, 4] 0"

definition ref_best7 :: "card list \<Rightarrow> u32 option" where
  "ref_best7 cards = best_loop evaluate5 cards 7 [0, 1, 2, 3, 4] 0"

definition short_best7 :: "card list \<Rightarrow> u32 option" where
  "short_best7 cards = best_loop short_evaluate5 cards 7 [0, 1, 2, 3, 4] 0"

section \<open>The packed score orders by category, then by the tiebreak ranks\<close>

fun hex_value :: "nat \<Rightarrow> nat list \<Rightarrow> nat" where
  "hex_value k [] = 0"
| "hex_value k (r # rs) = r * 16 ^ (k - 1) + hex_value (k - 1) rs"

lemma hex_value_less:
  assumes "\<forall>r\<in>set rs. r < 16" and "length rs \<le> k"
  shows "hex_value k rs < 16 ^ k"
  using assms
proof (induction rs arbitrary: k)
  case (Cons r rs)
  then obtain j where k: "k = Suc j" by (cases k) auto
  with Cons have "hex_value j rs < 16 ^ j" and "r \<le> 15" by auto
  then have "r * 16 ^ j + hex_value j rs < 15 * 16 ^ j + 16 ^ j"
    by (intro add_le_less_mono mult_le_mono1)
  then show ?case by (simp add: k)
qed simp

lemma hex_value_lex:
  assumes "length xs = length ys" and "\<forall>r\<in>set xs. r < 16" and "\<forall>r\<in>set ys. r < 16" and "length xs \<le> k"
  shows "hex_value k xs < hex_value k ys \<longleftrightarrow> xs < ys"
  using assms
proof (induction xs ys arbitrary: k rule: list_induct2)
  case (Cons x xs y ys)
  then obtain j where k: "k = Suc j" by (cases k) auto
  have lt: "hex_value j xs < 16 ^ j" "hex_value j ys < 16 ^ j"
    using Cons by (auto simp: k intro!: hex_value_less)
  have IH: "hex_value j xs < hex_value j ys \<longleftrightarrow> xs < ys"
    using Cons by (simp add: k)
  consider "x < y" | "y < x" | "x = y" by linarith
  then show ?case
  proof cases
    case 1
    then have "Suc x * 16 ^ j \<le> y * 16 ^ j" by (intro mult_le_mono1) simp
    with lt have "x * 16 ^ j + hex_value j xs < y * 16 ^ j + hex_value j ys" by simp
    with 1 show ?thesis by (simp add: k)
  next
    case 2
    then have "Suc y * 16 ^ j \<le> x * 16 ^ j" by (intro mult_le_mono1) simp
    with lt have "\<not> x * 16 ^ j + hex_value j xs < y * 16 ^ j + hex_value j ys" by simp
    with 2 show ?thesis by (simp add: k)
  qed (simp add: k IH)
qed simp

lemma or_low_bits:
  fixes a b :: nat
  assumes "2 ^ m dvd a" and "b < 2 ^ m"
  shows "a OR b = a + b"
proof -
  from assms(1) obtain c where a: "a = push_bit m c" by (auto simp: push_bit_eq_mult mult.commute)
  have b: "b = take_bit m b" using assms(2) by (simp add: take_bit_nat_eq_self)
  have "a AND b = 0" by (subst b, subst a) (rule bit_eqI, auto simp: bit_simps)
  then show ?thesis by (simp add: disjunctive_add_eq_or)
qed

lemma unat_push_bit_of_nat:
  assumes "n * 2 ^ m < 2 ^ 32"
  shows "unat (push_bit m (of_nat n) :: u32) = n * 2 ^ m"
  using assms by (simp add: push_bit_of_nat unat_of_nat push_bit_eq_mult [of m n] take_bit_nat_eq_self
      del: push_bit_of_nat [symmetric] of_nat_mult of_nat_power)

lemma or_rank_add:
  fixes s :: u32
  assumes "16 ^ Suc j dvd unat s" and "r < 16" and "j \<le> 7"
  shows "unat (s OR push_bit (4 * j) (of_nat r)) = unat s + r * 16 ^ j"
proof -
  have "r * 16 ^ j < 16 ^ Suc j" using assms(2) by simp
  moreover have "(16 :: nat) ^ Suc j \<le> 16 ^ 8" using assms(3) by (intro power_increasing) simp_all
  ultimately have "r * 16 ^ j < 16 ^ 8" by (rule order.strict_trans2)
  then have lt: "r * 16 ^ j < 2 ^ 32" by simp
  have p16: "(16 :: nat) ^ j = 2 ^ (4 * j)" for j by (simp add: power_mult)
  have "unat (push_bit (4 * j) (of_nat r) :: u32) = r * 16 ^ j"
    using lt by (simp add: unat_push_bit_of_nat p16)
  then show ?thesis
    using assms(1) \<open>r * 16 ^ j < 16 ^ Suc j\<close> by (simp add: unsigned_or_eq or_low_bits p16 del: power_Suc)
qed

lemma put_ranks_value:
  assumes "16 ^ k dvd unat s" and "k \<le> 8" and "\<forall>r\<in>set ts. r < 16" and "length ts < k"
  shows "unat (put_ranks s (4 * (k - 1)) ts) = unat s + hex_value k ts"
  using assms
proof (induction ts arbitrary: s k)
  case (Cons r ts)
  then obtain j where k: "k = Suc j" "0 < j" by (cases k) auto
  have s': "unat (s OR push_bit (4 * j) (of_nat r)) = unat s + r * 16 ^ j"
    using Cons.prems by (intro or_rank_add) (auto simp: k)
  have "16 ^ j dvd unat s" using Cons.prems(1) by (auto simp: k intro: dvd_mult_left)
  then have "16 ^ j dvd unat (s OR push_bit (4 * j) (of_nat r))" by (simp add: s')
  from Cons.IH [OF this] show ?case
    using Cons.prems s' by (simp add: k diff_mult_distrib2)
qed simp

lemma pack_score_value:
  assumes "n < 256" and "\<forall>r\<in>set ts. r < 16" and "length ts \<le> 5"
  shows "unat (pack_score n ts) = n * 16 ^ 6 + hex_value 6 ts"
proof -
  have "unat (push_bit 24 (of_nat n) :: u32) = n * 2 ^ 24"
    using assms(1) by (intro unat_push_bit_of_nat) simp
  then show ?thesis
    using put_ranks_value [of 6 "push_bit 24 (of_nat n)" ts] assms(2,3)
    by (simp add: pack_score_def)
qed

lemma pack_score_less_iff:
  assumes "n < 256" and "\<forall>r\<in>set ts. r < 16" and "length ts \<le> 5"
    and "n' < 256" and "\<forall>r\<in>set ts'. r < 16" and "length ts' \<le> 5"
    and "n = n' \<longrightarrow> length ts = length ts'"
  shows "pack_score n ts < pack_score n' ts' \<longleftrightarrow> n < n' \<or> n = n' \<and> ts < ts'"
proof -
  have lt: "hex_value 6 ts < 16 ^ 6" "hex_value 6 ts' < 16 ^ 6"
    using assms hex_value_less [of ts 6] hex_value_less [of ts' 6] by simp_all
  have "n * 16 ^ 6 + hex_value 6 ts < n' * 16 ^ 6 + hex_value 6 ts' \<longleftrightarrow>
      n < n' \<or> n = n' \<and> hex_value 6 ts < hex_value 6 ts'"
    using lt by (cases n n' rule: linorder_cases) auto
  then show ?thesis
    using assms hex_value_lex [of ts ts' 6]
    by (simp only: word_less_nat_alt pack_score_value) auto
qed

lemma pack_score_inject:
  assumes "n < 256" and "\<forall>r\<in>set ts. r < 16" and "length ts \<le> 5"
    and "n' < 256" and "\<forall>r\<in>set ts'. r < 16" and "length ts' \<le> 5"
    and "n = n' \<longrightarrow> length ts = length ts'" and "pack_score n ts = pack_score n' ts'"
  shows "n = n' \<and> ts = ts'"
proof -
  have "\<not> (n < n' \<or> n = n' \<and> ts < ts')" "\<not> (n' < n \<or> n' = n \<and> ts' < ts)"
    using pack_score_less_iff [of n ts n' ts'] pack_score_less_iff [of n' ts' n ts] assms by auto
  then show ?thesis by (meson linorder_neqE)
qed

lemma pack_score_category:
  assumes "n < 256" and "\<forall>r\<in>set ts. r < 16" and "length ts \<le> 5"
  shows "unat (drop_bit 24 (pack_score n ts)) = n"
proof -
  have "hex_value 6 ts < 16 ^ 6" using assms by (intro hex_value_less) auto
  then have "(n * 16 ^ 6 + hex_value 6 ts) div 16 ^ 6 = n" by simp
  then show ?thesis
    by (simp add: unat_drop_bit_eq drop_bit_eq_div [where 'a = nat] pack_score_value [OF assms])
qed

section \<open>The order of the cards does not matter\<close>

lemma sort_perm:
  assumes "mset xs = mset ys"
  shows "sort xs = sort (ys :: nat list)"
  using arg_cong [OF assms, of sorted_list_of_multiset] by (simp only: sorted_list_of_multiset_mset)

lemma remdups_mset:
  assumes "mset xs = mset ys"
  shows "mset (remdups xs) = mset (remdups ys)"
  using mset_set_set [of "remdups xs"] mset_set_set [of "remdups ys"] mset_eq_setD [OF assms] by simp

lemma count_list_perm:
  assumes "mset xs = mset ys"
  shows "count_list xs = count_list ys"
  using arg_cong [OF assms, of count] by (simp add: fun_eq_iff count_mset)

lemma rank_groups_perm:
  assumes "mset xs = mset ys"
  shows "rank_groups xs = rank_groups ys"
proof -
  let ?g = "\<lambda>r. (r, count_list ys r)" and ?f = "\<lambda>g :: nat \<times> nat. (snd g, fst g)"
  have "sort_key ?f (map ?g (remdups xs)) = sort_key ?f (map ?g (remdups ys))"
  proof (rule sort_key_inj_key_eq)
    show "mset (map ?g (remdups xs)) = mset (sort_key ?f (map ?g (remdups ys)))"
      using remdups_mset [OF assms] by simp
  qed (auto simp: inj_on_def)
  then show ?thesis by (simp add: rank_groups_def count_list_perm [OF assms])
qed

lemma classify_perm:
  assumes "mset h = mset h'"
  shows "classify st h = classify st h'"
proof -
  have r: "mset (map rank h) = mset (map rank h')" and s: "mset (map suit h) = mset (map suit h')"
    using assms by simp_all
  have "length (remdups (map suit h)) = length (remdups (map suit h'))"
    using remdups_mset [OF s] mset_eq_length by blast
  then show ?thesis
    unfolding classify_def by (simp only: sort_perm [OF r] rank_groups_perm [OF r])
qed

lemma evaluate5_perm: "mset h = mset h' \<Longrightarrow> evaluate5 h = evaluate5 h'"
  using classify_perm [of h h' straight_high_card] by (simp add: evaluate5_def)

lemma short_evaluate5_perm: "mset h = mset h' \<Longrightarrow> short_evaluate5 h = short_evaluate5 h'"
  using classify_perm [of h h' short_straight_high_card] by (simp add: short_evaluate5_def)

section \<open>Poker hands by rank multiplicities\<close>

text \<open>
  An independent reading of the rules: the multiplicity of each rank, the ranks of one
  multiplicity in descending order, one suit or not, and the set of ranks of a straight with a given
  top card. \<open>low\<close> is the top of the lowest straight, in which the ace counts low: five in
  hold'em, nine in short deck.
\<close>

definition mult :: "card list \<Rightarrow> nat \<Rightarrow> nat" where
  "mult h r = count_list (map rank h) r"

definition all_ranks :: "nat list" where
  "all_ranks = [2..<15]"

definition kinds :: "card list \<Rightarrow> nat \<Rightarrow> nat list" where
  "kinds h k = rev (filter (\<lambda>r. mult h r = k) all_ranks)"

definition by_kind :: "card list \<Rightarrow> nat list" where
  "by_kind h = kinds h 4 @ kinds h 3 @ kinds h 2 @ kinds h 1"

definition one_suit :: "card list \<Rightarrow> bool" where
  "one_suit h \<longleftrightarrow> (\<forall>c\<in>set h. \<forall>d\<in>set h. suit c = suit d)"

definition straight_ranks :: "nat \<Rightarrow> nat \<Rightarrow> nat set" where
  "straight_ranks low t = (if t = low then insert 14 {low - 3..low} else {t - 4..t})"

definition straight_top :: "nat \<Rightarrow> card list \<Rightarrow> nat option" where
  "straight_top low h = List.find (\<lambda>t. set (map rank h) = straight_ranks low t) [low..<15]"

definition poker_category :: "nat \<Rightarrow> card list \<Rightarrow> category" where
  "poker_category low h =
     (if one_suit h \<and> straight_top low h = Some 14 then RoyalFlush
      else if one_suit h \<and> straight_top low h \<noteq> None then StraightFlush
      else if kinds h 4 \<noteq> [] then FourOfAKind
      else if kinds h 3 \<noteq> [] \<and> kinds h 2 \<noteq> [] then FullHouse
      else if one_suit h then Flush
      else if straight_top low h \<noteq> None then Straight
      else if kinds h 3 \<noteq> [] then ThreeOfAKind
      else if length (kinds h 2) = 2 then TwoPair
      else if kinds h 2 \<noteq> [] then Pair
      else HighCard)"

definition poker_tiebreaks :: "nat \<Rightarrow> card list \<Rightarrow> nat list" where
  "poker_tiebreaks low h =
     (case poker_category low h of
        RoyalFlush \<Rightarrow> []
      | StraightFlush \<Rightarrow> [the (straight_top low h)]
      | Straight \<Rightarrow> [the (straight_top low h)]
      | _ \<Rightarrow> by_kind h)"

definition hand_of :: "nat \<Rightarrow> card list \<Rightarrow> bool" where
  "hand_of lo h \<longleftrightarrow> length h = 5 \<and> distinct h \<and> (\<forall>c\<in>set h. valid_card c \<and> lo \<le> rank c)"

lemma all_ranks [simp]:
  "r \<in> set all_ranks \<longleftrightarrow> 2 \<le> r \<and> r \<le> 14" "distinct all_ranks" "sorted all_ranks"
  unfolding all_ranks_def set_upt by auto

lemma sum_mult:
  assumes "set xs \<subseteq> set L" and "distinct L"
  shows "(\<Sum>r\<leftarrow>L. count_list xs r) = length xs"
  using assms(1)
proof (induction xs)
  case (Cons x xs)
  have "(\<Sum>r\<leftarrow>L. count_list (x # xs) r) = (\<Sum>r\<leftarrow>L. (if r = x then 1 else 0)) + (\<Sum>r\<leftarrow>L. count_list xs r)"
    by (simp add: sum_list_addf [symmetric]) (intro arg_cong [where f = sum_list] map_cong, auto)
  also have "(\<Sum>r\<leftarrow>L. (if r = x then 1 else 0)) = (1 :: nat)"
    using Cons.prems assms(2) by (simp add: sum_list_distinct_conv_sum_set)
  finally show ?case using Cons by simp
qed simp

lemma sum_by_kind:
  fixes m :: "nat \<Rightarrow> nat"
  assumes "\<forall>r\<in>set L. m r \<le> 4"
  shows "(\<Sum>r\<leftarrow>L. m r) = 4 * length (filter (\<lambda>r. m r = 4) L) + 3 * length (filter (\<lambda>r. m r = 3) L) +
     2 * length (filter (\<lambda>r. m r = 2) L) + length (filter (\<lambda>r. m r = 1) L)"
  using assms
proof (induction L)
  case (Cons r L)
  then have "m r = 0 \<or> m r = 1 \<or> m r = 2 \<or> m r = 3 \<or> m r = 4" by force
  with Cons show ?case by auto
qed simp

lemma mult_le_4:
  assumes "distinct h" and "\<forall>c\<in>set h. valid_card c"
  shows "mult h r \<le> 4"
proof -
  let ?S = "{c \<in> set h. rank c = r}"
  have "mult h r = length (filter (\<lambda>c. rank c = r) h)"
    by (induction h) (auto simp: mult_def)
  also have "\<dots> = card ?S"
    using assms(1) by (metis distinct_card distinct_filter set_filter)
  also have "\<dots> = card (suit ` ?S)"
    by (intro card_image [symmetric] inj_onI) (auto intro: card.expand)
  also have "\<dots> \<le> card {..3 :: nat}"
    using assms(2) by (intro card_mono) (auto simp: valid_card_def)
  finally show ?thesis by simp
qed

lemma set_by_kind: "set (kinds h k) = {r. 2 \<le> r \<and> r \<le> 14 \<and> mult h r = k}"
  by (auto simp: kinds_def)

lemma kinds_count:
  assumes "hand_of lo h"
  shows "4 * length (kinds h 4) + 3 * length (kinds h 3) + 2 * length (kinds h 2) + length (kinds h 1) = 5"
proof -
  have "set (map rank h) \<subseteq> set all_ranks"
    using assms by (auto simp: hand_of_def valid_card_def)
  then have "(\<Sum>r\<leftarrow>all_ranks. mult h r) = 5"
    using assms sum_mult [of "map rank h" all_ranks] by (simp add: mult_def [abs_def] hand_of_def)
  moreover have "\<forall>r\<in>set all_ranks. mult h r \<le> 4"
    using assms mult_le_4 by (simp add: hand_of_def)
  ultimately show ?thesis
    using sum_by_kind [of all_ranks "mult h"] by (simp add: kinds_def)
qed

section \<open>The code's classification is the declarative one\<close>

lemma kinds_sorted: "sorted (rev (kinds h k))"
  by (simp add: kinds_def sorted_wrt_filter)

lemma rank_groups_by_kind:
  assumes "hand_of lo h"
  shows "rank_groups (map rank h) = map (\<lambda>r. (r, mult h r)) (by_kind h)"
proof -
  let ?g = "\<lambda>r. (r, mult h r)" and ?f = "\<lambda>g :: nat \<times> nat. (snd g, fst g)"
  have bounds: "1 \<le> mult h r \<and> mult h r \<le> 4" if "r \<in> set (map rank h)" for r
  proof -
    have "mult h r \<noteq> 0" unfolding mult_def count_list_0_iff using that by simp
    then show ?thesis using mult_le_4 assms by (simp add: hand_of_def)
  qed
  have rest: "mult h r = 0" if "r \<notin> set (map rank h)" for r
    using that by (simp add: mult_def count_list_0_iff)
  have range: "2 \<le> r \<and> r \<le> 14" if "r \<in> set (map rank h)" for r
    using that assms by (auto simp: hand_of_def valid_card_def)
  have "r \<in> set (by_kind h) \<longleftrightarrow> r \<in> set (map rank h)" for r
  proof
    assume "r \<in> set (by_kind h)"
    then show "r \<in> set (map rank h)"
      using rest [of r] by (fastforce simp: by_kind_def set_by_kind)
  next
    assume r: "r \<in> set (map rank h)"
    then have "mult h r \<in> {1, 2, 3, 4}" using bounds by force
    then show "r \<in> set (by_kind h)" using range [OF r] by (auto simp: by_kind_def set_by_kind)
  qed
  then have sets: "set (by_kind h) = set (map rank h)" by blast
  have dist: "distinct (by_kind h)"
    by (auto simp: by_kind_def set_by_kind) (simp_all add: kinds_def)
  have kind_keys: "sorted (map (\<lambda>r. ?f (?g r)) (rev (kinds h k)))" for k
  proof -
    have "sorted_wrt (\<lambda>x y. ?f (?g x) \<le> ?f (?g y)) (rev (kinds h k))"
      by (rule sorted_wrt_mono_rel [OF _ kinds_sorted]) (auto simp: set_by_kind)
    then show ?thesis by (simp add: sorted_map)
  qed
  have "mset (remdups (map rank h)) = mset (rev (by_kind h))"
    using sets dist by (metis distinct_remdups mset_set_set set_remdups mset_rev)
  moreover have "sorted (map (\<lambda>r. ?f (?g r)) (rev (by_kind h)))"
    using kind_keys by (auto simp: by_kind_def sorted_append set_by_kind)
  ultimately have "sort_key ?f (map ?g (remdups (map rank h))) = map ?g (rev (by_kind h))"
    by (intro sort_key_inj_key_eq) (auto simp: inj_on_def comp_def)
  then show ?thesis
    by (simp add: rank_groups_def mult_def [abs_def] rev_map)
qed

lemma straight_ranks_card: "5 \<le> low \<Longrightarrow> low \<le> 10 \<Longrightarrow> low \<le> t \<Longrightarrow> Finite_Set.card (straight_ranks low t) = 5"
  by (auto simp: straight_ranks_def)

lemma straight_ranks_bounds:
  assumes "5 \<le> low" and "low \<le> 10" and "low \<le> t" and "t \<le> 14"
  shows "Max (straight_ranks low t) = (if t = low then 14 else t)"
    and "Min (straight_ranks low t) = (if t = low then low - 3 else t - 4)"
proof -
  show "Max (straight_ranks low t) = (if t = low then 14 else t)"
    using assms by (intro Max_eqI) (auto simp: straight_ranks_def)
  show "Min (straight_ranks low t) = (if t = low then low - 3 else t - 4)"
    using assms by (intro Min_eqI) (auto simp: straight_ranks_def)
qed

lemma straight_ranks_inject:
  assumes "5 \<le> low" and "low \<le> 10" and "low \<le> t" and "t \<le> 14" and "low \<le> u" and "u \<le> 14"
    and "straight_ranks low t = straight_ranks low u"
  shows "t = u"
proof -
  have "(if t = low then 14 else t) = (if u = low then 14 else u)"
    and "(if t = low then low - 3 else t - 4) = (if u = low then low - 3 else u - 4)"
    using straight_ranks_bounds [OF assms(1-4)] straight_ranks_bounds [OF assms(1,2,5,6)] assms(7)
    by metis+
  then show ?thesis using assms(1-6) by (cases "t = low"; cases "u = low") auto
qed

lemma find_straight:
  assumes "5 \<le> low" and "low \<le> 10" and "low \<le> t" and "t \<le> 14" and "S = straight_ranks low t"
  shows "List.find (\<lambda>t. S = straight_ranks low t) [low..<15] = Some t"
proof -
  have "\<exists>u. List.find (\<lambda>t. S = straight_ranks low t) [low..<15] = Some u"
    using assms find_None_iff_all [of "\<lambda>t. S = straight_ranks low t" "[low..<15]"]
    by (cases "List.find (\<lambda>t. S = straight_ranks low t) [low..<15]") auto
  then obtain u where u: "List.find (\<lambda>t. S = straight_ranks low t) [low..<15] = Some u" ..
  from find_Some_mem [OF this] have "u \<in> set [low..<15]" and S: "S = straight_ranks low u" by auto
  then have "low \<le> u" "u \<le> 14" unfolding set_upt by auto
  with straight_ranks_inject [OF assms(1-4) this] assms(5) S u show ?thesis by simp
qed

lemma straight_low_only:
  assumes "k \<in> {b, c, d}" and "k - 1 \<in> {b, c, d}" and "k - 2 \<in> {b, c, d}"
    and "(b :: nat) > c" and "c > d" and "2 \<le> k"
  shows "b = k \<and> c = k - 1 \<and> d = k - 2"
proof -
  have "k \<noteq> d" "k \<noteq> c" using assms by auto
  then have "b = k" using assms(1) by simp
  then show ?thesis using assms by auto
qed

lemma straight_five:
  assumes "5 \<le> low" and "low \<le> 10"
    and "a > b" "b > c" "c > d" "d > e" and "low - 3 \<le> e" and "a \<le> (14 :: nat)"
  shows "List.find (\<lambda>t. {a, b, c, d, e} = straight_ranks low t) [low..<15] =
    (if a - e = 4 then Some a
     else if a = 14 \<and> b = low \<and> c = low - 1 \<and> d = low - 2 \<and> e = low - 3 then Some low else None)"
proof -
  consider "a - e = 4" | "a - e \<noteq> 4" "a = 14 \<and> b = low \<and> c = low - 1 \<and> d = low - 2 \<and> e = low - 3"
    | "a - e \<noteq> 4" "\<not> (a = 14 \<and> b = low \<and> c = low - 1 \<and> d = low - 2 \<and> e = low - 3)" by blast
  then show ?thesis
  proof cases
    case 1
    then have "{a, b, c, d, e} = {a - 4..a}" using assms(3-6) by (auto simp: le_Suc_eq)
    moreover have "low < a" using 1 assms by linarith
    ultimately have "{a, b, c, d, e} = straight_ranks low a" by (simp add: straight_ranks_def)
    with 1 \<open>low < a\<close> assms(8) find_straight [OF assms(1,2)] show ?thesis by simp
  next
    case 2
    then have "{a, b, c, d, e} = insert 14 {low - 3..low}" using assms(1,2) by auto
    then have "{a, b, c, d, e} = straight_ranks low low" by (simp add: straight_ranks_def)
    with 2 assms(2) find_straight [OF assms(1,2)] show ?thesis by simp
  next
    case 3
    have "{a, b, c, d, e} \<noteq> straight_ranks low t" if t: "low \<le> t" "t \<le> 14" for t
    proof
      assume eq: "{a, b, c, d, e} = straight_ranks low t"
      have M: "Max {a, b, c, d, e} = a" using assms(3-6) by (intro Max_eqI) auto
      have m: "Min {a, b, c, d, e} = e" using assms(3-6) by (intro Min_eqI) auto
      show False
      proof (cases "t = low")
        case True
        then have "a = 14" "e = low - 3"
          using M m straight_ranks_bounds [OF assms(1,2) t] by (simp_all add: eq)
        moreover have "low \<in> {a, b, c, d, e}" "low - 1 \<in> {a, b, c, d, e}" "low - 2 \<in> {a, b, c, d, e}"
          unfolding eq True straight_ranks_def using assms(1) by auto
        moreover have "14 \<notin> {low, low - 1, low - 2}" "low - 3 \<notin> {low, low - 1, low - 2}"
          using assms(1,2) by auto
        ultimately have "low \<in> {b, c, d}" "low - 1 \<in> {b, c, d}" "low - 2 \<in> {b, c, d}" by auto
        from straight_low_only [OF this assms(4,5)] show False
          using \<open>a = 14\<close> \<open>e = low - 3\<close> 3(2) assms(1) by simp
      next
        case False
        then show False
          using M m straight_ranks_bounds [OF assms(1,2) t] 3(1) assms by (simp add: eq)
      qed
    qed
    then have "List.find (\<lambda>t. {a, b, c, d, e} = straight_ranks low t) [low..<15] = None"
      unfolding find_None_iff_all set_upt by auto
    with 3 show ?thesis by simp
  qed
qed

lemma one_suit_remdups: "h \<noteq> [] \<Longrightarrow> length (remdups (map suit h)) = 1 \<longleftrightarrow> one_suit h"
proof -
  assume h: "h \<noteq> []"
  have "length (remdups (map suit h)) = 1 \<longleftrightarrow> Finite_Set.card (suit ` set h) = 1"
    by (simp add: length_remdups_card_conv)
  also have "\<dots> \<longleftrightarrow> (\<exists>s. suit ` set h = {s})" by (simp add: card_1_singleton_iff)
  also have "\<dots> \<longleftrightarrow> one_suit h"
  proof
    assume "one_suit h"
    then have "\<forall>c\<in>set h. suit c = suit (hd h)"
      using hd_in_set [OF h] unfolding one_suit_def by blast
    then have "suit ` set h = {suit (hd h)}" using hd_in_set [OF h] by blast
    then show "\<exists>s. suit ` set h = {s}" ..
  next
    assume "\<exists>s. suit ` set h = {s}"
    then obtain s where "suit ` set h = {s}" ..
    then have "suit c = s" if "c \<in> set h" for c using that by blast
    then show "one_suit h" by (simp add: one_suit_def)
  qed
  finally show ?thesis .
qed

lemma five_elements: "length xs = 5 \<Longrightarrow> \<exists>a b c d e. xs = [a, b, c, d, e]"
  by (auto simp: length_Suc_conv numeral_eq_Suc)

lemma descending_ranks:
  assumes "hand_of lo h"
  obtains a b c d e where "rev (sort (map rank h)) = [a, b, c, d, e]" and "a \<ge> b" and "b \<ge> c" and "c \<ge> d"
    and "d \<ge> e" and "lo \<le> e" and "a \<le> 14"
proof -
  obtain a b c d e where rs: "rev (sort (map rank h)) = [a, b, c, d, e]"
    using five_elements [of "rev (sort (map rank h))"] assms by (auto simp: hand_of_def)
  then have srt: "sort (map rank h) = [e, d, c, b, a]" by (simp add: rev_swap)
  have "sorted [e, d, c, b, a]" unfolding srt [symmetric] by simp
  moreover have "{e, d, c, b, a} = rank ` set h"
    using arg_cong [OF srt, of set] by auto
  then have "e \<in> rank ` set h" "a \<in> rank ` set h" by blast+
  then have "lo \<le> e" "a \<le> 14" using assms by (auto simp: hand_of_def valid_card_def)
  ultimately show ?thesis using that rs by simp
qed

definition straight_code :: "nat \<Rightarrow> nat list \<Rightarrow> nat option" where
  "straight_code low rs =
     (if \<not> distinct rs then None
      else if rs ! 0 - rs ! 4 = 4 then Some (rs ! 0)
      else if rs ! 0 = 14 \<and> rs ! 1 = low \<and> rs ! 2 = low - 1 \<and> rs ! 3 = low - 2 \<and> rs ! 4 = low - 3
        then Some low
      else None)"

lemma straight_code_top:
  assumes "5 \<le> low" and "low \<le> 10" and "hand_of (low - 3) h"
  shows "straight_code low (rev (sort (map rank h))) = straight_top low h"
proof -
  obtain a b c d e where rs: "rev (sort (map rank h)) = [a, b, c, d, e]"
    and ord: "a \<ge> b" "b \<ge> c" "c \<ge> d" "d \<ge> e" "low - 3 \<le> e" "a \<le> 14"
    using descending_ranks [OF assms(3)] .
  have set: "rank ` set h = {a, b, c, d, e}"
    using arg_cong [OF rs, of set] by simp
  show ?thesis
  proof (cases "distinct [a, b, c, d, e]")
    case True
    then have "a > b" "b > c" "c > d" "d > e" using ord by auto
    from straight_five [OF assms(1,2) this ord(5,6)] True show ?thesis
      by (simp only: rs straight_code_def straight_top_def set list.set_map) simp
  next
    case False
    then have "Finite_Set.card (set [a, b, c, d, e]) \<noteq> length [a, b, c, d, e]"
      using card_distinct by blast
    moreover have "Finite_Set.card (set [a, b, c, d, e]) \<le> length [a, b, c, d, e]"
      by (rule card_length)
    ultimately have "Finite_Set.card {a, b, c, d, e} < 5" by (simp only: list.set) simp
    then have "\<forall>t\<in>set [low..<15]. {a, b, c, d, e} \<noteq> straight_ranks low t"
      using straight_ranks_card [OF assms(1,2)] unfolding set_upt by fastforce
    then have "List.find (\<lambda>t. {a, b, c, d, e} = straight_ranks low t) [low..<15] = None"
      unfolding find_None_iff_all .
    with False show ?thesis
      by (simp only: rs straight_code_def straight_top_def set list.set_map) simp
  qed
qed

lemma descending_by_kind:
  assumes "hand_of lo h" and "length (kinds h 1) = 5"
  shows "rev (sort (map rank h)) = kinds h 1"
proof -
  have "set (kinds h 1) \<subseteq> set (map rank h)"
    using count_list_0_iff [of "map rank h"] by (fastforce simp: set_by_kind mult_def)
  moreover have d: "distinct (kinds h 1)" by (simp add: kinds_def)
  moreover have "Finite_Set.card (set (map rank h)) \<le> 5"
    using card_length [of "map rank h"] assms(1) by (simp add: hand_of_def)
  moreover have "Finite_Set.card (set (kinds h 1)) = 5" using distinct_card [OF d] assms(2) by simp
  ultimately have sets: "set (kinds h 1) = set (map rank h)"
    by (metis List.finite_set card_seteq)
  then have "distinct (map rank h)"
    using card_distinct [of "map rank h"] distinct_card [OF d] assms by (simp add: hand_of_def)
  then have "mset (kinds h 1) = mset (map rank h)"
    using mset_set_set [OF d] mset_set_set [of "map rank h"] sets by simp
  then have "sort (map rank h) = rev (kinds h 1)"
    by (intro properties_for_sort) (simp_all add: kinds_sorted)
  then show ?thesis by simp
qed

lemma mult_kinds: "r \<in> set (kinds h k) \<Longrightarrow> mult h r = k"
  by (simp add: set_by_kind)

lemma count_list_distinct: "distinct xs \<Longrightarrow> count_list xs r = (if r \<in> set xs then 1 else 0)"
  by (induction xs) auto

lemma kinds_shapes:
  assumes "hand_of lo h"
  obtains (quads) a b where "kinds h 4 = [a]" "kinds h 3 = []" "kinds h 2 = []" "kinds h 1 = [b]"
    | (boat) a b where "kinds h 4 = []" "kinds h 3 = [a]" "kinds h 2 = [b]" "kinds h 1 = []"
    | (trips) a b c where "kinds h 4 = []" "kinds h 3 = [a]" "kinds h 2 = []" "kinds h 1 = [b, c]"
    | (pairs) a b c where "kinds h 4 = []" "kinds h 3 = []" "kinds h 2 = [a, b]" "kinds h 1 = [c]"
    | (pair) a b c d where "kinds h 4 = []" "kinds h 3 = []" "kinds h 2 = [a]" "kinds h 1 = [b, c, d]"
    | (none) a b c d e where "kinds h 4 = []" "kinds h 3 = []" "kinds h 2 = []" "kinds h 1 = [a, b, c, d, e]"
proof -
  let ?n = "\<lambda>k. length (kinds h k)"
  have sum: "4 * ?n 4 + 3 * ?n 3 + 2 * ?n 2 + ?n 1 = 5" by (rule kinds_count [OF assms])
  then have "?n 4 = 0 \<or> ?n 4 = 1" "?n 3 = 0 \<or> ?n 3 = 1" "?n 2 = 0 \<or> ?n 2 = 1 \<or> ?n 2 = 2" by linarith+
  then have "?n 4 = 1 \<and> ?n 3 = 0 \<and> ?n 2 = 0 \<and> ?n 1 = 1 \<or> ?n 4 = 0 \<and> ?n 3 = 1 \<and> ?n 2 = 1 \<and> ?n 1 = 0 \<or>
    ?n 4 = 0 \<and> ?n 3 = 1 \<and> ?n 2 = 0 \<and> ?n 1 = 2 \<or> ?n 4 = 0 \<and> ?n 3 = 0 \<and> ?n 2 = 2 \<and> ?n 1 = 1 \<or>
    ?n 4 = 0 \<and> ?n 3 = 0 \<and> ?n 2 = 1 \<and> ?n 1 = 3 \<or> ?n 4 = 0 \<and> ?n 3 = 0 \<and> ?n 2 = 0 \<and> ?n 1 = 5"
    using sum by (elim disjE) simp_all
  then show thesis
    by (elim disjE) (auto simp: length_Suc_conv numeral_eq_Suc intro: that [simplified numeral_eq_Suc, simplified])
qed

lemma straight_distinct:
  assumes "5 \<le> low" and "low \<le> 10" and "hand_of lo h" and "straight_top low h = Some t"
  shows "length (kinds h 1) = 5"
proof -
  from find_Some_mem [OF assms(4) [unfolded straight_top_def]]
  have "set (map rank h) = straight_ranks low t" and "low \<le> t"
    unfolding set_upt by auto
  then have "Finite_Set.card (set (map rank h)) = length (map rank h)"
    using straight_ranks_card [OF assms(1,2)] assms(3) by (simp add: hand_of_def)
  then have d: "distinct (map rank h)" by (rule card_distinct)
  have "set (kinds h 1) = set (map rank h)"
  proof (intro subset_antisym subsetI)
    fix r assume "r \<in> set (kinds h 1)"
    then show "r \<in> set (map rank h)"
      using count_list_0_iff [of "map rank h" r] by (fastforce simp: set_by_kind mult_def)
  next
    fix r assume "r \<in> set (map rank h)"
    then show "r \<in> set (kinds h 1)"
      using assms(3) count_list_distinct [OF d, of r] by (auto simp: set_by_kind mult_def hand_of_def valid_card_def)
  qed
  moreover have "distinct (kinds h 1)" by (simp add: kinds_def)
  ultimately show ?thesis
    using d assms(3) by (metis distinct_card hand_of_def length_map)
qed

lemma suit_distinct:
  assumes "hand_of lo h" and "one_suit h"
  shows "length (kinds h 1) = 5"
proof -
  have "inj_on rank (set h)"
    using assms(2) by (auto simp: inj_on_def one_suit_def intro: card.expand)
  then have d: "distinct (map rank h)" using assms(1) by (simp add: distinct_map hand_of_def)
  have "mult h r \<noteq> k" if "2 \<le> k" for r k
    using d that by (simp add: mult_def count_list_distinct)
  then have "kinds h 4 = []" "kinds h 3 = []" "kinds h 2 = []"
    by (simp_all add: kinds_def)
  then show ?thesis using kinds_count [OF assms(1)] by simp
qed

locale hand_ranking =
  fixes strength :: "category \<Rightarrow> nat" and low :: nat and straight_high :: "nat list \<Rightarrow> nat option"
  assumes strength_inject: "strength c = strength d \<Longrightarrow> c = d"
    and strength_small: "strength c < 256"
    and low_range: "5 \<le> low" "low \<le> 10"
    and straight_high: "straight_high = straight_code low"
begin

definition evaluate :: "card list \<Rightarrow> u32" where
  "evaluate h = (case classify straight_high h of (c, ts) \<Rightarrow> pack_score (strength c) ts)"

lemma classify_poker:
  assumes "hand_of (low - 3) h"
  shows "classify straight_high h = (poker_category low h, poker_tiebreaks low h)"
proof -
  have st: "straight_high (rev (sort (map rank h))) = straight_top low h"
    unfolding straight_high by (rule straight_code_top [OF low_range assms])
  have h: "h \<noteq> []" using assms by (auto simp: hand_of_def)
  have fl: "length (remdups (map suit h)) = Suc 0 \<longleftrightarrow> one_suit h"
    using one_suit_remdups [OF h] by simp
  note gr = rank_groups_by_kind [OF assms, unfolded by_kind_def]
  note d = straight_distinct [OF low_range assms] suit_distinct [OF assms]
  note defs = classify_def Let_def fl gr by_kind_def poker_category_def poker_tiebreaks_def
  have no_straight: "straight_top low h = None" "\<not> one_suit h" if "length (kinds h 1) \<noteq> 5"
    using d that by (cases "straight_top low h"; blast)+
  show ?thesis
    using assms
  proof (cases rule: kinds_shapes)
    case (none a b c d e)
    then have rs: "rev (sort (map rank h)) = [a, b, c, d, e]" using descending_by_kind [OF assms] by simp
    have "mult h a = 1" using none by (intro mult_kinds) simp
    then show ?thesis
      using none by (cases "straight_top low h") (simp_all add: defs rs [simplified] st [unfolded rs])
  next
    case (quads a b)
    then have "mult h a = 4" by (intro mult_kinds) simp
    then show ?thesis using quads no_straight by (simp add: defs st)
  next
    case (boat a b)
    then have "mult h a = 3" "mult h b = 2" by (intro mult_kinds; simp)+
    then show ?thesis using boat no_straight by (simp add: defs st)
  next
    case (trips a b c)
    then have "mult h a = 3" "mult h b = 1" by (intro mult_kinds; simp)+
    then show ?thesis using trips no_straight by (simp add: defs st)
  next
    case (pairs a b c)
    then have "mult h a = 2" "mult h b = 2" by (intro mult_kinds; simp)+
    then show ?thesis using pairs no_straight by (simp add: defs st)
  next
    case (pair a b c d)
    then have "mult h a = 2" "mult h b = 1" by (intro mult_kinds; simp)+
    then show ?thesis using pair no_straight by (simp add: defs st)
  qed
qed

end

section \<open>The combination counter enumerates every five-card subset\<close>

definition subset_index :: "nat \<Rightarrow> nat list \<Rightarrow> bool" where
  "subset_index n idx \<longleftrightarrow> length idx = 5 \<and> sorted_wrt (<) idx \<and> (\<forall>i\<in>set idx. i < n)"

lemma subset_index_cases:
  assumes "subset_index n idx"
  obtains a b c d e where "idx = [a, b, c, d, e]" and "a < b" and "b < c" and "c < d" and "d < e" and "e < n"
  using assms five_elements [of idx] by (fastforce simp: subset_index_def)

lemma last_movable_five:
  "last_movable [a, b, c, d, e] (m + 5) 5 =
     (if e \<noteq> m + 4 then Some 4 else if d \<noteq> m + 3 then Some 3 else if c \<noteq> m + 2 then Some 2
      else if b \<noteq> m + 1 then Some 1 else if a \<noteq> m then Some 0 else None)"
  by (simp add: numeral_nat)

lemma next_combination_eq:
  "next_combination [a, b, c, d, e] (m + 5) =
     (if e \<noteq> m + 4 then Some [a, b, c, d, e + 1]
      else if d \<noteq> m + 3 then Some [a, b, c, d + 1, d + 2]
      else if c \<noteq> m + 2 then Some [a, b, c + 1, c + 2, c + 3]
      else if b \<noteq> m + 1 then Some [a, b + 1, b + 2, b + 3, b + 4]
      else if a \<noteq> m then Some [a + 1, a + 2, a + 3, a + 4, a + 5]
      else None)"
  unfolding next_combination_def last_movable_five by (simp add: upt_rec)

lemma next_combination_Some:
  assumes "subset_index n idx" and "next_combination idx n = Some idx'"
  shows "subset_index n idx' \<and> idx < idx' \<and> (\<forall>x. subset_index n x \<and> idx < x \<longrightarrow> idx' \<le> x)"
proof -
  obtain a b c d e where idx: "idx = [a, b, c, d, e]" and o: "a < b" "b < c" "c < d" "d < e" "e < n"
    using subset_index_cases [OF assms(1)] .
  from o have "5 \<le> n" by simp
  then obtain m where n: "n = m + 5" by (metis add.commute le_Suc_ex)
  have "subset_index n idx' \<and> idx < idx'"
    using assms(2) o by (auto simp: idx n next_combination_eq subset_index_def split: if_splits)
  moreover have "idx' \<le> x" if x: "subset_index n x" "idx < x" for x
  proof -
    obtain p q r s t where "x = [p, q, r, s, t]" and "p < q" "q < r" "r < s" "s < t" "t < n"
      using subset_index_cases [OF x(1)] .
    with x(2) assms(2) o show ?thesis
      by (auto simp: idx n next_combination_eq split: if_splits)
  qed
  ultimately show ?thesis by blast
qed

lemma next_combination_None:
  assumes "subset_index n idx" and "next_combination idx n = None" and "subset_index n x"
  shows "x \<le> idx"
proof -
  obtain a b c d e where idx: "idx = [a, b, c, d, e]" and o: "a < b" "b < c" "c < d" "d < e" "e < n"
    using subset_index_cases [OF assms(1)] .
  obtain p q r s t where x: "x = [p, q, r, s, t]" and "p < q" "q < r" "r < s" "s < t" "t < n"
    using subset_index_cases [OF assms(3)] .
  moreover from o have "5 \<le> n" by simp
  then obtain m where n: "n = m + 5" by (metis add.commute le_Suc_ex)
  ultimately show ?thesis
    using assms(2) o by (auto simp: idx x n next_combination_eq split: if_splits)
qed

section \<open>The best hand\<close>

lemma finite_subset_index: "finite {x. subset_index n x}"
proof (rule finite_subset)
  show "{x. subset_index n x} \<subseteq> {x. set x \<subseteq> {..<n} \<and> length x = 5}"
    by (auto simp: subset_index_def)
qed (simp add: finite_lists_length_eq)

definition from_index :: "nat \<Rightarrow> nat list \<Rightarrow> nat list set" where
  "from_index n idx = {x. subset_index n x \<and> idx \<le> x}"

lemma from_index_next:
  assumes "subset_index n idx"
  shows "from_index n idx =
    insert idx (case next_combination idx n of None \<Rightarrow> {} | Some idx' \<Rightarrow> from_index n idx')"
proof (cases "next_combination idx n")
  case None
  then show ?thesis
    using next_combination_None [OF assms] assms by (force simp: from_index_def)
next
  case (Some idx')
  note S = next_combination_Some [OF assms Some]
  have "x = idx \<or> idx' \<le> x" if "subset_index n x" "idx \<le> x" for x
    using S that by (metis order_le_less)
  then show ?thesis using S assms Some by (auto simp: from_index_def)
qed

lemma card_from_index_next:
  assumes "subset_index n idx" and "next_combination idx n = Some idx'"
  shows "Finite_Set.card (from_index n idx') < Finite_Set.card (from_index n idx)"
proof (rule psubset_card_mono)
  show "finite (from_index n idx)"
    by (rule finite_subset [OF _ finite_subset_index]) (auto simp: from_index_def)
  note S = next_combination_Some [OF assms]
  have "idx \<in> from_index n idx" "idx \<notin> from_index n idx'"
    using S assms(1) by (auto simp: from_index_def)
  moreover have "from_index n idx' \<subseteq> from_index n idx"
    using S by (auto simp: from_index_def)
  ultimately show "from_index n idx' \<subset> from_index n idx" by blast
qed

lemma Max_insert_max: "finite S \<Longrightarrow> Max (insert (max a b) S) = Max (insert a (insert (b :: u32) S))"
  by (cases "S = {}") (simp_all add: max.assoc)

lemma best_loop_max:
  assumes "subset_index n idx"
  shows "best_loop ev cards n idx best = Some (Max (insert best ((\<lambda>x. ev (map ((!) cards) x)) ` from_index n idx)))"
  using assms
proof (induction "Finite_Set.card (from_index n idx)" arbitrary: idx best rule: less_induct)
  case less
  let ?v = "\<lambda>x. ev (map ((!) cards) x)"
  have fin: "finite (from_index n i)" for i
    by (rule finite_subset [OF _ finite_subset_index [of n]]) (auto simp: from_index_def)
  have best': "(if best < ?v idx then ?v idx else best) = max best (?v idx)" by (auto simp: max_def)
  show ?case
  proof (cases "next_combination idx n")
    case None
    then show ?thesis
      by (subst best_loop.simps) (simp add: Let_def best' from_index_next [OF less.prems] max.commute)
  next
    case (Some idx')
    then have "subset_index n idx'" using next_combination_Some [OF less.prems] by blast
    from less.hyps [OF card_from_index_next [OF less.prems Some] this]
    have "best_loop ev cards n idx best = Some (Max (insert (max best (?v idx)) (?v ` from_index n idx')))"
      by (subst best_loop.simps) (simp add: Let_def best' Some)
    also have "insert best (?v ` from_index n idx) = insert best (insert (?v idx) (?v ` from_index n idx'))"
      by (simp add: from_index_next [OF less.prems] Some)
    ultimately show ?thesis using fin [of idx'] by (simp only: Max_insert_max finite_imageI)
  qed
qed


lemma first_subset_index: "5 \<le> n \<Longrightarrow> subset_index n [0, 1, 2, 3, 4]"
  by (auto simp: subset_index_def)

lemma first_le:
  assumes "subset_index n x"
  shows "[0, 1, 2, 3, 4] \<le> x"
proof -
  obtain a b c d e where "x = [a, b, c, d, e]" and "a < b" "b < c" "c < d" "d < e" "e < n"
    using subset_index_cases [OF assms] .
  then show ?thesis by auto
qed

lemma submset_index:
  assumes "M \<subseteq># mset xs"
  shows "\<exists>x. sorted_wrt (<) x \<and> (\<forall>i\<in>set x. i < length xs) \<and> mset (map ((!) xs) x) = M"
  using assms
proof (induction xs arbitrary: M rule: rev_induct)
  case (snoc a xs)
  show ?case
  proof (cases "a \<in># M \<and> M - {#a#} \<subseteq># mset xs")
    case True
    then obtain x where x: "sorted_wrt (<) x" "\<forall>i\<in>set x. i < length xs" "mset (map ((!) xs) x) = M - {#a#}"
      using snoc.IH by blast
    have "map ((!) (xs @ [a])) (x @ [length xs]) = map ((!) xs) x @ [a]"
      using x(2) by (simp add: nth_append)
    then have "mset (map ((!) (xs @ [a])) (x @ [length xs])) = M"
      using x(3) True by (simp only: mset_append) simp
    moreover have "sorted_wrt (<) (x @ [length xs])" using x(1,2) by (simp add: sorted_wrt_append)
    ultimately show ?thesis using x(2) by (intro exI [of _ "x @ [length xs]"]) auto
  next
    case False
    have "M \<subseteq># mset xs"
    proof (cases "a \<in># M")
      case True
      with snoc.prems False show ?thesis by (simp add: subset_eq_diff_conv)
    next
      case False
      have "count M x \<le> count (mset xs) x" for x
        using mset_subset_eq_count [OF snoc.prems, of x] False by (cases "x = a") (simp_all add: not_in_iff)
      then show ?thesis by (simp add: subseteq_mset_def)
    qed
    then obtain x where x: "sorted_wrt (<) x" "\<forall>i\<in>set x. i < length xs" "mset (map ((!) xs) x) = M"
      using snoc.IH by blast
    have "map ((!) (xs @ [a])) x = map ((!) xs) x" using x(2) by (simp add: nth_append)
    then have "mset (map ((!) (xs @ [a])) x) = M" by (simp only: x(3))
    moreover have "\<forall>i\<in>set x. i < length (xs @ [a])" using x(2) by auto
    ultimately show ?thesis using x(1) by blast
  qed
qed simp

lemma index_submset:
  assumes "sorted_wrt (<) x" and "\<forall>i\<in>set x. i < length xs"
  shows "mset (map ((!) xs) x) \<subseteq># mset xs"
proof -
  have "distinct x" using assms(1) by (simp add: strict_sorted_iff)
  then have "mset x \<subseteq># mset [0..<length xs]"
    using assms(2) by (simp add: mset_set_set [symmetric] subset_imp_msubset_mset_set subset_iff)
  then have "image_mset ((!) xs) (mset x) \<subseteq># image_mset ((!) xs) (mset [0..<length xs])"
    by (rule image_mset_subseteq_mono)
  also have "\<dots> = mset (map ((!) xs) [0..<length xs])" by simp
  also have "\<dots> = mset xs" by (simp only: map_nth)
  finally show ?thesis by simp
qed

text \<open>The five-card hands inside a list of cards, whatever their order.\<close>

definition hands_in :: "card list \<Rightarrow> card list set" where
  "hands_in cards = {h. length h = 5 \<and> mset h \<subseteq># mset cards}"

lemma finite_hands_in: "finite (hands_in cards)"
proof (rule finite_subset)
  show "hands_in cards \<subseteq> {h. set h \<subseteq> set cards \<and> length h = 5}"
    by (auto simp: hands_in_def dest!: set_mset_mono)
qed (simp add: finite_lists_length_eq)

lemma image_subset_index:
  assumes "\<And>h h'. mset h = mset h' \<Longrightarrow> ev h = ev h'"
  shows "(\<lambda>x. ev (map ((!) cards) x)) ` {x. subset_index (length cards) x} = ev ` hands_in cards"
    (is "?v ` {x. subset_index ?n x} = _")
proof (intro subset_antisym subsetI)
  fix s assume "s \<in> ?v ` {x. subset_index ?n x}"
  then show "s \<in> ev ` hands_in cards"
    using index_submset [of _ cards] by (force simp: subset_index_def hands_in_def)
next
  fix s assume "s \<in> ev ` hands_in cards"
  then obtain h where h: "length h = 5" "mset h \<subseteq># mset cards" "s = ev h" by (auto simp: hands_in_def)
  then obtain x where x: "sorted_wrt (<) x" "\<forall>i\<in>set x. i < ?n" "mset (map ((!) cards) x) = mset h"
    using submset_index by blast
  then have "length x = 5" using h(1) by (metis length_map size_mset)
  then show "s \<in> ?v ` {x. subset_index ?n x}"
    using x h(3) assms [OF x(3)] by (intro image_eqI [of _ _ x]) (auto simp: subset_index_def)
qed

lemma best_loop_hands:
  assumes "5 \<le> length cards" and "\<And>h h'. mset h = mset h' \<Longrightarrow> ev h = ev h'"
  shows "best_loop ev cards (length cards) [0, 1, 2, 3, 4] 0 = Some (Max (insert 0 (ev ` hands_in cards)))"
proof -
  have "from_index (length cards) [0, 1, 2, 3, 4] = {x. subset_index (length cards) x}"
    using first_le by (auto simp: from_index_def)
  then show ?thesis
    using best_loop_max [OF first_subset_index [OF assms(1)], of ev cards 0]
      image_subset_index [of ev cards, OF assms(2)] by simp
qed

section \<open>Scores compare like poker hands\<close>

fun tie_count :: "category \<Rightarrow> nat" where
  "tie_count RoyalFlush = 0"
| "tie_count StraightFlush = 1"
| "tie_count Straight = 1"
| "tie_count FourOfAKind = 2"
| "tie_count FullHouse = 2"
| "tie_count ThreeOfAKind = 3"
| "tie_count TwoPair = 3"
| "tie_count Pair = 4"
| "tie_count Flush = 5"
| "tie_count HighCard = 5"

lemma tie_count_le: "tie_count c \<le> 5"
  by (cases c) simp_all

lemma hands_in_distinct:
  assumes "h \<in> hands_in cards" and "distinct cards"
  shows "distinct h"
  unfolding distinct_count_atmost_1
proof
  fix a
  have "count (mset h) a \<le> count (mset cards) a"
    using assms(1) by (simp add: hands_in_def mset_subset_eq_count)
  also have "\<dots> \<le> 1" using assms(2) by (simp add: distinct_count_atmost_1)
  finally show "count (mset h) a = (if a \<in> set h then 1 else 0)"
    using count_mset_gt_0 [of a h] by (cases "a \<in> set h") (simp_all add: le_Suc_eq)
qed

lemma hands_in_set: "h \<in> hands_in cards \<Longrightarrow> set h \<subseteq> set cards"
  using set_mset_mono [of "mset h" "mset cards"] by (simp add: hands_in_def)

lemma hands_in_hand:
  assumes "distinct cards" and "\<forall>c\<in>set cards. valid_card c \<and> lo \<le> rank c" and "h \<in> hands_in cards"
  shows "hand_of lo h"
  using hands_in_distinct [OF assms(3,1)] hands_in_set [OF assms(3)] assms(2,3)
  by (auto simp: hand_of_def hands_in_def)

context hand_ranking
begin

lemma tiebreak_count:
  assumes "hand_of (low - 3) h"
  shows "length (poker_tiebreaks low h) = tie_count (poker_category low h)"
proof -
  have no_straight: "straight_top low h = None" "\<not> one_suit h" if "length (kinds h 1) \<noteq> 5"
    using straight_distinct [OF low_range assms] suit_distinct [OF assms] that
    by (cases "straight_top low h"; blast)+
  show ?thesis
    using assms
  proof (cases rule: kinds_shapes)
    case (none a b c d e)
    then show ?thesis by (simp add: poker_tiebreaks_def poker_category_def by_kind_def)
  qed (use no_straight in \<open>simp_all add: poker_tiebreaks_def poker_category_def by_kind_def\<close>)
qed

lemma tiebreak_ranks:
  assumes "t \<in> set (poker_tiebreaks low h)"
  shows "t < 16"
proof -
  have "u \<le> 14" if "straight_top low h = Some u" for u
    using find_Some_mem [OF that [unfolded straight_top_def]] unfolding set_upt by auto
  moreover have "straight_top low h \<noteq> None" if "poker_category low h \<in> {StraightFlush, Straight}"
    using that by (auto simp: poker_category_def split: if_splits)
  ultimately have "t \<le> 14"
    using assms unfolding poker_tiebreaks_def
    by (cases "poker_category low h") (auto simp: by_kind_def set_by_kind)
  then show ?thesis by simp
qed

lemma evaluate_poker:
  "hand_of (low - 3) h \<Longrightarrow>
   evaluate h = pack_score (strength (poker_category low h)) (poker_tiebreaks low h)"
  by (simp add: evaluate_def classify_poker)

lemma evaluate_less_iff:
  assumes "hand_of (low - 3) h" and "hand_of (low - 3) h'"
  shows "evaluate h < evaluate h' \<longleftrightarrow>
    (strength (poker_category low h), poker_tiebreaks low h) <
    (strength (poker_category low h'), poker_tiebreaks low h')"
proof -
  have same: "strength (poker_category low h) = strength (poker_category low h') \<longrightarrow>
      length (poker_tiebreaks low h) = length (poker_tiebreaks low h')"
    using strength_inject by (metis tiebreak_count assms)
  show ?thesis
    using same tie_count_le
    by (simp add: evaluate_poker assms pack_score_less_iff strength_small tiebreak_ranks tiebreak_count)
      linarith
qed

lemma evaluate_category:
  assumes "hand_of (low - 3) h"
  shows "unat (drop_bit 24 (evaluate h)) = strength (poker_category low h)"
  using assms tiebreak_count tie_count_le
  by (simp add: evaluate_poker pack_score_category strength_small tiebreak_ranks)

lemma evaluate_le_iff:
  assumes "hand_of (low - 3) h" and "hand_of (low - 3) h'"
  shows "evaluate h \<le> evaluate h' \<longleftrightarrow>
    (strength (poker_category low h), poker_tiebreaks low h) \<le>
    (strength (poker_category low h'), poker_tiebreaks low h')"
  using evaluate_less_iff [OF assms(2,1)] by (metis linorder_not_less)

lemma evaluate_perm: "mset h = mset h' \<Longrightarrow> evaluate h = evaluate h'"
  using classify_perm [of h h' straight_high] by (simp add: evaluate_def)

lemma best_is_hand:
  assumes "5 \<le> length cards" and "distinct cards" and "\<forall>c\<in>set cards. valid_card c \<and> low - 3 \<le> rank c"
  obtains h where "h \<in> hands_in cards" and "hand_of (low - 3) h"
    and "best_loop evaluate cards (length cards) [0, 1, 2, 3, 4] 0 = Some (evaluate h)"
    and "\<forall>h'\<in>hands_in cards. evaluate h' \<le> evaluate h"
proof -
  let ?V = "evaluate ` hands_in cards"
  have "take 5 cards \<in> hands_in cards"
    using assms(1) mset_append [of "take 5 cards" "drop 5 cards"]
    by (simp add: hands_in_def mset_subset_eq_exists_conv del: mset_append)
  then have ne: "?V \<noteq> {}" by blast
  have fin: "finite ?V" using finite_hands_in by simp
  then have "Max ?V \<in> ?V" using ne by (rule Max_in)
  then obtain h where h: "h \<in> hands_in cards" "Max ?V = evaluate h" by (metis imageE)
  have "Max (insert 0 ?V) = evaluate h" using fin ne h(2) by (simp add: max_def)
  then have "best_loop evaluate cards (length cards) [0, 1, 2, 3, 4] 0 = Some (evaluate h)"
    using best_loop_hands [OF assms(1) evaluate_perm] by simp
  moreover have "\<forall>h'\<in>hands_in cards. evaluate h' \<le> evaluate h"
    using fin h(2) Max_ge [OF fin] by auto
  ultimately show thesis using that h(1) hands_in_hand [OF assms(2,3) h(1)] by blast
qed

end


interpretation standard: hand_ranking category_number 5 straight_high_card
  by unfold_locales
    (auto simp: straight_high_card_def [abs_def] straight_code_def [abs_def]
       intro: order.strict_trans [OF category_number_less])

lemma strength_of_simps [simp]:
  "strength_of HighCard = 0" "strength_of Pair = 1" "strength_of TwoPair = 2" "strength_of ThreeOfAKind = 3"
  "strength_of Straight = 4" "strength_of FullHouse = 5" "strength_of Flush = 6" "strength_of FourOfAKind = 7"
  "strength_of StraightFlush = 8" "strength_of RoyalFlush = 9"
  by (simp_all add: strength_of_def strength_order_def)

interpretation short: hand_ranking strength_of 9 short_straight_high_card
proof
  show "c = d" if "strength_of c = strength_of d" for c d
    using that by (cases c; cases d) simp_all
  show "strength_of c < 256" for c by (cases c) simp_all
qed (auto simp: short_straight_high_card_def [abs_def] straight_code_def [abs_def])

lemma standard_evaluate: "standard.evaluate = evaluate5"
  by (rule ext) (simp add: standard.evaluate_def evaluate5_def make_score_def)

lemma short_evaluate: "short.evaluate = short_evaluate5"
  by (rule ext) (simp add: short.evaluate_def short_evaluate5_def short_make_score_def)

text \<open>The key two hands are compared by.\<close>

definition poker_key :: "card list \<Rightarrow> category \<times> nat list" where
  "poker_key h = (poker_category 5 h, poker_tiebreaks 5 h)"

definition short_key :: "card list \<Rightarrow> nat \<times> nat list" where
  "short_key h = (strength_of (poker_category 9 h), poker_tiebreaks 9 h)"

lemma category_number_order [simp]:
  "category_number c < category_number d \<longleftrightarrow> c < d" "category_number c \<le> category_number d \<longleftrightarrow> c \<le> d"
  by (simp_all add: less_category_def less_eq_category_def)

lemma score_category_number: "unat (drop_bit 24 s) = category_number c \<Longrightarrow> score_category s = Some c"
  by (cases c) (simp_all add: score_category_def)

lemma category_of_strength: "category_of (strength_of c) = Some c"
  by (cases c) (simp_all add: category_of_def strength_order_def)

lemma evaluate5_less: "hand_of 2 h \<Longrightarrow> hand_of 2 h' \<Longrightarrow> evaluate5 h < evaluate5 h' \<longleftrightarrow> poker_key h < poker_key h'"
  using standard.evaluate_less_iff [of h h'] by (simp add: standard_evaluate poker_key_def)

lemma evaluate5_le: "hand_of 2 h \<Longrightarrow> hand_of 2 h' \<Longrightarrow> evaluate5 h \<le> evaluate5 h' \<longleftrightarrow> poker_key h \<le> poker_key h'"
  using evaluate5_less [of h' h] by (metis linorder_not_less)

lemma short_less: "hand_of 6 h \<Longrightarrow> hand_of 6 h' \<Longrightarrow> short_evaluate5 h < short_evaluate5 h' \<longleftrightarrow> short_key h < short_key h'"
  using short.evaluate_less_iff [of h h'] by (simp add: short_evaluate short_key_def)

lemma short_le: "hand_of 6 h \<Longrightarrow> hand_of 6 h' \<Longrightarrow> short_evaluate5 h \<le> short_evaluate5 h' \<longleftrightarrow> short_key h \<le> short_key h'"
  using short_less [of h' h] by (metis linorder_not_less)

section \<open>Properties\<close>

definition sample_flush :: "card list" where
  "sample_flush = [Card 14 2, Card 9 2, Card 7 2, Card 6 2, Card 13 2]"

definition sample_boat :: "card list" where
  "sample_boat = [Card 9 0, Card 9 1, Card 6 2, Card 9 3, Card 6 1]"

definition sample_seven :: "card list" where
  "sample_seven = [Card 14 0, Card 9 1, Card 6 2, Card 8 3, Card 7 1, Card 7 3, Card 13 0]"

lemma sample_hands:
  "hand_of 2 sample_flush" "hand_of 2 sample_boat" "hand_of 6 sample_flush" "hand_of 6 sample_boat"
  by (simp_all add: hand_of_def valid_card_def sample_flush_def sample_boat_def)

text \<open>C31: the 52-card evaluator ranks five-card hands as poker does. For hands of five distinct
  cards, the score of one is below that of another exactly when its category is lower, or the
  categories agree and its tiebreak ranks are lexicographically lower, where category and tiebreaks
  are read off the rank multiplicities, the suits and the rank set; and the category
  method of the score returns that category.\<close>

theorem evaluate5_ranks_hands:
  assumes "hand_of 2 h" and "hand_of 2 h'"
  shows "(evaluate5 h < evaluate5 h' \<longleftrightarrow>
      poker_category 5 h < poker_category 5 h' \<or>
      poker_category 5 h = poker_category 5 h' \<and> poker_tiebreaks 5 h < poker_tiebreaks 5 h') \<and>
    score_category (evaluate5 h) = Some (poker_category 5 h)"
proof
  show "evaluate5 h < evaluate5 h' \<longleftrightarrow>
      poker_category 5 h < poker_category 5 h' \<or>
      poker_category 5 h = poker_category 5 h' \<and> poker_tiebreaks 5 h < poker_tiebreaks 5 h'"
    using evaluate5_less [OF assms] by (auto simp: poker_key_def)
  show "score_category (evaluate5 h) = Some (poker_category 5 h)"
    using standard.evaluate_category [of h] assms(1) by (simp add: standard_evaluate score_category_number)
qed

lemma evaluate5_ranks_hands_witness:
  "(evaluate5 sample_flush < evaluate5 sample_boat \<longleftrightarrow>
      poker_category 5 sample_flush < poker_category 5 sample_boat \<or>
      poker_category 5 sample_flush = poker_category 5 sample_boat \<and>
      poker_tiebreaks 5 sample_flush < poker_tiebreaks 5 sample_boat) \<and>
   score_category (evaluate5 sample_flush) = Some (poker_category 5 sample_flush)"
  by (rule evaluate5_ranks_hands [OF sample_hands(1,2)])

text \<open>The short-deck evaluator ranks hands with the flush above the full house. For hands of
  five distinct cards from six up, the score orders by short-deck strength and then by the tiebreak
  ranks, with A-6-7-8-9 the lowest straight; the strength order is the standard one with
  flush and full house exchanged; and the category is recovered from the score.\<close>

theorem short_evaluate5_ranks_hands:
  assumes "hand_of 6 h" and "hand_of 6 h'"
  shows "(short_evaluate5 h < short_evaluate5 h' \<longleftrightarrow>
      strength_of (poker_category 9 h) < strength_of (poker_category 9 h') \<or>
      poker_category 9 h = poker_category 9 h' \<and> poker_tiebreaks 9 h < poker_tiebreaks 9 h') \<and>
    (strength_of c < strength_of d \<longleftrightarrow> (c = FullHouse \<and> d = Flush) \<or> (c < d \<and> \<not> (c = Flush \<and> d = FullHouse))) \<and>
    short_score_category (short_evaluate5 h) = Some (poker_category 9 h)"
proof (intro conjI)
  have inj: "strength_of c = strength_of d \<longleftrightarrow> c = d" for c d
    using short.strength_inject by blast
  show "short_evaluate5 h < short_evaluate5 h' \<longleftrightarrow>
      strength_of (poker_category 9 h) < strength_of (poker_category 9 h') \<or>
      poker_category 9 h = poker_category 9 h' \<and> poker_tiebreaks 9 h < poker_tiebreaks 9 h'"
    using short_less [OF assms] inj by (auto simp: short_key_def)
  show "strength_of c < strength_of d \<longleftrightarrow>
      (c = FullHouse \<and> d = Flush) \<or> (c < d \<and> \<not> (c = Flush \<and> d = FullHouse))"
    by (cases c; cases d) (simp_all add: less_category_def)
  show "short_score_category (short_evaluate5 h) = Some (poker_category 9 h)"
    using short.evaluate_category [of h] assms(1)
    by (simp add: short_evaluate short_score_category_def category_of_strength)
qed

lemma short_evaluate5_ranks_hands_witness:
  "(short_evaluate5 sample_boat < short_evaluate5 sample_flush \<longleftrightarrow>
      strength_of (poker_category 9 sample_boat) < strength_of (poker_category 9 sample_flush) \<or>
      poker_category 9 sample_boat = poker_category 9 sample_flush \<and>
      poker_tiebreaks 9 sample_boat < poker_tiebreaks 9 sample_flush) \<and>
   strength_of FullHouse < strength_of Flush"
  using short_evaluate5_ranks_hands [OF sample_hands(4,3), of FullHouse Flush] by simp

text \<open>C32: the best of seven is the best of its five-card hands, in both decks. The combination
  loop returns, and its score is that of a five-card hand among the seven which no other such hand
  beats; so it does not depend on the order of the seven cards.\<close>

theorem best7_is_best:
  assumes "length cards = 7" and "distinct cards" and "\<forall>c\<in>set cards. valid_card c"
  shows "(\<exists>h\<in>hands_in cards. ref_best7 cards = Some (evaluate5 h) \<and>
           (\<forall>h'\<in>hands_in cards. poker_key h' \<le> poker_key h)) \<and>
    ((\<forall>c\<in>set cards. 6 \<le> rank c) \<longrightarrow>
         (\<exists>h\<in>hands_in cards. short_best7 cards = Some (short_evaluate5 h) \<and>
           (\<forall>h'\<in>hands_in cards. short_key h' \<le> short_key h)))"
proof (intro conjI impI)
  have v: "\<forall>c\<in>set cards. valid_card c \<and> 5 - 3 \<le> rank c"
    using assms(3) by (auto simp: valid_card_def)
  have len: "5 \<le> length cards" using assms(1) by simp
  obtain h where h: "h \<in> hands_in cards" "hand_of 2 h" "ref_best7 cards = Some (evaluate5 h)"
    "\<forall>h'\<in>hands_in cards. evaluate5 h' \<le> evaluate5 h"
    using standard.best_is_hand [OF len assms(2) v] by (auto simp: standard_evaluate ref_best7_def assms(1))
  have "poker_key h' \<le> poker_key h" if "h' \<in> hands_in cards" for h'
    using that h hands_in_hand [OF assms(2) v that] evaluate5_le [of h' h] by simp
  with h show "\<exists>h\<in>hands_in cards. ref_best7 cards = Some (evaluate5 h) \<and>
      (\<forall>h'\<in>hands_in cards. poker_key h' \<le> poker_key h)" by blast
  assume "\<forall>c\<in>set cards. 6 \<le> rank c"
  then have v: "\<forall>c\<in>set cards. valid_card c \<and> 9 - 3 \<le> rank c" using assms(3) by simp
  obtain h where h: "h \<in> hands_in cards" "hand_of 6 h" "short_best7 cards = Some (short_evaluate5 h)"
    "\<forall>h'\<in>hands_in cards. short_evaluate5 h' \<le> short_evaluate5 h"
    using short.best_is_hand [OF len assms(2) v] by (auto simp: short_evaluate short_best7_def assms(1))
  have "short_key h' \<le> short_key h" if "h' \<in> hands_in cards" for h'
    using that h hands_in_hand [OF assms(2) v that] short_le [of h' h] by simp
  with h show "\<exists>h\<in>hands_in cards. short_best7 cards = Some (short_evaluate5 h) \<and>
      (\<forall>h'\<in>hands_in cards. short_key h' \<le> short_key h)" by blast
qed

lemma best7_is_best_witness:
  "\<exists>h\<in>hands_in sample_seven. short_best7 sample_seven = Some (short_evaluate5 h) \<and>
     (\<forall>h'\<in>hands_in sample_seven. short_key h' \<le> short_key h)"
  using best7_is_best [of sample_seven] by (simp add: sample_seven_def valid_card_def)

end
