(* ===== verification/Rank_Hash.thy ===== *)
theory Rank_Hash
  imports Hand_Ranking
begin

text \<open>
  The index of the non-flush table: \<open>api/internal/engine/handeval/hashq/hashq.go\<close>, the minimal perfect
  hash of a multiset of seven ranks, and \<open>api/internal/engine/handeval/rankkey.go\<close>, which computes the
  same index from an additive key by two partial lookups. A rank multiset is the list \<open>q\<close> of its
  thirteen multiplicities. The arrays the code fills at start-up are functions of their indices
  here; every value in them is below \<open>2 ^ 16\<close>.
\<close>

section \<open>Counting rank vectors\<close>

text \<open>\<open>ways j k\<close>: the vectors of \<open>j\<close> entries, each at most four, with sum \<open>k\<close>.\<close>

fun ways :: "nat \<Rightarrow> nat \<Rightarrow> nat" where
  "ways 0 k = (if k = 0 then 1 else 0)"
| "ways (Suc j) k = (\<Sum>u\<leftarrow>[0..<5]. if u \<le> k then ways j (k - u) else 0)"

text \<open>\<open>dp[i][v][k]\<close>, the vectors of \<open>13 - i\<close> entries with sum \<open>k\<close> that start below \<open>v\<close>.\<close>

definition dp :: "nat \<Rightarrow> nat \<Rightarrow> nat \<Rightarrow> nat" where
  "dp i v k = (\<Sum>u\<leftarrow>[0..<v]. if u \<le> k then ways (12 - i) (k - u) else 0)"

section \<open>The hash\<close>

fun hash_from :: "nat \<Rightarrow> nat list \<Rightarrow> nat \<Rightarrow> nat \<Rightarrow> nat" where
  "hash_from i [] remaining acc = acc"
| "hash_from i (v # q) remaining acc =
     (if v = 0 then hash_from (Suc i) q remaining acc
      else let acc' = acc + dp i v remaining; remaining' = remaining - v
           in if remaining' = 0 then acc' else hash_from (Suc i) q remaining' acc')"

definition hash :: "nat list \<Rightarrow> nat" where
  "hash q = hash_from 0 q 7 0"

section \<open>The additive rank key\<close>

definition rank_weight :: "nat \<Rightarrow> nat" where
  "rank_weight r = (if r < 6 then 5 ^ r else 2 ^ 16 * 5 ^ (r - 6))"

text \<open>
  \<open>partialIndex\<close> from position \<open>r\<close> on, for the remaining positions; the result is converted to
  \<open>uint16\<close>.
\<close>

fun partial_index :: "nat \<Rightarrow> nat \<Rightarrow> nat \<Rightarrow> nat \<Rightarrow> nat \<Rightarrow> nat" where
  "partial_index code r 0 remaining index = index mod 2 ^ 16"
| "partial_index code r (Suc n) remaining index =
     (let digit = code mod 5
      in if remaining < digit then 0
         else partial_index (code div 5) (Suc r) n (remaining - digit)
                (index + (\<Sum>v\<leftarrow>[0..<digit]. ways (12 - r) (remaining - v))))"

definition low_rank_index :: "nat \<Rightarrow> nat" where
  "low_rank_index code = partial_index code 0 6 7 0"

fun digit_sum :: "nat \<Rightarrow> nat" where
  "digit_sum code = (if code = 0 then 0 else code mod 5 + digit_sum (code div 5))"

declare digit_sum.simps [simp del]

definition high_rank_index :: "nat \<Rightarrow> nat" where
  "high_rank_index code =
     (if digit_sum code \<le> 7 then partial_index code 6 7 (digit_sum code) 0 else 0)"

definition rank_index :: "nat \<Rightarrow> nat" where
  "rank_index key = low_rank_index (take_bit 16 key) + high_rank_index (drop_bit 16 key)"

section \<open>The lexicographic index of a vector\<close>

definition quinary :: "nat \<Rightarrow> nat \<Rightarrow> nat list \<Rightarrow> bool" where
  "quinary n k q \<longleftrightarrow> length q = n \<and> (\<forall>v\<in>set q. v \<le> 4) \<and> sum_list q = k"

definition starts_below :: "nat \<Rightarrow> nat \<Rightarrow> nat \<Rightarrow> nat" where
  "starts_below n v k = (\<Sum>u\<leftarrow>[0..<v]. if u \<le> k then ways n (k - u) else 0)"

fun lex_index :: "nat \<Rightarrow> nat list \<Rightarrow> nat \<Rightarrow> nat" where
  "lex_index n [] k = 0"
| "lex_index n (v # q) k = starts_below (n - 1) v k + lex_index (n - 1) q (k - v)"

lemma quinary_Cons:
  "quinary n k (v # q) \<longleftrightarrow> (\<exists>m. n = Suc m \<and> v \<le> 4 \<and> v \<le> k \<and> quinary m (k - v) q)"
  by (cases n) (auto simp: quinary_def)

lemma starts_below_Suc:
  "starts_below n (Suc v) k = starts_below n v k + (if v \<le> k then ways n (k - v) else 0)"
  by (simp add: starts_below_def)

lemma starts_below_mono: "v \<le> w \<Longrightarrow> starts_below n v k \<le> starts_below n w k"
  by (induction w) (auto simp: starts_below_Suc le_Suc_eq)

lemma ways_starts: "ways (Suc n) k = starts_below n 5 k"
  by (simp add: starts_below_def)

lemma lex_index_less:
  assumes "quinary n k q"
  shows "lex_index n q k < ways n k"
  using assms
proof (induction q arbitrary: n k)
  case (Cons v q)
  then obtain m where n: "n = Suc m" and v: "v \<le> 4" "v \<le> k" and q: "quinary m (k - v) q"
    by (auto simp: quinary_Cons)
  have "lex_index n (v # q) k < starts_below m (Suc v) k"
    using Cons.IH [OF q] v by (simp add: n starts_below_Suc)
  also have "\<dots> \<le> starts_below m 5 k" using v by (intro starts_below_mono) simp
  finally show ?case by (simp add: n ways_starts del: ways.simps)
qed (simp add: quinary_def)

lemma lex_index_mono:
  assumes "quinary n k q" and "quinary n k q'" and "q < q'"
  shows "lex_index n q k < lex_index n q' k"
  using assms
proof (induction q arbitrary: n k q')
  case (Cons v q)
  then obtain m where n: "n = Suc m" and v: "v \<le> 4" "v \<le> k" and q: "quinary m (k - v) q"
    by (auto simp: quinary_Cons)
  from Cons.prems(3) obtain v' r where q': "q' = v' # r" by (cases q') auto
  with Cons.prems(2) n have v': "v' \<le> 4" "v' \<le> k" and r: "quinary m (k - v') r"
    by (auto simp: quinary_Cons)
  show ?case
  proof (cases "v < v'")
    case True
    have "lex_index n (v # q) k < starts_below m (Suc v) k"
      using lex_index_less [OF q] v by (simp add: n starts_below_Suc)
    also have "\<dots> \<le> starts_below m v' k" using True by (intro starts_below_mono) simp
    finally show ?thesis by (simp add: n q')
  next
    case False
    then have "v = v'" "q < r" using Cons.prems(3) by (auto simp: q')
    with Cons.IH [OF q _ \<open>q < r\<close>] r show ?thesis by (simp add: n q')
  qed
qed (auto simp: quinary_def)

lemma starts_below_hit:
  assumes "j < starts_below n w k"
  shows "\<exists>v<w. v \<le> k \<and> starts_below n v k \<le> j \<and> j < starts_below n v k + ways n (k - v)"
  using assms
proof (induction w)
  case (Suc w)
  show ?case
  proof (cases "j < starts_below n w k")
    case True
    then show ?thesis using Suc.IH by (meson less_SucI)
  next
    case False
    with Suc.prems show ?thesis by (intro exI [of _ w]) (auto simp: starts_below_Suc split: if_splits)
  qed
qed (simp add: starts_below_def)

lemma lex_index_onto:
  assumes "j < ways n k"
  shows "\<exists>q. quinary n k q \<and> lex_index n q k = j"
  using assms
proof (induction n arbitrary: j k)
  case 0
  then show ?case by (intro exI [of _ "[]"]) (auto simp: quinary_def split: if_splits)
next
  case (Suc n)
  then obtain v where v: "v < 5" "v \<le> k" "starts_below n v k \<le> j" "j < starts_below n v k + ways n (k - v)"
    using starts_below_hit [of j n 5 k] by (auto simp: ways_starts simp del: ways.simps)
  then have "j - starts_below n v k < ways n (k - v)" by linarith
  then obtain q where "quinary n (k - v) q" "lex_index n q (k - v) = j - starts_below n v k"
    using Suc.IH by blast
  with v show ?case by (intro exI [of _ "v # q"]) (auto simp: quinary_Cons)
qed

lemma lex_index_inject:
  assumes "quinary n k q" and "quinary n k q'" and "lex_index n q k = lex_index n q' k"
  shows "q = q'"
  using lex_index_mono [OF assms(1,2)] lex_index_mono [OF assms(2,1)] assms(3)
  by (cases q q' rule: linorder_cases) auto

lemma lex_index_bij: "bij_betw (\<lambda>q. lex_index n q k) {q. quinary n k q} {..<ways n k}"
  unfolding bij_betw_def
  using lex_index_less [of n k] lex_index_onto [of _ n k] lex_index_inject [of n k]
  by (auto simp: inj_on_def image_iff)

lemma card_quinary: "Finite_Set.card {q. quinary n k q} = ways n k"
  using bij_betw_same_card [OF lex_index_bij] by simp

lemma finite_quinary: "finite {q. quinary n k q}"
  using bij_betw_finite [OF lex_index_bij] by simp

lemma lex_index_append:
  "lex_index n (xs @ ys) k = lex_index n xs k + lex_index (n - length xs) ys (k - sum_list xs)"
  by (induction n xs k rule: lex_index.induct) (simp_all add: diff_diff_eq)

lemma lex_index_zero: "sum_list q = 0 \<Longrightarrow> lex_index n q k = 0"
  by (induction n q k rule: lex_index.induct) (simp_all add: starts_below_def)

lemma hash_from_lex:
  assumes "quinary (13 - i) k q" and "i \<le> 13"
  shows "hash_from i q k s = s + lex_index (13 - i) q k"
  using assms
proof (induction i q k s rule: hash_from.induct)
  case (2 i v q k s)
  then obtain m where m: "13 - i = Suc m" and q: "v \<le> k" "quinary m (k - v) q"
    by (auto simp: quinary_Cons)
  then have i: "13 - i = Suc (12 - i)" "13 - Suc i = 12 - i" "Suc i \<le> 13" "m = 12 - i" by linarith+
  note q = q [unfolded i(4)]
  have dp: "dp i w l = starts_below (12 - i) w l" for w l by (simp add: dp_def starts_below_def)
  show ?case
  proof (cases "v = 0")
    case True
    then show ?thesis using 2 q i by (simp add: starts_below_def)
  next
    case False
    show ?thesis
    proof (cases "k - v = 0")
      case True
      then have "sum_list q = 0" using q by (simp add: quinary_def)
      with True False q show ?thesis by (simp add: i dp lex_index_zero)
    next
      case nz: False
      then show ?thesis using 2(2) False q i by (simp add: dp Let_def)
    qed
  qed
qed simp

lemma hash_lex: "quinary 13 7 q \<Longrightarrow> hash q = lex_index 13 q 7"
  using hash_from_lex [of 0 7 q 0] by (simp add: hash_def)

text \<open>One row of the table from the one before it, for sums up to seven.\<close>

definition next_row :: "nat list \<Rightarrow> nat list" where
  "next_row row = map (\<lambda>k. \<Sum>u\<leftarrow>[0..<5]. if u \<le> k then row ! (k - u) else 0) [0..<8]"

lemma ways_row: "map (ways j) [0..<8] = (next_row ^^ j) [1, 0, 0, 0, 0, 0, 0, 0]"
proof (induction j)
  case (Suc j)
  have "map (ways (Suc j)) [0..<8] = next_row (map (ways j) [0..<8])"
    by (rule nth_equalityI) (auto simp: next_row_def intro!: arg_cong [where f = sum_list] map_cong
        simp del: upt_rec_numeral)
  then show ?case by (simp only: Suc funpow.simps comp_apply)
qed (simp add: upt_rec)

lemma next_row_eq:
  "next_row [a, b, c, d, e, f, g, h] = [a, b + a, c + b + a, d + c + b + a, e + d + c + b + a,
     f + e + d + c + b, g + f + e + d + c, h + g + f + e + d]"
  by (simp add: next_row_def upt_rec)

lemma funpow_13:
  "(f ^^ 13) x = f (f (f (f (f (f (f (f (f (f (f (f (f x))))))))))))"
  by (simp add: numeral_nat)

lemma rows:
  "next_row [1, 0, 0, 0, 0, 0, 0, 0] = [1, 1, 1, 1, 1, 0, 0, 0]"
  "next_row [1, 1, 1, 1, 1, 0, 0, 0] = [1, 2, 3, 4, 5, 4, 3, 2]"
  "next_row [1, 2, 3, 4, 5, 4, 3, 2] = [1, 3, 6, 10, 15, 18, 19, 18]"
  "next_row [1, 3, 6, 10, 15, 18, 19, 18] = [1, 4, 10, 20, 35, 52, 68, 80]"
  "next_row [1, 4, 10, 20, 35, 52, 68, 80] = [1, 5, 15, 35, 70, 121, 185, 255]"
  "next_row [1, 5, 15, 35, 70, 121, 185, 255] = [1, 6, 21, 56, 126, 246, 426, 666]"
  "next_row [1, 6, 21, 56, 126, 246, 426, 666] = [1, 7, 28, 84, 210, 455, 875, 1520]"
  "next_row [1, 7, 28, 84, 210, 455, 875, 1520] = [1, 8, 36, 120, 330, 784, 1652, 3144]"
  "next_row [1, 8, 36, 120, 330, 784, 1652, 3144] = [1, 9, 45, 165, 495, 1278, 2922, 6030]"
  "next_row [1, 9, 45, 165, 495, 1278, 2922, 6030] = [1, 10, 55, 220, 715, 1992, 4905, 10890]"
  "next_row [1, 10, 55, 220, 715, 1992, 4905, 10890] = [1, 11, 66, 286, 1001, 2992, 7887, 18722]"
  "next_row [1, 11, 66, 286, 1001, 2992, 7887, 18722] = [1, 12, 78, 364, 1365, 4356, 12232, 30888]"
  "next_row [1, 12, 78, 364, 1365, 4356, 12232, 30888] = [1, 13, 91, 455, 1820, 6175, 18395, 49205]"
  by (simp_all add: next_row_eq)

lemma row_13: "(next_row ^^ 13) [1, 0, 0, 0, 0, 0, 0, 0] ! 7 = 49205"
  by (simp only: funpow_13 rows nth_Cons_numeral) simp

lemma ways_13_5: "ways 13 5 = 6175"
proof -
  have "ways 13 5 = map (ways 13) [0..<8] ! 5" by (subst nth_map) simp_all
  also have "\<dots> = 6175" by (simp only: ways_row funpow_13 rows) simp
  finally show ?thesis .
qed

lemma ways_13_7: "ways 13 7 = 49205"
proof -
  have "ways 13 7 = map (ways 13) [0..<8] ! 7" by (subst nth_map) simp_all
  also have "\<dots> = 49205" by (simp only: ways_row row_13)
  finally show ?thesis .
qed

section \<open>The additive key finds the same index\<close>

fun base5 :: "nat list \<Rightarrow> nat" where
  "base5 [] = 0"
| "base5 (v # q) = v + 5 * base5 q"

lemma base5_digits:
  "v \<le> 4 \<Longrightarrow> base5 (v # q) mod 5 = v \<and> base5 (v # q) div 5 = base5 q"
  by simp

lemma digit_sum_base5: "\<forall>v\<in>set q. v \<le> 4 \<Longrightarrow> digit_sum (base5 q) = sum_list q"
proof (induction q)
  case (Cons v q)
  then have "digit_sum (base5 (v # q)) = v + digit_sum (base5 q)"
    using base5_digits [of v q] by (subst digit_sum.simps) (auto simp: digit_sum.simps [of 0])
  with Cons show ?case by simp
qed (simp add: digit_sum.simps)

lemma partial_index_lex:
  assumes "\<forall>v\<in>set q. v \<le> 4" and "sum_list q \<le> k" and "r + length q \<le> 13"
  shows "partial_index (base5 q) r (length q) k s = (s + lex_index (13 - r) q k) mod 2 ^ 16"
  using assms
proof (induction q arbitrary: r k s)
  case (Cons v q)
  have "(\<Sum>u\<leftarrow>[0..<v]. ways (12 - r) (k - u)) = starts_below (12 - r) v k"
    using Cons.prems(2) unfolding starts_below_def
    by (intro arg_cong [where f = sum_list] map_cong) auto
  moreover have "13 - r - 1 = 12 - r" "13 - Suc r = 12 - r" by simp_all
  ultimately show ?case
    using Cons base5_digits [of v q] by (simp add: Let_def add.assoc)
qed simp

lemma base5_less: "\<forall>v\<in>set q. v \<le> 4 \<Longrightarrow> base5 q < 5 ^ length q"
  by (induction q) auto

definition rank_key :: "nat list \<Rightarrow> nat" where
  "rank_key q = (\<Sum>r\<leftarrow>[0..<13]. q ! r * rank_weight r)"

lemma base5_sum: "base5 q = (\<Sum>r\<leftarrow>[0..<length q]. q ! r * 5 ^ r)"
proof (induction q)
  case (Cons v q)
  have "[0..<length (v # q)] = 0 # map Suc [0..<length q]"
    by (simp add: upt_conv_Cons map_Suc_upt del: upt_Suc)
  then show ?case
    by (simp add: Cons comp_def sum_list_const_mult [symmetric] mult.left_commute del: upt_Suc)
qed simp

lemma rank_key_split:
  assumes "length q = 13"
  shows "rank_key q = base5 (take 6 q) + 2 ^ 16 * base5 (drop 6 q)"
proof -
  have upt: "[0..<13] = [0..<6] @ map ((+) 6) [0..<7]" by (simp add: upt_rec)
  have "rank_key q = (\<Sum>r\<leftarrow>[0..<6]. q ! r * rank_weight r) + (\<Sum>r\<leftarrow>[0..<7]. q ! (6 + r) * rank_weight (6 + r))"
    unfolding rank_key_def upt by (simp only: map_append sum_list_append map_map comp_def)
  also have "(\<Sum>r\<leftarrow>[0..<6]. q ! r * rank_weight r) = (\<Sum>r\<leftarrow>[0..<6]. take 6 q ! r * 5 ^ r)"
    by (intro arg_cong [where f = sum_list] map_cong) (auto simp: rank_weight_def)
  also have "(\<Sum>r\<leftarrow>[0..<7]. q ! (6 + r) * rank_weight (6 + r)) = (\<Sum>r\<leftarrow>[0..<7]. 2 ^ 16 * (drop 6 q ! r * 5 ^ r))"
    using assms by (intro arg_cong [where f = sum_list] map_cong) (auto simp: rank_weight_def)
  finally show ?thesis
    using assms by (simp only: base5_sum sum_list_const_mult length_take length_drop) simp
qed

lemma rank_index_lex:
  assumes "quinary 13 7 q"
  shows "rank_index (rank_key q) = lex_index 13 q 7"
proof -
  let ?lo = "take 6 q" and ?hi = "drop 6 q"
  have len: "length ?lo = 6" "length ?hi = 7" and d: "\<forall>v\<in>set ?lo. v \<le> 4" "\<forall>v\<in>set ?hi. v \<le> 4"
    using assms by (auto simp: quinary_def dest: in_set_takeD in_set_dropD)
  have sum: "sum_list ?lo + sum_list ?hi = 7"
    using assms by (metis append_take_drop_id quinary_def sum_list_append)
  then have rest: "7 - sum_list ?lo = sum_list ?hi" "sum_list ?hi \<le> 7" by linarith+
  have lt: "base5 ?lo < 2 ^ 16" using base5_less [OF d(1)] len(1) by simp
  have key: "rank_key q = base5 ?lo + 2 ^ 16 * base5 ?hi"
    using assms by (simp add: rank_key_split quinary_def)
  have keys: "take_bit 16 (rank_key q) = base5 ?lo" "drop_bit 16 (rank_key q) = base5 ?hi"
    unfolding take_bit_eq_mod drop_bit_eq_div key using lt by simp_all
  have tot: "lex_index 13 q 7 = lex_index 13 ?lo 7 + lex_index 7 ?hi (7 - sum_list ?lo)"
    using lex_index_append [of 13 ?lo ?hi 7] len(1) by simp
  have small: "lex_index 13 q 7 < 2 ^ 16" using lex_index_less [OF assms] ways_13_7 by simp
  have "low_rank_index (base5 ?lo) = lex_index 13 ?lo 7"
    using partial_index_lex [OF d(1), of 7 0 0] len(1) sum small tot by (simp add: low_rank_index_def)
  moreover have "high_rank_index (base5 ?hi) = lex_index 7 ?hi (7 - sum_list ?lo)"
    using partial_index_lex [OF d(2), of "sum_list ?hi" 6 0] len(2) sum small tot
      digit_sum_base5 [OF d(2)] rest by (simp add: high_rank_index_def)
  ultimately show ?thesis by (simp add: rank_index_def keys tot)
qed

section \<open>Properties\<close>

text \<open>C33: the hash of a rank multiset is minimal and perfect. It maps the vectors of thirteen
  multiplicities of at most four with sum seven one to one onto the numbers below 49205, in
  lexicographic order.\<close>

theorem hash_minimal_perfect:
  "bij_betw hash {q. quinary 13 7 q} {..<49205} \<and>
   (\<forall>q q'. quinary 13 7 q \<and> quinary 13 7 q' \<longrightarrow> (q < q' \<longleftrightarrow> hash q < hash q'))"
proof
  have "bij_betw hash {q. quinary 13 7 q} {..<49205} \<longleftrightarrow>
      bij_betw (\<lambda>q. lex_index 13 q 7) {q. quinary 13 7 q} {..<49205}"
    by (rule bij_betw_cong) (simp add: hash_lex)
  then show "bij_betw hash {q. quinary 13 7 q} {..<49205}"
    using lex_index_bij [of 13 7] by (simp only: ways_13_7)
  have "q < q' \<longleftrightarrow> hash q < hash q'" if "quinary 13 7 q" "quinary 13 7 q'" for q q'
    using lex_index_mono [OF that] lex_index_mono [OF that(2,1)] that
    by (cases q q' rule: linorder_cases) (auto simp: hash_lex)
  then show "\<forall>q q'. quinary 13 7 q \<and> quinary 13 7 q' \<longrightarrow> (q < q' \<longleftrightarrow> hash q < hash q')" by blast
qed

lemma hash_minimal_perfect_witness:
  "hash [0, 0, 1, 0, 2, 0, 0, 0, 3, 0, 0, 1, 0] < hash [0, 0, 1, 1, 1, 0, 0, 0, 3, 0, 0, 1, 0]"
proof -
  let ?q = "[0, 0, 1, 0, 2, 0, 0, 0, 3, 0, 0, 1, 0] :: nat list"
  let ?q' = "[0, 0, 1, 1, 1, 0, 0, 0, 3, 0, 0, 1, 0] :: nat list"
  have "quinary 13 7 ?q" "quinary 13 7 ?q'" "?q < ?q'" by (simp_all add: quinary_def)
  then show ?thesis using hash_minimal_perfect by blast
qed

text \<open>The additive rank key replaces the hash. For a valid rank multiset, the two partial
  lookups on the sum of the rank weights give exactly the hash's index.\<close>

theorem rank_index_is_hash:
  assumes "quinary 13 7 q"
  shows "rank_index (\<Sum>r\<leftarrow>[0..<13]. q ! r * rank_weight r) = hash q"
  using rank_index_lex [OF assms] hash_lex [OF assms] by (simp only: rank_key_def)

lemma rank_index_is_hash_witness:
  "rank_index (\<Sum>r\<leftarrow>[0..<13]. [4, 0, 0, 0, 0, 0, 2, 0, 0, 0, 0, 0, 1] ! r * rank_weight r) =
   hash [4, 0, 0, 0, 0, 0, 2, 0, 0, 0, 0, 0, 1]"
  by (rule rank_index_is_hash) (simp add: quinary_def)

end
