(* ===== verification/Table_Gen.thy ===== *)
theory Table_Gen
  imports Rank_Hash
begin

text \<open>
  The offline generator of the evaluator's tables, \<open>api/internal/engine/handeval/gen/main.go\<close>: the
  dense numbering of all hand strengths, the flush table, the non-flush table and the category
  table, with the panics of the code as \<open>None\<close>. The lemmas show that it cannot panic: there are exactly
  7462 strengths, every score the tables need is among them, and the hash fills every slot once.
\<close>

section \<open>Numbering the hand strengths\<close>

definition five_card_hands :: "card list list" where
  "five_card_hands =
     concat (map (\<lambda>a. concat (map (\<lambda>b. concat (map (\<lambda>c. concat (map (\<lambda>d. map (\<lambda>e.
       [standard_deck ! a, standard_deck ! b, standard_deck ! c, standard_deck ! d, standard_deck ! e])
       [Suc d..<52]) [Suc c..<52])) [Suc b..<52])) [Suc a..<52])) [0..<52])"

definition seen_scores :: "u32 list" where
  "seen_scores = remdups (map evaluate5 five_card_hands)"

text \<open>The scores in ascending order; \<open>handOrder\<close> numbers them from one.\<close>

definition rank_all_hands :: "u32 list option" where
  "rank_all_hands = (if length seen_scores \<noteq> 7462 then None else Some (sort seen_scores))"

definition order_value :: "u32 list \<Rightarrow> u32 \<Rightarrow> nat option" where
  "order_value order s = map_option (\<lambda>i. Suc i mod 2 ^ 16) (index_of s order)"

section \<open>The flush table\<close>

definition ones_count :: "nat \<Rightarrow> nat" where
  "ones_count m = length (filter (bit m) [0..<32])"

definition mask_cards :: "nat \<Rightarrow> card list" where
  "mask_cards m = map (\<lambda>r. Card (2 + r) 3) (filter (bit m) [0..<13])"

definition flush_entry :: "u32 list \<Rightarrow> nat \<Rightarrow> nat option" where
  "flush_entry order m =
     (if ones_count m < 5 then Some 0 else Option.bind (best_n (mask_cards m)) (order_value order))"

definition build_flush_table :: "u32 list \<Rightarrow> nat list option" where
  "build_flush_table order = those (map (flush_entry order) [0..<2 ^ 13])"

section \<open>The non-flush table\<close>

definition least_used :: "nat list \<Rightarrow> nat" where
  "least_used used = foldl (\<lambda>best s. if used ! s < used ! best then s else best) 0 [1..<4]"

definition deal_copy :: "nat \<Rightarrow> card list \<times> nat list \<Rightarrow> card list \<times> nat list" where
  "deal_copy r = (\<lambda>(out, used). let best = least_used used
     in (out @ [Card (2 + r) best], used[best := used ! best + 1]))"

definition cards_for_quinary :: "nat list \<Rightarrow> card list option" where
  "cards_for_quinary q =
     (case fold (\<lambda>r. deal_copy r ^^ (q ! r)) [0..<13] ([], [0, 0, 0, 0]) of
        (out, used) \<Rightarrow>
          if length out \<noteq> 7 then None else if \<exists>c\<in>set used. 5 \<le> c then None else Some out)"

text \<open>The vectors \<open>walk\<close> reaches, in the order it reaches them.\<close>

fun vectors :: "nat \<Rightarrow> nat \<Rightarrow> nat list list" where
  "vectors 0 k = (if k = 0 then [[]] else [])"
| "vectors (Suc n) k = concat (map (\<lambda>v. map ((#) v) (vectors n (k - v))) [0..<Suc (min 4 k)])"

definition no_flush_entry :: "u32 list \<Rightarrow> nat list \<Rightarrow> nat option" where
  "no_flush_entry order q =
     Option.bind (cards_for_quinary q) (\<lambda>cards. Option.bind (ref_best7 cards) (order_value order))"

fun fill_table :: "u32 list \<Rightarrow> nat list list \<Rightarrow> nat list \<Rightarrow> bool list \<Rightarrow> (nat list \<times> bool list) option" where
  "fill_table order [] table filled = Some (table, filled)"
| "fill_table order (q # qs) table filled =
     (let idx = hash q
      in if 49205 \<le> idx then None
         else if filled ! idx then None
         else case no_flush_entry order q of
                None \<Rightarrow> None
              | Some v \<Rightarrow> fill_table order qs (table[idx := v]) (filled[idx := True]))"

definition build_no_flush_table :: "u32 list \<Rightarrow> nat list option" where
  "build_no_flush_table order =
     (case fill_table order (vectors 13 7) (replicate 49205 0) (replicate 49205 False) of
        None \<Rightarrow> None
      | Some (table, filled) \<Rightarrow> if \<exists>b\<in>set filled. \<not> b then None else Some table)"

section \<open>The category table\<close>

definition build_category_table :: "u32 list \<Rightarrow> nat list" where
  "build_category_table order =
     foldl (\<lambda>table (i, s). table[Suc i := unat (drop_bit 24 s)]) (replicate 7463 0) (enumerate 0 order)"

record score_tables =
  flush_table :: "nat list"
  no_flush_table :: "nat list"
  category_table :: "nat list"

definition gen_tables :: "score_tables option" where
  "gen_tables =
     (case rank_all_hands of
        None \<Rightarrow> None
      | Some order \<Rightarrow>
         (case build_flush_table order of
            None \<Rightarrow> None
          | Some flush \<Rightarrow>
             (case build_no_flush_table order of
                None \<Rightarrow> None
              | Some no_flush \<Rightarrow> Some \<lparr>flush_table = flush, no_flush_table = no_flush,
                  category_table = build_category_table order\<rparr>)))"

section \<open>The strength of a hand determines its ranks and whether it is of one suit\<close>

lemma classify_ranks:
  assumes "map rank h = map rank h'" and "one_suit h \<longleftrightarrow> one_suit h'"
  shows "classify st h = classify st h'"
proof (cases "h = []")
  case False
  then have "h' \<noteq> []" using assms(1) by auto
  with False assms(2) have "length (remdups (map suit h)) = 1 \<longleftrightarrow> length (remdups (map suit h')) = 1"
    using one_suit_remdups by blast
  then show ?thesis by (simp only: classify_def assms(1))
qed (use assms in simp)

lemma one_suit_perm: "mset h = mset h' \<Longrightarrow> one_suit h \<longleftrightarrow> one_suit h'"
  using mset_eq_setD [of h h'] by (simp add: one_suit_def)

lemma map_rank_sort: "map rank (sort_key rank h) = sort (map rank h)"
  by (intro properties_for_sort [symmetric]) simp_all

definition strength_class :: "card list \<Rightarrow> nat multiset \<times> bool" where
  "strength_class h = (mset (map rank h), one_suit h)"

lemma evaluate5_class:
  assumes "strength_class h = strength_class h'"
  shows "evaluate5 h = evaluate5 h'"
proof -
  let ?s = "sort_key rank"
  have r: "map rank (?s h) = map rank (?s h')"
    using assms unfolding map_rank_sort by (intro sort_perm) (simp add: strength_class_def)
  have "one_suit (?s h) \<longleftrightarrow> one_suit (?s h')"
    using assms one_suit_perm [of "?s h" h] one_suit_perm [of "?s h'" h'] by (simp add: strength_class_def)
  from classify_ranks [OF r this] have "evaluate5 (?s h) = evaluate5 (?s h')"
    by (simp add: evaluate5_def)
  then show ?thesis
    using evaluate5_perm [of "?s h" h] evaluate5_perm [of "?s h'" h'] by simp
qed

lemma count_copies: "count (mset (concat (map (replicate k) xs))) r = k * count (mset xs) r"
  by (induction xs) simp_all

lemma ranks_by_kind:
  assumes "hand_of lo h"
  shows "mset (map rank h) =
    (\<Sum>k\<leftarrow>[4, 3, 2, 1]. mset (concat (map (replicate k) (kinds h k))))"
proof (rule multiset_eqI)
  fix r
  have kc: "count (mset (kinds h k)) r = (if 2 \<le> r \<and> r \<le> 14 \<and> mult h r = k then 1 else 0)" for k
    by (simp add: count_mset count_list_distinct kinds_def)
  have "mult h r \<le> 4" using assms mult_le_4 by (simp add: hand_of_def)
  moreover have "mult h r = 0" if "\<not> (2 \<le> r \<and> r \<le> 14)"
    using that assms unfolding mult_def count_list_0_iff by (auto simp: hand_of_def valid_card_def)
  ultimately have "mult h r = 4 * count (mset (kinds h 4)) r + 3 * count (mset (kinds h 3)) r +
      2 * count (mset (kinds h 2)) r + count (mset (kinds h 1)) r"
    unfolding kc by auto
  then show "count (mset (map rank h)) r =
      count (\<Sum>k\<leftarrow>[4, 3, 2, 1]. mset (concat (map (replicate k) (kinds h k)))) r"
    unfolding count_mset [of "map rank h"] mult_def [symmetric]
    by (simp only: list.map sum_list.Cons sum_list.Nil plus_multiset.rep_eq count_copies count_empty)
qed

fun ranks_of :: "category \<Rightarrow> nat list \<Rightarrow> nat multiset" where
  "ranks_of RoyalFlush _ = mset_set (straight_ranks 5 14)"
| "ranks_of StraightFlush ts = mset_set (straight_ranks 5 (ts ! 0))"
| "ranks_of Straight ts = mset_set (straight_ranks 5 (ts ! 0))"
| "ranks_of FourOfAKind ts = mset [ts ! 0, ts ! 0, ts ! 0, ts ! 0, ts ! 1]"
| "ranks_of FullHouse ts = mset [ts ! 0, ts ! 0, ts ! 0, ts ! 1, ts ! 1]"
| "ranks_of ThreeOfAKind ts = mset [ts ! 0, ts ! 0, ts ! 0, ts ! 1, ts ! 2]"
| "ranks_of TwoPair ts = mset [ts ! 0, ts ! 0, ts ! 1, ts ! 1, ts ! 2]"
| "ranks_of Pair ts = mset [ts ! 0, ts ! 0, ts ! 1, ts ! 2, ts ! 3]"
| "ranks_of Flush ts = mset ts"
| "ranks_of HighCard ts = mset ts"

lemma straight_mset:
  assumes "hand_of lo h" and "straight_top 5 h = Some t"
  shows "mset (map rank h) = mset_set (straight_ranks 5 t)"
proof -
  have set: "set (map rank h) = straight_ranks 5 t" and t: "5 \<le> t"
    using find_Some_mem [OF assms(2) [unfolded straight_top_def]] unfolding set_upt by auto
  have "Finite_Set.card (set (map rank h)) = length (map rank h)"
    unfolding set using straight_ranks_card [of 5 t] t assms(1) by (simp add: hand_of_def)
  then have "distinct (map rank h)" by (rule card_distinct)
  from mset_set_set [OF this] show ?thesis by (simp only: set)
qed

lemma copies:
  "replicate_mset 2 (a :: nat) = {#a, a#}" "replicate_mset 3 a = {#a, a, a#}" "replicate_mset 4 a = {#a, a, a, a#}"
  by (simp_all add: eval_nat_numeral)

lemma ranks_of_key:
  assumes "hand_of 2 h"
  shows "mset (map rank h) = ranks_of (poker_category 5 h) (poker_tiebreaks 5 h)"
proof -
  have no_straight: "straight_top 5 h = None" "\<not> one_suit h" if "length (kinds h 1) \<noteq> 5"
    using straight_distinct [of 5 2 h] suit_distinct [OF assms] assms that
    by (cases "straight_top 5 h"; simp; blast)+
  note defs = poker_category_def poker_tiebreaks_def by_kind_def
  note kinds = ranks_by_kind [OF assms, simplified]
  show ?thesis
    using assms
  proof (cases rule: kinds_shapes)
    case (none a b c d e)
    then have k: "mset (map rank h) = mset [a, b, c, d, e]" by (simp add: kinds)
    show ?thesis
      using none k straight_mset [OF assms] by (cases "straight_top 5 h") (auto simp: defs)
  qed (use no_straight in \<open>simp_all add: kinds defs copies add_mset_commute\<close>)
qed

lemma one_suit_category:
  assumes "hand_of 2 h"
  shows "one_suit h \<longleftrightarrow> poker_category 5 h \<in> {Flush, StraightFlush, RoyalFlush}"
proof
  assume s: "one_suit h"
  then have "kinds h 4 = []" "kinds h 3 = []"
    using suit_distinct [OF assms s] kinds_count [OF assms] by auto
  with s show "poker_category 5 h \<in> {Flush, StraightFlush, RoyalFlush}"
    by (auto simp: poker_category_def)
qed (auto simp: poker_category_def split: if_splits)

lemma evaluate5_eq_iff:
  assumes "hand_of 2 h" and "hand_of 2 h'"
  shows "evaluate5 h = evaluate5 h' \<longleftrightarrow> strength_class h = strength_class h'"
proof
  assume "evaluate5 h = evaluate5 h'"
  then have "poker_key h = poker_key h'"
    using evaluate5_less [OF assms] evaluate5_less [OF assms(2,1)] by (metis linorder_neqE order.irrefl)
  then show "strength_class h = strength_class h'"
    by (simp add: strength_class_def poker_key_def ranks_of_key assms one_suit_category del: mset_map)
qed (rule evaluate5_class)

section \<open>There are 7462 strengths\<close>

lemma set_five_card_hands:
  "set five_card_hands = map ((!) standard_deck) ` {x. subset_index 52 x}"
proof -
  have "set five_card_hands = (\<Union>a\<in>{0..<52}. \<Union>b\<in>{Suc a..<52}. \<Union>c\<in>{Suc b..<52}. \<Union>d\<in>{Suc c..<52}.
      (\<lambda>e. map ((!) standard_deck) [a, b, c, d, e]) ` {Suc d..<52})"
    unfolding five_card_hands_def by (simp only: set_concat set_map set_upt image_image list.map)
  also have "\<dots> = map ((!) standard_deck) ` (\<Union>a\<in>{0..<52}. \<Union>b\<in>{Suc a..<52}. \<Union>c\<in>{Suc b..<52}. \<Union>d\<in>{Suc c..<52}.
      (\<lambda>e. [a, b, c, d, e]) ` {Suc d..<52})"
    by (simp only: image_UN image_image)
  also have "(\<Union>a\<in>{0..<52}. \<Union>b\<in>{Suc a..<52}. \<Union>c\<in>{Suc b..<52}. \<Union>d\<in>{Suc c..<52}.
      (\<lambda>e. [a, b, c, d, e]) ` {Suc d..<52}) = {x. subset_index 52 x}" (is "?U = _")
  proof (intro subset_antisym subsetI)
    fix x assume "x \<in> ?U"
    then show "x \<in> {x. subset_index 52 x}" by (auto simp: subset_index_def)
  next
    fix x assume "x \<in> {x. subset_index 52 x}"
    then have "subset_index 52 x" by simp
    then obtain a b c d e where x: "x = [a, b, c, d, e]" and "a < b" "b < c" "c < d" "d < e" "e < 52"
      by (rule subset_index_cases)
    then have "a \<in> {0..<52}" "b \<in> {Suc a..<52}" "c \<in> {Suc b..<52}" "d \<in> {Suc c..<52}" "e \<in> {Suc d..<52}"
      by simp_all
    then show "x \<in> ?U" unfolding x by blast
  qed
  finally show ?thesis .
qed

lemma hands_in_deck: "hands_in standard_deck = {h. hand_of 2 h}"
proof (intro set_eqI iffI)
  fix h assume "h \<in> hands_in standard_deck"
  then show "h \<in> {h. hand_of 2 h}"
    using hands_in_hand [OF distinct_standard_deck, of 2 h] by (auto simp: set_standard_deck valid_card_def)
next
  fix h assume "h \<in> {h. hand_of 2 h}"
  then have "distinct h" "set h \<subseteq> set standard_deck" "length h = 5"
    by (auto simp: hand_of_def set_standard_deck)
  then show "h \<in> hands_in standard_deck"
    by (simp add: hands_in_def mset_set_set [symmetric] distinct_standard_deck subset_imp_msubset_mset_set)
qed

lemma set_seen_scores: "set seen_scores = evaluate5 ` {h. hand_of 2 h}"
proof -
  have "set seen_scores = evaluate5 ` map ((!) standard_deck) ` {x. subset_index 52 x}"
    by (simp only: seen_scores_def set_remdups set_map set_five_card_hands)
  also have "\<dots> = evaluate5 ` hands_in standard_deck"
    using image_subset_index [of evaluate5 standard_deck, OF evaluate5_perm] by (simp add: image_image)
  finally show ?thesis by (simp only: hands_in_deck)
qed

lemma finite_hands: "finite {h. hand_of 2 h}"
  using finite_hands_in [of standard_deck] by (simp only: hands_in_deck)

lemma card_same_kernel:
  assumes "finite A" and "\<And>x y. x \<in> A \<Longrightarrow> y \<in> A \<Longrightarrow> f x = f y \<longleftrightarrow> g x = g y"
  shows "Finite_Set.card (f ` A) = Finite_Set.card (g ` A)"
proof -
  let ?i = "inv_into A f"
  have i: "?i (f x) \<in> A \<and> f (?i (f x)) = f x" if "x \<in> A" for x
    using that by (simp add: inv_into_into f_inv_into_f)
  have gi: "g (?i (f x)) = g x" if "x \<in> A" for x
    using assms(2) i [OF that] that by blast
  have "inj_on (g \<circ> ?i) (f ` A)"
  proof (rule inj_onI)
    fix u v assume "u \<in> f ` A" "v \<in> f ` A" "(g \<circ> ?i) u = (g \<circ> ?i) v"
    then show "u = v" using gi assms(2) by auto
  qed
  moreover have "(g \<circ> ?i) ` f ` A = g ` A"
    using gi by (auto simp: image_iff)
  ultimately show ?thesis by (metis card_image)
qed

definition rank_multisets :: "nat multiset set" where
  "rank_multisets = {M. size M = 5 \<and> set_mset M \<subseteq> {2..14} \<and> (\<forall>r. count M r \<le> 4)}"

lemma hand_with_ranks:
  assumes "M \<in> rank_multisets"
  obtains h where "hand_of 2 h" and "strength_class h = (M, False)"
proof -
  define rs where "rs = sorted_list_of_multiset M"
  have rs: "mset rs = M" "sorted rs" by (simp_all add: rs_def)
  then have "length rs = 5" using assms by (metis (mono_tags, lifting) mem_Collect_eq rank_multisets_def size_mset)
  then obtain a b c d e where abc: "rs = [a, b, c, d, e]" using five_elements by blast
  have ae: "a \<noteq> e"
  proof
    assume "a = e"
    then have "b = a" "c = a" "d = a" using rs(2) by (auto simp: abc)
    then have "count M a = 5" using \<open>a = e\<close> by (simp add: rs(1) [symmetric] abc)
    then show False using assms by (metis (mono_tags, lifting) Suc_n_not_le_n eval_nat_numeral(3) mem_Collect_eq rank_multisets_def)
  qed
  have range: "\<forall>r\<in>set rs. 2 \<le> r \<and> r \<le> 14"
    using assms by (auto simp: rank_multisets_def rs(1) [symmetric])
  let ?h = "[Card a 0, Card b 1, Card c 2, Card d 3, Card e 0]"
  have "hand_of 2 ?h" using ae range by (auto simp: abc hand_of_def valid_card_def)
  moreover have "strength_class ?h = (M, False)"
    by (simp add: strength_class_def one_suit_def rs(1) [symmetric] abc)
  ultimately show thesis using that by blast
qed

lemma flush_with_ranks:
  assumes "S \<subseteq> {2..14}" and "Finite_Set.card S = 5"
  obtains h where "hand_of 2 h" and "strength_class h = (mset_set S, True)"
proof -
  have fin: "finite S" using assms(1) by (rule finite_subset) simp
  let ?h = "map (\<lambda>r. Card r 0) (sorted_list_of_set S)"
  have "hand_of 2 ?h"
    using assms fin by (auto simp: hand_of_def valid_card_def distinct_map inj_on_def)
  moreover have "strength_class ?h = (mset_set S, True)"
    using fin by (simp add: strength_class_def one_suit_def comp_def mset_set_set [symmetric] del: mset_map)
  ultimately show thesis using that by blast
qed

lemma strength_classes:
  "strength_class ` {h. hand_of 2 h} =
     rank_multisets \<times> {False} \<union> mset_set ` {S. S \<subseteq> {2..14} \<and> Finite_Set.card S = 5} \<times> {True}"
    (is "?L = ?N \<union> ?F")
proof (intro subset_antisym subsetI)
  fix s assume "s \<in> ?L"
  then obtain h where h: "hand_of 2 h" "s = strength_class h" by auto
  have range: "set (map rank h) \<subseteq> {2..14}" using h(1) by (auto simp: hand_of_def valid_card_def)
  show "s \<in> ?N \<union> ?F"
  proof (cases "one_suit h")
    case True
    then have "inj_on rank (set h)" by (auto simp: inj_on_def one_suit_def intro: card.expand)
    then have d: "distinct (map rank h)" using h(1) by (simp add: distinct_map hand_of_def)
    have "Finite_Set.card (set (map rank h)) = 5" using distinct_card [OF d] h(1) by (simp add: hand_of_def)
    then have "mset (map rank h) \<in> mset_set ` {S. S \<subseteq> {2..14} \<and> Finite_Set.card S = 5}"
      using range mset_set_set [OF d] by (intro image_eqI [of _ _ "set (map rank h)"]) (simp_all del: mset_map)
    then show ?thesis using True h(2) by (simp add: strength_class_def)
  next
    case False
    have "count (mset (map rank h)) r \<le> 4" for r
      unfolding count_mset mult_def [symmetric] using h(1) by (intro mult_le_4) (auto simp: hand_of_def)
    then have "mset (map rank h) \<in> rank_multisets"
      using range h(1) by (simp add: rank_multisets_def hand_of_def del: mset_map)
    with False h(2) show ?thesis by (simp add: strength_class_def)
  qed
next
  fix s assume "s \<in> ?N \<union> ?F"
  then show "s \<in> ?L"
    by (elim UnE SigmaE) (auto elim!: hand_with_ranks flush_with_ranks intro: rev_image_eqI)
qed

definition rank_vector :: "nat multiset \<Rightarrow> nat list" where
  "rank_vector M = map (\<lambda>r. count M (r + 2)) [0..<13]"

lemma sum_counts:
  assumes "set_mset M \<subseteq> {2..14}"
  shows "(\<Sum>r\<leftarrow>[0..<13]. count M (r + 2)) = size M"
proof -
  have "(\<Sum>r\<leftarrow>[0..<13]. count M (r + 2)) = (\<Sum>r\<in>{0..<13}. count M (r + 2))"
    by (simp only: sum_set_upt_conv_sum_list_nat atLeastLessThan_upt)
  also have "\<dots> = (\<Sum>r\<in>{2..<15}. count M r)"
    using sum.shift_bounds_nat_ivl [of "count M" 0 2 13] by (simp add: numeral_2_eq_2)
  also have "\<dots> = (\<Sum>r\<in>set_mset M. count M r)"
    using assms by (intro sum.mono_neutral_right) (auto simp: not_in_iff)
  finally show ?thesis by (simp add: size_multiset_overloaded_eq)
qed

lemma rank_vector_bij: "bij_betw rank_vector rank_multisets {q. quinary 13 5 q}"
  unfolding bij_betw_def
proof
  show "inj_on rank_vector rank_multisets"
  proof (rule inj_onI, rule multiset_eqI)
    fix M N r
    assume M: "M \<in> rank_multisets" and N: "N \<in> rank_multisets" and eq: "rank_vector M = rank_vector N"
    show "count M r = count N r"
    proof (cases "2 \<le> r \<and> r \<le> 14")
      case True
      then have r: "r - 2 < 13" "Suc (Suc (r - 2)) = r" by linarith+
      have "rank_vector M ! (r - 2) = count M r" "rank_vector N ! (r - 2) = count N r"
        using r by (simp_all add: rank_vector_def)
      with eq show ?thesis by simp
    next
      case False
      then have "r \<notin># M" "r \<notin># N" using M N by (auto simp: rank_multisets_def)
      then show ?thesis by (simp add: not_in_iff)
    qed
  qed
  show "rank_vector ` rank_multisets = {q. quinary 13 5 q}"
  proof (intro subset_antisym subsetI)
    fix q assume "q \<in> rank_vector ` rank_multisets"
    then show "q \<in> {q. quinary 13 5 q}"
      using sum_counts by (auto simp: quinary_def rank_multisets_def rank_vector_def)
  next
    fix q assume "q \<in> {q. quinary 13 5 q}"
    then have q: "length q = 13" "\<forall>v\<in>set q. v \<le> 4" "sum_list q = 5" by (simp_all add: quinary_def)
    define M where "M = (\<Sum>r\<leftarrow>[0..<13]. replicate_mset (q ! r) (r + 2))"
    have cM: "count M r = (if 2 \<le> r \<and> r \<le> 14 then q ! (r - 2) else 0)" for r
    proof -
      have "count M r = (\<Sum>s\<in>{0..<13}. if s + 2 = r then q ! s else 0)"
        unfolding M_def
        by (simp only: sum_set_upt_conv_sum_list_nat [symmetric] atLeastLessThan_upt [symmetric] count_sum count_replicate_mset)
          (rule sum.cong, auto)
      then show ?thesis by (cases "2 \<le> r") (auto simp: sum.delta' dest: le_Suc_ex)
    qed
    have v: "rank_vector M = q"
      using q(1) by (intro nth_equalityI) (auto simp: rank_vector_def cM)
    have sub: "set_mset M \<subseteq> {2..14}"
      using cM by (auto simp: not_in_iff [symmetric] simp flip: count_greater_zero_iff split: if_splits)
    have "size M = 5"
      using sum_counts [OF sub] v q(3) by (simp add: rank_vector_def)
    moreover have "count M r \<le> 4" for r using q by (auto simp: cM)
    ultimately have "M \<in> rank_multisets" using sub by (simp add: rank_multisets_def)
    with v show "q \<in> rank_vector ` rank_multisets" by blast
  qed
qed

lemma card_strengths: "length seen_scores = 7462"
proof -
  let ?H = "{h. hand_of 2 h}" and ?S = "{S. S \<subseteq> {2..14 :: nat} \<and> Finite_Set.card S = 5}"
  have fin: "finite ?S" by (rule finite_subset [of _ "Pow {2..14}"]) auto
  have inj: "inj_on mset_set ?S"
    by (rule inj_onI) (metis (no_types, lifting) finite_atLeastAtMost finite_set_mset_mset_set finite_subset mem_Collect_eq)
  have "finite rank_multisets" using bij_betw_finite [OF rank_vector_bij] finite_quinary by blast
  have "length seen_scores = Finite_Set.card (evaluate5 ` ?H)"
    by (metis distinct_card distinct_remdups seen_scores_def set_seen_scores)
  also have "\<dots> = Finite_Set.card (strength_class ` ?H)"
    using finite_hands by (intro card_same_kernel) (simp_all add: evaluate5_eq_iff)
  also have "\<dots> = Finite_Set.card (rank_multisets \<times> {False}) + Finite_Set.card (mset_set ` ?S \<times> {True})"
    unfolding strength_classes using fin \<open>finite rank_multisets\<close> by (intro card_Un_disjoint) auto
  also have "Finite_Set.card (rank_multisets \<times> {False}) = 6175"
    using bij_betw_same_card [OF rank_vector_bij] by (simp add: card_cartesian_product card_quinary ways_13_5)
  also have "Finite_Set.card (mset_set ` ?S \<times> {True}) = Finite_Set.card ?S"
    using inj by (simp add: card_cartesian_product card_image)
  also have "Finite_Set.card ?S = 13 choose 5"
    by (subst n_subsets) simp_all
  also have "\<dots> = 1287" by (simp add: numeral_nat binomial_Suc_Suc)
  finally show ?thesis by simp
qed

section \<open>The numbering is strictly monotone\<close>

definition strength_order_list :: "u32 list" where
  "strength_order_list = sort seen_scores"

lemma rank_all_hands_returns: "rank_all_hands = Some strength_order_list"
  by (simp add: rank_all_hands_def card_strengths strength_order_list_def)

lemma strength_order_list [simp]:
  "length strength_order_list = 7462" "distinct strength_order_list" "sorted strength_order_list"
  "set strength_order_list = evaluate5 ` {h. hand_of 2 h}"
  by (simp_all add: strength_order_list_def card_strengths set_seen_scores) (simp add: seen_scores_def)

definition strength :: "u32 \<Rightarrow> nat" where
  "strength s = the (order_value strength_order_list s)"

lemma order_value_strength:
  assumes "s \<in> set strength_order_list"
  obtains i where "i < 7462" and "strength_order_list ! i = s" and "strength s = Suc i"
    and "order_value strength_order_list s = Some (Suc i)"
proof -
  obtain i where i: "index_of s strength_order_list = Some i" using index_of_mem [OF assms] ..
  from index_of_Some [OF i] have "i < 7462" "strength_order_list ! i = s" by simp_all
  then show thesis using that i by (simp add: order_value_def strength_def)
qed

lemma strength_less_iff:
  assumes "s \<in> set strength_order_list" and "s' \<in> set strength_order_list"
  shows "strength s < strength s' \<longleftrightarrow> s < s'"
proof -
  obtain i where i: "i < 7462" "strength_order_list ! i = s" "strength s = Suc i"
    using order_value_strength [OF assms(1)] .
  obtain j where j: "j < 7462" "strength_order_list ! j = s'" "strength s' = Suc j"
    using order_value_strength [OF assms(2)] .
  have mono: "strength_order_list ! a < strength_order_list ! b" if "a < b" "b < 7462" for a b
    using that sorted_wrt_nth_less [of "(<)" strength_order_list a b] by (simp add: strict_sorted_iff)
  show ?thesis using i j mono [of i j] mono [of j i] by (cases i j rule: linorder_cases) auto
qed

lemma best_value:
  assumes "5 \<le> length cards" and "distinct cards" and "\<forall>c\<in>set cards. valid_card c"
  obtains h where "h \<in> hands_in cards" and "hand_of 2 h" and "\<forall>h'\<in>hands_in cards. evaluate5 h' \<le> evaluate5 h"
    and "best_loop evaluate5 cards (length cards) [0, 1, 2, 3, 4] 0 = Some (evaluate5 h)"
    and "Option.bind (best_loop evaluate5 cards (length cards) [0, 1, 2, 3, 4] 0) (order_value strength_order_list)
      = Some (strength (evaluate5 h))"
proof -
  have v: "\<forall>c\<in>set cards. valid_card c \<and> 5 - 3 \<le> rank c" using assms(3) by (auto simp: valid_card_def)
  obtain h where h: "h \<in> hands_in cards" "hand_of 2 h" "\<forall>h'\<in>hands_in cards. evaluate5 h' \<le> evaluate5 h"
    "best_loop evaluate5 cards (length cards) [0, 1, 2, 3, 4] 0 = Some (evaluate5 h)"
    using standard.best_is_hand [OF assms(1,2) v] by (auto simp: standard_evaluate)
  have "evaluate5 h \<in> set strength_order_list" using h(2) by auto
  then have "order_value strength_order_list (evaluate5 h) = Some (strength (evaluate5 h))"
    using order_value_strength by metis
  with h that show thesis by simp
qed

section \<open>The cards of a rank vector\<close>

definition deal_all :: "nat list \<Rightarrow> card list" where
  "deal_all rs = map (\<lambda>i. Card (2 + rs ! i) (i mod 4)) [0..<length rs]"

definition used_after :: "nat \<Rightarrow> nat list" where
  "used_after n = map (\<lambda>s. (n + 3 - s) div 4) [0..<4]"

lemma four: "[0..<4] = [0, 1, 2, 3 :: nat]" "[Suc 0..<4] = [1, 2, 3 :: nat]"
  by (simp_all add: upt_rec)

lemma quarters:
  "Suc (4 * k) div 4 = k" "Suc (Suc (4 * k)) div 4 = k" "Suc (Suc (Suc (4 * k))) div 4 = k"
  "Suc (4 * k) mod 4 = 1" "Suc (Suc (4 * k)) mod 4 = 2" "Suc (Suc (Suc (4 * k))) mod 4 = 3"
  by presburger+

lemma used_after_eq:
  "used_after (4 * k) = [k, k, k, k]" "used_after (4 * k + 1) = [k + 1, k, k, k]"
  "used_after (4 * k + 2) = [k + 1, k + 1, k, k]" "used_after (4 * k + 3) = [k + 1, k + 1, k + 1, k]"
  "used_after (4 * k + 4) = [k + 1, k + 1, k + 1, k + 1]"
  unfolding used_after_def four by (simp_all add: quarters)

lemma used_after_next:
  "least_used (used_after n) = n mod 4 \<and>
   (used_after n)[n mod 4 := used_after n ! (n mod 4) + 1] = used_after (Suc n)"
proof -
  obtain k j where n: "n = 4 * k + j" and "j < 4"
    using mult_div_mod_eq [of 4 n] by (metis mod_less_divisor zero_less_numeral)
  then consider "j = 0" | "j = 1" | "j = 2" | "j = 3" by linarith
  then show ?thesis
  proof cases
    case 1
    then have "n = 4 * k" "Suc n = 4 * k + 1" "n mod 4 = 0" using n by simp_all
    then show ?thesis by (simp only: used_after_eq) (simp add: least_used_def four)
  next
    case 2
    then have "n = 4 * k + 1" "Suc n = 4 * k + 2" "n mod 4 = 1" using n by (simp_all add: quarters)
    then show ?thesis by (simp only: used_after_eq) (simp add: least_used_def four)
  next
    case 3
    then have "n = 4 * k + 2" "Suc n = 4 * k + 3" "n mod 4 = 2" using n by (simp_all add: quarters)
    then show ?thesis by (simp only: used_after_eq) (simp add: least_used_def four)
  next
    case 4
    then have "n = 4 * k + 3" "Suc n = 4 * k + 4" "n mod 4 = 3" using n by presburger+
    then show ?thesis by (simp only: used_after_eq) (simp add: least_used_def four)
  qed
qed

lemma deal_copy_step:
  "deal_copy r (deal_all rs, used_after (length rs)) = (deal_all (rs @ [r]), used_after (length (rs @ [r])))"
  using used_after_next [of "length rs"]
  by (simp add: deal_copy_def Let_def deal_all_def nth_append)

lemma deal_copies:
  "(deal_copy r ^^ n) (deal_all rs, used_after (length rs)) =
     (deal_all (rs @ replicate n r), used_after (length (rs @ replicate n r)))"
proof (induction n)
  case (Suc n)
  then show ?case
    using deal_copy_step [of r "rs @ replicate n r"] by (simp add: replicate_append_same)
qed simp

definition vector_ranks :: "nat list \<Rightarrow> nat list" where
  "vector_ranks q = concat (map (\<lambda>r. replicate (q ! r) r) [0..<13])"

lemma deal_vector:
  "fold (\<lambda>r. deal_copy r ^^ (q ! r)) ks (deal_all rs, used_after (length rs)) =
     (let rs' = rs @ concat (map (\<lambda>r. replicate (q ! r) r) ks) in (deal_all rs', used_after (length rs')))"
proof (induction ks arbitrary: rs)
  case (Cons r ks)
  show ?case
    using Cons [of "rs @ replicate (q ! r) r"] by (simp add: deal_copies Let_def)
qed (simp add: Let_def)

lemma sorted_vector_ranks: "sorted (concat (map (\<lambda>r. replicate (q r) r) [a..<b]))"
  by (induction b) (auto simp: sorted_append)

lemma count_vector_ranks:
  "count_list (concat (map (\<lambda>r. replicate (q r) r) [0..<b])) r = (if r < b then q r else 0)"
proof (induction b)
  case (Suc b)
  have "count_list (replicate n s) r = (if s = r then n else 0)" for n s
    by (induction n) auto
  with Suc show ?case by auto
qed simp

lemma length_vector_ranks: "length (concat (map (\<lambda>r. replicate (q r) r) [0..<b])) = (\<Sum>r\<leftarrow>[0..<b]. q r)"
  by (induction b) simp_all

lemma vector_ranks:
  assumes "quinary 13 7 q"
  shows "length (vector_ranks q) = 7" and "sorted (vector_ranks q)"
    and "\<And>r. count_list (vector_ranks q) r = (if r < 13 then q ! r else 0)"
proof -
  have "(\<Sum>r\<leftarrow>[0..<13]. q ! r) = 7"
    using assms map_nth [of q] by (simp add: quinary_def)
  then show "length (vector_ranks q) = 7" by (simp only: vector_ranks_def length_vector_ranks)
  show "sorted (vector_ranks q)" unfolding vector_ranks_def by (rule sorted_vector_ranks)
  show "count_list (vector_ranks q) r = (if r < 13 then q ! r else 0)" for r
    unfolding vector_ranks_def by (rule count_vector_ranks)
qed

lemma cards_for_quinary_eq:
  assumes "quinary 13 7 q"
  shows "cards_for_quinary q = Some (deal_all (vector_ranks q))"
proof -
  have "fold (\<lambda>r. deal_copy r ^^ (q ! r)) [0..<13] ([], [0, 0, 0, 0]) =
      (deal_all (vector_ranks q), used_after (length (vector_ranks q)))"
    using deal_vector [of q "[0..<13]" "[]"]
    by (simp add: Let_def vector_ranks_def deal_all_def used_after_def four del: upt_rec_numeral)
  moreover have "used_after 7 = [2, 2, 2, 1]" by (simp add: used_after_def four)
  ultimately show ?thesis
    using vector_ranks(1) [OF assms] by (simp add: cards_for_quinary_def deal_all_def)
qed

lemma sorted_run:
  assumes "sorted xs" and "i + 4 \<le> j" and "j < length xs" and "xs ! i = xs ! j"
  shows "5 \<le> count_list xs (xs ! i)"
proof -
  have eq: "xs ! k = xs ! i" if "i \<le> k" "k \<le> j" for k
    using that assms sorted_nth_mono [of xs i k] sorted_nth_mono [of xs k j] by simp
  have "count_list xs (xs ! i) = length (filter ((=) (xs ! i)) xs)" by (simp add: count_list_eq_length_filter)
  also have "\<dots> = Finite_Set.card {k. k < length xs \<and> xs ! i = xs ! k}" by (simp add: length_filter_conv_card)
  also have "\<dots> \<ge> Finite_Set.card {i..i + 4}"
  proof (rule card_mono)
    show "{i..i + 4} \<subseteq> {k. k < length xs \<and> xs ! i = xs ! k}"
    proof
      fix k assume "k \<in> {i..i + 4}"
      then have "i \<le> k" "k \<le> j" using assms(2) by simp_all
      with eq [OF this] assms(3) show "k \<in> {k. k < length xs \<and> xs ! i = xs ! k}" by simp
    qed
  qed simp
  finally show ?thesis by simp
qed

lemma deal_all_hands:
  assumes "quinary 13 7 q"
  shows "distinct (deal_all (vector_ranks q))" and "\<forall>c\<in>set (deal_all (vector_ranks q)). valid_card c"
    and "\<forall>h\<in>hands_in (deal_all (vector_ranks q)). \<not> one_suit h"
proof -
  let ?rs = "vector_ranks q" and ?cs = "deal_all (vector_ranks q)"
  note vr = vector_ranks [OF assms]
  have no5: "count_list ?rs r \<le> 4" for r using assms by (simp add: vr quinary_def)
  show d: "distinct ?cs"
    unfolding deal_all_def distinct_map
  proof (intro conjI inj_onI)
    fix i j
    assume ij: "i \<in> set [0..<length ?rs]" "j \<in> set [0..<length ?rs]"
      and "Card (2 + ?rs ! i) (i mod 4) = Card (2 + ?rs ! j) (j mod 4)"
    then have eq: "?rs ! i = ?rs ! j" "i mod 4 = j mod 4" by simp_all
    have False if "i < j" "j < length ?rs" "?rs ! i = ?rs ! j" "i mod 4 = j mod 4" for i j
    proof -
      have "4 dvd j - i" using that(1,4) mod_eq_dvd_iff_nat [of i j 4] by simp
      then have "i + 4 \<le> j" using dvd_imp_le [of 4 "j - i"] that(1) by simp
      from sorted_run [OF vr(2) this that(2,3)] no5 [of "?rs ! i"] show False by simp
    qed
    with eq ij show "i = j" by (metis atLeastLessThan_iff linorder_neqE_nat set_upt)
  qed simp
  have "r < 13" if "r \<in> set ?rs" for r
    using that vr(3) [of r] count_list_0_iff [of ?rs r] by (auto split: if_splits)
  then have "?rs ! i \<le> 12" if "i < length ?rs" for i
    using that by (metis less_Suc_eq_le nth_mem eval_nat_numeral(3))
  then show "\<forall>c\<in>set ?cs. valid_card c" by (auto simp: deal_all_def valid_card_def)
  show "\<forall>h\<in>hands_in ?cs. \<not> one_suit h"
  proof (intro ballI notI)
    fix h assume h: "h \<in> hands_in ?cs" and s: "one_suit h"
    then have "h \<noteq> []" by (auto simp: hands_in_def)
    then obtain c where c: "c \<in> set h" by (meson list.set_sel(1))
    have "\<forall>x\<in>set h. suit x = suit c" using s c unfolding one_suit_def by blast
    then have "set h \<subseteq> {x \<in> set ?cs. suit x = suit c}" using hands_in_set [OF h] by blast
    then have "Finite_Set.card (set h) \<le> Finite_Set.card {x \<in> set ?cs. suit x = suit c}"
      by (intro card_mono) auto
    moreover have "Finite_Set.card (set h) = 5"
      using hands_in_distinct [OF h d] h by (simp add: distinct_card hands_in_def)
    moreover have "Finite_Set.card {x \<in> set ?cs. suit x = suit c} \<le> Finite_Set.card {i \<in> {..<7}. i mod 4 = suit c}"
    proof -
      have "{x \<in> set ?cs. suit x = suit c} = (\<lambda>i. Card (2 + ?rs ! i) (i mod 4)) ` {i \<in> {..<7}. i mod 4 = suit c}"
        by (auto simp: deal_all_def vr(1))
      then show ?thesis by (simp add: card_image_le)
    qed
    moreover have "Finite_Set.card {i \<in> {..<7 :: nat}. i mod 4 = suit c} \<le> 2"
    proof -
      have "{i \<in> {..<7 :: nat}. i mod 4 = suit c} \<subseteq> {suit c, suit c + 4}" by auto presburger
      then show ?thesis by (rule order_trans [OF card_mono [rotated]]) (simp_all add: card_insert_if)
    qed
    ultimately show False by simp
  qed
qed

lemma set_vectors: "set (vectors n k) = {q. quinary n k q}"
proof (induction n arbitrary: k)
  case (Suc n)
  have "q \<in> set (vectors (Suc n) k) \<longleftrightarrow> (\<exists>v\<in>{0..<Suc (min 4 k)}. q \<in> (#) v ` {q. quinary n (k - v) q})" for q
    by (simp only: vectors.simps set_concat set_map set_upt Suc image_image) blast
  also have "\<dots> q \<longleftrightarrow> quinary (Suc n) k q" for q
    by (cases q) (auto simp: quinary_Cons quinary_def [of "Suc n" k "[]"])
  finally show ?case by blast
qed (auto simp: quinary_def)

lemma distinct_vectors: "distinct (vectors n k)"
proof (induction n arbitrary: k)
  case (Suc n)
  have "distinct (concat (map (\<lambda>v. map ((#) v) (vectors n (k - v))) [0..<m]))" for m
    using Suc by (induction m) (auto simp: distinct_map)
  then show ?case by (simp only: vectors.simps)
qed simp

section \<open>The generator does not panic, and what its tables hold\<close>

text \<open>The strength of the best hand among some cards.\<close>

definition best_strength :: "card list \<Rightarrow> nat" where
  "best_strength cards = strength (the (best_n cards))"

lemma best_strength:
  assumes "5 \<le> length cards" and "distinct cards" and "\<forall>c\<in>set cards. valid_card c"
  shows "Option.bind (best_n cards) (order_value strength_order_list) = Some (best_strength cards)"
proof -
  obtain h where "best_n cards = Some (evaluate5 h)"
    "Option.bind (best_n cards) (order_value strength_order_list) = Some (strength (evaluate5 h))"
    using best_value [OF assms] unfolding best_n_def by metis
  then show ?thesis by (simp add: best_strength_def)
qed

definition no_flush_strength :: "nat list \<Rightarrow> nat" where
  "no_flush_strength q = best_strength (deal_all (vector_ranks q))"

lemma no_flush_entry:
  assumes "quinary 13 7 q"
  shows "no_flush_entry strength_order_list q = Some (no_flush_strength q)"
proof -
  have len: "length (deal_all (vector_ranks q)) = 7" using vector_ranks(1) [OF assms] by (simp add: deal_all_def)
  then have "ref_best7 (deal_all (vector_ranks q)) = best_n (deal_all (vector_ranks q))"
    by (simp add: ref_best7_def best_n_def)
  then show ?thesis
    using best_strength [of "deal_all (vector_ranks q)"] len deal_all_hands [OF assms]
    by (simp add: no_flush_entry_def cards_for_quinary_eq [OF assms] no_flush_strength_def)
qed

lemma hash_less: "quinary 13 7 q \<Longrightarrow> hash q < 49205"
  using lex_index_less [of 13 7 q] by (simp add: hash_lex ways_13_7)

lemma hash_inject: "quinary 13 7 q \<Longrightarrow> quinary 13 7 q' \<Longrightarrow> hash q = hash q' \<Longrightarrow> q = q'"
  using lex_index_inject [of 13 7 q q'] by (simp add: hash_lex)

lemma fill_table_returns:
  assumes "\<forall>q\<in>set qs. quinary 13 7 q" and "distinct qs"
    and "length table = 49205" and "length filled = 49205" and "\<forall>q\<in>set qs. \<not> filled ! hash q"
  shows "\<exists>table' filled'. fill_table strength_order_list qs table filled = Some (table', filled') \<and>
    length table' = 49205 \<and> length filled' = 49205 \<and>
    (\<forall>q\<in>set qs. table' ! hash q = no_flush_strength q \<and> filled' ! hash q) \<and>
    (\<forall>i<49205. i \<notin> hash ` set qs \<longrightarrow> table' ! i = table ! i \<and> filled' ! i = filled ! i)"
  using assms
proof (induction qs arbitrary: table filled)
  case (Cons q qs)
  let ?t = "table[hash q := no_flush_strength q]" and ?f = "filled[hash q := True]"
  have q: "quinary 13 7 q" "hash q < 49205" using Cons.prems(1) hash_less by simp_all
  have new: "hash r \<noteq> hash q" if "r \<in> set qs" for r
    using that Cons.prems(1,2) hash_inject by force
  have "\<forall>r\<in>set qs. \<not> ?f ! hash r"
    using Cons.prems(5) new by (metis list.set_intros(2) nth_list_update_neq)
  with Cons.IH [of ?t ?f] Cons.prems obtain table' filled' where
    step: "fill_table strength_order_list qs ?t ?f = Some (table', filled')" and
    len: "length table' = 49205" "length filled' = 49205" and
    hits: "\<forall>q\<in>set qs. table' ! hash q = no_flush_strength q \<and> filled' ! hash q" and
    rest: "\<forall>i<49205. i \<notin> hash ` set qs \<longrightarrow> table' ! i = ?t ! i \<and> filled' ! i = ?f ! i"
    by auto
  have "hash q \<notin> hash ` set qs" using new by (metis imageE)
  then have "table' ! hash q = no_flush_strength q" "filled' ! hash q"
    using rest q(2) Cons.prems(3,4) by simp_all
  moreover have "fill_table strength_order_list (q # qs) table filled = Some (table', filled')"
    using q step Cons.prems(5) by (simp add: Let_def no_flush_entry)
  moreover have "\<forall>i<49205. i \<notin> hash ` set (q # qs) \<longrightarrow> table' ! i = table ! i \<and> filled' ! i = filled ! i"
    using rest by simp
  ultimately show ?case using len hits by (intro exI [of _ table'] exI [of _ filled']) simp
qed simp

lemma build_no_flush_table_returns:
  obtains table where "build_no_flush_table strength_order_list = Some table"
    and "\<And>q. quinary 13 7 q \<Longrightarrow> table ! hash q = no_flush_strength q"
proof -
  have free: "\<forall>q\<in>set (vectors 13 7). \<not> replicate 49205 False ! hash q"
    using hash_less by (simp only: set_vectors mem_Collect_eq nth_replicate) simp
  have all: "\<forall>q\<in>set (vectors 13 7). quinary 13 7 q" by (simp only: set_vectors mem_Collect_eq) simp
  obtain table filled where
    fill: "fill_table strength_order_list (vectors 13 7) (replicate 49205 0) (replicate 49205 False) = Some (table, filled)"
    and len: "length filled = 49205"
    and hit: "\<forall>q\<in>set (vectors 13 7). table ! hash q = no_flush_strength q \<and> filled ! hash q"
    using fill_table_returns [OF all distinct_vectors _ _ free, of "replicate 49205 0"]
    by (simp only: length_replicate) blast
  have "filled ! i" if "i < 49205" for i
  proof -
    obtain q where "quinary 13 7 q" "lex_index 13 q 7 = i"
      using lex_index_onto [of i 13 7] \<open>i < 49205\<close> by (auto simp: ways_13_7)
    then show ?thesis using hit hash_lex [of q] by (auto simp: set_vectors simp del: vectors.simps)
  qed
  then have "\<forall>b\<in>set filled. b" using len by (auto simp: in_set_conv_nth)
  then have "build_no_flush_table strength_order_list = Some table"
    using fill by (auto simp: build_no_flush_table_def)
  moreover have "table ! hash q = no_flush_strength q" if "quinary 13 7 q" for q
    using hit that by (simp add: set_vectors del: vectors.simps)
  ultimately show thesis using that by blast
qed

lemma mask_bits:
  assumes "(m :: nat) < 2 ^ 13"
  shows "filter (bit m) [0..<32] = filter (bit m) [0..<13]"
proof -
  have "\<not> bit m r" if "13 \<le> r" for r
    using assms that by (metis bit_take_bit_iff linorder_not_less take_bit_nat_eq_self)
  moreover have "[0..<32 :: nat] = [0..<13] @ [13..<32]" using upt_add_eq_append [of 0 13 19] by simp
  ultimately show ?thesis by (simp only: filter_append) (simp add: filter_empty_conv)
qed

lemma mask_cards_hands:
  "distinct (mask_cards m) \<and> (\<forall>c\<in>set (mask_cards m). valid_card c) \<and> (\<forall>h\<in>hands_in (mask_cards m). one_suit h)"
proof (intro conjI)
  show "distinct (mask_cards m)" by (auto simp: mask_cards_def distinct_map inj_on_def)
  show "\<forall>c\<in>set (mask_cards m). valid_card c" by (auto simp: mask_cards_def valid_card_def)
  have three: "suit c = 3" if "c \<in> set (mask_cards m)" for c using that by (auto simp: mask_cards_def)
  have "suit c = suit d" if "h \<in> hands_in (mask_cards m)" "c \<in> set h" "d \<in> set h" for h c d
  proof -
    have "c \<in> set (mask_cards m)" "d \<in> set (mask_cards m)" using hands_in_set [OF that(1)] that by blast+
    then show ?thesis by (simp add: three)
  qed
  then show "\<forall>h\<in>hands_in (mask_cards m). one_suit h" unfolding one_suit_def by blast
qed

definition flush_strength :: "nat \<Rightarrow> nat" where
  "flush_strength m = (if length (mask_cards m) < 5 then 0 else best_strength (mask_cards m))"

lemma build_flush_table_returns:
  "build_flush_table strength_order_list = Some (map flush_strength [0..<2 ^ 13])"
proof -
  have "flush_entry strength_order_list m = Some (flush_strength m)" if "m < 2 ^ 13" for m
  proof -
    have n: "ones_count m = length (mask_cards m)"
      by (simp only: ones_count_def mask_bits [OF that] mask_cards_def length_map)
    show ?thesis
    proof (cases "length (mask_cards m) < 5")
      case False
      then show ?thesis
        using best_strength [of "mask_cards m"] mask_cards_hands [of m]
        by (simp add: flush_entry_def n flush_strength_def)
    qed (simp add: flush_entry_def n flush_strength_def)
  qed
  then show ?thesis unfolding build_flush_table_def by (subst those_map_Some_iff) auto
qed

lemma build_category_table_nth:
  assumes "length order = 7462"
  shows "length (build_category_table order) = 7463 \<and> build_category_table order ! 0 = 0 \<and>
    (\<forall>i<7462. build_category_table order ! Suc i = unat (drop_bit 24 (order ! i)))"
proof -
  let ?step = "\<lambda>table (i, s :: u32). table[Suc i := unat (drop_bit 24 s)]"
  have gen: "length (foldl ?step t (enumerate k xs)) = length t \<and>
      (\<forall>j<length t. foldl ?step t (enumerate k xs) ! j =
         (if k < j \<and> j - Suc k < length xs then unat (drop_bit 24 (xs ! (j - Suc k))) else t ! j))"
    if "k + length xs < length t" for t k xs
    using that
  proof (induction xs arbitrary: t k)
    case (Cons x xs)
    then show ?case
      using Cons.IH [of "Suc k" "t[Suc k := unat (drop_bit 24 x)]"]
      by (auto simp: nth_list_update nth_Cons Suc_diff_Suc split: nat.splits)
        (metis Suc_diff_Suc Suc_inject)
  qed simp
  show ?thesis
    using gen [of 0 order "replicate 7463 0"] assms by (simp add: build_category_table_def)
qed

section \<open>Hands of one suit and hands of several\<close>

lemma evaluate5_nth_ranks:
  assumes "map rank cs = map rank cs'" and "length idx = 5" and "\<forall>i\<in>set idx. i < length cs"
    and "one_suit (map ((!) cs) idx) \<longleftrightarrow> one_suit (map ((!) cs') idx)"
  shows "evaluate5 (map ((!) cs) idx) = evaluate5 (map ((!) cs') idx)"
proof -
  have len: "length cs = length cs'" using assms(1) by (metis length_map)
  have "map rank (map ((!) cs) idx) = map ((!) (map rank cs)) idx"
    using assms(3) by (simp add: nth_map)
  also have "\<dots> = map rank (map ((!) cs') idx)"
    using assms(3) len unfolding assms(1) by (simp add: nth_map)
  finally show ?thesis
    using classify_ranks [OF _ assms(4)] by (simp add: evaluate5_def)
qed

text \<open>Two lists of cards with the same ranks in order, all of whose hands are of one suit, or none of them.\<close>

lemma same_hands:
  assumes "map rank cs = map rank cs'"
    and "\<forall>h\<in>hands_in cs. one_suit h = b" and "\<forall>h\<in>hands_in cs'. one_suit h = b"
  shows "evaluate5 ` hands_in cs = evaluate5 ` hands_in cs'"
proof -
  have len: "length cs = length cs'" using assms(1) by (metis length_map)
  have "evaluate5 (map ((!) cs) idx) = evaluate5 (map ((!) cs') idx)" if idx: "subset_index (length cs) idx" for idx
  proof (rule evaluate5_nth_ranks [OF assms(1)])
    have "map ((!) cs) idx \<in> hands_in cs" "map ((!) cs') idx \<in> hands_in cs'"
      using index_submset [of idx cs] index_submset [of idx cs'] idx len
      by (simp_all add: subset_index_def hands_in_def)
    then show "one_suit (map ((!) cs) idx) = one_suit (map ((!) cs') idx)" using assms(2,3) by blast
  qed (use idx in \<open>simp_all add: subset_index_def\<close>)
  then have "(\<lambda>x. evaluate5 (map ((!) cs) x)) ` {x. subset_index (length cs) x} =
      (\<lambda>x. evaluate5 (map ((!) cs') x)) ` {x. subset_index (length cs') x}"
    unfolding len by (intro image_cong) auto
  then show ?thesis
    using image_subset_index [of evaluate5 cs, OF evaluate5_perm]
      image_subset_index [of evaluate5 cs', OF evaluate5_perm] by simp
qed

lemma best_n_hands:
  "5 \<le> length cards \<Longrightarrow> best_n cards = Some (Max (insert 0 (evaluate5 ` hands_in cards)))"
  unfolding best_n_def by (rule best_loop_hands [OF _ evaluate5_perm])

lemma best_n_same:
  assumes "5 \<le> length cs" and "map rank cs = map rank cs'"
    and "\<forall>h\<in>hands_in cs. one_suit h = b" and "\<forall>h\<in>hands_in cs'. one_suit h = b"
  shows "best_n cs = best_n cs'"
proof -
  have "5 \<le> length cs'" using assms(1,2) by (metis length_map)
  with assms(1) same_hands [OF assms(2-4)] show ?thesis by (simp add: best_n_hands)
qed

lemma best_n_perm: "mset cs = mset cs' \<Longrightarrow> 5 \<le> length cs \<Longrightarrow> best_n cs = best_n cs'"
  using mset_eq_length [of cs cs'] by (simp add: best_n_hands hands_in_def)

section \<open>With seven cards a flush beats everything else\<close>

lemma off_suit_count:
  assumes "distinct h"
  shows "mult h r \<le> Suc (length (filter (\<lambda>c. rank c = r \<and> suit c \<noteq> s) h))"
proof -
  have "mult h r = length (filter (\<lambda>c. rank c = r) h)"
    by (induction h) (auto simp: mult_def)
  also have "\<dots> = length (filter (\<lambda>c. rank c = r \<and> suit c \<noteq> s) h) + length (filter (\<lambda>c. c = Card r s) h)"
    by (induction h) (auto intro: card.expand)
  also have "length (filter (\<lambda>c. c = Card r s) h) \<le> 1"
    using assms by (induction h) (auto simp: filter_empty_conv)
  finally show ?thesis by simp
qed

lemma off_suit_two:
  assumes "r \<noteq> r'"
  shows "length (filter (\<lambda>c. rank c = r \<and> suit c \<noteq> s) h) + length (filter (\<lambda>c. rank c = r' \<and> suit c \<noteq> s) h)
    \<le> length (filter (\<lambda>c. suit c \<noteq> s) h)"
  using assms by (induction h) auto

lemma off_suit_one:
  "length (filter (\<lambda>c. rank c = r \<and> suit c \<noteq> s) h) \<le> length (filter (\<lambda>c. suit c \<noteq> s) h)"
  by (induction h) auto

lemma filter_sub_length: "mset h \<subseteq># mset cs \<Longrightarrow> length (filter P h) \<le> length (filter P cs)"
  by (metis mset_filter multiset_filter_mono size_mset size_mset_mono)

text \<open>A hand with at most two cards outside the suit \<open>s\<close> and of more than one suit is below a flush.\<close>

lemma below_flush:
  assumes "hand_of 2 h" and "length (filter (\<lambda>c. suit c \<noteq> s) h) \<le> 2" and "\<not> one_suit h"
  shows "poker_category 5 h < Flush"
proof -
  have d: "distinct h" using assms(1) by (simp add: hand_of_def)
  have "kinds h 4 = []"
  proof (rule ccontr)
    assume "kinds h 4 \<noteq> []"
    then obtain r where "r \<in> set (kinds h 4)" by (meson list.set_sel(1))
    then have "mult h r = 4" by (rule mult_kinds)
    then show False using off_suit_count [OF d, of r s] off_suit_one [of r s h] assms(2) by linarith
  qed
  moreover have "kinds h 3 = [] \<or> kinds h 2 = []"
  proof (rule ccontr)
    assume "\<not> (kinds h 3 = [] \<or> kinds h 2 = [])"
    then obtain r r' where "r \<in> set (kinds h 3)" "r' \<in> set (kinds h 2)" by (meson list.set_sel(1))
    then have m: "mult h r = 3" "mult h r' = 2" by (simp_all add: mult_kinds)
    then have "r \<noteq> r'" by auto
    then show False
      using m off_suit_count [OF d, of r s] off_suit_count [OF d, of r' s] off_suit_two [of r r' s h] assms(2)
      by linarith
  qed
  ultimately show ?thesis
    using assms(3) by (auto simp: poker_category_def less_category_def)
qed

lemma flush_at_least:
  assumes "hand_of 2 h" and "one_suit h"
  shows "Flush \<le> poker_category 5 h"
  using one_suit_category [OF assms(1)] assms(2) by (auto simp: less_eq_category_def)

lemma flush_decides:
  assumes "distinct cs" and "\<forall>c\<in>set cs. valid_card c" and "length cs \<le> 7"
    and "5 \<le> length (filter (\<lambda>c. suit c = s) cs)"
  shows "best_n cs = best_n (filter (\<lambda>c. suit c = s) cs)"
proof -
  let ?F = "filter (\<lambda>c. suit c = s) cs"
  have valid: "\<forall>c\<in>set cs. valid_card c \<and> 2 \<le> rank c" using assms(2) by (auto simp: valid_card_def)
  have off: "length (filter (\<lambda>c. suit c \<noteq> s) cs) \<le> 2"
    using assms(3,4) sum_length_filter_compl [of "\<lambda>c. suit c = s" cs] by simp
  have len: "5 \<le> length cs" using assms(4) length_filter_le [of "\<lambda>c. suit c = s" cs] by linarith
  have sub: "hands_in ?F \<subseteq> hands_in cs"
    using multiset_filter_subset [of "\<lambda>c. suit c = s" "mset cs"]
    by (auto simp: hands_in_def intro: subset_mset.order_trans)
  have "mset (take 5 ?F) \<subseteq># mset ?F"
    using mset_append [of "take 5 ?F" "drop 5 ?F"] by (simp add: mset_subset_eq_exists_conv del: mset_append)
  then have f: "take 5 ?F \<in> hands_in ?F" using assms(4) by (simp add: hands_in_def)
  have bound: "evaluate5 h \<le> Max (evaluate5 ` hands_in ?F)" if h: "h \<in> hands_in cs" for h
  proof (cases "\<forall>c\<in>set h. suit c = s")
    case True
    then have "filter (\<lambda>c. suit c = s) h = h" by (simp add: filter_id_conv)
    then have "mset h \<subseteq># mset ?F"
      using h multiset_filter_mono [of "mset h" "mset cs" "\<lambda>c. suit c = s"] unfolding hands_in_def
      by (metis (mono_tags, lifting) mem_Collect_eq mset_filter)
    then have "h \<in> hands_in ?F" using h by (simp add: hands_in_def)
    then show ?thesis using finite_hands_in by simp
  next
    case False
    let ?f = "take 5 ?F"
    have hh: "hand_of 2 h" "hand_of 2 ?f"
      using hands_in_hand [OF assms(1) valid] h f sub by blast+
    have "\<not> one_suit h"
    proof
      assume "one_suit h"
      then have "\<forall>c\<in>set h. suit c \<noteq> s" using False unfolding one_suit_def by metis
      then have "length (filter (\<lambda>c. suit c \<noteq> s) h) = 5" using hh(1) by (simp add: hand_of_def)
      then show False using filter_sub_length [of h cs "\<lambda>c. suit c \<noteq> s"] h off by (simp add: hands_in_def)
    qed
    moreover have "length (filter (\<lambda>c. suit c \<noteq> s) h) \<le> 2"
      using filter_sub_length [of h cs "\<lambda>c. suit c \<noteq> s"] h off by (simp add: hands_in_def)
    ultimately have "poker_category 5 h < Flush" by (intro below_flush [OF hh(1)])
    moreover have s: "\<forall>c\<in>set ?f. suit c = s" using set_take_subset [of 5 ?F] by auto
    have "one_suit ?f"
      unfolding one_suit_def
    proof (intro ballI)
      fix c d assume "c \<in> set ?f" "d \<in> set ?f"
      then have "suit c = s" "suit d = s" using s by blast+
      then show "suit c = suit d" by (rule trans [OF _ sym])
    qed
    then have "Flush \<le> poker_category 5 ?f" by (rule flush_at_least [OF hh(2)])
    ultimately have "evaluate5 h < evaluate5 ?f"
      using evaluate5_less [OF hh] by (auto simp: poker_key_def)
    also have "evaluate5 ?f \<le> Max (evaluate5 ` hands_in ?F)" using f finite_hands_in by simp
    finally show ?thesis by simp
  qed
  have ne: "hands_in ?F \<noteq> {}" "hands_in cs \<noteq> {}" using f sub by auto
  have "Max (evaluate5 ` hands_in cs) = Max (evaluate5 ` hands_in ?F)"
  proof (rule antisym)
    show "Max (evaluate5 ` hands_in cs) \<le> Max (evaluate5 ` hands_in ?F)"
      using bound ne finite_hands_in by simp
    show "Max (evaluate5 ` hands_in ?F) \<le> Max (evaluate5 ` hands_in cs)"
      using sub ne finite_hands_in by (intro Max_mono) auto
  qed
  then show ?thesis
    using len assms(4) ne finite_hands_in by (simp add: best_n_hands)
qed

end
