(* ===== verification/Hand_Eval.thy ===== *)
theory Hand_Eval
  imports Table_Gen
begin

text \<open>
  The table-driven evaluator every showdown uses: \<open>api/internal/engine/handeval/handeval.go\<close>,
  \<open>packed.go\<close> and \<open>tables.go\<close>. A card contributes to an additive \<open>uint64\<close> key (its rank weight and a
  four-bit counter of its suit) and to a mask with one lane of ranks per suit. The result is a dense
  strength. The main lemma is that over the generated tables it is the number of the
  reference evaluator's score, so that showdowns compare hands as poker does.
\<close>

type_synonym u64 = "64 word"

section \<open>The table blob\<close>

definition le16_bytes :: "nat \<Rightarrow> bytes" where
  "le16_bytes v = [of_nat v, of_nat (v div 2 ^ 8)]"

definition le32_bytes :: "nat \<Rightarrow> bytes" where
  "le32_bytes v = [of_nat v, of_nat (v div 2 ^ 8), of_nat (v div 2 ^ 16), of_nat (v div 2 ^ 24)]"

fun le32 :: "bytes \<Rightarrow> nat" where
  "le32 (a # b # c # d # _) = unat a + 2 ^ 8 * unat b + 2 ^ 16 * unat c + 2 ^ 24 * unat d"
| "le32 _ = 0"

definition tables_magic :: bytes where
  "tables_magic = [0x50, 0x48, 0x45, 0x31]"

text \<open>What the generator writes.\<close>

definition table_blob :: "score_tables \<Rightarrow> bytes" where
  "table_blob T = tables_magic @ le32_bytes (length (flush_table T)) @ le32_bytes (length (no_flush_table T)) @
     le32_bytes (length (category_table T)) @ concat (map le16_bytes (flush_table T)) @
     concat (map le16_bytes (no_flush_table T)) @ map of_nat (category_table T)"

datatype table_error = NotATableBlob | WrongTableSizes nat nat | WrongBlobLength nat nat

fun decode_u16 :: "bytes \<Rightarrow> nat list" where
  "decode_u16 (a # b # rest) = (unat a + 2 ^ 8 * unat b) # decode_u16 rest"
| "decode_u16 _ = []"

definition load_tables :: "bytes \<Rightarrow> table_error + score_tables" where
  "load_tables blob =
     (if length blob < 16 \<or> take 4 blob \<noteq> tables_magic then Inl NotATableBlob
      else let header = take 12 (drop 4 blob);
               n_flush = le32 header; n_no_flush = le32 (drop 4 header); n_category = le32 (drop 8 header)
           in if n_flush \<noteq> 2 ^ 13 \<or> n_no_flush \<noteq> 49205 then Inl (WrongTableSizes n_flush n_no_flush)
              else let want = 16 + 2 * n_flush + 2 * n_no_flush + n_category
                   in if length blob \<noteq> want then Inl (WrongBlobLength (length blob) want)
                      else let body = drop 16 blob
                           in Inr \<lparr>flush_table = decode_u16 (take (2 * n_flush) body),
                                no_flush_table = decode_u16 (take (2 * n_no_flush) (drop (2 * n_flush) body)),
                                category_table = map unat (drop (2 * n_flush + 2 * n_no_flush) body)\<rparr>)"

section \<open>Packed cards\<close>

record packed_card =
  pc_key :: u64
  pc_mask :: u64

definition card_id :: "card \<Rightarrow> nat" where
  "card_id c = ((rank c + 254) mod 256 * 4 + suit c) mod 256"

definition card_from_id :: "nat \<Rightarrow> card" where
  "card_from_id i = Card (drop_bit 2 i + 2) (i AND 3)"

definition packed_card_of :: "nat \<Rightarrow> packed_card" where
  "packed_card_of i = (let r = drop_bit 2 i; s = i AND 3
     in \<lparr>pc_key = of_nat (rank_weight r) + push_bit (36 + 4 * s) 1, pc_mask = push_bit (16 * s + r) 1\<rparr>)"

definition suit_bias :: u64 where
  "suit_bias = push_bit 36 0x3333"

definition flush_counter_mask :: u64 where
  "flush_counter_mask = push_bit 36 0x8888"

definition packed_rank_mask :: u64 where
  "packed_rank_mask = push_bit 36 1 - 1"

definition suited_rank_mask :: u64 where
  "suited_rank_mask = push_bit 13 1 - 1"

definition trailing_zeros :: "u64 \<Rightarrow> nat" where
  "trailing_zeros w = (case List.find (bit w) [0..<64] of None \<Rightarrow> 64 | Some i \<Rightarrow> i)"

definition packed_score :: "score_tables \<Rightarrow> u64 \<Rightarrow> u64 \<Rightarrow> nat" where
  "packed_score T key msk =
     (let flush = (key + suit_bias) AND flush_counter_mask
      in if flush \<noteq> 0
         then let shift = (trailing_zeros flush - (36 + 4 - 1)) * (16 div 4)
              in flush_table T ! unat (drop_bit shift msk AND suited_rank_mask)
         else no_flush_table T ! rank_index (unat (key AND packed_rank_mask)))"

section \<open>The evaluator\<close>

fun best7_scan :: "card list \<Rightarrow> u64 \<Rightarrow> u64 \<Rightarrow> (u64 \<times> u64) option" where
  "best7_scan [] key msk = Some (key, msk)"
| "best7_scan (c # cs) key msk =
     (if rank c < 2 \<or> rank c > 14 \<or> suit c > 3 then None
      else let p = packed_card_of (card_id c)
           in if msk AND pc_mask p \<noteq> 0 then None
              else best7_scan cs (key + pc_key p) (msk OR pc_mask p))"

definition best7 :: "score_tables \<Rightarrow> card list \<Rightarrow> nat" where
  "best7 T cards = (case best7_scan cards 0 0 of None \<Rightarrow> 0 | Some (key, msk) \<Rightarrow> packed_score T key msk)"

text \<open>\<open>Score.Category\<close>, as its number; a score outside the table is a high card.\<close>

definition dense_category :: "score_tables \<Rightarrow> nat \<Rightarrow> nat" where
  "dense_category T s = (if length (category_table T) \<le> s then 0 else category_table T ! s)"

record board_state =
  bs_key :: u64
  bs_mask :: u64

definition add_card_id :: "nat \<Rightarrow> board_state \<Rightarrow> board_state" where
  "add_card_id i b = (let p = packed_card_of i
     in b\<lparr>bs_key := bs_key b + pc_key p, bs_mask := bs_mask b OR pc_mask p\<rparr>)"

definition add_card :: "card \<Rightarrow> board_state \<Rightarrow> board_state" where
  "add_card c b = add_card_id (card_id c) b"

definition eval2_ids :: "score_tables \<Rightarrow> board_state \<Rightarrow> nat \<Rightarrow> nat \<Rightarrow> nat" where
  "eval2_ids T b i j =
     (let c = packed_card_of i; d = packed_card_of j
      in packed_score T (bs_key b + pc_key c + pc_key d) (bs_mask b OR (pc_mask c OR pc_mask d)))"

definition eval2 :: "score_tables \<Rightarrow> board_state \<Rightarrow> card \<Rightarrow> card \<Rightarrow> nat" where
  "eval2 T b c d = eval2_ids T b (card_id c) (card_id d)"

section \<open>The blob round trip\<close>

lemma unat_byte: "unat (of_nat n :: byte) = n mod 256"
  by (simp add: unat_of_nat take_bit_eq_mod)

lemma decode_le16: "\<forall>v\<in>set vs. v < 2 ^ 16 \<Longrightarrow> decode_u16 (concat (map le16_bytes vs)) = vs"
proof (induction vs)
  case (Cons v vs)
  then have "v div 256 < 256" by (simp add: less_mult_imp_div_less)
  with Cons show ?case by (simp add: le16_bytes_def unat_byte)
qed simp

lemma le32_le32_bytes:
  assumes "v < 2 ^ 32"
  shows "le32 (le32_bytes v @ rest) = v"
proof -
  have "v mod 256 + 256 * (v div 256 mod 256) = v mod 65536"
    using mod_mult2_eq [of v 256 256] by simp
  moreover have "v mod 65536 + 65536 * (v div 65536 mod 256) = v mod 16777216"
    using mod_mult2_eq [of v 65536 256] by simp
  moreover have "v mod 16777216 + 16777216 * (v div 16777216 mod 256) = v"
    using mod_mult2_eq [of v 16777216 256] assms by simp
  ultimately show ?thesis by (simp add: le32_bytes_def unat_byte)
qed

lemma length_le_bytes [simp]: "length (le16_bytes v) = 2" "length (le32_bytes v) = 4"
  by (simp_all add: le16_bytes_def le32_bytes_def)

lemma length_concat_le16 [simp]: "length (concat (map le16_bytes vs)) = 2 * length vs"
  by (induction vs) simp_all

lemma load_table_blob:
  assumes "length (flush_table T) = 2 ^ 13" and "length (no_flush_table T) = 49205" and "length (category_table T) < 2 ^ 32"
    and "\<forall>v\<in>set (flush_table T). v < 2 ^ 16" and "\<forall>v\<in>set (no_flush_table T). v < 2 ^ 16"
    and "\<forall>v\<in>set (category_table T). v < 2 ^ 8"
  shows "load_tables (table_blob T) = Inr T"
proof -
  let ?F = "concat (map le16_bytes (flush_table T))" and ?N = "concat (map le16_bytes (no_flush_table T))"
  let ?C = "map of_nat (category_table T) :: bytes"
  define hd where "hd = le32_bytes (length (flush_table T)) @ le32_bytes (length (no_flush_table T)) @
     le32_bytes (length (category_table T))"
  have hl: "length hd = 12" by (simp add: hd_def)
  have blob: "table_blob T = tables_magic @ hd @ ?F @ ?N @ ?C"
    by (simp add: table_blob_def hd_def)
  have magic: "length tables_magic = 4" by (simp add: tables_magic_def)
  have header: "take 12 (drop 4 (table_blob T)) = hd" "drop 16 (table_blob T) = ?F @ ?N @ ?C"
    "take 4 (table_blob T) = tables_magic"
    unfolding blob using hl magic by simp_all
  have n: "le32 hd = 2 ^ 13" "le32 (drop 4 hd) = 49205" "le32 (drop 8 hd) = length (category_table T)"
    using le32_le32_bytes [of "length (flush_table T)"] le32_le32_bytes [of "length (no_flush_table T)"]
      le32_le32_bytes [of "length (category_table T)" "[]"] assms(1,2,3)
    by (simp_all add: hd_def)
  have len: "length (table_blob T) = 16 + 2 * 2 ^ 13 + 2 * 49205 + length (category_table T)"
    unfolding blob using hl magic assms(1,2) by simp
  have cut: "take (2 * 2 ^ 13) (?F @ ?N @ ?C) = ?F" "take (2 * 49205) (drop (2 * 2 ^ 13) (?F @ ?N @ ?C)) = ?N"
    "drop (2 * 2 ^ 13 + 2 * 49205) (?F @ ?N @ ?C) = ?C"
    using assms(1,2) by simp_all
  have cats: "map unat ?C = category_table T"
    using assms(6) by (simp add: comp_def unat_byte map_idI)
  show ?thesis
    unfolding load_tables_def Let_def header n len
    by (simp only: cut cats decode_le16 [OF assms(4)] decode_le16 [OF assms(5)]) simp
qed

section \<open>Card identifiers\<close>

lemma card_id_valid: "valid_card c \<Longrightarrow> card_id c = (rank c - 2) * 4 + suit c \<and> card_id c < 52"
  by (auto simp: card_id_def valid_card_def mod_add_eq le_Suc_eq Suc_le_eq dest!: le_Suc_ex)

lemma and_3: "n AND 3 = n mod (4 :: nat)"
  using take_bit_eq_mask [of 2 n] by (simp add: take_bit_eq_mod mask_eq_exp_minus_1)

lemma card_id_parts:
  assumes "valid_card c"
  shows "drop_bit 2 (card_id c) = rank c - 2" and "card_id c AND 3 = suit c"
  using card_id_valid [OF assms] assms
  by (simp_all add: drop_bit_eq_div and_3 valid_card_def)

lemma card_from_id_card_id: "valid_card c \<Longrightarrow> card_from_id (card_id c) = c"
  by (cases c) (auto simp: card_from_id_def card_id_parts valid_card_def)

lemma card_id_card_from_id: "i < 52 \<Longrightarrow> valid_card (card_from_id i) \<and> card_id (card_from_id i) = i"
  by (simp add: card_from_id_def card_id_def valid_card_def drop_bit_eq_div and_3 less_mult_imp_div_less)
    presburger

section \<open>The key as a number\<close>

definition key_value :: "card list \<Rightarrow> nat" where
  "key_value cs = (\<Sum>c\<leftarrow>cs. rank_weight (rank c - 2) + 2 ^ (36 + 4 * suit c))"

definition lane_bit :: "card \<Rightarrow> nat" where
  "lane_bit c = 16 * suit c + (rank c - 2)"

definition lane_mask :: "card list \<Rightarrow> u64" where
  "lane_mask cs = foldr (\<lambda>c m. push_bit (lane_bit c) 1 OR m) cs 0"

lemma packed_card_valid:
  assumes "valid_card c"
  shows "pc_key (packed_card_of (card_id c)) = of_nat (rank_weight (rank c - 2) + 2 ^ (36 + 4 * suit c))"
    and "pc_mask (packed_card_of (card_id c)) = push_bit (lane_bit c) 1"
  using assms by (simp_all add: packed_card_of_def Let_def card_id_parts lane_bit_def push_bit_eq_mult)

lemma lane_bit_less: "valid_card c \<Longrightarrow> lane_bit c < 64"
  unfolding lane_bit_def valid_card_def by linarith

lemma lane_bit_inject:
  assumes "valid_card c" and "valid_card d" and "lane_bit c = lane_bit d"
  shows "c = d"
proof -
  have parts: "lane_bit c div 16 = suit c \<and> lane_bit c mod 16 = rank c - 2" if "valid_card c" for c
  proof -
    have "(16 * s + k) div 16 = s \<and> (16 * s + k) mod 16 = k" if "k < 16" for s k :: nat
      using that by simp
    moreover have "rank c - 2 < 16" using that unfolding valid_card_def by linarith
    ultimately show ?thesis unfolding lane_bit_def by blast
  qed
  have "suit c = suit d" "rank c - 2 = rank d - 2"
    using parts [OF assms(1)] parts [OF assms(2)] assms(3) by simp_all
  moreover have "2 \<le> rank c" "2 \<le> rank d" using assms(1,2) by (simp_all add: valid_card_def)
  ultimately show ?thesis by (intro card.expand) linarith
qed

lemma bit_lane_mask:
  assumes "\<forall>c\<in>set cs. valid_card c"
  shows "bit (lane_mask cs) n \<longleftrightarrow> (\<exists>c\<in>set cs. n = lane_bit c)"
  using assms
proof (induction cs)
  case (Cons c cs)
  have "bit (push_bit (lane_bit c) 1 :: u64) n \<longleftrightarrow> n = lane_bit c"
    using lane_bit_less [of c] Cons.prems by (auto simp: bit_simps)
  with Cons show ?case by (simp add: lane_mask_def bit_or_iff)
qed (simp add: lane_mask_def)

lemma lane_free:
  assumes "\<forall>d\<in>set (c # cs). valid_card d"
  shows "lane_mask cs AND push_bit (lane_bit c) 1 \<noteq> 0 \<longleftrightarrow> c \<in> set cs"
proof -
  have "lane_mask cs AND push_bit (lane_bit c) 1 \<noteq> 0 \<longleftrightarrow> bit (lane_mask cs) (lane_bit c)"
    by (simp add: and_exp_eq_0_iff_not_bit push_bit_eq_mult)
  also have "\<dots> \<longleftrightarrow> c \<in> set cs"
    using assms lane_bit_inject by (subst bit_lane_mask) (simp_all, blast)
  finally show ?thesis .
qed

lemma lane_mask_snoc: "lane_mask (cs @ [c]) = lane_mask cs OR push_bit (lane_bit c) 1"
  by (induction cs) (simp_all add: lane_mask_def or.assoc)

lemma best7_scan_eq:
  assumes "\<forall>c\<in>set ds. valid_card c" and "distinct ds"
  shows "best7_scan cs (of_nat (key_value ds)) (lane_mask ds) =
    (if (\<forall>c\<in>set cs. valid_card c) \<and> distinct (ds @ cs)
     then Some (of_nat (key_value (ds @ cs)), lane_mask (ds @ cs)) else None)"
  using assms
proof (induction cs arbitrary: ds)
  case (Cons c cs)
  show ?case
  proof (cases "valid_card c")
    case False
    then show ?thesis by (auto simp: valid_card_def)
  next
    case True
    then have r: "\<not> (rank c < 2 \<or> rank c > 14 \<or> suit c > 3)" by (simp add: valid_card_def)
    have "(lane_mask ds AND pc_mask (packed_card_of (card_id c)) \<noteq> 0) = (c \<in> set ds)"
      using lane_free [of c ds] True Cons.prems by (simp add: packed_card_valid)
    moreover have "of_nat (key_value ds) + pc_key (packed_card_of (card_id c)) = of_nat (key_value (ds @ [c]))"
      by (simp add: packed_card_valid True key_value_def)
    moreover have "lane_mask ds OR pc_mask (packed_card_of (card_id c)) = lane_mask (ds @ [c])"
      by (simp add: packed_card_valid True lane_mask_snoc)
    ultimately show ?thesis
      using Cons.IH [of "ds @ [c]"] Cons.prems True r by (simp add: Let_def)
  qed
qed simp

lemma best7_eq:
  "best7 T cs = (if (\<forall>c\<in>set cs. valid_card c) \<and> distinct cs
     then packed_score T (of_nat (key_value cs)) (lane_mask cs) else 0)"
  using best7_scan_eq [of "[]" cs] by (simp add: best7_def key_value_def lane_mask_def)

section \<open>Reading the key\<close>

definition ranks_vector :: "card list \<Rightarrow> nat list" where
  "ranks_vector cs = map (\<lambda>r. mult cs (r + 2)) [0..<13]"

definition suit_count :: "card list \<Rightarrow> nat \<Rightarrow> nat" where
  "suit_count cs s = length (filter (\<lambda>c. suit c = s) cs)"

lemma mult_Cons: "mult (c # cs) r = (if rank c = r then 1 else 0) + mult cs r"
  by (simp add: mult_def)

lemma key_value_split:
  assumes "\<forall>c\<in>set cs. valid_card c"
  shows "key_value cs = rank_key (ranks_vector cs) +
    2 ^ 36 * (suit_count cs 0 + 16 * suit_count cs 1 + 256 * suit_count cs 2 + 4096 * suit_count cs 3)"
  using assms
proof (induction cs)
  case Nil
  show ?case by (simp add: key_value_def rank_key_def ranks_vector_def mult_def suit_count_def sum_list_0)
next
  case (Cons c cs)
  have rk: "rank_key (ranks_vector ds) = (\<Sum>r\<leftarrow>[0..<13]. mult ds (r + 2) * rank_weight r)" for ds
    unfolding rank_key_def ranks_vector_def by (intro arg_cong [where f = sum_list] map_cong) auto
  have "(\<Sum>r\<leftarrow>[0..<13]. (if rank c = r + 2 then 1 else 0) * rank_weight r) = rank_weight (rank c - 2)"
  proof -
    have "(\<Sum>r\<leftarrow>[0..<13]. (if rank c = r + 2 then 1 else 0) * rank_weight r) =
        (\<Sum>r\<in>{0..<13}. if r = rank c - 2 then rank_weight r else 0)"
      using Cons.prems unfolding sum_set_upt_conv_sum_list_nat [symmetric] atLeastLessThan_upt [symmetric]
      by (intro sum.cong) (auto simp: valid_card_def)
    also have "\<dots> = rank_weight (rank c - 2)" using Cons.prems by (subst sum.delta) (auto simp: valid_card_def)
    finally show ?thesis .
  qed
  then have "rank_key (ranks_vector (c # cs)) = rank_weight (rank c - 2) + rank_key (ranks_vector cs)"
    by (simp only: rk mult_Cons add_mult_distrib sum_list_addf)
  moreover have "suit c = 0 \<or> suit c = 1 \<or> suit c = 2 \<or> suit c = 3"
    using Cons.prems by (auto simp: valid_card_def)
  ultimately show ?case
    using Cons by (auto simp: key_value_def suit_count_def)
qed

lemma suit_counts:
  assumes "\<forall>c\<in>set cs. valid_card c"
  shows "suit_count cs 0 + suit_count cs 1 + suit_count cs 2 + suit_count cs 3 = length cs"
  using assms
proof (induction cs)
  case (Cons c cs)
  moreover have "suit c = 0 \<or> suit c = 1 \<or> suit c = 2 \<or> suit c = 3"
    using Cons.prems by (auto simp: valid_card_def)
  ultimately show ?case by (auto simp: suit_count_def)
qed (simp add: suit_count_def)

lemma ranks_vector_quinary:
  assumes "\<forall>c\<in>set cs. valid_card c" and "distinct cs" and "length cs = n"
  shows "quinary 13 n (ranks_vector cs)"
proof -
  have "sum_list (ranks_vector cs) = size (mset (map rank cs))"
    unfolding ranks_vector_def mult_def count_mset [symmetric]
    using assms(1) by (intro sum_counts) (auto simp: valid_card_def)
  then show ?thesis
    using assms mult_le_4 [OF assms(2,1)] by (auto simp: quinary_def ranks_vector_def)
qed

lemma rank_key_less:
  assumes "quinary 13 7 q"
  shows "rank_key q < 2 ^ 36"
proof -
  have "rank_key q = base5 (take 6 q) + 2 ^ 16 * base5 (drop 6 q)"
    using assms by (simp add: rank_key_split quinary_def)
  moreover have "\<forall>v\<in>set (take 6 q). v \<le> 4" "\<forall>v\<in>set (drop 6 q). v \<le> 4" "length (take 6 q) = 6" "length (drop 6 q) = 7"
    using assms by (auto simp: quinary_def dest: in_set_takeD in_set_dropD)
  then have "base5 (take 6 q) < 5 ^ 6" "base5 (drop 6 q) < 5 ^ 7" using base5_less by metis+
  ultimately show ?thesis by simp
qed

section \<open>The suit counters\<close>

lemma le_3: "s \<le> (3 :: nat) \<longleftrightarrow> s = 0 \<or> s = 1 \<or> s = 2 \<or> s = 3"
  by auto

lemma ex_le_3: "(\<exists>s\<le>3. P s) \<longleftrightarrow> P 0 \<or> P 1 \<or> P 2 \<or> P (3 :: nat)"
  by (auto simp: le_3)

lemma odd_digit:
  fixes a x :: nat
  assumes "a < 16"
  shows "odd ((a + 16 * x) div 8) \<longleftrightarrow> 8 \<le> a"
proof -
  have "(a + 16 * x) div 8 = a div 8 + 2 * x" by (simp add: algebra_simps)
  moreover have "odd (a div 8) \<longleftrightarrow> 8 \<le> a"
  proof (cases "8 \<le> a")
    case True
    then have "a div 8 = 1" using assms by simp
    then show ?thesis using True by simp
  qed simp
  ultimately show ?thesis by simp
qed

lemma counter_bits:
  fixes N d0 d1 d2 d3 R :: nat
  assumes "R < 2 ^ 36" and "d0 < 16" and "d1 < 16" and "d2 < 16" and "d3 < 16"
    and "N = R + 2 ^ 36 * (d0 + 16 * d1 + 256 * d2 + 4096 * d3)"
  shows "bit N 39 \<longleftrightarrow> 8 \<le> d0" and "bit N 43 \<longleftrightarrow> 8 \<le> d1" and "bit N 47 \<longleftrightarrow> 8 \<le> d2" and "bit N 51 \<longleftrightarrow> 8 \<le> d3"
proof -
  let ?M = "d0 + 16 * (d1 + 16 * (d2 + 16 * d3))"
  have N: "N div 2 ^ 36 = ?M"
    using assms(1) unfolding assms(6) by (subst div_mult_self2) (simp_all add: algebra_simps)
  have b: "bit N (36 + k) \<longleftrightarrow> odd (?M div 2 ^ k)" for k
    by (simp only: bit_iff_odd power_add div_mult2_eq N)
  have m: "(a + 16 * x) div 2 ^ (4 + k) = x div 2 ^ k" if "a < 16" for a x k :: nat
    using that by (simp add: power_add div_mult2_eq)
  note m1 = m [OF assms(2)] and m2 = m [OF assms(3)] and m3 = m [OF assms(4)]
  have e8: "(2 :: nat) ^ 3 = 8" by simp
  have "bit N (36 + 3) \<longleftrightarrow> 8 \<le> d0" by (simp only: b e8 odd_digit [OF assms(2)])
  then show "bit N 39 \<longleftrightarrow> 8 \<le> d0" by simp
  have "bit N (36 + (4 + 3)) \<longleftrightarrow> 8 \<le> d1" by (simp only: b m1 e8 odd_digit [OF assms(3)])
  then show "bit N 43 \<longleftrightarrow> 8 \<le> d1" by simp
  have "bit N (36 + (4 + (4 + 3))) \<longleftrightarrow> 8 \<le> d2" by (simp only: b m1 m2 e8 odd_digit [OF assms(4)])
  then show "bit N 47 \<longleftrightarrow> 8 \<le> d2" by simp
  have "bit N (36 + (4 + (4 + (4 + 3)))) \<longleftrightarrow> odd ((d3 + 16 * 0) div 8)" by (simp only: b m1 m2 m3 e8) simp
  then show "bit N 51 \<longleftrightarrow> 8 \<le> d3" by (simp only: odd_digit [OF assms(5)]) simp
qed

lemma flush_counter_bit: "bit flush_counter_mask n \<longleftrightarrow> n = 39 \<or> n = 43 \<or> n = 47 \<or> n = 51"
proof -
  have eq: "flush_counter_mask = push_bit 39 1 OR (push_bit 43 1 OR (push_bit 47 1 OR push_bit 51 1))"
    by (simp add: flush_counter_mask_def push_bit_eq_mult)
  show ?thesis unfolding eq bit_or_iff bit_push_bit_iff bit_1_iff possible_bit_word by auto
qed

definition flagged :: "card list \<Rightarrow> u64" where
  "flagged cs = (of_nat (key_value cs) + suit_bias) AND flush_counter_mask"

lemma flagged_bit:
  assumes "\<forall>c\<in>set cs. valid_card c" and "distinct cs" and "length cs = 7"
  shows "bit (flagged cs) n \<longleftrightarrow> (\<exists>s\<le>3. n = 39 + 4 * s \<and> 5 \<le> suit_count cs s)"
proof -
  let ?d = "\<lambda>s. suit_count cs s + 3"
  define N where "N = rank_key (ranks_vector cs) + 2 ^ 36 * (?d 0 + 16 * ?d 1 + 256 * ?d 2 + 4096 * ?d 3)"
  have le: "?d s < 16" for s
    using length_filter_le [of "\<lambda>c. suit c = s" cs] assms(3) by (simp add: suit_count_def)
  have R: "rank_key (ranks_vector cs) < 2 ^ 36"
    using rank_key_less ranks_vector_quinary [OF assms(1,2,3)] by blast
  have kv: "N = key_value cs + 2 ^ 36 * 0x3333"
    unfolding N_def key_value_split [OF assms(1)] by simp
  have "suit_bias = of_nat (2 ^ 36 * 0x3333)" by (simp add: suit_bias_def push_bit_eq_mult)
  then have sum: "of_nat (key_value cs) + suit_bias = (of_nat N :: u64)" by (simp only: kv of_nat_add)
  have "bit (flagged cs) n \<longleftrightarrow> n < 64 \<and> bit N n \<and> (n = 39 \<or> n = 43 \<or> n = 47 \<or> n = 51)"
    unfolding flagged_def sum by (simp only: bit_and_iff flush_counter_bit bit_of_nat_iff) auto
  also have "\<dots> \<longleftrightarrow> (n = 39 \<and> 8 \<le> ?d 0) \<or> (n = 43 \<and> 8 \<le> ?d 1) \<or> (n = 47 \<and> 8 \<le> ?d 2) \<or> (n = 51 \<and> 8 \<le> ?d 3)"
    using counter_bits [OF R le le le le N_def] by auto
  also have "\<dots> \<longleftrightarrow> (\<exists>s\<le>3. n = 39 + 4 * s \<and> 5 \<le> suit_count cs s)"
    unfolding ex_le_3 by auto
  finally show ?thesis .
qed

lemma one_flush_suit:
  assumes "\<forall>c\<in>set cs. valid_card c" and "length cs = 7" and "5 \<le> suit_count cs s" and "5 \<le> suit_count cs t"
  shows "s = t"
proof (rule ccontr)
  assume "s \<noteq> t"
  then have "suit_count cs s + suit_count cs t \<le> length cs"
    unfolding suit_count_def by (induction cs) auto
  with assms(2-4) show False by simp
qed

lemma trailing_zeros_single:
  assumes "i < 64" and "\<And>n. bit w n \<longleftrightarrow> n = i"
  shows "trailing_zeros w = i"
proof (cases "List.find (bit w) [0..<64]")
  case None
  then have "\<forall>n\<in>set [0..<64]. \<not> bit w n" by (simp only: find_None_iff_all)
  moreover have "i \<in> set [0..<64]" using assms(1) unfolding set_upt by simp
  ultimately have "\<not> bit w i" by blast
  then show ?thesis using assms(2) [of i] by simp
next
  case (Some j)
  then show ?thesis using find_Some_mem [OF Some] assms(2) by (simp add: trailing_zeros_def)
qed

section \<open>The dense score\<close>

definition suit_lane :: "card list \<Rightarrow> nat \<Rightarrow> nat" where
  "suit_lane cs s = unat (drop_bit (16 * s) (lane_mask cs) AND suited_rank_mask)"

lemma suited_mask: "suited_rank_mask = mask 13" "packed_rank_mask = mask 36"
  by (simp_all add: suited_rank_mask_def packed_rank_mask_def mask_eq_exp_minus_1 push_bit_eq_mult)

lemma suit_lane_bit:
  assumes "\<forall>c\<in>set cs. valid_card c" and "s \<le> 3"
  shows "bit (suit_lane cs s) r \<longleftrightarrow> r < 13 \<and> Card (r + 2) s \<in> set cs"
proof -
  have "bit (suit_lane cs s) r \<longleftrightarrow> r < 13 \<and> bit (lane_mask cs) (16 * s + r)"
    by (auto simp: suit_lane_def suited_mask bit_unsigned_iff bit_and_iff bit_drop_bit_eq bit_mask_iff)
  also have "\<dots> \<longleftrightarrow> r < 13 \<and> Card (r + 2) s \<in> set cs"
  proof (cases "r < 13")
    case True
    then have v: "valid_card (Card (r + 2) s)" and b: "lane_bit (Card (r + 2) s) = 16 * s + r"
      using assms(2) by (simp_all add: valid_card_def lane_bit_def)
    have "(\<exists>c\<in>set cs. 16 * s + r = lane_bit c) \<longleftrightarrow> Card (r + 2) s \<in> set cs"
      using lane_bit_inject [OF v] assms(1) unfolding b [symmetric] by blast
    then show ?thesis by (simp only: bit_lane_mask [OF assms(1)])
  qed simp
  finally show ?thesis .
qed

lemma suit_lane_less: "suit_lane cs s < 2 ^ 13"
proof -
  have "suit_lane cs s = take_bit 13 (unat (drop_bit (16 * s) (lane_mask cs)))"
    unfolding suit_lane_def suited_mask take_bit_eq_mask [symmetric] by (simp add: unsigned_take_bit_eq)
  then show ?thesis by (simp only: take_bit_nat_less_exp)
qed

lemma packed_score_eq:
  assumes "\<forall>c\<in>set cs. valid_card c" and "distinct cs" and "length cs = 7"
  shows "packed_score T (of_nat (key_value cs)) (lane_mask cs) =
    (case List.find (\<lambda>s. 5 \<le> suit_count cs s) [0, 1, 2, 3] of
       Some s \<Rightarrow> flush_table T ! suit_lane cs s
     | None \<Rightarrow> no_flush_table T ! hash (ranks_vector cs))"
proof (cases "List.find (\<lambda>s. 5 \<le> suit_count cs s) [0, 1, 2, 3]")
  case None
  then have "\<not> 5 \<le> suit_count cs s" if "s \<le> 3" for s
    using that unfolding find_None_iff_all by (auto simp: le_3)
  then have flag: "flagged cs = 0"
    using flagged_bit [OF assms] by (auto simp: bit_eq_iff)
  have q: "quinary 13 7 (ranks_vector cs)" by (rule ranks_vector_quinary [OF assms])
  have kl: "key_value cs mod 2 ^ 36 = rank_key (ranks_vector cs)"
    unfolding key_value_split [OF assms(1)] using rank_key_less [OF q] by (simp only: mod_mult_self2 mod_less)
  have "unat (of_nat (key_value cs) AND packed_rank_mask :: u64) = key_value cs mod 2 ^ 36"
    unfolding suited_mask take_bit_eq_mask [symmetric]
    by (simp add: unsigned_take_bit_eq unat_of_nat take_bit_take_bit take_bit_eq_mod [where 'a = nat] mod_mod_cancel)
  then have "rank_index (unat (of_nat (key_value cs) AND packed_rank_mask :: u64)) = hash (ranks_vector cs)"
    by (simp only: kl rank_index_lex [OF q] hash_lex [OF q])
  then show ?thesis
    using None flag by (simp add: packed_score_def Let_def flagged_def)
next
  case (Some s)
  from find_Some_mem [OF this] have s: "s \<le> 3" "5 \<le> suit_count cs s" by auto
  have bits: "bit (flagged cs) n \<longleftrightarrow> n = 39 + 4 * s" for n
    using flagged_bit [OF assms, of n] s one_flush_suit [OF assms(1,3) s(2)] by blast
  then have "flagged cs \<noteq> 0" by (metis bit_0_eq bot_apply bot_bool_def)
  moreover have "trailing_zeros (flagged cs) = 39 + 4 * s"
    using s(1) by (intro trailing_zeros_single bits) simp
  ultimately show ?thesis
    using Some by (simp add: packed_score_def Let_def flagged_def [symmetric] suit_lane_def mult.commute)
qed

section \<open>The dense score is the number of the reference score\<close>

lemma gen_tables_returns:
  obtains T where "gen_tables = Some T" and "flush_table T = map flush_strength [0..<2 ^ 13]"
    and "length (no_flush_table T) = 49205" and "\<And>q. quinary 13 7 q \<Longrightarrow> no_flush_table T ! hash q = no_flush_strength q"
    and "category_table T = build_category_table strength_order_list"
proof -
  obtain table where t: "build_no_flush_table strength_order_list = Some table"
    "\<And>q. quinary 13 7 q \<Longrightarrow> table ! hash q = no_flush_strength q"
    using build_no_flush_table_returns by blast
  have "length table = 49205"
  proof -
    obtain filled where f: "fill_table strength_order_list (vectors 13 7) (replicate 49205 0) (replicate 49205 False) = Some (table, filled)"
      using t(1) by (auto simp: build_no_flush_table_def simp del: vectors.simps split: option.splits if_splits)
    have len: "length t' = length t0" if "fill_table order qs t0 f0 = Some (t', f')" for order qs t0 f0 t' f'
      using that by (induction order qs t0 f0 rule: fill_table.induct) (auto simp: Let_def split: if_splits option.splits)
    show ?thesis using len [OF f] by (simp only: length_replicate)
  qed
  with t that [of "\<lparr>flush_table = map flush_strength [0..<2 ^ 13], no_flush_table = table,
      category_table = build_category_table strength_order_list\<rparr>"]
  show thesis
    by (simp only: gen_tables_def rank_all_hands_returns option.case build_flush_table_returns score_tables.select_convs)
qed

lemma best_n_flush:
  assumes "\<forall>c\<in>set cs. valid_card c" and "distinct cs" and "length cs = 7" and "s \<le> 3" and "5 \<le> suit_count cs s"
  shows "best_n cs = best_n (mask_cards (suit_lane cs s)) \<and> 5 \<le> length (mask_cards (suit_lane cs s))"
proof -
  let ?F = "filter (\<lambda>c. suit c = s) cs" and ?m = "suit_lane cs s"
  let ?S = "sort_key rank ?F"
  have len: "5 \<le> length ?F" using assms(5) by (simp add: suit_count_def)
  have bits: "bit ?m r \<longleftrightarrow> r < 13 \<and> Card (r + 2) s \<in> set cs" for r
    by (rule suit_lane_bit [OF assms(1,4)])
  have "distinct (map rank ?F)"
    using assms(2) by (auto simp: distinct_map inj_on_def intro: card.expand)
  then have "distinct (map rank ?S)" unfolding map_rank_sort by simp
  moreover have "sorted (map rank ?S)" by simp
  moreover have "map rank (mask_cards ?m) = map ((+) 2) (filter (bit ?m) [0..<13])"
    by (simp add: mask_cards_def comp_def)
  then have "sorted (map rank (mask_cards ?m))" "distinct (map rank (mask_cards ?m))"
    by (simp_all add: sorted_map sorted_wrt_filter distinct_map inj_on_def del: upt_rec_numeral)
  moreover have "set (map rank ?S) = set (map rank (mask_cards ?m))"
  proof -
    have "r \<in> rank ` {c \<in> set cs. suit c = s} \<longleftrightarrow> r \<in> (+) 2 ` {r \<in> {0..<13}. bit ?m r}" for r
    proof
      assume "r \<in> rank ` {c \<in> set cs. suit c = s}"
      then obtain c where c: "c \<in> set cs" "suit c = s" "r = rank c" by blast
      then have v: "valid_card c" using assms(1) by blast
      then have "Card (rank c - 2 + 2) s = c" using c(2) by (cases c) (auto simp: valid_card_def)
      then have "bit ?m (rank c - 2)" using c(1) v by (simp add: bits valid_card_def) linarith
      moreover have "rank c - 2 < 13" "r = 2 + (rank c - 2)" using v c(3) unfolding valid_card_def by linarith+
      ultimately show "r \<in> (+) 2 ` {r \<in> {0..<13}. bit ?m r}" by auto
    next
      assume "r \<in> (+) 2 ` {r \<in> {0..<13}. bit ?m r}"
      then obtain k where "r = 2 + k" "bit ?m k" by blast
      then have "Card (k + 2) s \<in> set cs" "r = rank (Card (k + 2) s)" by (simp_all add: bits)
      then show "r \<in> rank ` {c \<in> set cs. suit c = s}" by force
    qed
    then show ?thesis by (auto simp: mask_cards_def simp del: upt_rec_numeral)
  qed
  ultimately have ranks: "map rank ?S = map rank (mask_cards ?m)" by (metis sorted_distinct_set_unique)
  have "\<forall>h\<in>hands_in ?S. one_suit h = True"
  proof (intro ballI)
    fix h assume h: "h \<in> hands_in ?S"
    have "suit c = s" if "c \<in> set h" for c using hands_in_set [OF h] that by auto
    then show "one_suit h = True" unfolding one_suit_def by metis
  qed
  moreover have "5 \<le> length ?S" using len by simp
  ultimately have "best_n ?S = best_n (mask_cards ?m)"
    using best_n_same [OF _ ranks, of True] mask_cards_hands [of ?m] by simp
  moreover have "best_n ?F = best_n ?S" by (rule best_n_perm) (use len in simp_all)
  moreover have "best_n cs = best_n ?F" by (rule flush_decides [OF assms(2,1)]) (use len assms(3) in simp_all)
  moreover have "length (mask_cards ?m) = length ?S" using ranks by (metis length_map)
  ultimately show ?thesis using len by simp
qed

lemma best_n_no_flush:
  assumes "\<forall>c\<in>set cs. valid_card c" and "distinct cs" and "length cs = 7"
    and "\<forall>s\<le>3. suit_count cs s < 5"
  shows "best_n cs = best_n (deal_all (vector_ranks (ranks_vector cs)))"
proof -
  let ?q = "ranks_vector cs" and ?S = "sort_key rank cs"
  let ?D = "deal_all (vector_ranks ?q)"
  have q: "quinary 13 7 ?q" by (rule ranks_vector_quinary [OF assms(1,2,3)])
  note vr = vector_ranks [OF q]
  have mD: "map rank ?D = map ((+) 2) (vector_ranks ?q)"
    by (rule nth_equalityI) (simp_all add: deal_all_def)
  have "sorted (map rank ?D)" unfolding mD using vr(2) by (simp add: sorted_map)
  moreover have "mset (map rank ?D) = mset (map rank cs)"
  proof (rule multiset_eqI)
    fix r
    have cl: "count_list (map ((+) 2) xs) r = (if 2 \<le> r then count_list xs (r - 2) else 0)" for xs :: "nat list"
      by (induction xs) auto
    have "mult cs r = 0" if "\<not> (2 \<le> r \<and> r \<le> 14)"
      using that assms(1) unfolding mult_def count_list_0_iff by (auto simp: valid_card_def)
    moreover have "?q ! (r - 2) = mult cs r" if "2 \<le> r" "r \<le> 14"
    proof -
      have "r - 2 < 13" "Suc (Suc (r - 2)) = r" using that by linarith+
      then show ?thesis by (simp add: ranks_vector_def)
    qed
    ultimately have "count_list (map rank ?D) r = mult cs r"
      unfolding mD cl vr(3) by auto
    then show "count (mset (map rank ?D)) r = count (mset (map rank cs)) r"
      unfolding count_mset mult_def .
  qed
  ultimately have ranks: "map rank ?S = map rank ?D"
    unfolding map_rank_sort by (intro properties_for_sort) simp_all
  have "\<not> one_suit h" if h: "h \<in> hands_in ?S" for h
  proof
    assume s: "one_suit h"
    have sub: "mset h \<subseteq># mset cs" and l: "length h = 5" using h by (simp_all add: hands_in_def)
    then obtain c where c: "c \<in> set h" by (cases h) auto
    have "c \<in> set cs" using hands_in_set [OF h] c by auto
    then have "suit c \<le> 3" using assms(1) by (simp add: valid_card_def)
    have "\<forall>d\<in>set h. suit d = suit c" using s c unfolding one_suit_def by blast
    then have "length (filter (\<lambda>d. suit d = suit c) h) = 5" using l by simp
    then have "5 \<le> suit_count cs (suit c)"
      using filter_sub_length [OF sub, of "\<lambda>d. suit d = suit c"] by (simp add: suit_count_def)
    with assms(4) \<open>suit c \<le> 3\<close> show False by fastforce
  qed
  then have "best_n ?S = best_n ?D"
    using best_n_same [OF _ ranks, of False] deal_all_hands(3) [OF q] assms(3) by simp
  moreover have "best_n cs = best_n ?S" by (rule best_n_perm) (use assms(3) in simp_all)
  ultimately show ?thesis by simp
qed

lemma best7_strength:
  assumes "gen_tables = Some T" and "\<forall>c\<in>set cs. valid_card c" and "distinct cs" and "length cs = 7"
  shows "best7 T cs = strength (the (ref_best7 cs))"
proof -
  obtain T' where T': "gen_tables = Some T'" and t: "flush_table T' = map flush_strength [0..<2 ^ 13]"
    "\<And>q. quinary 13 7 q \<Longrightarrow> no_flush_table T' ! hash q = no_flush_strength q"
    using gen_tables_returns by blast
  have T: "T' = T" using assms(1) T' by (metis option.inject)
  have q: "quinary 13 7 (ranks_vector cs)" by (rule ranks_vector_quinary [OF assms(2,3,4)])
  have r: "ref_best7 cs = best_n cs" by (simp add: ref_best7_def best_n_def assms(4))
  show ?thesis
  proof (cases "List.find (\<lambda>s. 5 \<le> suit_count cs s) [0, 1, 2, 3]")
    case None
    then have "\<forall>s\<le>3. suit_count cs s < 5"
      unfolding find_None_iff_all by (auto simp: le_3)
    from best_n_no_flush [OF assms(2,3,4) this] show ?thesis
      using assms(2,3) None t(2) [OF q] packed_score_eq [OF assms(2,3,4)]
      by (simp add: best7_eq no_flush_strength_def best_strength_def r T)
  next
    case (Some s)
    from find_Some_mem [OF this] have "s \<le> 3" "5 \<le> suit_count cs s" by auto
    note f = best_n_flush [OF assms(2,3,4) this]
    have "flush_table T ! suit_lane cs s = flush_strength (suit_lane cs s)"
      using t(1) suit_lane_less [of cs s] unfolding T by (simp del: upt_rec_numeral)
    with f show ?thesis
      using assms(2,3) Some packed_score_eq [OF assms(2,3,4), of T]
      by (simp add: best7_eq flush_strength_def best_strength_def r)
  qed
qed

section \<open>Properties\<close>

lemma strength_range:
  assumes "s \<in> set strength_order_list"
  shows "0 < strength s \<and> strength s \<le> 7462"
proof -
  obtain i where "i < 7462" "strength s = Suc i" using order_value_strength [OF assms] by metis
  then show ?thesis by simp
qed

lemma best_in_order:
  assumes "5 \<le> length cs" and "distinct cs" and "\<forall>c\<in>set cs. valid_card c"
  shows "the (best_n cs) \<in> set strength_order_list"
proof -
  obtain h where "hand_of 2 h" "best_n cs = Some (evaluate5 h)"
    using best_value [OF assms] unfolding best_n_def by metis
  then show ?thesis by auto
qed

lemma best_strength_range:
  "5 \<le> length cs \<Longrightarrow> distinct cs \<Longrightarrow> \<forall>c\<in>set cs. valid_card c \<Longrightarrow> best_strength cs \<le> 7462"
  unfolding best_strength_def using strength_range best_in_order by blast

text \<open>C34: the table generator succeeds. Enumerating the five-card hands of the deck finds exactly
  7462 scores, none of the generator's panics is reached, and the blob it writes is loaded back as
  exactly the tables it built.\<close>

theorem generator_succeeds:
  "\<exists>order T. rank_all_hands = Some order \<and> gen_tables = Some T \<and>
     length order = 7462 \<and> sorted order \<and> distinct order \<and> set order = evaluate5 ` {h. hand_of 2 h} \<and>
     load_tables (table_blob T) = Inr T"
proof -
  obtain T where T: "gen_tables = Some T" "flush_table T = map flush_strength [0..<2 ^ 13]"
    "length (no_flush_table T) = 49205" "\<And>q. quinary 13 7 q \<Longrightarrow> no_flush_table T ! hash q = no_flush_strength q"
    "category_table T = build_category_table strength_order_list"
    using gen_tables_returns by blast
  have "flush_strength m < 2 ^ 16" for m
    using best_strength_range [of "mask_cards m"] mask_cards_hands [of m]
    by (cases "length (mask_cards m) < 5") (auto simp: flush_strength_def)
  then have f: "\<forall>v\<in>set (flush_table T). v < 2 ^ 16" unfolding T(2) by auto
  have n: "no_flush_table T ! i < 2 ^ 16" if "i < 49205" for i
  proof -
    obtain q where q: "quinary 13 7 q" "lex_index 13 q 7 = i"
      using lex_index_onto [of i 13 7] \<open>i < 49205\<close> by (auto simp: ways_13_7)
    then have "no_flush_table T ! i = no_flush_strength q" using T(4) hash_lex by metis
    also have "\<dots> \<le> 7462"
      unfolding no_flush_strength_def using deal_all_hands [OF q(1)] vector_ranks(1) [OF q(1)]
      by (intro best_strength_range) (simp_all add: deal_all_def)
    finally show ?thesis by simp
  qed
  then have n': "\<forall>v\<in>set (no_flush_table T). v < 2 ^ 16" using T(3) by (auto simp: in_set_conv_nth)
  note cat = build_category_table_nth [of strength_order_list]
  have "category_table T ! i < 2 ^ 8" if "i < 7463" for i
  proof (cases i)
    case (Suc j)
    have "unat (drop_bit 24 s) < 2 ^ 8" for s :: u32
      using unsigned_less [where 'a = nat and w = s]
      by (simp add: unat_drop_bit_eq drop_bit_eq_div [where 'a = nat] less_mult_imp_div_less)
    then show ?thesis using cat that by (simp add: T(5) Suc)
  qed (use cat in \<open>simp add: T(5)\<close>)
  moreover have "length (category_table T) = 7463" using cat by (simp add: T(5))
  ultimately have c: "\<forall>v\<in>set (category_table T). v < 2 ^ 8" "length (category_table T) < 2 ^ 32"
    by (auto simp: in_set_conv_nth)
  have "length (flush_table T) = 2 ^ 13" unfolding T(2) by (simp del: upt_rec_numeral)
  from load_table_blob [OF this T(3) c(2) f n' c(1)] T(1) rank_all_hands_returns strength_order_list
  show ?thesis by blast
qed

text \<open>C21: the table-driven evaluator ranks seven cards as the reference evaluator does. Over the
  generated tables, two lots of seven distinct cards compare by \<open>Best7\<close> exactly as by the best
  five-card hand in them; a valid lot always scores above the zero of a malformed one; and the
  category read from the score is that of the reference score.\<close>

theorem best7_agrees_with_reference:
  assumes "gen_tables = Some T"
    and "\<forall>c\<in>set cs. valid_card c" and "distinct cs" and "length cs = 7"
    and "\<forall>c\<in>set ds. valid_card c" and "distinct ds" and "length ds = 7"
  shows "(best7 T cs < best7 T ds \<longleftrightarrow> the (ref_best7 cs) < the (ref_best7 ds)) \<and> 0 < best7 T cs \<and>
    dense_category T (best7 T cs) = unat (drop_bit 24 (the (ref_best7 cs)))"
proof -
  have r: "ref_best7 cs = best_n cs" "ref_best7 ds = best_n ds"
    by (simp_all add: ref_best7_def best_n_def assms(4,7))
  have o: "the (ref_best7 cs) \<in> set strength_order_list" "the (ref_best7 ds) \<in> set strength_order_list"
    unfolding r by (intro best_in_order; use assms in simp)+
  obtain i where i: "i < 7462" "strength_order_list ! i = the (ref_best7 cs)" "strength (the (ref_best7 cs)) = Suc i"
    using order_value_strength [OF o(1)] by metis
  obtain T' where T': "gen_tables = Some T'" "category_table T' = build_category_table strength_order_list"
    using gen_tables_returns by blast
  have T: "T' = T" using assms(1) T'(1) by (metis option.inject)
  note eq = best7_strength [OF assms(1)]
  have "dense_category T (best7 T cs) = unat (drop_bit 24 (the (ref_best7 cs)))"
    using build_category_table_nth [of strength_order_list] i T'(2)
    by (simp add: dense_category_def eq assms T)
  then show ?thesis
    using strength_less_iff [OF o] strength_range [OF o(1)] by (simp add: eq assms)
qed

lemma best7_agrees_with_reference_witness:
  "\<exists>T. gen_tables = Some T \<and> 0 < best7 T sample_seven \<and>
     dense_category T (best7 T sample_seven) = unat (drop_bit 24 (the (ref_best7 sample_seven)))"
proof -
  obtain T where T: "gen_tables = Some T" using gen_tables_returns by blast
  have "\<forall>c\<in>set sample_seven. valid_card c" "distinct sample_seven" "length sample_seven = 7"
    by (simp_all add: sample_seven_def valid_card_def)
  from best7_agrees_with_reference [OF T this this] T show ?thesis by blast
qed

text \<open>Malformed input scores zero. If a rank or suit is outside the deck or a card is repeated,
  \<open>Best7\<close> returns the score that loses to every hand, for any tables.\<close>

theorem best7_malformed:
  assumes "\<not> ((\<forall>c\<in>set cs. valid_card c) \<and> distinct cs)"
  shows "best7 T cs = 0"
  using assms by (simp only: best7_eq if_False)

lemma best7_malformed_witness:
  "\<forall>T. best7 T [Card 14 0, Card 9 1, Card 6 2, Card 8 3, Card 7 1, Card 9 1, Card 13 0] = 0"
  by (intro allI best7_malformed) simp

text \<open>Incremental evaluation is the evaluation of all seven cards. Adding five board cards to an
  empty board state and evaluating two hole cards gives \<open>Best7\<close> of the seven, and the result does
  not depend on the order in which the seven are given.\<close>

theorem eval2_is_best7:
  assumes "\<forall>c\<in>set (board @ [c, d]). valid_card c" and "distinct (board @ [c, d])"
  shows "eval2 T (fold add_card board \<lparr>bs_key = 0, bs_mask = 0\<rparr>) c d = best7 T (board @ [c, d]) \<and>
    (\<forall>cs. mset cs = mset (board @ [c, d]) \<longrightarrow> best7 T cs = best7 T (board @ [c, d]))"
proof
  have board: "fold add_card bs \<lparr>bs_key = of_nat (key_value ds), bs_mask = lane_mask ds\<rparr> =
      \<lparr>bs_key = of_nat (key_value (ds @ bs)), bs_mask = lane_mask (ds @ bs)\<rparr>"
    if "\<forall>c\<in>set bs. valid_card c" for bs ds
    using that
  proof (induction bs arbitrary: ds)
    case (Cons b bs)
    have "add_card b \<lparr>bs_key = of_nat (key_value ds), bs_mask = lane_mask ds\<rparr> =
        \<lparr>bs_key = of_nat (key_value (ds @ [b])), bs_mask = lane_mask (ds @ [b])\<rparr>"
      using Cons.prems
      by (simp add: add_card_def add_card_id_def Let_def packed_card_valid key_value_def lane_mask_snoc)
    with Cons show ?case by simp
  qed simp
  have zero: "of_nat (key_value []) = (0 :: u64)" "lane_mask [] = 0"
    by (simp_all add: key_value_def lane_mask_def)
  have "fold add_card board \<lparr>bs_key = 0, bs_mask = 0\<rparr> =
      \<lparr>bs_key = of_nat (key_value board), bs_mask = lane_mask board\<rparr>"
    using board [of board "[]"] assms(1) by (simp add: zero)
  moreover have "lane_mask board OR (push_bit (lane_bit c) 1 OR push_bit (lane_bit d) 1) = lane_mask (board @ [c, d])"
    using lane_mask_snoc [of "board @ [c]" d] by (simp add: lane_mask_snoc or.assoc)
  ultimately show "eval2 T (fold add_card board \<lparr>bs_key = 0, bs_mask = 0\<rparr>) c d = best7 T (board @ [c, d])"
    using assms by (simp add: eval2_def eval2_ids_def Let_def packed_card_valid best7_eq key_value_def add.assoc)
next
  have perm: "packed_score T (of_nat (key_value cs)) (lane_mask cs) = packed_score T (of_nat (key_value es)) (lane_mask es)"
    if "mset cs = mset es" "\<forall>c\<in>set cs. valid_card c" for cs es
  proof -
    have "\<Sum>\<^sub># (image_mset (\<lambda>c. rank_weight (rank c - 2) + 2 ^ (36 + 4 * suit c)) (mset cs)) =
        \<Sum>\<^sub># (image_mset (\<lambda>c. rank_weight (rank c - 2) + 2 ^ (36 + 4 * suit c)) (mset es))"
      by (simp only: that(1))
    then have "key_value cs = key_value es"
      by (simp only: key_value_def mset_map [symmetric] sum_mset_sum_list)
    moreover have "lane_mask cs = lane_mask es"
      using that mset_eq_setD [OF that(1)] by (intro bit_word_eqI) (simp add: bit_lane_mask)
    ultimately show ?thesis by simp
  qed
  show "\<forall>cs. mset cs = mset (board @ [c, d]) \<longrightarrow> best7 T cs = best7 T (board @ [c, d])"
  proof (intro allI impI)
    fix cs assume m: "mset cs = mset (board @ [c, d])"
    have v: "\<forall>c\<in>set cs. valid_card c" using assms(1) mset_eq_setD [OF m] by simp
    have "distinct cs" using mset_eq_imp_distinct_iff [OF m] assms(2) by simp
    then show "best7 T cs = best7 T (board @ [c, d])"
      using v perm [OF m v] assms by (simp add: best7_eq)
  qed
qed

lemma eval2_is_best7_witness:
  "\<forall>T. eval2 T (fold add_card [Card 14 0, Card 9 1, Card 6 2, Card 8 3, Card 7 1] \<lparr>bs_key = 0, bs_mask = 0\<rparr>)
     (Card 7 3) (Card 13 0) =
     best7 T ([Card 14 0, Card 9 1, Card 6 2, Card 8 3, Card 7 1] @ [Card 7 3, Card 13 0])"
  by (intro allI eval2_is_best7 [THEN conjunct1]) (simp_all add: valid_card_def)

end
