(* ===== verification/Table_Model.thy ===== *)
theory Table_Model
  imports Betting Side_Pots Deck Hand_Eval "HOL-Library.AList"
begin

text \<open>
  The data model of the hand engine, \<open>api/internal/engine/hand/hand.go\<close>: players, the table and
  the outcome of a hand, with the operations that only read the table or change one seat.

  Go shares \<open>*Player\<close> pointers between \<open>Table.players\<close> and \<open>Table.handOrder\<close>, and a seat that
  left the table may live on in \<open>handOrder\<close>. The model keeps that aliasing explicit: a table owns a
  store of players, and both slices hold addresses into it. \<open>t_next\<close> is the next free address; it
  stands for allocation and has no counterpart in the code.
\<close>

unbundle bit_operations_syntax

section \<open>Types\<close>

datatype player_state = Active | Folded | AllIn | SittingOut | Disconnected | PendingEntry

datatype stage = WaitingForPlayers | PreFlop | Flop | Turn | River | Showdown | Complete

type_synonym pref = nat

record player =
  p_id :: string
  p_name :: string
  p_avatar_url :: string
  p_playstyle_badge :: string
  p_run_it_twice :: bool
  p_auto_rebuy :: bool
  p_buy_in_amount :: int
  p_stack :: int
  p_ready :: bool
  p_pending_exit :: bool
  p_state :: player_state
  p_hole_cards :: "card \<times> card"
  p_contributed :: int
  p_hold_id :: string
  p_hand_start_stack :: "int option"
  p_voluntarily_shown :: bool
  p_voluntarily_shown_cards :: "bool \<times> bool"
  p_last_action_at :: int
  p_time_bank_ms :: "int option"

record pot_result =
  pr_amount :: int
  pr_payout_amount :: int
  pr_eligible_player_ids :: "string list"
  pr_winners :: "string list"
  pr_payouts :: "(string \<times> int) list"
  pr_refund :: bool
  pr_runout :: nat

record showdown_result =
  sr_category :: string
  sr_won :: bool
  sr_tied :: bool
  sr_split_pot :: bool

record player_hand_info =
  hi_hole_cards :: "string \<times> string"
  hi_revealed :: bool
  hi_revealed_cards :: "bool \<times> bool"

record revealed_salt =
  rs_card :: string
  rs_salt_hex :: string

record fairness_proof =
  fp_server_seed_hex :: string
  fp_revealed_card_salts :: "nat \<rightharpoonup> revealed_salt"
  fp_unrevealed_card_hashes :: "nat \<rightharpoonup> string"

text \<open>
  \<open>AllInPlayers\<close> is filled by ranging over a Go map, so its order is not specified: a set.
\<close>

record hand_outcome =
  ho_winners :: "string list"
  ho_winning_category :: string
  ho_won_without_showdown :: bool
  ho_comeback_winners :: "string list"
  ho_all_in_players :: "string set"
  ho_participants :: "string list"
  ho_payouts :: "(string \<times> int) list"
  ho_contributions :: "(string \<times> int) list"
  ho_pot_results :: "pot_result list"
  ho_board :: "string list"
  ho_board_two :: "string list"
  ho_player_hands :: "string \<rightharpoonup> player_hand_info"
  ho_small_blind :: int
  ho_big_blind :: int
  ho_variant :: string
  ho_showdown_results :: "string \<rightharpoonup> showdown_result"
  ho_server_seed :: string
  ho_commit_hash :: string
  ho_root_commit_hash :: string
  ho_fairness_proofs :: "string \<rightharpoonup> fairness_proof"

record winner_cards_request =
  wr_requester_id :: string
  wr_winner_id :: string
  wr_fee :: int
  wr_expires_at :: int

text \<open>
  The table. A \<open>map[string]bool\<close> that only ever holds \<open>true\<close> is a set; a map that is only read
  through its zero default (\<open>roundBaseline\<close>, \<open>rabbitHuntSlots\<close>) is a total function.
\<close>

record table =
  t_store :: "pref \<Rightarrow> player"
  t_next :: pref
  t_players :: "pref list"
  t_small_blind :: int
  t_big_blind :: int
  t_dealer_seat :: int
  t_dealer_drawn :: bool
  t_stage :: stage
  t_board :: "card list"
  t_board_two :: "card list"
  t_board_split_at :: nat
  t_run_it_twice_enabled :: bool
  t_run_it_twice :: bool
  t_runout_phase :: nat
  t_shuffle :: "shuffle_result option"
  t_short_shuffle :: "short_shuffle_result option"
  t_next_card :: nat
  t_variant :: variant
  t_round :: "bet_round option"
  t_round_idx :: "string \<rightharpoonup> nat"
  t_round_baseline :: "string \<Rightarrow> int"
  t_payouts :: "(string \<times> int) list"
  t_rake_bps :: int
  t_rake_collected :: int
  t_currency_mode :: string
  t_rabbit_hunt_slots :: "string \<Rightarrow> 8 word"
  t_winner_cards_paid :: "string set"
  t_winner_cards_asked :: "string set"
  t_pending_winner_cards :: "winner_cards_request list"
  t_winner_cards_closed :: bool
  t_hand_order :: "pref list"
  t_seen_action_ids :: "string set"
  t_ready_to_post :: "string set"
  t_owes_big_blind :: "string set"
  t_last_outcome :: "hand_outcome option"
  t_was_ever_all_in :: "string set"

datatype hand_error =
    AlreadySeated string | PlayerNotFound string | NoPendingExit string | HandInProgress
  | StillDealtIn string | NeedTwoReady nat | RandomFailed
  | NotComplete | NotDealtIn string | NotSeated string | BadCardIndex int
  | SandboxOnly | NoUncontestedWin | BoardFull | NotUndealtSlot int | SlotAlreadyBought string int
  | AlreadyPaid string | InsufficientStack | SlotOutOfRange int | NothingToRefund string
  | NotOneWinner | WinnerCannotPay | AlreadyRevealed | AlreadyAsked string | WinnerDeclined
  | NoRequestPending | NotTheWinner string | WinnerGone string
  | NoPendingAction | NotYourTurn string | NoActionThisRound string | BettingError bet_error
  | ActionIdRequired

section \<open>Addresses\<close>

abbreviation pl :: "table \<Rightarrow> pref \<Rightarrow> player" where
  "pl t r \<equiv> t_store t r"

definition upd :: "pref \<Rightarrow> (player \<Rightarrow> player) \<Rightarrow> table \<Rightarrow> table" where
  "upd r f t = t\<lparr>t_store := (t_store t)(r := f (t_store t r))\<rparr>"

definition player_by_id :: "table \<Rightarrow> string \<Rightarrow> pref option" where
  "player_by_id t pid = List.find (\<lambda>r. p_id (pl t r) = pid) (t_players t)"

definition seat :: "player \<Rightarrow> table \<Rightarrow> table" where
  "seat p t = t\<lparr>t_store := (t_store t)(t_next t := p), t_next := Suc (t_next t),
     t_players := t_players t @ [t_next t]\<rparr>"

section \<open>The table and its settings\<close>

definition no_player :: player where
  "no_player = \<lparr>p_id = '''', p_name = '''', p_avatar_url = '''', p_playstyle_badge = '''',
     p_run_it_twice = False, p_auto_rebuy = False, p_buy_in_amount = 0, p_stack = 0, p_ready = False,
     p_pending_exit = False, p_state = Active, p_hole_cards = (Card 0 0, Card 0 0), p_contributed = 0,
     p_hold_id = '''', p_hand_start_stack = None, p_voluntarily_shown = False,
     p_voluntarily_shown_cards = (False, False), p_last_action_at = 0, p_time_bank_ms = None\<rparr>"

text \<open>\<open>NewTableWithVariant\<close>: the players of the slice get the first addresses.\<close>

definition new_table_with_variant :: "player list \<Rightarrow> int \<Rightarrow> int \<Rightarrow> variant \<Rightarrow> table" where
  "new_table_with_variant ps small big v =
     \<lparr>t_store = (\<lambda>r. if r < length ps then ps ! r else no_player), t_next = length ps,
      t_players = [0..<length ps], t_small_blind = small, t_big_blind = big, t_dealer_seat = 0,
      t_dealer_drawn = False, t_stage = WaitingForPlayers, t_board = [], t_board_two = [],
      t_board_split_at = 0, t_run_it_twice_enabled = False, t_run_it_twice = False,
      t_runout_phase = 0, t_shuffle = None, t_short_shuffle = None, t_next_card = 0, t_variant = v,
      t_round = None, t_round_idx = Map.empty, t_round_baseline = (\<lambda>_. 0), t_payouts = [],
      t_rake_bps = 0, t_rake_collected = 0, t_currency_mode = '''', t_rabbit_hunt_slots = (\<lambda>_. 0),
      t_winner_cards_paid = {}, t_winner_cards_asked = {}, t_pending_winner_cards = [],
      t_winner_cards_closed = False, t_hand_order = [], t_seen_action_ids = {},
      t_ready_to_post = {}, t_owes_big_blind = {}, t_last_outcome = None, t_was_ever_all_in = {}\<rparr>"

definition new_table :: "player list \<Rightarrow> int \<Rightarrow> int \<Rightarrow> table" where
  "new_table ps small big = new_table_with_variant ps small big Standard"

text \<open>
  The evaluator of the table's variant. The standard evaluator reads the package's score tables,
  which every operation that can reach a showdown takes as its argument \<open>T\<close>.
\<close>

definition table_best7 :: "score_tables \<Rightarrow> table \<Rightarrow> card list \<Rightarrow> nat option" where
  "table_best7 T t cards =
     (if t_variant t = ShortDeck then map_option unat (short_best7 cards) else Some (best7 T cards))"

definition table_category_of :: "score_tables \<Rightarrow> table \<Rightarrow> nat \<Rightarrow> nat" where
  "table_category_of T t s =
     (if t_variant t = ShortDeck
      then (case short_score_category (of_nat s) of None \<Rightarrow> 0 | Some c \<Rightarrow> category_number c)
      else dense_category T s)"

definition category_names :: "nat \<Rightarrow> string" where
  "category_names c =
     (if c < 10
      then [''high_card'', ''pair'', ''two_pair'', ''three_of_a_kind'', ''straight'', ''flush'',
            ''full_house'', ''four_of_a_kind'', ''straight_flush'', ''royal_flush''] ! c
      else '''')"

definition configure_rake :: "string \<Rightarrow> table \<Rightarrow> table" where
  "configure_rake mode t =
     t\<lparr>t_currency_mode := mode, t_rake_bps := (if mode = ''sandbox'' then 250 else 0)\<rparr>"

definition configure_run_it_twice :: "bool \<Rightarrow> table \<Rightarrow> table" where
  "configure_run_it_twice enabled t = t\<lparr>t_run_it_twice_enabled := enabled\<rparr>"

definition set_player_run_it_twice :: "string \<Rightarrow> bool \<Rightarrow> table \<Rightarrow> table \<times> bool" where
  "set_player_run_it_twice pid enabled t =
     (case player_by_id t pid of
        None \<Rightarrow> (t, False)
      | Some r \<Rightarrow> if p_run_it_twice (pl t r) = enabled then (t, False)
                  else (upd r (\<lambda>p. p\<lparr>p_run_it_twice := enabled\<rparr>) t, True))"

definition set_player_identity ::
  "string \<Rightarrow> string \<Rightarrow> string \<Rightarrow> string \<Rightarrow> table \<Rightarrow> table \<times> bool" where
  "set_player_identity pid name avatar badge t =
     (case player_by_id t pid of
        None \<Rightarrow> (t, False)
      | Some r \<Rightarrow>
          let p = pl t r
          in if name = '''' \<and> avatar = '''' \<and> badge = '''' \<or>
                p_name p = name \<and> p_avatar_url p = avatar \<and> p_playstyle_badge p = badge
             then (t, False)
             else (upd r (\<lambda>p. p\<lparr>p_name := name, p_avatar_url := avatar, p_playstyle_badge := badge\<rparr>) t,
                   True))"

text \<open>The first ID that occupies more than one seat, if any.\<close>

fun duplicate_seat_id :: "string set \<Rightarrow> string list \<Rightarrow> string \<times> bool" where
  "duplicate_seat_id seen [] = ('''', False)"
| "duplicate_seat_id seen (pid # ids) =
     (if pid \<in> seen then (pid, True) else duplicate_seat_id (insert pid seen) ids)"

definition duplicate_seat :: "table \<Rightarrow> string \<times> bool" where
  "duplicate_seat t = duplicate_seat_id {} (map (\<lambda>r. p_id (pl t r)) (t_players t))"

section \<open>Players and the current hand\<close>

definition hand_in_progress :: "table \<Rightarrow> bool" where
  "hand_in_progress t \<longleftrightarrow> t_stage t \<noteq> Complete \<and> t_stage t \<noteq> WaitingForPlayers"

definition still_in_hand :: "player \<Rightarrow> bool" where
  "still_in_hand p \<longleftrightarrow> p_state p = Active \<or> p_state p = AllIn \<or> p_state p = SittingOut"

definition dealt_into_current_hand :: "table \<Rightarrow> string \<Rightarrow> bool" where
  "dealt_into_current_hand t pid \<longleftrightarrow> (\<exists>r\<in>set (t_hand_order t). p_id (pl t r) = pid)"

definition should_run_it_twice :: "table \<Rightarrow> bool" where
  "should_run_it_twice t \<longleftrightarrow> t_run_it_twice_enabled t \<and>
     (let live = filter (\<lambda>r. still_in_hand (pl t r)) (t_hand_order t)
      in list_all (\<lambda>r. p_run_it_twice (pl t r)) live \<and> 2 \<le> length live)"

text \<open>The board of the second runout: the shared streets, then the second board's own cards.\<close>

definition second_board :: "table \<Rightarrow> card list" where
  "second_board t = take (t_board_split_at t) (t_board t) @ t_board_two t"

definition hole_and_board :: "table \<Rightarrow> string \<Rightarrow> (card \<times> card) \<times> card list \<times> bool" where
  "hole_and_board t pid =
     (case player_by_id t pid of
        None \<Rightarrow> ((Card 0 0, Card 0 0), [], False)
      | Some r \<Rightarrow>
          if \<not> dealt_into_current_hand t pid \<or> (p_state (pl t r) \<noteq> Active \<and> p_state (pl t r) \<noteq> AllIn)
          then ((Card 0 0, Card 0 0), [], False)
          else (p_hole_cards (pl t r),
                if t_run_it_twice t \<and> t_runout_phase t = 2 then second_board t else t_board t, True))"

definition player_all_in :: "table \<Rightarrow> string \<Rightarrow> bool" where
  "player_all_in t pid =
     (case player_by_id t pid of None \<Rightarrow> False | Some r \<Rightarrow> p_state (pl t r) = AllIn)"

definition eligible_for_next_hand :: "table \<Rightarrow> player \<Rightarrow> bool" where
  "eligible_for_next_hand t p =
     (if \<not> p_ready p then False
      else if p_state p = SittingOut \<and> p_id p \<notin> t_owes_big_blind t then False
      else if p_state p = PendingEntry \<and> p_id p \<notin> t_ready_to_post t then False
      else True)"

section \<open>Button and blinds\<close>

text \<open>
  The dealer's position in a list of seats; when the dealer is not in it, that of the first seat
  clockwise from the dealer that is.
\<close>

definition dealer_index_within :: "table \<Rightarrow> pref list \<Rightarrow> nat" where
  "dealer_index_within t rs =
     (let n = length (t_players t); d = nat (t_dealer_seat t)
      in if t_dealer_seat t < 0 \<or> t_dealer_seat t \<ge> int n then 0
         else case index_of (t_players t ! d) rs of
             Some i \<Rightarrow> i
           | None \<Rightarrow>
               (case List.find (\<lambda>offset. t_players t ! ((d + offset) mod n) \<in> set rs) [1..<Suc n] of
                  Some offset \<Rightarrow> the (index_of (t_players t ! ((d + offset) mod n)) rs)
                | None \<Rightarrow> 0))"

definition blind_seats :: "table \<Rightarrow> pref list \<Rightarrow> nat \<times> nat" where
  "blind_seats t active =
     (let d = dealer_index_within t active; n = length active
      in if n = 2 then (d, (d + 1) mod n) else ((d + 1) mod n, (d + 2) mod n))"

definition would_be_next_blind :: "table \<Rightarrow> string \<Rightarrow> bool" where
  "would_be_next_blind t pid =
     (let active = filter (\<lambda>r. let p = pl t r in
            p_id p = pid \<or>
            (p_ready p \<and> p_state p \<noteq> SittingOut \<and>
             \<not> (p_state p = PendingEntry \<and> p_id p \<notin> t_ready_to_post t))) (t_players t)
      in if length active < 2 then False
         else let (sb, bb) = blind_seats t active
              in case index_of pid (map (\<lambda>r. p_id (pl t r)) active) of
                   None \<Rightarrow> False
                 | Some i \<Rightarrow> i = sb \<or> i = bb)"

definition rotate_dealer :: "table \<Rightarrow> table" where
  "rotate_dealer t =
     (let order = t_hand_order t
      in if order = [] then t
         else case index_of (order ! ((dealer_index_within t order + 1) mod length order)) (t_players t) of
             None \<Rightarrow> t
           | Some i \<Rightarrow> t\<lparr>t_dealer_seat := int i\<rparr>)"

text \<open>\<open>EscalateBlindsForActor\<close>; the products are 64-bit.\<close>

definition escalate_blinds :: "int \<Rightarrow> int \<Rightarrow> table \<Rightarrow> table" where
  "escalate_blinds pct max_big t =
     (let old = t_big_blind t
      in if pct \<le> 100 \<or> max_big \<le> 0 \<or> old \<ge> max_big then t
         else let b1 = go_div (wrap64 (old * pct)) 100;
                  b2 = (if b1 \<le> old then wrap64 (old + 1) else b1);
                  new = (if b2 > max_big then max_big else b2);
                  small = go_div (wrap64 (t_small_blind t * new)) old
              in t\<lparr>t_small_blind := (if small = 0 then 1 else small), t_big_blind := new\<rparr>)"

section \<open>Time banks\<close>

definition default_time_bank_ms :: int where "default_time_bank_ms = 30000"

definition time_bank_recharge_ms :: int where "time_bank_recharge_ms = 5000"

definition initialize_time_bank :: "player \<Rightarrow> player" where
  "initialize_time_bank p =
     (case p_time_bank_ms p of
        None \<Rightarrow> p\<lparr>p_time_bank_ms := Some default_time_bank_ms\<rparr>
      | Some _ \<Rightarrow> p)"

definition time_bank :: "string \<Rightarrow> table \<Rightarrow> table \<times> int" where
  "time_bank pid t =
     (case player_by_id t pid of
        None \<Rightarrow> (t, 0)
      | Some r \<Rightarrow> let t' = upd r initialize_time_bank t in (t', the (p_time_bank_ms (pl t' r))))"

definition consume_time_bank :: "string \<Rightarrow> int \<Rightarrow> table \<Rightarrow> table \<times> int" where
  "consume_time_bank pid elapsed t =
     (case player_by_id t pid of
        None \<Rightarrow> (t, 0)
      | Some r \<Rightarrow>
          let t1 = upd r initialize_time_bank t;
              bank = the (p_time_bank_ms (pl t1 r));
              spent = min (max 0 elapsed) bank
          in (upd r (\<lambda>p. p\<lparr>p_time_bank_ms := Some (bank - spent)\<rparr>) t1, bank - spent))"

text \<open>The recharge \<open>StartHand\<close> gives every player it deals in.\<close>

definition recharge_time_bank :: "player \<Rightarrow> player" where
  "recharge_time_bank p =
     (case p_time_bank_ms p of
        None \<Rightarrow> p
      | Some bank \<Rightarrow>
          if bank < default_time_bank_ms
          then p\<lparr>p_time_bank_ms := Some (min (bank + time_bank_recharge_ms) default_time_bank_ms)\<rparr>
          else p)"

section \<open>Cards\<close>

definition dealt_cards :: "table \<Rightarrow> card list option" where
  "dealt_cards t =
     (if t_variant t = ShortDeck then map_option ssh_cards (t_short_shuffle t)
      else map_option sh_cards (t_shuffle t))"

text \<open>\<open>dealCard\<close> panics past the end of the deck and without a shuffle.\<close>

definition deal_card :: "table \<Rightarrow> (card \<times> table) option" where
  "deal_card t = do {
     cards \<leftarrow> dealt_cards t;
     if t_next_card t \<ge> length cards then None
     else Some (cards ! t_next_card t, t\<lparr>t_next_card := Suc (t_next_card t)\<rparr>)}"

definition burn_card :: "table \<Rightarrow> table option" where
  "burn_card t = do { (_, t') \<leftarrow> deal_card t; Some t' }"

fun deal_cards :: "nat \<Rightarrow> table \<Rightarrow> (card list \<times> table) option" where
  "deal_cards 0 t = Some ([], t)"
| "deal_cards (Suc n) t = do {
     (c, t') \<leftarrow> deal_card t; (cs, t'') \<leftarrow> deal_cards n t'; Some (c # cs, t'') }"

definition deal_flop :: "table \<Rightarrow> table option" where
  "deal_flop t = do {
     t1 \<leftarrow> burn_card t; (cs, t2) \<leftarrow> deal_cards 3 t1; Some (t2\<lparr>t_board := t_board t2 @ cs\<rparr>) }"

definition deal_board_card :: "table \<Rightarrow> table option" where
  "deal_board_card t = do {
     t1 \<leftarrow> burn_card t; (c, t2) \<leftarrow> deal_card t1; Some (t2\<lparr>t_board := t_board t2 @ [c]\<rparr>) }"

text \<open>The two-character card codes, a byte zero standing for a rank or suit outside the maps.\<close>

definition rank_code :: "nat \<Rightarrow> char" where
  "rank_code r = (if 2 \<le> r \<and> r \<le> 14 then ''23456789TJQKA'' ! (r - 2) else CHR 0x00)"

definition suit_code :: "nat \<Rightarrow> char" where
  "suit_code s = (if s \<le> 3 then ''cdhs'' ! s else CHR 0x00)"

definition card_code :: "card \<Rightarrow> string" where
  "card_code c = [rank_code (rank c), suit_code (suit c)]"

definition board_codes :: "card list \<Rightarrow> string list" where
  "board_codes cs = map card_code cs"

definition hex_digit :: "nat \<Rightarrow> char" where
  "hex_digit n = ''0123456789abcdef'' ! n"

text \<open>\<open>hex.EncodeToString\<close>\<close>

definition hex_encode :: "bytes \<Rightarrow> string" where
  "hex_encode bs = concat (map (\<lambda>b. [hex_digit (unat b div 16), hex_digit (unat b mod 16)]) bs)"

section \<open>Updating one seat\<close>

lemma upd_frame [simp]:
  "t_next (upd r f t) = t_next t" "t_players (upd r f t) = t_players t"
  "t_small_blind (upd r f t) = t_small_blind t" "t_big_blind (upd r f t) = t_big_blind t"
  "t_dealer_seat (upd r f t) = t_dealer_seat t" "t_dealer_drawn (upd r f t) = t_dealer_drawn t"
  "t_stage (upd r f t) = t_stage t" "t_board (upd r f t) = t_board t"
  "t_board_two (upd r f t) = t_board_two t" "t_board_split_at (upd r f t) = t_board_split_at t"
  "t_run_it_twice_enabled (upd r f t) = t_run_it_twice_enabled t"
  "t_run_it_twice (upd r f t) = t_run_it_twice t" "t_runout_phase (upd r f t) = t_runout_phase t"
  "t_shuffle (upd r f t) = t_shuffle t" "t_short_shuffle (upd r f t) = t_short_shuffle t"
  "t_next_card (upd r f t) = t_next_card t" "t_variant (upd r f t) = t_variant t"
  "t_round (upd r f t) = t_round t" "t_round_idx (upd r f t) = t_round_idx t"
  "t_round_baseline (upd r f t) = t_round_baseline t" "t_payouts (upd r f t) = t_payouts t"
  "t_rake_bps (upd r f t) = t_rake_bps t" "t_rake_collected (upd r f t) = t_rake_collected t"
  "t_currency_mode (upd r f t) = t_currency_mode t"
  "t_rabbit_hunt_slots (upd r f t) = t_rabbit_hunt_slots t"
  "t_winner_cards_paid (upd r f t) = t_winner_cards_paid t"
  "t_winner_cards_asked (upd r f t) = t_winner_cards_asked t"
  "t_pending_winner_cards (upd r f t) = t_pending_winner_cards t"
  "t_winner_cards_closed (upd r f t) = t_winner_cards_closed t"
  "t_hand_order (upd r f t) = t_hand_order t" "t_seen_action_ids (upd r f t) = t_seen_action_ids t"
  "t_ready_to_post (upd r f t) = t_ready_to_post t"
  "t_owes_big_blind (upd r f t) = t_owes_big_blind t"
  "t_last_outcome (upd r f t) = t_last_outcome t"
  "t_was_ever_all_in (upd r f t) = t_was_ever_all_in t"
  by (simp_all add: upd_def)

lemma pl_upd: "pl (upd r f t) x = (if x = r then f (pl t r) else pl t x)"
  by (simp add: upd_def)

lemma pl_upd_same [simp]: "pl (upd r f t) r = f (pl t r)"
  by (simp add: upd_def)

lemma pl_upd_other [simp]: "x \<noteq> r \<Longrightarrow> pl (upd r f t) x = pl t x"
  by (simp add: upd_def)

text \<open>A field no update of the seat touches reads as before.\<close>

lemma upd_field: "(\<And>p. g (f p) = g p) \<Longrightarrow> g (pl (upd r f t) x) = g (pl t x)"
  by (simp add: upd_def)

section \<open>Looking a player up\<close>

definition seat_ids :: "table \<Rightarrow> string list" where
  "seat_ids t = map (\<lambda>r. p_id (pl t r)) (t_players t)"

lemma player_by_id_Some:
  "player_by_id t pid = Some r \<Longrightarrow> r \<in> set (t_players t) \<and> p_id (pl t r) = pid"
  unfolding player_by_id_def by (drule find_Some_mem) simp

lemma player_by_id_None: "player_by_id t pid = None \<longleftrightarrow> pid \<notin> set (seat_ids t)"
  by (auto simp: player_by_id_def find_None_iff_all seat_ids_def)

lemma player_by_id_seat:
  assumes "distinct (seat_ids t)" and "r \<in> set (t_players t)"
  shows "player_by_id t (p_id (pl t r)) = Some r"
  unfolding player_by_id_def
  by (rule find_unique) (use assms in \<open>simp_all add: seat_ids_def\<close>)

lemma seat_eq_by_id:
  assumes "distinct (seat_ids t)" and "r \<in> set (t_players t)" and "s \<in> set (t_players t)"
    and "p_id (pl t r) = p_id (pl t s)"
  shows "r = s"
  by (metis option.inject assms(4) player_by_id_seat [OF assms(1,2)] player_by_id_seat [OF assms(1,3)])

lemma distinct_players: "distinct (seat_ids t) \<Longrightarrow> distinct (t_players t)"
  by (simp add: seat_ids_def distinct_map)

text \<open>Operations that keep the seats and their IDs keep the lookups.\<close>

definition same_seats :: "table \<Rightarrow> table \<Rightarrow> bool" where
  "same_seats t t' \<longleftrightarrow> t_players t' = t_players t \<and> (\<forall>r. p_id (pl t' r) = p_id (pl t r))"

lemma same_seats_refl [simp]: "same_seats t t"
  by (simp add: same_seats_def)

lemma same_seats_trans: "same_seats t u \<Longrightarrow> same_seats u v \<Longrightarrow> same_seats t v"
  by (simp add: same_seats_def)

lemma same_seats_upd [simp]: "(\<And>p. p_id (f p) = p_id p) \<Longrightarrow> same_seats t (upd r f t)"
  by (simp add: same_seats_def upd_field)

lemma same_seats_by_id: "same_seats t t' \<Longrightarrow> player_by_id t' pid = player_by_id t pid"
  by (simp add: same_seats_def player_by_id_def)

lemma same_seats_ids: "same_seats t t' \<Longrightarrow> seat_ids t' = seat_ids t"
  by (simp add: same_seats_def seat_ids_def)

section \<open>Chips\<close>

definition seat_stacks :: "table \<Rightarrow> int" where
  "seat_stacks t = (\<Sum>r\<leftarrow>t_players t. p_stack (pl t r))"

definition hand_put :: "table \<Rightarrow> int" where
  "hand_put t = (\<Sum>r\<leftarrow>t_hand_order t. p_contributed (pl t r))"

text \<open>All the chips on a table: stacks, the pot of a live hand, and what was taken out of play.\<close>

definition table_chips :: "table \<Rightarrow> int" where
  "table_chips t = seat_stacks t + (if hand_in_progress t then hand_put t else 0) + t_rake_collected t"

lemma sum_pl_upd:
  fixes g :: "player \<Rightarrow> int"
  assumes "distinct rs"
  shows "(\<Sum>x\<leftarrow>rs. g (pl (upd r f t) x)) =
    (\<Sum>x\<leftarrow>rs. g (pl t x)) + (if r \<in> set rs then g (f (pl t r)) - g (pl t r) else 0)"
  using sum_list_fun_upd [OF assms, of g "t_store t" r "f (pl t r)"] by (simp add: upd_def)

lemma seat_stacks_upd:
  assumes "distinct (t_players t)"
  shows "seat_stacks (upd r f t) =
    seat_stacks t + (if r \<in> set (t_players t) then p_stack (f (pl t r)) - p_stack (pl t r) else 0)"
  by (simp add: seat_stacks_def sum_pl_upd [OF assms])

lemma hand_put_upd:
  assumes "distinct (t_hand_order t)"
  shows "hand_put (upd r f t) =
    hand_put t + (if r \<in> set (t_hand_order t) then p_contributed (f (pl t r)) - p_contributed (pl t r) else 0)"
  by (simp add: hand_put_def sum_pl_upd [OF assms])

end
