(* ===== verification/Showdown.thy ===== *)
theory Showdown
  imports Table_Model
begin

text \<open>
  The end of a hand, \<open>runShowdown\<close> of \<open>hand.go\<close> with its helpers: the layers of the pot are settled
  one after the other (refund of an uncalled layer, rake, shares and odd chip of a contested one,
  once or once per runout), the payouts credited, busted seats paused, the outcome recorded and the
  button moved. A division by an empty list of winners is the panic \<open>None\<close>.
\<close>

section \<open>Pot layers\<close>

definition showdown_contributions :: "table \<Rightarrow> contribution list" where
  "showdown_contributions t = map (\<lambda>r. \<lparr>co_player = p_id (pl t r), co_amount = p_contributed (pl t r),
      co_folded = (p_state (pl t r) = Folded)\<rparr>)
     (filter (\<lambda>r. p_contributed (pl t r) > 0) (t_hand_order t))"

definition rake_cap :: "table \<Rightarrow> int" where
  "rake_cap t =
     (if t_rake_bps t = 0 \<or> length (t_board t) < 3 then 0
      else let n = length (t_hand_order t)
           in if n \<le> 2 then go_div (t_big_blind t) 2
              else if n \<le> 4 then go_div (wrap64 (t_big_blind t * 3)) 4
              else t_big_blind t)"

definition rake_for_layer :: "table \<Rightarrow> int \<Rightarrow> int \<Rightarrow> int" where
  "rake_for_layer t amount cap =
     (if cap \<le> 0 \<or> t_rake_bps t \<le> 0 then 0
      else let rake = go_div (wrap64 (amount * t_rake_bps t)) 10000
           in if rake > cap then cap else rake)"

text \<open>\<open>copy(full[2:], board)\<close> on a hand of seven cards, and the seven cards of a player.\<close>

definition copy_board :: "card list \<Rightarrow> card list \<Rightarrow> card list" where
  "copy_board full board = take 2 full @ take 5 board @ drop (2 + length (take 5 board)) full"

definition full_hand :: "player \<Rightarrow> card list \<Rightarrow> card list" where
  "full_hand p board =
     copy_board ([fst (p_hole_cards p), snd (p_hole_cards p)] @ replicate 5 (Card 0 0)) board"

definition weigh_player :: "score_tables \<Rightarrow> table \<Rightarrow> card list \<Rightarrow> string \<Rightarrow>
    string list \<times> string list \<times> nat \<Rightarrow> (string list \<times> string list \<times> nat) option" where
  "weigh_player T t board pid = (\<lambda>(winners, eligible, best).
     case player_by_id t pid of
       None \<Rightarrow> Some (winners, eligible, best)
     | Some r \<Rightarrow>
         if p_state (pl t r) = Folded then Some (winners, eligible, best)
         else do {
           score \<leftarrow> table_best7 T t (full_hand (pl t r) board);
           Some (if score > best then ([pid], eligible @ [pid], score)
                 else if score = best then (winners @ [pid], eligible @ [pid], best)
                 else (winners, eligible @ [pid], best))})"

definition evaluate_layer :: "score_tables \<Rightarrow> table \<Rightarrow> pot_layer \<Rightarrow> card list \<Rightarrow>
    (string list \<times> string list \<times> nat) option" where
  "evaluate_layer T t layer board = foldM (weigh_player T t board) (pl_eligible layer) ([], [], 0)"

definition odd_chip_winner :: "table \<Rightarrow> string list \<Rightarrow> string" where
  "odd_chip_winner t winners =
     (if winners = [] then ''''
      else let order = t_hand_order t; n = length order; d = dealer_index_within t order;
               at = (\<lambda>offset. p_id (pl t (order ! ((d + offset) mod n))))
           in case List.find (\<lambda>offset. at offset \<in> set winners) [1..<Suc n] of
                Some offset \<Rightarrow> at offset
              | None \<Rightarrow> winners ! 0)"

section \<open>Settling the layers\<close>

text \<open>The local variables of \<open>runShowdown\<close>'s loop; \<open>ps_rake\<close> is what it adds to \<open>rakeCollected\<close>.\<close>

record payout_scan =
  ps_payouts :: "(string \<times> int) list"
  ps_winning_ids :: "string list"
  ps_results :: "pot_result list"
  ps_winning_score :: nat
  ps_rake_cap :: int
  ps_carry :: int
  ps_rake :: int

text \<open>Equal shares for the players of a list, the remainder for one of them.\<close>

definition pay_out :: "string list \<Rightarrow> string \<Rightarrow> int \<Rightarrow> (string \<times> int) list \<Rightarrow> (string \<times> int) list" where
  "pay_out ids extra amount m =
     (let n = int (length ids); share = go_div amount n; remainder = amount - share * n;
          m1 = madd_all ids share m
      in if remainder > 0 then madd extra remainder m1 else m1)"

definition refund_layer :: "pot_layer \<Rightarrow> payout_scan \<Rightarrow> payout_scan option" where
  "refund_layer layer ps =
     (let ids = pl_eligible layer; amount = pl_amount layer
      in if ids = [] then None
         else Some (ps\<lparr>ps_payouts := pay_out ids (ids ! 0) amount (ps_payouts ps),
                ps_results := ps_results ps @ [\<lparr>pr_amount = amount, pr_payout_amount = amount,
                  pr_eligible_player_ids = ids, pr_winners = [],
                  pr_payouts = pay_out ids (ids ! 0) amount [], pr_refund = True, pr_runout = 0\<rparr>]\<rparr>))"

text \<open>The closure \<open>award\<close>.\<close>

definition award :: "table \<Rightarrow> int \<Rightarrow> int \<Rightarrow> nat \<Rightarrow> string list \<times> string list \<times> nat \<Rightarrow>
    payout_scan \<Rightarrow> payout_scan option" where
  "award t layer_amount amount runout = (\<lambda>(winners, eligible, score) ps.
     if winners = [] then None
     else let ps1 = (if amount > 0
                then ps\<lparr>ps_winning_ids := ps_winning_ids ps @ winners,
                        ps_winning_score := max (ps_winning_score ps) score\<rparr>
                else ps);
              extra = odd_chip_winner t winners
          in Some (ps1\<lparr>ps_payouts := pay_out winners extra amount (ps_payouts ps1),
                ps_results := ps_results ps1 @ [\<lparr>pr_amount = layer_amount, pr_payout_amount = amount,
                  pr_eligible_player_ids = eligible, pr_winners = winners,
                  pr_payouts = pay_out winners extra amount [], pr_refund = False, pr_runout = runout\<rparr>]\<rparr>))"

definition two_runouts :: "table \<Rightarrow> bool" where
  "two_runouts t \<longleftrightarrow> t_run_it_twice t \<and> t_board_two t \<noteq> []"

definition contested_layer ::
    "score_tables \<Rightarrow> table \<Rightarrow> pot_layer \<Rightarrow> payout_scan \<Rightarrow> payout_scan option" where
  "contested_layer T t layer ps = do {
     first \<leftarrow> evaluate_layer T t layer (t_board t);
     if fst first = [] then Some (ps\<lparr>ps_carry := ps_carry ps + pl_amount layer\<rparr>)
     else do {
       let amount = (if ps_carry ps > 0 then pl_amount layer + ps_carry ps else pl_amount layer);
       let carry = (if ps_carry ps > 0 then 0 else ps_carry ps);
       let rake = rake_for_layer t amount (ps_rake_cap ps);
       let net = amount - rake;
       let ps1 = ps\<lparr>ps_carry := carry, ps_rake_cap := ps_rake_cap ps - rake, ps_rake := ps_rake ps + rake\<rparr>;
       if two_runouts t
       then do {
         ps2 \<leftarrow> award t amount (go_div net 2 + (net - 2 * go_div net 2)) 1 first ps1;
         second \<leftarrow> evaluate_layer T t layer (second_board t);
         award t amount (go_div net 2) 2 second ps2
       }
       else award t amount net 0 first ps1
     }
   }"

definition settle_layer ::
    "score_tables \<Rightarrow> table \<Rightarrow> pot_layer \<Rightarrow> payout_scan \<Rightarrow> payout_scan option" where
  "settle_layer T t layer ps =
     (if pl_uncalled layer then refund_layer layer ps else contested_layer T t layer ps)"

definition settle_pots :: "score_tables \<Rightarrow> table \<Rightarrow> payout_scan option" where
  "settle_pots T t = do {
     ps \<leftarrow> foldM (settle_layer T t) (compute_side_pots (showdown_contributions t))
       \<lparr>ps_payouts = [], ps_winning_ids = [], ps_results = [], ps_winning_score = 0,
        ps_rake_cap = rake_cap t, ps_carry = 0, ps_rake = 0\<rparr>;
     Some (if ps_carry ps > 0 \<and> ps_winning_ids ps \<noteq> []
           then ps\<lparr>ps_payouts := madd (last (ps_winning_ids ps)) (ps_carry ps) (ps_payouts ps)\<rparr>
           else ps)
   }"

section \<open>Crediting the players\<close>

definition credit :: "string \<times> int \<Rightarrow> table \<Rightarrow> table" where
  "credit e t = (case player_by_id t (fst e) of
      None \<Rightarrow> t
    | Some r \<Rightarrow> upd r (\<lambda>p. p\<lparr>p_stack := p_stack p + snd e\<rparr>) t)"

definition pause_if_busted :: "pref \<Rightarrow> table \<Rightarrow> table" where
  "pause_if_busted r t =
     (if p_stack (pl t r) \<le> 0 then upd r (\<lambda>p. p\<lparr>p_state := SittingOut\<rparr>) t else t)"

section \<open>The outcome\<close>

fun dedupe_ids :: "string set \<Rightarrow> string list \<Rightarrow> string list" where
  "dedupe_ids seen [] = []"
| "dedupe_ids seen (x # xs) =
     (if x \<in> seen then dedupe_ids seen xs else x # dedupe_ids (insert x seen) xs)"

definition participant_ids :: "table \<Rightarrow> pref list \<Rightarrow> string list" where
  "participant_ids t rs = map (\<lambda>r. p_id (pl t r)) rs"

definition won_outright :: "pot_result list \<Rightarrow> string \<Rightarrow> bool" where
  "won_outright results pid \<longleftrightarrow> (\<exists>res\<in>set results. pid \<in> set (pr_winners res) \<and> length (pr_winners res) \<le> 1)"

definition split_pot :: "pot_result list \<Rightarrow> string \<Rightarrow> bool" where
  "split_pot results pid \<longleftrightarrow> (\<exists>res\<in>set results. pid \<in> set (pr_winners res) \<and> 1 < length (pr_winners res))"

text \<open>\<open>ShowdownResult.Action\<close>\<close>

definition showdown_action :: "showdown_result \<Rightarrow> string" where
  "showdown_action s = (if sr_tied s then ''tie'' else if sr_won s then ''won'' else ''lost'')"

definition showdown_result_for ::
    "score_tables \<Rightarrow> table \<Rightarrow> pot_result list \<Rightarrow> string list \<Rightarrow> player \<Rightarrow> showdown_result option" where
  "showdown_result_for T t results winners p = do {
     let full = full_hand p (t_board t);
     score1 \<leftarrow> table_best7 T t full;
     score \<leftarrow> (if two_runouts t
        then map_option (\<lambda>s. max s score1) (table_best7 T t (copy_board full (second_board t)))
        else Some score1);
     let won = (p_id p \<in> set winners);
     Some \<lparr>sr_category = category_names (table_category_of T t score), sr_won = won,
       sr_tied = (won \<and> split_pot results (p_id p) \<and> \<not> won_outright results (p_id p)),
       sr_split_pot = split_pot results (p_id p)\<rparr>
   }"

definition showdown_results :: "score_tables \<Rightarrow> table \<Rightarrow> pot_result list \<Rightarrow> string list \<Rightarrow>
    (string \<rightharpoonup> showdown_result) option" where
  "showdown_results T t results winners =
     foldM (\<lambda>r m. if p_state (pl t r) = Folded then Some m
        else do { s \<leftarrow> showdown_result_for T t results winners (pl t r); Some (m(p_id (pl t r) \<mapsto> s)) })
       (t_hand_order t) Map.empty"

definition player_hands :: "table \<Rightarrow> bool \<Rightarrow> string \<rightharpoonup> player_hand_info" where
  "player_hands t won_without =
     fold (\<lambda>r m. let p = pl t r;
            revealed = ((\<not> won_without \<and> p_state p \<noteq> Folded) \<or> p_voluntarily_shown p)
          in m(p_id p \<mapsto> \<lparr>hi_hole_cards = (card_code (fst (p_hole_cards p)), card_code (snd (p_hole_cards p))),
                         hi_revealed = revealed, hi_revealed_cards = (revealed, revealed)\<rparr>))
       (t_hand_order t) Map.empty"

text \<open>\<open>t\<close> is the table after the payouts were credited, \<open>cs\<close> the contributions before.\<close>

definition make_outcome :: "score_tables \<Rightarrow> table \<Rightarrow> contribution list \<Rightarrow> payout_scan \<Rightarrow> bool \<Rightarrow>
    hand_outcome option" where
  "make_outcome T t cs ps won_without = do {
     let winners = dedupe_ids {} (ps_winning_ids ps);
     results \<leftarrow> (if won_without then Some Map.empty else showdown_results T t (ps_results ps) winners);
     Some \<lparr>ho_winners = winners,
       ho_winning_category =
         (if won_without then '''' else category_names (table_category_of T t (ps_winning_score ps))),
       ho_won_without_showdown = won_without,
       ho_comeback_winners = filter (\<lambda>w. w \<in> t_was_ever_all_in t) winners,
       ho_all_in_players = t_was_ever_all_in t,
       ho_participants = participant_ids t (t_hand_order t),
       ho_payouts = ps_payouts ps,
       ho_contributions = fold (\<lambda>c m. AList.update (co_player c) (co_amount c) m) cs [],
       ho_pot_results = ps_results ps,
       ho_board = board_codes (t_board t),
       ho_board_two = (if two_runouts t then board_codes (second_board t) else []),
       ho_player_hands = player_hands t won_without,
       ho_small_blind = t_small_blind t, ho_big_blind = t_big_blind t,
       ho_variant = variant_label (t_variant t),
       ho_showdown_results = results,
       ho_server_seed = (case t_shuffle t of None \<Rightarrow> '''' | Some s \<Rightarrow> hex_encode (sh_server_seed s)),
       ho_commit_hash = (case t_shuffle t of None \<Rightarrow> '''' | Some s \<Rightarrow> hex_encode (sh_commit_hash s)),
       ho_root_commit_hash = (case t_shuffle t of None \<Rightarrow> ''''
         | Some s \<Rightarrow> hex_encode (root_commit_hash (sh_server_seed s) (sh_cards s))),
       ho_fairness_proofs = Map.empty\<rparr>
   }"

section \<open>The showdown\<close>

definition won_without_showdown :: "table \<Rightarrow> bool" where
  "won_without_showdown t \<longleftrightarrow> length (filter (\<lambda>r. p_state (pl t r) \<noteq> Folded) (t_hand_order t)) = 1"

definition credit_payouts :: "payout_scan \<Rightarrow> table \<Rightarrow> table" where
  "credit_payouts ps t = fold credit (ps_payouts ps) t"

definition pause_busted :: "table \<Rightarrow> table" where
  "pause_busted t = fold pause_if_busted (t_hand_order t) t"

definition run_showdown :: "score_tables \<Rightarrow> table \<Rightarrow> table option" where
  "run_showdown T t = do {
     let won_without = won_without_showdown t;
     let t1 = t\<lparr>t_stage := Showdown\<rparr>;
     ps \<leftarrow> settle_pots T t1;
     let t2 = pause_busted (credit_payouts ps (t1\<lparr>t_rake_collected := t_rake_collected t1 + ps_rake ps\<rparr>));
     outcome \<leftarrow> make_outcome T t2 (showdown_contributions t1) ps won_without;
     Some (rotate_dealer (t2\<lparr>t_payouts := ps_payouts ps, t_last_outcome := Some outcome, t_stage := Complete\<rparr>))
   }"

section \<open>The evaluation of a layer\<close>

lemma length_full_hand [simp]: "length (full_hand p board) = 7"
  by (simp add: full_hand_def copy_board_def)

lemma short_best7_total: "\<exists>s. short_best7 cs = Some s"
  unfolding short_best7_def
  using best_loop_max [OF first_subset_index [of 7], of short_evaluate5 cs 0] by simp

lemma table_best7_total: "\<exists>s. table_best7 T t cs = Some s"
  using short_best7_total [of cs] by (auto simp: table_best7_def)

definition hand_score :: "score_tables \<Rightarrow> table \<Rightarrow> card list \<Rightarrow> string \<Rightarrow> nat" where
  "hand_score T t board pid =
     the (table_best7 T t (full_hand (pl t (the (player_by_id t pid))) board))"

text \<open>A player still in the hand: seated under this ID and not folded.\<close>

definition contender :: "table \<Rightarrow> string \<Rightarrow> bool" where
  "contender t pid \<longleftrightarrow> (\<exists>r. player_by_id t pid = Some r \<and> p_state (pl t r) \<noteq> Folded)"

definition best_score :: "score_tables \<Rightarrow> table \<Rightarrow> card list \<Rightarrow> string list \<Rightarrow> nat" where
  "best_score T t board ids = Max (insert 0 (hand_score T t board ` set ids))"

definition best_hands :: "score_tables \<Rightarrow> table \<Rightarrow> card list \<Rightarrow> string list \<Rightarrow> string list" where
  "best_hands T t board ids =
     filter (\<lambda>i. hand_score T t board i = best_score T t board ids) ids"

lemma best_score_append:
  "best_score T t board (ids @ [i]) = max (hand_score T t board i) (best_score T t board ids)"
proof -
  have "insert 0 (hand_score T t board ` set (ids @ [i])) =
      insert (hand_score T t board i) (insert 0 (hand_score T t board ` set ids))"
    by auto
  then show ?thesis unfolding best_score_def by (simp only: Max_insert finite_insert finite_imageI finite_set) simp
qed

lemma best_score_ge: "i \<in> set ids \<Longrightarrow> hand_score T t board i \<le> best_score T t board ids"
  by (simp add: best_score_def)

lemma weigh_player_best:
  assumes "contender t i"
  shows "weigh_player T t board i (best_hands T t board ids, ids, best_score T t board ids) =
    Some (best_hands T t board (ids @ [i]), ids @ [i], best_score T t board (ids @ [i]))"
proof -
  obtain r where r: "player_by_id t i = Some r" "p_state (pl t r) \<noteq> Folded"
    using assms by (auto simp: contender_def)
  obtain s where s: "table_best7 T t (full_hand (pl t r) board) = Some s"
    using table_best7_total by blast
  then have h: "hand_score T t board i = s" by (simp add: hand_score_def r)
  have none: "filter (\<lambda>j. hand_score T t board j = s) ids = []" if "best_score T t board ids < s"
    using that by (auto simp: filter_empty_conv dest: best_score_ge [of _ ids T t board])
  show ?thesis
    using s none by (auto simp: weigh_player_def r h best_hands_def best_score_append)
qed

lemma evaluate_fold:
  assumes "\<forall>i\<in>set ids. contender t i"
  shows "foldM (weigh_player T t board) ids (best_hands T t board seen, seen, best_score T t board seen) =
    Some (best_hands T t board (seen @ ids), seen @ ids, best_score T t board (seen @ ids))"
  using assms
proof (induction ids arbitrary: seen)
  case (Cons i ids)
  then show ?case
    using Cons.IH [of "seen @ [i]"] by (simp add: weigh_player_best)
qed simp

text \<open>Over contenders, evaluation never panics and finds those with the best score, in seat order.\<close>

lemma evaluate_layer_best:
  assumes "\<forall>i\<in>set (pl_eligible layer). contender t i"
  shows "evaluate_layer T t layer board =
    Some (best_hands T t board (pl_eligible layer), pl_eligible layer,
          best_score T t board (pl_eligible layer))"
  using evaluate_fold [OF assms, of T board "[]"]
  by (simp add: evaluate_layer_def best_hands_def best_score_def)

lemma best_hands_nonempty: "ids \<noteq> [] \<Longrightarrow> best_hands T t board ids \<noteq> []"
proof -
  assume "ids \<noteq> []"
  have "best_score T t board ids \<in> insert 0 (hand_score T t board ` set ids)"
    unfolding best_score_def by (rule Max_in) auto
  moreover obtain i where i: "i \<in> set ids" using \<open>ids \<noteq> []\<close> by (cases ids) auto
  moreover have "hand_score T t board i \<le> best_score T t board ids"
    using i by (rule best_score_ge)
  ultimately show ?thesis by (fastforce simp: best_hands_def filter_empty_conv)
qed

lemma best_hands_subset: "set (best_hands T t board ids) \<subseteq> set ids"
  by (auto simp: best_hands_def)

text \<open>The best hands are exactly those no other eligible hand beats.\<close>

lemma best_hands_iff:
  "i \<in> set (best_hands T t board ids) \<longleftrightarrow>
     i \<in> set ids \<and> (\<forall>j\<in>set ids. hand_score T t board j \<le> hand_score T t board i)"
proof -
  have "best_score T t board ids = hand_score T t board i"
    if "i \<in> set ids" "\<forall>j\<in>set ids. hand_score T t board j \<le> hand_score T t board i"
    unfolding best_score_def by (rule Max_eqI) (use that in auto)
  moreover have "hand_score T t board j \<le> hand_score T t board i"
    if "hand_score T t board i = best_score T t board ids" "j \<in> set ids" for j
    using best_score_ge [OF that(2)] that(1) by simp
  ultimately show ?thesis by (auto simp: best_hands_def)
qed

section \<open>Shares, odd chip and rake\<close>

lemma remainder_nonneg:
  assumes "ids \<noteq> []" and "0 \<le> a"
  shows "0 \<le> a - go_div a (int (length ids)) * int (length ids)"
  using go_div_bounds(2) [OF assms(2), of "int (length ids)"] assms(1) by simp

lemma msum_pay_out:
  assumes "ids \<noteq> []" and "0 \<le> a"
  shows "msum (pay_out ids extra a m) = msum m + a"
  using remainder_nonneg [OF assms] by (simp add: pay_out_def Let_def algebra_simps)

lemma keys_pay_out: "extra \<in> set ids \<Longrightarrow> fst ` set (pay_out ids extra a m) = set ids \<union> fst ` set m"
  by (auto simp: pay_out_def Let_def)

lemma distinct_pay_out [simp]: "distinct (map fst m) \<Longrightarrow> distinct (map fst (pay_out ids extra a m))"
  by (simp add: pay_out_def Let_def)

lemma mnonneg_pay_out [simp]:
  assumes "ids \<noteq> []" and "0 \<le> a" and "mnonneg m"
  shows "mnonneg (pay_out ids extra a m)"
  using assms go_div_bounds(1) [OF assms(2), of "int (length ids)"]
  by (simp add: pay_out_def Let_def)

lemma odd_chip_winner_mem:
  assumes "winners \<noteq> []"
  shows "odd_chip_winner t winners \<in> set winners"
proof -
  let ?n = "length (t_hand_order t)" and ?d = "dealer_index_within t (t_hand_order t)"
  let ?at = "\<lambda>offset. p_id (pl t (t_hand_order t ! ((?d + offset) mod ?n)))"
  show ?thesis
    using assms find_Some_mem [of "\<lambda>offset. ?at offset \<in> set winners" "[1..<Suc ?n]"]
    by (auto simp: odd_chip_winner_def Let_def simp del: upt_Suc split: option.splits)
qed

definition rake_sane :: "table \<Rightarrow> int \<Rightarrow> bool" where
  "rake_sane t amount \<longleftrightarrow>
     0 \<le> t_rake_bps t \<and> t_rake_bps t \<le> 10000 \<and> 0 \<le> amount \<and> amount * 10000 \<le> i64_max"

lemma rake_sane_less: "rake_sane t b \<Longrightarrow> 0 \<le> a \<Longrightarrow> a \<le> b \<Longrightarrow> rake_sane t a"
  by (simp add: rake_sane_def)

lemma rake_for_layer_bounds:
  assumes "rake_sane t amount"
  shows "0 \<le> rake_for_layer t amount cap" and "rake_for_layer t amount cap \<le> amount"
    and "rake_for_layer t amount cap \<le> max 0 cap"
    and "rake_for_layer t amount cap * 10000 \<le> amount * t_rake_bps t"
proof -
  have pos: "0 \<le> amount * t_rake_bps t"
    using assms by (simp add: rake_sane_def)
  have le: "amount * t_rake_bps t \<le> amount * 10000"
    using assms by (simp add: rake_sane_def mult_left_mono)
  then have w: "wrap64 (amount * t_rake_bps t) = amount * t_rake_bps t"
    using assms pos by (intro wrap64_id) (auto simp: in_i64_def rake_sane_def)
  note b = go_div_bounds [OF pos, of 10000]
  have "go_div (amount * t_rake_bps t) 10000 \<le> amount"
    using b(2) le by simp
  then show "0 \<le> rake_for_layer t amount cap" "rake_for_layer t amount cap \<le> amount"
      "rake_for_layer t amount cap \<le> max 0 cap"
      "rake_for_layer t amount cap * 10000 \<le> amount * t_rake_bps t"
    using b assms pos by (auto simp: rake_for_layer_def Let_def w rake_sane_def)
qed

section \<open>One layer\<close>

definition payable :: "table \<Rightarrow> pot_layer \<Rightarrow> bool" where
  "payable t l \<longleftrightarrow> pl_eligible l \<noteq> [] \<and> 0 < pl_amount l \<and> set (pl_eligible l) \<subseteq> set (seat_ids t) \<and>
     (\<not> pl_uncalled l \<longrightarrow> (\<forall>i\<in>set (pl_eligible l). contender t i))"

text \<open>The board a result was decided on.\<close>

definition result_board :: "table \<Rightarrow> pot_result \<Rightarrow> card list" where
  "result_board t res = (if pr_runout res = 2 then second_board t else t_board t)"

definition result_ok :: "score_tables \<Rightarrow> table \<Rightarrow> pot_result \<Rightarrow> bool" where
  "result_ok T t res \<longleftrightarrow>
     0 \<le> pr_payout_amount res \<and> msum (pr_payouts res) = pr_payout_amount res \<and> mnonneg (pr_payouts res) \<and>
     (if pr_refund res then pr_winners res = []
      else pr_winners res = best_hands T t (result_board t res) (pr_eligible_player_ids res) \<and>
        pr_winners res \<noteq> [] \<and> fst ` set (pr_payouts res) = set (pr_winners res) \<and>
        (\<forall>i\<in>set (pr_eligible_player_ids res). contender t i))"

definition results_paid :: "pot_result list \<Rightarrow> int" where
  "results_paid rs = (\<Sum>r\<leftarrow>rs. pr_payout_amount r)"

definition scan_ok :: "score_tables \<Rightarrow> table \<Rightarrow> int \<Rightarrow> payout_scan \<Rightarrow> bool" where
  "scan_ok T t paid ps \<longleftrightarrow>
     ps_carry ps = 0 \<and> 0 \<le> ps_rake ps \<and> ps_rake ps + ps_rake_cap ps = rake_cap t \<and>
     (0 \<le> rake_cap t \<longrightarrow> 0 \<le> ps_rake_cap ps) \<and>
     mnonneg (ps_payouts ps) \<and> distinct (map fst (ps_payouts ps)) \<and>
     fst ` set (ps_payouts ps) \<subseteq> set (seat_ids t) \<and> msum (ps_payouts ps) + ps_rake ps = paid \<and>
     results_paid (ps_results ps) + ps_rake ps = paid \<and>
     (\<forall>res\<in>set (ps_results ps). result_ok T t res)"

lemma contender_seated: "contender t i \<Longrightarrow> i \<in> set (seat_ids t)"
  using player_by_id_None [of t i] by (auto simp: contender_def)

lemma refund_layer_ok:
  assumes "payable t l" and "scan_ok T t paid ps"
  shows "\<exists>ps'. refund_layer l ps = Some ps' \<and> scan_ok T t (paid + pl_amount l) ps'"
  using assms
  by (auto simp: refund_layer_def payable_def scan_ok_def Let_def msum_pay_out keys_pay_out
      result_ok_def results_paid_def)

lemma award_ok:
  assumes "\<forall>i\<in>set ids. contender t i" and "ids \<noteq> []" and "0 \<le> amount"
    and "board = (if runout = 2 then second_board t else t_board t)" and "scan_ok T t paid ps"
  shows "\<exists>ps'. award t whole amount runout (best_hands T t board ids, ids, score) ps = Some ps' \<and>
    scan_ok T t (paid + amount) ps'"
proof -
  let ?w = "best_hands T t board ids"
  have w: "?w \<noteq> []" by (rule best_hands_nonempty [OF assms(2)])
  have "set ?w \<subseteq> set (seat_ids t)"
    using best_hands_subset [of T t board ids] assms(1) contender_seated by blast
  then show ?thesis
    using assms w odd_chip_winner_mem [OF w, of t]
    by (auto simp: award_def scan_ok_def Let_def msum_pay_out keys_pay_out result_ok_def
        results_paid_def result_board_def)
qed

lemma contested_layer_ok:
  assumes "payable t l" and "\<not> pl_uncalled l" and "scan_ok T t paid ps" and "rake_sane t (pl_amount l)"
  shows "\<exists>ps'. contested_layer T t l ps = Some ps' \<and> scan_ok T t (paid + pl_amount l) ps'"
proof -
  let ?ids = "pl_eligible l" and ?a = "pl_amount l"
  let ?rake = "rake_for_layer t ?a (ps_rake_cap ps)"
  let ?ps = "ps\<lparr>ps_carry := 0, ps_rake_cap := ps_rake_cap ps - ?rake, ps_rake := ps_rake ps + ?rake\<rparr>"
  have ids: "\<forall>i\<in>set ?ids. contender t i" "?ids \<noteq> []"
    using assms(1,2) by (simp_all add: payable_def)
  note ev = evaluate_layer_best [OF ids(1)]
  note b = rake_for_layer_bounds [OF assms(4), of "ps_rake_cap ps"]
  have carry: "ps_carry ps = 0" using assms(3) by (simp add: scan_ok_def)
  have ok: "scan_ok T t (paid + ?rake) ?ps"
    using assms(3) b by (auto simp: scan_ok_def)
  show ?thesis
  proof (cases "two_runouts t")
    case True
    let ?net = "?a - ?rake"
    have half: "0 \<le> go_div ?net 2" "0 \<le> go_div ?net 2 + (?net - 2 * go_div ?net 2)"
      using go_div_bounds [of ?net 2] b(2) by auto
    obtain ps2 where ps2: "award t ?a (go_div ?net 2 + (?net - 2 * go_div ?net 2)) 1
        (best_hands T t (t_board t) ?ids, ?ids, best_score T t (t_board t) ?ids) ?ps = Some ps2"
      "scan_ok T t (paid + ?rake + (go_div ?net 2 + (?net - 2 * go_div ?net 2))) ps2"
      using award_ok [OF ids half(2) _ ok, of "t_board t" 1] by auto
    obtain ps3 where ps3: "award t ?a (go_div ?net 2) 2
        (best_hands T t (second_board t) ?ids, ?ids, best_score T t (second_board t) ?ids) ps2 = Some ps3"
      "scan_ok T t (paid + ?rake + (go_div ?net 2 + (?net - 2 * go_div ?net 2)) + go_div ?net 2) ps3"
      using award_ok [OF ids half(1) _ ps2(2), of "second_board t" 2] by auto
    have "paid + ?rake + (go_div ?net 2 + (?net - 2 * go_div ?net 2)) + go_div ?net 2 = paid + ?a"
      by simp
    with ps2(1) ps3 True carry show ?thesis
      using best_hands_nonempty [OF ids(2), of T t "t_board t"]
      by (simp add: contested_layer_def ev Let_def)
  next
    case False
    have "paid + ?rake + (?a - ?rake) = paid + ?a" by simp
    moreover obtain ps' where "award t ?a (?a - ?rake) 0
        (best_hands T t (t_board t) ?ids, ?ids, best_score T t (t_board t) ?ids) ?ps = Some ps'"
      "scan_ok T t (paid + ?rake + (?a - ?rake)) ps'"
      using award_ok [OF ids _ _ ok, of "?a - ?rake" "t_board t" 0] b(2) by auto
    ultimately show ?thesis
      using False carry best_hands_nonempty [OF ids(2), of T t "t_board t"]
      by (simp add: contested_layer_def ev Let_def)
  qed
qed

lemma settle_layer_ok:
  assumes "payable t l" and "scan_ok T t paid ps" and "rake_sane t (pl_amount l)"
  shows "\<exists>ps'. settle_layer T t l ps = Some ps' \<and> scan_ok T t (paid + pl_amount l) ps'"
  using refund_layer_ok [OF assms(1,2)] contested_layer_ok [OF assms(1) _ assms(2,3)]
  by (simp add: settle_layer_def)

section \<open>All layers\<close>

text \<open>What a showdown needs of the table: seats with distinct IDs, the dealt players among them.\<close>

definition pot_ready :: "table \<Rightarrow> bool" where
  "pot_ready t \<longleftrightarrow> distinct (seat_ids t) \<and> distinct (t_hand_order t) \<and>
     set (t_hand_order t) \<subseteq> set (t_players t) \<and>
     (\<forall>r\<in>set (t_hand_order t). 0 \<le> p_contributed (pl t r)) \<and> rake_sane t (hand_put t)"

lemma settle_layers_ok:
  assumes "\<forall>l\<in>set ls. payable t l \<and> rake_sane t (pl_amount l)" and "scan_ok T t paid ps"
  shows "\<exists>ps'. foldM (settle_layer T t) ls ps = Some ps' \<and> scan_ok T t (paid + layer_total ls) ps'"
  using assms
proof (induction ls arbitrary: paid ps)
  case (Cons l ls)
  obtain ps1 where ps1: "settle_layer T t l ps = Some ps1" "scan_ok T t (paid + pl_amount l) ps1"
    using settle_layer_ok [of t l T paid ps] Cons.prems by auto
  with Cons.IH [OF _ ps1(2)] Cons.prems(1) show ?case
    by (simp add: layer_total_def algebra_simps)
qed (simp add: layer_total_def)

lemma put_total_contributions:
  assumes "\<forall>r\<in>set (t_hand_order t). 0 \<le> p_contributed (pl t r)"
  shows "put_total (showdown_contributions t) = hand_put t"
proof -
  have "(\<Sum>r\<leftarrow>filter (\<lambda>r. 0 < f r) rs. max 0 (f r)) = (\<Sum>r\<leftarrow>rs. f r)"
    if "\<forall>r\<in>set rs. 0 \<le> f r" for rs :: "pref list" and f :: "pref \<Rightarrow> int"
    using that by (induction rs) auto
  from this [OF assms] show ?thesis
    by (simp add: put_total_def showdown_contributions_def hand_put_def o_def)
qed

lemma contribution_player:
  assumes "pot_ready t" and "c \<in> set (showdown_contributions t)"
  shows "co_player c \<in> set (seat_ids t)" and "\<not> co_folded c \<Longrightarrow> contender t (co_player c)"
proof -
  obtain r where r: "r \<in> set (t_players t)" "co_player c = p_id (pl t r)"
      "co_folded c = (p_state (pl t r) = Folded)"
    using assms by (auto simp: showdown_contributions_def pot_ready_def)
  then show "co_player c \<in> set (seat_ids t)" by (simp add: seat_ids_def)
  show "contender t (co_player c)" if "\<not> co_folded c"
    using r that player_by_id_seat [OF _ r(1)] assms(1) by (auto simp: contender_def pot_ready_def)
qed

lemma layers_payable:
  assumes "pot_ready t" and "l \<in> set (compute_side_pots (showdown_contributions t))"
  shows "payable t l" and "rake_sane t (pl_amount l)"
proof -
  have "set (pl_eligible l) \<subseteq> set (seat_ids t)"
    using pots.eligible_contributed [OF assms(2)] contribution_player(1) [OF assms(1)] by blast
  moreover have "\<forall>i\<in>set (pl_eligible l). contender t i" if "\<not> pl_uncalled l"
    using pots.split_contested [OF assms(2) that] contribution_player(2) [OF assms(1)] by blast
  ultimately show "payable t l"
    using pots.eligible_nonempty [OF assms(2)] pots.split_positive [OF assms(2)] by (simp add: payable_def)
  show "rake_sane t (pl_amount l)"
    using assms(1) pots.layer_le_total [OF assms(2)] pots.split_positive [OF assms(2)]
    by (auto simp: pot_ready_def put_total_contributions intro: rake_sane_less)
qed

text \<open>The layers are all paid out: payouts and rake together are what the players put in.\<close>

lemma settle_pots_ok:
  assumes "pot_ready t"
  shows "\<exists>ps. settle_pots T t = Some ps \<and> scan_ok T t (hand_put t) ps"
proof -
  let ?ps0 = "\<lparr>ps_payouts = [], ps_winning_ids = [], ps_results = [], ps_winning_score = 0,
        ps_rake_cap = rake_cap t, ps_carry = 0, ps_rake = 0\<rparr>"
  let ?ls = "compute_side_pots (showdown_contributions t)"
  have "scan_ok T t 0 ?ps0" by (simp add: scan_ok_def results_paid_def)
  then obtain ps where ps: "foldM (settle_layer T t) ?ls ?ps0 = Some ps" "scan_ok T t (layer_total ?ls) ps"
    using settle_layers_ok [of ?ls t T 0 ?ps0] layers_payable [OF assms] by auto
  have "layer_total ?ls = hand_put t"
    using pots.split_total [of "showdown_contributions t"] put_total_contributions [of t] assms
    by (simp add: pot_ready_def)
  moreover have "ps_carry ps = 0" using ps(2) by (simp add: scan_ok_def)
  ultimately show ?thesis using ps by (simp add: settle_pots_def)
qed

section \<open>Crediting\<close>

lemma credit_frame [simp]:
  "t_players (credit e t) = t_players t" "t_hand_order (credit e t) = t_hand_order t"
  "t_stage (credit e t) = t_stage t" "t_rake_collected (credit e t) = t_rake_collected t"
  "p_id (pl (credit e t) r) = p_id (pl t r)"
  "p_contributed (pl (credit e t) r) = p_contributed (pl t r)"
  "p_state (pl (credit e t) r) = p_state (pl t r)"
  by (auto simp: credit_def upd_field split: option.split)

lemma credit_seats [simp]: "same_seats t (credit e t)"
  by (simp add: same_seats_def)

lemma seat_stacks_credit:
  assumes "distinct (seat_ids t)" and "fst e \<in> set (seat_ids t)"
  shows "seat_stacks (credit e t) = seat_stacks t + snd e"
proof -
  obtain r where "player_by_id t (fst e) = Some r"
    using player_by_id_None [of t "fst e"] assms(2) by auto
  then show ?thesis
    using player_by_id_Some [of t "fst e" r] seat_stacks_upd [OF distinct_players [OF assms(1)]]
    by (simp add: credit_def)
qed

lemma seat_stacks_credit_all:
  assumes "distinct (seat_ids t)" and "fst ` set m \<subseteq> set (seat_ids t)"
  shows "seat_stacks (fold credit m t) = seat_stacks t + msum m"
  using assms
proof (induction m arbitrary: t)
  case (Cons e m)
  then show ?case
    using Cons.IH [of "credit e t"] same_seats_ids [of t "credit e t"] seat_stacks_credit [of t e]
    by (simp add: msum_def)
qed simp

definition amount_of :: "(string \<times> int) list \<Rightarrow> string \<Rightarrow> int" where
  "amount_of m pid = (case map_of m pid of None \<Rightarrow> 0 | Some v \<Rightarrow> v)"

lemma credit_stack:
  assumes "distinct (seat_ids t)" and "r \<in> set (t_players t)"
  shows "p_stack (pl (credit e t) r) = p_stack (pl t r) + (if p_id (pl t r) = fst e then snd e else 0)"
proof (cases "player_by_id t (fst e)")
  case None
  then show ?thesis
    using player_by_id_seat [OF assms] by (auto simp: credit_def)
next
  case (Some s)
  note s = player_by_id_Some [OF Some]
  show ?thesis
  proof (cases "r = s")
    case True
    then show ?thesis using s Some by (simp add: credit_def)
  next
    case False
    then have "p_id (pl t r) \<noteq> fst e" using s seat_eq_by_id [OF assms, of s] by metis
    then show ?thesis using False Some by (simp add: credit_def)
  qed
qed

lemma credit_all_stack:
  assumes "distinct (seat_ids t)" and "r \<in> set (t_players t)" and "distinct (map fst m)"
  shows "p_stack (pl (fold credit m t) r) = p_stack (pl t r) + amount_of m (p_id (pl t r))"
  using assms
proof (induction m arbitrary: t)
  case (Cons e m)
  let ?i = "p_id (pl t r)"
  have "seat_ids (credit e t) = seat_ids t" by (rule same_seats_ids) simp
  then have ih: "p_stack (pl (fold credit m (credit e t)) r) = p_stack (pl (credit e t) r) + amount_of m ?i"
    using Cons.IH [of "credit e t"] Cons.prems by simp
  have "amount_of (e # m) ?i = (if ?i = fst e then snd e else 0) + amount_of m ?i"
  proof (cases "?i = fst e")
    case True
    have "map_of m (fst e) = None" using Cons.prems(3) by (simp add: map_of_eq_None_iff)
    then show ?thesis unfolding True by (simp add: amount_of_def map_of_Cons_code)
  next
    case False
    then show ?thesis by (cases e) (simp add: amount_of_def)
  qed
  then show ?case
    using ih credit_stack [OF Cons.prems(1,2), of e] by simp
qed (simp add: amount_of_def)

lemma pause_seats [simp]: "same_seats t (pause_if_busted r t)"
  by (simp add: pause_if_busted_def)

definition run_frame :: "table \<Rightarrow> table \<Rightarrow> bool" where
  "run_frame t t' \<longleftrightarrow> same_seats t t' \<and> t_hand_order t' = t_hand_order t \<and> t_stage t' = t_stage t \<and>
     t_rake_collected t' = t_rake_collected t \<and>
     (\<forall>r. p_contributed (pl t' r) = p_contributed (pl t r))"

lemma run_frame_fold:
  assumes "\<And>x t. run_frame t (f x t)"
  shows "run_frame t (fold f xs t)"
proof (induction xs arbitrary: t)
  case (Cons x xs)
  show ?case
    using assms [of t x] Cons.IH [of "f x t"] same_seats_trans [of t "f x t"] by (auto simp: run_frame_def)
qed (simp add: run_frame_def)

lemma credit_run_frame: "run_frame t (fold credit m t)"
  by (rule run_frame_fold) (simp add: run_frame_def)

lemma pause_run_frame: "run_frame t (pause_busted t)"
  unfolding pause_busted_def
  by (rule run_frame_fold) (simp add: run_frame_def pause_if_busted_def upd_field)

lemma pause_stacks: "p_stack (pl (pause_busted t) r) = p_stack (pl t r)"
proof -
  have "p_stack (pl (fold pause_if_busted rs u) r) = p_stack (pl u r)" for rs u
    by (induction rs arbitrary: u) (simp_all add: pause_if_busted_def upd_field)
  then show ?thesis by (simp add: pause_busted_def)
qed

lemma seat_stacks_pause: "seat_stacks (pause_busted t) = seat_stacks t"
  using pause_run_frame [of t] by (simp add: seat_stacks_def pause_stacks run_frame_def same_seats_def)

lemma rotate_dealer_frame [simp]:
  "t_players (rotate_dealer t) = t_players t" "t_store (rotate_dealer t) = t_store t"
  "t_stage (rotate_dealer t) = t_stage t" "t_hand_order (rotate_dealer t) = t_hand_order t"
  "t_rake_collected (rotate_dealer t) = t_rake_collected t" "t_payouts (rotate_dealer t) = t_payouts t"
  "t_last_outcome (rotate_dealer t) = t_last_outcome t"
  by (auto simp: rotate_dealer_def Let_def split: option.split)

section \<open>The showdown as a whole\<close>

lemma showdown_result_total: "\<exists>s. showdown_result_for T t results winners p = Some s"
proof -
  obtain a where "table_best7 T t (full_hand p (t_board t)) = Some a"
    using table_best7_total by blast
  moreover obtain b where "table_best7 T t (copy_board (full_hand p (t_board t)) (second_board t)) = Some b"
    using table_best7_total by blast
  ultimately show ?thesis by (simp add: showdown_result_for_def Let_def)
qed

lemma showdown_results_total: "\<exists>m. showdown_results T t results winners = Some m"
proof -
  have "\<exists>m'. foldM (\<lambda>r m. if p_state (pl t r) = Folded then Some m
        else do { s \<leftarrow> showdown_result_for T t results winners (pl t r); Some (m(p_id (pl t r) \<mapsto> s)) })
       rs m = Some m' \<and> True" for rs m
    by (rule foldM_inv) (use showdown_result_total [of T t results winners] in \<open>auto, metis bind.bind_lunit\<close>)
  then show ?thesis by (simp add: showdown_results_def)
qed

lemma make_outcome_total: "\<exists>ho. make_outcome T t cs ps w = Some ho \<and>
    ho_pot_results ho = ps_results ps \<and> ho_payouts ho = ps_payouts ps \<and>
    ho_winners ho = dedupe_ids {} (ps_winning_ids ps) \<and> ho_won_without_showdown ho = w"
  using showdown_results_total [of T t "ps_results ps" "dedupe_ids {} (ps_winning_ids ps)"]
  by (auto simp: make_outcome_def Let_def)

lemma stage_irrelevant [simp]:
  "seat_ids (t\<lparr>t_stage := s\<rparr>) = seat_ids t" "hand_put (t\<lparr>t_stage := s\<rparr>) = hand_put t"
  "rake_sane (t\<lparr>t_stage := s\<rparr>) a = rake_sane t a" "rake_cap (t\<lparr>t_stage := s\<rparr>) = rake_cap t"
  "seat_stacks (t\<lparr>t_stage := s\<rparr>) = seat_stacks t"
  "player_by_id (t\<lparr>t_stage := s\<rparr>) pid = player_by_id t pid"
  "second_board (t\<lparr>t_stage := s\<rparr>) = second_board t"
  by (simp_all add: seat_ids_def hand_put_def rake_sane_def rake_cap_def seat_stacks_def
      player_by_id_def second_board_def Let_def)

lemma score_stage_irrelevant [simp]:
  "best_hands T (t\<lparr>t_stage := s\<rparr>) board ids = best_hands T t board ids"
  "contender (t\<lparr>t_stage := s\<rparr>) pid = contender t pid"
  "result_board (t\<lparr>t_stage := s\<rparr>) res = result_board t res"
  by (simp_all add: best_hands_def best_score_def hand_score_def [abs_def] table_best7_def
      contender_def result_board_def)

lemma scan_stage_irrelevant [simp]:
  "result_ok T (t\<lparr>t_stage := s\<rparr>) res = result_ok T t res"
  "scan_ok T (t\<lparr>t_stage := s\<rparr>) paid ps = scan_ok T t paid ps"
  "pot_ready (t\<lparr>t_stage := s\<rparr>) = pot_ready t"
  by (simp_all add: result_ok_def scan_ok_def pot_ready_def)

lemma rake_field_irrelevant [simp]:
  "seat_ids (t\<lparr>t_rake_collected := k\<rparr>) = seat_ids t"
  "seat_stacks (t\<lparr>t_rake_collected := k\<rparr>) = seat_stacks t"
  by (simp_all add: seat_ids_def seat_stacks_def)

text \<open>
  What the end of a hand does: never a panic; the payouts are those of the settled layers, each seat
  gets its own, and with the rake they are the pot.
\<close>

definition showdown_effect :: "score_tables \<Rightarrow> table \<Rightarrow> table \<Rightarrow> payout_scan \<Rightarrow> bool" where
  "showdown_effect T t t' ps \<longleftrightarrow>
     scan_ok T t (hand_put t) ps \<and> t_stage t' = Complete \<and> same_seats t t' \<and>
     t_hand_order t' = t_hand_order t \<and> t_payouts t' = ps_payouts ps \<and>
     t_rake_collected t' = t_rake_collected t + ps_rake ps \<and>
     (\<forall>r\<in>set (t_players t). p_stack (pl t' r) = p_stack (pl t r) + amount_of (ps_payouts ps) (p_id (pl t r))) \<and>
     seat_stacks t' = seat_stacks t + msum (ps_payouts ps) \<and>
     (\<forall>r. p_contributed (pl t' r) = p_contributed (pl t r)) \<and>
     (\<exists>ho. t_last_outcome t' = Some ho \<and> ho_pot_results ho = ps_results ps \<and>
        ho_payouts ho = ps_payouts ps \<and> ho_winners ho = dedupe_ids {} (ps_winning_ids ps) \<and>
        ho_won_without_showdown ho = won_without_showdown t)"

lemma run_showdown_effect:
  assumes "pot_ready t"
  shows "\<exists>t' ps. run_showdown T t = Some t' \<and> showdown_effect T t t' ps"
proof -
  let ?t1 = "t\<lparr>t_stage := Showdown\<rparr>"
  obtain ps where ps: "settle_pots T ?t1 = Some ps" "scan_ok T t (hand_put t) ps"
    using settle_pots_ok [of ?t1 T] assms by auto
  let ?t1' = "?t1\<lparr>t_rake_collected := t_rake_collected t + ps_rake ps\<rparr>"
  let ?t2 = "pause_busted (credit_payouts ps ?t1')"
  obtain ho where ho: "make_outcome T ?t2 (showdown_contributions ?t1) ps (won_without_showdown t) = Some ho"
    "ho_pot_results ho = ps_results ps" "ho_payouts ho = ps_payouts ps"
    "ho_winners ho = dedupe_ids {} (ps_winning_ids ps)" "ho_won_without_showdown ho = won_without_showdown t"
    using make_outcome_total by blast
  let ?t' = "rotate_dealer (?t2\<lparr>t_payouts := ps_payouts ps, t_last_outcome := Some ho, t_stage := Complete\<rparr>)"
  have run: "run_showdown T t = Some ?t'"
    using ps(1) ho(1) by (simp add: run_showdown_def Let_def)
  have seats: "distinct (seat_ids ?t1')" "fst ` set (ps_payouts ps) \<subseteq> set (seat_ids ?t1')"
    and keys: "distinct (map fst (ps_payouts ps))"
    using assms ps(2) by (simp_all add: pot_ready_def scan_ok_def)
  have frame: "run_frame ?t1' ?t2"
    using credit_run_frame [of ?t1' "ps_payouts ps"] pause_run_frame [of "credit_payouts ps ?t1'"]
      same_seats_trans [of ?t1' "credit_payouts ps ?t1'" ?t2]
    by (auto simp: run_frame_def credit_payouts_def)
  have "seat_stacks ?t2 = seat_stacks t + msum (ps_payouts ps)"
    using seat_stacks_credit_all [OF seats] by (simp add: seat_stacks_pause credit_payouts_def)
  moreover have "seat_stacks ?t' = seat_stacks ?t2"
    by (simp add: seat_stacks_def)
  moreover have "p_stack (pl ?t2 r) = p_stack (pl t r) + amount_of (ps_payouts ps) (p_id (pl t r))"
    if "r \<in> set (t_players t)" for r
    using credit_all_stack [OF seats(1) _ keys, of r] that by (simp add: pause_stacks credit_payouts_def)
  ultimately have "showdown_effect T t ?t' ps"
    using frame ps(2) ho by (auto simp: showdown_effect_def run_frame_def same_seats_def)
  with run show ?thesis by blast
qed

section \<open>Rake\<close>

lemma award_rake: "award t whole a runout w ps = Some ps' \<Longrightarrow> ps_rake ps' = ps_rake ps"
  by (cases w) (auto simp: award_def Let_def split: if_splits)

lemma settle_layer_rake:
  assumes "settle_layer T t l ps = Some ps'" and "ps_carry ps = 0" and "rake_sane t (pl_amount l)"
  shows "ps_rake ps \<le> ps_rake ps' \<and>
    (ps_rake ps' - ps_rake ps) * 10000 \<le> pl_amount l * t_rake_bps t"
proof (cases "pl_uncalled l")
  case True
  then show ?thesis
    using assms(1,3) by (auto simp: settle_layer_def refund_layer_def Let_def rake_sane_def split: if_splits)
next
  case False
  note b = rake_for_layer_bounds [OF assms(3), of "ps_rake_cap ps"]
  have "ps_rake ps' = ps_rake ps \<or> ps_rake ps' = ps_rake ps + rake_for_layer t (pl_amount l) (ps_rake_cap ps)"
    using assms(1,2) False
    by (auto simp: settle_layer_def contested_layer_def Let_def split: bind_splits if_splits dest!: award_rake)
  then show ?thesis
    using b assms(3) by (auto simp: rake_sane_def)
qed

lemma settle_layers_rake:
  assumes "foldM (settle_layer T t) ls ps = Some ps'" and "scan_ok T t paid ps"
    and "\<forall>l\<in>set ls. payable t l \<and> rake_sane t (pl_amount l)"
  shows "(ps_rake ps' - ps_rake ps) * 10000 \<le> layer_total ls * t_rake_bps t"
  using assms
proof (induction ls arbitrary: ps paid)
  case (Cons l ls)
  obtain ps1 where ps1: "settle_layer T t l ps = Some ps1" "scan_ok T t (paid + pl_amount l) ps1"
    using settle_layer_ok [of t l T paid ps] Cons.prems by auto
  have "(ps_rake ps' - ps_rake ps1) * 10000 \<le> layer_total ls * t_rake_bps t"
    using Cons.IH [OF _ ps1(2)] Cons.prems ps1(1) by simp
  moreover have "(ps_rake ps1 - ps_rake ps) * 10000 \<le> pl_amount l * t_rake_bps t"
    using settle_layer_rake [OF ps1(1)] Cons.prems(2,3) by (simp add: scan_ok_def)
  ultimately show ?case by (simp add: layer_total_def algebra_simps)
qed (simp add: layer_total_def)

lemma settle_pots_rake:
  assumes "pot_ready t" and "settle_pots T t = Some ps"
  shows "ps_rake ps * 10000 \<le> hand_put t * t_rake_bps t"
proof -
  let ?ps0 = "\<lparr>ps_payouts = [], ps_winning_ids = [], ps_results = [], ps_winning_score = 0,
        ps_rake_cap = rake_cap t, ps_carry = 0, ps_rake = 0\<rparr>"
  let ?ls = "compute_side_pots (showdown_contributions t)"
  obtain ps1 where ps1: "foldM (settle_layer T t) ?ls ?ps0 = Some ps1" "ps_rake ps = ps_rake ps1"
    using assms(2) by (auto simp: settle_pots_def split: bind_splits if_splits)
  have "scan_ok T t 0 ?ps0" by (simp add: scan_ok_def results_paid_def)
  from settle_layers_rake [OF ps1(1) this] layers_payable [OF assms(1)]
  have "ps_rake ps1 * 10000 \<le> layer_total ?ls * t_rake_bps t" by simp
  moreover have "layer_total ?ls = hand_put t"
    using pots.split_total [of "showdown_contributions t"] put_total_contributions [of t] assms(1)
    by (simp add: pot_ready_def)
  ultimately show ?thesis using ps1(2) by simp
qed

lemma run_showdown_rake:
  assumes "pot_ready t" and "run_showdown T t = Some t'"
  shows "(t_rake_collected t' - t_rake_collected t) * 10000 \<le> hand_put t * t_rake_bps t"
proof -
  let ?t1 = "t\<lparr>t_stage := Showdown\<rparr>"
  obtain ps where ps: "settle_pots T ?t1 = Some ps"
    using settle_pots_ok [of ?t1 T] assms(1) by auto
  let ?t1' = "?t1\<lparr>t_rake_collected := t_rake_collected t + ps_rake ps\<rparr>"
  have "run_frame ?t1' (pause_busted (credit_payouts ps ?t1'))"
    using credit_run_frame [of ?t1' "ps_payouts ps"] pause_run_frame [of "credit_payouts ps ?t1'"]
      same_seats_trans [of ?t1' "credit_payouts ps ?t1'" "pause_busted (credit_payouts ps ?t1')"]
    by (auto simp: run_frame_def credit_payouts_def)
  then have "t_rake_collected t' = t_rake_collected t + ps_rake ps"
    using assms(2) ps by (auto simp: run_showdown_def Let_def run_frame_def split: bind_splits)
  then show ?thesis
    using settle_pots_rake [of ?t1 T ps] assms(1) ps by simp
qed

section \<open>Every layer has its results\<close>

definition result_of :: "pot_layer \<Rightarrow> pot_result \<Rightarrow> bool" where
  "result_of l res \<longleftrightarrow> pr_amount res = pl_amount l \<and> pr_eligible_player_ids res = pl_eligible l \<and>
     pr_refund res = pl_uncalled l"

lemma award_results:
  assumes "award t whole a runout (ws, ids, s) ps = Some ps'"
  shows "\<exists>res. ps_results ps' = ps_results ps @ [res] \<and> pr_amount res = whole \<and>
    pr_eligible_player_ids res = ids \<and> \<not> pr_refund res"
  using assms by (auto simp: award_def Let_def split: if_splits)

lemma settle_layer_results:
  assumes "settle_layer T t l ps = Some ps'" and "payable t l" and "ps_carry ps = 0"
  shows "\<exists>rs. ps_results ps' = ps_results ps @ rs \<and> (\<exists>res\<in>set rs. result_of l res)"
proof (cases "pl_uncalled l")
  case True
  then show ?thesis
    using assms(1) by (auto simp: settle_layer_def refund_layer_def Let_def result_of_def split: if_splits)
next
  case False
  note ev = evaluate_layer_best [of l t T] 
  have ids: "\<forall>i\<in>set (pl_eligible l). contender t i" "pl_eligible l \<noteq> []"
    using assms(2) False by (simp_all add: payable_def)
  show ?thesis
    using assms(1,3) False ids best_hands_nonempty [OF ids(2), of T t "t_board t"]
    by (auto simp: settle_layer_def contested_layer_def ev result_of_def Let_def
        split: bind_splits if_splits dest!: award_results)
qed

lemma settle_layers_results:
  assumes "foldM (settle_layer T t) ls ps = Some ps'" and "scan_ok T t paid ps"
    and "\<forall>l\<in>set ls. payable t l \<and> rake_sane t (pl_amount l)"
  shows "\<exists>rs. ps_results ps' = ps_results ps @ rs \<and> (\<forall>l\<in>set ls. \<exists>res\<in>set rs. result_of l res)"
  using assms
proof (induction ls arbitrary: ps paid)
  case (Cons l ls)
  obtain ps1 where ps1: "settle_layer T t l ps = Some ps1" "scan_ok T t (paid + pl_amount l) ps1"
    using settle_layer_ok [of t l T paid ps] Cons.prems by auto
  obtain rs1 where "ps_results ps1 = ps_results ps @ rs1" "\<exists>res\<in>set rs1. result_of l res"
    using settle_layer_results [OF ps1(1)] Cons.prems(2,3) by (auto simp: scan_ok_def)
  moreover obtain rs where "ps_results ps' = ps_results ps1 @ rs"
      "\<forall>l\<in>set ls. \<exists>res\<in>set rs. result_of l res"
    using Cons.IH [OF _ ps1(2)] Cons.prems ps1(1) by auto
  ultimately show ?case by auto
qed simp

lemma settle_pots_results:
  assumes "pot_ready t" and "settle_pots T t = Some ps"
    and "l \<in> set (compute_side_pots (showdown_contributions t))"
  shows "\<exists>res\<in>set (ps_results ps). result_of l res"
proof -
  let ?ps0 = "\<lparr>ps_payouts = [], ps_winning_ids = [], ps_results = [], ps_winning_score = 0,
        ps_rake_cap = rake_cap t, ps_carry = 0, ps_rake = 0\<rparr>"
  obtain ps1 where ps1: "foldM (settle_layer T t) (compute_side_pots (showdown_contributions t)) ?ps0 = Some ps1"
      "ps_results ps = ps_results ps1"
    using assms(2) by (auto simp: settle_pots_def split: bind_splits if_splits)
  have "scan_ok T t 0 ?ps0" by (simp add: scan_ok_def results_paid_def)
  from settle_layers_results [OF ps1(1) this] layers_payable [OF assms(1)] assms(3) ps1(2)
  show ?thesis by auto
qed

lemma run_showdown_results:
  assumes "pot_ready t" and "run_showdown T t = Some t'" and "t_last_outcome t' = Some ho"
    and "l \<in> set (compute_side_pots (showdown_contributions t))"
  shows "\<exists>res\<in>set (ho_pot_results ho). result_of l res"
proof -
  let ?t1 = "t\<lparr>t_stage := Showdown\<rparr>"
  obtain ps where ps: "settle_pots T ?t1 = Some ps"
    using settle_pots_ok [of ?t1 T] assms(1) by auto
  have "ho_pot_results ho = ps_results ps"
    using assms(2,3) ps
    by (auto simp: run_showdown_def make_outcome_def Let_def split: bind_splits)
  moreover have "showdown_contributions ?t1 = showdown_contributions t"
    by (simp add: showdown_contributions_def)
  ultimately show ?thesis
    using settle_pots_results [of ?t1 T ps l] assms(1,4) ps by simp
qed

lemma showdown_scan:
  assumes "pot_ready t" and "run_showdown T t = Some t'"
  obtains ps where "showdown_effect T t t' ps"
  using run_showdown_effect [OF assms(1), of T] assms(2) by auto

section \<open>Properties\<close>

text \<open>A table at the river: \<open>c\<close> folded, \<open>a\<close> is all-in for less, \<open>b\<close> and \<open>d\<close> put in the same.\<close>

definition sample_player :: "string \<Rightarrow> int \<Rightarrow> int \<Rightarrow> player_state \<Rightarrow> card \<times> card \<Rightarrow> player" where
  "sample_player i stack put s cards = no_player\<lparr>p_id := i, p_ready := True, p_stack := stack,
     p_contributed := put, p_state := s, p_hole_cards := cards\<rparr>"

definition river_table :: table where
  "river_table = (new_table
     [sample_player ''a'' 0 50 AllIn (Card 14 0, Card 14 1),
      sample_player ''b'' 380 120 Active (Card 13 0, Card 13 1),
      sample_player ''c'' 920 80 Folded (Card 7 0, Card 2 1),
      sample_player ''d'' 880 120 Active (Card 9 0, Card 9 1)] 5 10)
     \<lparr>t_stage := River, t_hand_order := [0, 1, 2, 3], t_rake_bps := 250, t_currency_mode := ''sandbox'',
      t_board := [Card 3 0, Card 4 1, Card 8 2, Card 10 3, Card 12 0]\<rparr>"

lemma river_table_frame:
  "t_players river_table = [0, 1, 2, 3]" "t_hand_order river_table = [0, 1, 2, 3]"
  "hand_put river_table = 370" "seat_stacks river_table = 2180" "t_rake_collected river_table = 0"
  by (simp_all add: river_table_def new_table_def new_table_with_variant_def upt_rec hand_put_def
      seat_stacks_def sample_player_def)

lemma river_table_ready: "pot_ready river_table"
  by (simp add: pot_ready_def river_table_frame rake_sane_def i64_max_def seat_ids_def)
    (simp add: river_table_def new_table_def new_table_with_variant_def sample_player_def)

text \<open>C3: the end of a hand never panics and moves every chip. When seats have distinct IDs and the dealt
  players are seated, showdown completes the hand, the payouts together with the new rake are exactly
  what the players put in, and they reach the stacks.\<close>

theorem showdown_conserves:
  assumes "pot_ready t"
  shows "\<exists>t'. run_showdown T t = Some t' \<and> t_stage t' = Complete \<and>
    msum (t_payouts t') + (t_rake_collected t' - t_rake_collected t) = hand_put t \<and>
    seat_stacks t' + t_rake_collected t' = seat_stacks t + hand_put t + t_rake_collected t"
  using run_showdown_effect [OF assms, of T] by (auto simp: showdown_effect_def scan_ok_def)

lemma showdown_conserves_witness:
  "\<forall>T. \<exists>t'. run_showdown T river_table = Some t' \<and> seat_stacks t' + t_rake_collected t' = 2550"
  using showdown_conserves [OF river_table_ready] by (auto simp: river_table_frame)

text \<open>C16: pots go to the best hands. Every layer of the pot has a result in the outcome of a showdown, and
  every result that is not a refund was won by exactly those players eligible for it whose seven cards
  score highest on that runout's board; they are all still in the hand, they alone are paid from it,
  and what they get is the pot's payout.\<close>

theorem showdown_winners_best:
  assumes "pot_ready t" and "run_showdown T t = Some t'" and "t_last_outcome t' = Some ho"
  shows "(\<forall>l\<in>set (compute_side_pots (showdown_contributions t)). \<exists>res\<in>set (ho_pot_results ho).
      pr_amount res = pl_amount l \<and> pr_eligible_player_ids res = pl_eligible l \<and> pr_refund res = pl_uncalled l) \<and>
    (\<forall>res\<in>set (ho_pot_results ho). \<not> pr_refund res \<longrightarrow> pr_winners res \<noteq> [] \<and>
      set (pr_winners res) = {i \<in> set (pr_eligible_player_ids res). \<forall>j\<in>set (pr_eligible_player_ids res).
        hand_score T t (result_board t res) j \<le> hand_score T t (result_board t res) i} \<and>
      (\<forall>i\<in>set (pr_eligible_player_ids res). contender t i) \<and>
      fst ` set (pr_payouts res) = set (pr_winners res) \<and> msum (pr_payouts res) = pr_payout_amount res)"
proof -
  obtain ps where "showdown_effect T t t' ps" using showdown_scan [OF assms(1,2)] .
  then have "\<forall>res\<in>set (ho_pot_results ho). result_ok T t res"
    using assms(3) by (auto simp: showdown_effect_def scan_ok_def)
  moreover have "\<forall>l\<in>set (compute_side_pots (showdown_contributions t)).
      \<exists>res\<in>set (ho_pot_results ho). result_of l res"
    using run_showdown_results [OF assms] by blast
  ultimately show ?thesis
    by (auto simp: result_ok_def best_hands_iff result_of_def)
qed

lemma river_table_pots:
  "compute_side_pots (showdown_contributions river_table) =
     [\<lparr>pl_amount = 200, pl_eligible = [''a'', ''b'', ''d''], pl_uncalled = False\<rparr>,
      \<lparr>pl_amount = 170, pl_eligible = [''b'', ''d''], pl_uncalled = False\<rparr>]"
proof -
  have cs: "showdown_contributions river_table =
     [\<lparr>co_player = ''a'', co_amount = 50, co_folded = False\<rparr>,
      \<lparr>co_player = ''b'', co_amount = 120, co_folded = False\<rparr>,
      \<lparr>co_player = ''c'', co_amount = 80, co_folded = True\<rparr>,
      \<lparr>co_player = ''d'', co_amount = 120, co_folded = False\<rparr>]"
    by (simp add: showdown_contributions_def river_table_frame)
      (simp add: river_table_def new_table_def new_table_with_variant_def sample_player_def)
  have levels: "boundary_levels (showdown_contributions river_table) = [50, 120]"
    unfolding cs by (simp add: boundary_levels_def top_live_def)
  show ?thesis
    unfolding compute_side_pots_def levels scan_levels_def
    by (simp add: level_step_def band_of_def band_add_def cs Let_def)
qed

lemma showdown_winners_best_witness:
  "\<forall>T. \<exists>t' ho res. run_showdown T river_table = Some t' \<and> t_last_outcome t' = Some ho \<and>
     res \<in> set (ho_pot_results ho) \<and> pr_amount res = 170 \<and> pr_winners res \<noteq> [] \<and>
     set (pr_winners res) \<subseteq> {''b'', ''d''}"
proof
  fix T
  obtain t' ho where t': "run_showdown T river_table = Some t'" "t_last_outcome t' = Some ho"
    using run_showdown_effect [OF river_table_ready, of T] by (auto simp: showdown_effect_def)
  note w = showdown_winners_best [OF river_table_ready t']
  obtain res where "res \<in> set (ho_pot_results ho)" "pr_amount res = 170"
    "pr_eligible_player_ids res = [''b'', ''d'']" "\<not> pr_refund res"
    using w by (auto simp: river_table_pots)
  moreover from this have "pr_winners res \<noteq> []" "set (pr_winners res) \<subseteq> {''b'', ''d''}"
    using w by auto
  ultimately show "\<exists>t' ho res. run_showdown T river_table = Some t' \<and> t_last_outcome t' = Some ho \<and>
     res \<in> set (ho_pot_results ho) \<and> pr_amount res = 170 \<and> pr_winners res \<noteq> [] \<and>
     set (pr_winners res) \<subseteq> {''b'', ''d''}"
    using t' by blast
qed

text \<open>The rake of any showdown, whatever basis points the table carries.\<close>

lemma showdown_rake_within:
  assumes "pot_ready t" and "0 \<le> t_big_blind t" and "t_big_blind t * 3 \<le> i64_max"
    and "run_showdown T t = Some t'"
  shows "let rake = t_rake_collected t' - t_rake_collected t; n = length (t_hand_order t)
    in 0 \<le> rake \<and> rake * 10000 \<le> hand_put t * t_rake_bps t \<and> rake \<le> t_big_blind t \<and>
      (n \<le> 2 \<longrightarrow> 2 * rake \<le> t_big_blind t) \<and> (n \<le> 4 \<longrightarrow> 4 * rake \<le> 3 * t_big_blind t) \<and>
      (length (t_board t) < 3 \<or> t_rake_bps t = 0 \<longrightarrow> rake = 0)"
proof -
  obtain ps where ps: "showdown_effect T t t' ps" using showdown_scan [OF assms(1,4)] .
  let ?b = "t_big_blind t"
  have "0 \<le> ?b * 3" using assms(2) by simp
  then have w: "wrap64 (?b * 3) = ?b * 3"
    using assms(3) by (intro wrap64_id) (simp add: in_i64_def)
  have cap: "0 \<le> rake_cap t" "rake_cap t \<le> ?b"
    "length (t_hand_order t) \<le> 2 \<longrightarrow> 2 * rake_cap t \<le> ?b"
    "length (t_hand_order t) \<le> 4 \<longrightarrow> 4 * rake_cap t \<le> 3 * ?b"
    using go_div_bounds [of ?b 2] go_div_bounds [of "?b * 3" 4] assms(2) w
    by (auto simp: rake_cap_def Let_def)
  have none: "length (t_board t) < 3 \<or> t_rake_bps t = 0 \<Longrightarrow> rake_cap t = 0"
    by (auto simp: rake_cap_def)
  have r: "0 \<le> ps_rake ps" "ps_rake ps \<le> rake_cap t"
    "t_rake_collected t' - t_rake_collected t = ps_rake ps"
    using ps cap(1) by (auto simp: showdown_effect_def scan_ok_def)
  then show ?thesis
    using cap none run_showdown_rake [OF assms(1,4)] by (auto simp: Let_def)
qed

lemma hand_put_configured [simp]: "hand_put (configure_rake mode t) = hand_put t"
  by (simp add: hand_put_def configure_rake_def)

lemma configured_fields [simp]:
  "t_rake_bps (configure_rake mode t) = (if mode = ''sandbox'' then 250 else 0)"
  "t_rake_collected (configure_rake mode t) = t_rake_collected t"
  "t_big_blind (configure_rake mode t) = t_big_blind t" "t_board (configure_rake mode t) = t_board t"
  "t_hand_order (configure_rake mode t) = t_hand_order t"
  by (simp_all add: configure_rake_def)

text \<open>C35: rake bounds. On a table whose rake was configured for its room's currency mode, a showdown takes
  no rake at all unless the mode is the sandbox's and at least three board cards are out, and then at
  least nothing and at most 2.5 percent of what was put in, and never more than the cap of the table
  size (half a big blind for two dealt in, three quarters for up to four, one big blind beyond).\<close>

theorem showdown_rake_bounds:
  assumes "pot_ready (configure_rake mode t)" and "0 \<le> t_big_blind t" and "t_big_blind t * 3 \<le> i64_max"
    and "run_showdown T (configure_rake mode t) = Some t'"
  shows "let rake = t_rake_collected t' - t_rake_collected t; n = length (t_hand_order t)
    in 0 \<le> rake \<and> rake * 1000 \<le> hand_put t * 25 \<and> rake \<le> t_big_blind t \<and>
      (n \<le> 2 \<longrightarrow> 2 * rake \<le> t_big_blind t) \<and> (n \<le> 4 \<longrightarrow> 4 * rake \<le> 3 * t_big_blind t) \<and>
      (mode \<noteq> ''sandbox'' \<or> length (t_board t) < 3 \<longrightarrow> rake = 0)"
proof -
  have "0 \<le> hand_put t"
    using assms(1) by (simp add: pot_ready_def rake_sane_def)
  then show ?thesis
    using showdown_rake_within [OF assms(1) _ _ assms(4)] assms(2,3)
    by (auto simp: Let_def split: if_splits)
qed

lemma river_table_configured: "configure_rake ''sandbox'' river_table = river_table"
  by (simp add: river_table_def configure_rake_def)

lemma showdown_rake_bounds_witness:
  "\<forall>T. \<exists>t'. run_showdown T river_table = Some t' \<and> t_rake_collected t' \<le> 7 \<and> 0 \<le> t_rake_collected t'"
proof
  fix T
  obtain t' where run: "run_showdown T river_table = Some t'"
    using run_showdown_effect [OF river_table_ready, of T] by blast
  have "t_big_blind river_table = 10" by (simp add: river_table_def new_table_def new_table_with_variant_def)
  with showdown_rake_bounds [where mode = "''sandbox''" and t = river_table and T = T and t' = t'] run
  show "\<exists>t'. run_showdown T river_table = Some t' \<and> t_rake_collected t' \<le> 7 \<and> 0 \<le> t_rake_collected t'"
    by (simp add: river_table_configured river_table_ready river_table_frame Let_def i64_max_def)
qed

end
