(* ===== verification/Hand_Play.thy ===== *)
theory Hand_Play
  imports Showdown
begin

text \<open>
  The life of a hand, from \<open>hand.go\<close> and \<open>snapshot.go\<close>: the deal (\<open>StartHand\<close>), whose turn it is
  (\<open>currentPlayerToAct\<close>), a player's action (\<open>Act\<close>), the street after a closed betting round
  (\<open>advanceStage\<close>), the paced runout, and leaving the hand (\<open>SitOutForActor\<close>, \<open>RequestExit\<close>,
  \<open>CancelExit\<close>). Values the operating system's random source returns are arguments.
\<close>

section \<open>Blinds and betting rounds\<close>

definition post_blind :: "pref \<Rightarrow> int \<Rightarrow> table \<Rightarrow> table" where
  "post_blind r amount0 t =
     (let p = pl t r; all_in = (amount0 \<ge> p_stack p); amount = (if all_in then p_stack p else amount0);
          t1 = (if all_in
                then (upd r (\<lambda>p. p\<lparr>p_state := AllIn\<rparr>) t)
                       \<lparr>t_was_ever_all_in := insert (p_id p) (t_was_ever_all_in t)\<rparr>
                else t)
      in upd r (\<lambda>p. p\<lparr>p_stack := p_stack p - amount, p_contributed := p_contributed p + amount\<rparr>) t1)"

definition round_entry :: "player \<Rightarrow> bet_player" where
  "round_entry p = \<lparr>bp_id = p_id p, bp_stack = p_stack p, bp_contributed = 0, bp_folded = False,
     bp_all_in = (p_state p = AllIn), bp_acted = False\<rparr>"

definition start_betting_round :: "pref list \<Rightarrow> int \<Rightarrow> int \<Rightarrow> table \<Rightarrow> table" where
  "start_betting_round active current_bet min_raise t =
     (let live = filter (\<lambda>r. p_state (pl t r) \<noteq> Folded) active;
          states = map (\<lambda>r. round_entry (pl t r)) live
      in t\<lparr>t_round := Some (new_round states current_bet min_raise),
           t_round_idx := map_of (rev (zip (map bp_id states) [0..<length states])),
           t_round_baseline := (\<lambda>_. 0)\<rparr>)"

definition seed_round_contribution :: "string \<Rightarrow> int \<Rightarrow> table \<Rightarrow> table option" where
  "seed_round_contribution pid amount t =
     (case t_round_idx t pid of
        None \<Rightarrow> Some t
      | Some i \<Rightarrow> do {
          r \<leftarrow> t_round t;
          if i \<ge> length (rd_players r) then None
          else Some (t\<lparr>t_round := Some (r\<lparr>rd_players := (rd_players r)[i := (rd_players r ! i)\<lparr>bp_contributed := amount\<rparr>]\<rparr>),
                       t_round_baseline := (t_round_baseline t)(pid := amount)\<rparr>)})"

section \<open>Starting a hand\<close>

definition refund_winner_request :: "winner_cards_request \<Rightarrow> table \<Rightarrow> table" where
  "refund_winner_request req t =
     (case player_by_id t (wr_requester_id req) of
        Some r \<Rightarrow> upd r (\<lambda>p. p\<lparr>p_stack := p_stack p + wr_fee req\<rparr>) t
      | None \<Rightarrow> t\<lparr>t_rake_collected := t_rake_collected t + wr_fee req\<rparr>)"

definition refund_pending_winner_cards :: "table \<Rightarrow> table" where
  "refund_pending_winner_cards t =
     (fold refund_winner_request (t_pending_winner_cards t) t)\<lparr>t_pending_winner_cards := []\<rparr>"

text \<open>Too few players: the table goes back to waiting and forgets the finished hand.\<close>

definition refuse_start :: "table \<Rightarrow> table" where
  "refuse_start t =
     fold (\<lambda>r. upd r (\<lambda>p. p\<lparr>p_contributed := 0\<rparr>)) (t_players t)
       (t\<lparr>t_hand_order := [], t_payouts := [], t_last_outcome := None, t_board := [], t_board_two := [],
          t_board_split_at := 0, t_run_it_twice := False, t_runout_phase := 0, t_shuffle := None,
          t_short_shuffle := None, t_next_card := 0, t_stage := WaitingForPlayers\<rparr>)"

datatype 'a random = ReadFailed | Read 'a

definition new_deck :: "bytes \<Rightarrow> table \<Rightarrow> table option" where
  "new_deck seed t =
     (if t_variant t = ShortDeck
      then do { s \<leftarrow> new_short_deck_shuffle seed; Some (t\<lparr>t_short_shuffle := Some s, t_shuffle := None\<rparr>) }
      else do { s \<leftarrow> new_shuffle seed; Some (t\<lparr>t_shuffle := Some s, t_short_shuffle := None\<rparr>) })"

definition clear_shown :: "player \<Rightarrow> player" where
  "clear_shown p = p\<lparr>p_voluntarily_shown := False, p_voluntarily_shown_cards := (False, False),
     p_hand_start_stack := None\<rparr>"

definition reset_hand :: "table \<Rightarrow> table" where
  "reset_hand t =
     (let t1 = refund_pending_winner_cards
            (t\<lparr>t_next_card := 0, t_board := [], t_board_two := [], t_board_split_at := 0,
               t_run_it_twice := False, t_runout_phase := 0, t_payouts := [], t_last_outcome := None,
               t_was_ever_all_in := {}\<rparr>);
          t2 = t1\<lparr>t_rake_collected := 0, t_rabbit_hunt_slots := (\<lambda>_. 0), t_winner_cards_paid := {},
                  t_winner_cards_asked := {}, t_winner_cards_closed := False, t_seen_action_ids := {}\<rparr>
      in fold (\<lambda>r. upd r clear_shown) (t_players t2) t2)"

text \<open>One pass over the seats: who is dealt in, and who enters out of position and owes a big blind.\<close>

definition sit_this_one_out :: "player \<Rightarrow> player" where
  "sit_this_one_out p =
     p\<lparr>p_state := (if p_state p = PendingEntry then PendingEntry else SittingOut), p_contributed := 0\<rparr>"

definition deal_player_in :: "player \<Rightarrow> player" where
  "deal_player_in p = recharge_time_bank
     (p\<lparr>p_hand_start_stack := Some (p_stack p), p_state := Active, p_contributed := 0\<rparr>)"

definition select_player :: "pref \<Rightarrow> table \<times> pref list \<times> string set \<Rightarrow> table \<times> pref list \<times> string set" where
  "select_player r = (\<lambda>(t, active, entrants).
     let t1 = upd r initialize_time_bank t; p = pl t1 r
     in if \<not> eligible_for_next_hand t1 p then (upd r sit_this_one_out t1, active, entrants)
        else let entrants' = (if p_state p = PendingEntry \<or> p_state p = SittingOut
                              then insert (p_id p) entrants else entrants);
                 t2 = (if p_state p = PendingEntry
                       then t1\<lparr>t_ready_to_post := t_ready_to_post t1 - {p_id p}\<rparr> else t1);
                 t3 = (if p_state p = SittingOut
                       then t2\<lparr>t_owes_big_blind := t_owes_big_blind t2 - {p_id p}\<rparr> else t2)
             in (upd r deal_player_in t3, active @ [r], entrants'))"

definition select_players :: "table \<Rightarrow> table \<times> pref list \<times> string set" where
  "select_players t = fold select_player (t_players t) (t, [], {})"

text \<open>
  \<open>randomIndex\<close> on the stream of 64-bit values the source returns; \<open>None\<close> when every value of the
  stream is rejected.
\<close>

fun random_index :: "64 word random list \<Rightarrow> nat \<Rightarrow> (hand_error + nat) option" where
  "random_index ds n =
     (if n = 0 then Some (Inl RandomFailed)
      else case ds of
          [] \<Rightarrow> None
        | ReadFailed # _ \<Rightarrow> Some (Inl RandomFailed)
        | Read v # ds' \<Rightarrow>
            if v < (-1) - ((-1) mod of_nat n) then Some (Inr (unat (v mod of_nat n)))
            else random_index ds' n)"

definition draw_dealer :: "64 word random list \<Rightarrow> pref list \<Rightarrow> table \<Rightarrow> (hand_error + table) option" where
  "draw_dealer ds active t =
     (if t_dealer_drawn t then Some (Inr t)
      else do {
        d \<leftarrow> random_index ds (length active);
        Some (case d of
            Inl e \<Rightarrow> Inl e
          | Inr i \<Rightarrow> Inr ((case index_of (active ! i) (t_players t) of
                None \<Rightarrow> t
              | Some s \<Rightarrow> t\<lparr>t_dealer_seat := int s\<rparr>)\<lparr>t_dealer_drawn := True\<rparr>))})"

definition set_hole :: "nat \<Rightarrow> card \<Rightarrow> player \<Rightarrow> player" where
  "set_hole pass c p = p\<lparr>p_hole_cards :=
     (if pass = 0 then (c, snd (p_hole_cards p)) else (fst (p_hole_cards p), c))\<rparr>"

definition deal_hole :: "nat \<times> pref \<Rightarrow> table \<Rightarrow> table option" where
  "deal_hole = (\<lambda>(pass, r) t. do { (c, t') \<leftarrow> deal_card t; Some (upd r (set_hole pass c) t') })"

definition deal_order :: "nat \<Rightarrow> pref list \<Rightarrow> (nat \<times> pref) list" where
  "deal_order d active = concat (map (\<lambda>pass. map (\<lambda>offset. (pass, active ! ((d + offset) mod length active)))
     [1..<Suc (length active)]) [0, 1])"

definition post_entrant :: "string set \<Rightarrow> pref \<Rightarrow> pref \<Rightarrow> pref \<Rightarrow> table \<Rightarrow> table" where
  "post_entrant entrants sb bb r t =
     (if p_id (pl t r) \<in> entrants \<and> r \<noteq> bb \<and> r \<noteq> sb then post_blind r (t_big_blind t) t else t)"

definition seed_entrant :: "string set \<Rightarrow> pref \<Rightarrow> table \<Rightarrow> table option" where
  "seed_entrant entrants r t =
     (if p_id (pl t r) \<in> entrants
      then seed_round_contribution (p_id (pl t r)) (p_contributed (pl t r)) t else Some t)"

definition post_and_deal :: "pref list \<Rightarrow> string set \<Rightarrow> table \<Rightarrow> table option" where
  "post_and_deal active entrants t = do {
     let (sb, bb) = blind_seats t active;
     let t1 = post_blind (active ! sb) (t_small_blind t) t;
     let t2 = post_blind (active ! bb) (t_big_blind t1) t1;
     t3 \<leftarrow> foldM deal_hole (deal_order (dealer_index_within t2 active) active) t2;
     let t4 = fold (post_entrant entrants (active ! sb) (active ! bb)) active t3;
     let t5 = start_betting_round active (t_big_blind t4) (t_big_blind t4) t4;
     t6 \<leftarrow> seed_round_contribution (p_id (pl t5 (active ! sb))) (p_contributed (pl t5 (active ! sb))) t5;
     t7 \<leftarrow> seed_round_contribution (p_id (pl t6 (active ! bb))) (p_contributed (pl t6 (active ! bb))) t6;
     t8 \<leftarrow> foldM (seed_entrant entrants) active t7;
     Some (t8\<lparr>t_stage := PreFlop\<rparr>)
   }"

text \<open>
  \<open>StartHand\<close>. An error leaves the changes made before it in place, so it carries the table. The
  outer \<open>None\<close> is a panic, or a random source none of whose values is accepted.
\<close>

definition start_hand :: "bytes random \<Rightarrow> 64 word random list \<Rightarrow> table \<Rightarrow>
    (hand_error \<times> table + table) option" where
  "start_hand seed ds t =
     (let ready = length (filter (\<lambda>r. eligible_for_next_hand t (pl t r)) (t_players t))
      in if ready < 2 then Some (Inl (NeedTwoReady ready, refuse_start t))
         else case seed of
             ReadFailed \<Rightarrow> Some (Inl (RandomFailed, t))
           | Read s \<Rightarrow> do {
               t1 \<leftarrow> new_deck s t;
               let (t2, active, entrants) = select_players (reset_hand t1);
               let t3 = t2\<lparr>t_hand_order := active\<rparr>;
               drawn \<leftarrow> draw_dealer ds active t3;
               case drawn of
                 Inl e \<Rightarrow> Some (Inl (e, t3))
               | Inr t4 \<Rightarrow> map_option Inr (post_and_deal active entrants t4)
             })"

section \<open>Whose turn it is\<close>

definition is_betting_stage :: "stage \<Rightarrow> bool" where
  "is_betting_stage s \<longleftrightarrow> s = PreFlop \<or> s = Flop \<or> s = Turn \<or> s = River"

definition current_player_can_act :: "table \<Rightarrow> string \<Rightarrow> bool option" where
  "current_player_can_act t pid =
     (case t_round_idx t pid of
        None \<Rightarrow> Some False
      | Some i \<Rightarrow>
          if player_by_id t pid = None then Some False
          else do {
            r \<leftarrow> t_round t;
            if i \<ge> length (rd_players r) then None
            else let bs = rd_players r ! i
                 in Some (\<not> bp_folded bs \<and> \<not> bp_all_in bs \<and>
                          (\<not> bp_acted bs \<or> bp_contributed bs \<noteq> rd_current_bet r))})"

text \<open>The seats dealt into the hand, in table order, rotated to the first to act.\<close>

definition scan_seats :: "table \<Rightarrow> pref list" where
  "scan_seats t = filter (\<lambda>r. dealt_into_current_hand t (p_id (pl t r))) (t_players t)"

definition scan_start :: "table \<Rightarrow> pref list \<Rightarrow> nat" where
  "scan_start t active =
     (let n = length active;
          anchor = (if t_stage t = PreFlop then (snd (blind_seats t active) + 1) mod n
                    else (dealer_index_within t active + 1) mod n)
      in case t_round t of
           None \<Rightarrow> anchor
         | Some r \<Rightarrow>
             if rd_last_actor r = '''' then anchor
             else case index_of (rd_last_actor r) (map (\<lambda>r. p_id (pl t r)) active) of
                 None \<Rightarrow> anchor
               | Some i \<Rightarrow> (i + 1) mod n)"

definition action_scan_order :: "table \<Rightarrow> string list" where
  "action_scan_order t =
     (let active = scan_seats t; n = length active
      in if n = 0 then []
         else let start = scan_start t active
              in map (\<lambda>i. p_id (pl t (active ! ((start + i) mod n)))) [0..<n])"

fun first_to_act :: "table \<Rightarrow> string list \<Rightarrow> string option" where
  "first_to_act t [] = Some ''''"
| "first_to_act t (pid # ids) = do {
     can \<leftarrow> current_player_can_act t pid;
     if can then Some pid else first_to_act t ids }"

definition current_player_to_act :: "table \<Rightarrow> string option" where
  "current_player_to_act t =
     (if \<not> is_betting_stage (t_stage t) \<or> t_round t = None then Some ''''
      else first_to_act t (action_scan_order t))"

section \<open>Advancing the hand\<close>

text \<open>How many players are left in the hand, and how many of them can still bet.\<close>

definition count_remaining :: "table \<Rightarrow> nat" where
  "count_remaining t = length (filter (\<lambda>r. still_in_hand (pl t r)) (t_hand_order t))"

definition count_actable :: "table \<Rightarrow> nat" where
  "count_actable t =
     length (filter (\<lambda>r. still_in_hand (pl t r) \<and> p_state (pl t r) \<noteq> AllIn) (t_hand_order t))"

definition active_players :: "table \<Rightarrow> pref list" where
  "active_players t = filter (\<lambda>r. still_in_hand (pl t r)) (t_hand_order t)"

definition deal_street :: "table \<Rightarrow> table option" where
  "deal_street t =
     (case t_stage t of
        PreFlop \<Rightarrow> map_option (\<lambda>t. t\<lparr>t_stage := Flop\<rparr>) (deal_flop t)
      | Flop \<Rightarrow> map_option (\<lambda>t. t\<lparr>t_stage := Turn\<rparr>) (deal_board_card t)
      | Turn \<Rightarrow> map_option (\<lambda>t. t\<lparr>t_stage := River\<rparr>) (deal_board_card t)
      | _ \<Rightarrow> Some t)"

definition deal_second_street :: "table \<Rightarrow> table option" where
  "deal_second_street t =
     (case t_stage t of
        PreFlop \<Rightarrow> do { t1 \<leftarrow> burn_card t; (cs, t2) \<leftarrow> deal_cards 3 t1;
                        Some (t2\<lparr>t_board_two := t_board_two t2 @ cs, t_stage := Flop\<rparr>) }
      | Flop \<Rightarrow> do { t1 \<leftarrow> burn_card t; (c, t2) \<leftarrow> deal_card t1;
                     Some (t2\<lparr>t_board_two := t_board_two t2 @ [c], t_stage := Turn\<rparr>) }
      | Turn \<Rightarrow> do { t1 \<leftarrow> burn_card t; (c, t2) \<leftarrow> deal_card t1;
                     Some (t2\<lparr>t_board_two := t_board_two t2 @ [c], t_stage := River\<rparr>) }
      | _ \<Rightarrow> Some t)"

definition advance_runout_street :: "score_tables \<Rightarrow> table \<Rightarrow> table option" where
  "advance_runout_street T t =
     (if t_run_it_twice t \<and> t_runout_phase t = 2
      then do {
        t1 \<leftarrow> deal_second_street t;
        if t_stage t1 = River then run_showdown T t1 else Some t1
      }
      else do {
        t1 \<leftarrow> deal_street t;
        if t_stage t1 \<noteq> River then Some t1
        else if \<not> t_run_it_twice t1 then run_showdown T t1
        else let t2 = t1\<lparr>t_runout_phase := 2\<rparr>
             in if t_board_split_at t2 = 0 then Some (t2\<lparr>t_stage := PreFlop\<rparr>)
                else if t_board_split_at t2 = 3 then Some (t2\<lparr>t_stage := Flop\<rparr>)
                else if t_board_split_at t2 = 4 then Some (t2\<lparr>t_stage := Turn\<rparr>)
                else run_showdown T t2
      })"

definition close_betting :: "table \<Rightarrow> table" where
  "close_betting t =
     (if t_runout_phase t = 0 \<and> t_stage t \<noteq> River
      then t\<lparr>t_run_it_twice := should_run_it_twice t, t_board_split_at := length (t_board t),
             t_runout_phase := 1\<rparr>
      else t)"

definition next_street :: "score_tables \<Rightarrow> table \<Rightarrow> table option" where
  "next_street T t =
     (if t_stage t = River then run_showdown T t
      else do {
        t1 \<leftarrow> deal_street t;
        Some (start_betting_round (active_players t1) 0 (t_big_blind t1) t1)
      })"

definition advance_stage :: "score_tables \<Rightarrow> table \<Rightarrow> table option" where
  "advance_stage T t =
     (if count_remaining t \<le> 1 then run_showdown T t
      else if count_actable t \<le> 1 then advance_runout_street T (close_betting t)
      else next_street T t)"

definition is_awaiting_runout :: "table \<Rightarrow> bool" where
  "is_awaiting_runout t =
     (if t_stage t \<noteq> Flop \<and> t_stage t \<noteq> Turn \<and>
         \<not> (t_run_it_twice t \<and> t_runout_phase t = 2 \<and> t_stage t = PreFlop) then False
      else if (case t_round t of None \<Rightarrow> False | Some r \<Rightarrow> \<not> is_complete r) then False
      else count_remaining t > 1 \<and> count_actable t \<le> 1)"

section \<open>Acting\<close>

text \<open>\<open>NormalizedActionForActor\<close>\<close>

definition normalized_action :: "table \<Rightarrow> string \<Rightarrow> action \<Rightarrow> action" where
  "normalized_action t pid a =
     (case (t_round_idx t pid, t_round t) of
        (Some i, Some r) \<Rightarrow>
          if i \<ge> length (rd_players r) then a
          else let bs = rd_players r ! i
               in if (a = ActionRaise \<or> a = ActionBet) \<and> bp_contributed bs + bp_stack bs \<le> rd_current_bet r
                  then ActionCall
                  else if a = ActionCall \<and> bp_contributed bs \<ge> rd_current_bet r then ActionCheck
                  else a
      | _ \<Rightarrow> a)"

text \<open>The player after an accepted action: fold and all-in flags, the new stack, the chips added.\<close>

definition book_action :: "action \<Rightarrow> bet_player \<Rightarrow> int \<Rightarrow> player \<Rightarrow> player" where
  "book_action a bs baseline p =
     (let p1 = (if a = ActionFold then p\<lparr>p_state := Folded\<rparr> else p);
          p2 = (if bp_all_in bs then p1\<lparr>p_state := AllIn\<rparr> else p1)
      in p2\<lparr>p_stack := bp_stack bs, p_contributed := p_contributed p2 + (bp_contributed bs - baseline)\<rparr>)"

definition apply_action :: "string \<Rightarrow> nat \<Rightarrow> action \<Rightarrow> bet_round \<Rightarrow> table \<Rightarrow> table option" where
  "apply_action pid i a r' t = do {
     p \<leftarrow> player_by_id t pid;
     let bs = rd_players r' ! i;
     let t1 = (upd p (book_action a bs (t_round_baseline t pid)) t)\<lparr>t_round := Some r'\<rparr>;
     Some (t1\<lparr>t_was_ever_all_in :=
                (if bp_all_in bs then insert (p_id (pl t p)) (t_was_ever_all_in t) else t_was_ever_all_in t),
              t_round_baseline := (t_round_baseline t)(pid := bp_contributed bs)\<rparr>)
   }"

definition act :: "score_tables \<Rightarrow> string \<Rightarrow> action \<Rightarrow> int \<Rightarrow> table \<Rightarrow> (hand_error + table) option" where
  "act T pid a0 amount t = do {
     current \<leftarrow> current_player_to_act t;
     if current = '''' then Some (Inl NoPendingAction)
     else if current \<noteq> pid then Some (Inl (NotYourTurn pid))
     else case t_round_idx t pid of
         None \<Rightarrow> Some (Inl (NoActionThisRound pid))
       | Some i \<Rightarrow> do {
           r \<leftarrow> t_round t;
           let a = normalized_action t pid a0;
           if i \<ge> length (rd_players r) then None
           else case round_act r (int i) a amount of
               Inl e \<Rightarrow> Some (Inl (BettingError e))
             | Inr r' \<Rightarrow> do {
                 t1 \<leftarrow> apply_action pid i a r' t;
                 t2 \<leftarrow> (if is_complete r' then advance_stage T t1 else Some t1);
                 Some (Inr t2)
               }
         }
   }"

text \<open>\<open>ActIdempotent\<close> of \<open>state.go\<close>: the flag says whether the action was applied.\<close>

definition act_idempotent :: "score_tables \<Rightarrow> string \<Rightarrow> string \<Rightarrow> action \<Rightarrow> int \<Rightarrow> table \<Rightarrow>
    (hand_error + bool \<times> table) option" where
  "act_idempotent T action_id pid a amount t =
     (if action_id = '''' then Some (Inl ActionIdRequired)
      else if action_id \<in> t_seen_action_ids t then Some (Inr (False, t))
      else do {
        res \<leftarrow> act T pid a amount t;
        Some (case res of
            Inl e \<Rightarrow> Inl e
          | Inr t' \<Rightarrow> Inr (True, t'\<lparr>t_seen_action_ids := insert action_id (t_seen_action_ids t')\<rparr>))
      })"

section \<open>Sitting out and leaving\<close>

definition set_state :: "player_state \<Rightarrow> player \<Rightarrow> player" where
  "set_state s p = p\<lparr>p_state := s\<rparr>"

text \<open>Folding the player on the clock out of the live round; \<open>None\<close> inside when the round refuses.\<close>

definition fold_out :: "score_tables \<Rightarrow> string \<Rightarrow> pref \<Rightarrow> table \<Rightarrow> table option option" where
  "fold_out T pid p t =
     (case (t_round_idx t pid, t_round t) of
        (Some i, Some r) \<Rightarrow>
          (case round_act r (int i) ActionFold 0 of
             Inl e \<Rightarrow> Some None
           | Inr r' \<Rightarrow>
               let t1 = (upd p (set_state Folded) t)\<lparr>t_round := Some r'\<rparr>
               in map_option Some (if is_complete r' then advance_stage T t1 else Some t1))
      | _ \<Rightarrow> Some None)"

definition sit_out :: "score_tables \<Rightarrow> string \<Rightarrow> table \<Rightarrow> table option" where
  "sit_out T pid t0 =
     (case player_by_id t0 pid of
        None \<Rightarrow> Some t0
      | Some p \<Rightarrow>
          let t = upd p (\<lambda>p. p\<lparr>p_ready := False\<rparr>) t0; s = p_state (pl t p)
          in if \<not> hand_in_progress t then Some (upd p (set_state SittingOut) t)
             else do {
               current \<leftarrow> current_player_to_act t;
               folded \<leftarrow> (if current = pid \<and> s \<noteq> AllIn \<and> s \<noteq> Folded then fold_out T pid p t else Some None);
               Some (case folded of
                   Some t' \<Rightarrow> t'
                 | None \<Rightarrow> if s = AllIn \<or> s = Folded then t else upd p (set_state SittingOut) t)
             })"

definition request_exit :: "score_tables \<Rightarrow> string \<Rightarrow> table \<Rightarrow> (hand_error + table) option" where
  "request_exit T pid t0 =
     (case player_by_id t0 pid of
        None \<Rightarrow> Some (Inl (PlayerNotFound pid))
      | Some p \<Rightarrow> do {
          let t = upd p (\<lambda>p. p\<lparr>p_pending_exit := True\<rparr>) t0;
          current \<leftarrow> current_player_to_act t;
          if current = pid then map_option Inr (sit_out T pid t)
          else let t1 = upd p (\<lambda>p. p\<lparr>p_ready := False\<rparr>) t; s = p_state (pl t1 p)
               in Some (Inr (if s = Active then t1
                    else if s = AllIn \<or> (s = Folded \<and> hand_in_progress t1) then t1
                    else upd p (set_state SittingOut) t1))
        })"

definition current_player_should_auto_fold :: "table \<Rightarrow> bool option" where
  "current_player_should_auto_fold t = do {
     current \<leftarrow> current_player_to_act t;
     Some (case player_by_id t current of
         None \<Rightarrow> False
       | Some p \<Rightarrow> p_pending_exit (pl t p) \<or> p_state (pl t p) = SittingOut)
   }"

definition request_return :: "string \<Rightarrow> table \<Rightarrow> table" where
  "request_return pid t =
     (case player_by_id t pid of
        None \<Rightarrow> t
      | Some p \<Rightarrow>
          if p_state (pl t p) \<noteq> SittingOut then t
          else if would_be_next_blind t pid then t\<lparr>t_owes_big_blind := insert pid (t_owes_big_blind t)\<rparr>
          else upd p (set_state Active) t)"

definition cancel_exit :: "string \<Rightarrow> table \<Rightarrow> hand_error + table" where
  "cancel_exit pid t =
     (case player_by_id t pid of
        None \<Rightarrow> Inl (PlayerNotFound pid)
      | Some p \<Rightarrow>
          if \<not> p_pending_exit (pl t p) then Inl (NoPendingExit pid)
          else Inr (request_return pid (upd p (\<lambda>p. p\<lparr>p_pending_exit := False, p_ready := True\<rparr>) t)))"

end
