(* ===== verification/Hand_Safety.thy ===== *)
theory Hand_Safety
  imports Hand_Play
begin

text \<open>
  The invariant of a live hand and what it gives: an action never panics, keeps the invariant and
  every chip, and the hand is never stuck. The invariant couples three copies of the same facts the
  code keeps in step: the seats, the betting round with its index and baseline maps, and the cards.
\<close>

section \<open>Cards\<close>

definition deck_len :: "table \<Rightarrow> nat" where
  "deck_len t = (case dealt_cards t of None \<Rightarrow> 0 | Some cs \<Rightarrow> length cs)"

text \<open>The table-level fields that neither an action nor a change of seat state touches.\<close>

definition same_deal :: "table \<Rightarrow> table \<Rightarrow> bool" where
  "same_deal t t' \<longleftrightarrow> t_stage t' = t_stage t \<and> t_board t' = t_board t \<and> t_board_two t' = t_board_two t \<and>
     t_board_split_at t' = t_board_split_at t \<and> t_run_it_twice t' = t_run_it_twice t \<and>
     t_runout_phase t' = t_runout_phase t \<and> t_shuffle t' = t_shuffle t \<and>
     t_short_shuffle t' = t_short_shuffle t \<and> t_next_card t' = t_next_card t \<and>
     t_variant t' = t_variant t \<and> t_big_blind t' = t_big_blind t \<and> t_rake_bps t' = t_rake_bps t \<and>
     t_rake_collected t' = t_rake_collected t"

lemma same_deal_upd [simp]: "same_deal t (upd r f t)"
  by (simp add: same_deal_def)

lemma same_deal_trans: "same_deal t u \<Longrightarrow> same_deal u v \<Longrightarrow> same_deal t v"
  by (simp add: same_deal_def)

lemma deck_len_same: "same_deal t t' \<Longrightarrow> deck_len t' = deck_len t"
  by (simp add: same_deal_def deck_len_def dealt_cards_def)

lemma deck_len_frame [simp]:
  "deck_len (t\<lparr>t_next_card := n\<rparr>) = deck_len t" "deck_len (t\<lparr>t_board := b\<rparr>) = deck_len t"
  "deck_len (t\<lparr>t_board_two := b\<rparr>) = deck_len t" "deck_len (t\<lparr>t_stage := s\<rparr>) = deck_len t"
  "deck_len (t\<lparr>t_runout_phase := k\<rparr>) = deck_len t"
  by (simp_all add: deck_len_def dealt_cards_def)

lemma deal_card_ok:
  assumes "t_next_card t < deck_len t"
  shows "\<exists>c. deal_card t = Some (c, t\<lparr>t_next_card := Suc (t_next_card t)\<rparr>)"
  using assms by (auto simp: deal_card_def deck_len_def split: option.splits)

lemma deal_cards_ok:
  assumes "t_next_card t + n \<le> deck_len t"
  shows "\<exists>cs. deal_cards n t = Some (cs, t\<lparr>t_next_card := t_next_card t + n\<rparr>) \<and> length cs = n"
  using assms
proof (induction n arbitrary: t)
  case (Suc n)
  obtain c where "deal_card t = Some (c, t\<lparr>t_next_card := Suc (t_next_card t)\<rparr>)"
    using deal_card_ok [of t] Suc.prems by auto
  with Suc.IH [of "t\<lparr>t_next_card := Suc (t_next_card t)\<rparr>"] Suc.prems show ?case by auto
qed simp

lemma burn_card_ok:
  assumes "t_next_card t < deck_len t"
  shows "burn_card t = Some (t\<lparr>t_next_card := Suc (t_next_card t)\<rparr>)"
  using deal_card_ok [OF assms] by (auto simp: burn_card_def)

text \<open>How many cards a street leaves to deal on one board, burns included, and the board's length.\<close>

fun deal_need :: "stage \<Rightarrow> nat" where
  "deal_need PreFlop = 8"
| "deal_need Flop = 4"
| "deal_need Turn = 2"
| "deal_need _ = 0"

fun stage_cards :: "stage \<Rightarrow> nat" where
  "stage_cards PreFlop = 0"
| "stage_cards Flop = 3"
| "stage_cards Turn = 4"
| "stage_cards _ = 5"

definition split_stage :: "nat \<Rightarrow> stage" where
  "split_stage n = (if n = 0 then PreFlop else if n = 3 then Flop else Turn)"

text \<open>The boards fit the stage, and the deck holds every card that may still be dealt.\<close>

definition deal_ok :: "table \<Rightarrow> bool" where
  "deal_ok t \<longleftrightarrow>
     (let need = deal_need (t_stage t); split = t_board_split_at t; next = t_next_card t
      in (t_runout_phase t = 0 \<and> \<not> t_run_it_twice t \<and> t_board_two t = [] \<and>
            length (t_board t) = stage_cards (t_stage t) \<and> next + 2 * need \<le> deck_len t) \<or>
         (t_runout_phase t = 1 \<and> t_board_two t = [] \<and> length (t_board t) = stage_cards (t_stage t) \<and>
            split \<in> {0, 3, 4} \<and> split \<le> length (t_board t) \<and>
            next + need + (if t_run_it_twice t then deal_need (split_stage split) else 0) \<le> deck_len t) \<or>
         (t_runout_phase t = 2 \<and> t_run_it_twice t \<and> length (t_board t) = 5 \<and> split \<in> {0, 3, 4} \<and>
            split + length (t_board_two t) = stage_cards (t_stage t) \<and> next + need \<le> deck_len t))"

lemma deal_ok_same: "same_deal t t' \<Longrightarrow> deal_ok t' = deal_ok t"
  using deck_len_same [of t t'] by (simp add: same_deal_def deal_ok_def)

section \<open>The invariant\<close>

definition entry_link :: "table \<Rightarrow> bet_player \<Rightarrow> pref \<Rightarrow> bool" where
  "entry_link t e p \<longleftrightarrow> bp_id e = p_id (pl t p) \<and> bp_folded e = (p_state (pl t p) = Folded) \<and>
     bp_all_in e = (p_state (pl t p) = AllIn) \<and> (\<not> bp_all_in e \<longrightarrow> bp_stack e = p_stack (pl t p)) \<and>
     t_round_baseline t (bp_id e) = bp_contributed e"

definition round_linked :: "table \<Rightarrow> bet_round \<Rightarrow> bool" where
  "round_linked t r \<longleftrightarrow> round_wf r \<and> distinct (map bp_id (rd_players r)) \<and>
     t_round_idx t = (\<lambda>pid. index_of pid (map bp_id (rd_players r))) \<and>
     (\<forall>e\<in>set (rd_players r). \<exists>p\<in>set (t_hand_order t). entry_link t e p) \<and>
     (\<forall>p\<in>set (t_hand_order t). p_id (pl t p) \<notin> set (map bp_id (rd_players r)) \<longrightarrow> p_state (pl t p) = Folded)"

definition dealt_player_ok :: "player \<Rightarrow> bool" where
  "dealt_player_ok p \<longleftrightarrow> p_state p \<noteq> Disconnected \<and> p_state p \<noteq> PendingEntry \<and>
     0 \<le> p_stack p \<and> 0 \<le> p_contributed p"

definition seats_linked :: "table \<Rightarrow> bool" where
  "seats_linked t \<longleftrightarrow> distinct (seat_ids t) \<and> '''' \<notin> set (seat_ids t) \<and> distinct (t_hand_order t) \<and>
     set (t_hand_order t) \<subseteq> set (t_players t) \<and> (\<forall>p\<in>set (t_hand_order t). dealt_player_ok (pl t p))"

definition hand_chips :: "table \<Rightarrow> int" where
  "hand_chips t = (\<Sum>r\<leftarrow>t_hand_order t. p_stack (pl t r) + p_contributed (pl t r))"

definition hand_inv :: "table \<Rightarrow> bool" where
  "hand_inv t \<longleftrightarrow> seats_linked t \<and> is_betting_stage (t_stage t) \<and>
     (\<exists>r. t_round t = Some r \<and> round_linked t r) \<and> 0 < t_big_blind t \<and> deal_ok t \<and>
     rake_sane t (hand_chips t)"

lemma hand_put_le:
  assumes "seats_linked t"
  shows "hand_put t \<le> hand_chips t"
  unfolding hand_put_def hand_chips_def
  by (rule sum_list_mono) (use assms in \<open>auto simp: seats_linked_def dealt_player_ok_def\<close>)

lemma hand_put_nonneg: "seats_linked t \<Longrightarrow> 0 \<le> hand_put t"
  unfolding hand_put_def by (rule sum_list_nonneg) (auto simp: seats_linked_def dealt_player_ok_def)

lemma seats_pot_ready:
  assumes "seats_linked t" and "rake_sane t (hand_chips t)"
  shows "pot_ready t"
  using assms hand_put_le [OF assms(1)] hand_put_nonneg [OF assms(1)]
  by (auto simp: pot_ready_def seats_linked_def dealt_player_ok_def intro: rake_sane_less)

lemma hand_inv_pot_ready: "hand_inv t \<Longrightarrow> pot_ready t"
  by (simp add: hand_inv_def seats_pot_ready)

text \<open>The one dealt player behind an entry of the round.\<close>

lemma linked_player:
  assumes "seats_linked t" and "round_linked t r" and "e \<in> set (rd_players r)"
  obtains p where "p \<in> set (t_hand_order t)" and "entry_link t e p"
    and "player_by_id t (bp_id e) = Some p"
proof -
  obtain p where p: "p \<in> set (t_hand_order t)" "entry_link t e p"
    using assms(2,3) by (auto simp: round_linked_def)
  then have "player_by_id t (bp_id e) = Some p"
    using assms(1) player_by_id_seat [of t p] by (auto simp: seats_linked_def entry_link_def)
  with p that show thesis by blast
qed

lemma linked_idx:
  assumes "round_linked t r" and "t_round_idx t pid = Some i"
  shows "i < length (rd_players r)" and "bp_id (rd_players r ! i) = pid"
  using assms index_of_Some [of pid "map bp_id (rd_players r)" i] by (auto simp: round_linked_def)

lemma linked_idx_nth:
  assumes "round_linked t r" and "i < length (rd_players r)"
  shows "t_round_idx t (bp_id (rd_players r ! i)) = Some i"
  using assms index_of_nth [of "map bp_id (rd_players r)" i] by (simp add: round_linked_def)

section \<open>Booking an action\<close>

lemma book_action_fields [simp]:
  "p_id (book_action a bs b p) = p_id p" "p_stack (book_action a bs b p) = bp_stack bs"
  "p_contributed (book_action a bs b p) = p_contributed p + (bp_contributed bs - b)"
  "p_state (book_action a bs b p) =
     (if bp_all_in bs then AllIn else if a = ActionFold then Folded else p_state p)"
  by (simp_all add: book_action_def Let_def)

lemma sum_pl_same:
  fixes g :: "player \<Rightarrow> int"
  assumes "distinct rs" and "p \<in> set rs" and "g (f (pl t p)) = g (pl t p)"
  shows "(\<Sum>x\<leftarrow>rs. g (pl (upd p f t) x)) = (\<Sum>x\<leftarrow>rs. g (pl t x))"
  using assms by (simp add: sum_pl_upd)

text \<open>
  An accepted action of the player at position \<open>i\<close>: the booking succeeds, keeps the links and every
  chip, and changes nobody else.
\<close>

lemma apply_action_ok:
  fixes t :: table and r r' :: bet_round and i :: nat
  defines "e \<equiv> rd_players r ! i" and "e' \<equiv> rd_players r' ! i"
  assumes seats: "seats_linked t" and link: "round_linked t r" and i: "i < length (rd_players r)"
    and live: "\<not> bp_folded e" "\<not> bp_all_in e"
    and act: "round_act r (int i) a amount = Inr r'"
  obtains p where "p \<in> set (t_hand_order t)" and "entry_link t e p" and "player_by_id t (bp_id e) = Some p"
    and "apply_action (bp_id e) i a r' t =
      Some ((upd p (book_action a e' (bp_contributed e)) t)\<lparr>t_round := Some r',
        t_was_ever_all_in := (if bp_all_in e' then insert (bp_id e) (t_was_ever_all_in t)
          else t_was_ever_all_in t),
        t_round_baseline := (t_round_baseline t)(bp_id e := bp_contributed e')\<rparr>)"
proof -
  obtain p where p: "p \<in> set (t_hand_order t)" "entry_link t e p" "player_by_id t (bp_id e) = Some p"
    using linked_player [OF seats link, of e] i by (auto simp: e_def)
  moreover have "t_round_baseline t (bp_id e) = bp_contributed e" "p_id (pl t p) = bp_id e"
    using p(2) by (auto simp: entry_link_def)
  ultimately show thesis
    using that by (simp add: apply_action_def Let_def e'_def)
qed

lemma entry_link_book:
  assumes link: "entry_link t e p" and e': "bp_id e' = bp_id e" "bp_folded e' = (a = ActionFold)"
      "a = ActionFold \<longrightarrow> \<not> bp_all_in e'" and live: "\<not> bp_folded e" "\<not> bp_all_in e"
    and t': "pl t' p = book_action a e' (bp_contributed e) (pl t p)"
      "t_round_baseline t' (bp_id e) = bp_contributed e'"
  shows "entry_link t' e' p"
  using assms by (auto simp: entry_link_def)

lemma entry_link_other:
  assumes "entry_link t e q" and "pl t' q = pl t q" and "t_round_baseline t' (bp_id e) = t_round_baseline t (bp_id e)"
    and "e' = e \<or> e' = e\<lparr>bp_acted := False\<rparr>"
  shows "entry_link t' e' q"
  using assms by (auto simp: entry_link_def)

lemma linked_entry:
  "round_linked t r \<Longrightarrow> j < length (rd_players r) \<Longrightarrow>
   \<exists>q\<in>set (t_hand_order t). entry_link t (rd_players r ! j) q"
  by (simp add: round_linked_def)

lemma round_linked_act:
  fixes r r' :: bet_round and i :: nat
  defines "e \<equiv> rd_players r ! i" and "e' \<equiv> rd_players r' ! i"
  assumes seats: "seats_linked t" and link: "round_linked t r" and i: "i < length (rd_players r)"
    and live: "\<not> bp_folded e" "\<not> bp_all_in e"
    and act: "round_act r (int i) a amount = Inr r'"
    and p: "p \<in> set (t_hand_order t)" "entry_link t e p"
    and t': "pl t' p = book_action a e' (bp_contributed e) (pl t p)" "\<And>q. q \<noteq> p \<Longrightarrow> pl t' q = pl t q"
      "t_round_baseline t' = (t_round_baseline t)(bp_id e := bp_contributed e')"
      "t_round_idx t' = t_round_idx t" "t_hand_order t' = t_hand_order t"
  shows "round_linked t' r'"
proof -
  have wf: "round_wf r" using link by (simp add: round_linked_def)
  note acc = round_act_accepted [OF wf act]
  have acc': "accepted r i r'" using acc(5) by simp
  note actor = accepted_actor [OF wf i live[unfolded e_def] act]
  note shape = accepted_shape [OF i acc']
  have ids: "map bp_id (rd_players r') = map bp_id (rd_players r)" by (rule shape(2))
  have p_id: "\<And>q. p_id (pl t' q) = p_id (pl t q)"
    using t'(1,2) by (metis book_action_fields(1))
  have new: "round_wf r'" using accepted_wf [OF wf i live(2)[unfolded e_def] acc'] .
  have linked: "\<exists>q\<in>set (t_hand_order t'). entry_link t' (rd_players r' ! j) q"
    if "j < length (rd_players r')" for j
  proof (cases "j = i")
    case True
    have "entry_link t' e' p"
      by (rule entry_link_book [OF p(2) _ _ _ live t'(1)]) (use actor t'(3) in \<open>simp_all add: e_def e'_def\<close>)
    then show ?thesis using True p(1) t'(5) by (auto simp: e'_def)
  next
    case False
    have j: "j < length (rd_players r)" using that shape(1) by simp
    then obtain q where q: "q \<in> set (t_hand_order t)" "entry_link t (rd_players r ! j) q"
      using linked_entry [OF link] by blast
    have ne: "bp_id (rd_players r ! j) \<noteq> bp_id e"
      using link i j False nth_eq_iff_index_eq [of "map bp_id (rd_players r)" j i]
      by (auto simp: round_linked_def e_def)
    then have "q \<noteq> p" using q(2) p(2) by (auto simp: entry_link_def)
    have "entry_link t' (rd_players r' ! j) q"
      by (rule entry_link_other [OF q(2)])
        (use t'(2) [OF \<open>q \<noteq> p\<close>] t'(3) ne accepted_others [OF i acc' j False] in auto)
    then show ?thesis using q(1) t'(5) by auto
  qed
  have out: "p_state (pl t' q) = Folded"
    if "q \<in> set (t_hand_order t')" "p_id (pl t' q) \<notin> set (map bp_id (rd_players r'))" for q
  proof -
    have "p_id (pl t q) \<notin> set (map bp_id (rd_players r))" using that(2) p_id ids by simp
    moreover have "p_id (pl t p) \<in> set (map bp_id (rd_players r))"
      using p(2) i by (simp add: entry_link_def e_def flip: p(2)[unfolded entry_link_def, THEN conjunct1])
    ultimately have "q \<noteq> p" "p_id (pl t q) \<notin> set (map bp_id (rd_players r))" by auto
    then show ?thesis using link that(1) t'(2,5) by (simp add: round_linked_def)
  qed
  show ?thesis
    using new link linked out
    by (auto simp: round_linked_def ids t'(4) in_set_conv_nth)
qed

text \<open>What booking an action does to the table, as one predicate.\<close>

definition bet_effect :: "table \<Rightarrow> string \<Rightarrow> table \<Rightarrow> bool" where
  "bet_effect t pid t' \<longleftrightarrow> same_seats t t' \<and> same_deal t t' \<and> t_hand_order t' = t_hand_order t \<and>
     hand_chips t' = hand_chips t \<and> seat_stacks t' + hand_put t' = seat_stacks t + hand_put t \<and>
     (\<exists>p\<in>set (t_hand_order t). p_id (pl t p) = pid \<and> (\<forall>q. q \<noteq> p \<longrightarrow> pl t' q = pl t q) \<and>
        p_stack (pl t' p) + p_contributed (pl t' p) = p_stack (pl t p) + p_contributed (pl t p) \<and>
        p_contributed (pl t p) \<le> p_contributed (pl t' p) \<and> 0 \<le> p_stack (pl t' p))"

lemma chips_book:
  assumes "seats_linked t" and "p \<in> set (t_hand_order t)"
    and "p_stack (f (pl t p)) + p_contributed (f (pl t p)) = p_stack (pl t p) + p_contributed (pl t p)"
  shows "hand_chips (upd p f t) = hand_chips t"
    and "seat_stacks (upd p f t) + hand_put (upd p f t) = seat_stacks t + hand_put t"
proof -
  have d: "distinct (t_hand_order t)" "distinct (t_players t)" "p \<in> set (t_players t)"
    using assms(1,2) distinct_players by (auto simp: seats_linked_def)
  show "hand_chips (upd p f t) = hand_chips t"
    using sum_pl_upd [OF d(1), of "\<lambda>q. p_stack q + p_contributed q" p f t] assms(3)
    by (simp add: hand_chips_def)
  show "seat_stacks (upd p f t) + hand_put (upd p f t) = seat_stacks t + hand_put t"
    using seat_stacks_upd [OF d(2), of p f] hand_put_upd [OF d(1), of p f] assms(2,3) d(3) by simp
qed

lemma store_frame [simp]:
  "seat_ids (t\<lparr>t_round := x\<rparr>) = seat_ids t" "seat_ids (t\<lparr>t_was_ever_all_in := y\<rparr>) = seat_ids t"
  "seat_ids (t\<lparr>t_round_baseline := z\<rparr>) = seat_ids t"
  "hand_chips (t\<lparr>t_round := x\<rparr>) = hand_chips t" "hand_chips (t\<lparr>t_was_ever_all_in := y\<rparr>) = hand_chips t"
  "hand_chips (t\<lparr>t_round_baseline := z\<rparr>) = hand_chips t"
  "hand_put (t\<lparr>t_round := x\<rparr>) = hand_put t" "hand_put (t\<lparr>t_was_ever_all_in := y\<rparr>) = hand_put t"
  "hand_put (t\<lparr>t_round_baseline := z\<rparr>) = hand_put t"
  "seat_stacks (t\<lparr>t_round := x\<rparr>) = seat_stacks t" "seat_stacks (t\<lparr>t_was_ever_all_in := y\<rparr>) = seat_stacks t"
  "seat_stacks (t\<lparr>t_round_baseline := z\<rparr>) = seat_stacks t"
  by (simp_all add: seat_ids_def hand_chips_def hand_put_def seat_stacks_def)

lemma hand_inv_keep:
  assumes "hand_inv t" and "same_seats t t'" and "same_deal t t'" and "t_hand_order t' = t_hand_order t"
    and "hand_chips t' = hand_chips t" and "\<forall>p\<in>set (t_hand_order t). dealt_player_ok (pl t' p)"
    and "t_round t' = Some r'" and "round_linked t' r'"
  shows "hand_inv t'"
proof -
  have "seats_linked t'"
    using assms(1,4,6) same_seats_ids [OF assms(2)] assms(2)
    by (simp add: hand_inv_def seats_linked_def same_seats_def)
  then show ?thesis
    using assms deal_ok_same [OF assms(3)]
    by (simp add: hand_inv_def same_deal_def rake_sane_def)
qed

lemma act_step:
  assumes inv: "hand_inv t" and r: "t_round t = Some r" and idx: "t_round_idx t pid = Some i"
    and live: "\<not> bp_folded (rd_players r ! i)" "\<not> bp_all_in (rd_players r ! i)"
    and act: "round_act r (int i) a amount = Inr r'"
  obtains t1 where "apply_action pid i a r' t = Some t1" and "hand_inv t1" and "t_round t1 = Some r'"
    and "bet_effect t pid t1"
proof -
  let ?e = "rd_players r ! i" and ?e' = "rd_players r' ! i"
  have seats: "seats_linked t" and link: "round_linked t r"
    using inv r by (auto simp: hand_inv_def)
  note i = linked_idx [OF link idx]
  have wf: "round_wf r" using link by (simp add: round_linked_def)
  note actor = accepted_actor [OF wf i(1) live act]
  obtain p where p: "p \<in> set (t_hand_order t)" "entry_link t ?e p" "player_by_id t (bp_id ?e) = Some p"
    and ap: "apply_action (bp_id ?e) i a r' t =
      Some ((upd p (book_action a ?e' (bp_contributed ?e)) t)\<lparr>t_round := Some r',
        t_was_ever_all_in := (if bp_all_in ?e' then insert (bp_id ?e) (t_was_ever_all_in t)
          else t_was_ever_all_in t),
        t_round_baseline := (t_round_baseline t)(bp_id ?e := bp_contributed ?e')\<rparr>)"
    using apply_action_ok [OF seats link i(1) live act] by blast
  let ?u = "upd p (book_action a ?e' (bp_contributed ?e)) t"
  let ?t1 = "?u\<lparr>t_round := Some r',
        t_was_ever_all_in := (if bp_all_in ?e' then insert (bp_id ?e) (t_was_ever_all_in t)
          else t_was_ever_all_in t),
        t_round_baseline := (t_round_baseline t)(bp_id ?e := bp_contributed ?e')\<rparr>"
  have stack: "bp_stack ?e = p_stack (pl t p)" using p(2) live by (auto simp: entry_link_def)
  note acc = round_act_accepted [OF wf act]
  have "round_wf r'" using accepted_wf [OF wf i(1) live(2)] acc(5) by simp
  moreover have "length (rd_players r') = length (rd_players r)"
    using accepted_shape(1) [OF i(1)] acc(5) by simp
  ultimately have pos: "0 \<le> bp_stack ?e'"
    using round_wfD [of r' i] i(1) by (simp add: player_wf_def)
  have moved: "p_stack (pl ?t1 p) + p_contributed (pl ?t1 p) = p_stack (pl t p) + p_contributed (pl t p)"
    using actor(1) stack by simp
  note chips = chips_book [OF seats p(1), of "book_action a ?e' (bp_contributed ?e)"]
  have link': "round_linked ?t1 r'"
    by (rule round_linked_act [OF seats link i(1) live act p(1,2)]) simp_all
  have eff: "bet_effect t pid ?t1"
    unfolding bet_effect_def
  proof (intro conjI bexI [OF _ p(1)])
    show "same_seats t ?t1" by (simp add: same_seats_def upd_field)
    show "same_deal t ?t1" by (simp add: same_deal_def)
    show "hand_chips ?t1 = hand_chips t" "seat_stacks ?t1 + hand_put ?t1 = seat_stacks t + hand_put t"
      using chips actor(1) stack by simp_all
    show "p_id (pl t p) = pid" using p(2) i(2) by (simp add: entry_link_def)
    show "p_stack (pl ?t1 p) + p_contributed (pl ?t1 p) = p_stack (pl t p) + p_contributed (pl t p)"
      by (rule moved)
  qed (use actor(2) pos in simp_all)
  have ok: "\<forall>q\<in>set (t_hand_order t). dealt_player_ok (pl ?t1 q)"
    using seats pos actor(2) p(1) by (auto simp: seats_linked_def dealt_player_ok_def pl_upd)
  have "hand_inv ?t1"
    by (rule hand_inv_keep [OF inv _ _ _ _ ok _ link']) (use eff in \<open>simp_all add: bet_effect_def\<close>)
  with that ap eff i(2) show thesis by simp
qed

section \<open>Dealing streets\<close>

text \<open>Two tables that differ at most in cards, stage and runout bookkeeping.\<close>

definition cards_only :: "table \<Rightarrow> table \<Rightarrow> bool" where
  "cards_only t t' \<longleftrightarrow> t_store t' = t_store t \<and> t_players t' = t_players t \<and>
     t_hand_order t' = t_hand_order t \<and> t_round t' = t_round t \<and> t_round_idx t' = t_round_idx t \<and>
     t_round_baseline t' = t_round_baseline t \<and> t_big_blind t' = t_big_blind t \<and>
     t_rake_bps t' = t_rake_bps t \<and> t_rake_collected t' = t_rake_collected t"

lemma cards_only_refl [simp]: "cards_only t t"
  by (simp add: cards_only_def)

lemma cards_only_trans: "cards_only t u \<Longrightarrow> cards_only u v \<Longrightarrow> cards_only t v"
  by (simp add: cards_only_def)

lemma cards_only_sums:
  assumes "cards_only t t'"
  shows "hand_chips t' = hand_chips t" "hand_put t' = hand_put t" "seat_stacks t' = seat_stacks t"
    "seat_ids t' = seat_ids t" "count_remaining t' = count_remaining t" "count_actable t' = count_actable t"
    "active_players t' = active_players t"
  using assms by (simp_all add: cards_only_def hand_chips_def hand_put_def seat_stacks_def seat_ids_def
      count_remaining_def count_actable_def active_players_def)

lemma hand_inv_cards:
  assumes "hand_inv t" and "cards_only t t'" and "is_betting_stage (t_stage t')" and "deal_ok t'"
  shows "hand_inv t'"
proof -
  have "seats_linked t' = seats_linked t"
    using assms(2) cards_only_sums(4) [OF assms(2)] by (simp add: seats_linked_def cards_only_def)
  moreover have "round_linked t' r = round_linked t r" for r
    using assms(2) by (simp add: round_linked_def entry_link_def cards_only_def)
  moreover have "rake_sane t' (hand_chips t') = rake_sane t (hand_chips t)"
    using assms(2) cards_only_sums(1) [OF assms(2)] by (simp add: rake_sane_def cards_only_def)
  ultimately show ?thesis using assms by (simp add: hand_inv_def cards_only_def)
qed

fun next_stage :: "stage \<Rightarrow> stage" where
  "next_stage PreFlop = Flop"
| "next_stage Flop = Turn"
| "next_stage Turn = River"
| "next_stage s = s"

lemma deal_flop_ok:
  assumes "t_next_card t + 4 \<le> deck_len t"
  shows "\<exists>cs. deal_flop t = Some (t\<lparr>t_next_card := t_next_card t + 4, t_board := t_board t @ cs\<rparr>) \<and> length cs = 3"
proof -
  let ?t1 = "t\<lparr>t_next_card := Suc (t_next_card t)\<rparr>"
  obtain cs where "deal_cards 3 ?t1 = Some (cs, ?t1\<lparr>t_next_card := t_next_card ?t1 + 3\<rparr>)" "length cs = 3"
    using deal_cards_ok [of ?t1 3] assms by auto
  then show ?thesis using burn_card_ok [of t] assms by (intro exI [of _ cs]) (simp add: deal_flop_def)
qed

lemma deal_board_card_ok:
  assumes "t_next_card t + 2 \<le> deck_len t"
  shows "\<exists>c. deal_board_card t = Some (t\<lparr>t_next_card := t_next_card t + 2, t_board := t_board t @ [c]\<rparr>)"
proof -
  let ?t1 = "t\<lparr>t_next_card := Suc (t_next_card t)\<rparr>"
  obtain c where "deal_card ?t1 = Some (c, ?t1\<lparr>t_next_card := Suc (t_next_card ?t1)\<rparr>)"
    using deal_card_ok [of ?t1] assms by auto
  then show ?thesis using burn_card_ok [of t] assms by (intro exI [of _ c]) (simp add: deal_board_card_def)
qed

lemma deal_street_ok:
  assumes "deal_ok t" and "t_runout_phase t \<noteq> 2" and "is_betting_stage (t_stage t)"
  shows "\<exists>n b. deal_street t = Some (t\<lparr>t_next_card := n, t_board := b, t_stage := next_stage (t_stage t)\<rparr>) \<and>
    deal_ok (t\<lparr>t_next_card := n, t_board := b, t_stage := next_stage (t_stage t)\<rparr>)"
proof (cases "t_stage t")
  case PreFlop
  obtain cs where "deal_flop t = Some (t\<lparr>t_next_card := t_next_card t + 4, t_board := t_board t @ cs\<rparr>)" "length cs = 3"
    using deal_flop_ok [of t] assms(1,2) PreFlop by (auto simp: deal_ok_def Let_def)
  then show ?thesis
    using assms(1,2) PreFlop
    by (intro exI [of _ "t_next_card t + 4"] exI [of _ "t_board t @ cs"]) (auto simp: deal_street_def deal_ok_def Let_def)
next
  case Flop
  obtain c where "deal_board_card t = Some (t\<lparr>t_next_card := t_next_card t + 2, t_board := t_board t @ [c]\<rparr>)"
    using deal_board_card_ok [of t] assms(1,2) Flop by (auto simp: deal_ok_def Let_def)
  then show ?thesis
    using assms(1,2) Flop
    by (intro exI [of _ "t_next_card t + 2"] exI [of _ "t_board t @ [c]"]) (auto simp: deal_street_def deal_ok_def Let_def)
next
  case Turn
  obtain c where "deal_board_card t = Some (t\<lparr>t_next_card := t_next_card t + 2, t_board := t_board t @ [c]\<rparr>)"
    using deal_board_card_ok [of t] assms(1,2) Turn by (auto simp: deal_ok_def Let_def)
  then show ?thesis
    using assms(1,2) Turn
    by (intro exI [of _ "t_next_card t + 2"] exI [of _ "t_board t @ [c]"]) (auto simp: deal_street_def deal_ok_def Let_def)
next
  case River
  then have "t\<lparr>t_stage := River\<rparr> = t" by simp
  with assms(1) have "deal_ok (t\<lparr>t_stage := River\<rparr>)" by (simp only:)
  then show ?thesis
    using assms(1) River
    by (intro exI [of _ "t_next_card t"] exI [of _ "t_board t"]) (simp add: deal_street_def)
qed (use assms(3) in \<open>simp_all add: is_betting_stage_def\<close>)

lemma deal_second_street_ok:
  assumes "deal_ok t" and "t_runout_phase t = 2" and "is_betting_stage (t_stage t)"
  shows "\<exists>n b. deal_second_street t =
      Some (t\<lparr>t_next_card := n, t_board_two := b, t_stage := next_stage (t_stage t)\<rparr>) \<and>
    deal_ok (t\<lparr>t_next_card := n, t_board_two := b, t_stage := next_stage (t_stage t)\<rparr>)"
proof -
  let ?t1 = "t\<lparr>t_next_card := Suc (t_next_card t)\<rparr>"
  have len: "t_next_card t + deal_need (t_stage t) \<le> deck_len t"
    using assms(1,2) by (simp add: deal_ok_def Let_def)
  show ?thesis
  proof (cases "t_stage t")
    case PreFlop
    obtain cs where "deal_cards 3 ?t1 = Some (cs, ?t1\<lparr>t_next_card := t_next_card ?t1 + 3\<rparr>)" "length cs = 3"
      using deal_cards_ok [of ?t1 3] len PreFlop by auto
    then show ?thesis
      using assms(1,2) len PreFlop burn_card_ok [of t]
      by (intro exI [of _ "t_next_card t + 4"] exI [of _ "t_board_two t @ cs"])
        (auto simp: deal_second_street_def deal_ok_def Let_def)
  next
    case Flop
    obtain c where "deal_card ?t1 = Some (c, ?t1\<lparr>t_next_card := Suc (t_next_card ?t1)\<rparr>)"
      using deal_card_ok [of ?t1] len Flop by auto
    then show ?thesis
      using assms(1,2) len Flop burn_card_ok [of t]
      by (intro exI [of _ "t_next_card t + 2"] exI [of _ "t_board_two t @ [c]"])
        (auto simp: deal_second_street_def deal_ok_def Let_def)
  next
    case Turn
    obtain c where "deal_card ?t1 = Some (c, ?t1\<lparr>t_next_card := Suc (t_next_card ?t1)\<rparr>)"
      using deal_card_ok [of ?t1] len Turn by auto
    then show ?thesis
      using assms(1,2) len Turn burn_card_ok [of t]
      by (intro exI [of _ "t_next_card t + 2"] exI [of _ "t_board_two t @ [c]"])
        (auto simp: deal_second_street_def deal_ok_def Let_def)
  next
    case River
    then have "t\<lparr>t_stage := River\<rparr> = t" by simp
  with assms(1) have "deal_ok (t\<lparr>t_stage := River\<rparr>)" by (simp only:)
    then show ?thesis
      using assms(1) River
      by (intro exI [of _ "t_next_card t"] exI [of _ "t_board_two t"]) (simp add: deal_second_street_def)
  qed (use assms(3) in \<open>simp_all add: is_betting_stage_def\<close>)
qed

section \<open>Advancing\<close>

text \<open>The hand is over: a showdown settled the pot of a table that agrees with \<open>t\<close> on seats and chips.\<close>

definition settled :: "score_tables \<Rightarrow> table \<Rightarrow> table \<Rightarrow> bool" where
  "settled T t t' \<longleftrightarrow> (\<exists>u ps. cards_only t u \<and> pot_ready u \<and> run_showdown T u = Some t' \<and>
     showdown_effect T u t' ps)"

lemma settledI:
  assumes "cards_only t u" and "pot_ready u"
  shows "\<exists>t'. run_showdown T u = Some t' \<and> settled T t t'"
  using run_showdown_effect [OF assms(2), of T] assms by (auto simp: settled_def)

lemma settled_trans: "cards_only t u \<Longrightarrow> settled T u t' \<Longrightarrow> settled T t t'"
  using cards_only_trans by (auto simp: settled_def)

lemma settled_chips:
  assumes "settled T t t'"
  shows "t_stage t' = Complete" and "same_seats t t'"
    and "seat_stacks t' + t_rake_collected t' = seat_stacks t + hand_put t + t_rake_collected t"
proof -
  obtain u ps where u: "cards_only t u" "showdown_effect T u t' ps"
    using assms by (auto simp: settled_def)
  have "msum (ps_payouts ps) + ps_rake ps = hand_put u"
    using u(2) by (simp add: showdown_effect_def scan_ok_def)
  then show "t_stage t' = Complete" "same_seats t t'"
    "seat_stacks t' + t_rake_collected t' = seat_stacks t + hand_put t + t_rake_collected t"
    using u cards_only_sums [OF u(1)]
    by (simp_all add: showdown_effect_def cards_only_def same_seats_def)
qed

text \<open>The hand goes on: the invariant holds and somebody has a move, or a street is due.\<close>

definition hand_live :: "table \<Rightarrow> bool" where
  "hand_live t \<longleftrightarrow> hand_inv t \<and>
     ((\<exists>r. t_round t = Some r \<and> \<not> is_complete r) \<and> t_runout_phase t = 0 \<or>
      is_awaiting_runout t \<and> t_runout_phase t \<noteq> 0)"

text \<open>How far a hand is from its end: closing the betting and dealing a street both lower it.\<close>

definition hand_rank :: "table \<Rightarrow> nat" where
  "hand_rank t = (if t_runout_phase t = 0 then 20 else if t_runout_phase t = 1 then 10 else 0) +
     deal_need (t_stage t)"

lemma next_stage_need: "is_betting_stage s \<Longrightarrow> s \<noteq> River \<Longrightarrow> deal_need (next_stage s) < deal_need s"
  by (cases s) (simp_all add: is_betting_stage_def)

lemma split_stage_need: "deal_need (split_stage n) < 10"
  by (simp add: split_stage_def)

lemma next_stage_betting: "is_betting_stage s \<Longrightarrow> is_betting_stage (next_stage s)"
  by (cases s) (simp_all add: is_betting_stage_def)

lemma next_stage_not_preflop [simp]: "next_stage s \<noteq> PreFlop"
  by (cases s) simp_all

lemma awaiting_after_street:
  assumes "hand_inv t" and "t_round t = Some r" and "is_complete r"
    and "count_remaining t > 1" and "count_actable t \<le> 1" and "cards_only t t'"
    and "deal_ok t'" and "is_betting_stage (t_stage t')" and "t_stage t' \<noteq> River"
    and "t_runout_phase t' \<noteq> 0"
    and "t_stage t' \<noteq> PreFlop \<or> t_run_it_twice t' \<and> t_runout_phase t' = 2"
  shows "hand_live t'"
proof -
  have "t_round t' = Some r" using assms(2,6) by (simp add: cards_only_def)
  then have "is_awaiting_runout t'"
    using assms(3-5,8,9,11) cards_only_sums(5,6) [OF assms(6)]
    by (auto simp: is_awaiting_runout_def is_betting_stage_def)
  then show ?thesis using hand_inv_cards [OF assms(1,6,8,7)] assms(10) by (simp add: hand_live_def)
qed

lemma runout_start_ok:
  assumes "deal_ok t" and "t_runout_phase t = 1" and "t_run_it_twice t" and "t_stage t = River"
  shows "deal_ok (t\<lparr>t_runout_phase := 2, t_stage := split_stage (t_board_split_at t)\<rparr>)"
  using assms by (auto simp: deal_ok_def Let_def split_stage_def)

lemma run_showdown_cards:
  assumes "hand_inv t" and "cards_only t u"
  shows "\<exists>t'. run_showdown T u = Some t' \<and> settled T t t'"
proof (rule settledI [OF assms(2)])
  show "pot_ready u"
    using hand_inv_pot_ready [OF assms(1)] cards_only_sums [OF assms(2)] assms(2)
    by (simp add: pot_ready_def cards_only_def rake_sane_def)
qed

lemma advance_runout_ok:
  assumes inv: "hand_inv t" and r: "t_round t = Some r" "is_complete r"
    and counts: "count_remaining t > 1" "count_actable t \<le> 1"
    and closed: "t_runout_phase t \<noteq> 0 \<or> t_stage t = River"
  shows "\<exists>t'. advance_runout_street T t = Some t' \<and>
    (settled T t t' \<or> hand_live t' \<and> cards_only t t' \<and> hand_rank t' < hand_rank t)"
proof -
  have d: "deal_ok t" "is_betting_stage (t_stage t)" using inv by (simp_all add: hand_inv_def)
  show ?thesis
  proof (cases "t_run_it_twice t \<and> t_runout_phase t = 2")
    case True
    obtain n b where s: "deal_second_street t =
        Some (t\<lparr>t_next_card := n, t_board_two := b, t_stage := next_stage (t_stage t)\<rparr>)"
      "deal_ok (t\<lparr>t_next_card := n, t_board_two := b, t_stage := next_stage (t_stage t)\<rparr>)"
      using deal_second_street_ok [OF d(1) _ d(2)] True by blast
    let ?u = "t\<lparr>t_next_card := n, t_board_two := b, t_stage := next_stage (t_stage t)\<rparr>"
    have c: "cards_only t ?u" by (simp add: cards_only_def)
    show ?thesis
    proof (cases "next_stage (t_stage t) = River")
      case river: True
      then show ?thesis
        using run_showdown_cards [OF inv c, of T] s(1) True by (auto simp: advance_runout_street_def)
    next
      case False
      have "hand_live ?u"
        by (rule awaiting_after_street [OF inv r counts c s(2)])
          (use False True next_stage_betting [OF d(2)] in auto)
      moreover have "t_stage t \<noteq> River" using False by auto
      ultimately show ?thesis
        using False True s(1) c next_stage_need [OF d(2)]
        by (simp add: advance_runout_street_def hand_rank_def)
    qed
  next
    case False
    have ph: "t_runout_phase t \<noteq> 2" using d(1) False by (auto simp: deal_ok_def Let_def)
    obtain n b where s: "deal_street t =
        Some (t\<lparr>t_next_card := n, t_board := b, t_stage := next_stage (t_stage t)\<rparr>)"
      "deal_ok (t\<lparr>t_next_card := n, t_board := b, t_stage := next_stage (t_stage t)\<rparr>)"
      using deal_street_ok [OF d(1) ph d(2)] by blast
    let ?u = "t\<lparr>t_next_card := n, t_board := b, t_stage := next_stage (t_stage t)\<rparr>"
    have c: "cards_only t ?u" by (simp add: cards_only_def)
    consider (street) "next_stage (t_stage t) \<noteq> River" | (once) "next_stage (t_stage t) = River" "\<not> t_run_it_twice t"
      | (twice) "next_stage (t_stage t) = River" "t_run_it_twice t" by blast
    then show ?thesis
    proof cases
      case street
      have "hand_live ?u"
        by (rule awaiting_after_street [OF inv r counts c s(2)])
          (use street closed next_stage_betting [OF d(2)] in auto)
      moreover have "t_stage t \<noteq> River" using street by auto
      ultimately show ?thesis
        using street ph s(1) c next_stage_need [OF d(2)]
        by (simp add: advance_runout_street_def hand_rank_def)
    next
      case once
      then show ?thesis
        using run_showdown_cards [OF inv c, of T] s(1) False by (auto simp: advance_runout_street_def)
    next
      case twice
      have "t_runout_phase t = 1" using d(1) ph twice(2) by (auto simp: deal_ok_def Let_def)
      let ?v = "?u\<lparr>t_runout_phase := 2, t_stage := split_stage (t_board_split_at t)\<rparr>"
      have v: "deal_ok ?v"
        using runout_start_ok [OF s(2)] \<open>t_runout_phase t = 1\<close> twice by simp
      have split: "t_board_split_at t \<in> {0, 3, 4}"
        using d(1) \<open>t_runout_phase t = 1\<close> by (auto simp: deal_ok_def Let_def)
      have cv: "cards_only t ?v" by (simp add: cards_only_def)
      have "hand_live ?v"
        by (rule awaiting_after_street [OF inv r counts cv v])
          (use split twice in \<open>auto simp: split_stage_def is_betting_stage_def\<close>)
      moreover have "hand_rank ?v < hand_rank t"
        using split_stage_need [of "t_board_split_at t"] \<open>t_runout_phase t = 1\<close> by (simp add: hand_rank_def)
      moreover have "advance_runout_street T t = Some ?v"
        using twice ph s(1) split by (auto simp: advance_runout_street_def split_stage_def Let_def)
      ultimately show ?thesis using cv by blast
    qed
  qed
qed
lemma close_betting_ok:
  assumes "hand_inv t" and "t_runout_phase t = 0"
  shows "cards_only t (close_betting t)" and "hand_inv (close_betting t)"
    and "t_runout_phase (close_betting t) \<noteq> 0 \<or> t_stage (close_betting t) = River"
proof -
  have d: "deal_ok t" "is_betting_stage (t_stage t)" using assms(1) by (simp_all add: hand_inv_def)
  show c: "cards_only t (close_betting t)" by (simp add: close_betting_def cards_only_def)
  show "t_runout_phase (close_betting t) \<noteq> 0 \<or> t_stage (close_betting t) = River"
    by (simp add: close_betting_def)
  have "deal_ok (close_betting t)"
  proof (cases "t_stage t = River")
    case True
    then show ?thesis using d(1) by (simp add: close_betting_def)
  next
    case False
    have len: "deck_len (t\<lparr>t_run_it_twice := a, t_board_split_at := b\<rparr>) = deck_len t" for a b
      by (simp add: deck_len_def dealt_cards_def)
    show ?thesis
      using False d assms(2)
      by (cases "t_stage t") (auto simp: close_betting_def deal_ok_def Let_def len split_stage_def is_betting_stage_def)
  qed
  moreover have "t_stage (close_betting t) = t_stage t" by (simp add: close_betting_def)
  ultimately show "hand_inv (close_betting t)"
    using hand_inv_cards [OF assms(1) c] d(2) by simp
qed

lemma map_of_positions:
  "map_of (zip xs [k..<k + length xs]) x = map_option (\<lambda>i. k + i) (index_of x xs)"
proof (induction xs arbitrary: k)
  case (Cons a xs)
  have "[k..<k + length (a # xs)] = k # [Suc k..<Suc k + length xs]"
    by (simp add: upt_conv_Cons del: upt_Suc)
  then show ?case using Cons.IH [of "Suc k"] by (auto simp: option.map_comp o_def)
qed simp

lemma map_of_rev_distinct:
  assumes "distinct (map fst m)"
  shows "map_of (rev m) = map_of m"
proof
  fix x
  show "map_of (rev m) x = map_of m x"
  proof (cases "map_of m x")
    case None
    then have "map_of (rev m) x = None" by (simp add: map_of_eq_None_iff)
    with None show ?thesis by simp
  next
    case (Some y)
    then have "(x, y) \<in> set (rev m)" by (auto dest: map_of_SomeD)
    moreover have "distinct (map fst (rev m))" using assms by (simp flip: rev_map)
    ultimately show ?thesis using Some by (simp add: map_of_is_SomeI)
  qed
qed

lemma map_of_rev_positions:
  assumes "distinct xs"
  shows "map_of (rev (zip xs [0..<length xs])) = (\<lambda>x. index_of x xs)"
proof
  fix x
  have "map fst (zip xs [0..<length xs]) = xs" by simp
  then have "map_of (rev (zip xs [0..<length xs])) = map_of (zip xs [0..<length xs])"
    using assms by (intro map_of_rev_distinct) simp
  then show "map_of (rev (zip xs [0..<length xs])) x = index_of x xs"
    using map_of_positions [of xs 0 x] by (simp add: option.map_ident)
qed

lemma dealt_stack_pos:
  assumes "hand_inv t" and "p \<in> set (t_hand_order t)" and "still_in_hand (pl t p)"
    and "p_state (pl t p) \<noteq> AllIn"
  shows "0 < p_stack (pl t p)"
proof -
  obtain r where seats: "seats_linked t" and link: "round_linked t r"
    using assms(1) by (auto simp: hand_inv_def)
  have "p_state (pl t p) \<noteq> Folded" using assms(3) by (auto simp: still_in_hand_def)
  then have "p_id (pl t p) \<in> set (map bp_id (rd_players r))"
    using link assms(2) by (auto simp: round_linked_def)
  then obtain e where e: "e \<in> set (rd_players r)" "bp_id e = p_id (pl t p)" by auto
  obtain q where q: "entry_link t e q" "player_by_id t (bp_id e) = Some q"
    using linked_player [OF seats link e(1)] by blast
  have "player_by_id t (p_id (pl t p)) = Some p"
    using seats assms(2) player_by_id_seat by (auto simp: seats_linked_def)
  then have "q = p" using q(2) e(2) by simp
  then show ?thesis
    using q(1) e(1) link assms(4) by (auto simp: entry_link_def round_linked_def round_wf_def player_wf_def)
qed

lemma start_betting_round_frame [simp]:
  "t_store (start_betting_round rs b m t) = t_store t" "t_players (start_betting_round rs b m t) = t_players t"
  "t_hand_order (start_betting_round rs b m t) = t_hand_order t"
  "t_stage (start_betting_round rs b m t) = t_stage t"
  "t_runout_phase (start_betting_round rs b m t) = t_runout_phase t"
  "t_big_blind (start_betting_round rs b m t) = t_big_blind t"
  "t_small_blind (start_betting_round rs b m t) = t_small_blind t"
  "t_rake_collected (start_betting_round rs b m t) = t_rake_collected t"
  by (simp_all add: start_betting_round_def Let_def)

lemma same_deal_start [simp]: "same_deal t (start_betting_round rs b m t)"
  by (simp add: start_betting_round_def Let_def same_deal_def)

text \<open>A fresh round over the players still in the hand is linked to them.\<close>

lemma new_round_linked:
  assumes seats: "seats_linked t" and bb: "0 < m" and bet: "0 \<le> b"
    and rs: "distinct rs" "set rs \<subseteq> set (t_hand_order t)"
    and live: "\<forall>p\<in>set rs. p_state (pl t p) \<noteq> Folded"
    and pos: "\<forall>p\<in>set rs. p_state (pl t p) \<noteq> AllIn \<longrightarrow> 0 < p_stack (pl t p)"
    and out: "\<forall>p\<in>set (t_hand_order t). p \<notin> set rs \<longrightarrow> p_state (pl t p) = Folded"
  shows "round_linked (start_betting_round rs b m t) (new_round (map (\<lambda>r. round_entry (pl t r)) rs) b m)"
    and "t_round (start_betting_round rs b m t) = Some (new_round (map (\<lambda>r. round_entry (pl t r)) rs) b m)"
proof -
  let ?es = "map (\<lambda>r. round_entry (pl t r)) rs"
  have flt: "filter (\<lambda>r. p_state (pl t r) \<noteq> Folded) rs = rs" using live by simp
  have ids: "map bp_id ?es = map (\<lambda>r. p_id (pl t r)) rs" by (simp add: round_entry_def)
  have "inj_on (\<lambda>r. p_id (pl t r)) (set rs)"
    using seats rs(2) by (intro inj_onI) (rule seat_eq_by_id [of t], auto simp: seats_linked_def)
  then have dist: "distinct (map bp_id ?es)" unfolding ids using rs(1) by (simp add: distinct_map)
  show "t_round (start_betting_round rs b m t) = Some (new_round ?es b m)"
    by (simp add: start_betting_round_def Let_def flt)
  have idx: "t_round_idx (start_betting_round rs b m t) = (\<lambda>pid. index_of pid (map bp_id ?es))"
    using map_of_rev_positions [OF dist] by (simp add: start_betting_round_def Let_def flt)
  have base: "t_round_baseline (start_betting_round rs b m t) = (\<lambda>_. 0)"
    by (simp add: start_betting_round_def Let_def)
  have wf: "round_wf (new_round ?es b m)"
    using bb bet pos seats rs(2)
    by (auto simp: round_wf_def new_round_def round_entry_def player_wf_def seats_linked_def dealt_player_ok_def)
  have link: "\<exists>p\<in>set (t_hand_order t). entry_link (start_betting_round rs b m t) e p" if "e \<in> set ?es" for e
    using that rs(2) live base by (auto simp: entry_link_def round_entry_def)
  have rest: "p_state (pl t p) = Folded" if "p \<in> set (t_hand_order t)" "p_id (pl t p) \<notin> set (map bp_id ?es)" for p
    using that out unfolding ids by auto
  show "round_linked (start_betting_round rs b m t) (new_round ?es b m)"
    using wf dist idx link rest by (simp add: round_linked_def new_round_def)
qed
lemma new_round_open:
  assumes "1 < length (filter (\<lambda>p. p_state (pl t p) \<noteq> AllIn) rs)"
  shows "\<not> is_complete (new_round (map (\<lambda>r. round_entry (pl t r)) rs) b m)"
proof -
  let ?es = "map (\<lambda>r. round_entry (pl t r)) rs"
  have live: "filter (\<lambda>e. \<not> bp_folded e) ?es = ?es"
    by (rule filter_True) (auto simp: round_entry_def)
  have "1 < length rs"
    using assms length_filter_le [of "\<lambda>p. p_state (pl t p) \<noteq> AllIn" rs] by linarith
  moreover have "filter (\<lambda>p. p_state (pl t p) \<noteq> AllIn) rs \<noteq> []" using assms by auto
  then obtain p where "p \<in> set rs" "p_state (pl t p) \<noteq> AllIn" by (auto simp: filter_empty_conv)
  then have "round_entry (pl t p) \<in> set ?es" "\<not> bp_all_in (round_entry (pl t p))"
    "\<not> bp_acted (round_entry (pl t p))" by (auto simp: round_entry_def)
  ultimately show ?thesis
    unfolding is_complete_def Let_def new_round_def bet_round.simps live by fastforce
qed

lemma seats_linked_cards: "cards_only t t' \<Longrightarrow> seats_linked t' = seats_linked t"
  using cards_only_sums(4) [of t t'] by (simp add: seats_linked_def cards_only_def)

lemma count_actable_alt: "count_actable t = length (filter (\<lambda>p. p_state (pl t p) \<noteq> AllIn) (active_players t))"
  by (simp add: count_actable_def active_players_def conj_commute)

text \<open>What going on to the next street keeps: everybody's seat, chips and state.\<close>

definition same_people :: "table \<Rightarrow> table \<Rightarrow> bool" where
  "same_people t t' \<longleftrightarrow> t_store t' = t_store t \<and> t_players t' = t_players t \<and>
     t_hand_order t' = t_hand_order t \<and> t_rake_collected t' = t_rake_collected t"

lemma cards_same_people: "cards_only t t' \<Longrightarrow> same_people t t'"
  by (simp add: cards_only_def same_people_def)

lemma next_street_ok:
  assumes inv: "hand_inv t" and ph: "t_runout_phase t = 0" and act: "1 < count_actable t"
  shows "\<exists>t'. next_street T t = Some t' \<and>
    (settled T t t' \<or> hand_live t' \<and> same_people t t' \<and> hand_rank t' < hand_rank t)"
proof (cases "t_stage t = River")
  case True
  then show ?thesis using run_showdown_cards [OF inv, of t T] by (auto simp: next_street_def)
next
  case False
  have d: "deal_ok t" "is_betting_stage (t_stage t)" and bb: "0 < t_big_blind t"
    and rs: "rake_sane t (hand_chips t)" and seats: "seats_linked t"
    using inv by (simp_all add: hand_inv_def)
  obtain n b where s: "deal_street t =
      Some (t\<lparr>t_next_card := n, t_board := b, t_stage := next_stage (t_stage t)\<rparr>)"
    "deal_ok (t\<lparr>t_next_card := n, t_board := b, t_stage := next_stage (t_stage t)\<rparr>)"
    using deal_street_ok [OF d(1) _ d(2)] ph by auto
  let ?u = "t\<lparr>t_next_card := n, t_board := b, t_stage := next_stage (t_stage t)\<rparr>"
  let ?v = "start_betting_round (active_players ?u) 0 (t_big_blind ?u) ?u"
  have c: "cards_only t ?u" by (simp add: cards_only_def)
  let ?rs = "active_players ?u"
  have act_u: "?rs = active_players t" using cards_only_sums(7) [OF c] .
  have seats_u: "seats_linked ?u" using seats seats_linked_cards [OF c] by simp
  have sub: "set ?rs \<subseteq> set (t_hand_order ?u)" by (auto simp: active_players_def)
  have dist: "distinct ?rs" using seats by (simp add: active_players_def seats_linked_def)
  have live: "\<forall>p\<in>set ?rs. p_state (pl ?u p) \<noteq> Folded"
    by (auto simp: active_players_def still_in_hand_def)
  have pos: "\<forall>p\<in>set ?rs. p_state (pl ?u p) \<noteq> AllIn \<longrightarrow> 0 < p_stack (pl ?u p)"
    using dealt_stack_pos [OF inv] by (auto simp: active_players_def)
  have out: "\<forall>p\<in>set (t_hand_order ?u). p \<notin> set ?rs \<longrightarrow> p_state (pl ?u p) = Folded"
  proof (intro ballI impI)
    fix p assume "p \<in> set (t_hand_order ?u)" "p \<notin> set ?rs"
    then show "p_state (pl ?u p) = Folded"
      using seats by (cases "p_state (pl ?u p)")
        (auto simp: active_players_def still_in_hand_def seats_linked_def dealt_player_ok_def)
  qed
  note link = new_round_linked [OF seats_u _ _ dist sub live pos out, of "t_big_blind ?u" 0]
  have "hand_inv ?v"
    unfolding hand_inv_def
  proof (intro conjI exI)
    show "seats_linked ?v" using seats_u by (simp add: seats_linked_def seat_ids_def)
    show "is_betting_stage (t_stage ?v)" using next_stage_betting [OF d(2)] by simp
    show "t_round ?v = Some (new_round (map (\<lambda>r. round_entry (pl ?u r)) ?rs) 0 (t_big_blind ?u))"
      using link(2) bb by simp
    show "round_linked ?v (new_round (map (\<lambda>r. round_entry (pl ?u r)) ?rs) 0 (t_big_blind ?u))"
      using link(1) bb by simp
    show "0 < t_big_blind ?v" using bb by simp
    show "deal_ok ?v" using s(2) deal_ok_same [of ?u ?v] by simp
    show "rake_sane ?v (hand_chips ?v)"
      using rs by (simp add: rake_sane_def hand_chips_def start_betting_round_def Let_def)
  qed
  moreover have "\<not> is_complete (new_round (map (\<lambda>r. round_entry (pl ?u r)) ?rs) 0 (t_big_blind ?u))"
    by (rule new_round_open) (use act in \<open>simp add: act_u count_actable_alt\<close>)
  ultimately have "hand_live ?v" using link(2) bb ph by (auto simp: hand_live_def)
  moreover have "hand_rank ?v < hand_rank t"
    using next_stage_need [OF d(2) False] ph by (simp add: hand_rank_def)
  ultimately show ?thesis using False s(1) by (simp add: next_street_def same_people_def)
qed

lemma advance_stage_ok:
  assumes inv: "hand_inv t" and r: "t_round t = Some r" "is_complete r" and ph: "t_runout_phase t = 0"
  shows "\<exists>t'. advance_stage T t = Some t' \<and>
    (settled T t t' \<or> hand_live t' \<and> same_people t t' \<and> hand_rank t' < hand_rank t)"
proof -
  consider (one) "count_remaining t \<le> 1" | (runout) "1 < count_remaining t" "count_actable t \<le> 1"
    | (street) "1 < count_remaining t" "1 < count_actable t" by linarith
  then show ?thesis
  proof cases
    case one
    then show ?thesis using run_showdown_cards [OF inv, of t T] by (auto simp: advance_stage_def)
  next
    case runout
    note c = close_betting_ok [OF inv ph]
    have counts: "count_remaining (close_betting t) > 1" "count_actable (close_betting t) \<le> 1"
      using runout cards_only_sums(5,6) [OF c(1)] by simp_all
    have "t_round (close_betting t) = Some r" using c(1) r(1) by (simp add: cards_only_def)
    from advance_runout_ok [OF c(2) this r(2) counts c(3), of T]
    obtain t' where t': "advance_runout_street T (close_betting t) = Some t'"
      "settled T (close_betting t) t' \<or>
       hand_live t' \<and> cards_only (close_betting t) t' \<and> hand_rank t' < hand_rank (close_betting t)" by blast
    have "hand_rank (close_betting t) \<le> hand_rank t"
      using ph by (simp add: hand_rank_def close_betting_def)
    then show ?thesis
      using t' runout settled_trans [OF c(1)] cards_same_people [OF cards_only_trans [OF c(1)]]
      by (auto simp: advance_stage_def)
  next
    case street
    then show ?thesis
      using next_street_ok [OF inv ph street(2), of T] by (simp add: advance_stage_def)
  qed
qed

section \<open>Whose turn it is\<close>

definition owes_action :: "table \<Rightarrow> bet_round \<Rightarrow> string \<Rightarrow> bool" where
  "owes_action t r pid \<longleftrightarrow>
     (case t_round_idx t pid of None \<Rightarrow> False | Some i \<Rightarrow> needs_action r (rd_players r ! i))"

lemma can_act_eq:
  assumes "hand_inv t" and "t_round t = Some r"
  shows "current_player_can_act t pid = Some (owes_action t r pid)"
proof (cases "t_round_idx t pid")
  case None
  then show ?thesis by (simp add: current_player_can_act_def owes_action_def)
next
  case (Some i)
  have seats: "seats_linked t" and link: "round_linked t r"
    using assms by (auto simp: hand_inv_def)
  note i = linked_idx [OF link Some]
  obtain p where "player_by_id t pid = Some p"
    using linked_player [OF seats link, of "rd_players r ! i"] i by auto
  then show ?thesis
    using Some i(1) assms(2) by (simp add: current_player_can_act_def owes_action_def needs_action_def Let_def)
qed

lemma first_to_act_eq:
  assumes "hand_inv t" and "t_round t = Some r"
  shows "first_to_act t ids = Some (case List.find (owes_action t r) ids of None \<Rightarrow> '''' | Some pid \<Rightarrow> pid)"
  by (induction ids) (simp_all add: can_act_eq [OF assms])

lemma scan_seats_set:
  assumes "seats_linked t"
  shows "set (scan_seats t) = set (t_hand_order t)"
proof -
  have "r \<in> set (t_hand_order t)" if "r \<in> set (t_players t)" "q \<in> set (t_hand_order t)"
      "p_id (pl t q) = p_id (pl t r)" for r q
  proof -
    have "q = r" by (rule seat_eq_by_id [of t]) (use assms that in \<open>auto simp: seats_linked_def\<close>)
    then show ?thesis using that(2) by simp
  qed
  then show ?thesis
    using assms by (auto simp: scan_seats_def dealt_into_current_hand_def seats_linked_def)
qed

lemma action_scan_order_rotate:
  "action_scan_order t =
     map (\<lambda>r. p_id (pl t r)) (rotate (scan_start t (scan_seats t)) (scan_seats t))"
proof -
  have "map (\<lambda>i. p_id (pl t (xs ! ((s + i) mod length xs)))) [0..<length xs] =
      map (\<lambda>r. p_id (pl t r)) (rotate s xs)" for xs s
    unfolding scan_around [symmetric] by simp
  then show ?thesis by (auto simp: action_scan_order_def Let_def)
qed

lemma action_scan_set:
  "seats_linked t \<Longrightarrow> set (action_scan_order t) = (\<lambda>r. p_id (pl t r)) ` set (t_hand_order t)"
  by (simp add: action_scan_order_rotate scan_seats_set)

lemma current_player_eq:
  assumes "hand_inv t" and "t_round t = Some r"
  shows "current_player_to_act t =
    Some (case List.find (owes_action t r) (action_scan_order t) of None \<Rightarrow> '''' | Some pid \<Rightarrow> pid)"
  using assms first_to_act_eq [OF assms] by (simp add: current_player_to_act_def hand_inv_def)

text \<open>While the betting round is open, somebody is on the clock, and owes a decision.\<close>

lemma open_round_has_player:
  assumes "hand_inv t" and "t_round t = Some r" and "\<not> is_complete r"
  obtains pid i where "current_player_to_act t = Some pid" and "pid \<noteq> ''''"
    and "t_round_idx t pid = Some i" and "i < length (rd_players r)" and "needs_action r (rd_players r ! i)"
proof -
  have seats: "seats_linked t" and link: "round_linked t r"
    using assms(1,2) by (auto simp: hand_inv_def)
  obtain j where j: "j < length (rd_players r)" "needs_action r (rd_players r ! j)"
    using incomplete_someone_needs_action [OF assms(3)] .
  obtain p where p: "p \<in> set (t_hand_order t)" "entry_link t (rd_players r ! j) p"
    using linked_entry [OF link j(1)] by blast
  have "bp_id (rd_players r ! j) \<in> set (action_scan_order t)"
    using action_scan_set [OF seats] p by (auto simp: entry_link_def)
  moreover have "owes_action t r (bp_id (rd_players r ! j))"
    using linked_idx_nth [OF link j(1)] j(2) by (simp add: owes_action_def)
  ultimately have "List.find (owes_action t r) (action_scan_order t) \<noteq> None"
    by (auto simp: find_None_iff_all)
  then obtain pid where pid: "List.find (owes_action t r) (action_scan_order t) = Some pid" by blast
  note f = find_Some_mem [OF pid]
  have "pid \<in> set (seat_ids t)"
    using f action_scan_set [OF seats] seats by (auto simp: seats_linked_def seat_ids_def)
  then have "pid \<noteq> ''''" using seats by (auto simp: seats_linked_def)
  moreover obtain i where "t_round_idx t pid = Some i" "needs_action r (rd_players r ! i)"
    using f by (auto simp: owes_action_def split: option.splits)
  ultimately show thesis
    using that [of pid i] current_player_eq [OF assms(1,2)] pid linked_idx(1) [OF link, of pid i] by simp
qed

lemma current_player_owes:
  assumes "hand_inv t" and "t_round t = Some r" and "current_player_to_act t = Some pid" and "pid \<noteq> ''''"
  obtains i where "t_round_idx t pid = Some i" and "i < length (rd_players r)"
    and "needs_action r (rd_players r ! i)"
proof -
  have link: "round_linked t r" using assms(1,2) by (auto simp: hand_inv_def)
  have "List.find (owes_action t r) (action_scan_order t) = Some pid"
    using assms(3,4) current_player_eq [OF assms(1,2)] by (auto split: option.splits)
  then have "owes_action t r pid" by (rule find_Some_mem [THEN conjunct2])
  then obtain i where "t_round_idx t pid = Some i" "needs_action r (rd_players r ! i)"
    by (auto simp: owes_action_def split: option.splits)
  then show thesis using that [of i] linked_idx(1) [OF link, of pid i] by simp
qed

text \<open>With two players left and the round closed, nobody owes anything.\<close>

lemma count_remaining_le:
  assumes "seats_linked t" and "round_linked t r"
  shows "count_remaining t \<le> length (filter (\<lambda>e. \<not> bp_folded e) (rd_players r))"
proof -
  let ?live = "filter (\<lambda>p. still_in_hand (pl t p)) (t_hand_order t)"
  let ?es = "filter (\<lambda>e. \<not> bp_folded e) (rd_players r)"
  have "inj_on (\<lambda>p. p_id (pl t p)) (set ?live)"
    using assms(1) by (intro inj_onI) (rule seat_eq_by_id [of t], auto simp: seats_linked_def)
  then have d: "distinct (map (\<lambda>p. p_id (pl t p)) ?live)"
    using assms(1) by (simp add: distinct_map seats_linked_def)
  have sub: "p_id (pl t p) \<in> set (map bp_id ?es)" if p: "p \<in> set ?live" for p
  proof -
    have nf: "p_state (pl t p) \<noteq> Folded" "p \<in> set (t_hand_order t)"
      using p by (auto simp: still_in_hand_def)
    then have "p_id (pl t p) \<in> set (map bp_id (rd_players r))"
      using assms(2) by (auto simp: round_linked_def)
    then obtain e where e: "e \<in> set (rd_players r)" "bp_id e = p_id (pl t p)" by auto
    obtain q where q: "entry_link t e q" "player_by_id t (bp_id e) = Some q"
      using linked_player [OF assms e(1)] by blast
    have "player_by_id t (p_id (pl t p)) = Some p"
      by (rule player_by_id_seat) (use assms(1) nf(2) in \<open>auto simp: seats_linked_def\<close>)
    then have "q = p" using q(2) unfolding e(2) by simp
    then have "\<not> bp_folded e" using q(1) nf(1) by (simp add: entry_link_def)
    then have "bp_id e \<in> set (map bp_id ?es)" using e(1) by simp
    then show ?thesis by (simp only: e(2))
  qed
  have "length ?live = card (set (map (\<lambda>p. p_id (pl t p)) ?live))"
    using distinct_card [OF d] by simp
  also have "\<dots> \<le> card (set (map bp_id ?es))"
    by (rule card_mono) (use sub in auto)
  also have "\<dots> \<le> length ?es" using card_length [of "map bp_id ?es"] by simp
  finally show ?thesis by (simp add: count_remaining_def)
qed

lemma closed_round_no_player:
  assumes "hand_inv t" and "t_round t = Some r" and "is_complete r" and "1 < count_remaining t"
  shows "current_player_to_act t = Some ''''"
proof (rule ccontr)
  assume not_none: "current_player_to_act t \<noteq> Some ''''"
  have "current_player_to_act t \<noteq> None"
    using current_player_eq [OF assms(1,2)] by simp
  then obtain pid where pid: "current_player_to_act t = Some pid" "pid \<noteq> ''''"
    using not_none by auto
  obtain i where "i < length (rd_players r)" "needs_action r (rd_players r ! i)"
    using current_player_owes [OF assms(1,2) pid] .
  then have "filter (needs_action r) (rd_players r) \<noteq> []"
    by (auto simp: filter_empty_conv)
  moreover have "1 < length (filter (\<lambda>e. \<not> bp_folded e) (rd_players r))"
    using count_remaining_le [of t r] assms(1,2,4) by (auto simp: hand_inv_def)
  ultimately show False
    using assms(3) unfolding is_complete_pending pending_def by simp
qed

section \<open>An action, in full\<close>

text \<open>What an accepted action does: the booking, then either the hand goes on or it is settled.\<close>

definition act_effect :: "score_tables \<Rightarrow> table \<Rightarrow> string \<Rightarrow> table \<Rightarrow> bool" where
  "act_effect T t pid t' \<longleftrightarrow> (\<exists>t1 r r'. bet_effect t pid t1 \<and> hand_inv t1 \<and>
     t_round t = Some r \<and> t_round t1 = Some r' \<and> round_weight r' < round_weight r \<and>
     (settled T t1 t' \<or>
      hand_live t' \<and> same_people t1 t' \<and> (t' = t1 \<or> hand_rank t' < hand_rank t1)))"

lemma hand_live_round:
  assumes "hand_live t"
  obtains r where "hand_inv t" and "t_round t = Some r"
    and "current_player_to_act t = Some '''' \<or> \<not> is_complete r \<and> t_runout_phase t = 0"
proof -
  obtain r where r: "hand_inv t" "t_round t = Some r"
    using assms by (auto simp: hand_live_def hand_inv_def)
  have "current_player_to_act t = Some ''''" if "is_awaiting_runout t"
    using closed_round_no_player [OF r] that r(2) by (auto simp: is_awaiting_runout_def split: if_splits)
  then show thesis using that [of r] r assms by (auto simp: hand_live_def)
qed

lemma continue_ok:
  assumes "hand_inv t1" and "t_round t1 = Some r'" and "t_runout_phase t1 = 0"
  shows "\<exists>t2. (if is_complete r' then advance_stage T t1 else Some t1) = Some t2 \<and>
    (settled T t1 t2 \<or> hand_live t2 \<and> same_people t1 t2 \<and> (t2 = t1 \<or> hand_rank t2 < hand_rank t1))"
  using advance_stage_ok [OF assms(1,2) _ assms(3), of T] assms
  by (auto simp: hand_live_def same_people_def)

lemma act_ok:
  assumes "hand_live t"
  shows "\<exists>res. act T pid a amount t = Some res \<and> (\<forall>t'. res = Inr t' \<longrightarrow> act_effect T t pid t')"
proof -
  obtain r where inv: "hand_inv t" and r: "t_round t = Some r"
    and open_r: "current_player_to_act t = Some '''' \<or> \<not> is_complete r \<and> t_runout_phase t = 0"
    using hand_live_round [OF assms] .
  obtain cur where cur: "current_player_to_act t = Some cur"
    using current_player_eq [OF inv r] by blast
  show ?thesis
  proof (cases "cur = '''' \<or> cur \<noteq> pid")
    case True
    then show ?thesis by (auto simp: act_def cur)
  next
    case False
    then have pid: "current_player_to_act t = Some pid" "pid \<noteq> ''''" using cur by auto
    then have ph: "t_runout_phase t = 0" using open_r by simp
    obtain i where i: "t_round_idx t pid = Some i" "i < length (rd_players r)"
      "needs_action r (rd_players r ! i)" using current_player_owes [OF inv r pid] .
    let ?a = "normalized_action t pid a"
    show ?thesis
    proof (cases "round_act r (int i) ?a amount")
      case (Inl e)
      then show ?thesis using pid i r by (simp add: act_def Let_def)
    next
      case (Inr r')
      obtain t1 where t1: "apply_action pid i ?a r' t = Some t1" "hand_inv t1" "t_round t1 = Some r'"
        "bet_effect t pid t1"
        using act_step [OF inv r i(1) _ _ Inr] i(3) by (auto simp: needs_action_def)
      have "t_runout_phase t1 = 0" using t1(4) ph by (simp add: bet_effect_def same_deal_def)
      from continue_ok [OF t1(2,3) this, of T] obtain t2 where t2:
        "(if is_complete r' then advance_stage T t1 else Some t1) = Some t2"
        "settled T t1 t2 \<or> hand_live t2 \<and> same_people t1 t2 \<and> (t2 = t1 \<or> hand_rank t2 < hand_rank t1)" by blast
      have "turn_step r r'"
        using inv r Inr i by (auto simp: hand_inv_def round_linked_def intro!: turn_step.act)
      then have "round_weight r' < round_weight r" using turn_step_weight by blast
      then have "act_effect T t pid t2"
        using t1 t2(2) r unfolding act_effect_def by blast
      then show ?thesis
        using pid i r Inr t1(1) t2(1) by (simp add: act_def Let_def)
    qed
  qed
qed

lemma act_effect_chips:
  assumes "hand_inv t" and "act_effect T t pid t'"
  shows "same_seats t t'" and "table_chips t' = table_chips t" and "hand_live t' \<or> t_stage t' = Complete"
proof -
  obtain t1 where t1: "bet_effect t pid t1" "hand_inv t1"
    "settled T t1 t' \<or> hand_live t' \<and> same_people t1 t'"
    using assms(2) by (auto simp: act_effect_def)
  have prog: "hand_in_progress u" if "hand_inv u" for u
    using that by (auto simp: hand_in_progress_def hand_inv_def is_betting_stage_def)
  have c1: "table_chips t1 = table_chips t" "same_seats t t1"
    using t1(1) prog [OF assms(1)] prog [OF t1(2)] by (simp_all add: bet_effect_def table_chips_def same_deal_def)
  have "table_chips t' = table_chips t1 \<and> same_seats t1 t' \<and> (hand_live t' \<or> t_stage t' = Complete)"
    using t1(3)
  proof
    assume "settled T t1 t'"
    from settled_chips [OF this] show ?thesis
      using prog [OF t1(2)] by (simp add: table_chips_def hand_in_progress_def)
  next
    assume *: "hand_live t' \<and> same_people t1 t'"
    then have "hand_in_progress t'" using prog by (simp add: hand_live_def)
    then show ?thesis
      using * prog [OF t1(2)]
      by (simp add: table_chips_def same_people_def same_seats_def seat_stacks_def hand_put_def)
  qed
  then show "same_seats t t'" "table_chips t' = table_chips t" "hand_live t' \<or> t_stage t' = Complete"
    using c1 same_seats_trans by auto
qed

section \<open>The paced runout\<close>

lemma awaiting_round:
  assumes "hand_inv t" and "is_awaiting_runout t"
  obtains r where "t_round t = Some r" and "is_complete r" and "1 < count_remaining t"
    and "count_actable t \<le> 1"
  using assms by (auto simp: hand_inv_def is_awaiting_runout_def split: if_splits)

lemma runout_step_ok:
  assumes "hand_live t" and "is_awaiting_runout t"
  shows "\<exists>t'. advance_runout_street T t = Some t' \<and>
    (settled T t t' \<or> hand_live t' \<and> cards_only t t' \<and> hand_rank t' < hand_rank t)"
proof -
  have inv: "hand_inv t" using assms(1) by (simp add: hand_live_def)
  obtain r where r: "t_round t = Some r" "is_complete r" "1 < count_remaining t" "count_actable t \<le> 1"
    using awaiting_round [OF inv assms(2)] .
  have "t_runout_phase t \<noteq> 0" using assms r by (auto simp: hand_live_def)
  with advance_runout_ok [OF inv r(1,2,3,4), of T] show ?thesis by simp
qed

lemma hand_inv_in_progress: "hand_inv t \<Longrightarrow> hand_in_progress t"
  by (auto simp: hand_in_progress_def hand_inv_def is_betting_stage_def)

lemma settled_table_chips: "hand_inv t \<Longrightarrow> settled T t t' \<Longrightarrow> table_chips t' = table_chips t"
  using settled_chips [of T t t'] hand_inv_in_progress [of t]
  by (simp add: table_chips_def hand_in_progress_def)

lemma same_people_chips:
  "hand_inv t \<Longrightarrow> hand_inv t' \<Longrightarrow> same_people t t' \<Longrightarrow> table_chips t' = table_chips t"
  using hand_inv_in_progress [of t] hand_inv_in_progress [of t']
  by (simp add: table_chips_def same_people_def seat_stacks_def hand_put_def)

section \<open>Steps of a hand\<close>

text \<open>The two ways a live hand moves: the player on the clock acts, or a paced street is dealt.\<close>

inductive hand_step :: "score_tables \<Rightarrow> table \<Rightarrow> table \<Rightarrow> bool" for T where
  acted: "act T pid a amount t = Some (Inr t') \<Longrightarrow> hand_step T t t'"
| dealt: "is_awaiting_runout t \<Longrightarrow> advance_runout_street T t = Some t' \<Longrightarrow> hand_step T t t'"

inductive_cases hand_stepE: "hand_step T t t'"

definition hand_measure :: "table \<Rightarrow> nat \<times> nat" where
  "hand_measure t = (hand_rank t, case t_round t of None \<Rightarrow> 0 | Some r \<Rightarrow> round_weight r)"

lemma hand_step_effect:
  assumes "hand_live t" and "hand_step T t t'"
  shows "table_chips t' = table_chips t" and "same_seats t t'"
    and "t_stage t' = Complete \<or> hand_live t' \<and> (hand_measure t', hand_measure t) \<in> less_than <*lex*> less_than"
  using assms(2)
proof (induction rule: hand_step.cases)
  case (acted pid a amount u u')
  have inv: "hand_inv t" using assms(1) by (simp add: hand_live_def)
  have e: "act_effect T t pid t'" using act_ok [OF assms(1), of T pid a amount] acted by auto
  { case 1 show ?case by (rule act_effect_chips(2) [OF inv e]) }
  { case 2 show ?case by (rule act_effect_chips(1) [OF inv e]) }
  { case 3
    obtain t1 r r' where t1: "bet_effect t pid t1" "t_round t = Some r" "t_round t1 = Some r'"
      "round_weight r' < round_weight r"
      "settled T t1 t' \<or> hand_live t' \<and> same_people t1 t' \<and> (t' = t1 \<or> hand_rank t' < hand_rank t1)"
      using e by (auto simp: act_effect_def)
    have "hand_rank t1 = hand_rank t"
      using t1(1) by (simp add: bet_effect_def same_deal_def hand_rank_def)
    then show ?case
      using t1(2-5) settled_chips(1) [of T t1 t'] by (auto simp: hand_measure_def) }
next
  case (dealt u u')
  have inv: "hand_inv t" using assms(1) by (simp add: hand_live_def)
  have e: "settled T t t' \<or> hand_live t' \<and> cards_only t t' \<and> hand_rank t' < hand_rank t"
    using runout_step_ok [OF assms(1), of T] dealt by auto
  have p: "hand_live t' \<and> cards_only t t' \<Longrightarrow> same_people t t' \<and> hand_inv t'"
    using cards_same_people by (auto simp: hand_live_def)
  { case 1 show ?case
      using e settled_table_chips [OF inv, of T t'] same_people_chips [OF inv, of t'] p by blast }
  { case 2 show ?case
      using e settled_chips(2) [of T t t'] by (auto simp: cards_only_def same_seats_def) }
  { case 3 show ?case
      using e settled_chips(1) [of T t t'] by (auto simp: hand_measure_def) }
qed

lemma hand_step_wf: "wfp (\<lambda>t' t. hand_live t \<and> hand_live t' \<and> hand_step T t t' \<and> t_stage t' \<noteq> Complete)"
proof -
  have "wf (inv_image (less_than <*lex*> less_than) hand_measure)"
    by (intro wf_inv_image wf_lex_prod wf_less_than)
  moreover have "{(t', t). hand_live t \<and> hand_live t' \<and> hand_step T t t' \<and> t_stage t' \<noteq> Complete}
      \<subseteq> inv_image (less_than <*lex*> less_than) hand_measure"
    using hand_step_effect(3) by (auto simp: inv_image_def)
  ultimately show ?thesis
    unfolding wfp_def by (rule wf_subset)
qed

lemma fold_accepted:
  assumes "hand_live t" and "current_player_to_act t = Some pid" and "pid \<noteq> ''''"
  shows "\<exists>t'. act T pid ActionFold 0 t = Some (Inr t')"
proof -
  obtain r where inv: "hand_inv t" and r: "t_round t = Some r"
    using assms(1) by (auto simp: hand_live_def hand_inv_def)
  obtain i where i: "t_round_idx t pid = Some i" "i < length (rd_players r)"
      "needs_action r (rd_players r ! i)"
    using current_player_owes [OF inv r assms(2,3)] .
  have norm: "normalized_action t pid ActionFold = ActionFold"
    by (simp add: normalized_action_def Let_def split: option.split)
  have "round_act r (int i) ActionFold 0 = Inr (act_fold r i)"
    using round_act_eq [of i r ActionFold 0] i by (simp add: needs_action_def)
  moreover obtain res where "act T pid ActionFold 0 t = Some res"
    using act_ok [OF assms(1), of T pid ActionFold 0] by blast
  ultimately show ?thesis
    using assms(2,3) i(1,2) r norm
    by (auto simp: act_def Let_def split: bind_splits if_splits)
qed

text \<open>A live hand always has a move.\<close>

lemma hand_live_step:
  assumes "hand_live t"
  shows "\<exists>t'. hand_step T t t'"
proof (cases "is_awaiting_runout t")
  case True
  then show ?thesis using runout_step_ok [OF assms, of T] by (auto intro: hand_step.dealt)
next
  case False
  then obtain r where r: "hand_inv t" "t_round t = Some r" "\<not> is_complete r"
    using assms by (auto simp: hand_live_def)
  obtain pid where "current_player_to_act t = Some pid" "pid \<noteq> ''''"
    using open_round_has_player [OF r] by metis
  then show ?thesis using fold_accepted [OF assms] by (blast intro: hand_step.acted)
qed

section \<open>Changes of a seat's flags\<close>

lemma current_player_upd:
  assumes "\<And>p. p_id (f p) = p_id p"
  shows "current_player_to_act (upd r f t) = current_player_to_act t"
proof -
  have by_id: "player_by_id (upd r f t) pid = player_by_id t pid" for pid
    by (rule same_seats_by_id) (simp add: assms)
  have can: "current_player_can_act (upd r f t) pid = current_player_can_act t pid" for pid
    by (auto simp: current_player_can_act_def by_id split: option.split)
  have first: "first_to_act (upd r f t) ids = first_to_act t ids" for ids
    by (induction ids) (simp_all add: can cong: if_cong)
  have dealer: "dealer_index_within (upd r f t) rs = dealer_index_within t rs" for rs
    unfolding dealer_index_within_def upd_frame by (rule refl)
  have order: "action_scan_order (upd r f t) = action_scan_order t"
    unfolding action_scan_order_def scan_seats_def scan_start_def dealt_into_current_hand_def
      blind_seats_def dealer upd_field [of p_id, OF assms] upd_frame by (rule refl)
  show ?thesis by (simp add: current_player_to_act_def first order)
qed

text \<open>A change that keeps chips, and neither folds, unfolds nor changes an all-in, keeps the hand live.\<close>

lemma hand_live_upd:
  assumes live: "hand_live t"
    and f: "\<And>p. p_id (f p) = p_id p" "\<And>p. p_stack (f p) = p_stack p" "\<And>p. p_contributed (f p) = p_contributed p"
    and st: "s \<in> set (t_hand_order t) \<Longrightarrow> (p_state (f (pl t s)) = Folded) = (p_state (pl t s) = Folded) \<and>
      (p_state (f (pl t s)) = AllIn) = (p_state (pl t s) = AllIn) \<and>
      p_state (f (pl t s)) \<noteq> Disconnected \<and> p_state (f (pl t s)) \<noteq> PendingEntry"
  shows "hand_live (upd s f t)" and "table_chips (upd s f t) = table_chips t"
proof -
  let ?u = "upd s f t"
  note fields = upd_field [of p_id, OF f(1)] upd_field [of p_stack, OF f(2)] upd_field [of p_contributed, OF f(3)]
  obtain r where inv: "hand_inv t" and r: "t_round t = Some r" and seats: "seats_linked t"
    and link: "round_linked t r"
    using live by (auto simp: hand_live_def hand_inv_def)
  have chips: "hand_chips ?u = hand_chips t" by (simp add: hand_chips_def fields)
  have ids: "same_seats t ?u" by (simp add: same_seats_def fields)
  have ok: "\<forall>q\<in>set (t_hand_order t). dealt_player_ok (pl ?u q)"
    using seats st by (auto simp: seats_linked_def dealt_player_ok_def fields pl_upd f)
  have state: "(p_state (pl ?u q) = Folded) = (p_state (pl t q) = Folded) \<and>
      (p_state (pl ?u q) = AllIn) = (p_state (pl t q) = AllIn)" if "q \<in> set (t_hand_order t)" for q
    using that st by (auto simp: pl_upd)
  have "round_linked ?u r"
    unfolding round_linked_def
  proof (intro conjI ballI impI)
    fix e assume "e \<in> set (rd_players r)"
    then obtain p where p: "p \<in> set (t_hand_order t)" "entry_link t e p"
      using link by (auto simp: round_linked_def)
    then have "entry_link ?u e p" using state [OF p(1)] by (auto simp: entry_link_def fields)
    then show "\<exists>p\<in>set (t_hand_order ?u). entry_link ?u e p" using p(1) by auto
  qed (use link state in \<open>auto simp: round_linked_def fields\<close>)
  then have inv': "hand_inv ?u"
    using hand_inv_keep [OF inv ids _ _ chips ok, of r] r by simp
  have still: "still_in_hand (pl ?u q) = still_in_hand (pl t q)" if "q \<in> set (t_hand_order t)" for q
  proof -
    have "still_in_hand p = (p_state p \<noteq> Folded)" if "dealt_player_ok p" for p
      using that by (cases "p_state p") (auto simp: still_in_hand_def dealt_player_ok_def)
    then show ?thesis using that ok seats state by (simp add: seats_linked_def)
  qed
  have counts: "count_remaining ?u = count_remaining t" "count_actable ?u = count_actable t"
    unfolding count_remaining_def count_actable_def
    by (auto intro!: arg_cong [of _ _ length] filter_cong simp: still state)
  have "is_awaiting_runout ?u = is_awaiting_runout t"
    by (simp add: is_awaiting_runout_def counts cong: option.case_cong)
  then show "hand_live ?u" using live inv' r by (simp add: hand_live_def)
  show "table_chips ?u = table_chips t"
    by (simp add: table_chips_def seat_stacks_def hand_put_def hand_in_progress_def fields)
qed

lemma flag_keeps [simp]:
  "p_id (set_state s p) = p_id p" "p_stack (set_state s p) = p_stack p"
  "p_contributed (set_state s p) = p_contributed p" "p_state (set_state s p) = s"
  by (simp_all add: set_state_def)

lemma live_flag:
  assumes "hand_live t" and "\<And>p. p_id (f p) = p_id p" and "\<And>p. p_stack (f p) = p_stack p"
    and "\<And>p. p_contributed (f p) = p_contributed p" and "\<And>p. p_state (f p) = p_state p"
  shows "hand_live (upd s f t)" and "table_chips (upd s f t) = table_chips t"
proof -
  have "dealt_player_ok (pl t s)" if "s \<in> set (t_hand_order t)"
    using assms(1) that by (auto simp: hand_live_def hand_inv_def seats_linked_def)
  then show "hand_live (upd s f t)" "table_chips (upd s f t) = table_chips t"
    using assms by (auto intro!: hand_live_upd simp: dealt_player_ok_def)
qed

lemma live_pause:
  assumes "hand_live t" and "p_state (pl t s) \<noteq> AllIn" and "p_state (pl t s) \<noteq> Folded" and "x \<in> {Active, SittingOut}"
  shows "hand_live (upd s (set_state x) t)" and "table_chips (upd s (set_state x) t) = table_chips t"
  by (rule hand_live_upd [OF assms(1)]; use assms(2-4) in auto)+

section \<open>Sitting out and leaving, in a live hand\<close>

text \<open>Folding the paused player on the clock books exactly what a fold would.\<close>

lemma fold_apply:
  assumes inv: "hand_inv t" and r: "t_round t = Some r" and i: "t_round_idx t pid = Some i"
    and need: "needs_action r (rd_players r ! i)" and p: "player_by_id t pid = Some p"
  shows "apply_action pid i ActionFold (act_fold r i) t =
    Some ((upd p (set_state Folded) t)\<lparr>t_round := Some (act_fold r i)\<rparr>)"
proof -
  let ?e = "rd_players r ! i"
  have seats: "seats_linked t" and link: "round_linked t r" using inv r by (auto simp: hand_inv_def)
  note i' = linked_idx [OF link i]
  have e': "rd_players (act_fold r i) ! i = ?e\<lparr>bp_folded := True\<rparr>"
    using i'(1) by (simp add: act_fold_def Let_def)
  obtain q where q: "entry_link t ?e q" "player_by_id t (bp_id ?e) = Some q"
    using linked_player [OF seats link, of ?e] i'(1) by auto
  then have "q = p" using p i'(2) by simp
  then have l: "bp_stack ?e = p_stack (pl t p)" "t_round_baseline t pid = bp_contributed ?e"
    using q(1) need i'(2) by (auto simp: entry_link_def needs_action_def)
  have "book_action ActionFold (?e\<lparr>bp_folded := True\<rparr>) (bp_contributed ?e) (pl t p) = set_state Folded (pl t p)"
    using l need by (simp add: book_action_def set_state_def needs_action_def Let_def)
  then have "upd p (book_action ActionFold (?e\<lparr>bp_folded := True\<rparr>) (bp_contributed ?e)) t = upd p (set_state Folded) t"
    by (simp add: upd_def)
  then show ?thesis
    using p l need by (simp add: apply_action_def e' Let_def needs_action_def fun_upd_idem)
qed

lemma fold_out_is_act:
  assumes live: "hand_live t" and cur: "current_player_to_act t = Some pid" "pid \<noteq> ''''"
    and p: "player_by_id t pid = Some p"
  shows "\<exists>t'. fold_out T pid p t = Some (Some t') \<and> act T pid ActionFold 0 t = Some (Inr t')"
proof -
  obtain r where inv: "hand_inv t" and r: "t_round t = Some r"
    using live by (auto simp: hand_live_def hand_inv_def)
  obtain i where i: "t_round_idx t pid = Some i" "i < length (rd_players r)"
      "needs_action r (rd_players r ! i)"
    using current_player_owes [OF inv r cur] .
  have norm: "normalized_action t pid ActionFold = ActionFold"
    by (simp add: normalized_action_def Let_def split: option.split)
  have fold: "round_act r (int i) ActionFold 0 = Inr (act_fold r i)"
    using round_act_eq [of i r ActionFold 0] i by (simp add: needs_action_def)
  obtain t' where t': "act T pid ActionFold 0 t = Some (Inr t')"
    using fold_accepted [OF live cur] by blast
  then show ?thesis
    using cur i(1,2) r norm fold fold_apply [OF inv r i(1,3) p]
    by (auto simp: act_def fold_out_def Let_def split: bind_splits)
qed

text \<open>What a command may do to a live hand: nothing to the chips, and the hand stays live or ends.\<close>

definition keeps_hand :: "table \<Rightarrow> table \<Rightarrow> bool" where
  "keeps_hand t t' \<longleftrightarrow> table_chips t' = table_chips t \<and> same_seats t t' \<and>
     (hand_live t' \<or> t_stage t' = Complete)"

lemma keeps_hand_trans: "table_chips u = table_chips t \<Longrightarrow> same_seats t u \<Longrightarrow> keeps_hand u t' \<Longrightarrow> keeps_hand t t'"
  using same_seats_trans by (auto simp: keeps_hand_def)

lemma sit_out_ok:
  assumes "hand_live t0"
  shows "\<exists>t'. sit_out T pid t0 = Some t' \<and> keeps_hand t0 t'"
proof (cases "player_by_id t0 pid")
  case None
  then show ?thesis using assms by (simp add: sit_out_def keeps_hand_def)
next
  case (Some p)
  let ?t = "upd p (\<lambda>p. p\<lparr>p_ready := False\<rparr>) t0"
  have live: "hand_live ?t" and chips: "table_chips ?t = table_chips t0" and ss: "same_seats t0 ?t"
    by (auto intro!: live_flag [OF assms])
  have p: "player_by_id ?t pid = Some p" using same_seats_by_id [OF ss] Some by simp
  have prog: "hand_in_progress ?t" using live hand_inv_in_progress by (simp add: hand_live_def)
  obtain r where inv: "hand_inv ?t" and r: "t_round ?t = Some r"
    using live by (auto simp: hand_live_def hand_inv_def)
  obtain cur where cur: "current_player_to_act ?t = Some cur"
    using current_player_eq [OF inv r] by blast
  have "pid \<in> set (seat_ids ?t)" using player_by_id_None [of ?t pid] p by auto
  then have pid: "pid \<noteq> ''''" using inv by (auto simp: hand_inv_def seats_linked_def)
  let ?s = "p_state (pl ?t p)"
  show ?thesis
  proof (cases "cur = pid \<and> ?s \<noteq> AllIn \<and> ?s \<noteq> Folded")
    case True
    obtain t' where t': "fold_out T pid p ?t = Some (Some t')" "act T pid ActionFold 0 ?t = Some (Inr t')"
      using fold_out_is_act [OF live _ pid p, of T] cur True by auto
    have "act_effect T ?t pid t'" using act_ok [OF live, of T pid ActionFold 0] t'(2) by auto
    from act_effect_chips [OF inv this] have "keeps_hand t0 t'"
      using chips keeps_hand_trans [OF chips ss] by (auto simp: keeps_hand_def)
    then show ?thesis using True t'(1) Some prog cur by (simp add: sit_out_def Let_def)
  next
    case False
    show ?thesis
    proof (cases "?s = AllIn \<or> ?s = Folded")
      case True
      then have "sit_out T pid t0 = Some ?t" using Some prog cur by (auto simp: sit_out_def Let_def)
      then show ?thesis using live chips ss by (auto simp: keeps_hand_def)
    next
      case ne: False
      then have "sit_out T pid t0 = Some (upd p (set_state SittingOut) ?t)"
        using Some prog cur False by (auto simp: sit_out_def Let_def)
      moreover have "same_seats t0 (upd p (set_state SittingOut) ?t)"
        by (rule same_seats_trans [OF ss]) simp
      ultimately show ?thesis
        using live_pause [OF live, of p SittingOut] ne chips by (auto simp: keeps_hand_def)
    qed
  qed
qed

lemma request_exit_ok:
  assumes "hand_live t0"
  shows "\<exists>res. request_exit T pid t0 = Some res \<and> (\<forall>t'. res = Inr t' \<longrightarrow> keeps_hand t0 t')"
proof (cases "player_by_id t0 pid")
  case None
  then show ?thesis by (simp add: request_exit_def)
next
  case (Some p)
  let ?t = "upd p (\<lambda>p. p\<lparr>p_pending_exit := True\<rparr>) t0"
  let ?u = "upd p (\<lambda>p. p\<lparr>p_ready := False\<rparr>) ?t"
  have live: "hand_live ?t" "table_chips ?t = table_chips t0" "same_seats t0 ?t"
    by (auto intro!: live_flag [OF assms])
  have live': "hand_live ?u" "table_chips ?u = table_chips ?t" "same_seats ?t ?u"
    by (auto intro!: live_flag [OF live(1)])
  obtain r where inv: "hand_inv ?t" "t_round ?t = Some r"
    using live(1) by (auto simp: hand_live_def hand_inv_def)
  obtain cur where cur: "current_player_to_act ?t = Some cur"
    using current_player_eq [OF inv] by blast
  have prog: "hand_in_progress ?u"
    using live'(1) hand_inv_in_progress by (simp add: hand_live_def)
  show ?thesis
  proof (cases "cur = pid")
    case True
    obtain t' where "sit_out T pid ?t = Some t'" "keeps_hand ?t t'"
      using sit_out_ok [OF live(1)] by blast
    then show ?thesis
      using Some cur True keeps_hand_trans [OF live(2,3)] by (simp add: request_exit_def)
  next
    case False
    have keep: "keeps_hand t0 ?u"
      using live(2,3) live' same_seats_trans [OF live(3) live'(3)] by (simp add: keeps_hand_def)
    show ?thesis
    proof (cases "p_state (pl ?u p) \<in> {Active, AllIn, Folded}")
      case True
      then show ?thesis using Some cur False prog keep by (auto simp: request_exit_def Let_def)
    next
      case ne: False
      then have st: "p_state (pl ?u p) \<noteq> AllIn" "p_state (pl ?u p) \<noteq> Folded" by auto
      note pause = live_pause [OF live'(1) st, of SittingOut]
      have "same_seats t0 (upd p (set_state SittingOut) ?u)"
        by (rule same_seats_trans [OF same_seats_trans [OF live(3) live'(3)]]) simp
      then have "keeps_hand t0 (upd p (set_state SittingOut) ?u)"
        using pause live(2) live'(2) by (simp add: keeps_hand_def)
      then show ?thesis using Some cur False prog ne by (auto simp: request_exit_def Let_def)
    qed
  qed
qed

lemma hand_live_owes [simp]: "hand_live (t\<lparr>t_owes_big_blind := x\<rparr>) = hand_live t"
proof -
  have sd: "same_deal t (t\<lparr>t_owes_big_blind := x\<rparr>)" by (simp add: same_deal_def)
  have "hand_inv (t\<lparr>t_owes_big_blind := x\<rparr>) = hand_inv t"
    using deal_ok_same [OF sd]
    by (simp add: hand_inv_def seats_linked_def seat_ids_def round_linked_def entry_link_def
        hand_chips_def rake_sane_def)
  then show ?thesis
    by (simp add: hand_live_def is_awaiting_runout_def count_remaining_def count_actable_def
        cong: option.case_cong)
qed

lemma table_chips_owes [simp]: "table_chips (t\<lparr>t_owes_big_blind := x\<rparr>) = table_chips t"
  by (simp add: table_chips_def seat_stacks_def hand_put_def hand_in_progress_def)

lemma request_return_ok:
  assumes "hand_live t"
  shows "keeps_hand t (request_return pid t)"
proof (cases "player_by_id t pid")
  case None
  then show ?thesis using assms by (simp add: request_return_def keeps_hand_def)
next
  case (Some p)
  then show ?thesis
    using assms live_pause [OF assms, of p Active]
    by (auto simp: request_return_def keeps_hand_def same_seats_def upd_field)
qed

lemma cancel_exit_ok:
  assumes "hand_live t" and "cancel_exit pid t = Inr t'"
  shows "keeps_hand t t'"
proof -
  obtain p where t': "t' = request_return pid (upd p (\<lambda>p. p\<lparr>p_pending_exit := False, p_ready := True\<rparr>) t)"
    using assms(2) by (auto simp: cancel_exit_def split: option.splits if_splits)
  let ?u = "upd p (\<lambda>p. p\<lparr>p_pending_exit := False, p_ready := True\<rparr>) t"
  have live: "hand_live ?u" "table_chips ?u = table_chips t" by (auto intro!: live_flag [OF assms(1)])
  show ?thesis
    unfolding t' by (rule keeps_hand_trans [OF live(2) _ request_return_ok [OF live(1)]]) simp
qed

end
