(* ===== verification/Hand_Ledger.thy ===== *)
theory Hand_Ledger
  imports Hand_Safety
begin

text \<open>
  What a hand promises, on the invariant of \<open>Hand_Safety\<close>: actions are safe, a hand is never stuck and
  always completes, leaving is harmless, and \<open>Act\<close> implements a ledger of stacks, one pot and the house.
\<close>

section \<open>The table as a ledger\<close>

text \<open>
  The abstract machine behind a hand: stacks by player ID, one pot, and the house. A bet moves chips
  from one stack into the pot; a settlement empties the pot into stacks and house.
\<close>

record ledger =
  lg_stack :: "string \<Rightarrow> int"
  lg_pot :: int
  lg_house :: int

definition ledger_of :: "table \<Rightarrow> ledger" where
  "ledger_of t = \<lparr>lg_stack = (\<lambda>pid. case player_by_id t pid of None \<Rightarrow> 0 | Some r \<Rightarrow> p_stack (pl t r)),
     lg_pot = (if hand_in_progress t then hand_put t else 0), lg_house = t_rake_collected t\<rparr>"

definition ledger_bet :: "string \<Rightarrow> ledger \<Rightarrow> ledger \<Rightarrow> bool" where
  "ledger_bet pid l l' \<longleftrightarrow> (\<exists>d. 0 \<le> d \<and> d \<le> lg_stack l pid \<and>
     l' = l\<lparr>lg_stack := (lg_stack l)(pid := lg_stack l pid - d), lg_pot := lg_pot l + d\<rparr>)"

definition ledger_settle :: "ledger \<Rightarrow> ledger \<Rightarrow> bool" where
  "ledger_settle l l' \<longleftrightarrow> (\<exists>pay rake. mnonneg pay \<and> distinct (map fst pay) \<and> 0 \<le> rake \<and>
     msum pay + rake = lg_pot l \<and>
     l' = \<lparr>lg_stack = (\<lambda>pid. lg_stack l pid + amount_of pay pid), lg_pot = 0, lg_house = lg_house l + rake\<rparr>)"

lemma ledger_bet_effect:
  assumes "hand_inv t" and "hand_inv t1" and "bet_effect t pid t1"
  shows "ledger_bet pid (ledger_of t) (ledger_of t1)"
proof -
  obtain p where p: "p \<in> set (t_hand_order t)" "p_id (pl t p) = pid" "\<And>q. q \<noteq> p \<Longrightarrow> pl t1 q = pl t q"
    "p_stack (pl t1 p) + p_contributed (pl t1 p) = p_stack (pl t p) + p_contributed (pl t p)"
    "p_contributed (pl t p) \<le> p_contributed (pl t1 p)" "0 \<le> p_stack (pl t1 p)"
    and eq: "seat_stacks t1 + hand_put t1 = seat_stacks t + hand_put t" "same_seats t t1"
      "t_hand_order t1 = t_hand_order t" "t_rake_collected t1 = t_rake_collected t"
    using assms(3) by (auto simp: bet_effect_def same_deal_def)
  have seats: "distinct (seat_ids t)" "set (t_hand_order t) \<subseteq> set (t_players t)" "distinct (t_hand_order t)"
    using assms(1) by (simp_all add: hand_inv_def seats_linked_def)
  let ?d = "p_stack (pl t p) - p_stack (pl t1 p)"
  have look: "player_by_id t1 i = player_by_id t i" for i by (rule same_seats_by_id [OF eq(2)])
  have at: "player_by_id t pid = Some p"
    using player_by_id_seat [OF seats(1), of p] seats(2) p(1,2) by auto
  have other: "r \<noteq> p" if "player_by_id t i = Some r" "i \<noteq> pid" for i r
    using player_by_id_Some [OF that(1)] that(2) p(2) by auto
  have stack: "lg_stack (ledger_of t1) = (lg_stack (ledger_of t))(pid := p_stack (pl t p) - ?d)"
    using p(3) other by (auto simp: ledger_of_def look at split: option.split)
  have "hand_put t1 = hand_put t + ?d"
  proof -
    have "t_store t1 = (t_store t)(p := pl t1 p)" using p(3) by (intro ext) simp
    then have "hand_put t1 = hand_put (upd p (\<lambda>_. pl t1 p) t)"
      by (simp add: hand_put_def eq(3) upd_def)
    then show ?thesis using hand_put_upd [OF seats(3), of p "\<lambda>_. pl t1 p"] p(1,4) by simp
  qed
  then have pot: "lg_pot (ledger_of t1) = lg_pot (ledger_of t) + ?d"
    using hand_inv_in_progress [OF assms(1)] hand_inv_in_progress [OF assms(2)] by (simp add: ledger_of_def)
  have "lg_stack (ledger_of t) pid = p_stack (pl t p)" by (simp add: ledger_of_def at)
  moreover have "lg_house (ledger_of t1) = lg_house (ledger_of t)" by (simp add: ledger_of_def eq(4))
  ultimately show ?thesis
    unfolding ledger_bet_def using stack pot p(4-6)
    by (intro exI [of _ ?d]) simp
qed

lemma ledger_settle_effect:
  assumes "hand_inv t" and "settled T t t'"
  shows "ledger_settle (ledger_of t) (ledger_of t')"
proof -
  obtain u ps where u: "cards_only t u" "showdown_effect T u t' ps" "pot_ready u"
    using assms(2) by (auto simp: settled_def)
  have scan: "scan_ok T u (hand_put u) ps" using u(2) by (simp add: showdown_effect_def)
  have same: "same_seats t t'" by (rule settled_chips(2) [OF assms(2)])
  have people: "t_players u = t_players t" "t_store u = t_store t" "t_rake_collected u = t_rake_collected t"
    using u(1) by (simp_all add: cards_only_def)
  have stack: "p_stack (pl t' r) = p_stack (pl t r) + amount_of (ps_payouts ps) (p_id (pl t r))"
    if "r \<in> set (t_players t)" for r
    using u(2) that people by (simp add: showdown_effect_def)
  have none: "amount_of (ps_payouts ps) pid = 0" if "player_by_id t pid = None" for pid
  proof -
    have "pid \<notin> set (seat_ids u)"
      using that player_by_id_None [of t pid] cards_only_sums(4) [OF u(1)] by simp
    then have "pid \<notin> fst ` set (ps_payouts ps)" using scan by (auto simp: scan_ok_def)
    then show ?thesis by (simp add: amount_of_def map_of_eq_None_iff [THEN iffD2])
  qed
  have "lg_stack (ledger_of t') pid = lg_stack (ledger_of t) pid + amount_of (ps_payouts ps) pid" for pid
    using player_by_id_Some [of t pid] stack none [of pid]
    by (auto simp: ledger_of_def same_seats_by_id [OF same] split: option.split)
  moreover have "lg_pot (ledger_of t') = 0" "lg_house (ledger_of t') = lg_house (ledger_of t) + ps_rake ps"
    using u(2) people(3) by (simp_all add: ledger_of_def showdown_effect_def hand_in_progress_def)
  moreover have "msum (ps_payouts ps) + ps_rake ps = lg_pot (ledger_of t)"
    using scan hand_inv_in_progress [OF assms(1)] cards_only_sums(2) [OF u(1)]
    by (simp add: ledger_of_def scan_ok_def)
  moreover have "mnonneg (ps_payouts ps)" "distinct (map fst (ps_payouts ps))" "0 \<le> ps_rake ps"
    using scan by (simp_all add: scan_ok_def)
  ultimately show ?thesis
    unfolding ledger_settle_def
    by (intro exI [of _ "ps_payouts ps"] exI [of _ "ps_rake ps"])
      (auto intro!: ledger.equality ext)
qed

lemma ledger_same_people:
  "hand_inv t \<Longrightarrow> hand_inv t' \<Longrightarrow> same_people t t' \<Longrightarrow> ledger_of t' = ledger_of t"
  using hand_inv_in_progress [of t] hand_inv_in_progress [of t']
  by (simp add: ledger_of_def same_people_def player_by_id_def hand_put_def cong: option.case_cong)

section \<open>Properties\<close>

text \<open>A three-handed table before the flop: \<open>a\<close> has the button, \<open>b\<close> and \<open>c\<close> posted the blinds.\<close>

definition preflop_round :: bet_round where
  "preflop_round = \<lparr>rd_players =
        [\<lparr>bp_id = ''a'', bp_stack = 1000, bp_contributed = 0, bp_folded = False, bp_all_in = False, bp_acted = False\<rparr>,
         \<lparr>bp_id = ''b'', bp_stack = 995, bp_contributed = 5, bp_folded = False, bp_all_in = False, bp_acted = False\<rparr>,
         \<lparr>bp_id = ''c'', bp_stack = 990, bp_contributed = 10, bp_folded = False, bp_all_in = False, bp_acted = False\<rparr>],
        rd_current_bet = 10, rd_min_raise = 10, rd_last_actor = ''''\<rparr>"

definition preflop_table :: table where
  "preflop_table = (new_table
     [sample_player ''a'' 1000 0 Active (Card 14 0, Card 13 0),
      sample_player ''b'' 995 5 Active (Card 7 1, Card 2 2),
      sample_player ''c'' 990 10 Active (Card 9 0, Card 9 1)] 5 10)
     \<lparr>t_stage := PreFlop, t_dealer_drawn := True, t_hand_order := [0, 1, 2], t_rake_bps := 250,
      t_currency_mode := ''sandbox'', t_next_card := 6,
      t_shuffle := Some \<lparr>sh_cards = standard_deck, sh_server_seed = [], sh_commit_hash = []\<rparr>,
      t_round := Some preflop_round,
      t_round_idx := (\<lambda>pid. index_of pid [''a'', ''b'', ''c'']),
      t_round_baseline := (\<lambda>_. 0)(''b'' := 5, ''c'' := 10)\<rparr>"

lemma preflop_fields:
  "t_players preflop_table = [0, Suc 0, 2]" "t_hand_order preflop_table = [0, Suc 0, 2]"
  "t_stage preflop_table = PreFlop" "t_dealer_seat preflop_table = 0"
  "t_round preflop_table = Some preflop_round"
  "t_round_idx preflop_table = (\<lambda>pid. index_of pid [''a'', ''b'', ''c''])"
  "t_round_baseline preflop_table = (\<lambda>_. 0)(''b'' := 5, ''c'' := 10)"
  "t_big_blind preflop_table = 10" "t_runout_phase preflop_table = 0" "\<not> t_run_it_twice preflop_table"
  "t_board preflop_table = []" "t_board_two preflop_table = []" "t_next_card preflop_table = 6"
  "t_rake_bps preflop_table = 250" "t_rake_collected preflop_table = 0"
  "deck_len preflop_table = 52" "t_pending_winner_cards preflop_table = []"
  "pl preflop_table 0 = sample_player ''a'' 1000 0 Active (Card 14 0, Card 13 0)"
  "pl preflop_table (Suc 0) = sample_player ''b'' 995 5 Active (Card 7 1, Card 2 2)"
  "pl preflop_table 2 = sample_player ''c'' 990 10 Active (Card 9 0, Card 9 1)"
  by (simp_all add: preflop_table_def new_table_def new_table_with_variant_def upt_rec deck_len_def
      dealt_cards_def)

lemma sample_player_fields [simp]:
  "p_id (sample_player i stack put s cards) = i" "p_stack (sample_player i stack put s cards) = stack"
  "p_contributed (sample_player i stack put s cards) = put" "p_state (sample_player i stack put s cards) = s"
  "p_hole_cards (sample_player i stack put s cards) = cards"
  by (simp_all add: sample_player_def)

lemma preflop_live: "hand_live preflop_table"
proof -
  have seats: "seats_linked preflop_table"
    by (simp add: seats_linked_def seat_ids_def preflop_fields dealt_player_ok_def)
  have deal: "deal_ok preflop_table"
    by (simp add: deal_ok_def Let_def preflop_fields)
  have chips: "hand_chips preflop_table = 3000"
    by (simp add: hand_chips_def preflop_fields)
  have link: "round_linked preflop_table preflop_round"
    by (simp add: round_linked_def preflop_round_def round_wf_def player_wf_def preflop_fields entry_link_def)
  have "\<not> is_complete preflop_round" by (simp add: is_complete_def preflop_round_def)
  moreover have "rake_sane preflop_table 3000"
    by (simp add: preflop_fields rake_sane_def i64_max_def)
  ultimately show ?thesis
    using seats deal chips link
    by (auto simp: hand_live_def hand_inv_def preflop_fields is_betting_stage_def)
qed

lemma preflop_chips: "table_chips preflop_table = 3000"
  by (simp add: table_chips_def seat_stacks_def hand_put_def preflop_fields hand_in_progress_def)

lemma preflop_current: "current_player_to_act preflop_table = Some ''a''"
proof -
  have seats: "scan_seats preflop_table = [0, Suc 0, 2]"
    by (simp add: scan_seats_def dealt_into_current_hand_def preflop_fields)
  have dealer: "dealer_index_within preflop_table [0, Suc 0, 2] = 0"
    by (simp add: dealer_index_within_def preflop_fields Let_def)
  have "scan_start preflop_table [0, Suc 0, 2] = 0"
    by (simp add: scan_start_def blind_seats_def dealer preflop_fields preflop_round_def Let_def)
  then have order: "action_scan_order preflop_table = [''a'', ''b'', ''c'']"
    by (simp add: action_scan_order_rotate seats preflop_fields)
  have "current_player_can_act preflop_table ''a'' = Some True"
  proof -
    have "player_by_id preflop_table ''a'' = Some 0"
      by (simp add: player_by_id_def preflop_fields)
    then show ?thesis by (simp add: current_player_can_act_def preflop_fields preflop_round_def Let_def)
  qed
  then show ?thesis
    by (simp add: current_player_to_act_def order preflop_fields is_betting_stage_def)
qed

text \<open>C2: an action in a live hand is safe. Whatever player, action and amount a command names, \<open>Act\<close>
  returns (no panic); a rejection is an error, and an accepted action keeps every chip on the table
  (stacks, pot and rake), keeps the seats, and leaves a hand that is live again or complete.\<close>

theorem act_safe:
  assumes "hand_live t"
  shows "\<exists>res. act T pid a amount t = Some res \<and>
    (\<forall>t'. res = Inr t' \<longrightarrow> table_chips t' = table_chips t \<and> same_seats t t' \<and>
       (hand_live t' \<or> t_stage t' = Complete))"
proof -
  have inv: "hand_inv t" using assms by (simp add: hand_live_def)
  obtain res where "act T pid a amount t = Some res" "\<forall>t'. res = Inr t' \<longrightarrow> act_effect T t pid t'"
    using act_ok [OF assms, of T pid a amount] by blast
  then show ?thesis using act_effect_chips [OF inv] by blast
qed

lemma act_safe_witness:
  "\<forall>T. \<exists>res. act T ''a'' ActionRaise 30 preflop_table = Some res \<and>
     (\<forall>t'. res = Inr t' \<longrightarrow> table_chips t' = 3000)"
  using act_safe [OF preflop_live] unfolding preflop_chips by metis

text \<open>C8: a live hand is never stuck. Either some seated player is on the clock and at least folding is
  accepted from that player, or the hand awaits a paced street, which can be dealt (or, on the last
  one, settled) without a panic and without moving a chip off the table.\<close>

theorem hand_never_stuck:
  assumes "hand_live t"
  shows "(\<exists>pid t'. current_player_to_act t = Some pid \<and> pid \<in> set (seat_ids t) \<and>
      act T pid ActionFold 0 t = Some (Inr t')) \<or>
    (is_awaiting_runout t \<and> (\<exists>t'. advance_runout_street T t = Some t' \<and>
      table_chips t' = table_chips t \<and> (hand_live t' \<or> t_stage t' = Complete)))"
proof (cases "is_awaiting_runout t")
  case True
  then obtain t' where t': "advance_runout_street T t = Some t'"
    using runout_step_ok [OF assms True, of T] by blast
  then show ?thesis
    using True hand_step_effect [OF assms hand_step.dealt [OF True t']] by blast
next
  case False
  then obtain r where r: "hand_inv t" "t_round t = Some r" "\<not> is_complete r"
    using assms by (auto simp: hand_live_def)
  obtain pid i where pid: "current_player_to_act t = Some pid" "pid \<noteq> ''''" "t_round_idx t pid = Some i"
    using open_round_has_player [OF r] by metis
  have "seats_linked t" "round_linked t r" using r(1,2) by (auto simp: hand_inv_def)
  then obtain p where "player_by_id t pid = Some p"
    using linked_player [of t r "rd_players r ! i"] linked_idx [OF _ pid(3), of r] by (metis nth_mem)
  then have "pid \<in> set (seat_ids t)" using player_by_id_None [of t pid] by auto
  then show ?thesis using fold_accepted [OF assms pid(1,2), of T] pid(1) by blast
qed

lemma hand_never_stuck_witness:
  "\<forall>T. \<exists>pid t'. current_player_to_act preflop_table = Some pid \<and>
     act T pid ActionFold 0 preflop_table = Some (Inr t')"
proof -
  have "\<not> is_awaiting_runout preflop_table" by (simp add: is_awaiting_runout_def preflop_fields)
  then show ?thesis using hand_never_stuck [OF preflop_live] by blast
qed

text \<open>C6: every hand ends. From a live hand no infinite run of steps (actions and paced streets) exists that
  stays live, and some run reaches a complete hand, with the same chips on the table.\<close>

theorem hand_completes:
  assumes "hand_live t"
  shows "(\<nexists>f. f 0 = t \<and> (\<forall>i. hand_live (f i) \<and> t_stage (f (Suc i)) \<noteq> Complete \<and> hand_step T (f i) (f (Suc i)))) \<and>
    (\<exists>t'. (hand_step T)\<^sup>*\<^sup>* t t' \<and> t_stage t' = Complete \<and> table_chips t' = table_chips t)"
proof
  show "\<nexists>f. f 0 = t \<and> (\<forall>i. hand_live (f i) \<and> t_stage (f (Suc i)) \<noteq> Complete \<and> hand_step T (f i) (f (Suc i)))"
  proof
    assume "\<exists>f. f 0 = t \<and> (\<forall>i. hand_live (f i) \<and> t_stage (f (Suc i)) \<noteq> Complete \<and> hand_step T (f i) (f (Suc i)))"
    then obtain f where f: "\<forall>i. hand_live (f i) \<and> t_stage (f (Suc i)) \<noteq> Complete \<and> hand_step T (f i) (f (Suc i))"
      by blast
    have "wf {(t', t). hand_live t \<and> hand_live t' \<and> hand_step T t t' \<and> t_stage t' \<noteq> Complete}"
      using hand_step_wf [of T] by (simp add: wfp_def)
    then show False using f unfolding wf_iff_no_infinite_down_chain by blast
  qed
  show "\<exists>t'. (hand_step T)\<^sup>*\<^sup>* t t' \<and> t_stage t' = Complete \<and> table_chips t' = table_chips t"
    using hand_step_wf [of T] assms
  proof (induction t rule: wfp_induct_rule)
    case (less t)
    obtain u where u: "hand_step T t u" using hand_live_step [OF less.prems] by blast
    note e = hand_step_effect [OF less.prems u]
    show ?case
    proof (cases "t_stage u = Complete")
      case True
      then show ?thesis using u e(1) by blast
    next
      case False
      then have "hand_live u" using e(3) by simp
      then obtain t' where "(hand_step T)\<^sup>*\<^sup>* u t'" "t_stage t' = Complete" "table_chips t' = table_chips u"
        using less.IH [of u] less.prems u False by blast
      then show ?thesis using u e(1) by (metis converse_rtranclp_into_rtranclp)
    qed
  qed
qed

lemma hand_completes_witness:
  "\<forall>T. \<exists>t'. (hand_step T)\<^sup>*\<^sup>* preflop_table t' \<and> t_stage t' = Complete \<and> table_chips t' = 3000"
  using hand_completes [OF preflop_live] by (simp add: preflop_chips)

text \<open>C10: \<open>Act\<close> implements a ledger. Seen as stacks by player, one pot and the house, an accepted action is
  one bet by the acting player, of at least zero and at most the stack, followed by at most one
  settlement, in which non-negative payouts and rake add up to exactly the pot.\<close>

theorem act_refines_ledger:
  assumes "hand_live t" and "act T pid a amount t = Some (Inr t')"
  shows "\<exists>l. ledger_bet pid (ledger_of t) l \<and> (l = ledger_of t' \<or> ledger_settle l (ledger_of t'))"
proof -
  have inv: "hand_inv t" using assms(1) by (simp add: hand_live_def)
  have "act_effect T t pid t'" using act_ok [OF assms(1), of T pid a amount] assms(2) by auto
  then obtain t1 where t1: "bet_effect t pid t1" "hand_inv t1"
    "settled T t1 t' \<or> hand_live t' \<and> same_people t1 t'"
    by (auto simp: act_effect_def)
  have "ledger_of t1 = ledger_of t' \<or> ledger_settle (ledger_of t1) (ledger_of t')"
    using t1(3) ledger_settle_effect [OF t1(2)] ledger_same_people [OF t1(2), of t']
    by (auto simp: hand_live_def)
  then show ?thesis using ledger_bet_effect [OF inv t1(2,1)] by blast
qed

lemma act_refines_ledger_witness:
  "\<forall>T. \<exists>t' l. act T ''a'' ActionFold 0 preflop_table = Some (Inr t') \<and>
     ledger_bet ''a'' (ledger_of preflop_table) l \<and> (l = ledger_of t' \<or> ledger_settle l (ledger_of t'))"
proof
  fix T
  obtain t' where t': "act T ''a'' ActionFold 0 preflop_table = Some (Inr t')"
    using fold_accepted [OF preflop_live preflop_current] by auto
  then show "\<exists>t' l. act T ''a'' ActionFold 0 preflop_table = Some (Inr t') \<and>
     ledger_bet ''a'' (ledger_of preflop_table) l \<and> (l = ledger_of t' \<or> ledger_settle l (ledger_of t'))"
    using act_refines_ledger [OF preflop_live t'] by blast
qed

text \<open>C15: leaving cannot hurt a live hand. Sitting out, asking to leave, taking the request back, or returning
  from a sit-out never panics, moves no chip, and leaves the hand live or complete, whoever asks and
  whether or not it is that player's turn.\<close>

theorem leaving_keeps_hand:
  assumes "hand_live t"
  shows "(\<exists>t'. sit_out T pid t = Some t' \<and> keeps_hand t t') \<and>
    (\<exists>res. request_exit T pid t = Some res \<and> (\<forall>t'. res = Inr t' \<longrightarrow> keeps_hand t t')) \<and>
    (\<forall>t'. cancel_exit pid t = Inr t' \<longrightarrow> keeps_hand t t') \<and> keeps_hand t (request_return pid t)"
  using sit_out_ok [OF assms] request_exit_ok [OF assms] cancel_exit_ok [OF assms] request_return_ok [OF assms]
  by blast

lemma leaving_keeps_hand_witness:
  "\<forall>T. \<exists>t'. sit_out T ''a'' preflop_table = Some t' \<and> table_chips t' = 3000"
  using leaving_keeps_hand [OF preflop_live] by (metis keeps_hand_def preflop_chips)

end
