(* ===== verification/Hand_Start.thy ===== *)
theory Hand_Start
  imports Hand_Ledger
begin

text \<open>
  Starting a hand: from a table between hands, \<open>StartHand\<close> moves no chip but the blinds and establishes
  the invariant of a live hand, except when the blinds put every dealt player all-in: such a hand is
  stuck before the flop.
\<close>

section \<open>Posting and dealing\<close>

text \<open>Everything but the players, the betting round, the stage and the position in the deck.\<close>

definition hand_frame :: "table \<Rightarrow> table \<Rightarrow> bool" where
  "hand_frame u t \<longleftrightarrow> t_players t = t_players u \<and> t_hand_order t = t_hand_order u \<and>
     t_board t = t_board u \<and> t_board_two t = t_board_two u \<and> t_board_split_at t = t_board_split_at u \<and>
     t_run_it_twice t = t_run_it_twice u \<and> t_runout_phase t = t_runout_phase u \<and>
     t_shuffle t = t_shuffle u \<and> t_short_shuffle t = t_short_shuffle u \<and> t_variant t = t_variant u \<and>
     t_big_blind t = t_big_blind u \<and> t_small_blind t = t_small_blind u \<and>
     t_dealer_seat t = t_dealer_seat u \<and> t_rake_bps t = t_rake_bps u \<and>
     t_rake_collected t = t_rake_collected u"

text \<open>A dealt player before and after posting; a player with no chips left is all-in.\<close>

definition fresh :: "player \<Rightarrow> bool" where
  "fresh p \<longleftrightarrow> p_state p = Active \<and> 0 < p_stack p \<and> p_contributed p = 0"

definition posted :: "int \<Rightarrow> player \<Rightarrow> bool" where
  "posted bb p \<longleftrightarrow> (p_state p = Active \<and> 0 < p_stack p \<or> p_state p = AllIn \<and> p_stack p = 0) \<and>
     0 \<le> p_contributed p \<and> p_contributed p \<le> bb"

lemma fresh_posted: "fresh p \<Longrightarrow> 0 \<le> bb \<Longrightarrow> posted bb p"
  by (simp add: fresh_def posted_def)

definition post_ready :: "table \<Rightarrow> bool" where
  "post_ready u \<longleftrightarrow> distinct (seat_ids u) \<and> '''' \<notin> set (seat_ids u) \<and> distinct (t_hand_order u) \<and>
     set (t_hand_order u) \<subseteq> set (t_players u) \<and> 2 \<le> length (t_hand_order u) \<and>
     (\<forall>r\<in>set (t_hand_order u). fresh (pl u r)) \<and> 0 < t_small_blind u \<and> t_small_blind u \<le> t_big_blind u \<and>
     t_next_card u = 0 \<and> t_board u = [] \<and> t_board_two u = [] \<and> t_runout_phase u = 0 \<and>
     \<not> t_run_it_twice u \<and> 2 * length (t_hand_order u) + 16 \<le> deck_len u \<and> rake_sane u (hand_chips u)"

text \<open>Midway: the seats in \<open>ds\<close> may have posted, the others are fresh.\<close>

definition posting :: "table \<Rightarrow> pref set \<Rightarrow> table \<Rightarrow> bool" where
  "posting u ds t \<longleftrightarrow> hand_frame u t \<and> (\<forall>r. p_id (pl t r) = p_id (pl u r)) \<and>
     (\<forall>r\<in>set (t_hand_order u). posted (t_big_blind u) (pl t r) \<and> (r \<notin> ds \<longrightarrow> fresh (pl t r)) \<and>
        p_stack (pl t r) + p_contributed (pl t r) = p_stack (pl u r)) \<and>
     seat_stacks t + hand_put t = seat_stacks u"

lemma posting_start: "post_ready u \<Longrightarrow> posting u {} u"
proof -
  assume ready: "post_ready u"
  then have "map (\<lambda>r. p_contributed (pl u r)) (t_hand_order u) = map (\<lambda>_. 0) (t_hand_order u)"
    by (simp add: post_ready_def fresh_def)
  then have "hand_put u = sum_list (map (\<lambda>_. 0) (t_hand_order u))" unfolding hand_put_def by (simp only:)
  then have "hand_put u = 0" by (simp add: sum_list_triv)
  then show ?thesis
    using ready by (auto simp: posting_def post_ready_def hand_frame_def fresh_def posted_def)
qed

lemma posting_mono: "posting u ds t \<Longrightarrow> ds \<subseteq> ds' \<Longrightarrow> posting u ds' t"
  by (auto simp: posting_def)

lemma post_blind_fields:
  "p_id (pl (post_blind r a t) q) = p_id (pl t q)"
  "q \<noteq> r \<Longrightarrow> pl (post_blind r a t) q = pl t q"
  "hand_frame t (post_blind r a t)" "t_next_card (post_blind r a t) = t_next_card t"
  by (auto simp: post_blind_def Let_def hand_frame_def pl_upd)

lemma post_blind_player:
  "p_stack (pl (post_blind r a t) r) = p_stack (pl t r) - min a (p_stack (pl t r))"
  "p_contributed (pl (post_blind r a t) r) = p_contributed (pl t r) + min a (p_stack (pl t r))"
  "p_state (pl (post_blind r a t) r) = (if a \<ge> p_stack (pl t r) then AllIn else p_state (pl t r))"
  by (auto simp: post_blind_def Let_def)

lemma posting_distinct:
  assumes "post_ready u" and "posting u ds t"
  shows "distinct (t_players t)" "distinct (t_hand_order t)" "set (t_hand_order t) \<subseteq> set (t_players t)"
  using assms distinct_players [of u] by (auto simp: post_ready_def posting_def hand_frame_def)

lemma chips_move:
  assumes "distinct (t_players t)" "distinct (t_hand_order t)" "r \<in> set (t_players t)" "r \<in> set (t_hand_order t)"
    and "\<And>q. q \<noteq> r \<Longrightarrow> pl t' q = pl t q" and "t_players t' = t_players t" "t_hand_order t' = t_hand_order t"
    and "p_stack (pl t' r) + p_contributed (pl t' r) = p_stack (pl t r) + p_contributed (pl t r)"
  shows "seat_stacks t' + hand_put t' = seat_stacks t + hand_put t"
proof -
  have "t_store t' = t_store (upd r (\<lambda>_. pl t' r) t)" using assms(5) by (auto simp: upd_def)
  then have "seat_stacks t' = seat_stacks (upd r (\<lambda>_. pl t' r) t)"
    "hand_put t' = hand_put (upd r (\<lambda>_. pl t' r) t)"
    by (simp_all add: seat_stacks_def hand_put_def assms(6,7))
  then show ?thesis
    using seat_stacks_upd [OF assms(1), of r "\<lambda>_. pl t' r"] hand_put_upd [OF assms(2), of r "\<lambda>_. pl t' r"] assms
    by simp
qed

lemma posting_blind:
  assumes ready: "post_ready u" and p: "posting u ds t" and r: "r \<in> set (t_hand_order u)" "r \<notin> ds"
    and a: "0 < a" "a \<le> t_big_blind u"
  shows "posting u (insert r ds) (post_blind r a t)"
proof -
  let ?t = "post_blind r a t"
  have f: "fresh (pl t r)" using p r by (simp add: posting_def)
  have fr: "hand_frame u ?t"
    using p post_blind_fields(3) [of t r a] by (simp add: posting_def hand_frame_def)
  have "seat_stacks ?t + hand_put ?t = seat_stacks t + hand_put t"
    by (rule chips_move [OF posting_distinct(1,2) [OF ready p]])
      (use posting_distinct(3) [OF ready p] r p fr post_blind_fields(2) in
        \<open>auto simp: posting_def hand_frame_def post_blind_player\<close>)
  moreover have "posted (t_big_blind u) (pl ?t q) \<and> (q \<notin> insert r ds \<longrightarrow> fresh (pl ?t q)) \<and>
      p_stack (pl ?t q) + p_contributed (pl ?t q) = p_stack (pl u q)" if "q \<in> set (t_hand_order u)" for q
  proof (cases "q = r")
    case True
    have "p_stack (pl t r) + p_contributed (pl t r) = p_stack (pl u r)" using p r by (simp add: posting_def)
    moreover have "posted (t_big_blind u) (pl ?t r)"
      using f a by (auto simp: posted_def fresh_def post_blind_player)
    ultimately show ?thesis using True by (simp add: post_blind_player)
  next
    case False
    then show ?thesis using p that post_blind_fields(2) [OF False, of a t] by (simp add: posting_def)
  qed
  ultimately show ?thesis
    using p fr by (simp add: posting_def post_blind_fields(1))
qed

lemma set_hole_fields [simp]:
  "p_id (set_hole pass c p) = p_id p" "p_stack (set_hole pass c p) = p_stack p"
  "p_contributed (set_hole pass c p) = p_contributed p" "p_state (set_hole pass c p) = p_state p"
  by (simp_all add: set_hole_def)

lemma posting_deck: "posting u ds t \<Longrightarrow> deck_len t = deck_len u"
  by (simp add: posting_def hand_frame_def deck_len_def dealt_cards_def)

lemma posting_deal:
  assumes "posting u ds t" and "t_next_card t < deck_len u"
  shows "\<exists>t'. deal_hole e t = Some t' \<and> posting u ds t' \<and> t_next_card t' = Suc (t_next_card t) \<and>
    (\<forall>q. p_contributed (pl t' q) = p_contributed (pl t q))"
proof -
  obtain pass r where e: "e = (pass, r)" by (cases e)
  have d: "deck_len t = deck_len u" by (rule posting_deck [OF assms(1)])
  obtain c where c: "deal_card t = Some (c, t\<lparr>t_next_card := Suc (t_next_card t)\<rparr>)"
    using deal_card_ok [of t] assms(2) d by auto
  let ?t = "upd r (set_hole pass c) (t\<lparr>t_next_card := Suc (t_next_card t)\<rparr>)"
  have fields: "p_id (pl ?t q) = p_id (pl t q)" "p_stack (pl ?t q) = p_stack (pl t q)"
    "p_contributed (pl ?t q) = p_contributed (pl t q)" "p_state (pl ?t q) = p_state (pl t q)" for q
    by (simp_all add: pl_upd)
  have "seat_stacks ?t = seat_stacks t" "hand_put ?t = hand_put t"
    by (simp_all add: seat_stacks_def hand_put_def fields)
  then have "posting u ds ?t"
    using assms(1) by (simp add: posting_def hand_frame_def fields posted_def fresh_def)
  then show ?thesis using c fields(3) by (simp add: e deal_hole_def)
qed

lemma posting_deals:
  assumes "posting u ds t" and "t_next_card t + length es \<le> deck_len u"
  shows "\<exists>t'. foldM deal_hole es t = Some t' \<and> posting u ds t' \<and> t_next_card t' = t_next_card t + length es \<and>
    (\<forall>q. p_contributed (pl t' q) = p_contributed (pl t q))"
  using assms
proof (induction es arbitrary: t)
  case (Cons e es)
  obtain t1 where t1: "deal_hole e t = Some t1" "posting u ds t1" "t_next_card t1 = Suc (t_next_card t)"
    "\<And>q. p_contributed (pl t1 q) = p_contributed (pl t q)"
    using posting_deal [OF Cons.prems(1), of e] Cons.prems(2) by auto
  with Cons.IH [of t1] Cons.prems(2) show ?case by auto
qed simp

lemma length_deal_order: "length (deal_order d active) = 2 * length active"
  by (simp add: deal_order_def del: upt_Suc)

text \<open>The blinds of players entering out of position; the two blind seats have posted already.\<close>

lemma posting_entrants:
  assumes ready: "post_ready u" and "posting u ds t" and "sb \<in> ds" "bb \<in> ds"
    and "distinct rs" "set rs \<subseteq> set (t_hand_order u)" "\<forall>r\<in>set rs. r \<in> ds \<longrightarrow> r = sb \<or> r = bb"
  shows "posting u (ds \<union> set rs) (fold (post_entrant entrants sb bb) rs t) \<and>
    t_next_card (fold (post_entrant entrants sb bb) rs t) = t_next_card t \<and>
    pl (fold (post_entrant entrants sb bb) rs t) sb = pl t sb \<and> pl (fold (post_entrant entrants sb bb) rs t) bb = pl t bb"
  using assms(2-)
proof (induction rs arbitrary: t ds)
  case (Cons r rs)
  let ?t = "post_entrant entrants sb bb r t"
  have big: "t_big_blind t = t_big_blind u" "0 < t_big_blind u"
    using Cons.prems(1) ready by (simp_all add: posting_def hand_frame_def post_ready_def)
  have "posting u (insert r ds) ?t" "t_next_card ?t = t_next_card t" "pl ?t sb = pl t sb" "pl ?t bb = pl t bb"
    using posting_blind [OF ready Cons.prems(1), of r "t_big_blind u"] posting_mono [OF Cons.prems(1), of "insert r ds"]
      Cons.prems big by (auto simp: post_entrant_def post_blind_fields(2,4))
  moreover have "\<forall>q\<in>set rs. q \<in> insert r ds \<longrightarrow> q = sb \<or> q = bb" using Cons.prems(4,6) by auto
  ultimately show ?case using Cons.IH [of "insert r ds" ?t] Cons.prems by simp
qed simp

section \<open>The first betting round\<close>

text \<open>The entries of a new round; nobody has folded or acted.\<close>

definition opening_round :: "table \<Rightarrow> bet_round \<Rightarrow> bool" where
  "opening_round t r \<longleftrightarrow> t_round t = Some r \<and> round_linked t r \<and> rd_current_bet r = t_big_blind t \<and>
     (\<forall>e\<in>set (rd_players r). \<not> bp_folded e \<and> \<not> bp_acted e) \<and>
     map bp_id (rd_players r) = map (\<lambda>p. p_id (pl t p)) (t_hand_order t)"

definition same_but_round :: "table \<Rightarrow> table \<Rightarrow> bool" where
  "same_but_round t t' \<longleftrightarrow> t_store t' = t_store t \<and> hand_frame t t' \<and> t_next_card t' = t_next_card t"

lemma seed_ok:
  assumes o: "opening_round t r" and a: "0 \<le> amount" "amount \<le> t_big_blind t"
  shows "\<exists>t' r'. seed_round_contribution pid amount t = Some t' \<and> opening_round t' r' \<and> same_but_round t t'"
proof (cases "t_round_idx t pid")
  case None
  then show ?thesis using o by (auto simp: seed_round_contribution_def same_but_round_def hand_frame_def)
next
  case (Some i)
  let ?e = "(rd_players r ! i)\<lparr>bp_contributed := amount\<rparr>"
  let ?r = "r\<lparr>rd_players := (rd_players r)[i := ?e]\<rparr>"
  let ?t = "t\<lparr>t_round := Some ?r, t_round_baseline := (t_round_baseline t)(pid := amount)\<rparr>"
  have link: "round_linked t r" and r: "t_round t = Some r" using o by (simp_all add: opening_round_def)
  have i: "i < length (rd_players r)" "bp_id (rd_players r ! i) = pid"
    using Some link index_of_Some [of pid "map bp_id (rd_players r)" i] by (auto simp: round_linked_def)
  have ids: "map bp_id (rd_players ?r) = map bp_id (rd_players r)"
    using i by (simp add: map_update list_update_same_conv)
  have wf: "round_wf ?r"
    using link i(1) a o set_update_subset_insert [of "rd_players r" i ?e]
    by (auto simp: round_linked_def round_wf_def player_wf_def opening_round_def dest!: subsetD)
  have entry: "\<exists>p\<in>set (t_hand_order ?t). entry_link ?t (rd_players ?r ! j) p" if j: "j < length (rd_players r)" for j
  proof -
    obtain p where p: "p \<in> set (t_hand_order t)" "entry_link t (rd_players r ! j) p"
      using linked_entry [OF link j] by blast
    have "bp_id (rd_players r ! j) \<noteq> pid" if "j \<noteq> i"
      using link i j that nth_eq_iff_index_eq [of "map bp_id (rd_players r)" j i]
      by (auto simp: round_linked_def)
    then have "entry_link ?t (rd_players ?r ! j) p"
      using p(2) i by (cases "j = i") (auto simp: entry_link_def)
    then show ?thesis using p(1) by auto
  qed
  have "round_linked ?t ?r"
    using link wf entry unfolding round_linked_def ids by (auto simp: in_set_conv_nth)
  then have "opening_round ?t ?r"
    using o i(1) ids set_update_subset_insert [of "rd_players r" i ?e]
    by (auto simp: opening_round_def dest!: subsetD)
  moreover have "seed_round_contribution pid amount t = Some ?t"
    using i(1) by (simp add: seed_round_contribution_def Some r Let_def)
  moreover have "same_but_round t ?t" by (simp add: same_but_round_def hand_frame_def)
  ultimately show ?thesis by blast
qed

lemma same_but_round_trans: "same_but_round t u \<Longrightarrow> same_but_round u v \<Longrightarrow> same_but_round t v"
  by (simp add: same_but_round_def hand_frame_def)

lemma seed_entrants_ok:
  assumes "opening_round t r" and "same_but_round t0 t"
    and "\<forall>p\<in>set rs. 0 \<le> p_contributed (pl t0 p) \<and> p_contributed (pl t0 p) \<le> t_big_blind t0"
  shows "\<exists>t' r'. foldM (seed_entrant entrants) rs t = Some t' \<and> opening_round t' r' \<and> same_but_round t0 t'"
  using assms
proof (induction rs arbitrary: t r)
  case (Cons p rs)
  have same: "t_big_blind t = t_big_blind t0" "pl t p = pl t0 p" "same_but_round t t"
    using Cons.prems(2) by (simp_all add: same_but_round_def hand_frame_def)
  have "\<exists>t1 r1. seed_entrant entrants p t = Some t1 \<and> opening_round t1 r1 \<and> same_but_round t t1"
    using seed_ok [OF Cons.prems(1), of "p_contributed (pl t p)" "p_id (pl t p)"] Cons.prems(1,3) same
    by (cases "p_id (pl t p) \<in> entrants") (auto simp: seed_entrant_def)
  then obtain t1 r1 where t1: "seed_entrant entrants p t = Some t1" "opening_round t1 r1" "same_but_round t t1"
    by blast
  then show ?case using Cons.IH [of t1 r1] same_but_round_trans [OF Cons.prems(2) t1(3)] Cons.prems(3) by auto
qed auto

lemma dealer_index_less:
  assumes "rs \<noteq> []"
  shows "dealer_index_within t rs < length rs"
proof -
  have "i < length rs" if "index_of x rs = Some i" for x i using index_of_Some [OF that] by simp
  moreover have "\<exists>i. index_of x rs = Some i" if "x \<in> set rs" for x by (rule index_of_mem [OF that])
  ultimately show ?thesis
    using assms by (force simp: dealer_index_within_def Let_def split: option.split dest!: find_Some_mem)
qed

lemma blind_seats_ok:
  assumes "2 \<le> length rs" and "blind_seats t rs = (sb, bb)"
  shows "sb < length rs" and "bb < length rs" and "sb \<noteq> bb"
proof -
  let ?d = "dealer_index_within t rs" and ?n = "length rs"
  have "rs \<noteq> []" using assms(1) by auto
  then have d: "?d < ?n" by (rule dealer_index_less)
  have step: "(?d + 1) mod ?n \<noteq> (?d + 2) mod ?n" "(?d + 1) mod ?n \<noteq> ?d"
    using d assms(1) by (auto simp: mod_Suc)
  have "x mod ?n < ?n" for x using d by (intro mod_less_divisor) linarith
  then show "sb < ?n" "bb < ?n" "sb \<noteq> bb"
    using assms d step by (auto simp: blind_seats_def Let_def split: if_splits)
qed

lemma round_linked_stage: "round_linked (t\<lparr>t_stage := s\<rparr>) r = round_linked t r"
  by (simp add: round_linked_def entry_link_def)

lemma posted_round:
  assumes ready: "post_ready u" and p: "posting u ds t"
  defines "b \<equiv> t_big_blind u"
  shows "opening_round (start_betting_round (t_hand_order u) b b t)
    (new_round (map (\<lambda>r. round_entry (pl t r)) (t_hand_order u)) b b)"
proof -
  have order: "t_hand_order t = t_hand_order u" "t_players t = t_players u" "t_big_blind t = b"
    using p by (simp_all add: posting_def hand_frame_def b_def)
  have ids: "seat_ids t = seat_ids u" using p by (simp add: posting_def seat_ids_def hand_frame_def)
  have each: "posted b (pl t r)" if "r \<in> set (t_hand_order u)" for r
    using p that by (simp add: posting_def b_def)
  have "dealt_player_ok (pl t r)" if "r \<in> set (t_hand_order u)" for r
    using each [OF that] by (auto simp: posted_def dealt_player_ok_def)
  then have seats: "seats_linked t" using ready ids order by (simp add: seats_linked_def post_ready_def)
  have b: "0 < b" using ready by (simp add: post_ready_def b_def)
  have live: "p_state (pl t r) \<noteq> Folded" "p_state (pl t r) \<noteq> AllIn \<longrightarrow> 0 < p_stack (pl t r)"
    if "r \<in> set (t_hand_order u)" for r
    using each [OF that] by (auto simp: posted_def)
  have "round_linked (start_betting_round (t_hand_order u) b b t)
      (new_round (map (\<lambda>r. round_entry (pl t r)) (t_hand_order u)) b b)"
    "t_round (start_betting_round (t_hand_order u) b b t) =
      Some (new_round (map (\<lambda>r. round_entry (pl t r)) (t_hand_order u)) b b)"
    by (rule new_round_linked [OF seats b]; use ready live b order in \<open>auto simp: post_ready_def\<close>)+
  then show ?thesis
    using order by (auto simp: opening_round_def new_round_def round_entry_def)
qed

lemma opening_complete:
  assumes o: "opening_round t r" and seats: "seats_linked t" and n: "2 \<le> length (t_hand_order t)"
  shows "is_complete r \<longleftrightarrow> (\<forall>p\<in>set (t_hand_order t). p_state (pl t p) = AllIn)"
proof -
  have len: "length (rd_players r) = length (t_hand_order t)"
    using o map_eq_imp_length_eq by (fastforce simp: opening_round_def)
  have "filter (\<lambda>p. \<not> bp_folded p) (rd_players r) = rd_players r"
    using o by (simp add: opening_round_def)
  then have "is_complete r \<longleftrightarrow> (\<forall>e\<in>set (rd_players r). bp_all_in e)"
    using o n len by (auto simp: is_complete_def Let_def opening_round_def)
  also have "\<dots> \<longleftrightarrow> (\<forall>p\<in>set (t_hand_order t). p_state (pl t p) = AllIn)"
  proof -
    have link: "round_linked t r" using o by (simp add: opening_round_def)
    have entry: "\<exists>p\<in>set (t_hand_order t). bp_all_in e = (p_state (pl t p) = AllIn)" if e: "e \<in> set (rd_players r)" for e
    proof -
      obtain p where "p \<in> set (t_hand_order t)" "entry_link t e p"
        using link e by (auto simp: round_linked_def)
      then show ?thesis unfolding entry_link_def by blast
    qed
    have seat:  "\<exists>e\<in>set (rd_players r). bp_all_in e = (p_state (pl t p) = AllIn)"
      if p: "p \<in> set (t_hand_order t)" for p
    proof -
      have "p_id (pl t p) \<in> set (map bp_id (rd_players r))" using o p by (simp add: opening_round_def)
      then obtain e where e: "e \<in> set (rd_players r)" "bp_id e = p_id (pl t p)" by auto
      obtain q where q: "entry_link t e q" "player_by_id t (bp_id e) = Some q"
        using linked_player [OF seats link e(1)] by blast
      have "player_by_id t (p_id (pl t p)) = Some p"
        by (rule player_by_id_seat) (use seats p in \<open>auto simp: seats_linked_def\<close>)
      then have "q = p" using q(2) e(2) by simp
      then have "bp_all_in e = (p_state (pl t p) = AllIn)" using q(1) unfolding entry_link_def by blast
      then show ?thesis using e(1) by blast
    qed
    show ?thesis using entry seat by blast
  qed
  finally show ?thesis .
qed

text \<open>What a start hands over: the invariant, before the flop, with every chip in place.\<close>

definition started :: "table \<Rightarrow> table \<Rightarrow> bool" where
  "started u t \<longleftrightarrow> hand_inv t \<and> t_stage t = PreFlop \<and> t_runout_phase t = 0 \<and>
     t_hand_order t = t_hand_order u \<and> same_seats u t \<and> t_rake_collected t = t_rake_collected u \<and>
     seat_stacks t + hand_put t = seat_stacks u \<and>
     (\<exists>r. t_round t = Some r \<and> (is_complete r \<longleftrightarrow> (\<forall>p\<in>set (t_hand_order t). p_state (pl t p) = AllIn)))"

definition blinds_paid :: "table \<Rightarrow> table \<Rightarrow> bool" where
  "blinds_paid u t \<longleftrightarrow> (let (sb, bb) = blind_seats u (t_hand_order u) in
     \<forall>i\<in>{sb, bb}. let r = t_hand_order u ! i in min (t_small_blind u) (p_stack (pl u r)) \<le> p_contributed (pl t r)) \<and>
     (\<forall>r\<in>set (t_hand_order u). posted (t_big_blind u) (pl t r) \<and>
        p_stack (pl t r) + p_contributed (pl t r) = p_stack (pl u r))"

lemma post_and_deal_ok:
  assumes ready: "post_ready u"
  shows "\<exists>t'. post_and_deal (t_hand_order u) entrants u = Some t' \<and> started u t' \<and> blinds_paid u t'"
proof -
  let ?rs = "t_hand_order u" and ?b = "t_big_blind u"
  obtain sb bb where blinds: "blind_seats u ?rs = (sb, bb)" by (cases "blind_seats u ?rs")
  have n: "2 \<le> length ?rs" "distinct ?rs" and b: "0 < t_small_blind u" "t_small_blind u \<le> ?b" "0 < ?b"
    using ready by (auto simp: post_ready_def)
  note at = blind_seats_ok [OF n(1) blinds]
  let ?s = "?rs ! sb" and ?l = "?rs ! bb"
  have sl: "?s \<in> set ?rs" "?l \<in> set ?rs" "?s \<noteq> ?l" using at n(2) nth_eq_iff_index_eq [OF n(2)] by auto
  define t1 where "t1 = post_blind ?s (t_small_blind u) u"
  have p1: "posting u {?s} t1"
    unfolding t1_def using posting_blind [OF ready posting_start [OF ready] sl(1) _ b(1,2)] by simp
  define t2 where "t2 = post_blind ?l ?b t1"
  have p2: "posting u {?l, ?s} t2"
    unfolding t2_def using posting_blind [OF ready p1 sl(2) _ b(3)] sl(3) by auto
  have next2: "t_next_card t2 = 0"
    using ready by (simp add: t2_def t1_def post_blind_fields(4) post_ready_def)
  define d where "d = dealer_index_within t2 ?rs"
  obtain t3 where t3: "foldM deal_hole (deal_order d ?rs) t2 = Some t3" "posting u {?l, ?s} t3"
    "t_next_card t3 = 2 * length ?rs" "\<And>q. p_contributed (pl t3 q) = p_contributed (pl t2 q)"
    using posting_deals [OF p2, of "deal_order d ?rs"] next2 ready by (auto simp: length_deal_order post_ready_def)
  define t4 where "t4 = fold (post_entrant entrants ?s ?l) ?rs t3"
  have p4: "posting u ({?l, ?s} \<union> set ?rs) t4" "t_next_card t4 = 2 * length ?rs"
    "pl t4 ?s = pl t3 ?s" "pl t4 ?l = pl t3 ?l"
    using posting_entrants [OF ready t3(2), of ?s ?l ?rs entrants] n(2) t3(3) by (auto simp: t4_def)
  have frame4: "t_hand_order t4 = ?rs" "t_big_blind t4 = ?b" "t_big_blind t1 = ?b"
    using p4(1) p1 by (simp_all add: posting_def hand_frame_def)
  define t5 where "t5 = start_betting_round ?rs ?b ?b t4"
  have o5: "opening_round t5 (new_round (map (\<lambda>r. round_entry (pl t4 r)) ?rs) ?b ?b)"
    unfolding t5_def by (rule posted_round [OF ready p4(1)])
  have same5: "t_store t5 = t_store t4" "t_next_card t5 = t_next_card t4" "hand_frame t4 t5"
    by (simp_all add: t5_def start_betting_round_def Let_def hand_frame_def)
  have put: "0 \<le> p_contributed (pl t5 r) \<and> p_contributed (pl t5 r) \<le> t_big_blind t5" if "r \<in> set ?rs" for r
    using p4(1) that same5 by (auto simp: posting_def posted_def hand_frame_def)
  obtain t6 r6 where t6: "seed_round_contribution (p_id (pl t5 ?s)) (p_contributed (pl t5 ?s)) t5 = Some t6"
    "opening_round t6 r6" "same_but_round t5 t6"
    using seed_ok [OF o5, of "p_contributed (pl t5 ?s)" "p_id (pl t5 ?s)"] put [OF sl(1)] by blast
  have eq6: "t_store t6 = t_store t5" "t_big_blind t6 = t_big_blind t5"
    using t6(3) by (simp_all add: same_but_round_def hand_frame_def)
  obtain t7 r7 where t7: "seed_round_contribution (p_id (pl t6 ?l)) (p_contributed (pl t6 ?l)) t6 = Some t7"
    "opening_round t7 r7" "same_but_round t6 t7"
    using seed_ok [OF t6(2), of "p_contributed (pl t6 ?l)" "p_id (pl t6 ?l)"] put [OF sl(2)] eq6 by auto
  obtain t8 r8 where t8: "foldM (seed_entrant entrants) ?rs t7 = Some t8" "opening_round t8 r8"
    "same_but_round t5 t8"
    using seed_entrants_ok [OF t7(2) same_but_round_trans [OF t6(3) t7(3)], of ?rs entrants] put by blast
  let ?t = "t8\<lparr>t_stage := PreFlop\<rparr>"
  have run: "post_and_deal ?rs entrants u = Some ?t"
    using blinds t3(1) t6(1) [unfolded same5(1)] t7(1) t8(1) frame4
    by (simp add: post_and_deal_def Let_def flip: t1_def) (simp add: flip: t2_def d_def t4_def t5_def)
  have store: "t_store t8 = t_store t4" "hand_frame u t8" "t_next_card t8 = 2 * length ?rs"
    using t8(3) same5 p4 by (simp_all add: same_but_round_def hand_frame_def posting_def)
  have each: "posted ?b (pl t4 r)" "p_stack (pl t4 r) + p_contributed (pl t4 r) = p_stack (pl u r)"
    if "r \<in> set ?rs" for r using p4(1) that by (simp_all add: posting_def)
  have ok: "dealt_player_ok (pl t4 r)" if "r \<in> set ?rs" for r
    using each(1) [OF that] by (auto simp: posted_def dealt_player_ok_def)
  have ids: "p_id (pl t4 r) = p_id (pl u r)" for r using p4(1) by (simp add: posting_def)
  have seats: "seats_linked t8" "seats_linked ?t"
    using ready store(1,2) ok ids by (simp_all add: seats_linked_def post_ready_def hand_frame_def seat_ids_def)
  have link: "round_linked ?t r8" "t_round ?t = Some r8"
    using t8(2) by (simp_all add: opening_round_def round_linked_stage)
  have chips: "hand_chips ?t = hand_chips u"
  proof -
    have "p_contributed (pl u r) = 0" if "r \<in> set ?rs" for r
      using ready that by (simp add: post_ready_def fresh_def)
    then show ?thesis
      using store(1,2) each(2) unfolding hand_chips_def
      by (intro arg_cong [of _ _ sum_list] map_cong) (auto simp: hand_frame_def)
  qed
  have "deal_ok ?t"
  proof -
    have "deck_len ?t = deck_len u" using store(2) by (simp add: hand_frame_def deck_len_def dealt_cards_def)
    then show ?thesis using ready store(2,3) by (simp add: deal_ok_def Let_def post_ready_def hand_frame_def)
  qed
  moreover have "rake_sane ?t (hand_chips ?t)" "0 < t_big_blind ?t"
    using ready chips store(2) by (simp_all add: rake_sane_def post_ready_def hand_frame_def)
  ultimately have inv: "hand_inv ?t"
    using seats(2) link by (auto simp: hand_inv_def is_betting_stage_def)
  have "t_players t4 = t_players t8" "t_hand_order t4 = t_hand_order t8"
    using p4(1) store(2) by (simp_all add: posting_def hand_frame_def)
  then have "seat_stacks ?t = seat_stacks t4" "hand_put ?t = hand_put t4"
    using store(1) by (simp_all add: seat_stacks_def hand_put_def)
  then have "seat_stacks ?t + hand_put ?t = seat_stacks u"
    using p4(1) by (simp add: posting_def)
  moreover have "same_seats u ?t" using store ids by (simp add: same_seats_def hand_frame_def)
  moreover have "is_complete r8 \<longleftrightarrow> (\<forall>p\<in>set (t_hand_order ?t). p_state (pl ?t p) = AllIn)"
    using opening_complete [OF t8(2) seats(1)] n(1) store(2) by (simp add: hand_frame_def)
  moreover have "t_runout_phase ?t = 0" using store(2) ready by (simp add: hand_frame_def post_ready_def)
  ultimately have "started u ?t"
    using inv store(2) link(2) by (simp add: started_def hand_frame_def)
  moreover have "blinds_paid u ?t"
  proof -
    have zero: "p_contributed (pl u ?s) = 0" "p_contributed (pl u ?l) = 0" "0 < p_stack (pl u ?s)"
      "0 < p_stack (pl u ?l)"
      using ready sl by (auto simp: post_ready_def fresh_def)
    have "pl t2 ?s = pl t1 ?s" "pl t1 ?l = pl u ?l"
      using sl(3) by (simp_all add: t1_def t2_def post_blind_fields(2))
    then have "p_contributed (pl t2 ?s) = min (t_small_blind u) (p_stack (pl u ?s))"
      "p_contributed (pl t2 ?l) = min ?b (p_stack (pl u ?l))"
      using zero by (simp_all add: t1_def t2_def post_blind_player)
    moreover have "p_contributed (pl ?t ?s) = p_contributed (pl t2 ?s)" "p_contributed (pl ?t ?l) = p_contributed (pl t2 ?l)"
      using store(1) p4(3,4) t3(4) by simp_all
    moreover have "posted ?b (pl ?t r) \<and> p_stack (pl ?t r) + p_contributed (pl ?t r) = p_stack (pl u r)"
      if "r \<in> set ?rs" for r using each [OF that] store(1) by simp
    ultimately show ?thesis using b zero by (simp add: blinds_paid_def blinds)
  qed
  ultimately show ?thesis using run by blast
qed

section \<open>Choosing the players\<close>

text \<open>A pass over the seats changes the store and the two sets of blind debts, nothing else.\<close>

definition seats_only :: "table \<Rightarrow> table \<Rightarrow> bool" where
  "seats_only t t' \<longleftrightarrow> t' = t\<lparr>t_store := t_store t', t_ready_to_post := t_ready_to_post t',
     t_owes_big_blind := t_owes_big_blind t'\<rparr>"

lemma seats_only_refl [simp]: "seats_only t t"
  by (simp add: seats_only_def)

lemma seats_only_trans:
  assumes "seats_only t u" and "seats_only u v"
  shows "seats_only t v"
proof -
  obtain s a b s' a' b' where "u = t\<lparr>t_store := s, t_ready_to_post := a, t_owes_big_blind := b\<rparr>"
    "v = u\<lparr>t_store := s', t_ready_to_post := a', t_owes_big_blind := b'\<rparr>"
    using assms unfolding seats_only_def by blast
  then show ?thesis by (simp add: seats_only_def)
qed

text \<open>Eligibility depends on the player's own entries in the sets of debts only.\<close>

lemma eligible_cong:
  assumes "p_ready p = p_ready q" "p_state p = p_state q"
    and "(p_id p \<in> t_owes_big_blind t) = (p_id q \<in> t_owes_big_blind u)"
    and "(p_id p \<in> t_ready_to_post t) = (p_id q \<in> t_ready_to_post u)"
  shows "eligible_for_next_hand t p = eligible_for_next_hand u q"
  using assms by (simp add: eligible_for_next_hand_def)

lemma time_bank_fields [simp]:
  "p_id (initialize_time_bank p) = p_id p" "p_ready (initialize_time_bank p) = p_ready p"
  "p_state (initialize_time_bank p) = p_state p" "p_stack (initialize_time_bank p) = p_stack p"
  "p_id (recharge_time_bank p) = p_id p" "p_state (recharge_time_bank p) = p_state p"
  "p_stack (recharge_time_bank p) = p_stack p" "p_contributed (recharge_time_bank p) = p_contributed p"
  by (simp_all add: initialize_time_bank_def recharge_time_bank_def split: option.split)

lemma select_one:
  assumes "select_player r (t, active, ent) = (t', active', ent')"
  shows "seats_only t t'" "\<And>q. p_id (pl t' q) = p_id (pl t q)" "\<And>q. p_stack (pl t' q) = p_stack (pl t q)"
    "\<And>q. q \<noteq> r \<Longrightarrow> pl t' q = pl t q"
    "active' = (if eligible_for_next_hand t (pl t r) then active @ [r] else active)"
    "eligible_for_next_hand t (pl t r) \<Longrightarrow> p_state (pl t' r) = Active \<and> p_contributed (pl t' r) = 0"
    "\<And>x. x \<noteq> p_id (pl t r) \<Longrightarrow> (x \<in> t_owes_big_blind t') = (x \<in> t_owes_big_blind t) \<and>
       (x \<in> t_ready_to_post t') = (x \<in> t_ready_to_post t)"
proof -
  have e: "eligible_for_next_hand (upd r initialize_time_bank t) (initialize_time_bank (pl t r)) =
      eligible_for_next_hand t (pl t r)"
    by (rule eligible_cong) simp_all
  note defs = select_player_def Let_def e
  show "seats_only t t'"
    using assms by (auto simp: defs seats_only_def upd_def split: if_splits)
  show "p_id (pl t' q) = p_id (pl t q)" "p_stack (pl t' q) = p_stack (pl t q)" for q
    using assms by (auto simp: defs pl_upd sit_this_one_out_def deal_player_in_def split: if_splits)
  show "pl t' q = pl t q" if "q \<noteq> r" for q
    using assms that by (auto simp: defs split: if_splits)
  show "active' = (if eligible_for_next_hand t (pl t r) then active @ [r] else active)"
    using assms by (auto simp: defs split: if_splits)
  show "eligible_for_next_hand t (pl t r) \<Longrightarrow> p_state (pl t' r) = Active \<and> p_contributed (pl t' r) = 0"
    using assms by (auto simp: defs deal_player_in_def split: if_splits)
  show "(x \<in> t_owes_big_blind t') = (x \<in> t_owes_big_blind t) \<and>
      (x \<in> t_ready_to_post t') = (x \<in> t_ready_to_post t)" if "x \<noteq> p_id (pl t r)" for x
    using assms that by (auto simp: defs split: if_splits)
qed

lemma select_all:
  assumes "fold select_player rs (t, active, ent) = (t', active', ent')"
    and "distinct (map (\<lambda>r. p_id (pl t r)) rs)"
  shows "seats_only t t' \<and> (\<forall>q. p_id (pl t' q) = p_id (pl t q) \<and> p_stack (pl t' q) = p_stack (pl t q)) \<and>
    (\<forall>q. q \<notin> set rs \<longrightarrow> pl t' q = pl t q) \<and>
    active' = active @ filter (\<lambda>r. eligible_for_next_hand t (pl t r)) rs \<and>
    (\<forall>r\<in>set rs. eligible_for_next_hand t (pl t r) \<longrightarrow> p_state (pl t' r) = Active \<and> p_contributed (pl t' r) = 0)"
  using assms
proof (induction rs arbitrary: t active ent)
  case (Cons r rs)
  obtain t1 a1 e1 where one: "select_player r (t, active, ent) = (t1, a1, e1)" by (cases "select_player r (t, active, ent)")
  note s = select_one [OF one]
  have notin: "r \<notin> set rs" using Cons.prems(2) by auto
  have elig: "eligible_for_next_hand t1 (pl t1 q) = eligible_for_next_hand t (pl t q)" if q: "q \<in> set rs" for q
  proof -
    have "q \<noteq> r" "p_id (pl t q) \<noteq> p_id (pl t r)" using Cons.prems(2) q notin by (auto simp: image_iff)
    then show ?thesis using s(4) [of q] s(7) [of "p_id (pl t q)"] by (intro eligible_cong) auto
  qed
  have rest: "fold select_player rs (t1, a1, e1) = (t', active', ent')" using Cons.prems(1) one by simp
  have "distinct (map (\<lambda>r. p_id (pl t1 r)) rs)" using Cons.prems(2) s(2) by simp
  note ih = Cons.IH [OF rest this]
  have "filter (\<lambda>q. eligible_for_next_hand t1 (pl t1 q)) rs = filter (\<lambda>q. eligible_for_next_hand t (pl t q)) rs"
    by (rule filter_cong) (simp_all add: elig)
  moreover have "pl t' r = pl t1 r" using ih notin by blast
  ultimately show ?case
    using ih s(1-6) seats_only_trans [OF s(1), of t'] elig notin by auto
qed simp

section \<open>Starting\<close>

definition refunded :: "table \<Rightarrow> int" where
  "refunded t = (\<Sum>req\<leftarrow>t_pending_winner_cards t. if player_by_id t (wr_requester_id req) = None then 0 else wr_fee req)"

lemma refund_requests:
  assumes "distinct (seat_ids t)"
  shows "same_seats t (fold refund_winner_request reqs t) \<and>
    seat_stacks (fold refund_winner_request reqs t) = seat_stacks t +
      (\<Sum>req\<leftarrow>reqs. if player_by_id t (wr_requester_id req) = None then 0 else wr_fee req) \<and>
    ((\<forall>req\<in>set reqs. 0 \<le> wr_fee req) \<longrightarrow>
       (\<forall>q. p_stack (pl t q) \<le> p_stack (pl (fold refund_winner_request reqs t) q))) \<and>
    (\<forall>q. p_ready (pl (fold refund_winner_request reqs t) q) = p_ready (pl t q) \<and>
       p_state (pl (fold refund_winner_request reqs t) q) = p_state (pl t q)) \<and>
    (\<exists>s k. fold refund_winner_request reqs t = t\<lparr>t_store := s, t_rake_collected := k\<rparr>)"
  using assms
proof (induction reqs arbitrary: t)
  case (Cons req reqs)
  let ?u = "refund_winner_request req t"
  have same: "same_seats t ?u"
    by (simp add: refund_winner_request_def same_seats_def pl_upd split: option.split)
  have ids: "distinct (seat_ids ?u)" using Cons.prems same_seats_ids [OF same] by simp
  have stack: "seat_stacks ?u = seat_stacks t + (if player_by_id t (wr_requester_id req) = None then 0 else wr_fee req)"
  proof (cases "player_by_id t (wr_requester_id req)")
    case None
    then show ?thesis by (simp add: refund_winner_request_def seat_stacks_def)
  next
    case (Some r)
    then show ?thesis
      using player_by_id_Some [OF Some] seat_stacks_upd [OF distinct_players [OF Cons.prems], of r]
      by (simp add: refund_winner_request_def)
  qed
  have each: "0 \<le> wr_fee req \<Longrightarrow> p_stack (pl t q) \<le> p_stack (pl ?u q)" "p_ready (pl ?u q) = p_ready (pl t q)"
    "p_state (pl ?u q) = p_state (pl t q)" for q
    by (simp_all add: refund_winner_request_def pl_upd split: option.split)
  have shape: "\<exists>s k. ?u = t\<lparr>t_store := s, t_rake_collected := k\<rparr>"
    by (rule exI [of _ "t_store ?u"], rule exI [of _ "t_rake_collected ?u"])
      (simp add: refund_winner_request_def upd_def split: option.split)
  note ih = Cons.IH [OF ids]
  have "\<exists>s k. fold refund_winner_request (req # reqs) t = t\<lparr>t_store := s, t_rake_collected := k\<rparr>"
  proof -
    obtain s k where "?u = t\<lparr>t_store := s, t_rake_collected := k\<rparr>" using shape by blast
    moreover obtain s' k' where "fold refund_winner_request reqs ?u = ?u\<lparr>t_store := s', t_rake_collected := k'\<rparr>"
      using ih by blast
    ultimately show ?thesis by auto
  qed
  moreover have "p_stack (pl t q) \<le> p_stack (pl (fold refund_winner_request reqs ?u) q)"
    if "\<forall>req\<in>set (req # reqs). 0 \<le> wr_fee req" for q
    using ih each(1) [of q] that by (meson list.set_intros order_trans)
  ultimately show ?case
    using ih each(2,3) stack same_seats_trans [OF same] same_seats_by_id [OF same] by simp
next
  case Nil
  have "\<exists>s k. t = t\<lparr>t_store := s, t_rake_collected := k\<rparr>"
    by (rule exI [of _ "t_store t"], rule exI [of _ "t_rake_collected t"]) simp
  then show ?case by simp
qed

text \<open>A reset keeps the seats; requests nobody answered are refunded.\<close>

lemma clear_shown_fields [simp]:
  "p_id (clear_shown p) = p_id p" "p_stack (clear_shown p) = p_stack p" "p_ready (clear_shown p) = p_ready p"
  "p_state (clear_shown p) = p_state p"
  by (simp_all add: clear_shown_def)

lemma fold_clear:
  "(\<forall>q. p_id (pl (fold (\<lambda>r. upd r clear_shown) rs t) q) = p_id (pl t q) \<and>
     p_stack (pl (fold (\<lambda>r. upd r clear_shown) rs t) q) = p_stack (pl t q) \<and>
     p_ready (pl (fold (\<lambda>r. upd r clear_shown) rs t) q) = p_ready (pl t q) \<and>
     p_state (pl (fold (\<lambda>r. upd r clear_shown) rs t) q) = p_state (pl t q)) \<and>
   fold (\<lambda>r. upd r clear_shown) rs t = t\<lparr>t_store := t_store (fold (\<lambda>r. upd r clear_shown) rs t)\<rparr>"
proof (induction rs arbitrary: t)
  case (Cons r rs)
  let ?X = "fold (\<lambda>r. upd r clear_shown) rs (upd r clear_shown t)"
  have "(upd r clear_shown t)\<lparr>t_store := y\<rparr> = t\<lparr>t_store := y\<rparr>" for y by (simp add: upd_def)
  then have "?X = t\<lparr>t_store := t_store ?X\<rparr>" using Cons.IH [of "upd r clear_shown t"] by metis
  then show ?case
    using Cons.IH [of "upd r clear_shown t"] by (simp add: upd_field)
qed simp

definition can_start :: "table \<Rightarrow> bool" where
  "can_start t \<longleftrightarrow> \<not> hand_in_progress t \<and> distinct (seat_ids t) \<and> '''' \<notin> set (seat_ids t) \<and>
     (\<forall>r\<in>set (t_players t). 0 \<le> p_stack (pl t r) \<and>
        (eligible_for_next_hand t (pl t r) \<longrightarrow> 0 < p_stack (pl t r))) \<and>
     (\<forall>req\<in>set (t_pending_winner_cards t). 0 \<le> wr_fee req) \<and>
     0 < t_small_blind t \<and> t_small_blind t \<le> t_big_blind t \<and>
     2 * length (t_players t) + 16 \<le> (if t_variant t = ShortDeck then 36 else 52) \<and>
     rake_sane t (seat_stacks t + refunded t)"

definition ready_seats :: "table \<Rightarrow> pref list" where
  "ready_seats t = filter (\<lambda>r. eligible_for_next_hand t (pl t r)) (t_players t)"

lemma reset_ok:
  assumes "distinct (seat_ids t)" and "\<forall>req\<in>set (t_pending_winner_cards t). 0 \<le> wr_fee req"
  defines "u \<equiv> reset_hand t"
  shows "same_seats t u" "seat_stacks u = seat_stacks t + refunded t"
    "\<And>q. p_stack (pl t q) \<le> p_stack (pl u q)" "\<And>q. p_ready (pl u q) = p_ready (pl t q)"
    "\<And>q. p_state (pl u q) = p_state (pl t q)"
    "t_next_card u = 0" "t_board u = []" "t_board_two u = []" "t_runout_phase u = 0" "\<not> t_run_it_twice u"
    "t_stage u = t_stage t" "t_small_blind u = t_small_blind t" "t_big_blind u = t_big_blind t"
    "t_rake_bps u = t_rake_bps t" "t_rake_collected u = 0" "t_variant u = t_variant t"
    "t_shuffle u = t_shuffle t" "t_short_shuffle u = t_short_shuffle t" "t_dealer_drawn u = t_dealer_drawn t"
    "t_owes_big_blind u = t_owes_big_blind t" "t_ready_to_post u = t_ready_to_post t"
proof -
  let ?t0 = "t\<lparr>t_next_card := 0, t_board := [], t_board_two := [], t_board_split_at := 0,
               t_run_it_twice := False, t_runout_phase := 0, t_payouts := [], t_last_outcome := None,
               t_was_ever_all_in := {}\<rparr>"
  let ?t1 = "refund_pending_winner_cards ?t0"
  let ?t2 = "?t1\<lparr>t_rake_collected := 0, t_rabbit_hunt_slots := (\<lambda>_. 0), t_winner_cards_paid := {},
                  t_winner_cards_asked := {}, t_winner_cards_closed := False, t_seen_action_ids := {}\<rparr>"
  have ids: "distinct (seat_ids ?t0)" using assms(1) by (simp add: seat_ids_def)
  have look: "player_by_id ?t0 = player_by_id t" by (rule ext) (simp add: player_by_id_def)
  note ref = refund_requests [OF ids, of "t_pending_winner_cards t"]
  obtain s k where shape: "fold refund_winner_request (t_pending_winner_cards t) ?t0 = ?t0\<lparr>t_store := s, t_rake_collected := k\<rparr>"
    using ref by blast
  have u: "u = fold (\<lambda>r. upd r clear_shown) (t_players ?t2) ?t2" by (simp add: u_def reset_hand_def Let_def)
  note clear = fold_clear [of "t_players ?t2" ?t2, folded u]
  have t1: "?t1 = ?t0\<lparr>t_store := s, t_rake_collected := k, t_pending_winner_cards := []\<rparr>"
    using shape by (simp add: refund_pending_winner_cards_def)
  have frame: "u = ?t2\<lparr>t_store := t_store u\<rparr>" using clear by blast
  have s: "\<And>q. p_id (s q) = p_id (pl t q)" "\<And>q. p_stack (pl t q) \<le> p_stack (s q)"
    "\<And>q. p_ready (s q) = p_ready (pl t q)" "\<And>q. p_state (s q) = p_state (pl t q)"
    using ref assms(2) unfolding shape by (simp_all add: same_seats_def)
  have store: "t_store ?t2 = s" "t_players ?t2 = t_players t" by (simp_all add: t1)
  have sum: "(\<Sum>r\<leftarrow>t_players t. p_stack (s r)) = seat_stacks t + refunded t"
    using ref unfolding shape look refunded_def by (simp add: seat_stacks_def)
  show "p_stack (pl t q) \<le> p_stack (pl u q)" "p_ready (pl u q) = p_ready (pl t q)" "p_state (pl u q) = p_state (pl t q)" for q
    using clear s store by auto
  have players: "t_players u = t_players t" using store(2) by (subst frame) simp
  show "same_seats t u" using clear s(1) store(1) players by (simp add: same_seats_def)
  have "seat_stacks u = (\<Sum>r\<leftarrow>t_players t. p_stack (s r))"
    using clear store(1) players by (simp add: seat_stacks_def)
  then show "seat_stacks u = seat_stacks t + refunded t" using sum by simp
  show "t_next_card u = 0" "t_board u = []" "t_board_two u = []" "t_runout_phase u = 0" "\<not> t_run_it_twice u"
    "t_stage u = t_stage t" "t_small_blind u = t_small_blind t" "t_big_blind u = t_big_blind t"
    "t_rake_bps u = t_rake_bps t" "t_rake_collected u = 0" "t_variant u = t_variant t"
    "t_shuffle u = t_shuffle t" "t_short_shuffle u = t_short_shuffle t" "t_dealer_drawn u = t_dealer_drawn t"
    "t_owes_big_blind u = t_owes_big_blind t" "t_ready_to_post u = t_ready_to_post t"
    by (subst frame, simp add: t1)+
qed

text \<open>The deck of the table's variant, shuffled from a seed.\<close>

lemma new_deck_ok:
  assumes "new_deck s t = Some t'"
  shows "deck_len t' = (if t_variant t = ShortDeck then 36 else 52)"
    and "\<exists>a b. t' = t\<lparr>t_shuffle := a, t_short_shuffle := b\<rparr>"
proof -
  have len: "length cs = n" if "shuffle_from f i 0 cs0 = Some cs" "i < length cs0" "length cs0 < 2 ^ 32" "length cs0 = n" for f i cs0 cs n
    using mset_eq_length [OF shuffle_from_mset [OF that(2,3,1)]] that(4) by simp
  show "deck_len t' = (if t_variant t = ShortDeck then 36 else 52)"
    using assms
    by (auto simp: new_deck_def new_shuffle_def new_short_deck_shuffle_def shuffle_with_seed_def
        shuffle_short_deck_with_seed_def deck_len_def dealt_cards_def dest!: len split: if_splits bind_splits)
  show "\<exists>a b. t' = t\<lparr>t_shuffle := a, t_short_shuffle := b\<rparr>"
  proof (rule exI [of _ "t_shuffle t'"], rule exI [of _ "t_short_shuffle t'"])
    show "t' = t\<lparr>t_shuffle := t_shuffle t', t_short_shuffle := t_short_shuffle t'\<rparr>"
      using assms by (auto simp: new_deck_def split: if_splits bind_splits)
  qed
qed

lemma draw_dealer_ok:
  assumes "draw_dealer ds active t = Some (Inr t')"
  shows "\<exists>d b. t' = t\<lparr>t_dealer_seat := d, t_dealer_drawn := b\<rparr>"
proof (rule exI [of _ "t_dealer_seat t'"], rule exI [of _ "t_dealer_drawn t'"])
  show "t' = t\<lparr>t_dealer_seat := t_dealer_seat t', t_dealer_drawn := t_dealer_drawn t'\<rparr>"
    using assms by (auto simp: draw_dealer_def split: if_splits bind_splits sum.splits option.splits)
qed

text \<open>The table just before the blinds of a start that goes through.\<close>

definition chosen :: "table \<Rightarrow> table \<Rightarrow> bool" where
  "chosen t u \<longleftrightarrow> post_ready u \<and> t_hand_order u = ready_seats t \<and> same_seats t u \<and>
     seat_stacks u = seat_stacks t + refunded t \<and> t_rake_collected u = 0"

lemma sum_filter_le:
  fixes f :: "'a \<Rightarrow> int"
  shows "\<forall>x\<in>set xs. 0 \<le> f x \<Longrightarrow> (\<Sum>x\<leftarrow>filter P xs. f x) \<le> (\<Sum>x\<leftarrow>xs. f x)"
  by (induction xs) auto

lemma start_chosen:
  assumes can: "can_start t" and two: "2 \<le> length (ready_seats t)" and deck: "new_deck s t = Some t1"
    and sel: "select_players (reset_hand t1) = (t2, active, entrants)"
  shows "active = ready_seats t" and "\<not> hand_in_progress t2" and "same_seats t t2"
    and "seat_stacks t2 = seat_stacks t + refunded t" and "t_dealer_drawn t2 = t_dealer_drawn t"
    and "chosen t (t2\<lparr>t_hand_order := active, t_dealer_seat := d, t_dealer_drawn := b\<rparr>)"
proof -
  obtain x y where t1: "t1 = t\<lparr>t_shuffle := x, t_short_shuffle := y\<rparr>" using new_deck_ok(2) [OF deck] by blast
  let ?r = "reset_hand t1"
  have eq1: "t_players t1 = t_players t" "t_store t1 = t_store t" "t_pending_winner_cards t1 = t_pending_winner_cards t"
    "seat_ids t1 = seat_ids t" "refunded t1 = refunded t" "seat_stacks t1 = seat_stacks t" "player_by_id t1 = player_by_id t"
    "t_owes_big_blind t1 = t_owes_big_blind t" "t_ready_to_post t1 = t_ready_to_post t" "t_stage t1 = t_stage t"
    "t_small_blind t1 = t_small_blind t" "t_big_blind t1 = t_big_blind t" "t_variant t1 = t_variant t"
    "t_dealer_drawn t1 = t_dealer_drawn t" "t_rake_bps t1 = t_rake_bps t"
    by (auto simp: t1 seat_ids_def refunded_def player_by_id_def seat_stacks_def)
  note facts = can [unfolded can_start_def]
  have ids: "distinct (seat_ids t1)" and fees: "\<forall>req\<in>set (t_pending_winner_cards t1). 0 \<le> wr_fee req"
    using facts eq1 by auto
  note r = reset_ok [OF ids fees]
  have same: "same_seats t ?r" using r(1) eq1 by (simp add: same_seats_def)
  have idr: "p_id (pl ?r q) = p_id (pl t q)" "t_players ?r = t_players t" for q
    using same by (simp_all add: same_seats_def)
  have fold: "fold select_player (t_players ?r) (?r, [], {}) = (t2, active, entrants)"
    using sel by (simp add: select_players_def)
  have dist: "distinct (map (\<lambda>q. p_id (pl ?r q)) (t_players ?r))"
    using facts by (simp add: idr seat_ids_def)
  note s = select_all [OF fold dist]
  have elig: "eligible_for_next_hand ?r (pl ?r q) = eligible_for_next_hand t (pl t q)" for q
    by (rule eligible_cong) (simp_all add: r(4,5,20,21) idr eq1)
  show act: "active = ready_seats t" using s by (simp add: ready_seats_def idr elig)
  obtain st a c where t2: "t2 = ?r\<lparr>t_store := st, t_ready_to_post := a, t_owes_big_blind := c\<rparr>"
    using s unfolding seats_only_def by blast
  show "\<not> hand_in_progress t2" using facts r(11) by (simp add: t2 hand_in_progress_def eq1)
  have st: "p_id (st q) = p_id (pl t q)" "p_stack (st q) = p_stack (pl ?r q)" for q
    using s idr by (auto simp: t2)
  show "same_seats t t2" using st(1) idr(2) by (simp add: same_seats_def t2)
  have sum: "seat_stacks t2 = seat_stacks ?r" using st(2) by (simp add: seat_stacks_def t2)
  then show stacks: "seat_stacks t2 = seat_stacks t + refunded t" using r(2) eq1 by simp
  show "t_dealer_drawn t2 = t_dealer_drawn t" using r(19) by (simp add: t2 eq1)
  let ?u = "t2\<lparr>t_hand_order := active, t_dealer_seat := d, t_dealer_drawn := b\<rparr>"
  have fresh: "fresh (pl ?u q)" if q: "q \<in> set active" for q
  proof -
    have e: "q \<in> set (t_players t)" "eligible_for_next_hand t (pl t q)" using q by (auto simp: act ready_seats_def)
    then have "p_state (st q) = Active \<and> p_contributed (st q) = 0" using s elig [of q] idr(2) by (auto simp: t2)
    moreover have "0 < p_stack (st q)" using facts e r(3) [of q] st(2) [of q] by (fastforce simp: eq1)
    ultimately show ?thesis by (simp add: fresh_def t2)
  qed
  have nonneg: "0 \<le> p_stack (st q)" if "q \<in> set (t_players t)" for q
    using facts r(3) [of q] st(2) [of q] that by (fastforce simp: eq1)
  have chips: "hand_chips ?u = (\<Sum>q\<leftarrow>active. p_stack (st q))"
    unfolding hand_chips_def using fresh by (intro arg_cong [of _ _ sum_list] map_cong) (auto simp: fresh_def t2)
  also have "\<dots> \<le> (\<Sum>q\<leftarrow>t_players t. p_stack (st q))"
    unfolding act ready_seats_def using nonneg by (intro sum_filter_le) simp
  finally have le: "hand_chips ?u \<le> seat_stacks t + refunded t"
    using stacks idr(2) by (simp add: seat_stacks_def t2)
  have ge: "0 \<le> hand_chips ?u"
    unfolding chips by (rule sum_list_nonneg) (use nonneg in \<open>auto simp: act ready_seats_def\<close>)
  have "rake_sane t (hand_chips ?u)" by (rule rake_sane_less [OF _ ge le]) (use facts in blast)
  then have sane: "rake_sane ?u (hand_chips ?u)" using r(14) by (simp add: rake_sane_def t2 eq1)
  have "length active \<le> length (t_players t)" by (simp add: act ready_seats_def)
  moreover have "deck_len ?u = deck_len t1" using r(16-18) by (simp add: deck_len_def dealt_cards_def t2)
  ultimately have deck': "2 * length active + 16 \<le> deck_len ?u"
    using new_deck_ok(1) [OF deck] facts by (simp split: if_splits)
  have seats: "seat_ids ?u = seat_ids t" using st(1) idr(2) by (simp add: seat_ids_def t2)
  have order: "distinct active" "set active \<subseteq> set (t_players t)"
    using facts distinct_players [of t] by (auto simp: act ready_seats_def)
  have "post_ready ?u"
    using facts two r(6-10,12,13) fresh sane deck' seats order idr(2)
    by (simp add: post_ready_def t2 act eq1)
  then show "chosen t ?u"
    using act stacks r(15) same_seats_def st(1) idr(2) by (simp add: chosen_def same_seats_def seat_stacks_def t2)
qed

text \<open>A random index comes from the first value of the stream below the limit.\<close>

lemma random_index_bound:
  "random_index ds n = Some (Inr i) \<Longrightarrow> n \<le> 2 ^ 63 \<Longrightarrow> i < n"
proof (induction ds n rule: random_index.induct)
  case (1 ds n)
  have w: "unat (v mod of_nat n :: 64 word) < n" if "n \<noteq> 0" "n \<le> 2 ^ 63" for v
  proof -
    have "unat (of_nat n :: 64 word) = n" using that by (simp add: unat_of_nat take_bit_nat_eq_self)
    then show ?thesis using that by (simp add: unat_mod)
  qed
  show ?case
    using 1 w by (auto split: if_splits list.splits random.splits)
qed

lemma random_index_error: "random_index ds n = Some (Inl e) \<Longrightarrow> e = RandomFailed"
  by (induction ds n rule: random_index.induct) (auto split: if_splits list.splits random.splits)

section \<open>Properties\<close>

text \<open>C9: \<open>StartHand\<close> between hands. It only fails to return when the shuffle or the draw of the first
  dealer runs out of random values. An error leaves the table between hands, with the same seats and
  no chip moved but the refund of unanswered requests. A hand that starts deals in exactly the ready
  seats, keeps every chip (stacks and blinds against the stacks before and the refunds), and satisfies
  the invariant of a live hand before the flop; it is live unless the blinds put every player all-in.\<close>

theorem start_hand_safe:
  assumes can: "can_start t"
  shows "case start_hand seed ds t of
      None \<Rightarrow> 2 \<le> length (ready_seats t) \<and> (\<exists>s. seed = Read s \<and> (new_deck s t = None \<or>
        \<not> t_dealer_drawn t \<and> random_index ds (length (ready_seats t)) = None))
    | Some (Inl (e, t')) \<Rightarrow> \<not> hand_in_progress t' \<and> same_seats t t' \<and>
        (seat_stacks t' = seat_stacks t \<or> seat_stacks t' = seat_stacks t + refunded t) \<and>
        (e = NeedTwoReady (length (ready_seats t)) \<and> length (ready_seats t) < 2 \<or> e = RandomFailed)
    | Some (Inr t') \<Rightarrow> t_hand_order t' = ready_seats t \<and> 2 \<le> length (ready_seats t) \<and> same_seats t t' \<and>
        seat_stacks t' + hand_put t' = seat_stacks t + refunded t \<and> t_rake_collected t' = 0 \<and>
        hand_inv t' \<and> t_stage t' = PreFlop \<and>
        (hand_live t' \<or> (\<forall>p\<in>set (t_hand_order t'). p_state (pl t' p) = AllIn))"
proof -
  have refuse: "same_seats t (refuse_start t) \<and> seat_stacks (refuse_start t) = seat_stacks t \<and>
      \<not> hand_in_progress (refuse_start t)"
  proof -
    have "(\<forall>q. p_id (pl (fold (\<lambda>r. upd r (\<lambda>p. p\<lparr>p_contributed := 0\<rparr>)) rs u) q) = p_id (pl u q) \<and>
        p_stack (pl (fold (\<lambda>r. upd r (\<lambda>p. p\<lparr>p_contributed := 0\<rparr>)) rs u) q) = p_stack (pl u q)) \<and>
        t_players (fold (\<lambda>r. upd r (\<lambda>p. p\<lparr>p_contributed := 0\<rparr>)) rs u) = t_players u \<and>
        t_stage (fold (\<lambda>r. upd r (\<lambda>p. p\<lparr>p_contributed := 0\<rparr>)) rs u) = t_stage u" for rs u
      by (induction rs arbitrary: u) (simp_all add: upd_field)
    then show ?thesis by (simp add: refuse_start_def same_seats_def seat_stacks_def hand_in_progress_def)
  qed
  have ready: "length (filter (\<lambda>r. eligible_for_next_hand t (pl t r)) (t_players t)) = length (ready_seats t)"
    by (simp add: ready_seats_def)
  show ?thesis
  proof (cases "length (ready_seats t) < 2")
    case True
    then show ?thesis using refuse by (simp add: start_hand_def ready)
  next
    case False
    show ?thesis
    proof (cases seed)
      case ReadFailed
      then show ?thesis using False can by (simp add: start_hand_def ready can_start_def)
    next
      case (Read s)
      show ?thesis
      proof (cases "new_deck s t")
        case None
        then show ?thesis using False Read by (simp add: start_hand_def ready)
      next
        case (Some t1)
        obtain t2 active entrants where sel: "select_players (reset_hand t1) = (t2, active, entrants)"
          by (cases "select_players (reset_hand t1)")
        have two: "2 \<le> length (ready_seats t)" using False by simp
        note ch = start_chosen [OF can two Some sel]
        let ?t3 = "t2\<lparr>t_hand_order := active\<rparr>"
        have run: "start_hand seed ds t = do {
            drawn \<leftarrow> draw_dealer ds active ?t3;
            case drawn of
              Inl e \<Rightarrow> Some (Inl (e, ?t3))
            | Inr t4 \<Rightarrow> map_option Inr (post_and_deal active entrants t4) }"
          using False by (simp add: start_hand_def ready Read Some sel Let_def)
        show ?thesis
        proof (cases "draw_dealer ds active ?t3")
          case None
          then show ?thesis
            using run two Read ch(1,5) by (auto simp: draw_dealer_def split: if_splits bind_splits)
        next
          case (Some drawn)
          show ?thesis
          proof (cases drawn)
            case (Inl e)
            have "random_index ds (length active) = Some (Inl e)"
              using Some Inl unfolding draw_dealer_def by (auto split: if_split_asm bind_split_asm sum.split_asm)
            then have "e = RandomFailed" by (rule random_index_error)
            then show ?thesis
              using run Some Inl ch(2-4) by (simp add: hand_in_progress_def same_seats_def seat_stacks_def)
          next
            case (Inr t4)
            obtain d b where t4: "t4 = ?t3\<lparr>t_dealer_seat := d, t_dealer_drawn := b\<rparr>"
              using draw_dealer_ok [of ds active ?t3 t4] Some Inr by auto
            have c: "chosen t t4" using ch(6) [of b d] by (simp add: t4)
            then obtain t' where t': "post_and_deal (t_hand_order t4) entrants t4 = Some t'" "started t4 t'"
              using post_and_deal_ok [of t4 entrants] by (auto simp: chosen_def)
            have "start_hand seed ds t = Some (Inr t')"
              using run Some Inr t'(1) by (simp add: t4)
            moreover have "same_seats t t'"
              using c t'(2) same_seats_trans [of t t4 t'] by (simp add: chosen_def started_def)
            moreover have "hand_live t' \<or> (\<forall>p\<in>set (t_hand_order t'). p_state (pl t' p) = AllIn)"
              using t'(2) by (auto simp: started_def hand_live_def)
            ultimately show ?thesis
              using c t'(2) two by (simp add: chosen_def started_def)
          qed
        qed
      qed
    qed
  qed
qed

text \<open>C36: blinds that put every dealt player all-in wedge the hand. The betting round is complete before
  the flop, so nobody is on the clock, no paced street is awaited, and every action of every player is
  refused: no board is ever dealt. It happens to any two players whose stacks are at most the small
  blind.\<close>

theorem all_in_blinds_wedge:
  assumes ready: "post_ready u"
    and short: "length (t_hand_order u) = 2" "\<forall>r\<in>set (t_hand_order u). p_stack (pl u r) \<le> t_small_blind u"
  shows "\<exists>t'. post_and_deal (t_hand_order u) entrants u = Some t' \<and> t_stage t' = PreFlop \<and>
    current_player_to_act t' = Some '''' \<and> \<not> is_awaiting_runout t' \<and>
    (\<forall>T pid a amount. act T pid a amount t' = Some (Inl NoPendingAction))"
proof -
  obtain t' where t': "post_and_deal (t_hand_order u) entrants u = Some t'" "started u t'" "blinds_paid u t'"
    using post_and_deal_ok [OF ready] by blast
  obtain r where inv: "hand_inv t'" "t_stage t' = PreFlop" "t_runout_phase t' = 0" and same: "same_seats u t'"
    and order: "t_hand_order t' = t_hand_order u" and r: "t_round t' = Some r"
    "is_complete r \<longleftrightarrow> (\<forall>p\<in>set (t_hand_order t'). p_state (pl t' p) = AllIn)"
    using t'(2) unfolding started_def by blast
  obtain sb bb where blinds: "blind_seats u (t_hand_order u) = (sb, bb)" by (cases "blind_seats u (t_hand_order u)")
  note at = blind_seats_ok [of "t_hand_order u", OF _ blinds]
  have all_in: "p_state (pl t' p) = AllIn" if p: "p \<in> set (t_hand_order t')" for p
  proof -
    obtain i where i: "i < 2" "p = t_hand_order u ! i" using p order short(1) by (auto simp: in_set_conv_nth)
    then have "i = sb \<or> i = bb" using at short(1) by simp arith
    then have "min (t_small_blind u) (p_stack (pl u p)) \<le> p_contributed (pl t' p)"
      using t'(3) blinds i(2) by (auto simp: blinds_paid_def Let_def)
    moreover have "p_stack (pl u p) \<le> t_small_blind u" "posted (t_big_blind u) (pl t' p)"
      "p_stack (pl t' p) + p_contributed (pl t' p) = p_stack (pl u p)"
      using short(2) t'(3) p order by (auto simp: blinds_paid_def)
    ultimately show ?thesis by (auto simp: posted_def)
  qed
  have complete: "is_complete r" using r(2) all_in by blast
  have "filter (\<lambda>p. still_in_hand (pl t' p)) (t_hand_order t') = t_hand_order t'"
    using all_in by (simp add: still_in_hand_def)
  then have "1 < count_remaining t'" using short(1) order by (simp add: count_remaining_def)
  then have "current_player_to_act t' = Some ''''"
    by (rule closed_round_no_player [OF inv(1) r(1) complete])
  moreover have "\<not> is_awaiting_runout t'" using inv by (simp add: is_awaiting_runout_def)
  ultimately show ?thesis using t'(1) inv(2) by (auto simp: act_def)
qed

text \<open>A table waiting for its first hand, and one about to post the blinds with two short stacks.\<close>

definition waiting_table :: table where
  "waiting_table = configure_rake ''sandbox'' (new_table
     [sample_player ''a'' 1000 0 Active (Card 0 0, Card 0 0),
      sample_player ''b'' 500 0 Active (Card 0 0, Card 0 0)] 5 10)"

lemma start_hand_safe_witness:
  "can_start waiting_table \<and> (\<forall>seed ds. case start_hand seed ds waiting_table of
     Some (Inr t') \<Rightarrow> seat_stacks t' + hand_put t' = 1500 | _ \<Rightarrow> True)"
proof
  have fields: "t_players waiting_table = [0, Suc 0]" "t_pending_winner_cards waiting_table = []"
    "t_stage waiting_table = WaitingForPlayers" "t_small_blind waiting_table = 5" "t_big_blind waiting_table = 10"
    "t_variant waiting_table = Standard" "t_rake_bps waiting_table = 250"
    "pl waiting_table 0 = sample_player ''a'' 1000 0 Active (Card 0 0, Card 0 0)"
    "pl waiting_table (Suc 0) = sample_player ''b'' 500 0 Active (Card 0 0, Card 0 0)"
    by (simp_all add: waiting_table_def configure_rake_def new_table_def new_table_with_variant_def upt_rec)
  show can: "can_start waiting_table"
    by (simp add: can_start_def fields hand_in_progress_def seat_ids_def refunded_def seat_stacks_def
        rake_sane_def i64_max_def)
  have sum: "seat_stacks waiting_table = 1500" "refunded waiting_table = 0"
    by (simp_all add: seat_stacks_def refunded_def fields)
  show "\<forall>seed ds. case start_hand seed ds waiting_table of
     Some (Inr t') \<Rightarrow> seat_stacks t' + hand_put t' = 1500 | _ \<Rightarrow> True"
  proof (intro allI)
    fix seed ds
    show "case start_hand seed ds waiting_table of
        Some (Inr t') \<Rightarrow> seat_stacks t' + hand_put t' = 1500 | _ \<Rightarrow> True"
      using start_hand_safe [OF can, of seed ds]
      by (cases "start_hand seed ds waiting_table") (auto simp: sum split: sum.splits)
  qed
qed

definition short_table :: table where
  "short_table = (new_table
     [sample_player ''a'' 3 0 Active (Card 0 0, Card 0 0),
      sample_player ''b'' 4 0 Active (Card 0 0, Card 0 0)] 5 10)
     \<lparr>t_dealer_drawn := True, t_hand_order := [0, 1],
      t_shuffle := Some \<lparr>sh_cards = standard_deck, sh_server_seed = [], sh_commit_hash = []\<rparr>\<rparr>"

lemma short_table_fields:
  "t_players short_table = [0, Suc 0]" "t_hand_order short_table = [0, Suc 0]"
  "t_small_blind short_table = 5" "t_big_blind short_table = 10" "t_next_card short_table = 0"
  "t_board short_table = []" "t_board_two short_table = []" "t_runout_phase short_table = 0"
  "\<not> t_run_it_twice short_table" "deck_len short_table = 52" "t_rake_bps short_table = 0"
  "pl short_table 0 = sample_player ''a'' 3 0 Active (Card 0 0, Card 0 0)"
  "pl short_table (Suc 0) = sample_player ''b'' 4 0 Active (Card 0 0, Card 0 0)"
  by (simp_all add: short_table_def new_table_def new_table_with_variant_def upt_rec deck_len_def dealt_cards_def)

lemma short_table_ready: "post_ready short_table"
  by (simp add: post_ready_def short_table_fields seat_ids_def fresh_def hand_chips_def rake_sane_def i64_max_def)

lemma all_in_blinds_wedge_witness:
  "\<exists>t'. post_and_deal [0, 1] {} short_table = Some t' \<and> current_player_to_act t' = Some '''' \<and>
     \<not> is_awaiting_runout t'"
  using all_in_blinds_wedge [OF short_table_ready, of "{}"] by (simp add: short_table_fields) metis

end
