(* ===== verification/Hand_Seats.thy ===== *)
theory Hand_Seats
  imports Hand_Start
begin

text \<open>
  Taking and leaving a seat, from \<open>hand.go\<close>: \<open>AddMidHandJoiner\<close>, \<open>AddWaitingPlayer\<close>, \<open>rebuyExisting\<close>,
  \<open>MarkReadyToPost\<close> and \<open>RemovePlayerForActor\<close>. A new seat gets the next free address; a table is
  \<open>allocated\<close> when every address in use lies below it. Seats may change in the middle of a hand: the
  hand stays live and only the chips that come or go change the total.
\<close>

section \<open>Operations\<close>

definition rebuy_existing :: "pref \<Rightarrow> player \<Rightarrow> table \<Rightarrow> hand_error + table" where
  "rebuy_existing r incoming t =
     (if p_stack (pl t r) > 0 then Inl (AlreadySeated (p_id (pl t r)))
      else let t1 = upd r (\<lambda>p. p\<lparr>p_stack := p_stack incoming, p_hold_id := p_hold_id incoming,
                               p_last_action_at := p_last_action_at incoming, p_ready := True\<rparr>) t;
               pid = p_id (pl t1 r)
           in if p_state (pl t1 r) \<noteq> SittingOut then Inr t1
              else if would_be_next_blind t1 pid
                   then Inr (t1\<lparr>t_owes_big_blind := insert pid (t_owes_big_blind t1)\<rparr>)
                   else Inr (upd r (set_state Active) t1))"

definition add_mid_hand_joiner :: "player \<Rightarrow> table \<Rightarrow> hand_error + table" where
  "add_mid_hand_joiner p t =
     (case player_by_id t (p_id p) of
        Some r \<Rightarrow> rebuy_existing r p t
      | None \<Rightarrow> Inr (seat (initialize_time_bank (p\<lparr>p_ready := True, p_state := PendingEntry\<rparr>)) t))"

definition add_waiting_player :: "player \<Rightarrow> table \<Rightarrow> hand_error + table" where
  "add_waiting_player p t =
     (if t_stage t \<noteq> WaitingForPlayers \<and> t_stage t \<noteq> Complete then Inl HandInProgress
      else case player_by_id t (p_id p) of
          Some r \<Rightarrow> rebuy_existing r p t
        | None \<Rightarrow> Inr (seat (initialize_time_bank (p\<lparr>p_ready := True\<rparr>)) t))"

definition mark_ready_to_post :: "string \<Rightarrow> table \<Rightarrow> table" where
  "mark_ready_to_post pid t =
     (case player_by_id t pid of
        None \<Rightarrow> t
      | Some r \<Rightarrow> if p_state (pl t r) \<noteq> PendingEntry then t
                  else t\<lparr>t_ready_to_post := insert pid (t_ready_to_post t)\<rparr>)"

text \<open>The slice with the first player of an ID cut out, and the button that follows.\<close>

definition without_seat :: "nat \<Rightarrow> 'a list \<Rightarrow> 'a list" where
  "without_seat i xs = take i xs @ drop (Suc i) xs"

definition remove_player :: "string \<Rightarrow> table \<Rightarrow> hand_error + (int \<times> string) \<times> table" where
  "remove_player pid t =
     (case index_of pid (map (\<lambda>r. p_id (pl t r)) (t_players t)) of
        None \<Rightarrow> Inl (PlayerNotFound pid)
      | Some i \<Rightarrow>
          let p = pl t (t_players t ! i)
          in if hand_in_progress t \<and> dealt_into_current_hand t pid then Inl (StillDealtIn pid)
             else let t1 = (if int i < t_dealer_seat t then t\<lparr>t_dealer_seat := t_dealer_seat t - 1\<rparr> else t);
                      t2 = t1\<lparr>t_players := without_seat i (t_players t1)\<rparr>;
                      t3 = (if t_players t2 = [] then t2\<lparr>t_hand_order := [], t_payouts := [], t_last_outcome := None\<rparr>
                            else t2)
                  in Inr ((p_stack p, p_hold_id p), t3))"

section \<open>A hand does not depend on the other seats\<close>

definition allocated :: "table \<Rightarrow> bool" where
  "allocated t \<longleftrightarrow> (\<forall>r\<in>set (t_players t) \<union> set (t_hand_order t). r < t_next t)"

lemma awaiting_cong:
  assumes "t_stage t' = t_stage t" "t_run_it_twice t' = t_run_it_twice t" "t_runout_phase t' = t_runout_phase t"
    and "t_round t' = t_round t" "t_hand_order t' = t_hand_order t"
    and "\<forall>r\<in>set (t_hand_order t). p_state (pl t' r) = p_state (pl t r)"
  shows "is_awaiting_runout t' = is_awaiting_runout t"
proof -
  have "count_remaining t' = count_remaining t" "count_actable t' = count_actable t"
    unfolding count_remaining_def count_actable_def assms(5)
    by (auto intro!: arg_cong [of _ _ length] filter_cong simp: still_in_hand_def assms(6))
  then show ?thesis by (simp add: is_awaiting_runout_def assms(1-4))
qed

text \<open>Everything a live hand reads, except the chips of players with no decision left.\<close>

definition hand_reads :: "table \<Rightarrow> table \<Rightarrow> bool" where
  "hand_reads t t' \<longleftrightarrow> same_deal t t' \<and> t_hand_order t' = t_hand_order t \<and> t_round t' = t_round t \<and>
     t_round_idx t' = t_round_idx t \<and> t_round_baseline t' = t_round_baseline t \<and>
     (\<forall>r\<in>set (t_hand_order t). p_id (pl t' r) = p_id (pl t r) \<and> p_state (pl t' r) = p_state (pl t r) \<and>
        p_contributed (pl t' r) = p_contributed (pl t r) \<and>
        (p_stack (pl t' r) = p_stack (pl t r) \<or> p_stack (pl t r) \<le> 0 \<and> 0 \<le> p_stack (pl t' r)))"

lemma hand_live_reads:
  assumes live: "hand_live t" and reads: "hand_reads t t'"
    and seats: "distinct (seat_ids t')" "'''' \<notin> set (seat_ids t')" "set (t_hand_order t) \<subseteq> set (t_players t')"
    and sane: "rake_sane t' (hand_chips t')"
  shows "hand_live t'"
proof -
  obtain r where inv: "hand_inv t" and r: "t_round t = Some r" and link: "round_linked t r"
    and s: "seats_linked t"
    using live by (auto simp: hand_live_def hand_inv_def)
  note fields = reads [unfolded hand_reads_def]
  have same: "p_id (pl t' q) = p_id (pl t q)" "p_state (pl t' q) = p_state (pl t q)"
    "p_contributed (pl t' q) = p_contributed (pl t q)" if "q \<in> set (t_hand_order t)" for q
    using fields that by auto
  have seats': "seats_linked t'"
    using s seats fields same by (auto simp: seats_linked_def dealt_player_ok_def)
  have entry: "entry_link t' e q" if "e \<in> set (rd_players r)" "q \<in> set (t_hand_order t)" "entry_link t e q" for e q
  proof -
    have "\<not> bp_all_in e \<longrightarrow> 0 < bp_stack e"
      using link that(1) by (auto simp: round_linked_def round_wf_def player_wf_def)
    then have "\<not> bp_all_in e \<longrightarrow> p_stack (pl t' q) = p_stack (pl t q)"
      using fields that(2,3) by (fastforce simp: entry_link_def)
    then show ?thesis using that(2,3) same fields unfolding entry_link_def by metis
  qed
  have "round_linked t' r"
    unfolding round_linked_def
  proof (intro conjI ballI impI)
    fix e assume e: "e \<in> set (rd_players r)"
    obtain q where "q \<in> set (t_hand_order t)" "entry_link t e q" using link e unfolding round_linked_def by blast
    then show "\<exists>q\<in>set (t_hand_order t'). entry_link t' e q" using entry [OF e] fields by metis
  qed (use link fields same in \<open>auto simp: round_linked_def\<close>)
  then have inv': "hand_inv t'"
    using inv seats' sane r fields deal_ok_same [of t t'] by (auto simp: hand_inv_def same_deal_def)
  have "is_awaiting_runout t' = is_awaiting_runout t"
    by (rule awaiting_cong) (use fields in \<open>auto simp: same_deal_def\<close>)
  then show ?thesis using live inv' fields by (simp add: hand_live_def same_deal_def)
qed

lemma hand_chips_reads:
  assumes "hand_reads t t'" and "\<forall>r\<in>set (t_hand_order t). p_stack (pl t' r) = p_stack (pl t r)"
  shows "hand_chips t' = hand_chips t"
  using assms unfolding hand_chips_def hand_reads_def
  by (intro arg_cong [of _ _ sum_list]) simp

lemma rake_sane_cong: "t_rake_bps t' = t_rake_bps t \<Longrightarrow> rake_sane t' x = rake_sane t x"
  by (simp add: rake_sane_def)

section \<open>Seats in a live hand\<close>

lemma seat_fields [simp]:
  "t_players (seat p t) = t_players t @ [t_next t]" "t_hand_order (seat p t) = t_hand_order t"
  "t_stage (seat p t) = t_stage t" "t_rake_collected (seat p t) = t_rake_collected t"
  "t_rake_bps (seat p t) = t_rake_bps t"
  "t_store (seat p t) = (t_store t)(t_next t := p)" "t_next (seat p t) = Suc (t_next t)"
  by (simp_all add: seat_def)

lemma seat_chips:
  assumes "allocated t"
  shows "table_chips (seat p t) = table_chips t + p_stack p"
proof -
  have "(\<Sum>r\<leftarrow>t_players t. p_stack (if r = t_next t then p else pl t r)) = (\<Sum>r\<leftarrow>t_players t. p_stack (pl t r))"
    "(\<Sum>r\<leftarrow>t_hand_order t. p_contributed (if r = t_next t then p else pl t r)) = (\<Sum>r\<leftarrow>t_hand_order t. p_contributed (pl t r))"
    using assms by (intro arg_cong [of _ _ sum_list] map_cong; auto simp: allocated_def)+
  then show ?thesis
    by (simp add: table_chips_def seat_stacks_def hand_put_def hand_in_progress_def fun_upd_def)
qed

lemma seat_live:
  assumes live: "hand_live t" and al: "allocated t" and p: "p_id p \<noteq> ''''" "player_by_id t (p_id p) = None"
  shows "hand_live (seat p t)"
proof -
  have inv: "hand_inv t" and s: "seats_linked t" using live by (auto simp: hand_live_def hand_inv_def)
  have other: "r \<noteq> t_next t" if "r \<in> set (t_players t) \<union> set (t_hand_order t)" for r
    using al that by (auto simp: allocated_def)
  have reads: "hand_reads t (seat p t)"
    using other by (auto simp: hand_reads_def same_deal_def seat_def)
  have ids: "seat_ids (seat p t) = seat_ids t @ [p_id p]"
    using other by (auto simp: seat_ids_def)
  have chips: "hand_chips (seat p t) = hand_chips t"
    by (rule hand_chips_reads [OF reads]) (use other in auto)
  show ?thesis
    by (rule hand_live_reads [OF live reads])
      (use ids p player_by_id_None [of t "p_id p"] s chips inv in
        \<open>auto simp: seats_linked_def hand_inv_def rake_sane_def\<close>)
qed

text \<open>A busted player who buys in again: the new chips are all that changes in the hand.\<close>

lemma rebuy_live:
  assumes live: "hand_live t" and r: "r \<in> set (t_players t)" "\<not> 0 < p_stack (pl t r)"
    and p: "0 \<le> p_stack incoming" and sane: "rake_sane t (hand_chips t + p_stack incoming)"
    and ok: "rebuy_existing r incoming t = Inr t'"
  shows "hand_live t'" and "table_chips t' = table_chips t + (p_stack incoming - p_stack (pl t r))"
proof -
  have inv: "hand_inv t" and s: "seats_linked t" using live by (auto simp: hand_live_def hand_inv_def)
  have zero: "r \<in> set (t_hand_order t) \<Longrightarrow> p_stack (pl t r) = 0"
    using s r(2) by (force simp: seats_linked_def dealt_player_ok_def)
  have paused: "r \<notin> set (t_hand_order t)" if "p_state (pl t r) = SittingOut"
    using dealt_stack_pos [OF inv, of r] that r(2) by (auto simp: still_in_hand_def)
  have shape: "t_players t' = t_players t" "same_deal t t'" "t_hand_order t' = t_hand_order t" "t_round t' = t_round t"
    "t_round_idx t' = t_round_idx t" "t_round_baseline t' = t_round_baseline t"
    and at: "p_id (pl t' r) = p_id (pl t r)" "p_stack (pl t' r) = p_stack incoming"
      "p_contributed (pl t' r) = p_contributed (pl t r)"
      "p_state (pl t r) \<noteq> SittingOut \<Longrightarrow> p_state (pl t' r) = p_state (pl t r)"
    and other: "\<And>q. q \<noteq> r \<Longrightarrow> pl t' q = pl t q"
    using ok r(2) by (auto simp: rebuy_existing_def Let_def same_deal_def set_state_def split: if_splits)
  have eq: "p_id (pl t' q) = p_id (pl t q)" "p_contributed (pl t' q) = p_contributed (pl t q)" for q
    using at other by (cases "q = r"; simp)+
  have reads: "hand_reads t t'"
    unfolding hand_reads_def
  proof (intro conjI ballI)
    fix q assume q: "q \<in> set (t_hand_order t)"
    show "p_state (pl t' q) = p_state (pl t q)" using q paused at(4) other by (cases "q = r") auto
    show "p_stack (pl t' q) = p_stack (pl t q) \<or> p_stack (pl t q) \<le> 0 \<and> 0 \<le> p_stack (pl t' q)"
      using q zero at(2) p other by (cases "q = r") auto
  qed (use shape eq in auto)
  have d: "distinct (t_hand_order t)" "distinct (t_players t)"
    using s distinct_players by (auto simp: seats_linked_def)
  define v where "v = pl t' r"
  have store: "t_store t' = t_store (upd r (\<lambda>_. v) t)"
    using other by (intro ext) (simp add: pl_upd v_def)
  note at = at [folded v_def]
  have "hand_chips t' = hand_chips (upd r (\<lambda>_. v) t)"
    unfolding hand_chips_def shape(3) store by simp
  then have chips: "hand_chips t' = hand_chips t + (if r \<in> set (t_hand_order t) then p_stack incoming else 0)"
    using sum_pl_upd [OF d(1), of "\<lambda>q. p_stack q + p_contributed q" r "\<lambda>_. v" t] at(2,3) zero
    by (simp add: hand_chips_def)
  have hc: "0 \<le> hand_chips t"
    unfolding hand_chips_def by (rule sum_list_nonneg) (use s in \<open>auto simp: seats_linked_def dealt_player_ok_def\<close>)
  have "rake_sane t (hand_chips t')"
    by (rule rake_sane_less [OF sane]) (use chips p hc in auto)
  then have sane': "rake_sane t' (hand_chips t')"
    using shape(2) rake_sane_cong [of t' t] by (simp add: same_deal_def)
  have ids: "seat_ids t' = seat_ids t" using shape(1) eq by (simp add: seat_ids_def)
  show "hand_live t'"
    by (rule hand_live_reads [OF live reads _ _ _ sane']) (use ids shape(1) s in \<open>auto simp: seats_linked_def\<close>)
  have "seat_stacks t' = seat_stacks (upd r (\<lambda>_. v) t)" unfolding seat_stacks_def shape(1) store by simp
  then have "seat_stacks t' = seat_stacks t + (p_stack incoming - p_stack (pl t r))"
    using seat_stacks_upd [OF d(2), of r "\<lambda>_. v"] r(1) at(2) by simp
  moreover have "hand_put t' = hand_put t" by (simp add: hand_put_def shape(3) eq)
  ultimately show "table_chips t' = table_chips t + (p_stack incoming - p_stack (pl t r))"
    using shape(2) by (simp add: table_chips_def hand_in_progress_def same_deal_def)
qed

section \<open>Leaving a seat\<close>

lemma without_seat_split:
  assumes "i < length xs"
  shows "xs = take i xs @ xs ! i # drop (Suc i) xs" and "length (without_seat i xs) = length xs - 1"
    and "set (without_seat i xs) \<subseteq> set xs" and "distinct xs \<Longrightarrow> set (without_seat i xs) = set xs - {xs ! i}"
    and "distinct xs \<Longrightarrow> distinct (without_seat i xs)" and "map f (without_seat i xs) = without_seat i (map f xs)"
proof -
  show split: "xs = take i xs @ xs ! i # drop (Suc i) xs" using assms by (rule id_take_nth_drop)
  show "length (without_seat i xs) = length xs - 1" using assms by (simp add: without_seat_def)
  have set_eq: "set xs = insert (xs ! i) (set (without_seat i xs))"
    by (subst split) (simp add: without_seat_def)
  then show "set (without_seat i xs) \<subseteq> set xs" by blast
  have d: "distinct (take i xs @ xs ! i # drop (Suc i) xs)" if "distinct xs" using that split by simp
  then show "distinct (without_seat i xs)" if "distinct xs" using that by (simp add: without_seat_def)
  show "set (without_seat i xs) = set xs - {xs ! i}" if "distinct xs"
    using d [OF that] set_eq by (auto simp: without_seat_def)
  show "map f (without_seat i xs) = without_seat i (map f xs)"
    by (simp add: without_seat_def take_map drop_map)
qed

lemma without_seat_nth:
  assumes "i < length xs" "j < length xs" "j \<noteq> i"
  shows "without_seat i xs ! (if i < j then j - 1 else j) = xs ! j"
  using assms by (auto simp: without_seat_def nth_append)

lemma sum_without_seat:
  fixes f :: "'a \<Rightarrow> int"
  assumes "i < length xs"
  shows "(\<Sum>x\<leftarrow>without_seat i xs. f x) = (\<Sum>x\<leftarrow>xs. f x) - f (xs ! i)"
proof -
  have "(\<Sum>x\<leftarrow>xs. f x) = (\<Sum>x\<leftarrow>take i xs @ xs ! i # drop (Suc i) xs. f x)"
    using without_seat_split(1) [OF assms] by simp
  then show ?thesis by (simp add: without_seat_def)
qed

text \<open>Who leaves takes the stack; the button stays with its player unless that player leaves.\<close>

lemma remove_player_effect:
  assumes ids: "distinct (seat_ids t)" and ok: "remove_player pid t = Inr ((stack, hold), t')"
  shows "\<exists>i r. i < length (t_players t) \<and> r = t_players t ! i \<and> player_by_id t pid = Some r \<and>
    stack = p_stack (pl t r) \<and> hold = p_hold_id (pl t r) \<and> t_players t' = without_seat i (t_players t) \<and>
    t_store t' = t_store t \<and> t_dealer_seat t' = (if int i < t_dealer_seat t then t_dealer_seat t - 1 else t_dealer_seat t) \<and>
    \<not> (hand_in_progress t \<and> dealt_into_current_hand t pid) \<and>
    (t_players t' \<noteq> [] \<longrightarrow> t' = t\<lparr>t_dealer_seat := t_dealer_seat t', t_players := t_players t'\<rparr>) \<and>
    (t_players t' = [] \<longrightarrow> t_hand_order t' = []) \<and> t_stage t' = t_stage t \<and> t_rake_collected t' = t_rake_collected t"
proof -
  obtain i where i: "index_of pid (map (\<lambda>r. p_id (pl t r)) (t_players t)) = Some i"
    using ok by (auto simp: remove_player_def split: option.splits)
  then have at: "i < length (t_players t)" "p_id (pl t (t_players t ! i)) = pid"
    using index_of_Some [OF i] by auto
  have "player_by_id t pid = Some (t_players t ! i)"
    using player_by_id_seat [OF ids, of "t_players t ! i"] at by simp
  then show ?thesis
    using ok at by (intro exI [of _ i] exI [of _ "t_players t ! i"])
      (auto simp: remove_player_def i Let_def split: if_splits)
qed

lemma remove_live:
  assumes live: "hand_live t" and ok: "remove_player pid t = Inr ((stack, hold), t')"
  shows "hand_live t'" and "table_chips t' = table_chips t - stack" and "player_by_id t' pid = None"
proof -
  have inv: "hand_inv t" and s: "seats_linked t" using live by (auto simp: hand_live_def hand_inv_def)
  have ids: "distinct (seat_ids t)" using s by (simp add: seats_linked_def)
  obtain i r where i: "i < length (t_players t)" "r = t_players t ! i" "player_by_id t pid = Some r"
    "stack = p_stack (pl t r)" "t_players t' = without_seat i (t_players t)" "t_store t' = t_store t"
    "\<not> dealt_into_current_hand t pid"
    "t_players t' \<noteq> [] \<Longrightarrow> t' = t\<lparr>t_dealer_seat := t_dealer_seat t', t_players := t_players t'\<rparr>"
    using remove_player_effect [OF ids ok] hand_inv_in_progress [OF inv] by blast
  have r: "p_id (pl t r) = pid" "r \<notin> set (t_hand_order t)"
    using player_by_id_Some [OF i(3)] i(7) by (auto simp: dealt_into_current_hand_def)
  have players: "set (t_players t') = set (t_players t) - {r}"
    using without_seat_split(4) [OF i(1) distinct_players [OF ids]] i(2,5) by simp
  have "count_remaining t = 0" if "t_hand_order t = []" using that by (simp add: count_remaining_def)
  moreover have "t_hand_order t \<noteq> []"
  proof
    assume none: "t_hand_order t = []"
    obtain rd where rd: "t_round t = Some rd" "round_linked t rd" using inv by (auto simp: hand_inv_def)
    then have "rd_players rd = []" using none by (auto simp: round_linked_def)
    then have "is_complete rd" by (simp add: is_complete_def)
    moreover have "\<not> is_awaiting_runout t" using none by (simp add: is_awaiting_runout_def count_remaining_def)
    ultimately show False using live rd(1) by (simp add: hand_live_def)
  qed
  ultimately have "t_players t' \<noteq> []"
    using s r(2) players by (cases "t_hand_order t") (auto simp: seats_linked_def)
  then have t': "t' = t\<lparr>t_dealer_seat := t_dealer_seat t', t_players := t_players t'\<rparr>" by (rule i(8))
  have ids': "seat_ids t' = without_seat i (seat_ids t)"
    using without_seat_split(6) [OF i(1)] i(5,6) by (simp add: seat_ids_def)
  have len: "i < length (seat_ids t)" using i(1) by (simp add: seat_ids_def)
  have "pid = seat_ids t ! i" using i(1,2) r(1) by (simp add: seat_ids_def)
  then show "player_by_id t' pid = None"
    using ids' without_seat_split(4) [OF len ids] player_by_id_None [of t' pid] by simp
  have reads: "hand_reads t t'"
    by (subst t') (simp add: hand_reads_def same_deal_def)
  show "hand_live t'"
  proof (rule hand_live_reads [OF live reads])
    show "distinct (seat_ids t')" using ids' without_seat_split(5) [OF len ids] by simp
    show "'''' \<notin> set (seat_ids t')" using ids' without_seat_split(3) [OF len] s by (auto simp: seats_linked_def)
    show "set (t_hand_order t) \<subseteq> set (t_players t')" using s r(2) players by (auto simp: seats_linked_def)
    have "hand_chips t' = hand_chips t" by (subst t') (simp add: hand_chips_def)
    moreover have "t_rake_bps t' = t_rake_bps t" by (subst t') simp
    ultimately show "rake_sane t' (hand_chips t')" using inv by (simp add: hand_inv_def rake_sane_def)
  qed
  have "seat_stacks t' = seat_stacks t - stack"
    using sum_without_seat [OF i(1), of "\<lambda>r. p_stack (pl t r)"] i(2,4-6) by (simp add: seat_stacks_def)
  moreover have "hand_put t' = hand_put t" "t_stage t' = t_stage t" "t_rake_collected t' = t_rake_collected t"
    by (subst t', simp add: hand_put_def)+
  ultimately show "table_chips t' = table_chips t - stack" by (simp add: table_chips_def hand_in_progress_def)
qed

section \<open>Properties\<close>

text \<open>C11: seats come and go without hurting a live hand. Joining mid-hand (or buying in again after a bust)
  keeps the hand live and adds exactly the chips brought in; a waiting-list seat is refused; leaving
  is refused to a player dealt in, and to anybody else pays out the whole stack, frees the seat,
  leaves the hand live, and keeps the button with its player unless that player is the one leaving.\<close>

theorem seats_keep_hand:
  assumes live: "hand_live t" and al: "allocated t"
    and p: "p_id p \<noteq> ''''" "0 \<le> p_stack p" "rake_sane t (hand_chips t + p_stack p)"
  shows "(\<forall>t'. add_mid_hand_joiner p t = Inr t' \<longrightarrow> hand_live t' \<and>
      table_chips t' = table_chips t + p_stack p -
        (case player_by_id t (p_id p) of None \<Rightarrow> 0 | Some r \<Rightarrow> p_stack (pl t r))) \<and>
    add_waiting_player p t = Inl HandInProgress \<and>
    (\<forall>pid. dealt_into_current_hand t pid \<and> player_by_id t pid \<noteq> None \<longrightarrow> remove_player pid t = Inl (StillDealtIn pid)) \<and>
    (\<forall>pid stack hold t'. remove_player pid t = Inr ((stack, hold), t') \<longrightarrow>
      hand_live t' \<and> table_chips t' = table_chips t - stack \<and> player_by_id t' pid = None \<and>
      (\<forall>d < length (t_players t). t_dealer_seat t = int d \<and> p_id (pl t (t_players t ! d)) \<noteq> pid \<longrightarrow>
         t_players t' ! nat (t_dealer_seat t') = t_players t ! d))"
proof (intro conjI allI impI)
  have inv: "hand_inv t" and s: "seats_linked t" using live by (auto simp: hand_live_def hand_inv_def)
  have ids: "distinct (seat_ids t)" using s by (simp add: seats_linked_def)
  note prog = hand_inv_in_progress [OF inv]
  show "add_waiting_player p t = Inl HandInProgress"
    using prog by (simp add: add_waiting_player_def hand_in_progress_def)
  fix t' assume ok: "add_mid_hand_joiner p t = Inr t'"
  have "hand_live t' \<and> table_chips t' = table_chips t + p_stack p -
      (case player_by_id t (p_id p) of None \<Rightarrow> 0 | Some r \<Rightarrow> p_stack (pl t r))"
  proof (cases "player_by_id t (p_id p)")
    case None
    let ?p = "initialize_time_bank (p\<lparr>p_ready := True, p_state := PendingEntry\<rparr>)"
    have "t' = seat ?p t" using ok None by (simp add: add_mid_hand_joiner_def)
    then show ?thesis using seat_live [OF live al, of ?p] seat_chips [OF al, of ?p] p(1) None by simp
  next
    case (Some r)
    then have re: "rebuy_existing r p t = Inr t'" using ok by (simp add: add_mid_hand_joiner_def)
    then have "\<not> 0 < p_stack (pl t r)" by (auto simp: rebuy_existing_def)
    then show ?thesis
      using rebuy_live [OF live _ _ p(2,3) re] player_by_id_Some [OF Some] Some by simp
  qed
  then show "hand_live t'" "table_chips t' = table_chips t + p_stack p -
      (case player_by_id t (p_id p) of None \<Rightarrow> 0 | Some r \<Rightarrow> p_stack (pl t r))" by blast+
next
  have prog: "hand_in_progress t" using live hand_inv_in_progress by (simp add: hand_live_def)
  fix pid assume pid: "dealt_into_current_hand t pid \<and> player_by_id t pid \<noteq> None"
  then have "pid \<in> set (map (\<lambda>r. p_id (pl t r)) (t_players t))"
    using player_by_id_None [of t pid] by (simp add: seat_ids_def)
  then obtain i where "index_of pid (map (\<lambda>r. p_id (pl t r)) (t_players t)) = Some i"
    using index_of_mem by metis
  then show "remove_player pid t = Inl (StillDealtIn pid)" using pid prog by (simp add: remove_player_def Let_def)
next
  fix pid stack hold t' assume ok: "remove_player pid t = Inr ((stack, hold), t')"
  note live' = remove_live [OF live ok]
  show "hand_live t'" "table_chips t' = table_chips t - stack" "player_by_id t' pid = None" by (rule live')+
  have ids: "distinct (seat_ids t)" using live by (simp add: hand_live_def hand_inv_def seats_linked_def)
  fix d assume d: "d < length (t_players t)" "t_dealer_seat t = int d \<and> p_id (pl t (t_players t ! d)) \<noteq> pid"
  obtain i where i: "i < length (t_players t)" "player_by_id t pid = Some (t_players t ! i)"
    "t_players t' = without_seat i (t_players t)"
    "t_dealer_seat t' = (if int i < t_dealer_seat t then t_dealer_seat t - 1 else t_dealer_seat t)"
    using remove_player_effect [OF ids ok] by blast
  have "d \<noteq> i" using d(2) player_by_id_Some [OF i(2)] by auto
  moreover have "nat (t_dealer_seat t') = (if i < d then d - 1 else d)" using i(4) d(2) by auto
  ultimately show "t_players t' ! nat (t_dealer_seat t') = t_players t ! d"
    using without_seat_nth [OF i(1) d(1)] i(3) by simp
qed

lemma seats_keep_hand_witness:
  "\<exists>t'. add_mid_hand_joiner (sample_player ''d'' 400 0 Active (Card 0 0, Card 0 0)) preflop_table = Inr t' \<and>
     hand_live t' \<and> table_chips t' = 3400"
proof -
  let ?p = "sample_player ''d'' 400 0 Active (Card 0 0, Card 0 0)"
  have al: "allocated preflop_table"
    by (simp add: allocated_def preflop_fields) (simp add: preflop_table_def new_table_def new_table_with_variant_def)
  have "rake_sane preflop_table (hand_chips preflop_table + 400)"
    by (simp add: rake_sane_def preflop_fields hand_chips_def i64_max_def)
  moreover have none: "player_by_id preflop_table ''d'' = None" by (simp add: player_by_id_def preflop_fields)
  moreover have "\<exists>t'. add_mid_hand_joiner ?p preflop_table = Inr t'"
    using none by (simp add: add_mid_hand_joiner_def)
  ultimately show ?thesis
    using seats_keep_hand [OF preflop_live al, of ?p] by (auto simp: preflop_chips)
qed

end
