(* ===== verification/Paid_Reveals.thy ===== *)
theory Paid_Reveals
  imports Hand_Seats
begin

text \<open>
  Showing and buying cards after a hand, from \<open>hand.go\<close>: \<open>RevealHoleCard\<close>, the rabbit hunt
  (\<open>RequestRabbitHunt\<close>, \<open>RefundRabbitHunt\<close>) and the winner's cards (\<open>RequestWinnerCards\<close>,
  \<open>AcceptWinnerCards\<close>, \<open>DeclineWinnerCards\<close>, \<open>ExpireWinnerCards\<close>). The commands are the steps of a relation
  whose invariant accounts for every chip: stacks, rake, fees held for an open request, and fees paid for
  rabbit cards. Times are milliseconds. An operation that may change the table before it fails returns
  the table in both cases.
\<close>

section \<open>Showing hole cards\<close>

definition dealt_into_hand :: "table \<Rightarrow> string \<Rightarrow> bool" where
  "dealt_into_hand t pid \<longleftrightarrow> (\<exists>r\<in>set (t_hand_order t). p_id (pl t r) = pid)"

definition hand_info :: "hand_outcome \<Rightarrow> string \<Rightarrow> player_hand_info" where
  "hand_info ho pid = (case ho_player_hands ho pid of
      None \<Rightarrow> \<lparr>hi_hole_cards = ('''', ''''), hi_revealed = False, hi_revealed_cards = (False, False)\<rparr>
    | Some info \<Rightarrow> info)"

definition show_outcome :: "string \<Rightarrow> (bool \<times> bool \<Rightarrow> bool \<times> bool) \<Rightarrow> table \<Rightarrow> table" where
  "show_outcome pid f t =
     (case t_last_outcome t of
        None \<Rightarrow> t
      | Some ho \<Rightarrow>
          let info = hand_info ho pid; cards = f (hi_revealed_cards info);
              info' = info\<lparr>hi_revealed := (fst cards \<and> snd cards), hi_revealed_cards := cards\<rparr>
          in t\<lparr>t_last_outcome := Some (ho\<lparr>ho_player_hands := (ho_player_hands ho)(pid \<mapsto> info')\<rparr>)\<rparr>)"

definition set_shown :: "bool \<times> bool \<Rightarrow> player \<Rightarrow> player" where
  "set_shown cards p = p\<lparr>p_voluntarily_shown_cards := cards, p_voluntarily_shown := (fst cards \<and> snd cards)\<rparr>"

definition show_card :: "int \<Rightarrow> bool \<times> bool \<Rightarrow> bool \<times> bool" where
  "show_card i cards = (if i = 0 then (True, snd cards) else (fst cards, True))"

definition card_shown :: "int \<Rightarrow> bool \<times> bool \<Rightarrow> bool" where
  "card_shown i cards = (if i = 0 then fst cards else snd cards)"

text \<open>No index shows both cards; the flag says whether anything changed.\<close>

definition reveal_hole_card :: "string \<Rightarrow> int option \<Rightarrow> table \<Rightarrow> hand_error + bool \<times> table" where
  "reveal_hole_card pid index t =
     (if t_stage t \<noteq> Complete then Inl NotComplete
      else if \<not> dealt_into_hand t pid then Inl (NotDealtIn pid)
      else case player_by_id t pid of
          None \<Rightarrow> Inl (NotSeated pid)
        | Some r \<Rightarrow>
            let p = pl t r; cards = p_voluntarily_shown_cards p
            in case index of
                None \<Rightarrow> Inr (\<not> fst cards \<or> \<not> snd cards,
                  show_outcome pid (\<lambda>_. (True, True)) (upd r (set_shown (True, True)) t))
              | Some i \<Rightarrow>
                  if i < 0 \<or> i > 1 then Inl (BadCardIndex i)
                  else if p_voluntarily_shown p \<or> card_shown i cards then Inr (False, t)
                  else Inr (True, show_outcome pid (show_card i) (upd r (set_shown (show_card i cards)) t)))"

section \<open>The rabbit hunt\<close>

definition rabbit_hunt_card_fee :: "table \<Rightarrow> int" where
  "rabbit_hunt_card_fee t = (if t_currency_mode t \<noteq> ''sandbox'' then 0 else t_small_blind t)"

definition slot_bit :: "int \<Rightarrow> 8 word" where
  "slot_bit slot = push_bit (nat slot) 1"

definition rabbit_hunt_open_slots :: "table \<Rightarrow> 8 word" where
  "rabbit_hunt_open_slots t = fold (\<lambda>slot mask. mask OR slot_bit (int slot)) [length (t_board t)..<5] 0"

definition ones_count8 :: "8 word \<Rightarrow> nat" where
  "ones_count8 w = length (filter (bit w) [0..<8])"

definition request_rabbit_hunt :: "string \<Rightarrow> int option \<Rightarrow> table \<Rightarrow> hand_error + int \<times> table" where
  "request_rabbit_hunt pid slot t =
     (if t_currency_mode t \<noteq> ''sandbox'' then Inl SandboxOnly
      else if t_stage t \<noteq> Complete then Inl NotComplete
      else if (case t_last_outcome t of None \<Rightarrow> True | Some ho \<Rightarrow> \<not> ho_won_without_showdown ho)
        then Inl NoUncontestedWin
      else if length (t_board t) \<ge> 5 then Inl BoardFull
      else if \<not> dealt_into_hand t pid then Inl (NotDealtIn pid)
      else let paid = t_rabbit_hunt_slots t pid;
               wanted = (case slot of
                   None \<Rightarrow> Inr (rabbit_hunt_open_slots t AND NOT paid)
                 | Some s \<Rightarrow>
                     if s < int (length (t_board t)) \<or> s > 4 then Inl (NotUndealtSlot s)
                     else if paid AND slot_bit s \<noteq> 0 then Inl (SlotAlreadyBought pid s)
                     else Inr (slot_bit s))
           in case wanted of
               Inl e \<Rightarrow> Inl e
             | Inr want \<Rightarrow>
                 if want = 0 then Inl (AlreadyPaid pid)
                 else case player_by_id t pid of
                     None \<Rightarrow> Inl (NotSeated pid)
                   | Some r \<Rightarrow>
                       let fee = wrap64 (t_small_blind t * int (ones_count8 want))
                       in if p_stack (pl t r) < fee then Inl InsufficientStack
                          else Inr (fee, (upd r (\<lambda>p. p\<lparr>p_stack := p_stack p - fee\<rparr>) t)
                                 \<lparr>t_rabbit_hunt_slots := (t_rabbit_hunt_slots t)(pid := paid OR want)\<rparr>))"

definition refund_rabbit_hunt :: "string \<Rightarrow> int option \<Rightarrow> table \<Rightarrow> hand_error + table" where
  "refund_rabbit_hunt pid slot t =
     (let paid = t_rabbit_hunt_slots t pid;
          wanted = (case slot of
              None \<Rightarrow> Inr paid
            | Some s \<Rightarrow> if s < 0 \<or> s > 4 then Inl (SlotOutOfRange s) else Inr (paid AND slot_bit s))
      in case wanted of
          Inl e \<Rightarrow> Inl e
        | Inr refund \<Rightarrow>
            if refund = 0 then Inl (NothingToRefund pid)
            else case player_by_id t pid of
                None \<Rightarrow> Inl (NotSeated pid)
              | Some r \<Rightarrow>
                  Inr ((upd r (\<lambda>p. p\<lparr>p_stack := p_stack p + wrap64 (t_small_blind t * int (ones_count8 refund))\<rparr>) t)
                    \<lparr>t_rabbit_hunt_slots := (t_rabbit_hunt_slots t)(pid := paid AND NOT refund)\<rparr>))"

section \<open>The winner's cards\<close>

definition winner_cards_consent_window :: int where "winner_cards_consent_window = 8000"

definition expire_pending_winner_cards :: "int \<Rightarrow> table \<Rightarrow> table" where
  "expire_pending_winner_cards now t =
     (case t_pending_winner_cards t of
        [] \<Rightarrow> t
      | req # _ \<Rightarrow> if now < wr_expires_at req then t
                    else (refund_pending_winner_cards t)\<lparr>t_winner_cards_closed := True\<rparr>)"

definition charge_request :: "string \<Rightarrow> string \<Rightarrow> pref \<Rightarrow> int \<Rightarrow> table \<Rightarrow> table" where
  "charge_request pid winner r now t =
     (let expires = (case t_pending_winner_cards t of
            [] \<Rightarrow> now + winner_cards_consent_window | req # _ \<Rightarrow> wr_expires_at req)
      in (upd r (\<lambda>p. p\<lparr>p_stack := p_stack p - t_big_blind t\<rparr>) t)
           \<lparr>t_winner_cards_asked := insert pid (t_winner_cards_asked t),
            t_pending_winner_cards := t_pending_winner_cards t @
              [\<lparr>wr_requester_id = pid, wr_winner_id = winner, wr_fee = t_big_blind t, wr_expires_at = expires\<rparr>]\<rparr>)"

definition request_winner_cards :: "string \<Rightarrow> int \<Rightarrow> table \<Rightarrow> (hand_error + int) \<times> table" where
  "request_winner_cards pid now t =
     (if t_currency_mode t \<noteq> ''sandbox'' then (Inl SandboxOnly, t)
      else if t_stage t \<noteq> Complete then (Inl NotComplete, t)
      else case t_last_outcome t of
          None \<Rightarrow> (Inl NoUncontestedWin, t)
        | Some ho \<Rightarrow>
            if \<not> ho_won_without_showdown ho then (Inl NoUncontestedWin, t)
            else if length (ho_winners ho) \<noteq> 1 then (Inl NotOneWinner, t)
            else let winner = ho_winners ho ! 0
                 in if pid = winner then (Inl WinnerCannotPay, t)
                    else case player_by_id t winner of
                        None \<Rightarrow> (Inl (WinnerGone winner), t)
                      | Some w \<Rightarrow>
                          if p_voluntarily_shown (pl t w) \<or> fst (p_voluntarily_shown_cards (pl t w)) \<or>
                             snd (p_voluntarily_shown_cards (pl t w)) then (Inl AlreadyRevealed, t)
                          else if \<not> dealt_into_hand t pid then (Inl (NotDealtIn pid), t)
                          else if pid \<in> t_winner_cards_asked t then (Inl (AlreadyAsked pid), t)
                          else let t1 = expire_pending_winner_cards now t
                               in if t_winner_cards_closed t1 then (Inl WinnerDeclined, t1)
                                  else case player_by_id t1 pid of
                                      None \<Rightarrow> (Inl (NotSeated pid), t1)
                                    | Some r \<Rightarrow>
                                        if p_stack (pl t1 r) < t_big_blind t1 then (Inl InsufficientStack, t1)
                                        else (Inr (t_big_blind t1), charge_request pid winner r now t1))"

definition pay_request :: "pref \<Rightarrow> winner_cards_request \<Rightarrow> table \<Rightarrow> table" where
  "pay_request w req t =
     (let half = go_div (wr_fee req) 2; t1 = upd w (\<lambda>p. p\<lparr>p_stack := p_stack p + half\<rparr>) t
      in t1\<lparr>t_rake_collected := t_rake_collected t1 + (wr_fee req - half),
            t_winner_cards_paid := insert (wr_requester_id req) (t_winner_cards_paid t1)\<rparr>)"

definition accept_winner_cards :: "string \<Rightarrow> int \<Rightarrow> table \<Rightarrow> hand_error option \<times> table" where
  "accept_winner_cards winner now t0 =
     (let t = expire_pending_winner_cards now t0
      in case t_pending_winner_cards t of
          [] \<Rightarrow> (Some NoRequestPending, t)
        | req # _ \<Rightarrow>
            if wr_winner_id req \<noteq> winner then (Some (NotTheWinner winner), t)
            else case player_by_id t winner of
                None \<Rightarrow> (Some (WinnerGone winner), refund_pending_winner_cards t)
              | Some w \<Rightarrow> (None, (fold (pay_request w) (t_pending_winner_cards t) t)\<lparr>t_pending_winner_cards := []\<rparr>))"

definition decline_winner_cards :: "string \<Rightarrow> table \<Rightarrow> hand_error option \<times> table" where
  "decline_winner_cards winner t =
     (case t_pending_winner_cards t of
        [] \<Rightarrow> (Some NoRequestPending, t)
      | req # _ \<Rightarrow>
          if wr_winner_id req \<noteq> winner then (Some (NotTheWinner winner), t)
          else (None, (refund_pending_winner_cards t)\<lparr>t_winner_cards_closed := True\<rparr>))"

definition expire_winner_cards :: "int \<Rightarrow> table \<Rightarrow> bool \<times> table" where
  "expire_winner_cards now t =
     (let t1 = expire_pending_winner_cards now t
      in (t_pending_winner_cards t \<noteq> [] \<and> t_pending_winner_cards t1 = [], t1))"

section \<open>The commands after a hand\<close>

inductive reveal_step :: "table \<Rightarrow> table \<Rightarrow> bool" where
  shown: "reveal_hole_card pid index t = Inr (changed, t') \<Longrightarrow> reveal_step t t'"
| hunted: "request_rabbit_hunt pid slot t = Inr (fee, t') \<Longrightarrow> reveal_step t t'"
| hunt_refunded: "refund_rabbit_hunt pid slot t = Inr t' \<Longrightarrow> reveal_step t t'"
| asked: "reveal_step t (snd (request_winner_cards pid now t))"
| accepted: "reveal_step t (snd (accept_winner_cards winner now t))"
| declined: "reveal_step t (snd (decline_winner_cards winner t))"
| expired: "reveal_step t (snd (expire_winner_cards now t))"

inductive_cases reveal_stepE: "reveal_step t t'"

text \<open>Fees held by open requests, and fees paid for the rabbit cards of seated players.\<close>

definition escrow :: "table \<Rightarrow> int" where
  "escrow t = (\<Sum>req\<leftarrow>t_pending_winner_cards t. wr_fee req)"

definition rabbit_fees :: "table \<Rightarrow> int" where
  "rabbit_fees t = t_small_blind t * (\<Sum>pid\<leftarrow>seat_ids t. int (ones_count8 (t_rabbit_hunt_slots t pid)))"

definition all_chips :: "table \<Rightarrow> int" where
  "all_chips t = seat_stacks t + t_rake_collected t + escrow t + rabbit_fees t"

text \<open>
  Seats, blinds and board stay; nobody is in debt; an open request was asked for and is neither answered
  nor doubled; a closed hand has no open request.
\<close>

definition reveal_frame :: "table \<Rightarrow> table \<Rightarrow> bool" where
  "reveal_frame t t' \<longleftrightarrow> same_seats t t' \<and> t_small_blind t' = t_small_blind t \<and> t_big_blind t' = t_big_blind t \<and>
     t_board t' = t_board t \<and> t_stage t' = t_stage t \<and> t_hand_order t' = t_hand_order t"

definition reveal_inv :: "table \<Rightarrow> bool" where
  "reveal_inv t \<longleftrightarrow> distinct (seat_ids t) \<and> (\<forall>r\<in>set (t_players t). 0 \<le> p_stack (pl t r)) \<and>
     0 < t_small_blind t \<and> t_small_blind t * 8 \<le> i64_max \<and> 0 < t_big_blind t \<and>
     (\<forall>req\<in>set (t_pending_winner_cards t). 0 < wr_fee req \<and> wr_requester_id req \<in> t_winner_cards_asked t \<and>
        wr_requester_id req \<notin> t_winner_cards_paid t) \<and>
     distinct (map wr_requester_id (t_pending_winner_cards t)) \<and> t_winner_cards_paid t \<subseteq> t_winner_cards_asked t \<and>
     (t_winner_cards_closed t \<longrightarrow> t_pending_winner_cards t = [])"

section \<open>Every command accounts for its chips\<close>

definition accounted :: "table \<Rightarrow> table \<Rightarrow> bool" where
  "accounted t t' \<longleftrightarrow> reveal_frame t t' \<and> reveal_inv t' \<and> all_chips t' = all_chips t"

lemma accounted_refl: "reveal_inv t \<Longrightarrow> accounted t t"
  by (simp add: accounted_def reveal_frame_def)

lemma reveal_frame_trans: "reveal_frame t u \<Longrightarrow> reveal_frame u v \<Longrightarrow> reveal_frame t v"
  using same_seats_trans by (auto simp: reveal_frame_def)

lemma accounted_trans: "accounted t u \<Longrightarrow> accounted u v \<Longrightarrow> accounted t v"
  using reveal_frame_trans by (auto simp: accounted_def)

text \<open>Flags and outcomes do not matter for the accounts.\<close>

lemma set_shown_fields [simp]:
  "p_id (set_shown c p) = p_id p" "p_stack (set_shown c p) = p_stack p"
  by (simp_all add: set_shown_def)

lemma shown_accounted:
  assumes inv: "reveal_inv t"
  shows "accounted t (show_outcome pid f (upd r (set_shown c) t))"
proof -
  let ?u = "upd r (set_shown c) t"
  obtain ho where u: "show_outcome pid f ?u = ?u\<lparr>t_last_outcome := ho\<rparr>"
  proof (cases "t_last_outcome t")
    case None
    then have "show_outcome pid f ?u = ?u\<lparr>t_last_outcome := None\<rparr>" by (simp add: show_outcome_def)
    then show ?thesis by (rule that)
  next
    case (Some h)
    then show ?thesis by (auto simp: show_outcome_def Let_def intro: that)
  qed
  have eq: "p_id (pl ?u q) = p_id (pl t q)" "p_stack (pl ?u q) = p_stack (pl t q)" for q
    by (simp_all add: pl_upd)
  show ?thesis
    using inv unfolding u
    by (simp add: accounted_def reveal_frame_def reveal_inv_def all_chips_def escrow_def rabbit_fees_def
        seat_stacks_def seat_ids_def same_seats_def eq)
qed

lemma reveal_accounted:
  assumes "reveal_inv t" and "reveal_hole_card pid index t = Inr (changed, t')"
  shows "accounted t t'"
  using assms
  by (auto simp: reveal_hole_card_def Let_def split: if_splits option.splits
      intro: shown_accounted accounted_refl)

text \<open>Counting bits: buying and giving returned slots.\<close>

lemma length_filter_disjoint:
  "(\<And>x. x \<in> set xs \<Longrightarrow> \<not> (P x \<and> Q x)) \<Longrightarrow>
   length (filter (\<lambda>x. P x \<or> Q x) xs) = length (filter P xs) + length (filter Q xs)"
  by (induction xs) auto

lemma ones_or:
  assumes "a AND b = 0"
  shows "ones_count8 (a OR b) = ones_count8 a + ones_count8 b"
proof -
  have "\<not> (bit a i \<and> bit b i)" for i using assms by (metis bit_and_iff bit_0_eq bot_apply bot_bool_def)
  then show ?thesis unfolding ones_count8_def bit_or_iff by (intro length_filter_disjoint) blast
qed

lemma ones_split: "ones_count8 (a AND b) + ones_count8 (a AND NOT b) = ones_count8 a"
proof -
  have "a = (a AND b) OR (a AND NOT b)" by (rule bit_word_eqI) (auto simp: bit_simps)
  moreover have "(a AND b) AND (a AND NOT b) = 0" by (rule bit_word_eqI) (auto simp: bit_simps)
  ultimately show ?thesis using ones_or [of "a AND b" "a AND NOT b"] by simp
qed

lemma ones_le: "ones_count8 w \<le> 8"
  using length_filter_le [of "bit w" "[0..<8]"] by (simp add: ones_count8_def)

lemma fee_exact:
  assumes "reveal_inv t"
  shows "wrap64 (t_small_blind t * int (ones_count8 w)) = t_small_blind t * int (ones_count8 w)"
proof (rule wrap64_id, rule in_i64_between)
  have "int (ones_count8 w) \<le> 8" using ones_le [of w] by simp
  then show "t_small_blind t * int (ones_count8 w) \<le> t_small_blind t * 8" "0 \<le> t_small_blind t * int (ones_count8 w)"
    using assms by (auto simp: reveal_inv_def intro: mult_left_mono)
  show "in_i64 (t_small_blind t * 8)" using assms by (simp add: reveal_inv_def in_i64_def i64_max_def)
qed

text \<open>Moving a fee between a seated player's stack and the player's slots.\<close>

lemma slots_accounted:
  assumes inv: "reveal_inv t" and r: "player_by_id t pid = Some r"
    and fee: "fee = t_small_blind t * (int (ones_count8 new) - int (ones_count8 (t_rabbit_hunt_slots t pid)))"
    and stack: "fee \<le> p_stack (pl t r)"
  shows "accounted t ((upd r (\<lambda>p. p\<lparr>p_stack := p_stack p - fee\<rparr>) t)
    \<lparr>t_rabbit_hunt_slots := (t_rabbit_hunt_slots t)(pid := new)\<rparr>)"
proof -
  let ?u = "(upd r (\<lambda>p. p\<lparr>p_stack := p_stack p - fee\<rparr>) t)\<lparr>t_rabbit_hunt_slots := (t_rabbit_hunt_slots t)(pid := new)\<rparr>"
  have ids: "distinct (seat_ids t)" using inv by (simp add: reveal_inv_def)
  have at: "r \<in> set (t_players t)" "p_id (pl t r) = pid" using player_by_id_Some [OF r] by auto
  have eq: "p_id (pl ?u q) = p_id (pl t q)" for q by (simp add: pl_upd)
  have seats: "seat_ids ?u = seat_ids t" by (simp add: seat_ids_def upd_field)
  have "pid \<in> set (seat_ids t)" using at by (auto simp: seat_ids_def)
  then have sums: "(\<Sum>x\<leftarrow>seat_ids t. int (ones_count8 (((t_rabbit_hunt_slots t)(pid := new)) x))) =
      (\<Sum>x\<leftarrow>seat_ids t. int (ones_count8 (t_rabbit_hunt_slots t x))) +
      (int (ones_count8 new) - int (ones_count8 (t_rabbit_hunt_slots t pid)))"
    using sum_list_fun_upd [OF ids, of "\<lambda>w. int (ones_count8 w)" "t_rabbit_hunt_slots t" pid new] by simp
  have "rabbit_fees ?u = t_small_blind t *
      (\<Sum>x\<leftarrow>seat_ids t. int (ones_count8 (((t_rabbit_hunt_slots t)(pid := new)) x)))"
    unfolding rabbit_fees_def seats by simp
  also have "\<dots> = rabbit_fees t + fee"
    unfolding sums by (simp only: rabbit_fees_def fee distrib_left)
  finally have slots: "rabbit_fees ?u = rabbit_fees t + fee" .
  have "seat_stacks ?u = seat_stacks t - fee"
    using seat_stacks_upd [OF distinct_players [OF ids], of r "\<lambda>p. p\<lparr>p_stack := p_stack p - fee\<rparr>"] at(1)
    by (simp add: seat_stacks_def)
  then have "all_chips ?u = all_chips t" using slots by (simp add: all_chips_def escrow_def)
  moreover have "0 \<le> p_stack (pl ?u q)" if "q \<in> set (t_players t)" for q
    using inv that stack by (auto simp: pl_upd reveal_inv_def)
  ultimately show ?thesis
    using inv seats by (simp add: accounted_def reveal_frame_def same_seats_def upd_field reveal_inv_def)
qed

lemma hunt_accounted:
  assumes inv: "reveal_inv t" and ok: "request_rabbit_hunt pid slot t = Inr (fee, t')"
  shows "accounted t t'" and "\<exists>r. player_by_id t pid = Some r \<and> fee \<le> p_stack (pl t r)"
proof -
  let ?paid = "t_rabbit_hunt_slots t pid"
  obtain want r where want: "?paid AND want = 0" and r: "player_by_id t pid = Some r"
    and fee: "fee = wrap64 (t_small_blind t * int (ones_count8 want))" and enough: "fee \<le> p_stack (pl t r)"
    and t': "t' = (upd r (\<lambda>p. p\<lparr>p_stack := p_stack p - fee\<rparr>) t)
      \<lparr>t_rabbit_hunt_slots := (t_rabbit_hunt_slots t)(pid := ?paid OR want)\<rparr>"
  proof -
    have disj: "?paid AND (m AND NOT ?paid) = 0" for m by (rule bit_word_eqI) (auto simp: bit_simps)
    show thesis
    proof (cases slot)
      case None
      then show ?thesis
        using ok disj that [of "rabbit_hunt_open_slots t AND NOT ?paid"]
        by (auto simp: request_rabbit_hunt_def Let_def split: if_split_asm option.split_asm)
    next
      case (Some s)
      then show ?thesis
        using ok that [of "slot_bit s"]
        by (auto simp: request_rabbit_hunt_def Let_def split: if_split_asm option.split_asm)
    qed
  qed
  have "fee = t_small_blind t * (int (ones_count8 (?paid OR want)) - int (ones_count8 ?paid))"
    using fee fee_exact [OF inv] by (simp add: ones_or [OF want])
  then show "accounted t t'" using slots_accounted [OF inv r _ enough] t' by simp
  show "\<exists>r. player_by_id t pid = Some r \<and> fee \<le> p_stack (pl t r)" using r enough by blast
qed

lemma hunt_refund_accounted:
  assumes inv: "reveal_inv t" and ok: "refund_rabbit_hunt pid slot t = Inr t'"
  shows "accounted t t'"
proof -
  let ?paid = "t_rabbit_hunt_slots t pid"
  obtain b r where r: "player_by_id t pid = Some r"
    and t': "t' = (upd r (\<lambda>p. p\<lparr>p_stack := p_stack p + wrap64 (t_small_blind t * int (ones_count8 (?paid AND b)))\<rparr>) t)
      \<lparr>t_rabbit_hunt_slots := (t_rabbit_hunt_slots t)(pid := ?paid AND NOT (?paid AND b))\<rparr>"
  proof (cases slot)
    case None
    have "?paid AND ?paid = ?paid" by simp
    then show ?thesis
      using ok None that [of _ ?paid]
      by (auto simp: refund_rabbit_hunt_def Let_def split: if_split_asm option.split_asm)
  next
    case (Some s)
    then show ?thesis
      using ok that [of _ "slot_bit s"]
      by (auto simp: refund_rabbit_hunt_def Let_def split: if_split_asm option.split_asm)
  qed
  have "?paid AND NOT (?paid AND b) = ?paid AND NOT b" by (rule bit_word_eqI) (auto simp: bit_simps)
  moreover have "int (ones_count8 (?paid AND NOT b)) - int (ones_count8 ?paid) = - int (ones_count8 (?paid AND b))"
    using ones_split [of ?paid b] by linarith
  moreover have "- (t_small_blind t * int (ones_count8 (?paid AND b))) \<le> p_stack (pl t r)"
  proof -
    have "0 \<le> p_stack (pl t r)" using inv player_by_id_Some [OF r] by (auto simp: reveal_inv_def)
    moreover have "0 \<le> t_small_blind t * int (ones_count8 (?paid AND b))" using inv by (simp add: reveal_inv_def)
    ultimately show ?thesis by linarith
  qed
  moreover define f where "f = t_small_blind t * int (ones_count8 (?paid AND b))"
  ultimately have "accounted t ((upd r (\<lambda>p. p\<lparr>p_stack := p_stack p - (- f)\<rparr>) t)
      \<lparr>t_rabbit_hunt_slots := (t_rabbit_hunt_slots t)(pid := ?paid AND NOT b)\<rparr>)"
    by (intro slots_accounted [OF inv r]) simp_all
  then show ?thesis
    using t' fee_exact [OF inv] \<open>?paid AND NOT (?paid AND b) = ?paid AND NOT b\<close> by (simp add: f_def)
qed

text \<open>An open batch: refunded, or paid to the winner.\<close>

lemma refund_one:
  assumes "distinct (seat_ids t)"
  shows "seat_stacks (refund_winner_request req t) + t_rake_collected (refund_winner_request req t) =
    seat_stacks t + t_rake_collected t + wr_fee req"
    and "seat_ids (refund_winner_request req t) = seat_ids t"
proof -
  show "seat_stacks (refund_winner_request req t) + t_rake_collected (refund_winner_request req t) =
      seat_stacks t + t_rake_collected t + wr_fee req"
  proof (cases "player_by_id t (wr_requester_id req)")
    case (Some r)
    then show ?thesis
      using player_by_id_Some [OF Some] seat_stacks_upd [OF distinct_players [OF assms], of r]
      by (simp add: refund_winner_request_def)
  qed (simp add: refund_winner_request_def seat_stacks_def)
  show "seat_ids (refund_winner_request req t) = seat_ids t"
    by (simp add: refund_winner_request_def seat_ids_def upd_field split: option.split)
qed

lemma refund_all:
  assumes "distinct (seat_ids t)"
  shows "seat_stacks (fold refund_winner_request reqs t) + t_rake_collected (fold refund_winner_request reqs t) =
    seat_stacks t + t_rake_collected t + (\<Sum>req\<leftarrow>reqs. wr_fee req)"
  using assms
proof (induction reqs arbitrary: t)
  case (Cons req reqs)
  then show ?case using refund_one [OF Cons.prems, of req] by simp
qed simp

lemma refund_batch:
  assumes inv: "reveal_inv t"
  shows "accounted t (refund_pending_winner_cards t)" and "t_pending_winner_cards (refund_pending_winner_cards t) = []"
    and "accounted t ((refund_pending_winner_cards t)\<lparr>t_winner_cards_closed := True\<rparr>)"
proof -
  let ?f = "fold refund_winner_request (t_pending_winner_cards t) t"
  have ids: "distinct (seat_ids t)" using inv by (simp add: reveal_inv_def)
  have fees: "\<forall>req\<in>set (t_pending_winner_cards t). 0 \<le> wr_fee req"
    using inv by (auto simp: reveal_inv_def intro: less_imp_le)
  note ref = refund_requests [OF ids, of "t_pending_winner_cards t"]
  obtain s k where shape: "?f = t\<lparr>t_store := s, t_rake_collected := k\<rparr>" using ref by blast
  have ge: "p_stack (pl t q) \<le> p_stack (s q)" "p_id (s q) = p_id (pl t q)" for q
    using ref fees unfolding shape by (auto simp: same_seats_def)
  have sum: "(\<Sum>r\<leftarrow>t_players t. p_stack (s r)) + k = seat_stacks t + t_rake_collected t + escrow t"
    using refund_all [OF ids, of "t_pending_winner_cards t"] unfolding shape by (simp add: seat_stacks_def escrow_def)
  have ok: "accounted t (t\<lparr>t_store := s, t_rake_collected := k, t_pending_winner_cards := [], t_winner_cards_closed := c\<rparr>)" for c
    using inv ge sum order_trans [OF _ ge(1)]
    by (auto simp: accounted_def reveal_frame_def reveal_inv_def all_chips_def escrow_def rabbit_fees_def
        seat_stacks_def seat_ids_def same_seats_def)
  have u: "refund_pending_winner_cards t = t\<lparr>t_store := s, t_rake_collected := k, t_pending_winner_cards := []\<rparr>"
    by (simp add: refund_pending_winner_cards_def shape)
  show "t_pending_winner_cards (refund_pending_winner_cards t) = []" by (simp add: u)
  show "accounted t ((refund_pending_winner_cards t)\<lparr>t_winner_cards_closed := True\<rparr>)"
    using ok [of True] by (simp add: u)
  have "refund_pending_winner_cards t = t\<lparr>t_store := s, t_rake_collected := k, t_pending_winner_cards := [],
      t_winner_cards_closed := t_winner_cards_closed t\<rparr>" by (simp add: u)
  then show "accounted t (refund_pending_winner_cards t)" using ok [of "t_winner_cards_closed t"] by simp
qed

lemma expire_accounted: "reveal_inv t \<Longrightarrow> accounted t (expire_pending_winner_cards now t)"
  using refund_batch(3) [of t] accounted_refl [of t]
  by (auto simp: expire_pending_winner_cards_def split: list.split)

text \<open>What expiry leaves: nothing asked or paid changes, and an open batch is one that has not expired.\<close>

lemma expire_frame:
  "t_winner_cards_asked (expire_pending_winner_cards now t) = t_winner_cards_asked t"
  "t_winner_cards_paid (expire_pending_winner_cards now t) = t_winner_cards_paid t"
proof -
  have "t_winner_cards_asked (fold refund_winner_request reqs t) = t_winner_cards_asked t \<and>
      t_winner_cards_paid (fold refund_winner_request reqs t) = t_winner_cards_paid t" for reqs
  proof (induction reqs arbitrary: t)
    case (Cons req reqs)
    then show ?case by (simp add: refund_winner_request_def split: option.split)
  qed simp
  then show "t_winner_cards_asked (expire_pending_winner_cards now t) = t_winner_cards_asked t"
    "t_winner_cards_paid (expire_pending_winner_cards now t) = t_winner_cards_paid t"
    by (auto simp: expire_pending_winner_cards_def refund_pending_winner_cards_def split: list.split)
qed

lemma charge_accounted:
  assumes inv: "reveal_inv t" and r: "player_by_id t pid = Some r" and enough: "t_big_blind t \<le> p_stack (pl t r)"
    and fresh: "pid \<notin> t_winner_cards_asked t" and closed: "\<not> t_winner_cards_closed t"
  shows "accounted t (charge_request pid w r now t)"
proof -
  let ?u = "charge_request pid w r now t"
  have ids: "distinct (seat_ids t)" using inv by (simp add: reveal_inv_def)
  have at: "r \<in> set (t_players t)" using player_by_id_Some [OF r] by auto
  obtain e where pend: "t_pending_winner_cards ?u = t_pending_winner_cards t @
      [\<lparr>wr_requester_id = pid, wr_winner_id = w, wr_fee = t_big_blind t, wr_expires_at = e\<rparr>]"
    by (simp add: charge_request_def Let_def)
  have frame: "t_players ?u = t_players t" "t_rake_collected ?u = t_rake_collected t" "t_small_blind ?u = t_small_blind t"
    "t_rabbit_hunt_slots ?u = t_rabbit_hunt_slots t" "t_store ?u = t_store (upd r (\<lambda>p. p\<lparr>p_stack := p_stack p - t_big_blind t\<rparr>) t)"
    "t_winner_cards_asked ?u = insert pid (t_winner_cards_asked t)" "t_winner_cards_paid ?u = t_winner_cards_paid t"
    "t_winner_cards_closed ?u = t_winner_cards_closed t" "t_big_blind ?u = t_big_blind t" "t_board ?u = t_board t"
    "t_stage ?u = t_stage t" "t_hand_order ?u = t_hand_order t"
    by (simp_all add: charge_request_def Let_def)
  have seats: "seat_ids ?u = seat_ids t" by (simp add: seat_ids_def frame upd_field)
  have "seat_stacks ?u = seat_stacks t - t_big_blind t"
    using seat_stacks_upd [OF distinct_players [OF ids], of r "\<lambda>p. p\<lparr>p_stack := p_stack p - t_big_blind t\<rparr>"] at
    by (simp add: seat_stacks_def frame)
  then have "all_chips ?u = all_chips t" by (simp add: all_chips_def escrow_def pend rabbit_fees_def seats frame)
  moreover have "0 \<le> p_stack (pl ?u q)" if "q \<in> set (t_players t)" for q
    using inv that enough by (auto simp: frame pl_upd reveal_inv_def)
  moreover have "distinct (map wr_requester_id (t_pending_winner_cards ?u))"
    using inv fresh by (auto simp: pend reveal_inv_def)
  moreover have "pid \<notin> t_winner_cards_paid t" using inv fresh by (auto simp: reveal_inv_def)
  ultimately show ?thesis
    using inv closed
    by (auto simp: accounted_def reveal_frame_def same_seats_def frame upd_field reveal_inv_def seats pend)
qed

lemma ask_accounted:
  assumes inv: "reveal_inv t"
  shows "accounted t (snd (request_winner_cards pid now t))"
proof -
  let ?e = "expire_pending_winner_cards now t"
  note e = expire_accounted [OF inv, of now]
  have inv': "reveal_inv ?e" using e by (simp add: accounted_def)
  have charge: "accounted t (charge_request pid w r now ?e)"
    if "player_by_id ?e pid = Some r" "\<not> p_stack (pl ?e r) < t_big_blind ?e" "pid \<notin> t_winner_cards_asked t"
      "\<not> t_winner_cards_closed ?e" for w r
    using charge_accounted [OF inv' that(1)] that accounted_trans [OF e] by (simp add: expire_frame)
  show ?thesis
    using e accounted_refl [OF inv] charge
    by (auto simp: request_winner_cards_def Let_def split: option.split)
qed

lemma pay_all:
  assumes "distinct (seat_ids t)" and "w \<in> set (t_players t)" and "\<forall>req\<in>set reqs. 0 < wr_fee req"
  shows "seat_stacks (fold (pay_request w) reqs t) + t_rake_collected (fold (pay_request w) reqs t) =
      seat_stacks t + t_rake_collected t + (\<Sum>req\<leftarrow>reqs. wr_fee req) \<and>
    (\<forall>q. p_stack (pl t q) \<le> p_stack (pl (fold (pay_request w) reqs t) q) \<and>
       p_id (pl (fold (pay_request w) reqs t) q) = p_id (pl t q)) \<and>
    (\<exists>s k. fold (pay_request w) reqs t = t\<lparr>t_store := s, t_rake_collected := k,
       t_winner_cards_paid := t_winner_cards_paid t \<union> wr_requester_id ` set reqs\<rparr>)"
  using assms
proof (induction reqs arbitrary: t)
  case Nil
  have "\<exists>s k. t = t\<lparr>t_store := s, t_rake_collected := k, t_winner_cards_paid := t_winner_cards_paid t\<rparr>"
    by (rule exI [of _ "t_store t"], rule exI [of _ "t_rake_collected t"]) simp
  then show ?case by simp
next
  case (Cons req reqs)
  let ?u = "pay_request w req t" and ?h = "go_div (wr_fee req) 2"
  have h: "0 \<le> ?h" using Cons.prems(3) by (simp add: go_div_nonneg)
  have u: "?u = t\<lparr>t_store := t_store (upd w (\<lambda>p. p\<lparr>p_stack := p_stack p + ?h\<rparr>) t),
      t_rake_collected := t_rake_collected t + (wr_fee req - ?h),
      t_winner_cards_paid := insert (wr_requester_id req) (t_winner_cards_paid t)\<rparr>"
    by (simp add: pay_request_def Let_def upd_def)
  have ids: "seat_ids ?u = seat_ids t" by (simp add: pay_request_def Let_def seat_ids_def upd_field)
  have sum: "seat_stacks ?u + t_rake_collected ?u = seat_stacks t + t_rake_collected t + wr_fee req"
  proof -
    have "seat_stacks ?u = seat_stacks (upd w (\<lambda>p. p\<lparr>p_stack := p_stack p + ?h\<rparr>) t)"
      by (simp add: pay_request_def Let_def seat_stacks_def)
    then show ?thesis
      using seat_stacks_upd [OF distinct_players [OF Cons.prems(1)], of w "\<lambda>p. p\<lparr>p_stack := p_stack p + ?h\<rparr>"] Cons.prems(2)
      by (simp add: pay_request_def Let_def)
  qed
  have each: "p_stack (pl t q) \<le> p_stack (pl ?u q)" "p_id (pl ?u q) = p_id (pl t q)" for q
    using h by (simp_all add: pay_request_def Let_def pl_upd)
  have "distinct (seat_ids ?u)" "w \<in> set (t_players ?u)" "\<forall>req\<in>set reqs. 0 < wr_fee req"
    using Cons.prems ids by (simp_all add: pay_request_def Let_def)
  note ih = Cons.IH [OF this]
  obtain s k where "fold (pay_request w) reqs ?u = ?u\<lparr>t_store := s, t_rake_collected := k,
      t_winner_cards_paid := t_winner_cards_paid ?u \<union> wr_requester_id ` set reqs\<rparr>" using ih by blast
  then have "fold (pay_request w) reqs ?u = t\<lparr>t_store := s, t_rake_collected := k,
      t_winner_cards_paid := t_winner_cards_paid t \<union> wr_requester_id ` set (req # reqs)\<rparr>"
    unfolding u by simp
  then have "\<exists>s k. fold (pay_request w) (req # reqs) t = t\<lparr>t_store := s, t_rake_collected := k,
      t_winner_cards_paid := t_winner_cards_paid t \<union> wr_requester_id ` set (req # reqs)\<rparr>" by auto
  moreover have "p_stack (pl t q) \<le> p_stack (pl (fold (pay_request w) reqs ?u) q)" for q
    using ih each(1) [of q] order_trans by blast
  ultimately show ?case using ih sum each(2) by simp
qed

lemma accept_accounted:
  assumes inv: "reveal_inv t"
  shows "accounted t (snd (accept_winner_cards winner now t))"
proof -
  let ?e = "expire_pending_winner_cards now t"
  note e = expire_accounted [OF inv, of now]
  have inv': "reveal_inv ?e" using e by (simp add: accounted_def)
  have ids: "distinct (seat_ids ?e)" using inv' by (simp add: reveal_inv_def)
  have paid: "accounted t ((fold (pay_request w) (t_pending_winner_cards ?e) ?e)\<lparr>t_pending_winner_cards := []\<rparr>)"
    if w: "player_by_id ?e winner = Some w" for w
  proof -
    let ?reqs = "t_pending_winner_cards ?e"
    have "w \<in> set (t_players ?e)" "\<forall>req\<in>set ?reqs. 0 < wr_fee req"
      using inv' player_by_id_Some [OF w] by (auto simp: reveal_inv_def)
    note pay = pay_all [OF ids this]
    obtain s k where shape: "fold (pay_request w) ?reqs ?e = ?e\<lparr>t_store := s, t_rake_collected := k,
        t_winner_cards_paid := t_winner_cards_paid ?e \<union> wr_requester_id ` set ?reqs\<rparr>" using pay by blast
    have ge: "p_stack (pl ?e q) \<le> p_stack (s q)" "p_id (s q) = p_id (pl ?e q)" for q
      using pay unfolding shape by simp_all
    have "(\<Sum>r\<leftarrow>t_players ?e. p_stack (s r)) + k = seat_stacks ?e + t_rake_collected ?e + escrow ?e"
      using pay unfolding shape by (simp add: seat_stacks_def escrow_def)
    then have "accounted ?e ((fold (pay_request w) ?reqs ?e)\<lparr>t_pending_winner_cards := []\<rparr>)"
      using inv' ge order_trans [OF _ ge(1)] unfolding shape
      by (auto simp: accounted_def reveal_frame_def reveal_inv_def all_chips_def escrow_def rabbit_fees_def
          seat_stacks_def seat_ids_def same_seats_def)
    then show ?thesis by (rule accounted_trans [OF e])
  qed
  have returned: "accounted t (refund_pending_winner_cards ?e)"
    by (rule accounted_trans [OF e refund_batch(1) [OF inv']])
  show ?thesis
    using e paid returned by (auto simp: accept_winner_cards_def Let_def split: list.split option.split)
qed

lemma decline_accounted:
  assumes inv: "reveal_inv t"
  shows "accounted t (snd (decline_winner_cards winner t))"
  using refund_batch(3) [OF inv] accounted_refl [OF inv]
  by (auto simp: decline_winner_cards_def split: list.split)

lemma reveal_step_accounted: "reveal_step t t' \<Longrightarrow> reveal_inv t \<Longrightarrow> accounted t t'"
  by (elim reveal_stepE)
    (auto simp: expire_winner_cards_def Let_def intro: reveal_accounted hunt_accounted(1) hunt_refund_accounted
      ask_accounted accept_accounted decline_accounted expire_accounted)

section \<open>Properties\<close>

text \<open>C14: after a hand, showing and buying cards is accounted for to the last chip. However many of its
  commands run, in whatever order, with whatever arguments and however they end, the stacks, the rake,
  the fees held for open requests and the fees paid for rabbit cards add up to the same total; no stack
  goes below zero, seats and board stay, and a player who has asked for the winner's cards once in the
  hand is refused every further request.\<close>

theorem paid_reveals_account:
  assumes "reveal_inv t" and "reveal_step\<^sup>*\<^sup>* t t'"
  shows "all_chips t' = all_chips t \<and> reveal_inv t' \<and> same_seats t t' \<and> t_board t' = t_board t \<and>
    (\<forall>r\<in>set (t_players t'). 0 \<le> p_stack (pl t' r)) \<and>
    (\<forall>pid now. pid \<in> t_winner_cards_asked t' \<longrightarrow> (\<exists>e. fst (request_winner_cards pid now t') = Inl e))"
proof -
  have "accounted t t'"
    using assms(2)
  proof (induction rule: rtranclp_induct)
    case base
    then show ?case by (rule accounted_refl [OF assms(1)])
  next
    case (step u v)
    then show ?case
      using accounted_trans [OF step.IH reveal_step_accounted [OF step.hyps(2)]] by (simp add: accounted_def)
  qed
  moreover have "\<exists>e. fst (request_winner_cards pid now t') = Inl e" if "pid \<in> t_winner_cards_asked t'" for pid now
    using that by (auto simp: request_winner_cards_def Let_def split: option.split)
  ultimately show ?thesis by (simp add: accounted_def reveal_frame_def reveal_inv_def)
qed

lemma hunt_slot:
  assumes "request_rabbit_hunt pid (Some s) t = Inr (fee, t')"
  shows "0 \<le> s \<and> s \<le> 4 \<and> t_rabbit_hunt_slots t pid AND slot_bit s = 0 \<and>
    (\<exists>r. player_by_id t pid = Some r \<and> fee = wrap64 (t_small_blind t * int (ones_count8 (slot_bit s))) \<and>
      t' = (upd r (\<lambda>p. p\<lparr>p_stack := p_stack p - fee\<rparr>) t)
        \<lparr>t_rabbit_hunt_slots := (t_rabbit_hunt_slots t)(pid := t_rabbit_hunt_slots t pid OR slot_bit s)\<rparr>)"
  using assms by (simp add: request_rabbit_hunt_def Let_def split: if_split_asm option.split_asm) auto

text \<open>A sandbox hand won before the flop: \<open>b\<close> took the blinds, \<open>a\<close> and \<open>c\<close> folded.\<close>

definition folded_outcome :: hand_outcome where
  "folded_outcome = \<lparr>ho_winners = [''b''], ho_winning_category = '''', ho_won_without_showdown = True,
     ho_comeback_winners = [], ho_all_in_players = {}, ho_participants = [''a'', ''b'', ''c''],
     ho_payouts = [(''b'', 15)], ho_contributions = [(''b'', 5), (''c'', 10)], ho_pot_results = [],
     ho_board = [], ho_board_two = [], ho_player_hands = Map.empty, ho_small_blind = 5, ho_big_blind = 10,
     ho_variant = '''', ho_showdown_results = Map.empty, ho_server_seed = '''', ho_commit_hash = '''',
     ho_root_commit_hash = '''', ho_fairness_proofs = Map.empty\<rparr>"

definition folded_table :: table where
  "folded_table = preflop_table\<lparr>t_stage := Complete, t_currency_mode := ''sandbox'', t_small_blind := 5,
     t_last_outcome := Some folded_outcome\<rparr>"

lemma folded_fields:
  "t_players folded_table = [0, Suc 0, 2]" "t_hand_order folded_table = [0, Suc 0, 2]"
  "t_stage folded_table = Complete" "t_currency_mode folded_table = ''sandbox''"
  "t_small_blind folded_table = 5" "t_big_blind folded_table = 10" "t_board folded_table = []"
  "t_last_outcome folded_table = Some folded_outcome" "t_pending_winner_cards folded_table = []"
  "t_winner_cards_asked folded_table = {}" "t_winner_cards_paid folded_table = {}"
  "\<not> t_winner_cards_closed folded_table" "t_rabbit_hunt_slots folded_table = (\<lambda>_. 0)"
  "t_rake_collected folded_table = 0"
  "pl folded_table 0 = sample_player ''a'' 1000 0 Active (Card 14 0, Card 13 0)"
  "pl folded_table (Suc 0) = sample_player ''b'' 995 5 Active (Card 7 1, Card 2 2)"
  "pl folded_table 2 = sample_player ''c'' 990 10 Active (Card 9 0, Card 9 1)"
  by (simp_all add: folded_table_def preflop_fields)
    (simp_all add: preflop_table_def new_table_def new_table_with_variant_def)

lemma folded_inv: "reveal_inv folded_table"
  by (simp add: reveal_inv_def folded_fields seat_ids_def i64_max_def)

lemma folded_request:
  "\<exists>t'. request_winner_cards ''a'' now folded_table = (Inr 10, t') \<and> t_winner_cards_asked t' = {''a''}"
  by (simp add: request_winner_cards_def folded_fields folded_outcome_def player_by_id_def dealt_into_hand_def
      expire_pending_winner_cards_def charge_request_def Let_def) (simp add: sample_player_def no_player_def)

lemma paid_reveals_account_witness:
  "\<exists>t'. reveal_step\<^sup>*\<^sup>* folded_table t' \<and> all_chips t' = 2985 \<and>
     (\<exists>e. fst (request_winner_cards ''a'' 1 t') = Inl e)"
proof -
  obtain t' where t': "request_winner_cards ''a'' 0 folded_table = (Inr 10, t')" "t_winner_cards_asked t' = {''a''}"
    using folded_request by blast
  have "reveal_step\<^sup>*\<^sup>* folded_table t'" using reveal_step.asked [of folded_table "''a''" 0] t'(1) by auto
  moreover have "all_chips folded_table = 2985"
    by (simp add: all_chips_def seat_stacks_def escrow_def rabbit_fees_def folded_fields seat_ids_def ones_count8_def)
  ultimately show ?thesis
    using paid_reveals_account [OF folded_inv, of t'] t'(2) by (intro exI [of _ t']) auto
qed

text \<open>C37: a rabbit card is refunded at the blind of the day, not at the price paid. If the blinds go up
  between the purchase of a card and its refund, the refund is accepted and hands out the difference:
  chips that nobody put in.\<close>

theorem rabbit_refund_after_escalation:
  assumes inv: "reveal_inv t" and buy: "request_rabbit_hunt pid (Some s) t = Inr (fee, t1)"
    and up: "t2 = escalate_blinds pct limit t1" and room: "in_i64 (t_small_blind t2)"
  shows "\<exists>t3. refund_rabbit_hunt pid (Some s) t2 = Inr t3 \<and>
    seat_stacks t3 + t_rake_collected t3 = seat_stacks t + t_rake_collected t + (t_small_blind t2 - t_small_blind t)"
proof -
  let ?paid = "t_rabbit_hunt_slots t pid"
  obtain r where s: "0 \<le> s" "s \<le> 4" and free: "?paid AND slot_bit s = 0" and r: "player_by_id t pid = Some r"
    and t1: "t1 = (upd r (\<lambda>p. p\<lparr>p_stack := p_stack p - fee\<rparr>) t)
      \<lparr>t_rabbit_hunt_slots := (t_rabbit_hunt_slots t)(pid := ?paid OR slot_bit s)\<rparr>"
    and fee: "fee = wrap64 (t_small_blind t * int (ones_count8 (slot_bit s)))"
    using hunt_slot [OF buy] by blast
  have "s = 0 \<or> s = 1 \<or> s = 2 \<or> s = 3 \<or> s = 4" using s by auto
  then have one: "ones_count8 (slot_bit s) = 1" "slot_bit s \<noteq> 0"
    by (auto simp: ones_count8_def slot_bit_def upt_rec)
  have own: "(?paid OR slot_bit s) AND slot_bit s = slot_bit s" by (rule bit_word_eqI) (auto simp: bit_simps)
  obtain a b where t2: "t2 = t1\<lparr>t_small_blind := a, t_big_blind := b\<rparr>"
  proof
    show "t2 = t1\<lparr>t_small_blind := t_small_blind t2, t_big_blind := t_big_blind t2\<rparr>"
      by (simp add: up escalate_blinds_def Let_def)
  qed
  have ids: "distinct (seat_ids t)" using inv by (simp add: reveal_inv_def)
  have same: "player_by_id t2 pid = Some r"
    using r same_seats_by_id [of t t2 pid] by (simp add: t2 t1 same_seats_def upd_field)
  have at: "r \<in> set (t_players t)" using player_by_id_Some [OF r] by auto
  have fee': "fee = t_small_blind t" using fee one(1) inv
    by (simp add: wrap64_id reveal_inv_def in_i64_def i64_max_def)
  let ?t3 = "(upd r (\<lambda>p. p\<lparr>p_stack := p_stack p + a\<rparr>) t2)
    \<lparr>t_rabbit_hunt_slots := (t_rabbit_hunt_slots t2)(pid := (?paid OR slot_bit s) AND NOT (slot_bit s))\<rparr>"
  have "wrap64 a = a" using room t2 by (simp add: wrap64_id)
  then have "refund_rabbit_hunt pid (Some s) t2 = Inr ?t3"
    using s same own one by (simp add: refund_rabbit_hunt_def Let_def) (simp add: t2 t1 own one)
  moreover have "seat_stacks ?t3 = seat_stacks t - fee + a"
  proof -
    have d: "distinct (t_players t)" by (rule distinct_players [OF ids])
    have "seat_stacks ?t3 = seat_stacks (upd r (\<lambda>p. p\<lparr>p_stack := p_stack p - fee + a\<rparr>) t)"
      unfolding seat_stacks_def by (simp add: t2 t1 upd_def fun_upd_def cong: if_cong)
    then show ?thesis using seat_stacks_upd [OF d, of r "\<lambda>p. p\<lparr>p_stack := p_stack p - fee + a\<rparr>"] at by simp
  qed
  moreover have "t_rake_collected ?t3 = t_rake_collected t" by (simp add: t2 t1)
  ultimately show ?thesis using fee' by (intro exI [of _ ?t3]) (simp add: t2)
qed

lemma rabbit_refund_after_escalation_witness:
  "\<exists>t1 t3. request_rabbit_hunt ''a'' (Some 0) folded_table = Inr (5, t1) \<and>
     refund_rabbit_hunt ''a'' (Some 0) (escalate_blinds 200 1000 t1) = Inr t3 \<and> seat_stacks t3 = 2990"
proof -
  have buy: "\<exists>t1. request_rabbit_hunt ''a'' (Some 0) folded_table = Inr (5, t1) \<and>
      t_small_blind t1 = 5 \<and> t_big_blind t1 = 10"
    by (simp add: request_rabbit_hunt_def folded_fields folded_outcome_def player_by_id_def dealt_into_hand_def
        Let_def slot_bit_def ones_count8_def upt_rec wrap64_id in_i64_def i64_max_def)
  then obtain t1 where t1: "request_rabbit_hunt ''a'' (Some 0) folded_table = Inr (5, t1)"
    "t_small_blind t1 = 5" "t_big_blind t1 = 10" by blast
  have up: "t_small_blind (escalate_blinds 200 1000 t1) = 10"
    by (simp add: escalate_blinds_def t1 Let_def wrap64_id in_i64_def i64_max_def go_div_nonneg)
  have total: "seat_stacks folded_table = 2985" by (simp add: seat_stacks_def folded_fields)
  have rake: "t_rake_collected (t') = 0" if "refund_rabbit_hunt ''a'' (Some 0) (escalate_blinds 200 1000 t1) = Inr t'" for t'
  proof -
    have "t_rake_collected t1 = 0"
      using t1(1) folded_fields(14) by (auto simp: request_rabbit_hunt_def Let_def split: if_splits option.splits)
    then show ?thesis
      using that by (auto simp: refund_rabbit_hunt_def Let_def escalate_blinds_def split: if_splits option.splits)
  qed
  show ?thesis
    using rabbit_refund_after_escalation [OF folded_inv t1(1) refl, of 200 1000] t1(1) up rake total
    by (auto simp: in_i64_def i64_max_def folded_fields)
qed

end
