(* ===== verification/Hand_Snapshot.thy ===== *)
theory Hand_Snapshot
  imports Paid_Reveals
begin

text \<open>
  What a viewer gets to see, \<open>api/internal/engine/hand/snapshot.go\<close>: \<open>ViewFor\<close> with the seats, the
  legal moves, the pots and the fairness proof. The fields of \<open>Snapshot\<close> and \<open>SeatView\<close> that other
  packages fill in later (connection state, equity, streaks, deadlines, chat, reactions, versions) are
  left out of the records. \<open>ViewFor\<close> also gives every seat its initial time bank, so the view comes with
  the table after the call.
\<close>

section \<open>Views\<close>

record legal_actions =
  la_actions :: "string list"
  la_call_amount :: int
  la_min_raise_to :: int
  la_max_raise_to :: int
  la_step :: int
  la_current_contribution :: int
  la_current_bet :: int
  la_one_third_pot_raise_to :: int
  la_half_pot_raise_to :: int
  la_two_thirds_pot_raise_to :: int
  la_pot_raise_to :: int

record pot_view =
  pv_amount :: int
  pv_eligible_player_ids :: "string list"

record winner_request_view =
  wv_requester_id :: string
  wv_requester_name :: string
  wv_requester_avatar_url :: string
  wv_winner_id :: string
  wv_fee :: int
  wv_expires_at :: int

record seat_view =
  sw_player_id :: string
  sw_name :: string
  sw_avatar_url :: string
  sw_playstyle_badge :: string
  sw_stack :: int
  sw_state :: string
  sw_dealt_in :: bool
  sw_ready :: bool
  sw_pending_exit :: bool
  sw_contributed :: int
  sw_hole_cards :: "string list"
  sw_hole_cards_revealed :: "bool \<times> bool"
  sw_stack_at_hand_start :: "int option"
  sw_hand_category :: string
  sw_hand_score :: nat
  sw_time_bank_ms :: int
  sw_run_it_twice :: bool
  sw_auto_rebuy :: bool
  sw_buy_in_amount :: int

record snapshot =
  sn_stage :: string
  sn_board :: "string list"
  sn_board_two :: "string list"
  sn_board_split_at :: nat
  sn_seats :: "seat_view list"
  sn_payouts :: "(string \<times> int) list"
  sn_winners :: "string list"
  sn_rake :: int
  sn_current_player_id :: string
  sn_legal_actions :: "legal_actions option"
  sn_won_without_showdown :: bool
  sn_shuffle_commit_hash :: string
  sn_shuffle_server_seed_hex :: string
  sn_root_commit_hash :: string
  sn_revealed_card_salts :: "nat \<rightharpoonup> revealed_salt"
  sn_unrevealed_card_hashes :: "nat \<rightharpoonup> string"
  sn_runout_cards :: "string list"
  sn_rabbit_cards :: "nat \<rightharpoonup> string"
  sn_rabbit_hunt_fee :: int
  sn_small_blind_player_id :: string
  sn_big_blind_player_id :: string
  sn_dealer_player_id :: string
  sn_pots :: "pot_view list"
  sn_pot_results :: "pot_result list"
  sn_prospective_call_amount :: int
  sn_winner_cards_requests :: "winner_request_view list"
  sn_pending_winner_cards :: "winner_request_view option"
  sn_winner_cards_closed :: bool

fun stage_name :: "stage \<Rightarrow> string" where
  "stage_name WaitingForPlayers = ''waiting_for_players''"
| "stage_name PreFlop = ''pre_flop''"
| "stage_name Flop = ''flop''"
| "stage_name Turn = ''turn''"
| "stage_name River = ''river''"
| "stage_name Showdown = ''showdown''"
| "stage_name Complete = ''complete''"

fun player_state_name :: "player_state \<Rightarrow> string" where
  "player_state_name Active = ''active''"
| "player_state_name Folded = ''folded''"
| "player_state_name AllIn = ''all_in''"
| "player_state_name SittingOut = ''sitting_out''"
| "player_state_name Disconnected = ''disconnected''"
| "player_state_name PendingEntry = ''pending_entry''"

section \<open>Categories of unfinished hands\<close>

text \<open>Fewer than five cards: the ranks that repeat decide.\<close>

definition category_from_rank_counts :: "card list \<Rightarrow> nat" where
  "category_from_rank_counts cards =
     (let counts = map (\<lambda>r. length (filter (\<lambda>c. rank c = r) cards)) (remdups (map rank cards));
          best = fold max counts 0; pairs = length (filter (\<lambda>n. n = 2) counts)
      in category_number (if best \<ge> 4 then FourOfAKind else if best = 3 then ThreeOfAKind
           else if pairs \<ge> 2 then TwoPair else if pairs = 1 then Pair else HighCard))"

definition partial_category :: "card list \<Rightarrow> card list \<Rightarrow> nat option" where
  "partial_category hole board =
     (let cards = hole @ board
      in if length cards < 5 then Some (category_from_rank_counts cards)
         else map_option (\<lambda>s. unat (drop_bit 24 s)) (best_n cards))"

section \<open>Seats\<close>

definition won_without :: "table \<Rightarrow> bool" where
  "won_without t \<longleftrightarrow> t_stage t = Complete \<and>
     (case t_last_outcome t of None \<Rightarrow> False | Some ho \<Rightarrow> ho_won_without_showdown ho)"

definition reveal_all :: "table \<Rightarrow> bool" where
  "reveal_all t \<longleftrightarrow> t_stage t = Complete \<and> t_last_outcome t \<noteq> None \<and> \<not> won_without t"

definition sole_winner :: "table \<Rightarrow> string" where
  "sole_winner t = (case t_last_outcome t of
      None \<Rightarrow> ''''
    | Some ho \<Rightarrow> if won_without t \<and> length (ho_winners ho) = 1 then ho_winners ho ! 0 else '''')"

definition evaluation_board :: "table \<Rightarrow> card list" where
  "evaluation_board t = (if t_run_it_twice t \<and> t_runout_phase t = 2 then second_board t else t_board t)"

definition public_reveal :: "table \<Rightarrow> player \<Rightarrow> bool \<times> bool" where
  "public_reveal t p =
     (if reveal_all t \<and> p_state p \<noteq> Folded then (True, True)
      else (p_voluntarily_shown p \<or> fst (p_voluntarily_shown_cards p),
            p_voluntarily_shown p \<or> snd (p_voluntarily_shown_cards p)))"

definition paid_winner_reveal :: "string \<Rightarrow> table \<Rightarrow> player \<Rightarrow> bool" where
  "paid_winner_reveal viewer t p \<longleftrightarrow> p_id p = sole_winner t \<and> viewer \<in> t_winner_cards_paid t"

text \<open>Whether the viewer may see the first and the second hole card.\<close>

definition may_see :: "string \<Rightarrow> table \<Rightarrow> player \<Rightarrow> bool \<times> bool" where
  "may_see viewer t p =
     (let open_cards = public_reveal t p; paid = paid_winner_reveal viewer t p
      in (p_id p = viewer \<or> fst open_cards \<or> paid, p_id p = viewer \<or> snd open_cards \<or> paid))"

definition hole_view :: "string \<Rightarrow> table \<Rightarrow> player \<Rightarrow> string list" where
  "hole_view viewer t p =
     (let see = may_see viewer t p
      in if dealt_into_current_hand t (p_id p) \<and> (fst see \<or> snd see)
         then [if fst see then card_code (fst (p_hole_cards p)) else ''back'',
               if snd see then card_code (snd (p_hole_cards p)) else ''back'']
         else [])"

definition full_score :: "score_tables \<Rightarrow> table \<Rightarrow> player \<Rightarrow> nat option" where
  "full_score T t p = do {
     let full = full_hand p (evaluation_board t);
     score \<leftarrow> table_best7 T t full;
     if t_stage t = Complete \<and> t_run_it_twice t \<and> length (t_board t) = 5
     then map_option (max score) (table_best7 T t (copy_board full (t_board t)))
     else Some score
   }"

text \<open>The category and score shown next to a seat, from the cards the viewer knows only.\<close>

definition strength_view :: "score_tables \<Rightarrow> string \<Rightarrow> table \<Rightarrow> player \<Rightarrow> (string \<times> nat) option" where
  "strength_view T viewer t p =
     (let see = may_see viewer t p; board = evaluation_board t
      in if \<not> dealt_into_current_hand t (p_id p) then Some ('''', 0)
         else if fst see \<and> snd see \<and> length board = 5
         then map_option (\<lambda>score. (category_names (table_category_of T t score), score)) (full_score T t p)
         else if is_betting_stage (t_stage t) \<or> (t_stage t = Complete \<and> length board = 5)
         then let known = (if fst see then [fst (p_hole_cards p)] else []) @
                          (if snd see then [snd (p_hole_cards p)] else [])
              in if known = [] then Some ('''', 0)
                 else map_option (\<lambda>c. (category_names c, 0)) (partial_category known board)
         else Some ('''', 0))"

definition view_seat :: "score_tables \<Rightarrow> string \<Rightarrow> table \<Rightarrow> pref \<Rightarrow> seat_view option" where
  "view_seat T viewer t r = do {
     let p = pl t r;
     let own = (p_id p = viewer);
     let open_cards = public_reveal t p;
     let paid = paid_winner_reveal viewer t p;
     strength \<leftarrow> strength_view T viewer t p;
     Some \<lparr>sw_player_id = p_id p, sw_name = p_name p, sw_avatar_url = p_avatar_url p,
       sw_playstyle_badge = p_playstyle_badge p, sw_stack = p_stack p,
       sw_state = player_state_name (p_state p), sw_dealt_in = dealt_into_current_hand t (p_id p),
       sw_ready = p_ready p, sw_pending_exit = p_pending_exit p, sw_contributed = p_contributed p,
       sw_hole_cards = hole_view viewer t p,
       sw_hole_cards_revealed = (fst open_cards \<or> paid, snd open_cards \<or> paid),
       sw_stack_at_hand_start = p_hand_start_stack p,
       sw_hand_category = fst strength, sw_hand_score = snd strength,
       sw_time_bank_ms = snd (time_bank (p_id p) t),
       sw_run_it_twice = (own \<and> p_run_it_twice p), sw_auto_rebuy = (own \<and> p_auto_rebuy p),
       sw_buy_in_amount = (if own then p_buy_in_amount p else 0)\<rparr>
   }"

section \<open>Pots and moves\<close>

definition merge_pot :: "pot_layer \<Rightarrow> pot_view list \<Rightarrow> pot_view list" where
  "merge_pot layer out =
     (if pl_uncalled layer \<and> out \<noteq> []
      then (hd out)\<lparr>pv_amount := pv_amount (hd out) + pl_amount layer\<rparr> # tl out
      else out @ [\<lparr>pv_amount = pl_amount layer, pv_eligible_player_ids = pl_eligible layer\<rparr>])"

definition pot_views :: "table \<Rightarrow> pot_view list" where
  "pot_views t = fold merge_pot (compute_side_pots (showdown_contributions t)) []"

definition prospective_call_amount :: "table \<Rightarrow> string \<Rightarrow> int option" where
  "prospective_call_amount t pid =
     (if \<not> is_betting_stage (t_stage t) then Some 0
      else case (t_round t, t_round_idx t pid) of
          (Some r, Some i) \<Rightarrow>
            if i \<ge> length (rd_players r) then None
            else let p = rd_players r ! i
                 in Some (if bp_folded p \<or> bp_all_in p then 0 else max 0 (rd_current_bet r - bp_contributed p))
        | _ \<Rightarrow> Some 0)"

definition all_in_amount :: "table \<Rightarrow> string \<Rightarrow> (int \<times> bool) option" where
  "all_in_amount t pid =
     (if \<not> is_betting_stage (t_stage t) then Some (0, False)
      else case (t_round t, t_round_idx t pid) of
          (Some r, Some i) \<Rightarrow>
            if i \<ge> length (rd_players r) then None
            else let p = rd_players r ! i
                 in Some (if bp_folded p \<or> bp_all_in p then (0, False) else (bp_contributed p + bp_stack p, True))
        | _ \<Rightarrow> Some (0, False))"

definition pot_fraction_raise_to :: "table \<Rightarrow> bet_player \<Rightarrow> int \<Rightarrow> int \<Rightarrow> int \<Rightarrow> int \<Rightarrow> int \<Rightarrow> int" where
  "pot_fraction_raise_to t bs owed0 min_to max_to num den =
     (if den \<le> 0 then min_to
      else let owed = (if owed0 < 0 then 0 else owed0);
               pot = (\<Sum>r\<leftarrow>t_hand_order t. p_contributed (pl t r));
               target0 = bp_contributed bs + owed + go_div (wrap64 ((pot + owed) * num)) den;
               target1 = (if target0 < min_to then min_to else target0)
           in if target1 > max_to then max_to else target1)"

definition no_legal_actions :: legal_actions where
  "no_legal_actions = \<lparr>la_actions = [], la_call_amount = 0, la_min_raise_to = 0, la_max_raise_to = 0,
     la_step = 0, la_current_contribution = 0, la_current_bet = 0, la_one_third_pot_raise_to = 0,
     la_half_pot_raise_to = 0, la_two_thirds_pot_raise_to = 0, la_pot_raise_to = 0\<rparr>"

definition offer_raise :: "table \<Rightarrow> bet_round \<Rightarrow> bet_player \<Rightarrow> legal_actions \<Rightarrow> legal_actions" where
  "offer_raise t r bs la =
     (let owed = rd_current_bet r - bp_contributed bs;
          min0 = rd_current_bet r + rd_min_raise r;
          min1 = (if min0 \<le> rd_current_bet r then rd_current_bet r + t_big_blind t else min0);
          max_to = bp_contributed bs + bp_stack bs;
          min_to = (if min1 > max_to then max_to else min1);
          frac = pot_fraction_raise_to t bs owed min_to max_to
      in la\<lparr>la_actions := la_actions la @ [''raise''], la_min_raise_to := min_to, la_max_raise_to := max_to,
           la_step := (if t_big_blind t \<le> 0 then 1 else t_big_blind t),
           la_one_third_pot_raise_to := frac 1 3, la_half_pot_raise_to := frac 1 2,
           la_two_thirds_pot_raise_to := frac 2 3, la_pot_raise_to := frac 1 1\<rparr>)"

text \<open>The outer \<open>None\<close> is a panic, the inner one the nil between hands.\<close>

definition legal_actions_for :: "table \<Rightarrow> string \<Rightarrow> string \<Rightarrow> legal_actions option option" where
  "legal_actions_for t viewer current =
     (if \<not> is_betting_stage (t_stage t) then Some None
      else case t_round t of
          None \<Rightarrow> Some None
        | Some r \<Rightarrow>
            if current \<noteq> viewer then Some (Some no_legal_actions)
            else case t_round_idx t viewer of
                None \<Rightarrow> Some (Some no_legal_actions)
              | Some i \<Rightarrow>
                  if i \<ge> length (rd_players r) then None
                  else let bs = rd_players r ! i; owed = rd_current_bet r - bp_contributed bs
                       in if bp_folded bs \<or> bp_all_in bs then Some (Some no_legal_actions)
                          else let la = no_legal_actions
                                     \<lparr>la_actions := [''fold'', if owed \<le> 0 then ''check'' else ''call''],
                                      la_call_amount := (if owed \<le> 0 then 0 else owed),
                                      la_current_contribution := bp_contributed bs,
                                      la_current_bet := rd_current_bet r\<rparr>
                               in Some (Some (if \<not> bp_acted bs \<and> bp_contributed bs + bp_stack bs > rd_current_bet r
                                              then offer_raise t r bs la else la)))"

section \<open>The fairness proof of a completed hand\<close>

definition board_slot_deck_index :: "nat \<Rightarrow> nat \<Rightarrow> nat" where
  "board_slot_deck_index holes slot =
     (if slot < 3 then holes + 1 + slot else if slot = 3 then holes + 5 else holes + 7)"

text \<open>The undealt board slot a position of the deck would have filled, if the viewer bought it.\<close>

definition rabbit_slot :: "table \<Rightarrow> bool \<Rightarrow> 8 word \<Rightarrow> nat \<Rightarrow> nat option" where
  "rabbit_slot t without slots i =
     (if without
      then List.find (\<lambda>slot. bit slots slot \<and> board_slot_deck_index (length (t_hand_order t) * 2) slot = i)
             [length (t_board t)..<5]
      else None)"

definition position_revealed :: "table \<Rightarrow> string \<Rightarrow> bool \<Rightarrow> 8 word \<Rightarrow> nat \<Rightarrow> bool" where
  "position_revealed t viewer without slots i \<longleftrightarrow>
     rabbit_slot t without slots i \<noteq> None \<or>
     (let order = t_hand_order t; n = length order
      in if n > 0 \<and> i < n * 2
         then let pass = i div n; offset = i mod n + 1;
                  p = pl t (order ! ((dealer_index_within t order + offset) mod n))
              in p_id p = viewer \<or> (\<not> without \<and> p_state p \<noteq> Folded) \<or>
                 (if pass = 0 then fst (p_voluntarily_shown_cards p) else snd (p_voluntarily_shown_cards p))
         else i < t_next_card t)"

definition fairness_proof_for :: "table \<Rightarrow> shuffle_result \<Rightarrow> string \<Rightarrow> bool \<Rightarrow> 8 word \<Rightarrow>
    fairness_proof \<times> string list \<times> (nat \<rightharpoonup> string)" where
  "fairness_proof_for t sh viewer without slots =
     (let cards = sh_cards sh; seed = sh_server_seed sh; n = length cards;
          hidden_fold = (without \<or> (\<exists>r\<in>set (t_hand_order t). p_state (pl t r) = Folded));
          open_at = position_revealed t viewer without slots;
          rabbits = filter (\<lambda>i. rabbit_slot t without slots i \<noteq> None) [0..<n]
      in (\<lparr>fp_server_seed_hex = (if hidden_fold then '''' else hex_encode seed),
           fp_revealed_card_salts = (\<lambda>i. if i < n \<and> open_at i
              then Some \<lparr>rs_card = card_code (cards ! i), rs_salt_hex = hex_encode (card_salt seed i)\<rparr> else None),
           fp_unrevealed_card_hashes = (\<lambda>i. if i < n \<and> \<not> open_at i
              then Some (hex_encode (card_hash seed i (cards ! i))) else None)\<rparr>,
          map (\<lambda>i. card_code (cards ! i)) rabbits,
          map_of (rev (map (\<lambda>i. (the (rabbit_slot t without slots i), card_code (cards ! i))) rabbits))))"

definition fairness_proofs :: "table \<Rightarrow> string \<rightharpoonup> fairness_proof" where
  "fairness_proofs t =
     (case t_shuffle t of
        None \<Rightarrow> Map.empty
      | Some sh \<Rightarrow>
          if t_stage t \<noteq> Complete then Map.empty
          else let without = (case t_last_outcome t of None \<Rightarrow> False | Some ho \<Rightarrow> ho_won_without_showdown ho)
               in fold (\<lambda>r m. m(p_id (pl t r) \<mapsto> fst (fairness_proof_for t sh (p_id (pl t r)) without 31)))
                    (t_hand_order t) Map.empty)"

section \<open>The view\<close>

definition request_view :: "table \<Rightarrow> winner_cards_request \<Rightarrow> winner_request_view" where
  "request_view t req =
     (let asker = (case player_by_id t (wr_requester_id req) of None \<Rightarrow> no_player | Some r \<Rightarrow> pl t r)
      in \<lparr>wv_requester_id = wr_requester_id req, wv_requester_name = p_name asker,
          wv_requester_avatar_url = p_avatar_url asker, wv_winner_id = wr_winner_id req,
          wv_fee = wr_fee req, wv_expires_at = wr_expires_at req\<rparr>)"

definition request_views :: "string \<Rightarrow> table \<Rightarrow> winner_request_view list" where
  "request_views viewer t =
     map (request_view t)
       (filter (\<lambda>req. viewer = wr_winner_id req \<or> viewer = wr_requester_id req) (t_pending_winner_cards t))"

definition button_views :: "table \<Rightarrow> string \<times> string \<times> string" where
  "button_views t =
     (let order = t_hand_order t; name = (\<lambda>i. p_id (pl t (order ! i)))
      in if length order \<ge> 2
         then (name (fst (blind_seats t order)), name (snd (blind_seats t order)), name (dealer_index_within t order))
         else ('''', '''', ''''))"

definition proof_view :: "string \<Rightarrow> table \<Rightarrow> fairness_proof \<times> string list \<times> (nat \<rightharpoonup> string)" where
  "proof_view viewer t =
     (case t_shuffle t of
        Some sh \<Rightarrow>
          if t_stage t = Complete \<and> (\<not> won_without t \<or> t_rabbit_hunt_slots t viewer \<noteq> 0)
          then fairness_proof_for t sh viewer (won_without t) (t_rabbit_hunt_slots t viewer)
          else (\<lparr>fp_server_seed_hex = '''', fp_revealed_card_salts = Map.empty,
                 fp_unrevealed_card_hashes = Map.empty\<rparr>, [], Map.empty)
      | None \<Rightarrow> (\<lparr>fp_server_seed_hex = '''', fp_revealed_card_salts = Map.empty,
                 fp_unrevealed_card_hashes = Map.empty\<rparr>, [], Map.empty))"

definition shuffle_hashes :: "table \<Rightarrow> string \<times> string" where
  "shuffle_hashes t = (case t_shuffle t of
      None \<Rightarrow> ('''', '''')
    | Some sh \<Rightarrow> (hex_encode (sh_commit_hash sh), hex_encode (root_commit_hash (sh_server_seed sh) (sh_cards sh))))"

definition init_time_banks :: "table \<Rightarrow> table" where
  "init_time_banks t = fold (\<lambda>r u. fst (time_bank (p_id (pl t r)) u)) (t_players t) t"

definition view_for :: "score_tables \<Rightarrow> string \<Rightarrow> table \<Rightarrow> (snapshot \<times> table) option" where
  "view_for T viewer t = do {
     seats \<leftarrow> those (map (view_seat T viewer t) (t_players t));
     current \<leftarrow> current_player_to_act t;
     legal \<leftarrow> legal_actions_for t viewer current;
     owed \<leftarrow> prospective_call_amount t viewer;
     let outcome = (if t_stage t = Complete then t_last_outcome t else None);
     let (proof_data, runout, rabbits) = proof_view viewer t;
     let (small, big, dealer) = button_views t;
     let requests = request_views viewer t;
     Some (\<lparr>sn_stage = stage_name (t_stage t), sn_board = board_codes (t_board t),
       sn_board_two = board_codes (t_board_two t), sn_board_split_at = t_board_split_at t,
       sn_seats = seats, sn_payouts = t_payouts t,
       sn_winners = (case outcome of None \<Rightarrow> [] | Some ho \<Rightarrow> ho_winners ho),
       sn_rake = t_rake_collected t, sn_current_player_id = current, sn_legal_actions = legal,
       sn_won_without_showdown = won_without t,
       sn_shuffle_commit_hash = fst (shuffle_hashes t),
       sn_shuffle_server_seed_hex = fp_server_seed_hex proof_data,
       sn_root_commit_hash = snd (shuffle_hashes t),
       sn_revealed_card_salts = fp_revealed_card_salts proof_data,
       sn_unrevealed_card_hashes = fp_unrevealed_card_hashes proof_data,
       sn_runout_cards = runout, sn_rabbit_cards = rabbits,
       sn_rabbit_hunt_fee = (if won_without t \<and> length (t_board t) < 5 then rabbit_hunt_card_fee t else 0),
       sn_small_blind_player_id = small, sn_big_blind_player_id = big, sn_dealer_player_id = dealer,
       sn_pots = pot_views t,
       sn_pot_results = (case outcome of None \<Rightarrow> [] | Some ho \<Rightarrow> ho_pot_results ho),
       sn_prospective_call_amount = owed, sn_winner_cards_requests = requests,
       sn_pending_winner_cards = (case requests of [] \<Rightarrow> None | v # _ \<Rightarrow> Some v),
       sn_winner_cards_closed = t_winner_cards_closed t\<rparr>, init_time_banks t)
   }"

end
