(* ===== verification/Hand_Views.thy ===== *)
theory Hand_Views
  imports Hand_Snapshot
begin

text \<open>
  What the views of \<open>Hand_Snapshot\<close> promise: the legal moves are the moves \<open>Act\<close> accepts, a view does
  not depend on cards its viewer may not see, and the fairness proof of a completed hand opens the
  positions of the deck it computes from the button, which the showdown has already moved on.
\<close>

section \<open>Legal moves\<close>

lemma act_by_round:
  assumes live: "hand_live t" and r: "t_round t = Some r" and cur: "current_player_to_act t = Some pid" "pid \<noteq> ''''"
    and i: "t_round_idx t pid = Some i" "i < length (rd_players r)"
  shows "round_act r (int i) (normalized_action t pid a) amount = Inr r' \<Longrightarrow> \<exists>t'. act T pid a amount t = Some (Inr t')"
    and "round_act r (int i) (normalized_action t pid a) amount = Inl e \<Longrightarrow> act T pid a amount t = Some (Inl (BettingError e))"
proof -
  obtain res where res: "act T pid a amount t = Some res" using act_ok [OF live, of T pid a amount] by blast
  show "\<exists>t'. act T pid a amount t = Some (Inr t')" if "round_act r (int i) (normalized_action t pid a) amount = Inr r'"
    using res cur i r that by (auto simp: act_def Let_def split: bind_splits if_splits)
  show "act T pid a amount t = Some (Inl (BettingError e))"
    if "round_act r (int i) (normalized_action t pid a) amount = Inl e"
    using cur i r that by (simp add: act_def Let_def)
qed

lemma pot_fraction_bounds:
  "lo \<le> hi \<Longrightarrow> lo \<le> pot_fraction_raise_to t bs owed lo hi n d \<and> pot_fraction_raise_to t bs owed lo hi n d \<le> hi"
  by (auto simp: pot_fraction_raise_to_def Let_def)

lemma act_same_round:
  assumes "t_round t = Some r" and "t_round_idx t pid = Some i"
    and "round_act r (int i) (normalized_action t pid a) x = round_act r (int i) (normalized_action t pid a) y"
  shows "act T pid a x t = act T pid a y t"
  using assms by (cases "current_player_to_act t") (simp_all add: act_def Let_def cong: if_cong)

text \<open>
  What a list of offered moves has to satisfy, for a player who has put \<open>put\<close> into a round that stands at
  \<open>bet\<close>, with \<open>stack\<close> chips left. The figures are the player's own; a raise is accepted exactly when it
  reaches the least raise offered, and one above the greatest is the greatest.
\<close>

definition accepts_move :: "table \<Rightarrow> string \<Rightarrow> action \<Rightarrow> int \<Rightarrow> bool" where
  "accepts_move t pid a amount \<longleftrightarrow> (\<forall>T. \<exists>t'. act T pid a amount t = Some (Inr t'))"

definition rejects_move :: "table \<Rightarrow> string \<Rightarrow> action \<Rightarrow> int \<Rightarrow> bool" where
  "rejects_move t pid a amount \<longleftrightarrow> (\<forall>T. \<exists>e. act T pid a amount t = Some (Inl e))"

definition figures_ok :: "table \<Rightarrow> int \<Rightarrow> int \<Rightarrow> int \<Rightarrow> legal_actions \<Rightarrow> bool" where
  "figures_ok t bet put stack la \<longleftrightarrow> la_current_bet la = bet \<and> la_current_contribution la = put \<and>
     la_call_amount la = max 0 (bet - put) \<and>
     (''raise'' \<in> set (la_actions la) \<longrightarrow> la_max_raise_to la = put + stack \<and> la_step la = t_big_blind t \<and>
        bet < la_min_raise_to la \<and> la_min_raise_to la \<le> la_max_raise_to la \<and>
        (\<forall>x\<in>{la_one_third_pot_raise_to la, la_half_pot_raise_to la, la_two_thirds_pot_raise_to la, la_pot_raise_to la}.
           la_min_raise_to la \<le> x \<and> x \<le> la_max_raise_to la))"

definition offers_ok :: "table \<Rightarrow> string \<Rightarrow> legal_actions \<Rightarrow> bool" where
  "offers_ok t pid la \<longleftrightarrow> set (la_actions la) \<subseteq> {''fold'', ''check'', ''call'', ''raise''} \<and>
     ''fold'' \<in> set (la_actions la) \<and> accepts_move t pid ActionFold 0 \<and>
     (if ''check'' \<in> set (la_actions la) then accepts_move t pid ActionCheck 0 else rejects_move t pid ActionCheck 0) \<and>
     (''call'' \<in> set (la_actions la) \<longleftrightarrow> ''check'' \<notin> set (la_actions la)) \<and> accepts_move t pid ActionCall 0 \<and>
     (if ''raise'' \<in> set (la_actions la)
      then \<forall>amount.
        (if la_min_raise_to la \<le> amount then accepts_move t pid ActionRaise amount
         else rejects_move t pid ActionRaise amount) \<and>
        (la_max_raise_to la \<le> amount \<longrightarrow>
           (\<forall>T. act T pid ActionRaise amount t = act T pid ActionRaise (la_max_raise_to la) t))
      else \<forall>amount. rejects_move t pid ActionRaise amount \<or>
        (\<forall>T. act T pid ActionRaise amount t = act T pid ActionCall 0 t))"

lemma offered_fields:
  "la_actions (offer_raise t r bs la) = la_actions la @ [''raise'']"
  "la_current_bet (offer_raise t r bs la) = la_current_bet la"
  "la_current_contribution (offer_raise t r bs la) = la_current_contribution la"
  "la_call_amount (offer_raise t r bs la) = la_call_amount la"
  by (simp_all add: offer_raise_def Let_def)

lemma legal_actions_offers:
  assumes live: "hand_live t" and cur: "current_player_to_act t = Some pid" "pid \<noteq> ''''"
  shows "\<exists>la r i. legal_actions_for t pid pid = Some (Some la) \<and> offers_ok t pid la \<and>
    t_round t = Some r \<and> t_round_idx t pid = Some i \<and> i < length (rd_players r) \<and>
    figures_ok t (rd_current_bet r) (bp_contributed (rd_players r ! i)) (bp_stack (rd_players r ! i)) la"
proof -
  obtain r where inv: "hand_inv t" and r: "t_round t = Some r" and link: "round_linked t r"
    using live by (auto simp: hand_live_def hand_inv_def)
  have stage: "is_betting_stage (t_stage t)" "0 < t_big_blind t" using inv by (simp_all add: hand_inv_def)
  obtain i where i: "t_round_idx t pid = Some i" "i < length (rd_players r)" "needs_action r (rd_players r ! i)"
    using current_player_owes [OF inv r cur] .
  define p where "p = rd_players r ! i"
  have p: "\<not> bp_folded p" "\<not> bp_all_in p" using i(3) by (simp_all add: p_def needs_action_def)
  have wf: "player_wf (rd_current_bet r) p" "0 < rd_min_raise r"
    using link i(2) by (auto simp: p_def round_linked_def round_wf_def)
  have put: "bp_contributed p \<le> rd_current_bet r" "0 < bp_stack p" using wf(1) p(2) by (auto simp: player_wf_def)
  note by_round = act_by_round [OF live r cur i(1,2)]
  note eq = round_act_eq [OF i(2), folded p_def, OF p]
  have norm: "normalized_action t pid a =
      (if (a = ActionRaise \<or> a = ActionBet) \<and> bp_contributed p + bp_stack p \<le> rd_current_bet r then ActionCall
       else if a = ActionCall \<and> bp_contributed p \<ge> rd_current_bet r then ActionCheck else a)" for a
    using i r by (simp add: normalized_action_def p_def Let_def)
  let ?owes = "bp_contributed p < rd_current_bet r"
  have fold: "accepts_move t pid ActionFold 0"
    using by_round(1) eq unfolding accepts_move_def by (simp add: norm)
  have check: "if ?owes then rejects_move t pid ActionCheck 0 else accepts_move t pid ActionCheck 0"
  proof (cases ?owes)
    case True
    then have "round_act r (int i) (normalized_action t pid ActionCheck) 0 =
        Inl (MustCallOrFold (bp_id p) (rd_current_bet r - bp_contributed p))"
      by (simp add: norm eq act_check_def p_def Let_def)
    from by_round(2) [OF this] show ?thesis using True by (simp add: rejects_move_def)
  next
    case False
    then have "\<exists>r'. round_act r (int i) (normalized_action t pid ActionCheck) 0 = Inr r'"
      by (simp add: norm eq act_check_def p_def Let_def)
    then show ?thesis using False by_round(1) by (auto simp: accepts_move_def)
  qed
  have call: "accepts_move t pid ActionCall 0"
  proof -
    have "\<exists>r'. round_act r (int i) (normalized_action t pid ActionCall) 0 = Inr r'"
      by (cases ?owes) (simp_all add: norm eq act_check_def act_call_def p_def Let_def)
    then show ?thesis using by_round(1) unfolding accepts_move_def by blast
  qed
  let ?can = "\<not> bp_acted p \<and> bp_contributed p + bp_stack p > rd_current_bet r"
  let ?hi = "bp_contributed p + bp_stack p"
  let ?lo = "min (rd_current_bet r + rd_min_raise r) ?hi"
  have raise: "if ?lo \<le> amount then accepts_move t pid ActionRaise amount else rejects_move t pid ActionRaise amount"
    if can: "?can" for amount
  proof (cases "?lo \<le> amount")
    case True
    then have "raise_ok r p amount" using can wf by (auto simp: raise_ok_def reached_def)
    then have "round_act r (int i) (normalized_action t pid ActionRaise) amount =
        Inr (raise_to r i (reached p amount))"
      using act_raise_ok(1) [of r i amount, folded p_def, OF wf(1) p(2)] can by (simp add: norm eq)
    then show ?thesis using True by_round(1) by (simp add: accepts_move_def)
  next
    case False
    then have "\<not> raise_ok r p amount" using can wf by (auto simp: raise_ok_def reached_def)
    then obtain e where "round_act r (int i) (normalized_action t pid ActionRaise) amount = Inl e"
      using act_raise_ok(2) [of r i amount, folded p_def, OF wf(1) p(2)] can by (auto simp: norm eq)
    from by_round(2) [OF this] show ?thesis using False by (simp add: rejects_move_def)
  qed
  have clamp: "act T pid ActionRaise amount t = act T pid ActionRaise ?hi t"
    if can: "?can" and above: "?hi \<le> amount" for T amount
  proof (rule act_same_round [OF r i(1)])
    have "raise_ok r p x \<and> reached p x = ?hi" if "?hi \<le> x" for x
      using can that wf by (auto simp: raise_ok_def reached_def)
    then have "round_act r (int i) (normalized_action t pid ActionRaise) x = Inr (raise_to r i ?hi)"
      if "?hi \<le> x" for x
      using act_raise_ok(1) [of r i x, folded p_def, OF wf(1) p(2)] can that by (simp add: norm eq)
    then show "round_act r (int i) (normalized_action t pid ActionRaise) amount =
        round_act r (int i) (normalized_action t pid ActionRaise) ?hi"
      using above by simp
  qed
  have no_raise: "rejects_move t pid ActionRaise amount \<or>
      (\<forall>T. act T pid ActionRaise amount t = act T pid ActionCall 0 t)" if "\<not> ?can" for amount
  proof (cases "?hi \<le> rd_current_bet r")
    case True
    then have n: "normalized_action t pid ActionRaise = ActionCall" "normalized_action t pid ActionCall = ActionCall"
      using put by (simp_all add: norm)
    have same: "round_act r (int i) ActionCall amount = round_act r (int i) ActionCall 0" by (simp add: eq)
    have "act T pid ActionRaise amount t = act T pid ActionCall 0 t" for T
      using cur i(2) by (simp add: act_def i(1) r n same Let_def)
    then show ?thesis by blast
  next
    case False
    then have "\<not> raise_ok r p amount" using that by (simp add: raise_ok_def)
    then obtain e where "round_act r (int i) (normalized_action t pid ActionRaise) amount = Inl e"
      using act_raise_ok(2) [of r i amount, folded p_def, OF wf(1) p(2)] False by (auto simp: norm eq)
    from by_round(2) [OF this] show ?thesis by (simp add: rejects_move_def)
  qed
  define la0 where "la0 = no_legal_actions\<lparr>la_actions := [''fold'', if \<not> ?owes then ''check'' else ''call''],
      la_call_amount := (if \<not> ?owes then 0 else rd_current_bet r - bp_contributed p),
      la_current_contribution := bp_contributed p, la_current_bet := rd_current_bet r\<rparr>"
  have legal: "legal_actions_for t pid pid = Some (Some (if ?can then offer_raise t r p la0 else la0))"
    using stage r i p by (simp add: legal_actions_for_def la0_def p_def [symmetric] Let_def not_less)
  have acts: "la_actions la0 = [''fold'', if \<not> ?owes then ''check'' else ''call'']"
    by (simp add: la0_def)
  have figures: "la_current_bet la0 = rd_current_bet r" "la_current_contribution la0 = bp_contributed p"
      "la_call_amount la0 = max 0 (rd_current_bet r - bp_contributed p)"
    by (simp_all add: la0_def max_def)
  have plain: "offers_ok t pid la0 \<and> figures_ok t (rd_current_bet r) (bp_contributed p) (bp_stack p) la0"
    if "\<not> ?can"
    using fold check call no_raise [OF that] acts figures
    by (cases ?owes) (simp_all add: offers_ok_def figures_ok_def)
  have "offers_ok t pid (offer_raise t r p la0) \<and>
      figures_ok t (rd_current_bet r) (bp_contributed p) (bp_stack p) (offer_raise t r p la0)" if can: "?can"
  proof -
    have lo: "la_min_raise_to (offer_raise t r p la0) = ?lo" "la_max_raise_to (offer_raise t r p la0) = ?hi"
        "la_step (offer_raise t r p la0) = t_big_blind t"
      using wf(2) stage(2) by (simp_all add: offer_raise_def Let_def)
    have "?lo \<le> ?hi" by simp
    note frac = pot_fraction_bounds [OF this, of t p "rd_current_bet r - bp_contributed p"]
    have fracs: "\<forall>x\<in>{la_one_third_pot_raise_to (offer_raise t r p la0), la_half_pot_raise_to (offer_raise t r p la0),
        la_two_thirds_pot_raise_to (offer_raise t r p la0), la_pot_raise_to (offer_raise t r p la0)}. ?lo \<le> x \<and> x \<le> ?hi"
    proof -
      have m: "(if (if rd_current_bet r + rd_min_raise r \<le> rd_current_bet r then rd_current_bet r + t_big_blind t
          else rd_current_bet r + rd_min_raise r) > ?hi then ?hi
          else (if rd_current_bet r + rd_min_raise r \<le> rd_current_bet r then rd_current_bet r + t_big_blind t
          else rd_current_bet r + rd_min_raise r)) = ?lo" using wf(2) by simp
      show ?thesis unfolding offer_raise_def Let_def m using frac by simp
    qed
    have "rd_current_bet r < ?lo" using can wf(2) by simp
    then have "figures_ok t (rd_current_bet r) (bp_contributed p) (bp_stack p) (offer_raise t r p la0)"
      using fracs unfolding figures_ok_def lo offered_fields figures by simp
    moreover have "offers_ok t pid (offer_raise t r p la0)"
    proof -
      let ?la = "offer_raise t r p la0"
      have listed: "set (la_actions ?la) = {''fold'', if \<not> ?owes then ''check'' else ''call'', ''raise''}"
        unfolding offered_fields acts by auto
      have raises: "(if ?lo \<le> amount then accepts_move t pid ActionRaise amount else rejects_move t pid ActionRaise amount) \<and>
          (?hi \<le> amount \<longrightarrow> (\<forall>T. act T pid ActionRaise amount t = act T pid ActionRaise ?hi t))" for amount
        using raise [OF can, of amount] clamp [OF can, of amount] by blast
      have member: "(''check'' \<in> set (la_actions ?la)) = (\<not> ?owes)" "(''call'' \<in> set (la_actions ?la)) = ?owes"
          "''raise'' \<in> set (la_actions ?la)" "''fold'' \<in> set (la_actions ?la)"
          "set (la_actions ?la) \<subseteq> {''fold'', ''check'', ''call'', ''raise''}"
        unfolding listed by (cases ?owes; simp)+
      have checks: "if \<not> ?owes then accepts_move t pid ActionCheck 0 else rejects_move t pid ActionCheck 0"
        using check by (cases ?owes) simp_all
      show ?thesis
        unfolding offers_ok_def member(1,2) lo if_P [OF member(3)]
        by (intro conjI allI member(4,5) fold checks call raises [THEN conjunct1] raises [THEN conjunct2])
          simp
    qed
    ultimately show ?thesis by blast
  qed
  then show ?thesis using legal plain r i(1,2) unfolding p_def by (cases "?can") auto
qed

text \<open>C12: the moves offered are exactly the moves accepted. In a live hand the view of the player on the clock
  always lists moves: folding, and either checking or calling, each accepted by \<open>Act\<close>, with checking
  refused when it is not listed. Where a raise is listed, \<open>Act\<close> accepts a raise if and only if it reaches
  the least raise shown, and one above the greatest shown, which is the player's whole stack, is that
  greatest raise; where none is listed, every raise is refused or is just a call. The call amount, the
  player's own contribution, the current bet and the step are those of the round, and the shortcut sizes
  lie between the two bounds. Nobody else is offered anything.\<close>

theorem legal_actions_exact:
  assumes "hand_live t" and "current_player_to_act t = Some pid" and "pid \<noteq> ''''"
  shows "(\<exists>la r i. legal_actions_for t pid pid = Some (Some la) \<and> offers_ok t pid la \<and>
      t_round t = Some r \<and> t_round_idx t pid = Some i \<and> i < length (rd_players r) \<and>
      figures_ok t (rd_current_bet r) (bp_contributed (rd_players r ! i)) (bp_stack (rd_players r ! i)) la) \<and>
    (\<forall>viewer. viewer \<noteq> pid \<longrightarrow> legal_actions_for t viewer pid = Some (Some no_legal_actions))"
proof -
  obtain r where "t_round t = Some r" "is_betting_stage (t_stage t)"
    using assms(1) by (auto simp: hand_live_def hand_inv_def)
  then show ?thesis using legal_actions_offers [OF assms] by (simp add: legal_actions_for_def)
qed

lemma legal_actions_exact_witness:
  "\<exists>la. legal_actions_for preflop_table ''a'' ''a'' = Some (Some la) \<and> offers_ok preflop_table ''a'' la \<and>
     figures_ok preflop_table 10 0 1000 la"
proof -
  have "t_round preflop_table = Some preflop_round" "t_round_idx preflop_table ''a'' = Some 0"
    by (simp_all add: preflop_table_def)
  then show ?thesis
    using legal_actions_exact [OF preflop_live preflop_current] by (auto simp: preflop_round_def)
qed

section \<open>Hidden cards stay hidden\<close>

text \<open>
  Who is entitled to a hole card: its owner; everybody once the owner has shown it, or once the hand has
  gone to a showdown and the owner had not folded; and, when a single player won without a showdown, those
  who paid that winner for a look.
\<close>

definition entitled :: "string \<Rightarrow> table \<Rightarrow> player \<Rightarrow> bool \<Rightarrow> bool" where
  "entitled viewer t p shown \<longleftrightarrow> p_id p = viewer \<or> p_voluntarily_shown p \<or> shown \<or>
     (t_stage t = Complete \<and>
      (\<exists>ho. t_last_outcome t = Some ho \<and>
        (if ho_won_without_showdown ho then ho_winners ho = [p_id p] \<and> viewer \<in> t_winner_cards_paid t
         else p_state p \<noteq> Folded)))"

text \<open>
  The table with other hole cards and another shuffle, everything else being equal, and when these
  other hole cards agree with the real ones wherever a viewer is entitled to look.
\<close>

definition swap_hidden ::
  "(pref \<Rightarrow> card \<times> card) \<Rightarrow> shuffle_result option \<Rightarrow> short_shuffle_result option \<Rightarrow> table \<Rightarrow> table" where
  "swap_hidden h sh ssh t = t\<lparr>t_store := (\<lambda>r. (pl t r)\<lparr>p_hole_cards := h r\<rparr>),
     t_shuffle := sh, t_short_shuffle := ssh\<rparr>"

definition agrees_where_seen :: "string \<Rightarrow> table \<Rightarrow> (pref \<Rightarrow> card \<times> card) \<Rightarrow> bool" where
  "agrees_where_seen viewer t h \<longleftrightarrow> (\<forall>r\<in>set (t_players t). let p = pl t r
     in (entitled viewer t p (fst (p_voluntarily_shown_cards p)) \<longrightarrow> fst (h r) = fst (p_hole_cards p)) \<and>
        (entitled viewer t p (snd (p_voluntarily_shown_cards p)) \<longrightarrow> snd (h r) = snd (p_hole_cards p)))"

lemma may_see_entitled:
  assumes "p_id p \<noteq> ''''"
  shows "fst (may_see viewer t p) \<Longrightarrow> entitled viewer t p (fst (p_voluntarily_shown_cards p))"
    and "snd (may_see viewer t p) \<Longrightarrow> entitled viewer t p (snd (p_voluntarily_shown_cards p))"
  using assms
  by (auto simp: may_see_def public_reveal_def paid_winner_reveal_def reveal_all_def sole_winner_def won_without_def
      entitled_def Let_def length_Suc_conv split: option.splits if_splits)

text \<open>A view without the two commitments, which depend on the whole deck.\<close>

definition without_commitments :: "snapshot \<Rightarrow> snapshot" where
  "without_commitments s = s\<lparr>sn_shuffle_commit_hash := '''', sn_root_commit_hash := ''''\<rparr>"

text \<open>A view without anything of the fairness proof either.\<close>

definition without_proof :: "snapshot \<Rightarrow> snapshot" where
  "without_proof s = (without_commitments s)\<lparr>sn_shuffle_server_seed_hex := '''', sn_revealed_card_salts := Map.empty,
     sn_unrevealed_card_hashes := Map.empty, sn_runout_cards := [], sn_rabbit_cards := Map.empty\<rparr>"

lemma swap_fields [simp]:
  fixes h sh ssh t
  defines "u \<equiv> swap_hidden h sh ssh t"
  shows "t_players u = t_players t" "t_hand_order u = t_hand_order t" "t_stage u = t_stage t"
    "t_board u = t_board t" "t_board_two u = t_board_two t" "t_board_split_at u = t_board_split_at t"
    "t_round u = t_round t" "t_round_idx u = t_round_idx t" "t_payouts u = t_payouts t"
    "t_rake_collected u = t_rake_collected t" "t_big_blind u = t_big_blind t" "t_small_blind u = t_small_blind t"
    "t_dealer_seat u = t_dealer_seat t" "t_last_outcome u = t_last_outcome t" "t_variant u = t_variant t"
    "t_run_it_twice u = t_run_it_twice t" "t_runout_phase u = t_runout_phase t"
    "t_currency_mode u = t_currency_mode t" "t_rabbit_hunt_slots u = t_rabbit_hunt_slots t"
    "t_winner_cards_paid u = t_winner_cards_paid t" "t_pending_winner_cards u = t_pending_winner_cards t"
    "t_winner_cards_closed u = t_winner_cards_closed t" "t_round_baseline u = t_round_baseline t"
    "pl u r = (pl t r)\<lparr>p_hole_cards := h r\<rparr>"
  by (simp_all add: u_def swap_hidden_def)

lemma swap_lookups [simp]:
  fixes h sh ssh t
  defines "u \<equiv> swap_hidden h sh ssh t"
  shows "player_by_id u pid = player_by_id t pid" "dealt_into_current_hand u pid = dealt_into_current_hand t pid"
    "won_without u = won_without t" "evaluation_board u = evaluation_board t"
    "dealer_index_within u rs = dealer_index_within t rs" "table_best7 T u cs = table_best7 T t cs"
    "table_category_of T u s = table_category_of T t s" "rabbit_hunt_card_fee u = rabbit_hunt_card_fee t"
    "showdown_contributions u = showdown_contributions t"
  by (simp_all add: u_def player_by_id_def dealt_into_current_hand_def won_without_def evaluation_board_def
      second_board_def dealer_index_within_def table_best7_def table_category_of_def rabbit_hunt_card_fee_def
      showdown_contributions_def cong: if_cong option.case_cong)

lemma swap_views [simp]:
  fixes h sh ssh t
  defines "u \<equiv> swap_hidden h sh ssh t"
  shows "reveal_all u = reveal_all t" "sole_winner u = sole_winner t" "pot_views u = pot_views t"
    "blind_seats u rs = blind_seats t rs" "button_views u = button_views t"
    "request_views viewer u = request_views viewer t" "snd (time_bank pid u) = snd (time_bank pid t)"
    "prospective_call_amount u pid = prospective_call_amount t pid"
    "legal_actions_for u viewer current = legal_actions_for t viewer current"
  by (simp_all add: u_def reveal_all_def sole_winner_def pot_views_def blind_seats_def button_views_def Let_def
      request_views_def request_view_def time_bank_def initialize_time_bank_def prospective_call_amount_def
      legal_actions_for_def offer_raise_def pot_fraction_raise_to_def
      split: option.split cong: if_cong option.case_cong)

lemma swap_can_act [simp]:
  "current_player_can_act (swap_hidden h sh ssh t) pid = current_player_can_act t pid"
  by (simp add: current_player_can_act_def cong: if_cong split: option.split)

lemma swap_turn [simp]: "current_player_to_act (swap_hidden h sh ssh t) = current_player_to_act t"
proof -
  have "first_to_act (swap_hidden h sh ssh t) ids = first_to_act t ids" for ids
    by (induction ids) (simp_all cong: if_cong)
  moreover have "action_scan_order (swap_hidden h sh ssh t) = action_scan_order t"
  proof -
    have seats: "scan_seats (swap_hidden h sh ssh t) = scan_seats t" by (simp add: scan_seats_def)
    have "scan_start (swap_hidden h sh ssh t) rs = scan_start t rs" for rs
      by (simp add: scan_start_def Let_def cong: if_cong option.case_cong)
    then show ?thesis by (simp add: action_scan_order_def seats Let_def)
  qed
  ultimately show ?thesis by (simp add: current_player_to_act_def)
qed

lemma swap_see:
  "public_reveal (swap_hidden h sh ssh t) (p\<lparr>p_hole_cards := c\<rparr>) = public_reveal t p"
  "paid_winner_reveal viewer (swap_hidden h sh ssh t) (p\<lparr>p_hole_cards := c\<rparr>) = paid_winner_reveal viewer t p"
  "may_see viewer (swap_hidden h sh ssh t) (p\<lparr>p_hole_cards := c\<rparr>) = may_see viewer t p"
  by (simp_all add: public_reveal_def paid_winner_reveal_def may_see_def Let_def)

lemma swap_seat:
  assumes "agrees_where_seen viewer t h" and "r \<in> set (t_players t)" and "'''' \<notin> set (seat_ids t)"
  shows "view_seat T viewer (swap_hidden h sh ssh t) r = view_seat T viewer t r"
proof -
  let ?u = "swap_hidden h sh ssh t" and ?p = "pl t r"
  let ?q = "?p\<lparr>p_hole_cards := h r\<rparr>" and ?see = "may_see viewer t ?p"
  have agree: "fst ?see \<Longrightarrow> fst (h r) = fst (p_hole_cards ?p)" "snd ?see \<Longrightarrow> snd (h r) = snd (p_hole_cards ?p)"
  proof -
    have id: "p_id ?p \<noteq> ''''" using assms(2,3) by (metis (no_types, lifting) image_eqI list.set_map seat_ids_def)
    show "fst ?see \<Longrightarrow> fst (h r) = fst (p_hole_cards ?p)" "snd ?see \<Longrightarrow> snd (h r) = snd (p_hole_cards ?p)"
      using assms(1,2) may_see_entitled [OF id, of viewer t] by (simp_all add: agrees_where_seen_def Let_def)
  qed
  have cards: "hole_view viewer ?u ?q = hole_view viewer t ?p"
    using agree by (simp add: hole_view_def swap_see Let_def)
  have full: "full_score T ?u ?q = full_score T t ?p" if "fst ?see \<and> snd ?see"
    using agree that by (simp add: full_score_def full_hand_def Let_def cong: if_cong)
  have strength: "strength_view T viewer ?u ?q = strength_view T viewer t ?p"
    using agree full by (simp add: strength_view_def swap_see Let_def)
  show ?thesis by (simp add: view_seat_def cards strength swap_see Let_def cong: if_cong)
qed

text \<open>A live hand can be viewed by everybody.\<close>

lemma strength_view_total: "\<exists>s. strength_view T viewer t p = Some s"
proof -
  have "\<exists>s. full_score T t p = Some s"
    using table_best7_total by (auto simp: full_score_def Let_def split: bind_splits)
  moreover have "\<exists>c. partial_category hole board = Some c" for hole board
    using best_n_hands [of "hole @ board"] by (auto simp: partial_category_def Let_def)
  ultimately show ?thesis by (auto simp: strength_view_def Let_def)
qed

lemma view_total:
  assumes "hand_live t"
  shows "\<exists>v. view_for T viewer t = Some v"
proof -
  obtain r where inv: "hand_inv t" and r: "t_round t = Some r" "round_linked t r"
    using assms by (auto simp: hand_live_def hand_inv_def)
  have idx: "i < length (rd_players r)" if "t_round_idx t pid = Some i" for pid i
    using r(2) that index_of_Some [of pid "map bp_id (rd_players r)" i] by (simp add: round_linked_def)
  have seat: "\<exists>v. view_seat T viewer t a = Some v" for a
    using strength_view_total [of T viewer t "pl t a"] by (auto simp: view_seat_def Let_def)
  have seats: "\<exists>vs. those (map (view_seat T viewer t) rs) = Some vs" for rs
  proof (induction rs)
    case (Cons a rs)
    moreover obtain v where "view_seat T viewer t a = Some v" using seat by blast
    ultimately show ?case by auto
  qed simp
  obtain vs where "those (map (view_seat T viewer t) (t_players t)) = Some vs" using seats by blast
  moreover obtain current where "current_player_to_act t = Some current"
    using current_player_eq [OF inv r(1)] by blast
  moreover have "legal_actions_for t viewer current \<noteq> None"
    using r(1) idx [of viewer] by (cases "t_round_idx t viewer") (auto simp: legal_actions_for_def Let_def)
  then obtain la where "legal_actions_for t viewer current = Some la" by auto
  moreover have "prospective_call_amount t viewer \<noteq> None"
    using r(1) idx [of viewer] by (cases "t_round_idx t viewer") (auto simp: prospective_call_amount_def Let_def)
  then obtain owed where "prospective_call_amount t viewer = Some owed" by auto
  ultimately show ?thesis
    by (cases "proof_view viewer t"; cases "button_views t") (simp add: view_for_def Let_def)
qed

text \<open>C4: nobody sees a card they are not entitled to. Replace the hole cards the viewer is not entitled to,
  and the deck, by any others: the viewer's view is the same but for the two commitments and the fairness
  proof, at every stage and after every kind of ending; and until the hand is over, and after a hand won
  without showdown in which the viewer bought no rabbit card, the proof is the same too.\<close>

theorem view_hides_cards:
  assumes "agrees_where_seen viewer t h" and "'''' \<notin> set (seat_ids t)"
  shows "map_option (without_proof \<circ> fst) (view_for T viewer (swap_hidden h sh ssh t)) =
      map_option (without_proof \<circ> fst) (view_for T viewer t) \<and>
    (t_stage t \<noteq> Complete \<or>
      (\<exists>ho. t_last_outcome t = Some ho \<and> ho_won_without_showdown ho) \<and> t_rabbit_hunt_slots t viewer = 0 \<longrightarrow>
     map_option (without_commitments \<circ> fst) (view_for T viewer (swap_hidden h sh ssh t)) =
       map_option (without_commitments \<circ> fst) (view_for T viewer t))"
proof -
  let ?u = "swap_hidden h sh ssh t"
  have seats: "map (view_seat T viewer ?u) (t_players t) = map (view_seat T viewer t) (t_players t)"
    using swap_seat [OF assms(1) _ assms(2)] by simp
  have "proof_view viewer ?u = proof_view viewer t"
    if "t_stage t \<noteq> Complete \<or>
      (\<exists>ho. t_last_outcome t = Some ho \<and> ho_won_without_showdown ho) \<and> t_rabbit_hunt_slots t viewer = 0"
    using that by (auto simp: proof_view_def won_without_def split: option.split)
  then have "map_option (without_commitments \<circ> fst) (view_for T viewer ?u) =
      map_option (without_commitments \<circ> fst) (view_for T viewer t)"
    if "t_stage t \<noteq> Complete \<or>
      (\<exists>ho. t_last_outcome t = Some ho \<and> ho_won_without_showdown ho) \<and> t_rabbit_hunt_slots t viewer = 0"
    using that
    by (cases "those (map (view_seat T viewer t) (t_players t))"; cases "current_player_to_act t";
        cases "legal_actions_for t viewer (the (current_player_to_act t))"; cases "prospective_call_amount t viewer";
        cases "proof_view viewer t"; cases "button_views t")
      (simp_all add: view_for_def seats without_commitments_def Let_def)
  moreover have "map_option (without_proof \<circ> fst) (view_for T viewer ?u) =
      map_option (without_proof \<circ> fst) (view_for T viewer t)"
    by (cases "those (map (view_seat T viewer t) (t_players t))"; cases "current_player_to_act t";
        cases "legal_actions_for t viewer (the (current_player_to_act t))"; cases "prospective_call_amount t viewer";
        cases "proof_view viewer t"; cases "proof_view viewer ?u"; cases "button_views t")
      (simp_all add: view_for_def seats without_commitments_def without_proof_def Let_def)
  ultimately show ?thesis by blast
qed

text \<open>The cards \<open>a\<close> cannot see are replaced by deuces.\<close>

lemma view_hides_cards_witness:
  "\<forall>T. \<exists>v v'. view_for T ''a'' preflop_table = Some v \<and>
     view_for T ''a'' (swap_hidden (\<lambda>r. if r = 0 then (Card 14 0, Card 13 0) else (Card 2 0, Card 2 1)) None None
       preflop_table) = Some v' \<and> without_commitments (fst v') = without_commitments (fst v)"
proof
  fix T
  let ?h = "\<lambda>r. if r = 0 then (Card 14 0, Card 13 0) else (Card 2 0, Card 2 1)"
  have "agrees_where_seen ''a'' preflop_table ?h"
    by (simp add: agrees_where_seen_def entitled_def preflop_fields Let_def)
      (simp add: sample_player_def no_player_def preflop_table_def new_table_def new_table_with_variant_def)
  then have "map_option (without_commitments \<circ> fst) (view_for T ''a'' (swap_hidden ?h None None preflop_table)) =
      map_option (without_commitments \<circ> fst) (view_for T ''a'' preflop_table)"
    using view_hides_cards [of "''a''" preflop_table ?h] by (simp add: preflop_fields seat_ids_def)
  moreover obtain v where "view_for T ''a'' preflop_table = Some v" using view_total [OF preflop_live] by blast
  ultimately show "\<exists>v v'. view_for T ''a'' preflop_table = Some v \<and>
      view_for T ''a'' (swap_hidden ?h None None preflop_table) = Some v' \<and>
      without_commitments (fst v') = without_commitments (fst v)"
    by (cases "view_for T ''a'' (swap_hidden ?h None None preflop_table)") auto
qed

end
