(* ===== verification/Deck_Order.thy ===== *)
theory Deck_Order
  imports Hand_Views
begin

text \<open>
  Where the hole cards of a hand lie in the shuffled deck, from the deal of \<open>StartHand\<close> to the
  fairness proofs published when the hand is over.
\<close>

section \<open>What dealing and settling leave alone\<close>

definition deal_frame :: "table \<Rightarrow> table \<Rightarrow> bool" where
  "deal_frame t t' \<longleftrightarrow> t_players t' = t_players t \<and> t_hand_order t' = t_hand_order t \<and>
     t_shuffle t' = t_shuffle t \<and> t_short_shuffle t' = t_short_shuffle t \<and> t_variant t' = t_variant t \<and>
     (\<forall>r. p_id (pl t' r) = p_id (pl t r) \<and> p_hole_cards (pl t' r) = p_hole_cards (pl t r))"

lemma deal_frame_refl [simp]: "deal_frame t t"
  by (simp add: deal_frame_def)

lemma deal_frame_trans [trans]: "deal_frame t u \<Longrightarrow> deal_frame u v \<Longrightarrow> deal_frame t v"
  by (simp add: deal_frame_def)

lemma deal_frame_upd:
  "(\<And>p. p_id (f p) = p_id p) \<Longrightarrow> (\<And>p. p_hole_cards (f p) = p_hole_cards p) \<Longrightarrow> deal_frame t (upd r f t)"
  by (simp add: deal_frame_def pl_upd)

lemma deal_frame_fold:
  assumes "\<And>x u. deal_frame u (f x u) \<and> t_dealer_seat (f x u) = t_dealer_seat u"
  shows "deal_frame t (fold f xs t) \<and> t_dealer_seat (fold f xs t) = t_dealer_seat t"
  by (induction xs arbitrary: t) (use assms deal_frame_trans in \<open>auto, metis\<close>)

lemma post_blind_frame: "deal_frame t (post_blind r amount t) \<and> t_dealer_seat (post_blind r amount t) = t_dealer_seat t"
  by (simp add: post_blind_def Let_def deal_frame_def pl_upd)

lemma post_entrant_frame:
  "deal_frame t (post_entrant es sb bb r t) \<and> t_dealer_seat (post_entrant es sb bb r t) = t_dealer_seat t"
  by (simp add: post_entrant_def post_blind_frame)

lemma start_round_frame:
  "deal_frame t (start_betting_round rs a b t) \<and> t_dealer_seat (start_betting_round rs a b t) = t_dealer_seat t"
  by (simp add: start_betting_round_def deal_frame_def Let_def)

lemma seed_frame:
  "seed_round_contribution pid a t = Some t' \<Longrightarrow> deal_frame t t' \<and> t_dealer_seat t' = t_dealer_seat t"
  by (auto simp: seed_round_contribution_def deal_frame_def Let_def split: option.splits bind_splits if_splits)

lemma seed_entrants_frame:
  "foldM (seed_entrant es) rs t = Some t' \<Longrightarrow> deal_frame t t' \<and> t_dealer_seat t' = t_dealer_seat t"
proof (induction rs arbitrary: t)
  case (Cons r rs)
  then obtain t1 where t1: "seed_entrant es r t = Some t1" "foldM (seed_entrant es) rs t1 = Some t'"
    by (auto split: bind_splits)
  have "deal_frame t t1 \<and> t_dealer_seat t1 = t_dealer_seat t"
    using t1(1) seed_frame by (auto simp: seed_entrant_def split: if_splits)
  then show ?case using Cons.IH [OF t1(2)] deal_frame_trans by auto
qed simp

lemma dealer_index_same:
  assumes "t_players t' = t_players t" and "t_dealer_seat t' = t_dealer_seat t"
  shows "dealer_index_within t' rs = dealer_index_within t rs"
  by (simp only: dealer_index_within_def assms)

lemma deal_frame_dealer:
  "deal_frame t t' \<Longrightarrow> t_dealer_seat t' = t_dealer_seat t \<Longrightarrow> dealer_index_within t' rs = dealer_index_within t rs"
  by (rule dealer_index_same) (simp_all add: deal_frame_def)

section \<open>The deal\<close>

definition hole_card :: "nat \<Rightarrow> player \<Rightarrow> card" where
  "hole_card pass p = (if pass = 0 then fst (p_hole_cards p) else snd (p_hole_cards p))"

lemma hole_card_set:
  "pass < 2 \<Longrightarrow> pass' < 2 \<Longrightarrow> hole_card pass' (set_hole pass c p) = (if pass' = pass then c else hole_card pass' p)"
  by (auto simp: hole_card_def set_hole_def)

lemma deal_hole_some:
  assumes "deal_hole (pass, r) t = Some t'" and "dealt_cards t = Some cards"
  shows "t' = upd r (set_hole pass (cards ! t_next_card t)) (t\<lparr>t_next_card := Suc (t_next_card t)\<rparr>)"
  using assms by (auto simp: deal_hole_def deal_card_def split: if_splits)

lemma deal_holes:
  assumes "foldM deal_hole es t = Some t'" and "dealt_cards t = Some cards"
    and "distinct es" and "\<forall>e\<in>set es. fst e < 2"
  shows "t_players t' = t_players t \<and> t_hand_order t' = t_hand_order t \<and> t_dealer_seat t' = t_dealer_seat t \<and>
    dealt_cards t' = Some cards \<and>
    (\<forall>pass r. pass < 2 \<longrightarrow> (pass, r) \<notin> set es \<longrightarrow> hole_card pass (pl t' r) = hole_card pass (pl t r)) \<and>
    (\<forall>i<length es. hole_card (fst (es ! i)) (pl t' (snd (es ! i))) = cards ! (t_next_card t + i))"
  using assms
proof (induction es arbitrary: t)
  case (Cons e es)
  obtain pass r where e: "e = (pass, r)" "pass < 2" using Cons.prems(4) by (cases e) auto
  obtain t1 where t1: "deal_hole e t = Some t1" "foldM deal_hole es t1 = Some t'"
    using Cons.prems(1) by (auto split: bind_splits)
  have shape: "t1 = upd r (set_hole pass (cards ! t_next_card t)) (t\<lparr>t_next_card := Suc (t_next_card t)\<rparr>)"
    using deal_hole_some t1(1) Cons.prems(2) e by blast
  have same: "t_players t1 = t_players t" "t_hand_order t1 = t_hand_order t" "t_dealer_seat t1 = t_dealer_seat t"
    "t_next_card t1 = Suc (t_next_card t)" and "dealt_cards t1 = dealt_cards t"
    by (simp_all add: shape dealt_cards_def)
  then have deck: "dealt_cards t1 = Some cards" using Cons.prems(2) by simp
  have cards1: "hole_card pass' (pl t1 r') = (if (pass', r') = e then cards ! t_next_card t else hole_card pass' (pl t r'))"
    if "pass' < 2" for pass' r' using that e by (simp add: shape pl_upd hole_card_set)
  have IH: "t_players t' = t_players t1 \<and> t_hand_order t' = t_hand_order t1 \<and> t_dealer_seat t' = t_dealer_seat t1 \<and>
      dealt_cards t' = Some cards \<and>
      (\<forall>pass r. pass < 2 \<longrightarrow> (pass, r) \<notin> set es \<longrightarrow> hole_card pass (pl t' r) = hole_card pass (pl t1 r)) \<and>
      (\<forall>i<length es. hole_card (fst (es ! i)) (pl t' (snd (es ! i))) = cards ! (t_next_card t1 + i))"
    using Cons.IH [OF t1(2) deck] Cons.prems(3,4) by simp
  have "hole_card (fst ((e # es) ! i)) (pl t' (snd ((e # es) ! i))) = cards ! (t_next_card t + i)"
    if i: "i < length (e # es)" for i
  proof (cases i)
    case 0
    have "hole_card pass (pl t' r) = hole_card pass (pl t1 r)" using IH e Cons.prems(3) by simp
    then show ?thesis using cards1 [OF e(2), of r] 0 e by simp
  next
    case (Suc j)
    then show ?thesis using IH same(4) i by simp
  qed
  then show ?case using IH same cards1 by simp
qed simp

lemma mod_rotate_inj:
  fixes a b d n :: nat
  assumes "(d + a) mod n = (d + b) mod n" and "a < n" and "b < n"
  shows "a = b"
proof -
  have "x = y" if "x \<le> y" "y < n" "(d + x) mod n = (d + y) mod n" for x y :: nat
  proof -
    have "n dvd (d + y) - (d + x)" using that by (subst mod_eq_dvd_iff_nat [symmetric]) auto
    then have "n dvd y - x" by simp
    then show ?thesis using that by (auto dest: dvd_imp_le)
  qed
  then show ?thesis using assms by (metis nat_le_linear)
qed

lemma nth_deal_order:
  assumes "i < 2 * length active"
  shows "deal_order d active ! i =
    (i div length active, active ! ((d + i mod length active + 1) mod length active))"
proof (cases "i < length active")
  case False
  define j where "j = i - length active"
  have j: "j < length active" "i = length active + j" using assms False by (auto simp: j_def)
  then have "i div length active = 1" "i mod length active = j" by (simp_all add: div_nat_eqI)
  then show ?thesis using j by (simp add: deal_order_def nth_append del: upt_Suc)
qed (simp add: deal_order_def nth_append del: upt_Suc)

lemma distinct_deal_order:
  assumes "distinct active"
  shows "distinct (deal_order d active)"
proof (cases "active = []")
  case False
  let ?n = "length active"
  have "i = j" if i: "i < 2 * ?n" and j: "j < 2 * ?n" and eq: "deal_order d active ! i = deal_order d active ! j" for i j
  proof -
    have "(d + i mod ?n + 1) mod ?n < ?n" "(d + j mod ?n + 1) mod ?n < ?n" using False by simp_all
    then have "(d + i mod ?n + 1) mod ?n = (d + j mod ?n + 1) mod ?n" "i div ?n = j div ?n"
      using eq nth_eq_iff_index_eq [OF assms] by (simp_all add: nth_deal_order i j)
    then have "i mod ?n = j mod ?n" using mod_rotate_inj [of "d + 1" "i mod ?n" ?n "j mod ?n"] False by (simp add: ac_simps)
    then show ?thesis using \<open>i div ?n = j div ?n\<close> by (metis div_mult_mod_eq)
  qed
  then show ?thesis by (auto simp: distinct_conv_nth length_deal_order)
qed (simp add: deal_order_def)

text \<open>
  The hole cards of a table are those at the front of its deck: two rounds of one card each, from the
  seat after the button.
\<close>

definition dealt_from_deck :: "table \<Rightarrow> bool" where
  "dealt_from_deck t \<longleftrightarrow> (\<exists>cards. dealt_cards t = Some cards \<and>
     (let order = t_hand_order t; n = length order; d = dealer_index_within t order
      in \<forall>i<2 * n. hole_card (i div n) (pl t (order ! ((d + i mod n + 1) mod n))) = cards ! i))"

text \<open>C38: each hand is dealt from its deck in order. When a hand starts, the blinds are posted and the
  cards dealt without a panic, and card \<open>i\<close> of the deck is the hole card of the first or second round of
  the player \<open>i + 1\<close> seats after the button: no card is dealt twice or skipped.\<close>

theorem hand_dealt_from_deck:
  assumes ready: "post_ready u"
  shows "\<exists>t'. post_and_deal (t_hand_order u) entrants u = Some t' \<and> dealt_from_deck t'"
proof -
  let ?rs = "t_hand_order u"
  obtain t' where run: "post_and_deal ?rs entrants u = Some t'" and started: "started u t'"
    using post_and_deal_ok [OF ready] by blast
  obtain sb bb where blinds: "blind_seats u ?rs = (sb, bb)" by (cases "blind_seats u ?rs")
  obtain cards where cards: "dealt_cards u = Some cards"
    using ready by (auto simp: post_ready_def deck_len_def split: option.splits)
  let ?t1 = "post_blind (?rs ! sb) (t_small_blind u) u"
  define t2 where "t2 = post_blind (?rs ! bb) (t_big_blind ?t1) ?t1"
  have f2: "deal_frame u t2" "t_dealer_seat t2 = t_dealer_seat u" "t_next_card t2 = 0"
    using ready deal_frame_trans [OF post_blind_frame [THEN conjunct1] post_blind_frame [THEN conjunct1]]
    by (simp_all add: t2_def post_ready_def post_blind_fields(4) post_blind_frame)
  define es where "es = deal_order (dealer_index_within t2 ?rs) ?rs"
  obtain t3 where t3: "foldM deal_hole es t2 = Some t3"
    using run blinds by (auto simp: post_and_deal_def Let_def t2_def es_def split: bind_splits)
  define t4 where "t4 = fold (post_entrant entrants (?rs ! sb) (?rs ! bb)) ?rs t3"
  have f4: "deal_frame t3 t4" "t_dealer_seat t4 = t_dealer_seat t3"
    using deal_frame_fold [of "post_entrant entrants (?rs ! sb) (?rs ! bb)" t3 ?rs, OF post_entrant_frame]
    by (simp_all add: t4_def)
  define t5 where "t5 = start_betting_round ?rs (t_big_blind t4) (t_big_blind t4) t4"
  have f5: "deal_frame t3 t5" "t_dealer_seat t5 = t_dealer_seat t3"
    using deal_frame_trans [OF f4(1) start_round_frame [THEN conjunct1]] f4(2)
    by (simp_all add: t5_def start_round_frame)
  have "deal_frame t5 t' \<and> t_dealer_seat t' = t_dealer_seat t5"
  proof -
    obtain t6 t7 t8 where steps:
      "seed_round_contribution (p_id (pl t5 (?rs ! sb))) (p_contributed (pl t5 (?rs ! sb))) t5 = Some t6"
      "seed_round_contribution (p_id (pl t6 (?rs ! bb))) (p_contributed (pl t6 (?rs ! bb))) t6 = Some t7"
      "foldM (seed_entrant entrants) ?rs t7 = Some t8" "t' = t8\<lparr>t_stage := PreFlop\<rparr>"
      using run blinds t3
      by (auto simp: post_and_deal_def Let_def t5_def t4_def simp flip: t2_def es_def split: bind_splits)
    have "deal_frame t8 t'" by (simp add: steps(4) deal_frame_def)
    with seed_frame [OF steps(1)] seed_frame [OF steps(2)] seed_entrants_frame [OF steps(3)] show ?thesis
      by (simp add: steps(4)) (blast intro: deal_frame_trans)
  qed
  then have f: "deal_frame t3 t'" "t_dealer_seat t' = t_dealer_seat t3"
    using f5 deal_frame_trans [OF f5(1)] by simp_all
  have "distinct es" "\<forall>e\<in>set es. fst e < 2" "dealt_cards t2 = Some cards"
    using ready f2(1) cards
    by (auto simp: es_def post_ready_def distinct_deal_order deal_frame_def dealt_cards_def)
      (auto simp: deal_order_def)
  from deal_holes [OF t3 this(3,1,2)]
  have d: "t_players t3 = t_players t2" "t_hand_order t3 = t_hand_order t2" "t_dealer_seat t3 = t_dealer_seat t2"
    "dealt_cards t3 = Some cards" "\<And>i. i < length es \<Longrightarrow> hole_card (fst (es ! i)) (pl t3 (snd (es ! i))) = cards ! i"
    using f2(3) by auto
  have order: "t_hand_order t' = ?rs" "dealt_cards t' = Some cards"
    using f(1) f2(1) d by (auto simp: deal_frame_def dealt_cards_def)
  have dealer: "dealer_index_within t' ?rs = dealer_index_within t2 ?rs"
    by (rule dealer_index_same) (use f d in \<open>simp_all add: deal_frame_def\<close>)
  have "hole_card p (pl t' r) = hole_card p (pl t3 r)" for p r
    using f(1) by (simp add: hole_card_def deal_frame_def)
  then have "dealt_from_deck t'"
    using d(5) nth_deal_order [of _ ?rs "dealer_index_within t2 ?rs"]
    by (simp add: dealt_from_deck_def order dealer Let_def es_def length_deal_order)
  with run show ?thesis by blast
qed

lemma hand_dealt_from_deck_witness:
  "\<exists>t'. post_and_deal [0, 1] {} short_table = Some t' \<and> dealt_from_deck t'"
  using hand_dealt_from_deck [OF short_table_ready, of "{}"] by (simp add: short_table_fields)

section \<open>The button after the hand\<close>

lemma showdown_frame:
  assumes "run_showdown T t = Some t'"
  shows "deal_frame t t' \<and> (\<exists>u. t' = rotate_dealer u \<and> deal_frame t u \<and> t_dealer_seat u = t_dealer_seat t) \<and>
    t_stage t' = Complete \<and> t_shuffle t' = t_shuffle t"
proof -
  have credit: "deal_frame u (credit e u) \<and> t_dealer_seat (credit e u) = t_dealer_seat u" for e u
    by (simp add: credit_def deal_frame_def pl_upd split: option.split)
  have pause: "deal_frame u (pause_if_busted r u) \<and> t_dealer_seat (pause_if_busted r u) = t_dealer_seat u" for r u
    by (simp add: pause_if_busted_def deal_frame_def pl_upd)
  obtain ps outcome where t': "t' = rotate_dealer ((pause_busted (credit_payouts ps
      (t\<lparr>t_stage := Showdown, t_rake_collected := t_rake_collected t + ps_rake ps\<rparr>)))
      \<lparr>t_payouts := ps_payouts ps, t_last_outcome := Some outcome, t_stage := Complete\<rparr>)"
    using assms by (auto simp: run_showdown_def Let_def split: bind_splits)
  let ?a = "t\<lparr>t_stage := Showdown, t_rake_collected := t_rake_collected t + ps_rake ps\<rparr>"
  let ?b = "credit_payouts ps ?a"
  have "deal_frame ?a ?b" "t_dealer_seat ?b = t_dealer_seat ?a"
    using deal_frame_fold [of credit ?a "ps_payouts ps", OF credit] by (simp_all add: credit_payouts_def)
  moreover have "deal_frame ?b (pause_busted ?b)" "t_dealer_seat (pause_busted ?b) = t_dealer_seat ?b"
    using deal_frame_fold [of pause_if_busted ?b "t_hand_order ?b", OF pause] by (simp_all add: pause_busted_def)
  ultimately have u: "deal_frame t (pause_busted ?b)" "t_dealer_seat (pause_busted ?b) = t_dealer_seat t"
    by (simp_all add: deal_frame_def)
  define u where "u = (pause_busted ?b)\<lparr>t_payouts := ps_payouts ps, t_last_outcome := Some outcome, t_stage := Complete\<rparr>"
  have "deal_frame t u" "t_dealer_seat u = t_dealer_seat t" "t_stage u = Complete"
    using u by (simp_all add: u_def deal_frame_def)
  moreover have "t' = rotate_dealer u" by (simp add: t' u_def)
  moreover have "deal_frame u (rotate_dealer u)"
    by (auto simp: deal_frame_def rotate_dealer_def Let_def split: option.split)
  ultimately show ?thesis using deal_frame_trans [of t u] by (auto simp: deal_frame_def)
qed

text \<open>The next player clockwise has the button when the hand is over.\<close>

lemma rotated_button:
  assumes "pot_ready t" and "run_showdown T t = Some t'" and "t_hand_order t \<noteq> []"
  shows "dealer_index_within t' (t_hand_order t) =
    (dealer_index_within t (t_hand_order t) + 1) mod length (t_hand_order t)"
proof -
  let ?rs = "t_hand_order t"
  obtain u where u: "t' = rotate_dealer u" "deal_frame t u" "t_dealer_seat u = t_dealer_seat t"
    using showdown_frame [OF assms(2)] by blast
  have same: "t_players u = t_players t" "t_hand_order u = ?rs" using u(2) by (simp_all add: deal_frame_def)
  have d: "dealer_index_within u ?rs = dealer_index_within t ?rs" by (rule deal_frame_dealer [OF u(2,3)])
  define k where "k = (dealer_index_within t ?rs + 1) mod length ?rs"
  have k: "k < length ?rs" using assms(3) by (simp add: k_def)
  then have "?rs ! k \<in> set (t_players t)" using assms(1) by (auto simp: pot_ready_def)
  then obtain i where i: "index_of (?rs ! k) (t_players t) = Some i" using index_of_mem by metis
  then have at: "i < length (t_players t)" "t_players t ! i = ?rs ! k" using index_of_Some by metis+
  have "t' = u\<lparr>t_dealer_seat := int i\<rparr>"
    using assms(3) i by (simp add: u(1) rotate_dealer_def Let_def same d k_def)
  moreover have "index_of (?rs ! k) ?rs = Some k"
    using assms(1) k by (intro index_of_nth) (simp_all add: pot_ready_def)
  ultimately have "dealer_index_within t' ?rs = k" using at by (simp add: dealer_index_within_def same)
  then show ?thesis by (simp add: k_def)
qed

section \<open>The fairness proofs\<close>

lemma fold_updates:
  assumes "x \<in> set xs" and "\<And>y. y \<in> set xs \<Longrightarrow> f y = f x \<Longrightarrow> g y = g x"
  shows "fold (\<lambda>y m. m(f y \<mapsto> g y)) xs m0 (f x) = Some (g x)"
  using assms
proof (induction xs rule: rev_induct)
  case (snoc y ys)
  show ?case
  proof (cases "f y = f x")
    case True
    have "g y = g x" by (rule snoc.prems(2)) (simp_all add: True)
    then show ?thesis using True by simp
  next
    case False
    then have mem: "x \<in> set ys" using snoc.prems(1) by auto
    have "fold (\<lambda>y m. m(f y \<mapsto> g y)) ys m0 (f x) = Some (g x)"
      by (rule snoc.IH [OF mem]) (rule snoc.prems(2), simp_all)
    then show ?thesis using False by (simp add: fun_upd_def)
  qed
qed simp

lemma fairness_proofs_of:
  assumes "t_shuffle t = Some sh" and "t_stage t = Complete" and "r \<in> set (t_hand_order t)"
  shows "\<exists>without. fairness_proofs t (p_id (pl t r)) =
    Some (fst (fairness_proof_for t sh (p_id (pl t r)) without 31))"
proof -
  let ?without = "case t_last_outcome t of None \<Rightarrow> False | Some ho \<Rightarrow> ho_won_without_showdown ho"
  have "fold (\<lambda>r m. m(p_id (pl t r) \<mapsto> fst (fairness_proof_for t sh (p_id (pl t r)) ?without 31)))
      (t_hand_order t) Map.empty (p_id (pl t r)) = Some (fst (fairness_proof_for t sh (p_id (pl t r)) ?without 31))"
    by (rule fold_updates [OF assms(3)]) simp
  then show ?thesis using assms by (auto simp: fairness_proofs_def)
qed

text \<open>
  The proof of the player two seats after the button opens the first card dealt, and so on: everybody
  is shown the cards of the neighbour to the right instead of their own.
\<close>

lemma neighbour_position:
  fixes d j n :: nat
  shows "((d + 1) mod n + (j + 1)) mod n = (d + j + 2) mod n"
proof -
  have "((d + 1) mod n + (j + 1)) mod n = ((d + 1) + (j + 1)) mod n" by (rule mod_add_left_eq)
  also have "(d + 1) + (j + 1) = d + j + 2" by simp
  finally show ?thesis .
qed

text \<open>C39: the fairness proofs open the wrong cards. They attribute the front of the deck with the button of
  the finished hand, but the showdown has moved the button on by then. So after every hand, folded or
  not, shown or not, the hole cards of a player are opened, with their salts, in the proof of the next
  player clockwise: in the proofs kept for the match history, and in the view when the hand went to
  showdown.\<close>

theorem proofs_open_neighbours_cards:
  assumes ready: "pot_ready t" and dealt: "dealt_from_deck t" and variant: "t_variant t = Standard"
    and deck: "2 * length (t_hand_order t) \<le> deck_len t"
    and run: "run_showdown T t = Some t'"
    and i: "i < 2 * length (t_hand_order t)"
  shows "\<exists>owner neighbour salt fp.
    owner = t_hand_order t ! ((dealer_index_within t (t_hand_order t) + i mod length (t_hand_order t) + 1) mod length (t_hand_order t)) \<and>
    neighbour = t_hand_order t ! ((dealer_index_within t (t_hand_order t) + i mod length (t_hand_order t) + 2) mod length (t_hand_order t)) \<and>
    fairness_proofs t' (p_id (pl t neighbour)) = Some fp \<and>
    fp_revealed_card_salts fp i =
      Some \<lparr>rs_card = card_code (hole_card (i div length (t_hand_order t)) (pl t owner)), rs_salt_hex = salt\<rparr> \<and>
    (\<not> won_without t' \<longrightarrow> fp_revealed_card_salts (fst (proof_view (p_id (pl t neighbour)) t')) i =
      fp_revealed_card_salts fp i)"
proof -
  let ?rs = "t_hand_order t" and ?n = "length (t_hand_order t)"
  let ?d = "dealer_index_within t ?rs"
  define owner where "owner = ?rs ! ((?d + i mod ?n + 1) mod ?n)"
  define k where "k = (?d + i mod ?n + 2) mod ?n"
  have n: "?n > 0" using i by auto
  have k: "k < ?n" using n by (simp add: k_def)
  obtain sh where sh: "t_shuffle t = Some sh" "i < length (sh_cards sh)"
    using deck i variant n by (auto simp: deck_len_def dealt_cards_def split: option.splits)
  have card: "sh_cards sh ! i = hole_card (i div ?n) (pl t owner)"
    using dealt i by (auto simp: dealt_from_deck_def Let_def dealt_cards_def variant sh(1) owner_def)
  have frame: "deal_frame t t'" "t_stage t' = Complete" "t_shuffle t' = Some sh"
    using showdown_frame [OF run] sh(1) by auto
  have same: "t_hand_order t' = ?rs" "\<And>r. p_id (pl t' r) = p_id (pl t r)" using frame(1) by (simp_all add: deal_frame_def)
  have d': "dealer_index_within t' ?rs = (?d + 1) mod ?n" using rotated_button [OF ready run] n by simp
  have "i < ?n * 2" using i by simp
  then have open_pos: "position_revealed t' (p_id (pl t (?rs ! k))) without slots i" for without slots
    using n neighbour_position [of ?d ?n "i mod ?n"]
    by (simp add: position_revealed_def Let_def same d' k_def)
  define salt where "salt = hex_encode (card_salt (sh_server_seed sh) i)"
  have reveal: "fp_revealed_card_salts (fst (fairness_proof_for t' sh (p_id (pl t (?rs ! k))) without slots)) i =
      Some \<lparr>rs_card = card_code (hole_card (i div ?n) (pl t owner)), rs_salt_hex = salt\<rparr>" for without slots
    using sh(2) open_pos by (simp add: fairness_proof_for_def Let_def card salt_def)
  have "?rs ! k \<in> set (t_hand_order t')" using k same by simp
  from fairness_proofs_of [OF frame(3,2) this] obtain without where
    fp: "fairness_proofs t' (p_id (pl t (?rs ! k))) =
      Some (fst (fairness_proof_for t' sh (p_id (pl t (?rs ! k))) without 31))" using same by auto
  have "fp_revealed_card_salts (fst (proof_view (p_id (pl t (?rs ! k))) t')) i =
      Some \<lparr>rs_card = card_code (hole_card (i div ?n) (pl t owner)), rs_salt_hex = salt\<rparr>" if "\<not> won_without t'"
    using that frame reveal by (simp add: proof_view_def)
  with fp reveal show ?thesis unfolding owner_def k_def by auto
qed

text \<open>The river table with the deck it was dealt from: \<open>d\<close> is shown a card of \<open>c\<close>, who folded.\<close>

definition fair_river_table :: table where
  "fair_river_table = river_table\<lparr>t_shuffle := Some \<lparr>sh_cards =
     [Card 13 0, Card 7 0, Card 9 0, Card 14 0, Card 13 1, Card 2 1, Card 9 1, Card 14 1],
     sh_server_seed = [], sh_commit_hash = []\<rparr>\<rparr>"

lemma fair_river_fields:
  "t_players fair_river_table = [0, Suc 0, 2, 3]" "t_hand_order fair_river_table = [0, Suc 0, 2, 3]"
  "t_dealer_seat fair_river_table = 0" "t_variant fair_river_table = Standard"
  "deck_len fair_river_table = 8"
  "pl fair_river_table 0 = sample_player ''a'' 0 50 AllIn (Card 14 0, Card 14 1)"
  "pl fair_river_table (Suc 0) = sample_player ''b'' 380 120 Active (Card 13 0, Card 13 1)"
  "pl fair_river_table 2 = sample_player ''c'' 920 80 Folded (Card 7 0, Card 2 1)"
  "pl fair_river_table 3 = sample_player ''d'' 880 120 Active (Card 9 0, Card 9 1)"
  by (simp_all add: fair_river_table_def river_table_def new_table_def new_table_with_variant_def upt_rec
      deck_len_def dealt_cards_def)

lemma fair_river_ready: "pot_ready fair_river_table"
  using river_table_ready
  by (simp add: pot_ready_def fair_river_table_def seat_ids_def hand_put_def rake_sane_def rake_cap_def
      Let_def rake_for_layer_def)

lemma fair_river_dealt: "dealt_from_deck fair_river_table"
proof -
  have "dealer_index_within fair_river_table [0, Suc 0, 2, 3] = 0"
    by (simp add: dealer_index_within_def fair_river_fields)
  moreover have "(\<forall>i<8. P i) \<longleftrightarrow> list_all P [0, 1, 2, 3, 4, 5, 6, 7]" for P :: "nat \<Rightarrow> bool"
  proof -
    have "{..<8} = set [0, 1, 2, 3, 4, 5, 6, 7 :: nat]" by (simp add: lessThan_Suc numeral_eq_Suc insert_commute)
    then have "(\<forall>i\<in>{..<8}. P i) \<longleftrightarrow> (\<forall>i\<in>set [0, 1, 2, 3, 4, 5, 6, 7]. P i)" by simp
    then show ?thesis by (simp only: lessThan_iff Ball_def list_all_iff)
  qed
  ultimately show ?thesis
    by (simp add: dealt_from_deck_def fair_river_fields hole_card_def Let_def)
      (simp add: fair_river_table_def dealt_cards_def river_table_def new_table_def new_table_with_variant_def)
qed

lemma proofs_open_neighbours_cards_witness:
  "p_state (pl fair_river_table 2) = Folded \<and> (\<forall>T. \<exists>t' fp salt. run_showdown T fair_river_table = Some t' \<and>
     fairness_proofs t' ''d'' = Some fp \<and>
     fp_revealed_card_salts fp 1 = Some \<lparr>rs_card = card_code (Card 7 0), rs_salt_hex = salt\<rparr>)"
proof -
  have d: "dealer_index_within fair_river_table [0, Suc 0, 2, 3] = 0"
    by (simp add: dealer_index_within_def fair_river_fields)
  have "\<exists>t' fp salt. run_showdown T fair_river_table = Some t' \<and> fairness_proofs t' ''d'' = Some fp \<and>
     fp_revealed_card_salts fp 1 = Some \<lparr>rs_card = card_code (Card 7 0), rs_salt_hex = salt\<rparr>" for T
  proof -
    obtain t' where t': "run_showdown T fair_river_table = Some t'"
      using run_showdown_effect [OF fair_river_ready] by blast
    show ?thesis
      using proofs_open_neighbours_cards [OF fair_river_ready fair_river_dealt _ _ t', of 1] t'
      by (auto simp: fair_river_fields d hole_card_def)
  qed
  then show ?thesis by (simp add: fair_river_fields)
qed

end
