(* ===== verification/Hand_Persist.thy ===== *)
theory Hand_Persist
  imports Deck_Order
begin

text \<open>
  Storing and reloading a table, \<open>api/internal/engine/hand/state.go\<close>. The stored state holds the seats
  and the hand order by value: the encoding does not keep the sharing of pointers, and
  \<open>NewTableFromState\<close> restores it by player ID. A \<open>nil\<close> map is the empty map of the model.
\<close>

section \<open>The stored state\<close>

record saved_state =
  sv_players :: "player list"
  sv_small_blind :: int
  sv_big_blind :: int
  sv_dealer_seat :: int
  sv_dealer_drawn :: bool
  sv_stage :: stage
  sv_board :: "card list"
  sv_board_two :: "card list"
  sv_board_split_at :: nat
  sv_run_it_twice :: bool
  sv_runout_phase :: nat
  sv_shuffle :: "shuffle_result option"
  sv_next_card :: nat
  sv_round :: "bet_round option"
  sv_round_idx :: "string \<rightharpoonup> nat"
  sv_round_baseline :: "string \<Rightarrow> int"
  sv_payouts :: "(string \<times> int) list"
  sv_rake_bps :: int
  sv_rake_collected :: int
  sv_currency_mode :: string
  sv_hand_order :: "player list"
  sv_seen_action_ids :: "string set"
  sv_ready_to_post :: "string set"
  sv_owes_big_blind :: "string set"
  sv_last_outcome :: "hand_outcome option"
  sv_was_ever_all_in :: "string set"
  sv_rabbit_hunt_paid :: "string \<Rightarrow> bool"
  sv_rabbit_hunt_slots :: "string \<Rightarrow> 8 word"
  sv_winner_cards_paid :: "string set"
  sv_winner_cards_asked :: "string set"
  sv_pending_winner_cards :: "winner_cards_request option"
  sv_pending_winner_cards_batch :: "winner_cards_request list"
  sv_winner_cards_closed :: bool
  sv_variant :: variant
  sv_short_shuffle :: "short_shuffle_result option"

definition export_state :: "table \<Rightarrow> saved_state" where
  "export_state t =
     \<lparr>sv_players = map (pl t) (t_players t), sv_small_blind = t_small_blind t, sv_big_blind = t_big_blind t,
      sv_dealer_seat = t_dealer_seat t, sv_dealer_drawn = t_dealer_drawn t, sv_stage = t_stage t,
      sv_board = t_board t, sv_board_two = t_board_two t, sv_board_split_at = t_board_split_at t,
      sv_run_it_twice = t_run_it_twice t, sv_runout_phase = t_runout_phase t, sv_shuffle = t_shuffle t,
      sv_next_card = t_next_card t, sv_round = t_round t, sv_round_idx = t_round_idx t,
      sv_round_baseline = t_round_baseline t, sv_payouts = t_payouts t, sv_rake_bps = t_rake_bps t,
      sv_rake_collected = t_rake_collected t, sv_currency_mode = t_currency_mode t,
      sv_hand_order = map (pl t) (t_hand_order t), sv_seen_action_ids = t_seen_action_ids t,
      sv_ready_to_post = t_ready_to_post t, sv_owes_big_blind = t_owes_big_blind t,
      sv_last_outcome = t_last_outcome t, sv_was_ever_all_in = t_was_ever_all_in t,
      sv_rabbit_hunt_paid = (\<lambda>_. False), sv_rabbit_hunt_slots = t_rabbit_hunt_slots t,
      sv_winner_cards_paid = t_winner_cards_paid t, sv_winner_cards_asked = t_winner_cards_asked t,
      sv_pending_winner_cards = None, sv_pending_winner_cards_batch = t_pending_winner_cards t,
      sv_winner_cards_closed = t_winner_cards_closed t, sv_variant = t_variant t,
      sv_short_shuffle = t_short_shuffle t\<rparr>"

section \<open>Reloading\<close>

text \<open>The two older encodings a stored state may still have.\<close>

definition legacy_rabbit_hunt_slots :: "saved_state \<Rightarrow> string \<Rightarrow> 8 word" where
  "legacy_rabbit_hunt_slots s pid =
     (if sv_rabbit_hunt_paid s pid
      then fold (\<lambda>slot mask. mask OR slot_bit (int slot)) [length (sv_board s)..<5] (sv_rabbit_hunt_slots s pid)
      else sv_rabbit_hunt_slots s pid)"

definition legacy_winner_cards_batch :: "saved_state \<Rightarrow> winner_cards_request list" where
  "legacy_winner_cards_batch s =
     (case sv_pending_winner_cards s of
        Some req \<Rightarrow> if sv_pending_winner_cards_batch s = [] then [req] else sv_pending_winner_cards_batch s
      | None \<Rightarrow> sv_pending_winner_cards_batch s)"

text \<open>
  The decoded seats get the first addresses. \<open>byID\<close> keeps the last seat of an ID; a dealt player without
  a seat is a player of its own, at the next free address.
\<close>

definition seat_by_id :: "player list \<Rightarrow> string \<rightharpoonup> pref" where
  "seat_by_id ps = map_of (rev (zip (map p_id ps) [0..<length ps]))"

fun link_hand_order :: "(string \<rightharpoonup> pref) \<Rightarrow> pref \<Rightarrow> player list \<Rightarrow> pref list \<times> player list" where
  "link_hand_order by_id next [] = ([], [])"
| "link_hand_order by_id next (p # ps) =
     (case by_id (p_id p) of
        Some r \<Rightarrow> let (rs, extra) = link_hand_order by_id next ps in (r # rs, extra)
      | None \<Rightarrow> let (rs, extra) = link_hand_order by_id (Suc next) ps in (next # rs, p # extra))"

definition new_table_from_state :: "saved_state \<Rightarrow> table" where
  "new_table_from_state s =
     (let seats = map initialize_time_bank (sv_players s); n = length seats;
          (order, extra) = link_hand_order (seat_by_id seats) n (sv_hand_order s)
      in \<lparr>t_store = (\<lambda>r. if r < n + length extra then (seats @ extra) ! r else no_player),
          t_next = n + length extra, t_players = [0..<n],
          t_small_blind = sv_small_blind s, t_big_blind = sv_big_blind s, t_dealer_seat = sv_dealer_seat s,
          t_dealer_drawn = (sv_dealer_drawn s \<or> sv_stage s \<noteq> WaitingForPlayers), t_stage = sv_stage s,
          t_board = sv_board s, t_board_two = sv_board_two s, t_board_split_at = sv_board_split_at s,
          t_run_it_twice_enabled = False, t_run_it_twice = sv_run_it_twice s, t_runout_phase = sv_runout_phase s,
          t_shuffle = sv_shuffle s, t_short_shuffle = sv_short_shuffle s, t_next_card = sv_next_card s,
          t_variant = sv_variant s, t_round = sv_round s, t_round_idx = sv_round_idx s,
          t_round_baseline = sv_round_baseline s, t_payouts = sv_payouts s, t_rake_bps = sv_rake_bps s,
          t_rake_collected = sv_rake_collected s, t_currency_mode = sv_currency_mode s,
          t_rabbit_hunt_slots = legacy_rabbit_hunt_slots s, t_winner_cards_paid = sv_winner_cards_paid s,
          t_winner_cards_asked = sv_winner_cards_asked s, t_pending_winner_cards = legacy_winner_cards_batch s,
          t_winner_cards_closed = sv_winner_cards_closed s, t_hand_order = order,
          t_seen_action_ids = sv_seen_action_ids s, t_ready_to_post = sv_ready_to_post s,
          t_owes_big_blind = sv_owes_big_blind s, t_last_outcome = sv_last_outcome s,
          t_was_ever_all_in = sv_was_ever_all_in s\<rparr>)"

definition reload :: "table \<Rightarrow> table" where
  "reload t = new_table_from_state (export_state t)"

section \<open>A reloaded table is the same table\<close>

text \<open>
  \<open>seats_by_pointer\<close>: IDs tell seats apart, and a dealt player with the ID of a seat is that seat.
\<close>

definition seats_by_pointer :: "table \<Rightarrow> bool" where
  "seats_by_pointer t \<longleftrightarrow> distinct (seat_ids t) \<and> distinct (t_hand_order t) \<and>
     (\<forall>a\<in>set (t_hand_order t). \<forall>b\<in>set (t_players t). p_id (pl t a) = p_id (pl t b) \<longrightarrow> a = b)"

text \<open>The address a seat or a departed player gets.\<close>

lemma seat_by_id_nth:
  assumes "distinct (map p_id ps)"
  shows "seat_by_id ps pid = index_of pid (map p_id ps)"
  using map_of_rev_positions [OF assms] by (simp add: seat_by_id_def)

lemma link_hand_order_at:
  assumes "link_hand_order by_id next ps = (rs, extra)"
  shows "length rs = length ps \<and> (\<forall>i<length ps.
    (\<forall>r. by_id (p_id (ps ! i)) = Some r \<longrightarrow> rs ! i = r) \<and>
    (by_id (p_id (ps ! i)) = None \<longrightarrow> (\<exists>k<length extra. rs ! i = next + k \<and> extra ! k = ps ! i)))"
  using assms
proof (induction ps arbitrary: "next" rs extra)
  case (Cons p ps)
  show ?case
  proof (cases "by_id (p_id p)")
    case (Some r)
    then obtain rs' where tail: "link_hand_order by_id next ps = (rs', extra)" "rs = r # rs'"
      using Cons.prems by (auto split: prod.splits)
    then show ?thesis using Cons.IH [OF tail(1)] Some by (simp add: All_less_Suc2)
  next
    case None
    then obtain rs' extra' where tail: "link_hand_order by_id (Suc next) ps = (rs', extra')"
      "rs = next # rs'" "extra = p # extra'"
      using Cons.prems by (auto split: prod.splits)
    have later: "\<exists>k<length extra. rs' ! i = next + k \<and> extra ! k = ps ! i"
      if "i < length ps" and e: "by_id (p_id (ps ! i)) = None" for i
    proof -
      obtain k where "k < length extra'" "rs' ! i = Suc next + k" "extra' ! k = ps ! i"
        using Cons.IH [OF tail(1)] \<open>i < length ps\<close> e by blast
      then show ?thesis using tail by (intro exI [of _ "Suc k"]) simp
    qed
    have "\<exists>k<length extra. rs ! 0 = next + k \<and> extra ! k = p" using tail by (intro exI [of _ 0]) simp
    then show ?thesis using Cons.IH [OF tail(1)] later None tail(2) by (simp add: All_less_Suc2)
  qed
qed simp

text \<open>Distinct departed players get distinct addresses.\<close>

lemma link_hand_order_fresh:
  assumes "link_hand_order by_id next ps = (rs, extra)"
  shows "i < j \<Longrightarrow> j < length ps \<Longrightarrow> by_id (p_id (ps ! i)) = None \<Longrightarrow> by_id (p_id (ps ! j)) = None \<Longrightarrow> rs ! i \<noteq> rs ! j"
  using assms
proof (induction ps arbitrary: "next" rs extra i j)
  case (Cons p ps)
  obtain j' where j: "j = Suc j'" "j' < length ps" using Cons.prems(1,2) by (cases j) auto
  show ?case
  proof (cases "by_id (p_id p)")
    case (Some r)
    then obtain rs' where tail: "link_hand_order by_id next ps = (rs', extra)" "rs = r # rs'"
      using Cons.prems by (auto split: prod.splits)
    obtain i' where "i = Suc i'" using Some Cons.prems(3) by (cases i) auto
    then show ?thesis using Cons.IH [OF _ _ _ _ tail(1), of i' j'] Cons.prems(1,3,4) j tail(2) by simp
  next
    case None
    then obtain rs' extra' where tail: "link_hand_order by_id (Suc next) ps = (rs', extra')" "rs = next # rs'"
      using Cons.prems by (auto split: prod.splits)
    show ?thesis
    proof (cases i)
      case 0
      have "by_id (p_id (ps ! j')) = None" using Cons.prems(4) j by simp
      then obtain k where "rs' ! j' = Suc next + k" using link_hand_order_at [OF tail(1)] j(2) by blast
      then show ?thesis using 0 j tail(2) by simp
    next
      case (Suc i')
      then show ?thesis using Cons.IH [OF _ _ _ _ tail(1), of i' j'] Cons.prems(1,3,4) j tail(2) by simp
    qed
  qed
qed simp

text \<open>What the encoding keeps of a player.\<close>

definition stored_seat :: "table \<Rightarrow> pref \<Rightarrow> player" where
  "stored_seat t r = (if r \<in> set (t_players t) then initialize_time_bank (pl t r) else pl t r)"

lemma time_bank_same [simp]:
  "p_id (initialize_time_bank p) = p_id p" "p_state (initialize_time_bank p) = p_state p"
  "p_stack (initialize_time_bank p) = p_stack p" "p_contributed (initialize_time_bank p) = p_contributed p"
  by (simp_all add: initialize_time_bank_def split: option.split)

lemma stored_seat_fields [simp]:
  "p_id (stored_seat t r) = p_id (pl t r)" "p_state (stored_seat t r) = p_state (pl t r)"
  "p_stack (stored_seat t r) = p_stack (pl t r)" "p_contributed (stored_seat t r) = p_contributed (pl t r)"
  by (simp_all add: stored_seat_def)

lemma reload_players:
  "t_players (reload t) = [0..<length (t_players t)]"
  "i < length (t_players t) \<Longrightarrow> pl (reload t) i = stored_seat t (t_players t ! i)"
  by (simp_all add: reload_def new_table_from_state_def export_state_def Let_def nth_append stored_seat_def
      split: prod.split)

lemma reload_link:
  assumes "seats_by_pointer t"
  obtains extra where "link_hand_order (\<lambda>pid. index_of pid (seat_ids t)) (length (t_players t))
      (map (pl t) (t_hand_order t)) = (t_hand_order (reload t), extra)"
    and "\<And>k. k < length extra \<Longrightarrow> pl (reload t) (length (t_players t) + k) = extra ! k"
proof -
  let ?seats = "map initialize_time_bank (map (pl t) (t_players t))" and ?ps = "map (pl t) (t_hand_order t)"
  obtain rs extra where link: "link_hand_order (seat_by_id ?seats) (length ?seats) ?ps = (rs, extra)"
    by (cases "link_hand_order (seat_by_id ?seats) (length ?seats) ?ps")
  have reload: "t_hand_order (reload t) = rs"
    "pl (reload t) a = (if a < length ?seats + length extra then (?seats @ extra) ! a else no_player)" for a
    using link by (simp_all add: reload_def new_table_from_state_def export_state_def Let_def del: map_map)
  have "map p_id ?seats = seat_ids t" by (simp add: seat_ids_def)
  then have "seat_by_id ?seats = (\<lambda>pid. index_of pid (seat_ids t))"
    using seat_by_id_nth [of ?seats] assms by (auto simp: seats_by_pointer_def simp del: map_map)
  with link reload that [of extra] show ?thesis by (simp add: nth_append del: map_map)
qed

lemma reload_order:
  assumes "seats_by_pointer t" and j: "j < length (t_hand_order t)"
  shows "length (t_hand_order (reload t)) = length (t_hand_order t)"
    and "t_hand_order t ! j \<in> set (t_players t) \<Longrightarrow> t_hand_order (reload t) ! j < length (t_players t) \<and>
      t_players t ! (t_hand_order (reload t) ! j) = t_hand_order t ! j"
    and "t_hand_order t ! j \<notin> set (t_players t) \<Longrightarrow> length (t_players t) \<le> t_hand_order (reload t) ! j \<and>
      pl (reload t) (t_hand_order (reload t) ! j) = pl t (t_hand_order t ! j)"
    and "i < length (t_hand_order t) \<Longrightarrow> i \<noteq> j \<Longrightarrow> t_hand_order t ! i \<notin> set (t_players t) \<Longrightarrow>
      t_hand_order t ! j \<notin> set (t_players t) \<Longrightarrow> t_hand_order (reload t) ! i \<noteq> t_hand_order (reload t) ! j"
proof -
  let ?order = "t_hand_order t" and ?order' = "t_hand_order (reload t)" and ?n = "length (t_players t)"
  obtain extra where link: "link_hand_order (\<lambda>pid. index_of pid (seat_ids t)) ?n (map (pl t) ?order) = (?order', extra)"
    and extra: "\<And>k. k < length extra \<Longrightarrow> pl (reload t) (?n + k) = extra ! k"
    using reload_link [OF assms(1)] by blast
  note at = link_hand_order_at [OF link]
  then show "length ?order' = length ?order" by simp
  have gone: "index_of (p_id (pl t (?order ! k))) (seat_ids t) = None"
    if "k < length ?order" and "?order ! k \<notin> set (t_players t)" for k
    using assms that by (force simp: seats_by_pointer_def seat_ids_def)
  show "?order' ! j < ?n \<and> t_players t ! (?order' ! j) = ?order ! j" if seat: "?order ! j \<in> set (t_players t)"
  proof -
    obtain i where i: "i < ?n" "t_players t ! i = ?order ! j" using seat by (auto simp: in_set_conv_nth)
    then have "index_of (p_id (pl t (?order ! j))) (seat_ids t) = Some i"
      using assms(1) index_of_nth [of "seat_ids t" i] by (simp add: seats_by_pointer_def seat_ids_def)
    then have "?order' ! j = i" using at j by simp
    then show ?thesis using i by simp
  qed
  show "?n \<le> ?order' ! j \<and> pl (reload t) (?order' ! j) = pl t (?order ! j)" if e: "?order ! j \<notin> set (t_players t)"
  proof -
    obtain k where k: "k < length extra" "?order' ! j = ?n + k" "extra ! k = map (pl t) ?order ! j"
      using at gone [OF j e] j by (metis length_map nth_map)
    then show ?thesis using j extra by simp
  qed
  show "?order' ! i \<noteq> ?order' ! j" if i: "i < length ?order" "i \<noteq> j"
    and out: "?order ! i \<notin> set (t_players t)" "?order ! j \<notin> set (t_players t)"
  proof (cases "i < j")
    case True
    then show ?thesis using link_hand_order_fresh [OF link, of i j] gone i(1) j out by simp
  next
    case False
    then show ?thesis using link_hand_order_fresh [OF link, of j i] gone i j out by (simp add: eq_commute)
  qed
qed

lemma reload_order_seats:
  assumes "seats_by_pointer t"
  shows "map (pl (reload t)) (t_hand_order (reload t)) = map (stored_seat t) (t_hand_order t)"
proof (rule nth_equalityI)
  show len: "length (map (pl (reload t)) (t_hand_order (reload t))) = length (map (stored_seat t) (t_hand_order t))"
    using reload_order(1) [OF assms, of 0] reload_link [OF assms] link_hand_order_at by (metis length_map)
  fix j assume "j < length (map (pl (reload t)) (t_hand_order (reload t)))"
  then have j: "j < length (t_hand_order t)" "j < length (t_hand_order (reload t))" using len by simp_all
  show "map (pl (reload t)) (t_hand_order (reload t)) ! j = map (stored_seat t) (t_hand_order t) ! j"
  proof (cases "t_hand_order t ! j \<in> set (t_players t)")
    case True
    then show ?thesis using reload_order(2) [OF assms j(1)] reload_players(2) j by simp
  next
    case False
    then show ?thesis using reload_order(3) [OF assms j(1)] j by (simp add: stored_seat_def)
  qed
qed

text \<open>Two places of the seats and the hand order hold the same pointer when they did before.\<close>

lemma reload_sharing:
  assumes ptr: "seats_by_pointer t"
    and i: "i < length (t_players t @ t_hand_order t)" and j: "j < length (t_players t @ t_hand_order t)"
  shows "(t_players (reload t) @ t_hand_order (reload t)) ! i = (t_players (reload t) @ t_hand_order (reload t)) ! j \<longleftrightarrow>
    (t_players t @ t_hand_order t) ! i = (t_players t @ t_hand_order t) ! j"
proof -
  let ?n = "length (t_players t)" and ?order = "t_hand_order t" and ?order' = "t_hand_order (reload t)"
  let ?ps = "t_players t @ ?order" and ?ps' = "t_players (reload t) @ ?order'"
  have d: "distinct (t_players t)" "distinct ?order" using ptr distinct_players by (auto simp: seats_by_pointer_def)
  have len: "length (t_players (reload t)) = ?n" by (simp add: reload_players)
  have in_seats: "?ps ! k \<in> set (t_players t) \<Longrightarrow> ?ps' ! k < ?n \<and> t_players t ! (?ps' ! k) = ?ps ! k"
    and outside: "?ps ! k \<notin> set (t_players t) \<Longrightarrow> ?n \<le> ?ps' ! k \<and> ?n \<le> k" if "k < length ?ps" for k
    using reload_order(2,3) [OF ptr, of "k - ?n"] that len by (auto simp: nth_append reload_players)
  show ?thesis
  proof (cases "?ps ! i \<in> set (t_players t)"; cases "?ps ! j \<in> set (t_players t)")
    assume "?ps ! i \<in> set (t_players t)" "?ps ! j \<in> set (t_players t)"
    with in_seats [OF i] in_seats [OF j] show ?thesis using nth_eq_iff_index_eq [OF d(1)] by metis
  next
    assume "?ps ! i \<in> set (t_players t)" "?ps ! j \<notin> set (t_players t)"
    with in_seats [OF i] outside [OF j] show ?thesis by auto
  next
    assume "?ps ! i \<notin> set (t_players t)" "?ps ! j \<in> set (t_players t)"
    with outside [OF i] in_seats [OF j] show ?thesis by auto
  next
    assume out: "?ps ! i \<notin> set (t_players t)" "?ps ! j \<notin> set (t_players t)"
    then have "?n \<le> i" "?n \<le> j" using outside [OF i] outside [OF j] by simp_all
    then obtain a b where ab: "i = ?n + a" "j = ?n + b" by (metis le_Suc_ex)
    then have le: "a < length ?order" "b < length ?order" using i j by simp_all
    have o: "?order ! a \<notin> set (t_players t)" "?order ! b \<notin> set (t_players t)" using out by (simp_all add: ab)
    have "?order' ! a = ?order' ! b \<longleftrightarrow> ?order ! a = ?order ! b"
    proof (cases "a = b")
      case False
      then show ?thesis
        using reload_order(4) [OF ptr le(2) le(1) False o] nth_eq_iff_index_eq [OF d(2) le] by simp
    qed simp
    then show ?thesis using len by (simp add: ab nth_append)
  qed
qed

section \<open>Properties\<close>

lemma reload_live:
  assumes ptr: "seats_by_pointer t" and live: "hand_live t"
  shows "hand_live (reload t) \<and> table_chips (reload t) = table_chips t"
proof -
  let ?t = "reload t" and ?order = "t_hand_order t" and ?order' = "t_hand_order (reload t)"
  obtain r where inv: "hand_inv t" and r: "t_round t = Some r" "round_linked t r" and s: "seats_linked t"
    using live by (auto simp: hand_live_def hand_inv_def)
  have fields: "t_stage ?t = t_stage t" "t_round ?t = t_round t" "t_round_idx ?t = t_round_idx t"
    "t_round_baseline ?t = t_round_baseline t" "t_big_blind ?t = t_big_blind t" "t_runout_phase ?t = t_runout_phase t"
    "t_rake_bps ?t = t_rake_bps t" "t_rake_collected ?t = t_rake_collected t" "t_next_card ?t = t_next_card t"
    "t_board ?t = t_board t" "t_board_two ?t = t_board_two t" "t_run_it_twice ?t = t_run_it_twice t"
    "t_board_split_at ?t = t_board_split_at t" "deck_len ?t = deck_len t"
    by (simp_all add: reload_def new_table_from_state_def export_state_def Let_def deck_len_def dealt_cards_def
        split: prod.split)
  have seats: "map (pl ?t) (t_players ?t) = map (stored_seat t) (t_players t)"
    by (rule nth_equalityI) (simp_all add: reload_players)
  have order: "map (pl ?t) ?order' = map (stored_seat t) ?order" by (rule reload_order_seats [OF ptr])
  have len: "length ?order' = length ?order" using arg_cong [OF order, of length] by simp
  have at: "pl ?t (?order' ! j) = stored_seat t (?order ! j)" if "j < length ?order" for j
    using arg_cong [OF order, of "\<lambda>ps. ps ! j"] that len by simp
  have ids: "seat_ids ?t = seat_ids t"
    using arg_cong [OF seats, of "map p_id"] by (simp add: seat_ids_def comp_def)
  have stacks: "seat_stacks ?t = seat_stacks t"
    using arg_cong [OF seats, of "\<lambda>ps. sum_list (map p_stack ps)"] by (simp add: seat_stacks_def comp_def)
  have put: "hand_put ?t = hand_put t"
    using arg_cong [OF order, of "\<lambda>ps. sum_list (map p_contributed ps)"] by (simp add: hand_put_def comp_def)
  have chips: "hand_chips ?t = hand_chips t"
    using arg_cong [OF order, of "\<lambda>ps. sum_list (map (\<lambda>p. p_stack p + p_contributed p) ps)"]
    by (simp add: hand_chips_def comp_def)
  have count: "length (filter (\<lambda>r. P (pl ?t r)) ?order') = length (filter (\<lambda>r. P (stored_seat t r)) ?order)" for P
    using arg_cong [OF order, of "\<lambda>ps. length (filter P ps)"] by (simp add: filter_map comp_def)
  have counts: "count_remaining ?t = count_remaining t" "count_actable ?t = count_actable t"
    using count [of still_in_hand] count [of "\<lambda>p. still_in_hand p \<and> p_state p \<noteq> AllIn"]
    by (simp_all add: count_remaining_def count_actable_def still_in_hand_def)
  have mem: "?order ! j \<in> set (t_players t)" if "j < length ?order" for j
    using s that by (auto simp: seats_linked_def)
  have addr: "?order' ! j < length (t_players t)" "t_players t ! (?order' ! j) = ?order ! j" if "j < length ?order" for j
    using reload_order(2) [OF ptr that mem [OF that]] by simp_all
  have "distinct ?order'"
    using s addr len by (auto simp: distinct_conv_nth seats_linked_def) metis
  moreover have "set ?order' \<subseteq> set (t_players ?t)"
    using addr(1) len by (auto simp: in_set_conv_nth reload_players)
  moreover have "dealt_player_ok (pl ?t p)" if p: "p \<in> set ?order'" for p
  proof -
    obtain j where j: "j < length ?order" "p = ?order' ! j" using p len by (auto simp: in_set_conv_nth)
    have "dealt_player_ok (pl t (?order ! j))" using s j(1) by (simp add: seats_linked_def)
    then show ?thesis using at [OF j(1)] j(2) by (simp add: dealt_player_ok_def)
  qed
  ultimately have linked: "seats_linked ?t" using s ids by (simp add: seats_linked_def)
  have entry: "entry_link ?t e (?order' ! j) \<longleftrightarrow> entry_link t e (?order ! j)" if "j < length ?order" for e j
    by (simp add: entry_link_def at [OF that] fields)
  have "\<exists>p\<in>set ?order'. entry_link ?t e p" if e: "e \<in> set (rd_players r)" for e
  proof -
    obtain p where "p \<in> set ?order" "entry_link t e p" using r(2) e by (auto simp: round_linked_def)
    then obtain j where "j < length ?order" "entry_link t e (?order ! j)" by (auto simp: in_set_conv_nth)
    then show ?thesis using entry len by (metis nth_mem)
  qed
  moreover have "p_state (pl ?t p) = Folded"
    if p: "p \<in> set ?order'" "p_id (pl ?t p) \<notin> set (map bp_id (rd_players r))" for p
  proof -
    obtain j where j: "j < length ?order" "p = ?order' ! j" using p(1) len by (auto simp: in_set_conv_nth)
    then have "p_state (pl t (?order ! j)) = Folded"
      using r(2) p(2) at [OF j(1)] unfolding round_linked_def by (metis nth_mem stored_seat_fields(1))
    then show ?thesis using at [OF j(1)] j(2) by simp
  qed
  ultimately have "round_linked ?t r" using r(2) fields by (simp add: round_linked_def)
  moreover have "rake_sane ?t (hand_chips ?t)" using inv chips fields
    by (simp add: hand_inv_def rake_sane_def)
  moreover have "deal_ok ?t" using inv fields by (simp add: hand_inv_def deal_ok_def Let_def)
  ultimately have "hand_inv ?t" using inv linked r(1) fields by (simp add: hand_inv_def)
  moreover have "is_awaiting_runout ?t = is_awaiting_runout t"
    by (simp add: is_awaiting_runout_def fields counts)
  ultimately show ?thesis
    using live by (simp add: hand_live_def fields table_chips_def stacks put hand_in_progress_def)
qed

text \<open>C17: storing and reloading a table loses nothing that is stored. Whatever the table, when IDs tell
  the seats apart, exporting it again gives the same state, up to the time banks the load hands out and
  the dealer flag it infers; and the pointers that were shared between the seats and the hand order are
  shared again. A live hand stays live, with every chip.\<close>

theorem reload_roundtrip:
  assumes ptr: "seats_by_pointer t"
  shows "export_state (reload t) = (export_state t)\<lparr>sv_players := map (stored_seat t) (t_players t),
      sv_hand_order := map (stored_seat t) (t_hand_order t),
      sv_dealer_drawn := (t_dealer_drawn t \<or> t_stage t \<noteq> WaitingForPlayers)\<rparr> \<and>
    (\<forall>i<length (t_players t @ t_hand_order t). \<forall>j<length (t_players t @ t_hand_order t).
       (t_players (reload t) @ t_hand_order (reload t)) ! i = (t_players (reload t) @ t_hand_order (reload t)) ! j \<longleftrightarrow>
       (t_players t @ t_hand_order t) ! i = (t_players t @ t_hand_order t) ! j) \<and>
    (hand_live t \<longrightarrow> hand_live (reload t) \<and> table_chips (reload t) = table_chips t)"
proof -
  have seats: "map (pl (reload t)) (t_players (reload t)) = map (stored_seat t) (t_players t)"
    by (rule nth_equalityI) (simp_all add: reload_players)
  have "export_state (reload t) = (export_state t)\<lparr>sv_players := map (stored_seat t) (t_players t),
      sv_hand_order := map (stored_seat t) (t_hand_order t),
      sv_dealer_drawn := (t_dealer_drawn t \<or> t_stage t \<noteq> WaitingForPlayers)\<rparr>"
    unfolding export_state_def [of "reload t"] seats reload_order_seats [OF ptr]
    by (simp add: reload_def new_table_from_state_def export_state_def legacy_rabbit_hunt_slots_def [abs_def]
        legacy_winner_cards_batch_def Let_def split: prod.split)
  moreover have "(t_players (reload t) @ t_hand_order (reload t)) ! i = (t_players (reload t) @ t_hand_order (reload t)) ! j \<longleftrightarrow>
       (t_players t @ t_hand_order t) ! i = (t_players t @ t_hand_order t) ! j"
    if "i < length (t_players t @ t_hand_order t)" "j < length (t_players t @ t_hand_order t)" for i j
    using reload_sharing [OF ptr] that .
  ultimately show ?thesis using reload_live [OF ptr] by blast
qed

lemma reload_roundtrip_witness:
  "hand_live (reload preflop_table) \<and> table_chips (reload preflop_table) = 3000 \<and>
   t_hand_order (reload preflop_table) ! 1 = t_players (reload preflop_table) ! 1"
proof -
  have ptr: "seats_by_pointer preflop_table"
    by (simp add: seats_by_pointer_def seat_ids_def preflop_fields)
  have n: "length (t_players preflop_table @ t_hand_order preflop_table) = 6"
    "length (t_players (reload preflop_table)) = 3"
    by (simp_all add: preflop_fields reload_players)
  have "(t_players (reload preflop_table) @ t_hand_order (reload preflop_table)) ! 4 =
      (t_players (reload preflop_table) @ t_hand_order (reload preflop_table)) ! 1"
    using reload_roundtrip [OF ptr] n(1) by (simp add: preflop_fields)
  then have "t_hand_order (reload preflop_table) ! 1 = t_players (reload preflop_table) ! 1"
    using n(2) by (simp add: nth_append)
  then show ?thesis using reload_roundtrip [OF ptr] preflop_live preflop_chips by simp
qed

end
