(* ===== verification/Table_Store.thy ===== *)
theory Table_Store
  imports Hand_Persist
begin

text \<open>
  The table store, \<open>api/internal/tablestore\<close>: one DynamoDB item per table under a version counter, an
  append-only action log, and idempotency guards. DynamoDB is not part of the repository. A program
  that talks to it is a tree \<open>io\<close> whose inner nodes are the calls that leave the process, each with one
  subtree per answer; what DynamoDB may answer is a parameter of the runs (\<open>Fleet\<close>).
\<close>

section \<open>What is stored\<close>

record replay_seat =
  rv_player_id :: string
  rv_name :: string
  rv_stack :: int
  rv_state :: string
  rv_contributed :: int
  rv_dealt_in :: bool

record replay_frame =
  rf_stage :: string
  rf_board :: "string list"
  rf_board_two :: "string list"
  rf_board_split_at :: nat
  rf_seats :: "replay_seat list"
  rf_current_player_id :: string
  rf_dealer_player_id :: string
  rf_small_blind_player_id :: string
  rf_big_blind_player_id :: string
  rf_pot :: int
  rf_payouts :: "(string \<times> int) list"
  rf_winners :: "string list"

record action_log_entry =
  le_table_id :: string
  le_hand_id :: string
  le_version :: nat
  le_seq :: nat
  le_player_id :: string
  le_action_id :: string
  le_action :: string
  le_betting_action :: string
  le_amount :: int
  le_time_bank_ms :: int
  le_message :: string
  le_reaction_id :: string
  le_target_player_id :: string
  le_selection :: string
  le_timestamp :: int
  le_frame :: "replay_frame option"

record chat_message =
  cm_id :: string
  cm_player_id :: string
  cm_message :: string
  cm_timestamp :: int

record reaction =
  rx_id :: string
  rx_player_id :: string
  rx_reaction_id :: string
  rx_target_player_id :: string
  rx_timestamp :: int
  rx_expires_at :: int

record preselection =
  ps_selection :: string
  ps_amount :: int
  ps_hand_id :: string
  ps_stage :: string

record table_activity =
  ta_chat :: "chat_message list"
  ta_reactions :: "reaction list"
  ta_preselections :: "(string \<times> preselection) list"

definition no_activity :: table_activity where
  "no_activity = \<lparr>ta_chat = [], ta_reactions = [], ta_preselections = []\<rparr>"

text \<open>A version is never negative; an attribute the item does not have reads as zero.\<close>

record stored_table =
  st_version :: nat
  st_gameplay_version :: nat
  st_hand_id :: string
  st_state :: saved_state
  st_activity :: table_activity
  st_turn_deadline_ms :: int
  st_next_hand_deadline_ms :: int
  st_last_action_at :: int
  st_archived :: bool
  st_gsi_active :: bool
  st_ttl :: int

definition cosmetic_action :: "string \<Rightarrow> bool" where
  "cosmetic_action a \<longleftrightarrow> a = ''chat'' \<or> a = ''reaction'' \<or> a = ''peek_cards''"

text \<open>
  \<open>'x\<close> is everything else the same database holds (settlements, reaction ledger): items of other
  packages come as opaque conditional writes.
\<close>

record 'x database =
  db_tables :: "string \<rightharpoonup> stored_table"
  db_log :: "string \<times> string \<rightharpoonup> action_log_entry"
  db_guards :: "string \<rightharpoonup> nat"
  db_history :: "(string \<times> string \<times> saved_state) list"
  db_other :: 'x

section \<open>Transactions\<close>

datatype 'x tx_item =
    UpdateState string nat "stored_table \<Rightarrow> stored_table"
  | PutStateIfAbsent string stored_table
  | PutLog "string \<times> string" action_log_entry
  | PutGuardIfAbsent string nat
  | OtherItem "'x \<Rightarrow> bool" "'x \<Rightarrow> 'x"

text \<open>
  What other packages add to a commit (a settlement row, the use of a reaction) is a condition and an
  effect on their own tables.
\<close>

type_synonym 'x other_item = "('x \<Rightarrow> bool) \<times> ('x \<Rightarrow> 'x)"

text \<open>The condition and the effect of an item, as its expressions state them.\<close>

fun item_holds :: "'x database \<Rightarrow> 'x tx_item \<Rightarrow> bool" where
  "item_holds d (UpdateState pk expected f) \<longleftrightarrow>
     (case db_tables d pk of None \<Rightarrow> False | Some s \<Rightarrow> st_version s = expected)"
| "item_holds d (PutStateIfAbsent pk s) \<longleftrightarrow> db_tables d pk = None"
| "item_holds d (PutLog key e) \<longleftrightarrow> True"
| "item_holds d (PutGuardIfAbsent key v) \<longleftrightarrow> db_guards d key = None"
| "item_holds d (OtherItem c f) \<longleftrightarrow> c (db_other d)"

fun item_apply :: "'x tx_item \<Rightarrow> 'x database \<Rightarrow> 'x database" where
  "item_apply (UpdateState pk expected f) d = d\<lparr>db_tables := (db_tables d)(pk := map_option f (db_tables d pk))\<rparr>"
| "item_apply (PutStateIfAbsent pk s) d = d\<lparr>db_tables := (db_tables d)(pk \<mapsto> s)\<rparr>"
| "item_apply (PutLog key e) d = d\<lparr>db_log := (db_log d)(key \<mapsto> e)\<rparr>"
| "item_apply (PutGuardIfAbsent key v) d = d\<lparr>db_guards := (db_guards d)(key \<mapsto> v)\<rparr>"
| "item_apply (OtherItem c f) d = d\<lparr>db_other := f (db_other d)\<rparr>"

definition tx_holds :: "'x database \<Rightarrow> 'x tx_item list \<Rightarrow> bool" where
  "tx_holds d items \<longleftrightarrow> list_all (item_holds d) items"

definition tx_apply :: "'x tx_item list \<Rightarrow> 'x database \<Rightarrow> 'x database" where
  "tx_apply items = fold item_apply items"

section \<open>Programs that leave the process\<close>

datatype tx_result = TxOk | TxConditionFailed | TxConflict | TxThrottled | TxFailed

datatype get_result = GetFailed | GetItem stored_table | GetUndecodable | GetMissing | GetUnprocessed

datatype guard_result = GuardFailed | GuardItem "nat option"

datatype 'x hook_reply = HookFailed | HookAnswer bool | HookItem "'x other_item option"

datatype hook_call =
    ReactionOwnership string string
  | ReactionMarkUsed string string
  | ClaimHandHooks string string

text \<open>
  \<open>Clock\<close> is \<open>timeNowFunc\<close> in nanoseconds, \<open>NewULID\<close> a fresh ULID, \<open>Entropy\<close> what \<open>crypto/rand\<close> gives
  to \<open>StartHand\<close>, \<open>Hook\<close> a call of a hook wired by another package.
\<close>

datatype ('x, 'a) io =
    Return 'a
  | Transact "'x tx_item list" "tx_result \<Rightarrow> ('x, 'a) io"
  | BatchGet string "get_result \<Rightarrow> ('x, 'a) io"
  | GetGuard string "guard_result \<Rightarrow> ('x, 'a) io"
  | PutHistory string string saved_state "bool \<Rightarrow> ('x, 'a) io"
  | Clock "int \<Rightarrow> ('x, 'a) io"
  | NewULID "string \<Rightarrow> ('x, 'a) io"
  | Entropy "bytes random \<times> 64 word random list \<Rightarrow> ('x, 'a) io"
  | Hook hook_call "'x hook_reply \<Rightarrow> ('x, 'a) io"

primrec io_bind :: "('x, 'a) io \<Rightarrow> ('a \<Rightarrow> ('x, 'b) io) \<Rightarrow> ('x, 'b) io" where
  "io_bind (Return x) f = f x"
| "io_bind (Transact items k) f = Transact items (\<lambda>r. io_bind (k r) f)"
| "io_bind (BatchGet pk k) f = BatchGet pk (\<lambda>r. io_bind (k r) f)"
| "io_bind (GetGuard key k) f = GetGuard key (\<lambda>r. io_bind (k r) f)"
| "io_bind (PutHistory pk sk s k) f = PutHistory pk sk s (\<lambda>r. io_bind (k r) f)"
| "io_bind (Clock k) f = Clock (\<lambda>r. io_bind (k r) f)"
| "io_bind (NewULID k) f = NewULID (\<lambda>r. io_bind (k r) f)"
| "io_bind (Entropy k) f = Entropy (\<lambda>r. io_bind (k r) f)"
| "io_bind (Hook c k) f = Hook c (\<lambda>r. io_bind (k r) f)"

lemma io_bind_assoc [simp]: "io_bind (io_bind m f) g = io_bind m (\<lambda>x. io_bind (f x) g)"
  by (induction m) simp_all

lemma io_bind_return [simp]: "io_bind m Return = m"
  by (induction m) simp_all

section \<open>The commit circuit\<close>

text \<open>
  \<open>breaker.go\<close>. A zero \<open>openUntil\<close> is \<open>None\<close>: no reading of the clock lies before it. Times and
  durations are in nanoseconds.
\<close>

datatype store_error = VersionConflict | DuplicateAction | Unavailable | CommitThrottled | StoreFailed

definition max_consecutive_rejections :: nat where "max_consecutive_rejections = 32"
definition commit_cooldown_base :: int where "commit_cooldown_base = 2000000000"
definition commit_cooldown_max :: int where "commit_cooldown_max = 60000000000"
definition commit_budget_soft_cap :: nat where "commit_budget_soft_cap = 512"
definition commit_budget_idle_ttl :: int where "commit_budget_idle_ttl = 300000000000"

record commit_budget =
  cb_rejections :: nat
  cb_open_until :: "int option"
  cb_cooldown :: int
  cb_half_open :: bool
  cb_probing :: bool
  cb_last_seen :: int

definition fresh_budget :: commit_budget where
  "fresh_budget = \<lparr>cb_rejections = 0, cb_open_until = None, cb_cooldown = 0, cb_half_open = False,
     cb_probing = False, cb_last_seen = 0\<rparr>"

type_synonym breaker = "(string \<times> commit_budget) list"

definition still_open :: "int \<Rightarrow> commit_budget \<Rightarrow> bool" where
  "still_open now g \<longleftrightarrow> (case cb_open_until g of None \<Rightarrow> False | Some u \<Rightarrow> now < u)"

definition evict_idle :: "int \<Rightarrow> breaker \<Rightarrow> breaker" where
  "evict_idle now b =
     (if length b \<le> commit_budget_soft_cap then b
      else filter (\<lambda>(k, g). \<not> (now - cb_last_seen g > commit_budget_idle_ttl \<and> \<not> still_open now g)) b)"

definition allow_budget :: "int \<Rightarrow> commit_budget \<Rightarrow> bool \<times> commit_budget" where
  "allow_budget now g =
     (let g = g\<lparr>cb_last_seen := now\<rparr>
      in if still_open now g then (False, g)
         else if cb_half_open g
              then if cb_probing g then (False, g) else (True, g\<lparr>cb_probing := True\<rparr>)
              else (True, g))"

definition breaker_allow :: "string \<Rightarrow> int \<Rightarrow> breaker \<Rightarrow> bool \<times> breaker" where
  "breaker_allow tid now b =
     (let (b, g) = (case map_of b tid of None \<Rightarrow> (evict_idle now b, fresh_budget) | Some g \<Rightarrow> (b, g));
          (ok, g) = allow_budget now g
      in (ok, AList.update tid g b))"

definition open_circuit :: "int \<Rightarrow> commit_budget \<Rightarrow> commit_budget" where
  "open_circuit now g =
     (let cooldown = (if cb_cooldown g = 0 then commit_cooldown_base
                      else if cb_cooldown g < commit_cooldown_max then min (cb_cooldown g * 2) commit_cooldown_max
                      else cb_cooldown g)
      in g\<lparr>cb_cooldown := cooldown, cb_open_until := Some (now + cooldown), cb_half_open := True,
            cb_probing := False, cb_rejections := 0\<rparr>)"

definition close_circuit :: "commit_budget \<Rightarrow> commit_budget" where
  "close_circuit g = g\<lparr>cb_rejections := 0, cb_half_open := False, cb_cooldown := 0, cb_open_until := None\<rparr>"

definition record_verdict :: "int \<Rightarrow> store_error option \<Rightarrow> commit_budget \<Rightarrow> commit_budget" where
  "record_verdict now verdict g =
     (let g = g\<lparr>cb_last_seen := now\<rparr>;
          rejected = (verdict = Some VersionConflict \<or> verdict = Some DuplicateAction)
      in if cb_probing g
         then let g = g\<lparr>cb_probing := False\<rparr>
              in if rejected then open_circuit now g else if verdict = None then close_circuit g else g
         else if verdict = None then close_circuit g
         else if rejected
         then let g = g\<lparr>cb_rejections := cb_rejections g + 1\<rparr>
              in if cb_rejections g \<ge> max_consecutive_rejections then open_circuit now g else g
         else g)"

definition breaker_record :: "string \<Rightarrow> int \<Rightarrow> store_error option \<Rightarrow> breaker \<Rightarrow> breaker" where
  "breaker_record tid now verdict b =
     (case map_of b tid of None \<Rightarrow> b | Some g \<Rightarrow> AList.update tid (record_verdict now verdict g) b)"

section \<open>Reading and writing a table\<close>

definition unix_milli :: "int \<Rightarrow> int" where "unix_milli t = t div 1000000"
definition unix_sec :: "int \<Rightarrow> int" where "unix_sec t = t div 1000000000"
definition state_ttl :: int where "state_ttl = 7 * 24 * 3600 * 1000000000"

text \<open>\<open>%010d\<close> and \<open>%d\<close>.\<close>

fun decimal :: "nat \<Rightarrow> string" where
  "decimal n = (if n < 10 then [''0123456789'' ! n] else decimal (n div 10) @ [''0123456789'' ! (n mod 10)])"

declare decimal.simps [simp del]

definition decimal_int :: "int \<Rightarrow> string" where
  "decimal_int i = (if i < 0 then CHR ''-'' # decimal (nat (- i)) else decimal (nat i))"

definition log_sk :: "nat \<Rightarrow> string" where
  "log_sk v = (let d = decimal v in replicate (10 - length d) (CHR ''0'') @ d)"

definition hand_key :: "string \<Rightarrow> string \<Rightarrow> string" where
  "hand_key tid hand_id = tid @ ''#'' @ hand_id"

definition guard_key :: "string \<Rightarrow> string \<Rightarrow> string \<Rightarrow> string" where
  "guard_key tid hand_id action_id = hand_key tid hand_id @ ''#'' @ action_id"

definition save_table_state_history :: "string \<Rightarrow> int \<Rightarrow> saved_state \<Rightarrow> ('x, bool) io" where
  "save_table_state_history tid seconds s = PutHistory tid (decimal_int seconds) s Return"

definition seed_table :: "string \<Rightarrow> saved_state \<Rightarrow> ('x, store_error option) io" where
  "seed_table tid s =
     Clock (\<lambda>at. Clock (\<lambda>ttl.
       Transact [PutStateIfAbsent tid
           \<lparr>st_version = 1, st_gameplay_version = 0, st_hand_id = '''', st_state = s, st_activity = no_activity,
            st_turn_deadline_ms = 0, st_next_hand_deadline_ms = 0, st_last_action_at = unix_sec at,
            st_archived = False, st_gsi_active = True, st_ttl = unix_sec (ttl + state_ttl)\<rparr>]
         (\<lambda>r. Return (case r of TxOk \<Rightarrow> None | TxConditionFailed \<Rightarrow> None | _ \<Rightarrow> Some Unavailable))))"

primrec load_attempts :: "nat \<Rightarrow> string \<Rightarrow> ('x, store_error + stored_table option) io" where
  "load_attempts 0 tid = Return (Inl Unavailable)"
| "load_attempts (Suc n) tid =
     BatchGet tid (\<lambda>r. case r of
         GetFailed \<Rightarrow> Return (Inl Unavailable)
       | GetItem s \<Rightarrow> Return (Inr (Some s))
       | GetUndecodable \<Rightarrow> Return (Inl StoreFailed)
       | GetMissing \<Rightarrow> Return (Inr None)
       | GetUnprocessed \<Rightarrow> load_attempts n tid)"

definition load_table :: "string \<Rightarrow> ('x, store_error + stored_table option) io" where
  "load_table tid = load_attempts 3 tid"

definition mark_archived :: "string \<Rightarrow> nat \<Rightarrow> ('x, store_error option) io" where
  "mark_archived tid expected =
     Transact [UpdateState tid expected (\<lambda>s. s\<lparr>st_archived := True, st_gsi_active := False\<rparr>)]
       (\<lambda>r. Return (case r of TxOk \<Rightarrow> None | TxConditionFailed \<Rightarrow> Some VersionConflict | _ \<Rightarrow> Some StoreFailed))"

text \<open>What a commit sets: a cosmetic one leaves \<open>gameplay_version\<close> alone.\<close>

record commit_values =
  cv_version :: nat
  cv_hand_id :: string
  cv_state :: saved_state
  cv_activity :: table_activity
  cv_turn_deadline :: int
  cv_next_hand_deadline :: int
  cv_last_action_at :: int
  cv_ttl :: int

definition set_committed :: "commit_values \<Rightarrow> bool \<Rightarrow> stored_table \<Rightarrow> stored_table" where
  "set_committed v cosmetic s =
     s\<lparr>st_version := cv_version v, st_gameplay_version := (if cosmetic then st_gameplay_version s else cv_version v),
       st_hand_id := cv_hand_id v, st_state := cv_state v, st_activity := cv_activity v,
       st_turn_deadline_ms := cv_turn_deadline v, st_next_hand_deadline_ms := cv_next_hand_deadline v,
       st_last_action_at := cv_last_action_at v, st_ttl := cv_ttl v\<rparr>"

definition commit_items :: "string \<Rightarrow> string \<Rightarrow> string \<Rightarrow> nat \<Rightarrow> commit_values \<Rightarrow> action_log_entry \<Rightarrow>
    'x other_item list \<Rightarrow> 'x tx_item list" where
  "commit_items tid hand_id action_id expected v entry extra =
     [UpdateState tid expected (set_committed v (cosmetic_action (le_action entry))),
      PutLog (hand_key tid hand_id, log_sk (le_version entry)) entry] @ map (\<lambda>(c, f). OtherItem c f) extra @
     (if action_id \<noteq> '''' then [PutGuardIfAbsent (guard_key tid hand_id action_id) (le_version entry)] else [])"

definition resolve_commit_err :: "string \<Rightarrow> string \<Rightarrow> string \<Rightarrow> tx_result \<Rightarrow> ('x, store_error) io" where
  "resolve_commit_err tid hand_id action_id r =
     (if r \<noteq> TxConditionFailed then Return Unavailable
      else if action_id = '''' then Return VersionConflict
      else GetGuard (guard_key tid hand_id action_id) (\<lambda>g. Return (case g of
          GuardFailed \<Rightarrow> Unavailable
        | GuardItem (Some _) \<Rightarrow> DuplicateAction
        | GuardItem None \<Rightarrow> VersionConflict)))"

definition commit_action :: "string \<Rightarrow> string \<Rightarrow> string \<Rightarrow> nat \<Rightarrow> saved_state \<Rightarrow> table_activity \<Rightarrow> int \<Rightarrow> int \<Rightarrow>
    action_log_entry \<Rightarrow> 'x other_item list \<Rightarrow> breaker \<Rightarrow> ('x, store_error option \<times> breaker) io" where
  "commit_action tid hand_id action_id expected new_state activity turn_deadline next_hand_deadline entry extra b =
     Clock (\<lambda>stamp. Clock (\<lambda>at. Clock (\<lambda>ttl. Clock (\<lambda>now.
       let entry = entry\<lparr>le_timestamp := unix_milli stamp\<rparr>;
           v = \<lparr>cv_version = expected + 1, cv_hand_id = hand_id, cv_state = new_state, cv_activity = activity,
                cv_turn_deadline = turn_deadline, cv_next_hand_deadline = next_hand_deadline,
                cv_last_action_at = unix_sec at, cv_ttl = unix_sec (ttl + state_ttl)\<rparr>;
           (ok, b) = breaker_allow tid now b
       in if \<not> ok then Return (Some CommitThrottled, b)
          else Transact (commit_items tid hand_id action_id expected v entry extra) (\<lambda>r.
            if r = TxOk then Clock (\<lambda>later. Return (None, breaker_record tid later None b))
            else io_bind (resolve_commit_err tid hand_id action_id r) (\<lambda>e.
              Clock (\<lambda>later. Return (Some e, breaker_record tid later (Some e) b))))))))"

section \<open>Reading the log\<close>

text \<open>Rows that do not decode are skipped; a row older than the field \<open>Seq\<close> is numbered by its place.\<close>

definition number_rows :: "('a \<Rightarrow> nat) \<Rightarrow> (nat \<Rightarrow> 'a \<Rightarrow> 'a) \<Rightarrow> 'a option list \<Rightarrow> 'a list" where
  "number_rows sq set_sq rows =
     concat (map (\<lambda>(i, row). case row of None \<Rightarrow> [] | Some e \<Rightarrow> [if sq e = 0 then set_sq (i + 1) e else e])
       (zip [0..<length rows] rows))"

definition load_actions_since :: "nat \<Rightarrow> action_log_entry option list \<Rightarrow> action_log_entry list" where
  "load_actions_since after_seq rows =
     filter (\<lambda>e. le_seq e > after_seq) (number_rows le_seq (\<lambda>i e. e\<lparr>le_seq := i\<rparr>) rows)"

record timeline_event =
  te_seq :: nat
  te_player_id :: string
  te_action :: string
  te_amount :: int
  te_timestamp :: int

definition timeline_from :: "timeline_event option list \<Rightarrow> timeline_event list" where
  "timeline_from rows =
     filter (\<lambda>e. te_action e \<notin> {''chat'', ''reaction'', ''peek_cards''})
       (number_rows te_seq (\<lambda>i e. e\<lparr>te_seq := i\<rparr>) rows)"

section \<open>What the circuit guarantees\<close>

text \<open>
  The commits one table attempts: when each asks, when its verdict arrives, and the verdict DynamoDB would
  give. The result says which of them reach DynamoDB.
\<close>

fun admits :: "(int \<times> int \<times> store_error option) list \<Rightarrow> commit_budget \<Rightarrow> bool list" where
  "admits [] g = []"
| "admits ((asked, answered, verdict) # xs) g =
     (let (ok, g) = allow_budget asked g
      in ok # admits xs (if ok then record_verdict answered verdict g else g))"

definition rejection :: "store_error option \<Rightarrow> bool" where
  "rejection v \<longleftrightarrow> v = Some VersionConflict \<or> v = Some DuplicateAction"

fun in_order :: "int \<Rightarrow> (int \<times> int \<times> store_error option) list \<Rightarrow> int \<Rightarrow> bool" where
  "in_order from [] until \<longleftrightarrow> from \<le> until"
| "in_order from ((asked, answered, verdict) # xs) until \<longleftrightarrow>
     from \<le> asked \<and> asked \<le> answered \<and> in_order answered xs until"

abbreviation sent :: "bool list \<Rightarrow> nat" where "sent bs \<equiv> length (filter (\<lambda>b. b) bs)"

text \<open>A circuit that has not tripped.\<close>

definition closed_budget :: "commit_budget \<Rightarrow> bool" where
  "closed_budget g \<longleftrightarrow> cb_open_until g = None \<and> \<not> cb_half_open g \<and> \<not> cb_probing g \<and> cb_cooldown g = 0"

lemma closed_allow: "closed_budget g \<Longrightarrow> allow_budget t g = (True, g\<lparr>cb_last_seen := t\<rparr>)"
  by (simp add: closed_budget_def allow_budget_def still_open_def)

text \<open>Doublings left before the cooldown is the longest.\<close>

definition doublings :: "int \<Rightarrow> nat" where
  "doublings c = (if c \<ge> commit_cooldown_max then 0 else if c \<ge> 32000000000 then 1 else if c \<ge> 16000000000 then 2
     else if c \<ge> 8000000000 then 3 else if c \<ge> 4000000000 then 4 else 5)"

definition tripped :: "int \<Rightarrow> commit_budget \<Rightarrow> bool" where
  "tripped u g \<longleftrightarrow> cb_half_open g \<and> \<not> cb_probing g \<and> cb_open_until g = Some u \<and> commit_cooldown_base \<le> cb_cooldown g"

definition probes_left :: "int \<Rightarrow> commit_budget \<Rightarrow> int \<Rightarrow> nat" where
  "probes_left u g until = (if until < u then 0 else Suc (doublings (cb_cooldown g) + nat ((until - u) div commit_cooldown_max)))"

lemma tripped_blocked:
  assumes "tripped u g" and "t < u"
  shows "allow_budget t g = (False, g\<lparr>cb_last_seen := t\<rparr>)" and "tripped u (g\<lparr>cb_last_seen := t\<rparr>)"
  using assms by (simp_all add: tripped_def allow_budget_def still_open_def)

lemma tripped_probe:
  assumes g: "tripped u g" and t: "u \<le> t" "t \<le> e" "e \<le> until" and v: "rejection v"
  shows "fst (allow_budget t g)" and "\<exists>u'. tripped u' (record_verdict e v (snd (allow_budget t g))) \<and>
    probes_left u' (record_verdict e v (snd (allow_budget t g))) until < probes_left u g until"
proof -
  have a: "allow_budget t g = (True, g\<lparr>cb_last_seen := t, cb_probing := True\<rparr>)"
    using assms by (simp add: tripped_def allow_budget_def still_open_def)
  then show "fst (allow_budget t g)" by simp
  let ?g = "record_verdict e v (snd (allow_budget t g))" and ?c = "cb_cooldown g"
  let ?c' = "if ?c < commit_cooldown_max then min (?c * 2) commit_cooldown_max else ?c"
  have base: "commit_cooldown_base \<le> ?c" using g by (simp add: tripped_def)
  have new: "tripped (e + ?c') ?g" "cb_cooldown ?g = ?c'"
    using g a v by (auto simp: tripped_def record_verdict_def rejection_def open_circuit_def Let_def
        commit_cooldown_base_def commit_cooldown_max_def)
  have fewer: "doublings ?c' + nat ((until - (e + ?c')) div commit_cooldown_max) <
      doublings ?c + nat ((until - u) div commit_cooldown_max)" if later: "e + ?c' \<le> until"
  proof (cases "?c < commit_cooldown_max")
    case True
    then have "doublings ?c' < doublings ?c"
      using base by (auto simp: doublings_def commit_cooldown_max_def commit_cooldown_base_def min_def)
    moreover have "(until - (e + ?c')) div commit_cooldown_max \<le> (until - u) div commit_cooldown_max"
      using True base t by (intro zdiv_mono1) (auto simp: commit_cooldown_max_def commit_cooldown_base_def min_def)
    ultimately show ?thesis by linarith
  next
    case False
    then have "(until - (e + ?c')) div commit_cooldown_max + 1 \<le> (until - u) div commit_cooldown_max"
      "0 \<le> (until - (e + ?c')) div commit_cooldown_max"
      using later t by (auto simp: commit_cooldown_max_def)
    then show ?thesis using False by simp
  qed
  have "probes_left (e + ?c') ?g until < probes_left u g until"
    using fewer new(2) t by (simp add: probes_left_def not_less)
  with new(1) show "\<exists>u'. tripped u' ?g \<and> probes_left u' ?g until < probes_left u g until" by blast
qed

lemma tripped_sent:
  assumes "tripped u g" and "in_order from xs until" and "\<forall>(a, b, v)\<in>set xs. rejection v"
  shows "sent (admits xs g) \<le> probes_left u g until"
  using assms
proof (induction xs arbitrary: u g "from")
  case (Cons x xs)
  obtain t e v where x: "x = (t, e, v)" by (cases x)
  have order: "t \<le> e" "in_order e xs until" and v: "rejection v" using Cons.prems x by auto
  have until: "e \<le> until" using order(2) by (induction e xs until rule: in_order.induct) auto
  show ?case
  proof (cases "t < u")
    case True
    then show ?thesis using Cons.IH [OF tripped_blocked(2) [OF Cons.prems(1) True] order(2)] Cons.prems(3)
        tripped_blocked(1) [OF Cons.prems(1) True] x by (simp add: probes_left_def split: if_splits)
  next
    case False
    let ?g = "record_verdict e v (snd (allow_budget t g))"
    have probe: "fst (allow_budget t g)" using tripped_probe(1) [OF Cons.prems(1) _ order(1) until v] False by simp
    obtain u' where u': "tripped u' ?g" "probes_left u' ?g until < probes_left u g until"
      using tripped_probe(2) [OF Cons.prems(1) _ order(1) until v] False by auto
    have "sent (admits xs ?g) \<le> probes_left u' ?g until" using Cons.IH [OF u'(1) order(2)] Cons.prems(3) by simp
    then show ?thesis using probe u'(2) x by (cases "allow_budget t g") simp
  qed
qed simp

text \<open>A rejection of a closed circuit counts, and the last one trips it.\<close>

lemma closed_rejected:
  assumes "closed_budget g" and "rejection v" and "Suc (cb_rejections g) < max_consecutive_rejections"
  shows "closed_budget (record_verdict e v (g\<lparr>cb_last_seen := t\<rparr>))"
    and "cb_rejections (record_verdict e v (g\<lparr>cb_last_seen := t\<rparr>)) = Suc (cb_rejections g)"
  using assms by (auto simp: closed_budget_def record_verdict_def rejection_def Let_def)

lemma closed_trips:
  assumes "closed_budget g" and "rejection v" and "max_consecutive_rejections \<le> Suc (cb_rejections g)"
  shows "tripped (e + commit_cooldown_base) (record_verdict e v (g\<lparr>cb_last_seen := t\<rparr>))"
    and "cb_cooldown (record_verdict e v (g\<lparr>cb_last_seen := t\<rparr>)) = commit_cooldown_base"
  using assms
  by (auto simp: closed_budget_def record_verdict_def rejection_def open_circuit_def tripped_def Let_def
      commit_cooldown_base_def)

lemma closed_sent:
  assumes "closed_budget g" and "in_order from xs until" and "\<forall>(a, b, v)\<in>set xs. rejection v"
  shows "int (sent (admits xs g)) \<le> int (max_consecutive_rejections - cb_rejections g) +
    7 + (until - from) div commit_cooldown_max"
  using assms
proof (induction xs arbitrary: g "from")
  case Nil
  then show ?case by (simp add: commit_cooldown_max_def)
next
  case (Cons x xs)
  obtain t e v where x: "x = (t, e, v)" by (cases x)
  have order: "from \<le> t" "t \<le> e" "in_order e xs until" and v: "rejection v" using Cons.prems x by auto
  have until: "e \<le> until" using order(3) by (induction e xs until rule: in_order.induct) auto
  note allow = closed_allow [OF Cons.prems(1), of t]
  let ?g = "record_verdict e v (g\<lparr>cb_last_seen := t\<rparr>)"
  have mono: "(until - e) div commit_cooldown_max \<le> (until - from) div commit_cooldown_max"
    using order by (intro zdiv_mono1) (auto simp: commit_cooldown_max_def)
  have sent: "sent (admits (x # xs) g) = Suc (sent (admits xs ?g))" using allow x by simp
  show ?case
  proof (cases "Suc (cb_rejections g) < max_consecutive_rejections")
    case True
    note counted = closed_rejected [OF Cons.prems(1) v True, of e t]
    have "int (sent (admits xs ?g)) \<le> int (max_consecutive_rejections - cb_rejections ?g) +
      7 + (until - e) div commit_cooldown_max"
      using Cons.IH [OF counted(1) order(3)] Cons.prems(3) by simp
    then show ?thesis using sent counted(2) mono True by simp
  next
    case False
    note trip = closed_trips [OF Cons.prems(1) v, of e t]
    have "sent (admits xs ?g) \<le> probes_left (e + commit_cooldown_base) ?g until"
      using tripped_sent [OF trip(1) order(3)] Cons.prems(3) False by simp
    moreover have "int (probes_left (e + commit_cooldown_base) ?g until) \<le> 6 + (until - from) div commit_cooldown_max"
    proof -
      have "(until - (e + commit_cooldown_base)) div commit_cooldown_max \<le> (until - from) div commit_cooldown_max"
        "0 \<le> (until - from) div commit_cooldown_max"
        using order until by (auto intro!: zdiv_mono1 simp: commit_cooldown_max_def commit_cooldown_base_def)
      then show ?thesis using trip(2) False
        by (auto simp: probes_left_def doublings_def commit_cooldown_max_def commit_cooldown_base_def)
    qed
    ultimately show ?thesis using sent False by simp
  qed
qed

text \<open>A run in which no table sees 32 rejections without an accepted commit in between.\<close>

fun calm :: "nat \<Rightarrow> (int \<times> int \<times> store_error option) list \<Rightarrow> bool" where
  "calm n [] \<longleftrightarrow> True"
| "calm n ((asked, answered, verdict) # xs) \<longleftrightarrow>
     (if rejection verdict then n + 1 < max_consecutive_rejections \<and> calm (n + 1) xs
      else calm (if verdict = None then 0 else n) xs)"

lemma closed_record:
  assumes "closed_budget g" and "cb_rejections g \<le> n" and "rejection v \<Longrightarrow> n + 1 < max_consecutive_rejections"
  shows "closed_budget (record_verdict e v g) \<and>
    cb_rejections (record_verdict e v g) \<le> (if rejection v then n + 1 else if v = None then 0 else n)"
proof (cases "rejection v")
  case True
  then show ?thesis
    using closed_rejected [OF assms(1) True, of e "cb_last_seen g"] assms(2,3) by simp
next
  case False
  then show ?thesis
    using assms(1,2) by (auto simp: closed_budget_def record_verdict_def rejection_def close_circuit_def Let_def)
qed

section \<open>The circuit of one table among all tables of a process\<close>

text \<open>
  What reaches the breaker: a table asks to commit, and a commit that was sent gets its verdict. The run
  says which commits of one table were sent; a commit that was refused gets no verdict.
\<close>

datatype breaker_event = Asks string int | Answers string int "store_error option"

fun event_table :: "breaker_event \<Rightarrow> string" where
  "event_table (Asks k now) = k"
| "event_table (Answers k now v) = k"

fun event_time :: "breaker_event \<Rightarrow> int" where
  "event_time (Asks k now) = now"
| "event_time (Answers k now v) = now"

fun process_run :: "string \<Rightarrow> bool \<Rightarrow> breaker \<Rightarrow> breaker_event list \<Rightarrow> bool list" where
  "process_run tid busy b [] = []"
| "process_run tid busy b (Asks k now # es) =
     (let (ok, b') = breaker_allow k now b
      in if k = tid then ok # process_run tid ok b' es else process_run tid busy b' es)"
| "process_run tid busy b (Answers k now v # es) =
     (if k = tid then process_run tid False (if busy then breaker_record k now v b else b) es
      else process_run tid busy (breaker_record k now v b) es)"

abbreviation own_events :: "string \<Rightarrow> breaker_event list \<Rightarrow> breaker_event list" where
  "own_events tid es \<equiv> filter (\<lambda>e. event_table e = tid) es"

fun commit_events :: "string \<Rightarrow> (int \<times> int \<times> store_error option) list \<Rightarrow> breaker_event list" where
  "commit_events tid [] = []"
| "commit_events tid ((asked, answered, verdict) # xs) =
     Asks tid asked # Answers tid answered verdict # commit_events tid xs"

text \<open>The table asks again within the five minutes after which an idle budget may be dropped.\<close>

fun spaced :: "int \<Rightarrow> (int \<times> int \<times> store_error option) list \<Rightarrow> bool" where
  "spaced seen [] \<longleftrightarrow> True"
| "spaced seen ((asked, answered, verdict) # xs) \<longleftrightarrow> asked - seen \<le> commit_budget_idle_ttl \<and> spaced asked xs"

lemma map_of_filter_keep: "map_of b k = Some g \<Longrightarrow> P (k, g) \<Longrightarrow> map_of (filter P b) k = Some g"
  by (induction b) (auto split: if_splits)

lemma map_of_filter_None: "map_of b k = None \<Longrightarrow> map_of (filter P b) k = None"
  by (induction b) (auto split: if_splits)

lemma evict_keeps:
  "map_of b tid = Some g \<Longrightarrow> now - cb_last_seen g \<le> commit_budget_idle_ttl \<Longrightarrow>
   map_of (evict_idle now b) tid = Some g"
  by (auto simp: evict_idle_def intro!: map_of_filter_keep)

lemma evict_None: "map_of b tid = None \<Longrightarrow> map_of (evict_idle now b) tid = None"
  by (simp add: evict_idle_def map_of_filter_None)

lemma allow_other:
  assumes "k \<noteq> tid"
  shows "map_of (snd (breaker_allow k now b)) tid =
    map_of (if map_of b k = None then evict_idle now b else b) tid"
  using assms by (auto simp: breaker_allow_def update_conv' Let_def split: option.split prod.split)

lemma record_other: "k \<noteq> tid \<Longrightarrow> map_of (breaker_record k now v b) tid = map_of b tid"
  by (auto simp: breaker_record_def update_conv' split: option.split)

lemma allow_own:
  assumes "map_of b tid = Some g"
  shows "fst (breaker_allow tid now b) = fst (allow_budget now g)"
    and "map_of (snd (breaker_allow tid now b)) tid = Some (snd (allow_budget now g))"
  using assms by (auto simp: breaker_allow_def update_conv' Let_def split: prod.split)

lemma allow_first:
  assumes "map_of b tid = None"
  shows "fst (breaker_allow tid now b) = fst (allow_budget now fresh_budget)"
    and "map_of (snd (breaker_allow tid now b)) tid = Some (snd (allow_budget now fresh_budget))"
  using assms by (auto simp: breaker_allow_def update_conv' Let_def split: prod.split)

lemma record_own:
  "map_of b tid = Some g \<Longrightarrow> map_of (breaker_record tid now v b) tid = Some (record_verdict now v g)"
  by (simp add: breaker_record_def update_conv')

lemma allow_seen: "cb_last_seen (snd (allow_budget now g)) = now"
  by (simp add: allow_budget_def Let_def)

lemma record_seen: "cb_last_seen (record_verdict now v g) = now"
  by (simp add: record_verdict_def open_circuit_def close_circuit_def Let_def)

lemma run_no_asks: "\<forall>now. Asks tid now \<notin> set es \<Longrightarrow> process_run tid busy b es = []"
proof (induction es arbitrary: busy b)
  case (Cons x es)
  then show ?case by (cases x) (auto split: prod.split)
qed simp

lemma own_asks:
  "own_events tid es = zs \<Longrightarrow> Asks tid now \<in> set zs \<longleftrightarrow> Asks tid now \<in> set es"
  by auto

lemma own_no_asks:
  assumes "own_events tid es = [] \<or> own_events tid es = [Answers tid e v]"
  shows "Asks tid now \<notin> set es"
  using assms own_asks [of tid es "[]" now] own_asks [of tid es "[Answers tid e v]" now] by auto

lemma commit_events_asks:
  "commit_events tid xs = Asks tid a # ys \<Longrightarrow> \<exists>e v xs'. xs = (a, e, v) # xs' \<and> ys = Answers tid e v # commit_events tid xs'"
  by (cases "(tid, xs)" rule: commit_events.cases) auto

lemma commit_events_answers: "commit_events tid xs \<noteq> Answers tid e v # ys"
  by (cases "(tid, xs)" rule: commit_events.cases) auto

text \<open>While the table keeps asking, its budget stays: the run is that of the budget alone.\<close>

lemma run_admits:
  assumes "sorted (map event_time es)" and "map_of b tid = Some g" and "seen \<le> cb_last_seen g"
    and "\<forall>x\<in>set es. seen \<le> event_time x" and "spaced seen xs"
  shows "(own_events tid es = commit_events tid xs \<longrightarrow> process_run tid False b es = admits xs g) \<and>
    (\<forall>e v busy. own_events tid es = Answers tid e v # commit_events tid xs \<longrightarrow>
       process_run tid busy b es = admits xs (if busy then record_verdict e v g else g))"
  using assms
proof (induction es arbitrary: b g seen xs)
  case Nil
  then show ?case by (cases "(tid, xs)" rule: commit_events.cases) auto
next
  case (Cons x es)
  show ?case
  proof (cases xs)
    case Nil
    then show ?thesis
      using run_no_asks [of tid "x # es"] own_no_asks [of tid "x # es"] by (metis admits.simps(1) commit_events.simps(1))
  next
    case (Cons y ys)
    note xs = Cons
    obtain a e0 v0 where y: "y = (a, e0, v0)" by (cases y)
    have sorted: "sorted (map event_time es)" "\<forall>z\<in>set es. event_time x \<le> event_time z"
      using Cons.prems(1) by auto
    have near: "event_time x - cb_last_seen g \<le> commit_budget_idle_ttl"
      if "Asks tid a \<in> set (x # es)"
    proof -
      have "event_time x \<le> a" using that sorted(2) by auto
      moreover have "a - seen \<le> commit_budget_idle_ttl" using Cons.prems(5) xs y by simp
      ultimately show ?thesis using Cons.prems(3) by simp
    qed
    have asks: "Asks tid a \<in> set (x # es)"
      if "own_events tid (x # es) = commit_events tid xs \<or> own_events tid (x # es) = Answers tid e v # commit_events tid xs" for e v
      using that own_asks [of tid "x # es" "commit_events tid xs" a]
        own_asks [of tid "x # es" "Answers tid e v # commit_events tid xs" a] xs y
      by (metis commit_events.simps(2) list.set_intros)
    have later: "\<forall>z\<in>set es. seen \<le> event_time z" using Cons.prems(4) by simp
    show ?thesis
    proof (cases "event_table x = tid")
      case False
      have same: ?thesis if "Asks tid a \<in> set (x # es) \<Longrightarrow> map_of b' tid = Some g"
        "\<And>busy. process_run tid busy b (x # es) = process_run tid busy b' es" for b'
        using Cons.IH [OF sorted(1) _ Cons.prems(3) later Cons.prems(5), of b'] that asks False by fastforce
      show ?thesis
      proof (cases x)
        case (Asks k now)
        show ?thesis
          by (rule same [of "snd (breaker_allow k now b)"])
            (use Asks False near Cons.prems(2) in \<open>auto simp: allow_other evict_keeps split: prod.split\<close>)
      next
        case (Answers k now v)
        show ?thesis
          by (rule same [of "breaker_record k now v b"])
            (use Answers False Cons.prems(2) in \<open>auto simp: record_other\<close>)
      qed
    next
      case True
      show ?thesis
      proof (cases x)
        case (Asks k now)
        then have x: "x = Asks tid now" using True by simp
        have "process_run tid False b (x # es) = admits xs g" if "own_events tid (x # es) = commit_events tid xs"
        proof -
          have own: "now = a" "own_events tid es = Answers tid e0 v0 # commit_events tid ys"
            using that x xs y by simp_all
          let ?g = "snd (allow_budget now g)"
          have "process_run tid ok (snd (breaker_allow tid now b)) es =
              admits ys (if ok then record_verdict e0 v0 ?g else ?g)" for ok
            using Cons.IH [OF sorted(1) allow_own(2) [OF Cons.prems(2), of now], of now ys] own sorted(2) Cons.prems(5) x xs y
            by (simp add: allow_seen)
          then show ?thesis
            using x xs y own(1) allow_own(1) [OF Cons.prems(2), of now]
            by (cases "breaker_allow tid now b"; cases "allow_budget now g") auto
        qed
        then show ?thesis using x by simp
      next
        case (Answers k now v)
        then have x: "x = Answers tid now v" using True by simp
        have "process_run tid busy b (x # es) = admits xs (if busy then record_verdict now v g else g)"
          if own: "own_events tid es = commit_events tid xs" for busy
        proof -
          let ?b = "if busy then breaker_record tid now v b else b"
          let ?g = "if busy then record_verdict now v g else g"
          have "map_of ?b tid = Some ?g" using record_own [OF Cons.prems(2)] Cons.prems(2) by simp
          moreover have "seen \<le> cb_last_seen ?g" using Cons.prems(3,4) x by (simp add: record_seen)
          ultimately have "process_run tid False ?b es = admits xs ?g"
            using Cons.IH [OF sorted(1) _ _ later Cons.prems(5), of ?b ?g] own by blast
          then show ?thesis using x by simp
        qed
        then show ?thesis using x xs y by simp
      qed
    qed
  qed
qed

lemma run_admits_start:
  assumes "sorted (map event_time es)" and "map_of b tid = None" and "own_events tid es = commit_events tid xs"
    and "spaced (fst (hd xs)) xs"
  shows "process_run tid False b es = admits xs fresh_budget"
  using assms
proof (induction es arbitrary: b)
  case Nil
  then show ?case by (cases "(tid, xs)" rule: commit_events.cases) auto
next
  case (Cons x es)
  have sorted: "sorted (map event_time es)" "\<forall>z\<in>set es. event_time x \<le> event_time z"
    using Cons.prems(1) by auto
  show ?case
  proof (cases "event_table x = tid")
    case False
    have same: ?thesis if "map_of b' tid = None" "process_run tid False b (x # es) = process_run tid False b' es" for b'
      using Cons.IH [OF sorted(1) that(1)] that(2) Cons.prems(3,4) False by simp
    show ?thesis
    proof (cases x)
      case (Asks k now)
      show ?thesis
        by (rule same [of "snd (breaker_allow k now b)"])
          (use Asks False Cons.prems(2) in \<open>auto simp: allow_other evict_None split: prod.split\<close>)
    next
      case (Answers k now v)
      show ?thesis
        by (rule same [of "breaker_record k now v b"]) (use Answers False Cons.prems(2) in \<open>auto simp: record_other\<close>)
    qed
  next
    case True
    then obtain now where x: "x = Asks tid now"
      using Cons.prems(3) commit_events_answers [of tid xs] by (cases x) (auto simp: eq_commute)
    then obtain e v ys where xs: "xs = (now, e, v) # ys" "own_events tid es = Answers tid e v # commit_events tid ys"
      using Cons.prems(3) commit_events_asks [of tid xs now "own_events tid es"] by (auto simp: eq_commute)
    let ?g = "snd (allow_budget now fresh_budget)"
    have "process_run tid ok (snd (breaker_allow tid now b)) es = admits ys (if ok then record_verdict e v ?g else ?g)" for ok
      using run_admits [OF sorted(1) allow_first(2) [OF Cons.prems(2), of now], of now ys] sorted(2) Cons.prems(4) x xs
      by (simp add: allow_seen)
    then show ?thesis
      using x xs(1) allow_first(1) [OF Cons.prems(2), of now]
      by (cases "breaker_allow tid now b"; cases "allow_budget now fresh_budget") auto
  qed
qed

text \<open>Honest traffic: a budget that has not tripped admits everything, and dropping it changes nothing.\<close>

definition calm_budget :: "string \<Rightarrow> nat \<Rightarrow> breaker \<Rightarrow> bool" where
  "calm_budget tid n b \<longleftrightarrow> (\<forall>g. map_of b tid = Some g \<longrightarrow> closed_budget g \<and> cb_rejections g \<le> n)"

lemma calm_budget_evict: "distinct (map fst b) \<Longrightarrow> calm_budget tid n b \<Longrightarrow> calm_budget tid n (evict_idle now b)"
  by (auto simp: calm_budget_def evict_idle_def map_of_eq_Some_iff distinct_map_filter)

lemma fresh_closed: "closed_budget fresh_budget" "cb_rejections fresh_budget = 0"
  by (simp_all add: closed_budget_def fresh_budget_def)

lemma calm_allow:
  assumes "calm_budget tid n b"
  shows "fst (breaker_allow tid now b)" and "calm_budget tid n (snd (breaker_allow tid now b))"
proof -
  have own: "fst (breaker_allow tid now b) \<and> calm_budget tid n (snd (breaker_allow tid now b))"
  proof (cases "map_of b tid")
    case None
    then show ?thesis
      using allow_first [OF None, of now] closed_allow [OF fresh_closed(1), of now] fresh_closed
      by (simp add: calm_budget_def closed_budget_def)
  next
    case (Some g)
    then have "closed_budget g" "cb_rejections g \<le> n" using assms by (auto simp: calm_budget_def)
    then show ?thesis
      using allow_own [OF Some, of now] closed_allow [of g now]
      by (simp add: calm_budget_def closed_budget_def)
  qed
  then show "fst (breaker_allow tid now b)" and "calm_budget tid n (snd (breaker_allow tid now b))" by simp_all
qed

lemma distinct_allow: "distinct (map fst b) \<Longrightarrow> distinct (map fst (snd (breaker_allow k now b)))"
  by (auto simp: breaker_allow_def Let_def evict_idle_def distinct_map_filter intro!: distinct_update
      split: option.split prod.split)

lemma distinct_record: "distinct (map fst b) \<Longrightarrow> distinct (map fst (breaker_record k now v b))"
  by (auto simp: breaker_record_def intro!: distinct_update split: option.split)

lemma calm_run:
  assumes "distinct (map fst b)" and "calm_budget tid n b"
  shows "(own_events tid es = commit_events tid xs \<and> calm n xs \<longrightarrow>
      process_run tid False b es = replicate (length xs) True) \<and>
    (\<forall>a e v. own_events tid es = Answers tid e v # commit_events tid xs \<and> calm n ((a, e, v) # xs) \<longrightarrow>
      process_run tid True b es = replicate (length xs) True)"
  using assms
proof (induction es arbitrary: b n xs)
  case Nil
  then show ?case by (cases "(tid, xs)" rule: commit_events.cases) auto
next
  case (Cons x es)
  show ?case
  proof (cases "event_table x = tid")
    case False
    have same: ?thesis if "distinct (map fst b')" "calm_budget tid n b'"
      "\<And>busy. process_run tid busy b (x # es) = process_run tid busy b' es" for b'
      using Cons.IH [OF that(1,2), of xs] that(3) False by simp
    show ?thesis
    proof (cases x)
      case (Asks k now)
      have "calm_budget tid n (snd (breaker_allow k now b))"
        using Asks False Cons.prems calm_budget_evict [of b tid n now]
        by (auto simp: calm_budget_def allow_other split: if_splits)
      then show ?thesis
        by (rule same [OF distinct_allow [OF Cons.prems(1)]])
          (use Asks False in \<open>auto split: prod.split\<close>)
    next
      case (Answers k now v)
      have "calm_budget tid n (breaker_record k now v b)"
        using Answers False Cons.prems by (simp add: calm_budget_def record_other)
      then show ?thesis
        by (rule same [OF distinct_record [OF Cons.prems(1)]]) (use Answers False in simp)
    qed
  next
    case True
    show ?thesis
    proof (cases x)
      case (Asks k now)
      then have x: "x = Asks tid now" using True by simp
      have "process_run tid False b (x # es) = replicate (length xs) True"
        if own: "own_events tid (x # es) = commit_events tid xs" and "calm n xs"
      proof -
        obtain e v ys where xs: "xs = (now, e, v) # ys" "own_events tid es = Answers tid e v # commit_events tid ys"
          using own commit_events_asks [of tid xs now "own_events tid es"] x by (auto simp: eq_commute)
        have "process_run tid True (snd (breaker_allow tid now b)) es = replicate (length ys) True"
          using Cons.IH [OF distinct_allow [OF Cons.prems(1), of tid now] calm_allow(2) [OF Cons.prems(2), of now], of ys]
            xs \<open>calm n xs\<close> by blast
        then show ?thesis
          using x xs(1) calm_allow(1) [OF Cons.prems(2), of now] by (cases "breaker_allow tid now b") simp
      qed
      then show ?thesis using x by simp
    next
      case (Answers k now v)
      then have x: "x = Answers tid now v" using True by simp
      have "process_run tid True b (x # es) = replicate (length xs) True"
        if own: "own_events tid es = commit_events tid xs" and calm: "calm n ((a, now, v) # xs)" for a
      proof -
        let ?n = "if rejection v then n + 1 else if v = None then 0 else n"
        have "calm_budget tid ?n (breaker_record tid now v b)"
        proof (cases "map_of b tid")
          case None
          then show ?thesis by (simp add: calm_budget_def breaker_record_def)
        next
          case (Some g)
          then have "closed_budget g" "cb_rejections g \<le> n" using Cons.prems(2) by (auto simp: calm_budget_def)
          from closed_record [OF this, of v now] show ?thesis
            using record_own [OF Some, of now v] calm by (auto simp: calm_budget_def split: if_splits)
        qed
        moreover have "calm ?n xs" using calm by (simp split: if_splits)
        ultimately show ?thesis
          using Cons.IH [OF distinct_record [OF Cons.prems(1), of tid now v], of ?n xs] own x by simp
      qed
      then show ?thesis using x commit_events_answers [of tid xs now v] by (auto simp: eq_commute)
    qed
  qed
qed

text \<open>C40: the commit circuit bounds a storm and spares honest traffic, whatever the other tables of the
  process do in between. When every commit of a table is rejected and the table never pauses for more
  than five minutes, at most 39 of its commits and one more per minute reach DynamoDB, however often it
  tries; and when it never sees 32 rejections without an accepted commit in between, every commit is
  sent. (After five idle minutes, in a process that has seen more than 512 tables, the budget may be
  dropped and the count starts again.)\<close>

theorem commit_circuit_bounds_storm:
  assumes "distinct (map fst b)" and "map_of b tid = None" and "sorted (map event_time es)"
    and "own_events tid es = commit_events tid xs"
  shows "(in_order from xs until \<and> spaced (fst (hd xs)) xs \<and> (\<forall>(a, b, v)\<in>set xs. rejection v) \<longrightarrow>
      int (length (filter (\<lambda>ok. ok) (process_run tid False b es))) \<le> 39 + (until - from) div commit_cooldown_max) \<and>
    (calm 0 xs \<longrightarrow> process_run tid False b es = replicate (length xs) True)"
proof -
  have "calm_budget tid 0 b" using assms(2) by (simp add: calm_budget_def)
  then show ?thesis
    using closed_sent [OF fresh_closed(1), of "from" xs until] run_admits_start [OF assms(3,2,4)]
      calm_run [OF assms(1), of tid 0 es xs] assms(4)
    by (simp add: fresh_closed max_consecutive_rejections_def)
qed

lemma replicate_in_order: "in_order t (replicate n (t, t, v)) t"
  by (induction n) simp_all

lemma replicate_spaced: "spaced t (replicate n (t, t', v))"
  by (induction n) (simp_all add: commit_budget_idle_ttl_def)

text \<open>Table \<open>t\<close> tries 5520 times at once, another one commits in between.\<close>

definition storm_events :: "nat \<Rightarrow> breaker_event list" where
  "storm_events n = concat (replicate n [Asks ''t'' 0, Asks ''u'' 0, Answers ''t'' 0 (Some VersionConflict),
     Answers ''u'' 0 None])"

lemma storm_own: "own_events ''t'' (storm_events n) = commit_events ''t'' (replicate n (0, 0, Some VersionConflict))"
  by (induction n) (simp_all add: storm_events_def)

lemma storm_sorted: "sorted (map event_time (storm_events n))"
  by (induction n) (auto simp: storm_events_def)

lemma commit_circuit_bounds_storm_witness:
  "length (filter (\<lambda>ok. ok) (process_run ''t'' False [] (storm_events 5520))) \<le> 39 \<and>
   process_run ''t'' False [] [Asks ''t'' 0, Answers ''t'' 1 (Some VersionConflict), Asks ''t'' 2, Answers ''t'' 3 None] =
     [True, True]"
proof
  let ?xs = "replicate 5520 (0 :: int, 0 :: int, Some VersionConflict)"
  have "in_order 0 ?xs 0 \<and> spaced (fst (hd ?xs)) ?xs \<and> (\<forall>(a, b, v)\<in>set ?xs. rejection v)"
    using replicate_in_order [of 0] replicate_spaced [of 0] by (simp add: rejection_def)
  with commit_circuit_bounds_storm [OF _ _ storm_sorted [of 5520] storm_own [of 5520], of "[]" 0 0]
  show "length (filter (\<lambda>ok. ok) (process_run ''t'' False [] (storm_events 5520))) \<le> 39"
    by (simp del: process_run.simps)
  have "calm 0 [(0, 1, Some VersionConflict), (2, 3, None)]"
    by (simp add: rejection_def max_consecutive_rejections_def)
  then show "process_run ''t'' False [] [Asks ''t'' 0, Answers ''t'' 1 (Some VersionConflict), Asks ''t'' 2,
      Answers ''t'' 3 None] = [True, True]"
    using commit_circuit_bounds_storm [of "[]" "''t''" "[Asks ''t'' 0, Answers ''t'' 1 (Some VersionConflict),
        Asks ''t'' 2, Answers ''t'' 3 None]" "[(0, 1, Some VersionConflict), (2, 3, None)]" 0 0]
    by (simp del: process_run.simps calm.simps)
qed

end
