(* ===== verification/Table_Actor.thy ===== *)
theory Table_Actor
  imports Table_Store
begin

text \<open>
  The actor of one table, \<open>api/internal/table\<close>: its state, loading, committing and the rollback of a
  failed command (\<open>actor.go\<close>, \<open>actor_loading.go\<close>, \<open>actor_commit.go\<close>, the first part of
  \<open>actor_activity.go\<close>) and its timers (\<open>actor_timers.go\<close>). One goroutine runs one command at a time,
  so a command is a program over the actor's own state; every call that leaves the process is a node of
  \<open>io\<close>. A timer is the time it fires at. Of the display overlays (equity, streaks, personal chat filters,
  connections of other instances) nothing is modelled: no command reads them. \<open>a_changed\<close> stands for the
  local variable \<open>changed\<close> of the running handler, which the rollback does not undo.
\<close>

section \<open>State\<close>

datatype actor_error =
    StoreErr store_error | EngineErr hand_error | DuplicateSeat string | NotAtTable string
  | IncompletePrecondition | StaleActionState | NoSeatsAvailable | IntentFailed
  | ActionIdMissing | ChatMessageMissing | ReactionIdMissing | UnknownReaction | OwnershipUnavailable
  | ReactionNotOwned | InvalidTarget | RecorderUnavailable | HookErr | InvalidPreselection | CallAmountChanged
  | ConnIdMissing

text \<open>What the actor puts on the wire and hands to the hooks of other packages.\<close>

record table_frame =
  fr_viewer :: string
  fr_snapshot :: snapshot
  fr_version :: nat
  fr_hand_id :: string
  fr_action_deadline_ms :: int
  fr_action_base_deadline_ms :: int
  fr_next_hand_ms :: int
  fr_idle_removal_ms :: int
  fr_connected :: "(string \<times> bool) list"
  fr_chat :: "chat_message list"
  fr_reactions :: "reaction list"
  fr_preselection :: "(string \<times> int) option"

datatype event =
    Published table_frame
  | ChangeNotified
  | SeatsChanged nat
  | PlayerRemoved string string string int string
  | LeaveReplied int string
  | HandCompleted string hand_outcome
  | HandUpdated string hand_outcome
  | Answered table_frame

record 'x actor =
  a_id :: string
  a_trust_cache :: bool
  a_cached :: "table option"
  a_last_loaded_at :: "int option"
  a_version :: nat
  a_gameplay_version :: nat
  a_hand_id :: string
  a_activity :: table_activity
  a_turn_timeout :: int
  a_time_bank_enabled :: bool
  a_disconnected_since :: "string \<rightharpoonup> int"
  a_active_conns :: "string \<Rightarrow> string set"
  a_kick_grace :: int
  a_kick_timers :: "string \<rightharpoonup> int"
  a_turn_timer :: "(string \<times> int) option"
  a_turn_deadline :: int
  a_turn_base_deadline :: "int option"
  a_turn_deadline_for :: string
  a_turn_deadline_for_stage :: stage
  a_pending_persisted_deadline :: int
  a_pending_deadline_for :: string
  a_pending_deadline_for_stage :: stage
  a_next_hand_timer :: "int option"
  a_next_hand_deadline :: int
  a_next_hand_armed_for :: string
  a_next_hand_delay :: int
  a_next_hand_retry_delay :: int
  a_next_hand_retries :: nat
  a_next_hand_arm_guard_hand :: string
  a_next_hand_arms_for_hand :: nat
  a_pending_next_hand_deadline :: int
  a_winner_cards_timer :: "int option"
  a_winner_cards_armed_for :: string
  a_last_broadcast_stage :: stage
  a_runout_timer :: "int option"
  a_runout_timer_hand_id :: string
  a_runout_timer_stage :: stage
  a_runout_timer_phase :: nat
  a_runout_street_delay :: int
  a_runout_retries :: nat
  a_escalation_multiplier :: int
  a_escalation_max :: int
  a_afk_sweep_timer :: int
  a_afk_sweep_interval :: int
  a_run_it_twice_enabled :: bool
  a_completed_hand_notified :: string
  a_outcome_logged_for_hand :: string
  a_system_settlement :: "(string \<Rightarrow> string \<Rightarrow> string \<Rightarrow> int \<Rightarrow> string \<Rightarrow> 'x other_item option) option"
  a_reaction_ownership :: bool
  a_reaction_mark_used :: bool
  a_breaker :: breaker
  a_sent :: "event list"
  a_changed :: bool

definition seconds :: "int \<Rightarrow> int" where "seconds n = n * 1000000000"
definition milliseconds :: "int \<Rightarrow> int" where "milliseconds n = n * 1000000"

text \<open>A new actor reads the table with its first command.\<close>

definition new_actor :: "string \<Rightarrow> bool \<Rightarrow> int \<Rightarrow> 'x actor" where
  "new_actor tid trust now =
     \<lparr>a_id = tid, a_trust_cache = trust, a_cached = None, a_last_loaded_at = None, a_version = 0,
      a_gameplay_version = 0, a_hand_id = '''', a_activity = no_activity, a_turn_timeout = seconds 15,
      a_time_bank_enabled = True, a_disconnected_since = Map.empty, a_active_conns = (\<lambda>_. {}),
      a_kick_grace = seconds 300, a_kick_timers = Map.empty, a_turn_timer = None, a_turn_deadline = 0,
      a_turn_base_deadline = None, a_turn_deadline_for = '''', a_turn_deadline_for_stage = WaitingForPlayers,
      a_pending_persisted_deadline = 0, a_pending_deadline_for = '''',
      a_pending_deadline_for_stage = WaitingForPlayers, a_next_hand_timer = None, a_next_hand_deadline = 0,
      a_next_hand_armed_for = '''', a_next_hand_delay = seconds 12, a_next_hand_retry_delay = seconds 2,
      a_next_hand_retries = 0, a_next_hand_arm_guard_hand = '''', a_next_hand_arms_for_hand = 0,
      a_pending_next_hand_deadline = 0, a_winner_cards_timer = None, a_winner_cards_armed_for = '''',
      a_last_broadcast_stage = WaitingForPlayers, a_runout_timer = None, a_runout_timer_hand_id = '''',
      a_runout_timer_stage = WaitingForPlayers, a_runout_timer_phase = 0,
      a_runout_street_delay = milliseconds 2600, a_runout_retries = 0, a_escalation_multiplier = 0,
      a_escalation_max = 0, a_afk_sweep_timer = now + seconds 60, a_afk_sweep_interval = seconds 60,
      a_run_it_twice_enabled = False, a_completed_hand_notified = '''', a_outcome_logged_for_hand = '''',
      a_system_settlement = None, a_reaction_ownership = False, a_reaction_mark_used = False, a_breaker = [],
      a_sent = [], a_changed = False\<rparr>"

text \<open>The first table of a room.\<close>

definition seed_for_room :: "string \<Rightarrow> string \<Rightarrow> int \<Rightarrow> int \<Rightarrow> table" where
  "seed_for_room currency room_variant small big =
     configure_rake currency (new_table_with_variant [] small big
       (if currency = ''sandbox'' \<and> room_variant = ''short_deck'' then ShortDeck else Standard))"

lemma seed_for_room_players: "t_players (seed_for_room currency room_variant small big) = []"
  by (simp add: seed_for_room_def configure_rake_def new_table_with_variant_def)

section \<open>Commands\<close>

text \<open>
  A command returns, reports an error, or panics; the state it leaves behind matters in every case.
\<close>

datatype 'a result = Ok 'a | Err actor_error | Panic

type_synonym ('x, 'a) cmd = "'x actor \<Rightarrow> ('x, 'a result \<times> 'x actor) io"

definition ok :: "'a \<Rightarrow> ('x, 'a) cmd" where
  "ok v a = Return (Ok v, a)"

definition fail :: "actor_error \<Rightarrow> ('x, 'a) cmd" where
  "fail e a = Return (Err e, a)"

definition panic :: "('x, 'a) cmd" where
  "panic a = Return (Panic, a)"

definition and_then :: "('x, 'a) cmd \<Rightarrow> ('a \<Rightarrow> ('x, 'b) cmd) \<Rightarrow> ('x, 'b) cmd" where
  "and_then m f a = io_bind (m a) (\<lambda>(r, a').
     case r of Ok v \<Rightarrow> f v a' | Err e \<Rightarrow> Return (Err e, a') | Panic \<Rightarrow> Return (Panic, a'))"

definition before :: "('x, unit) cmd \<Rightarrow> ('x, 'b) cmd \<Rightarrow> ('x, 'b) cmd" where
  "before m k = and_then m (\<lambda>_. k)"

definition attempt :: "('x, 'a) cmd \<Rightarrow> ('x, actor_error + 'a) cmd" where
  "attempt m a = io_bind (m a) (\<lambda>(r, a').
     Return (case r of Ok v \<Rightarrow> Ok (Inr v) | Err e \<Rightarrow> Ok (Inl e) | Panic \<Rightarrow> Panic, a'))"

definition look :: "('x actor \<Rightarrow> ('x, 'a) cmd) \<Rightarrow> ('x, 'a) cmd" where
  "look f a = f a a"

definition change :: "('x actor \<Rightarrow> 'x actor) \<Rightarrow> ('x, unit) cmd" where
  "change f a = Return (Ok (), f a)"

definition skip :: "('x, unit) cmd" where
  "skip = ok ()"

definition clock :: "(int \<Rightarrow> ('x, 'a) cmd) \<Rightarrow> ('x, 'a) cmd" where
  "clock f a = Clock (\<lambda>now. f now a)"

definition emit :: "event \<Rightarrow> ('x, unit) cmd" where
  "emit e = change (\<lambda>a. a\<lparr>a_sent := a_sent a @ [e]\<rparr>)"

text \<open>A nil table, or a panic of the engine, panics.\<close>

definition cached :: "(table \<Rightarrow> ('x, 'a) cmd) \<Rightarrow> ('x, 'a) cmd" where
  "cached f a = (case a_cached a of None \<Rightarrow> panic a | Some t \<Rightarrow> f t a)"

definition total :: "'a option \<Rightarrow> ('a \<Rightarrow> ('x, 'b) cmd) \<Rightarrow> ('x, 'b) cmd" where
  "total v f = (case v of None \<Rightarrow> panic | Some w \<Rightarrow> f w)"

definition put_table :: "table \<Rightarrow> ('x, unit) cmd" where
  "put_table t = change (\<lambda>a. a\<lparr>a_cached := Some t\<rparr>)"

definition engine :: "(table \<Rightarrow> table) \<Rightarrow> ('x, unit) cmd" where
  "engine f = cached (\<lambda>t. put_table (f t))"

definition engine_try :: "(table \<Rightarrow> hand_error + table) \<Rightarrow> ('x, unit) cmd" where
  "engine_try f = cached (\<lambda>t. case f t of Inl e \<Rightarrow> fail (EngineErr e) | Inr t' \<Rightarrow> put_table t')"

definition seated_player :: "string \<Rightarrow> 'x actor \<Rightarrow> player option" where
  "seated_player pid a =
     (case a_cached a of None \<Rightarrow> None | Some t \<Rightarrow> map_option (pl t) (player_by_id t pid))"

definition is_seated :: "string \<Rightarrow> 'x actor \<Rightarrow> bool" where
  "is_seated pid a \<longleftrightarrow> seated_player pid a \<noteq> None"

definition require_seated :: "string \<Rightarrow> ('x, unit) cmd" where
  "require_seated pid = look (\<lambda>a. if is_seated pid a then skip else fail (NotAtTable pid))"

definition stamp_last_action :: "string \<Rightarrow> int \<Rightarrow> table \<Rightarrow> table" where
  "stamp_last_action pid ms t =
     (case player_by_id t pid of None \<Rightarrow> t | Some r \<Rightarrow> upd r (\<lambda>p. p\<lparr>p_last_action_at := ms\<rparr>) t)"

definition mark_last_action :: "string \<Rightarrow> ('x, unit) cmd" where
  "mark_last_action pid = cached (\<lambda>t.
     if player_by_id t pid = None then skip
     else clock (\<lambda>now. put_table (stamp_last_action pid (unix_milli now) t)))"

section \<open>Timers\<close>

definition time_bank_for :: "string \<Rightarrow> (int \<Rightarrow> ('x, 'a) cmd) \<Rightarrow> ('x, 'a) cmd" where
  "time_bank_for pid f = look (\<lambda>a.
     if \<not> a_time_bank_enabled a \<or> a_turn_timeout a < seconds 5 \<or> a_cached a = None then f 0
     else cached (\<lambda>t. let (t', ms) = time_bank pid t in before (put_table t') (f (milliseconds ms))))"

definition clear_pending :: "'x actor \<Rightarrow> 'x actor" where
  "clear_pending a = a\<lparr>a_pending_persisted_deadline := 0, a_pending_deadline_for := '''',
     a_pending_deadline_for_stage := WaitingForPlayers\<rparr>"

definition arm_turn_timer :: "string \<Rightarrow> stage \<Rightarrow> int \<Rightarrow> ('x, unit) cmd" where
  "arm_turn_timer current s grace = look (\<lambda>a.
     if current = a_turn_deadline_for a \<and> s = a_turn_deadline_for_stage a then change clear_pending
     else before (change (\<lambda>a. a\<lparr>a_turn_timer := None, a_turn_deadline_for := current, a_turn_deadline_for_stage := s\<rparr>))
       (if current = ''''
        then change (\<lambda>a. a\<lparr>a_pending_persisted_deadline := 0, a_turn_base_deadline := None\<rparr>)
        else time_bank_for current (\<lambda>bank. clock (\<lambda>now. look (\<lambda>a.
          let fresh = now + a_turn_timeout a + grace;
              resumed = (a_pending_persisted_deadline a > 0 \<and> a_pending_deadline_for a = current \<and>
                a_pending_deadline_for_stage a = s);
              deadline = (if resumed then milliseconds (a_pending_persisted_deadline a) else fresh + bank);
              base = (if resumed then deadline - bank else fresh)
          in clock (\<lambda>now'. change (\<lambda>a. (clear_pending a)\<lparr>a_turn_base_deadline := Some base, a_turn_deadline := deadline,
               a_turn_timer := Some (current, now' + max 0 (deadline - now'))\<rparr>)))))))"

definition max_next_hand_arms_per_hand :: nat where "max_next_hand_arms_per_hand = 12"
definition max_next_hand_retries :: nat where "max_next_hand_retries = 5"
definition max_runout_retries :: nat where "max_runout_retries = 8"
definition reveal_grace :: int where "reveal_grace = milliseconds 2200"

definition arm_next_hand_timer :: "bool \<Rightarrow> ('x, unit) cmd" where
  "arm_next_hand_timer complete =
     (if \<not> complete
      then change (\<lambda>a. a\<lparr>a_next_hand_timer := None, a_next_hand_armed_for := '''', a_pending_next_hand_deadline := 0,
             a_next_hand_arm_guard_hand := '''', a_next_hand_arms_for_hand := 0\<rparr>)
      else look (\<lambda>a.
        if a_hand_id a = a_next_hand_armed_for a then change (\<lambda>a. a\<lparr>a_pending_next_hand_deadline := 0\<rparr>)
        else before (change (\<lambda>a. if a_next_hand_arm_guard_hand a \<noteq> a_hand_id a
               then a\<lparr>a_next_hand_arm_guard_hand := a_hand_id a, a_next_hand_arms_for_hand := 0\<rparr> else a))
          (look (\<lambda>a.
            if a_next_hand_arms_for_hand a \<ge> max_next_hand_arms_per_hand
            then change (\<lambda>a. a\<lparr>a_next_hand_arms_for_hand :=
                     (if a_next_hand_arms_for_hand a = max_next_hand_arms_per_hand then a_next_hand_arms_for_hand a + 1
                      else a_next_hand_arms_for_hand a),
                   a_next_hand_armed_for := a_hand_id a, a_pending_next_hand_deadline := 0\<rparr>)
            else clock (\<lambda>now. change (\<lambda>a.
              let deadline = (if a_pending_next_hand_deadline a > 0 then milliseconds (a_pending_next_hand_deadline a)
                              else now + a_next_hand_delay a)
              in a\<lparr>a_next_hand_arms_for_hand := a_next_hand_arms_for_hand a + 1, a_next_hand_armed_for := a_hand_id a,
                   a_next_hand_deadline := deadline, a_pending_next_hand_deadline := 0,
                   a_next_hand_timer := Some (now + max 0 (deadline - now))\<rparr>))))))"

definition arm_winner_cards_timer :: "winner_cards_request list \<Rightarrow> ('x, unit) cmd" where
  "arm_winner_cards_timer batch =
     (case batch of
        [] \<Rightarrow> change (\<lambda>a. a\<lparr>a_winner_cards_timer := None, a_winner_cards_armed_for := ''''\<rparr>)
      | req # _ \<Rightarrow> look (\<lambda>a.
          let key = a_hand_id a @ ''#'' @ decimal_int (wr_expires_at req)
          in if key = a_winner_cards_armed_for a then skip
             else clock (\<lambda>now. change (\<lambda>a. a\<lparr>a_winner_cards_armed_for := key,
               a_winner_cards_timer := Some (now + max 0 (milliseconds (wr_expires_at req) - now))\<rparr>))))"

definition arm_runout_timer :: "bool \<Rightarrow> stage \<Rightarrow> ('x, unit) cmd" where
  "arm_runout_timer awaiting s =
     (if \<not> awaiting then change (\<lambda>a. a\<lparr>a_runout_timer := None, a_runout_timer_hand_id := ''''\<rparr>)
      else cached (\<lambda>t. look (\<lambda>a.
        if a_hand_id a = a_runout_timer_hand_id a \<and> s = a_runout_timer_stage a \<and> t_runout_phase t = a_runout_timer_phase a
        then skip
        else clock (\<lambda>now. change (\<lambda>a. a\<lparr>a_runout_timer_hand_id := a_hand_id a, a_runout_timer_stage := s,
          a_runout_timer_phase := t_runout_phase t, a_runout_timer := Some (now + a_runout_street_delay a)\<rparr>)))))"

definition arm_timers :: "int \<Rightarrow> ('x, unit) cmd" where
  "arm_timers grace = cached (\<lambda>t. total (current_player_to_act t) (\<lambda>current.
     before (arm_turn_timer current (t_stage t) grace)
    (before (arm_runout_timer (is_awaiting_runout t) (t_stage t))
    (before (arm_next_hand_timer (t_stage t = Complete))
            (arm_winner_cards_timer (t_pending_winner_cards t))))))"

definition rearm_timers_from_cache :: "('x, unit) cmd" where
  "rearm_timers_from_cache = look (\<lambda>a. if a_cached a = None then skip else arm_timers 0)"

section \<open>Loading\<close>

text \<open>The pending disconnects and kicks of players who lost their seat meanwhile.\<close>

definition prune_stale_presence :: "'x actor \<Rightarrow> 'x actor" where
  "prune_stale_presence a =
     a\<lparr>a_disconnected_since := (\<lambda>pid. if is_seated pid a then a_disconnected_since a pid else None),
       a_kick_timers := (\<lambda>pid. if is_seated pid a then a_kick_timers a pid else None)\<rparr>"

definition adopt_stored :: "int \<Rightarrow> stored_table \<Rightarrow> 'x actor \<Rightarrow> 'x actor" where
  "adopt_stored now s a =
     (let t = configure_run_it_twice (a_run_it_twice_enabled a) (new_table_from_state (st_state s));
          gv = st_gameplay_version s
      in a\<lparr>a_last_loaded_at := Some now, a_cached := Some t, a_version := st_version s,
           a_gameplay_version := (if gv = 0 \<or> gv > st_version s then st_version s else gv),
           a_hand_id := st_hand_id s, a_activity := st_activity s,
           a_pending_persisted_deadline := st_turn_deadline_ms s, a_pending_deadline_for_stage := t_stage t,
           a_pending_next_hand_deadline := st_next_hand_deadline_ms s\<rparr>)"

definition load_stored :: "('x, stored_table) cmd" where
  "load_stored a = io_bind (load_table (a_id a)) (\<lambda>r. Return (case r of
       Inl e \<Rightarrow> Err (StoreErr e) | Inr None \<Rightarrow> Err (StoreErr Unavailable) | Inr (Some s) \<Rightarrow> Ok s, a))"

definition ensure_loaded :: "bool \<Rightarrow> ('x, unit) cmd" where
  "ensure_loaded force = look (\<lambda>a.
     let forced = (force \<or> (case a_cached a of None \<Rightarrow> False | Some t \<Rightarrow> a_trust_cache a \<and> snd (duplicate_seat t)))
     in if a_cached a \<noteq> None \<and> a_trust_cache a \<and> \<not> forced
        then engine (configure_run_it_twice (a_run_it_twice_enabled a))
        else and_then load_stored (\<lambda>s. clock (\<lambda>now.
          before (change (adopt_stored now s))
         (cached (\<lambda>t. total (current_player_to_act t) (\<lambda>current.
            before (change (\<lambda>a. prune_stale_presence (a\<lparr>a_pending_deadline_for := current\<rparr>)))
              rearm_timers_from_cache))))))"

section \<open>Committing\<close>

text \<open>The replay frame copies only what every viewer may see; it has no hole cards.\<close>

definition replay_frame_for :: "snapshot \<Rightarrow> replay_frame" where
  "replay_frame_for s =
     (let pots = (\<Sum>p\<leftarrow>sn_pots s. pv_amount p)
      in \<lparr>rf_stage = sn_stage s, rf_board = sn_board s, rf_board_two = sn_board_two s,
          rf_board_split_at = sn_board_split_at s,
          rf_seats = map (\<lambda>w. \<lparr>rv_player_id = sw_player_id w, rv_name = sw_name w, rv_stack = sw_stack w,
              rv_state = sw_state w, rv_contributed = sw_contributed w, rv_dealt_in = sw_dealt_in w\<rparr>) (sn_seats s),
          rf_current_player_id = sn_current_player_id s, rf_dealer_player_id = sn_dealer_player_id s,
          rf_small_blind_player_id = sn_small_blind_player_id s, rf_big_blind_player_id = sn_big_blind_player_id s,
          rf_pot = (if pots = 0 then (\<Sum>w\<leftarrow>sn_seats s. sw_contributed w) else pots),
          rf_payouts = sn_payouts s, rf_winners = sn_winners s\<rparr>)"

definition turn_deadline_for_persist :: "(int \<Rightarrow> ('x, 'a) cmd) \<Rightarrow> ('x, 'a) cmd" where
  "turn_deadline_for_persist f = cached (\<lambda>t. total (current_player_to_act t) (\<lambda>current. look (\<lambda>a.
     let s = t_stage t
     in if current = '''' then f 0
        else if current = a_turn_deadline_for a \<and> s = a_turn_deadline_for_stage a then f (unix_milli (a_turn_deadline a))
        else if a_pending_persisted_deadline a > 0 \<and> a_pending_deadline_for a = current \<and> a_pending_deadline_for_stage a = s
        then f (a_pending_persisted_deadline a)
        else clock (\<lambda>now. time_bank_for current (\<lambda>bank.
          let fresh = unix_milli (now + (a_turn_timeout a + bank))
          in before (change (\<lambda>a. a\<lparr>a_pending_persisted_deadline := fresh, a_pending_deadline_for := current,
                  a_pending_deadline_for_stage := s\<rparr>)) (f fresh))))))"

definition next_hand_deadline_for_persist :: "(int \<Rightarrow> ('x, 'a) cmd) \<Rightarrow> ('x, 'a) cmd" where
  "next_hand_deadline_for_persist f = look (\<lambda>a.
     case a_cached a of
       None \<Rightarrow> f 0
     | Some t \<Rightarrow>
         if t_stage t \<noteq> Complete then f 0
         else if a_hand_id a \<noteq> '''' \<and> a_hand_id a = a_next_hand_armed_for a then f (unix_milli (a_next_hand_deadline a))
         else if a_pending_next_hand_deadline a > 0 then f (a_pending_next_hand_deadline a)
         else clock (\<lambda>now. let fresh = unix_milli (now + a_next_hand_delay a)
           in before (change (\<lambda>a. a\<lparr>a_pending_next_hand_deadline := fresh\<rparr>)) (f fresh)))"

definition log_entry :: "string \<Rightarrow> string \<Rightarrow> string \<Rightarrow> action_log_entry" where
  "log_entry pid action_id act_name =
     \<lparr>le_table_id = '''', le_hand_id = '''', le_version = 0, le_seq = 0, le_player_id = pid, le_action_id = action_id,
      le_action = act_name, le_betting_action = '''', le_amount = 0, le_time_bank_ms = 0, le_message = '''',
      le_reaction_id = '''', le_target_player_id = '''', le_selection = '''', le_timestamp = 0, le_frame = None\<rparr>"

text \<open>
  \<open>ExportState\<close> shares the players with the live table, and the view of the frame and the time bank of the
  deadline fill in missing time banks before the state is encoded: the state written is the one after
  them.
\<close>

definition frame_for :: "score_tables \<Rightarrow> action_log_entry \<Rightarrow> (action_log_entry \<Rightarrow> ('x, 'a) cmd) \<Rightarrow> ('x, 'a) cmd" where
  "frame_for T entry f =
     (if cosmetic_action (le_action entry) then f entry
      else cached (\<lambda>t. total (view_for T '''' t) (\<lambda>(snap, t').
        before (put_table t') (f (entry\<lparr>le_frame := Some (replay_frame_for snap)\<rparr>)))))"

definition write_state :: "string \<Rightarrow> action_log_entry \<Rightarrow> 'x other_item list \<Rightarrow> int \<Rightarrow> int \<Rightarrow> ('x, unit) cmd" where
  "write_state action_id entry extra turn_deadline next_hand_deadline = cached (\<lambda>t a.
     io_bind (commit_action (a_id a) (a_hand_id a) action_id (a_version a) (export_state t) (a_activity a)
         turn_deadline next_hand_deadline entry extra (a_breaker a)) (\<lambda>(e, b).
       Return (case e of None \<Rightarrow> Ok () | Some e \<Rightarrow> Err (StoreErr e), a\<lparr>a_breaker := b\<rparr>)))"

definition advance_version :: "action_log_entry \<Rightarrow> 'x actor \<Rightarrow> 'x actor" where
  "advance_version entry a =
     a\<lparr>a_version := a_version a + 1,
       a_gameplay_version := (if cosmetic_action (le_action entry) then a_gameplay_version a else a_version a + 1)\<rparr>"

definition commit :: "score_tables \<Rightarrow> string \<Rightarrow> action_log_entry \<Rightarrow> 'x other_item list \<Rightarrow> ('x, unit) cmd" where
  "commit T action_id entry extra = cached (\<lambda>t.
     if snd (duplicate_seat t) then fail (DuplicateSeat (fst (duplicate_seat t)))
     else look (\<lambda>a. let entry = entry\<lparr>le_table_id := a_id a, le_hand_id := a_hand_id a, le_version := a_version a + 1\<rparr>
       in frame_for T entry (\<lambda>entry.
          turn_deadline_for_persist (\<lambda>turn_deadline.
          next_hand_deadline_for_persist (\<lambda>next_hand_deadline.
            before (write_state action_id entry extra turn_deadline next_hand_deadline)
           (before (change (advance_version entry))
                   (emit ChangeNotified)))))))"

text \<open>What a failed command leaves behind is what it found, read back from its encoding.\<close>

definition restore :: "saved_state \<Rightarrow> string \<Rightarrow> table_activity \<Rightarrow> 'x actor \<Rightarrow> 'x actor" where
  "restore s hand_id activity a =
     a\<lparr>a_cached := Some (new_table_from_state s), a_hand_id := hand_id, a_activity := activity\<rparr>"

definition mutate :: "('x, 'a) cmd \<Rightarrow> ('x, 'a) cmd" where
  "mutate m a =
     (case a_cached a of
        None \<Rightarrow> m a
      | Some t \<Rightarrow> io_bind (m a) (\<lambda>(r, a').
          Return (r, case r of Err e \<Rightarrow> restore (export_state t) (a_hand_id a) (a_activity a) a' | _ \<Rightarrow> a')))"

definition retry_on_conflict :: "('x, unit) cmd \<Rightarrow> ('x, unit) cmd" where
  "retry_on_conflict apply_it = and_then (attempt apply_it) (\<lambda>r.
     case r of
       Inr _ \<Rightarrow> skip
     | Inl e \<Rightarrow> if e \<noteq> StoreErr VersionConflict then fail e
                else before (ensure_loaded True) apply_it)"

text \<open>A replayed action counts as done, after the state of the commit that won is loaded.\<close>

definition accept_duplicate :: "('x, unit) cmd \<Rightarrow> ('x, unit) cmd" where
  "accept_duplicate m = and_then (attempt m) (\<lambda>r.
     case r of
       Inr _ \<Rightarrow> skip
     | Inl e \<Rightarrow> if e \<noteq> StoreErr DuplicateAction then fail e else ensure_loaded True)"

text \<open>
  Charging the time bank for what a decision took beyond the clock of the room. The log line shows a
  view, which is why it is computed.
\<close>

definition consume_time_bank_of :: "score_tables \<Rightarrow> string \<Rightarrow> (int \<Rightarrow> ('x, 'a) cmd) \<Rightarrow> ('x, 'a) cmd" where
  "consume_time_bank_of T pid f = look (\<lambda>a.
     case a_turn_base_deadline a of
       None \<Rightarrow> f 0
     | Some base \<Rightarrow>
         if \<not> a_time_bank_enabled a \<or> a_turn_timeout a < seconds 5 \<or> pid = '''' \<or> pid \<noteq> a_turn_deadline_for a then f 0
         else clock (\<lambda>now.
           let elapsed = go_div (now - base) 1000000
           in if elapsed \<le> 0 then f 0
              else cached (\<lambda>t.
                let (t1, bank) = time_bank pid t; (t2, left) = consume_time_bank pid elapsed t1
                in total (view_for T '''' t2) (\<lambda>(snap, t3). before (put_table t3) (f (bank - left))))))"

section \<open>Preconditions of an action\<close>

record act_cmd =
  ac_player_id :: string
  ac_action_id :: string
  ac_expected_snapshot_version :: nat
  ac_expected_hand_id :: string
  ac_action :: action
  ac_amount :: int

definition action_precondition_holds :: "act_cmd \<Rightarrow> 'x actor \<Rightarrow> bool" where
  "action_precondition_holds c a \<longleftrightarrow>
     a_hand_id a = ac_expected_hand_id c \<and>
     (let gv = a_gameplay_version a; least = (if gv = 0 \<or> gv > a_version a then a_version a else gv)
      in least \<le> ac_expected_snapshot_version c \<and> ac_expected_snapshot_version c \<le> a_version a)"

definition validate_action_precondition :: "act_cmd \<Rightarrow> ('x, unit) cmd" where
  "validate_action_precondition c =
     (if ac_expected_snapshot_version c = 0 \<and> ac_expected_hand_id c = '''' then skip
      else if ac_expected_snapshot_version c = 0 \<or> ac_expected_hand_id c = '''' then fail IncompletePrecondition
      else before (look (\<lambda>a. if action_precondition_holds c a then skip else ensure_loaded True))
        (look (\<lambda>a. if action_precondition_holds c a then skip else fail StaleActionState)))"

end
