(* ===== verification/Actor_Sync.thy ===== *)
theory Actor_Sync
  imports Table_Actor "HOL-Library.Char_ord"
begin

text \<open>
  What every command of the actor ends with: acting for a player, the outcome rows of a finished hand,
  leaving, the sweeps that run before a broadcast, and the broadcast (\<open>actor_commit.go\<close>,
  \<open>actor_views.go\<close>, \<open>actor_hooks.go\<close>, and the removals of \<open>actor_seating.go\<close> and
  \<open>actor_presence.go\<close>). A loop of the code that goes on while other instances interfere carries a fuel
  \<open>n\<close>, which stands for the deadline of the command: each iteration makes a call to the store, and when
  the deadline has passed that call fails.
\<close>

section \<open>Acting\<close>

fun action_name :: "action \<Rightarrow> string" where
  "action_name ActionFold = ''fold''"
| "action_name ActionCheck = ''check''"
| "action_name ActionCall = ''call''"
| "action_name ActionBet = ''bet''"
| "action_name ActionRaise = ''raise''"

definition set_preselections :: "(string \<times> preselection) list \<Rightarrow> 'x actor \<Rightarrow> 'x actor" where
  "set_preselections ps a = a\<lparr>a_activity := (a_activity a)\<lparr>ta_preselections := ps\<rparr>\<rparr>"

text \<open>
  A preselection lives for one hand and one street. An empty map of preselections and none are the same
  here: the code looks at the view only when there is a map, and the view changes nothing but missing
  time banks, which the view of the next frame fills in as well.
\<close>

definition prune_preselections :: "score_tables \<Rightarrow> ('x, unit) cmd" where
  "prune_preselections T = look (\<lambda>a.
     if a_cached a = None \<or> ta_preselections (a_activity a) = [] then skip
     else cached (\<lambda>t. total (view_for T '''' t) (\<lambda>(snap, t').
       before (put_table t')
         (change (\<lambda>a. set_preselections
            (filter (\<lambda>(pid, ps). ps_hand_id ps = a_hand_id a \<and> ps_stage ps = sn_stage snap)
              (ta_preselections (a_activity a))) a)))))"

text \<open>A raise that changes what another player owes cancels the prepared call and the prepared check.\<close>

definition outdated :: "table \<Rightarrow> string \<times> preselection \<Rightarrow> bool option" where
  "outdated t = (\<lambda>(pid, ps). map_option (\<lambda>owed.
     ps_selection ps = ''call'' \<and> ps_amount ps \<noteq> owed \<or> ps_selection ps = ''check_fold'' \<and> owed > ps_amount ps)
     (prospective_call_amount t pid))"

definition cancel_preselections :: "score_tables \<Rightarrow> string \<Rightarrow> ('x, unit) cmd" where
  "cancel_preselections T pid = look (\<lambda>a.
     if ta_preselections (a_activity a) = [] then skip
     else let left = AList.delete pid (ta_preselections (a_activity a))
          in cached (\<lambda>t. total (those (map (outdated t) left)) (\<lambda>old.
               before (change (set_preselections (map fst (filter (\<lambda>(e, gone). \<not> gone) (zip left old)))))
                 (prune_preselections T))))"

definition apply_act_and_commit :: "score_tables \<Rightarrow> act_cmd \<Rightarrow> ('x, bool \<times> bool) cmd" where
  "apply_act_and_commit T c = and_then
     (mutate (cached (\<lambda>t.
        let betting = normalized_action t (ac_player_id c) (ac_action c)
        in total (act_idempotent T (ac_action_id c) (ac_player_id c) (ac_action c) (ac_amount c) t) (\<lambda>res.
          case res of
            Inl e \<Rightarrow> fail (EngineErr e)
          | Inr (False, t') \<Rightarrow> ok False
          | Inr (True, t') \<Rightarrow>
              before (put_table t')
             (before (cancel_preselections T (ac_player_id c))
             (consume_time_bank_of T (ac_player_id c) (\<lambda>spent. cached (\<lambda>t.
               before (commit T (ac_action_id c)
                   ((log_entry (ac_player_id c) (ac_action_id c)
                       (if player_all_in t (ac_player_id c) then ''all_in'' else action_name (ac_action c)))
                     \<lparr>le_betting_action := action_name betting, le_amount := ac_amount c, le_time_bank_ms := spent\<rparr>) [])
                 (ok True)))))))))
     (\<lambda>applied. cached (\<lambda>t. ok (applied, applied \<and> t_stage t = Complete)))"

section \<open>The outcome rows\<close>

definition outcome_entries :: "hand_outcome \<Rightarrow> action_log_entry list" where
  "outcome_entries ho =
     (if ho_won_without_showdown ho
      then map (\<lambda>pid. (log_entry pid '''' ''won'')\<lparr>le_amount := amount_of (ho_payouts ho) pid\<rparr>) (ho_winners ho)
      else concat (map (\<lambda>pid. case ho_showdown_results ho pid of
               None \<Rightarrow> []
             | Some sr \<Rightarrow> [(log_entry pid '''' (showdown_action sr))\<lparr>le_amount := amount_of (ho_payouts ho) pid\<rparr>])
           (sort (remdups (ho_participants ho)))))"

primrec commit_outcome_entry :: "score_tables \<Rightarrow> nat \<Rightarrow> action_log_entry \<Rightarrow> ('x, unit) cmd" where
  "commit_outcome_entry T 0 e = fail (StoreErr Unavailable)"
| "commit_outcome_entry T (Suc n) e = and_then (attempt (commit T (le_action_id e) e [])) (\<lambda>r.
     case r of
       Inr _ \<Rightarrow> skip
     | Inl err \<Rightarrow>
         if err \<noteq> StoreErr DuplicateAction \<and> err \<noteq> StoreErr VersionConflict then fail err
         else before (ensure_loaded True)
           (if err = StoreErr DuplicateAction then skip else commit_outcome_entry T n e))"

primrec each :: "('b \<Rightarrow> ('x, unit) cmd) \<Rightarrow> 'b list \<Rightarrow> ('x, unit) cmd" where
  "each f [] = skip"
| "each f (v # vs) = before (f v) (each f vs)"

definition commit_outcome_log_entries :: "score_tables \<Rightarrow> nat \<Rightarrow> ('x, unit) cmd" where
  "commit_outcome_log_entries T n = look (\<lambda>a.
     case a_cached a of
       None \<Rightarrow> skip
     | Some t \<Rightarrow>
         if t_stage t \<noteq> Complete \<or> a_hand_id a = '''' \<or> a_outcome_logged_for_hand a = a_hand_id a then skip
         else case t_last_outcome t of
             None \<Rightarrow> skip
           | Some ho \<Rightarrow>
               before (each (\<lambda>e. look (\<lambda>a. commit_outcome_entry T n
                   (e\<lparr>le_action_id := ''outcome:'' @ a_hand_id a @ '':'' @ le_player_id e\<rparr>))) (outcome_entries ho))
                 (change (\<lambda>a. a\<lparr>a_outcome_logged_for_hand := a_hand_id a\<rparr>)))"

section \<open>Leaving\<close>

record 'x leave_cmd =
  lv_player_id :: string
  lv_settlement_intent :: "(int \<Rightarrow> string \<Rightarrow> 'x other_item option) option"

definition apply_leave_and_commit :: "score_tables \<Rightarrow> 'x leave_cmd \<Rightarrow> ('x, int \<times> string) cmd" where
  "apply_leave_and_commit T c = mutate (cached (\<lambda>t.
     case remove_player (lv_player_id c) t of
       Inl e \<Rightarrow> fail (EngineErr e)
     | Inr ((stack, hold_id), t') \<Rightarrow>
         before (put_table t')
           (case (case lv_settlement_intent c of None \<Rightarrow> Some [] | Some f \<Rightarrow> map_option (\<lambda>i. [i]) (f stack hold_id)) of
              None \<Rightarrow> fail IntentFailed
            | Some extra \<Rightarrow>
                before (commit T '''' (log_entry (lv_player_id c) '''' ''leave'') extra) (ok (stack, hold_id)))))"

definition notify_seats_changed :: "('x, unit) cmd" where
  "notify_seats_changed = look (\<lambda>a.
     case a_cached a of None \<Rightarrow> skip | Some t \<Rightarrow> emit (SeatsChanged (length (t_players t))))"

definition forget_presence :: "string \<Rightarrow> 'x actor \<Rightarrow> 'x actor" where
  "forget_presence pid a =
     a\<lparr>a_disconnected_since := (a_disconnected_since a)(pid := None),
       a_active_conns := (a_active_conns a)(pid := {}), a_kick_timers := (a_kick_timers a)(pid := None)\<rparr>"

definition handle_leave_then :: "('x, unit) cmd \<Rightarrow> score_tables \<Rightarrow> 'x leave_cmd \<Rightarrow> ('x, int \<times> string) cmd" where
  "handle_leave_then broadcast T c =
     before (ensure_loaded False)
    (and_then (attempt (apply_leave_and_commit T c)) (\<lambda>r.
     and_then (case r of
         Inr left \<Rightarrow> ok left
       | Inl e \<Rightarrow> if e = StoreErr VersionConflict then before (ensure_loaded True) (apply_leave_and_commit T c)
                  else fail e) (\<lambda>(stack, hold_id).
       before (change (forget_presence (lv_player_id c)))
      (before (emit (LeaveReplied stack hold_id))
      (before notify_seats_changed
      (before broadcast
              (ok (stack, hold_id))))))))"

definition system_leave_cmd :: "'x actor \<Rightarrow> string \<Rightarrow> string \<Rightarrow> string \<Rightarrow> 'x leave_cmd" where
  "system_leave_cmd a pid reason nonce =
     \<lparr>lv_player_id = pid,
      lv_settlement_intent = map_option (\<lambda>f amount hold. f pid reason nonce amount hold) (a_system_settlement a)\<rparr>"

definition ulid :: "(string \<Rightarrow> ('x, 'a) cmd) \<Rightarrow> ('x, 'a) cmd" where
  "ulid f a = NewULID (\<lambda>s. f s a)"

text \<open>A removal by the system; a failed one is left to the next sweep.\<close>

definition remove_by_system :: "('x, unit) cmd \<Rightarrow> score_tables \<Rightarrow> string \<Rightarrow> string \<Rightarrow> ('x, unit) cmd" where
  "remove_by_system broadcast T reason pid = ulid (\<lambda>nonce. look (\<lambda>a.
     and_then (attempt (handle_leave_then broadcast T (system_leave_cmd a pid reason nonce))) (\<lambda>r.
       case r of
         Inl _ \<Rightarrow> skip
       | Inr (stack, hold_id) \<Rightarrow> emit (PlayerRemoved pid reason nonce stack hold_id))))"

definition remove_eligible_pending_exits :: "('x, unit) cmd \<Rightarrow> score_tables \<Rightarrow> ('x, unit) cmd" where
  "remove_eligible_pending_exits broadcast T = cached (\<lambda>t.
     each (remove_by_system broadcast T ''exit_requested'')
       (map (\<lambda>r. p_id (pl t r))
         (filter (\<lambda>r. p_pending_exit (pl t r) \<and> \<not> dealt_into_current_hand t (p_id (pl t r))) (t_players t))))"

definition idle_seats :: "int \<Rightarrow> 'x actor \<Rightarrow> table \<Rightarrow> string list" where
  "idle_seats now a t =
     map (\<lambda>r. p_id (pl t r))
       (filter (\<lambda>r. p_last_action_at (pl t r) > 0 \<and> now - milliseconds (p_last_action_at (pl t r)) \<ge> a_kick_grace a)
         (t_players t))"

definition remove_idle_players :: "('x, unit) cmd \<Rightarrow> score_tables \<Rightarrow> ('x, unit) cmd" where
  "remove_idle_players broadcast T = clock (\<lambda>now. look (\<lambda>a. cached (\<lambda>t.
     each (remove_by_system broadcast T ''idle'') (idle_seats now a t))))"

section \<open>The sweeps\<close>

text \<open>The action a prepared selection stands for now, or none when it no longer applies.\<close>

definition preselected_action :: "table \<Rightarrow> string \<Rightarrow> preselection \<Rightarrow> (action \<times> int) option option" where
  "preselected_action t pid ps =
     (case prospective_call_amount t pid of
        None \<Rightarrow> None
      | Some owed \<Rightarrow>
          let sel = ps_selection ps
          in if sel = ''check_fold'' then Some (Some (if owed = 0 then (ActionCheck, 0) else (ActionFold, 0)))
             else if sel = ''fold'' then Some (Some (ActionFold, 0))
             else if sel = ''call''
             then Some (if ps_amount ps = owed \<and> owed > 0 then Some (ActionCall, owed)
                        else if owed = 0 then Some (ActionCheck, 0) else None)
             else if sel = ''call_any'' then Some (Some (if owed = 0 then (ActionCheck, 0) else (ActionCall, owed)))
             else if sel = ''all_in''
             then (case all_in_amount t pid of
                     None \<Rightarrow> None
                   | Some (amt, can) \<Rightarrow> Some (if can then Some (ActionRaise, amt) else None))
             else Some None)"

definition act_by_system :: "string \<Rightarrow> string \<Rightarrow> action \<Rightarrow> int \<Rightarrow> act_cmd" where
  "act_by_system pid action_id x amount =
     \<lparr>ac_player_id = pid, ac_action_id = action_id, ac_expected_snapshot_version = 0, ac_expected_hand_id = '''',
      ac_action = x, ac_amount = amount\<rparr>"

text \<open>A sweep acts; after an error or a replay it reloads and stops, otherwise it goes on.\<close>

definition sweep_act :: "score_tables \<Rightarrow> nat \<Rightarrow> act_cmd \<Rightarrow> ('x, unit) cmd \<Rightarrow> ('x, unit) cmd" where
  "sweep_act T n c continue = and_then (attempt (apply_act_and_commit T c)) (\<lambda>r.
     case r of
       Inr (True, completed) \<Rightarrow>
         before (and_then (attempt (commit_outcome_log_entries T n)) (\<lambda>_. skip)) continue
     | _ \<Rightarrow> and_then (attempt (ensure_loaded True)) (\<lambda>_. skip))"

primrec process_pending_exit_auto_folds :: "score_tables \<Rightarrow> nat \<Rightarrow> ('x, unit) cmd" where
  "process_pending_exit_auto_folds T 0 = skip"
| "process_pending_exit_auto_folds T (Suc n) = look (\<lambda>a.
     case a_cached a of
       None \<Rightarrow> skip
     | Some t \<Rightarrow>
         if t_stage t = Complete then skip
         else total (current_player_should_auto_fold t) (\<lambda>fold_now. total (current_player_to_act t) (\<lambda>current.
           if \<not> fold_now then skip
           else sweep_act T n (act_by_system current
                  (''auto-fold-'' @ current @ ''-'' @ decimal (a_version a)) ActionFold 0)
                (process_pending_exit_auto_folds T n))))"

primrec process_inline_loop :: "score_tables \<Rightarrow> nat \<Rightarrow> ('x, unit) cmd" where
  "process_inline_loop T 0 = skip"
| "process_inline_loop T (Suc n) = look (\<lambda>a.
     let sels = ta_preselections (a_activity a)
     in case a_cached a of
          None \<Rightarrow> skip
        | Some t \<Rightarrow>
            if sels = [] \<or> t_stage t = Complete then skip
            else total (current_player_to_act t) (\<lambda>current.
              if current = '''' then skip
              else case map_of sels current of
                  None \<Rightarrow> skip
                | Some ps \<Rightarrow> total (preselected_action t current ps) (\<lambda>todo.
                    before (change (set_preselections (AList.delete current sels)))
                      (case todo of
                         None \<Rightarrow> process_inline_loop T n
                       | Some (x, amount) \<Rightarrow>
                           sweep_act T n (act_by_system current
                             (''auto-preselect-'' @ current @ ''-'' @ ps_selection ps @ ''-'' @ decimal (a_version a)) x amount)
                             (process_inline_loop T n)))))"

definition process_inline_preselections :: "score_tables \<Rightarrow> nat \<Rightarrow> ('x, unit) cmd" where
  "process_inline_preselections T n = before (prune_preselections T) (process_inline_loop T n)"

section \<open>Broadcasting\<close>

definition zero_time_ms :: int where "zero_time_ms = - 62135596800000"

definition deadlines_for_broadcast :: "string \<Rightarrow> stage \<Rightarrow> int \<Rightarrow> 'x actor \<Rightarrow> int \<times> int \<times> int" where
  "deadlines_for_broadcast current s now a =
     (let on_clock = (current \<noteq> '''' \<and> current = a_turn_deadline_for a \<and> now < a_turn_deadline a);
          counting = (s = Complete \<and> a_hand_id a = a_next_hand_armed_for a \<and> now < a_next_hand_deadline a)
      in (if on_clock then unix_milli (a_turn_deadline a) else 0,
          if on_clock then (case a_turn_base_deadline a of None \<Rightarrow> zero_time_ms | Some b \<Rightarrow> unix_milli b) else 0,
          if counting then unix_milli (a_next_hand_deadline a) else 0))"

definition presence_of :: "'x actor \<Rightarrow> seat_view \<Rightarrow> string \<times> bool" where
  "presence_of a w =
     (let pid = sw_player_id w
      in (pid, a_active_conns a pid \<noteq> {} \<or> a_disconnected_since a pid = None))"

definition live_reactions :: "int \<Rightarrow> table_activity \<Rightarrow> reaction list" where
  "live_reactions now w = filter (\<lambda>r. rx_expires_at r > unix_milli now) (ta_reactions w)"

text \<open>One viewer's frame: the view, and what only the actor knows.\<close>

definition frame_of :: "string \<Rightarrow> snapshot \<Rightarrow> int \<Rightarrow> int \<Rightarrow> int \<Rightarrow> reaction list \<Rightarrow> string \<Rightarrow> stage \<Rightarrow> 'x actor \<Rightarrow> table_frame" where
  "frame_of viewer snap now last_action idle_for rs current s a =
     (let (turn, base, next_hand) = deadlines_for_broadcast current s now a
      in \<lparr>fr_viewer = viewer, fr_snapshot = snap, fr_version = a_version a, fr_hand_id = a_hand_id a,
          fr_action_deadline_ms = turn, fr_action_base_deadline_ms = base, fr_next_hand_ms = next_hand,
          fr_idle_removal_ms = (if last_action > 0 then last_action + idle_for div 1000000 else 0),
          fr_connected = map (presence_of a) (sn_seats snap), fr_chat = ta_chat (a_activity a), fr_reactions = rs,
          fr_preselection = (case map_of (ta_preselections (a_activity a)) viewer of
              None \<Rightarrow> None
            | Some ps \<Rightarrow> if ps_hand_id ps = a_hand_id a \<and> ps_stage ps = sn_stage snap
                         then Some (ps_selection ps, ps_amount ps) else None)\<rparr>)"

definition publish_to :: "score_tables \<Rightarrow> stage \<Rightarrow> string \<Rightarrow> reaction list \<Rightarrow> string \<times> int \<Rightarrow> ('x, unit) cmd" where
  "publish_to T s current rs = (\<lambda>(viewer, last_action). cached (\<lambda>t. total (view_for T viewer t) (\<lambda>(snap, t').
     before (put_table t') (clock (\<lambda>now. look (\<lambda>a.
       emit (Published (frame_of viewer snap now last_action (a_kick_grace a) rs current s a))))))))"

definition publish_snapshots :: "score_tables \<Rightarrow> ('x, unit) cmd" where
  "publish_snapshots T = cached (\<lambda>t. total (current_player_to_act t) (\<lambda>current. clock (\<lambda>now. look (\<lambda>a.
     each (publish_to T (t_stage t) current (live_reactions now (a_activity a)))
       (map (\<lambda>r. (p_id (pl t r), p_last_action_at (pl t r))) (t_players t))))))"

text \<open>The right to run the hooks of a hand; an unreachable store grants it.\<close>

definition claim_hand_hooks :: "(bool \<Rightarrow> ('x, 'a) cmd) \<Rightarrow> ('x, 'a) cmd" where
  "claim_hand_hooks f a = Hook (ClaimHandHooks (a_id a) (a_hand_id a)) (\<lambda>reply.
     f (case reply of HookAnswer b \<Rightarrow> b | _ \<Rightarrow> True) a)"

definition hook_outcome :: "table \<Rightarrow> hand_outcome \<Rightarrow> hand_outcome" where
  "hook_outcome t ho = ho\<lparr>ho_fairness_proofs := fairness_proofs t\<rparr>"

definition notify_hand_complete :: "(bool \<Rightarrow> ('x, unit) cmd) \<Rightarrow> ('x, unit) cmd" where
  "notify_hand_complete f = look (\<lambda>a.
     case a_cached a of
       None \<Rightarrow> f False
     | Some t \<Rightarrow>
         if t_stage t \<noteq> Complete \<or> a_hand_id a = '''' \<or> a_completed_hand_notified a = a_hand_id a then f False
         else case t_last_outcome t of
             None \<Rightarrow> f False
           | Some ho \<Rightarrow>
               before (change (\<lambda>a. a\<lparr>a_completed_hand_notified := a_hand_id a\<rparr>))
                 (claim_hand_hooks (\<lambda>mine.
                   if mine then before (emit (HandCompleted (a_hand_id a) (hook_outcome t ho))) (f True) else f False)))"

definition is_reveal_street :: "stage \<Rightarrow> bool" where
  "is_reveal_street s \<longleftrightarrow> s = Flop \<or> s = Turn \<or> s = River"

definition sync_then :: "('x, unit) cmd \<Rightarrow> score_tables \<Rightarrow> nat \<Rightarrow> bool \<Rightarrow> ('x, unit) cmd" where
  "sync_then remove_exits T n publish = look (\<lambda>a0.
     if a_cached a0 = None then skip
     else before (process_pending_exit_auto_folds T n)
         (before (process_inline_preselections T n)
         (before remove_exits
         (look (\<lambda>a.
           let publish = (publish \<or> a_version a \<noteq> a_version a0)
           in cached (\<lambda>t.
             before (arm_timers (if t_stage t \<noteq> a_last_broadcast_stage a \<and> is_reveal_street (t_stage t) then reveal_grace else 0))
            (before (change (\<lambda>a. a\<lparr>a_last_broadcast_stage := t_stage t\<rparr>))
            (before (if publish then publish_snapshots T else skip)
                    (notify_hand_complete (\<lambda>ran. if ran \<and> publish then publish_snapshots T else skip))))))))))"

text \<open>
  A removal broadcasts in its turn. Each nested broadcast follows one more removed seat, so a fuel above
  the number of seats is enough; without fuel left the exits wait for the next broadcast.
\<close>

primrec sync :: "score_tables \<Rightarrow> nat \<Rightarrow> bool \<Rightarrow> ('x, unit) cmd" where
  "sync T 0 publish = sync_then skip T 0 publish"
| "sync T (Suc n) publish = sync_then (remove_eligible_pending_exits (sync T n True) T) T (Suc n) publish"

definition broadcast_all :: "score_tables \<Rightarrow> nat \<Rightarrow> ('x, unit) cmd" where
  "broadcast_all T n = sync T n True"

definition handle_leave :: "score_tables \<Rightarrow> nat \<Rightarrow> 'x leave_cmd \<Rightarrow> ('x, unit) cmd" where
  "handle_leave T n c = and_then (handle_leave_then (broadcast_all T n) T c) (\<lambda>_. skip)"

definition remove_idle_players_between_hands :: "score_tables \<Rightarrow> nat \<Rightarrow> ('x, unit) cmd" where
  "remove_idle_players_between_hands T n = remove_idle_players (broadcast_all T n) T"

end
