(* ===== verification/Reaction_Catalog.thy ===== *)
theory Reaction_Catalog
  imports Poker_Prelude
begin

text \<open>
  The reactions a player may send, \<open>api/internal/reactions/catalog.go\<close>: which exist, which are premium,
  which need a target, and the product a premium one is sold as. The maps \<open>byID\<close> and \<open>bySKU\<close> keep the
  last entry of a key.
\<close>

record reaction_catalog_entry =
  rc_id :: string
  rc_premium :: bool
  rc_targeted :: bool
  rc_price_fichas :: int
  rc_sku :: string

definition free_reaction :: "bool \<Rightarrow> string \<Rightarrow> reaction_catalog_entry" where
  "free_reaction targeted i = \<lparr>rc_id = i, rc_premium = False, rc_targeted = targeted, rc_price_fichas = 0, rc_sku = ''''\<rparr>"

definition premium_reaction :: "bool \<Rightarrow> int \<Rightarrow> string \<Rightarrow> string \<Rightarrow> reaction_catalog_entry" where
  "premium_reaction targeted price i sku =
     \<lparr>rc_id = i, rc_premium = True, rc_targeted = targeted, rc_price_fichas = price, rc_sku = sku\<rparr>"

definition catalog :: "reaction_catalog_entry list" where
  "catalog =
     map (free_reaction False) [''clap'', ''laugh'', ''wow'', ''angry'', ''cry'', ''nervous'', ''respect'',
       ''sleepy'', ''heartbeat'', ''shark'', ''pokerface''] @
     map (free_reaction True) [''chip'', ''coffee'', ''clover'', ''horseshoe'', ''tear'', ''tomato'', ''duck'',
       ''flowers'', ''spotlight'', ''crown'', ''bandage'', ''cucumber'', ''boomerang''] @
     [premium_reaction False 100000 ''cold'' ''poker_reaction_cold'',
      premium_reaction False 100000 ''fire'' ''poker_reaction_fire'',
      premium_reaction True 500000 ''poop'' ''poker_reaction_poop'',
      premium_reaction True 500000 ''rofl'' ''poker_reaction_rofl'',
      premium_reaction True 500000 ''knife'' ''poker_reaction_knife'',
      premium_reaction True 500000 ''turtle'' ''poker_reaction_turtle'']"

definition by_id :: "string \<Rightarrow> reaction_catalog_entry option" where
  "by_id i = List.find (\<lambda>e. rc_id e = i) (rev catalog)"

definition by_sku :: "string \<Rightarrow> reaction_catalog_entry option" where
  "by_sku sku = List.find (\<lambda>e. rc_sku e \<noteq> '''' \<and> rc_sku e = sku) (rev catalog)"

definition is_known :: "string \<Rightarrow> bool" where
  "is_known i \<longleftrightarrow> by_id i \<noteq> None"

definition is_premium :: "string \<Rightarrow> bool" where
  "is_premium i \<longleftrightarrow> (case by_id i of None \<Rightarrow> False | Some e \<Rightarrow> rc_premium e)"

definition is_targeted :: "string \<Rightarrow> bool" where
  "is_targeted i \<longleftrightarrow> (case by_id i of None \<Rightarrow> False | Some e \<Rightarrow> rc_targeted e)"

definition sku_for :: "string \<Rightarrow> (string \<times> int) option" where
  "sku_for i = (case by_id i of None \<Rightarrow> None
     | Some e \<Rightarrow> if rc_premium e then Some (rc_sku e, rc_price_fichas e) else None)"

definition reaction_for_sku :: "string \<Rightarrow> (string \<times> int) option" where
  "reaction_for_sku sku = (case by_sku sku of None \<Rightarrow> None | Some e \<Rightarrow> Some (rc_id e, rc_price_fichas e))"

text \<open>No two entries share an ID or a product, and exactly the premium ones are sold.\<close>

lemma catalog_keys:
  "distinct (map rc_id (rev catalog))"
  "distinct (map rc_sku (filter (\<lambda>e. rc_sku e \<noteq> '''') (rev catalog)))"
  "list_all (\<lambda>e. rc_premium e \<longleftrightarrow> rc_sku e \<noteq> '''') catalog"
  "list_all (\<lambda>e. rc_premium e \<longleftrightarrow> rc_price_fichas e > 0) catalog"
  by code_simp+

lemma find_by_key:
  assumes "distinct (map f (filter P xs))"
  shows "List.find (\<lambda>e. P e \<and> f e = k) xs = Some e \<longleftrightarrow> e \<in> set xs \<and> P e \<and> f e = k"
  using assms by (induction xs) (auto split: if_splits)

text \<open>What a player buys is what the webhook of the wallet recovers from the product, at the same price.\<close>

lemma sku_round_trip: "sku_for i = Some (sku, price) \<longleftrightarrow> reaction_for_sku sku = Some (i, price)"
proof -
  have i: "by_id i = Some e \<longleftrightarrow> e \<in> set catalog \<and> rc_id e = i" for e
    using find_by_key [of rc_id "\<lambda>_. True" "rev catalog" i e] catalog_keys(1) by (simp add: by_id_def)
  have sku: "by_sku sku = Some e \<longleftrightarrow> e \<in> set catalog \<and> rc_sku e \<noteq> '''' \<and> rc_sku e = sku" for e
    using find_by_key [OF catalog_keys(2), of sku e] by (simp add: by_sku_def)
  have sold: "rc_premium e \<longleftrightarrow> rc_sku e \<noteq> ''''" if "e \<in> set catalog" for e
    using catalog_keys(3) that by (simp add: list_all_iff)
  have "sku_for i = Some (sku, price) \<longleftrightarrow>
      (\<exists>e. by_id i = Some e \<and> rc_premium e \<and> rc_sku e = sku \<and> rc_price_fichas e = price)"
    by (auto simp: sku_for_def split: option.split)
  moreover have "reaction_for_sku sku = Some (i, price) \<longleftrightarrow>
      (\<exists>e. by_sku sku = Some e \<and> rc_id e = i \<and> rc_price_fichas e = price)"
    by (auto simp: reaction_for_sku_def split: option.split)
  ultimately show ?thesis unfolding i sku using sold by metis
qed

end
