(* ===== verification/Actor_Handlers.thy ===== *)
theory Actor_Handlers
  imports Actor_Sync Reaction_Catalog
begin

text \<open>
  The commands of the table actor and their handlers (\<open>commands.go\<close>, \<open>actor_player_actions.go\<close>,
  \<open>actor_activity.go\<close>, \<open>actor_seating.go\<close>, \<open>actor_presence.go\<close>, \<open>actor_loading.go\<close> and
  \<open>actor_timers.go\<close>), dispatched by \<open>handle\<close> under the panic recovery of \<open>handleSafely\<close>. The fuel \<open>n\<close> is
  the deadline of a command, see \<open>Actor_Sync\<close>.
\<close>

section \<open>Shapes the handlers share\<close>

definition engine_opt :: "(table \<Rightarrow> table option) \<Rightarrow> ('x, unit) cmd" where
  "engine_opt f = cached (\<lambda>t. total (f t) put_table)"

definition note_change :: "('x, unit) cmd" where
  "note_change = change (\<lambda>a. a\<lparr>a_changed := True\<rparr>)"

definition forget_change :: "('x, unit) cmd" where
  "forget_change = change (\<lambda>a. a\<lparr>a_changed := False\<rparr>)"

definition if_changed :: "('x, unit) cmd \<Rightarrow> ('x, unit) cmd" where
  "if_changed m = look (\<lambda>a. if a_changed a then m else skip)"

definition commit_plain :: "score_tables \<Rightarrow> string \<Rightarrow> string \<Rightarrow> string \<Rightarrow> ('x, unit) cmd" where
  "commit_plain T pid action_id act_name = commit T action_id (log_entry pid action_id act_name) []"

text \<open>Load, apply with one retry, take a replay for done, broadcast when something changed.\<close>

definition answer_if_changed :: "score_tables \<Rightarrow> nat \<Rightarrow> ('x, unit) cmd \<Rightarrow> ('x, unit) cmd" where
  "answer_if_changed T n body =
     before (ensure_loaded False)
    (before forget_change
    (before (accept_duplicate (retry_on_conflict (mutate body)))
            (if_changed (broadcast_all T n))))"

section \<open>Plain player actions\<close>

definition handle_sit_out :: "score_tables \<Rightarrow> nat \<Rightarrow> string \<Rightarrow> ('x, unit) cmd" where
  "handle_sit_out T n pid =
     before (ensure_loaded False)
    (before (retry_on_conflict (mutate
       (before (require_seated pid)
       (before (mark_last_action pid)
       (before (engine_opt (sit_out T pid))
               (commit_plain T pid '''' ''sit_out''))))))
            (broadcast_all T n))"

definition handle_keep_seat :: "score_tables \<Rightarrow> nat \<Rightarrow> string \<Rightarrow> string \<Rightarrow> ('x, unit) cmd" where
  "handle_keep_seat T n pid action_id =
     before (ensure_loaded False)
    (before (accept_duplicate (retry_on_conflict (mutate
       (before (require_seated pid)
       (before (mark_last_action pid)
               (commit_plain T pid action_id ''keep_seat''))))))
            (broadcast_all T n))"

definition handle_peek_cards :: "score_tables \<Rightarrow> string \<Rightarrow> string \<Rightarrow> ('x, unit) cmd" where
  "handle_peek_cards T pid action_id =
     before (ensure_loaded False)
       (accept_duplicate (retry_on_conflict
         (before (require_seated pid) (commit_plain T pid action_id ''peek_cards''))))"

definition handle_show_cards :: "score_tables \<Rightarrow> nat \<Rightarrow> string \<Rightarrow> string \<Rightarrow> int option \<Rightarrow> ('x, unit) cmd" where
  "handle_show_cards T n pid action_id index =
     before (answer_if_changed T n (cached (\<lambda>t.
       case reveal_hole_card pid index t of
         Inl e \<Rightarrow> fail (EngineErr e)
       | Inr (applied, t') \<Rightarrow>
           before (put_table t')
             (if \<not> applied then skip
              else before note_change (commit_plain T pid action_id ''show_cards'')))))
    (if_changed (cached (\<lambda>t. look (\<lambda>a.
       case t_last_outcome t of
         None \<Rightarrow> skip
       | Some ho \<Rightarrow> emit (HandUpdated (a_hand_id a) (hook_outcome t ho))))))"

definition handle_request_rabbit_hunt :: "score_tables \<Rightarrow> nat \<Rightarrow> string \<Rightarrow> string \<Rightarrow> int option \<Rightarrow> ('x, unit) cmd" where
  "handle_request_rabbit_hunt T n pid action_id slot =
     answer_if_changed T n
       (before (engine_try (\<lambda>t. map_sum id snd (request_rabbit_hunt pid slot t)))
       (before note_change (commit_plain T pid action_id ''request_rabbit_hunt'')))"

definition handle_rabbit_hunt_verify_failed ::
    "score_tables \<Rightarrow> nat \<Rightarrow> string \<Rightarrow> string \<Rightarrow> int option \<Rightarrow> ('x, unit) cmd" where
  "handle_rabbit_hunt_verify_failed T n pid action_id slot =
     answer_if_changed T n
       (before (engine_try (refund_rabbit_hunt pid slot))
       (before note_change (commit_plain T pid action_id ''rabbit_hunt_verify_failed'')))"

definition handle_request_exit :: "score_tables \<Rightarrow> nat \<Rightarrow> string \<Rightarrow> string \<Rightarrow> ('x, unit) cmd" where
  "handle_request_exit T n pid action_id =
     answer_if_changed T n
       (before (require_seated pid)
       (before (mark_last_action pid)
       (before (cached (\<lambda>t. total (request_exit T pid t) (\<lambda>res.
          case res of Inl e \<Rightarrow> fail (EngineErr e) | Inr t' \<Rightarrow> put_table t')))
       (before note_change (commit_plain T pid action_id ''request_exit'')))))"

text \<open>\<open>StartHand\<close>, with its error swallowed: what it did to the table before it refused stays.\<close>

definition entropy :: "(bytes random \<times> 64 word random list \<Rightarrow> ('x, 'a) cmd) \<Rightarrow> ('x, 'a) cmd" where
  "entropy f a = Entropy (\<lambda>r. f r a)"

definition start_new_hand :: "score_tables \<Rightarrow> ('x, unit) cmd" where
  "start_new_hand T = cached (\<lambda>t. entropy (\<lambda>(seed, draws). total (start_hand seed draws t) (\<lambda>res.
     case res of
       Inl (e, t') \<Rightarrow> put_table t'
     | Inr t' \<Rightarrow> before (put_table t') (ulid (\<lambda>hand_id.
         before (change (\<lambda>a. a\<lparr>a_hand_id := hand_id\<rparr>)) (prune_preselections T))))))"

definition try_start_hand :: "score_tables \<Rightarrow> ('x, unit) cmd" where
  "try_start_hand T = cached (\<lambda>t. if t_stage t = WaitingForPlayers then start_new_hand T else skip)"

definition handle_cancel_exit :: "score_tables \<Rightarrow> nat \<Rightarrow> string \<Rightarrow> string \<Rightarrow> ('x, unit) cmd" where
  "handle_cancel_exit T n pid action_id =
     answer_if_changed T n
       (before (require_seated pid)
       (before (mark_last_action pid)
       (before (engine_try (cancel_exit pid))
       (before note_change
       (before (try_start_hand T)
               (commit_plain T pid action_id ''cancel_exit''))))))"

text \<open>The winner's cards: the engine may refund an expired request on its way to an error.\<close>

definition handle_request_winner_cards :: "score_tables \<Rightarrow> nat \<Rightarrow> string \<Rightarrow> string \<Rightarrow> ('x, unit) cmd" where
  "handle_request_winner_cards T n pid action_id =
     answer_if_changed T n (cached (\<lambda>t. clock (\<lambda>now.
       let (res, t') = request_winner_cards pid (unix_milli now) t
       in before (put_table t')
            (case res of
               Inl e \<Rightarrow> fail (EngineErr e)
             | Inr _ \<Rightarrow> before note_change (commit_plain T pid action_id ''request_winner_cards'')))))"

definition apply_winner_cards_answer ::
    "score_tables \<Rightarrow> nat \<Rightarrow> string \<Rightarrow> string \<Rightarrow> string \<Rightarrow> (int \<Rightarrow> table \<Rightarrow> hand_error option \<times> table) \<Rightarrow> ('x, unit) cmd" where
  "apply_winner_cards_answer T n pid action_id act_name answer =
     answer_if_changed T n (cached (\<lambda>t. clock (\<lambda>now.
       let (res, t') = answer (unix_milli now) t
       in before (put_table t')
            (case res of
               Some e \<Rightarrow> fail (EngineErr e)
             | None \<Rightarrow> before note_change (commit_plain T pid action_id act_name)))))"

definition handle_accept_winner_cards :: "score_tables \<Rightarrow> nat \<Rightarrow> string \<Rightarrow> string \<Rightarrow> ('x, unit) cmd" where
  "handle_accept_winner_cards T n pid action_id =
     apply_winner_cards_answer T n pid action_id ''accept_winner_cards'' (accept_winner_cards pid)"

definition handle_decline_winner_cards :: "score_tables \<Rightarrow> nat \<Rightarrow> string \<Rightarrow> string \<Rightarrow> ('x, unit) cmd" where
  "handle_decline_winner_cards T n pid action_id =
     apply_winner_cards_answer T n pid action_id ''decline_winner_cards'' (\<lambda>now. decline_winner_cards pid)"

definition handle_expire_winner_cards :: "score_tables \<Rightarrow> nat \<Rightarrow> ('x, unit) cmd" where
  "handle_expire_winner_cards T n =
     before (ensure_loaded False)
    (before forget_change
    (before (and_then (attempt (retry_on_conflict (mutate (cached (\<lambda>t. clock (\<lambda>now.
         let (expired, t') = expire_winner_cards (unix_milli now) t
         in before (put_table t')
              (if expired then before note_change (commit_plain T '''' '''' ''expire_winner_cards'') else skip)))))))
       (\<lambda>r. case r of
          Inr _ \<Rightarrow> skip
        | Inl e \<Rightarrow> if e \<noteq> StoreErr VersionConflict then fail e else ensure_loaded True))
       (if_changed (broadcast_all T n))))"

definition handle_set_run_it_twice :: "score_tables \<Rightarrow> nat \<Rightarrow> string \<Rightarrow> bool \<Rightarrow> ('x, unit) cmd" where
  "handle_set_run_it_twice T n pid enabled =
     before (ensure_loaded False)
    (before forget_change
    (before (retry_on_conflict (mutate
       (before (require_seated pid)
         (cached (\<lambda>t. let (t', changed) = set_player_run_it_twice pid enabled t
            in before (put_table t')
                 (if changed then before note_change (commit_plain T pid '''' ''set_run_it_twice'') else skip))))))
       (if_changed (broadcast_all T n))))"

definition handle_post_big_blind :: "score_tables \<Rightarrow> nat \<Rightarrow> string \<Rightarrow> string \<Rightarrow> ('x, unit) cmd" where
  "handle_post_big_blind T n pid action_id =
     before (ensure_loaded False)
    (before (accept_duplicate (retry_on_conflict (mutate
       (before (require_seated pid)
       (before (engine (mark_ready_to_post pid))
               (commit_plain T pid action_id ''post_big_blind''))))))
            (broadcast_all T n))"

definition set_ready :: "string \<Rightarrow> bool \<Rightarrow> table \<Rightarrow> table" where
  "set_ready pid ready t =
     fold (\<lambda>r. if p_id (pl t r) = pid then upd r (\<lambda>p. p\<lparr>p_ready := ready\<rparr>) else (\<lambda>t. t)) (t_players t) t"

definition handle_ready :: "score_tables \<Rightarrow> nat \<Rightarrow> string \<Rightarrow> string \<Rightarrow> bool \<Rightarrow> ('x, unit) cmd" where
  "handle_ready T n pid action_id ready =
     before (ensure_loaded False)
    (before (accept_duplicate (retry_on_conflict (mutate
       (before (require_seated pid)
       (before (mark_last_action pid)
       (before (engine (set_ready pid ready))
       (if ready
        then before (engine (request_return pid))
            (before (try_start_hand T) (commit_plain T pid action_id ''ready''))
        else before (engine_opt (sit_out T pid)) (commit_plain T pid action_id ''not_ready''))))))))
            (broadcast_all T n))"

definition handle_set_identity :: "score_tables \<Rightarrow> nat \<Rightarrow> string \<Rightarrow> string \<Rightarrow> string \<Rightarrow> string \<Rightarrow> ('x, unit) cmd" where
  "handle_set_identity T n pid name avatar badge =
     (if name = '''' \<and> avatar = '''' \<and> badge = '''' then skip
      else before (ensure_loaded False)
          (before (retry_on_conflict (mutate (cached (\<lambda>t.
             let (t', changed) = set_player_identity pid name avatar badge t
             in before (put_table t') (if changed then commit_plain T pid '''' ''set_identity'' else skip)))))
                  (broadcast_all T n)))"

definition handle_escalate :: "score_tables \<Rightarrow> nat \<Rightarrow> ('x, unit) cmd" where
  "handle_escalate T n =
     before (ensure_loaded False)
    (before (retry_on_conflict (mutate (look (\<lambda>a.
       before (engine (escalate_blinds (a_escalation_multiplier a) (a_escalation_max a)))
              (commit_plain T '''' '''' ''escalate_blinds'')))))
            (broadcast_all T n))"

section \<open>Chat, reactions and prepared actions\<close>

definition commit_activity :: "score_tables \<Rightarrow> nat \<Rightarrow> bool \<Rightarrow> ('x, unit) cmd \<Rightarrow> ('x, unit) cmd" where
  "commit_activity T n broadcast apply_it =
     before (ensure_loaded False)
    (before (accept_duplicate (retry_on_conflict apply_it))
            (if broadcast then broadcast_all T n else skip))"

definition last_n :: "nat \<Rightarrow> 'a list \<Rightarrow> 'a list" where
  "last_n k vs = drop (length vs - k) vs"

definition max_persisted_chat_messages :: nat where "max_persisted_chat_messages = 40"
definition max_persisted_reactions :: nat where "max_persisted_reactions = 8"
definition reaction_lifetime_ms :: int where "reaction_lifetime_ms = 3400"

definition handle_chat :: "score_tables \<Rightarrow> nat \<Rightarrow> string \<Rightarrow> string \<Rightarrow> string \<Rightarrow> ('x, unit) cmd" where
  "handle_chat T n pid action_id message =
     (if action_id = '''' then fail ActionIdMissing
      else if message = '''' then fail ChatMessageMissing
      else commit_activity T n True (mutate
        (before (require_seated pid)
        (before (mark_last_action pid)
        (clock (\<lambda>now.
           before (change (\<lambda>a. a\<lparr>a_activity := (a_activity a)\<lparr>ta_chat := last_n max_persisted_chat_messages
               (ta_chat (a_activity a) @ [\<lparr>cm_id = action_id, cm_player_id = pid, cm_message = message,
                  cm_timestamp = unix_milli now\<rparr>])\<rparr>\<rparr>))
             (commit T action_id ((log_entry pid action_id ''chat'')\<lparr>le_message := message\<rparr>) [])))))))"

definition reaction_usage :: "string \<Rightarrow> string \<Rightarrow> ('x other_item list \<Rightarrow> ('x, unit) cmd) \<Rightarrow> ('x, unit) cmd" where
  "reaction_usage pid rid f =
     (if \<not> is_premium rid then f []
      else look (\<lambda>a. if \<not> a_reaction_mark_used a then fail RecorderUnavailable
        else (\<lambda>a. Hook (ReactionMarkUsed pid rid) (\<lambda>reply. (case reply of
            HookItem (Some i) \<Rightarrow> f [i] | HookItem None \<Rightarrow> f [] | _ \<Rightarrow> fail HookErr) a))))"

definition reaction_owned :: "string \<Rightarrow> string \<Rightarrow> ('x, unit) cmd \<Rightarrow> ('x, unit) cmd" where
  "reaction_owned pid rid m =
     (if \<not> is_premium rid then m
      else look (\<lambda>a. if \<not> a_reaction_ownership a then fail OwnershipUnavailable
        else (\<lambda>a. Hook (ReactionOwnership pid rid) (\<lambda>reply. (case reply of
            HookAnswer True \<Rightarrow> m | HookAnswer False \<Rightarrow> fail ReactionNotOwned | _ \<Rightarrow> fail HookErr) a))))"

definition handle_reaction :: "score_tables \<Rightarrow> nat \<Rightarrow> string \<Rightarrow> string \<Rightarrow> string \<Rightarrow> string \<Rightarrow> ('x, unit) cmd" where
  "handle_reaction T n pid action_id rid target =
     (if action_id = '''' then fail ActionIdMissing
      else if rid = '''' then fail ReactionIdMissing
      else if \<not> is_known rid then fail UnknownReaction
      else reaction_owned pid rid (commit_activity T n False (mutate
        (before (require_seated pid)
        (before (look (\<lambda>a. if target \<noteq> '''' \<and> (target = pid \<or> \<not> is_seated target a) then fail InvalidTarget else skip))
        (reaction_usage pid rid (\<lambda>extra.
           before (mark_last_action pid)
          (clock (\<lambda>now.
             before (change (\<lambda>a. a\<lparr>a_activity := (a_activity a)\<lparr>ta_reactions := last_n max_persisted_reactions
                 (ta_reactions (a_activity a) @ [\<lparr>rx_id = action_id, rx_player_id = pid, rx_reaction_id = rid,
                    rx_target_player_id = target, rx_timestamp = unix_milli now,
                    rx_expires_at = unix_milli now + reaction_lifetime_ms\<rparr>])\<rparr>\<rparr>))
               (commit T action_id ((log_entry pid action_id ''reaction'')
                 \<lparr>le_reaction_id := rid, le_target_player_id := target\<rparr>) extra))))))))))"

record preselect_cmd =
  pc_player_id :: string
  pc_action_id :: string
  pc_selection :: string
  pc_amount :: int
  pc_expected_snapshot_version :: nat
  pc_expected_hand_id :: string
  pc_expected_stage :: string

definition preselect_current :: "preselect_cmd \<Rightarrow> string \<Rightarrow> 'x actor \<Rightarrow> bool" where
  "preselect_current c stage_now a \<longleftrightarrow>
     pc_expected_hand_id c \<noteq> '''' \<and> a_hand_id a = pc_expected_hand_id c \<and>
     (if pc_expected_stage c \<noteq> '''' then pc_expected_stage c = stage_now
      else pc_expected_snapshot_version c \<noteq> 0 \<and> a_version a = pc_expected_snapshot_version c)"

definition handle_preselect :: "score_tables \<Rightarrow> nat \<Rightarrow> preselect_cmd \<Rightarrow> ('x, unit) cmd" where
  "handle_preselect T n c =
     (let pid = pc_player_id c; sel = pc_selection c
      in if pc_action_id c = '''' then fail ActionIdMissing
         else if sel \<notin> {'''', ''check_fold'', ''fold'', ''call'', ''call_any'', ''all_in''} then fail InvalidPreselection
         else commit_activity T n True (mutate
           (before (require_seated pid)
           (cached (\<lambda>t. total (view_for T '''' t) (\<lambda>(snap, t').
              before (put_table t')
             (before (look (\<lambda>a. if preselect_current c (sn_stage snap) a then skip else fail StaleActionState))
             (total (prospective_call_amount t' pid) (\<lambda>owed.
                if sel = ''call'' \<and> (pc_amount c \<le> 0 \<or> pc_amount c \<noteq> owed) then fail CallAmountChanged
                else let amount = (if sel = ''check_fold'' then owed else if sel \<noteq> ''call'' then 0 else pc_amount c)
                in before (change (\<lambda>a. set_preselections
                      (if sel = '''' then AList.delete pid (ta_preselections (a_activity a))
                       else AList.update pid \<lparr>ps_selection = sel, ps_amount = amount, ps_hand_id = a_hand_id a,
                              ps_stage = sn_stage snap\<rparr> (ta_preselections (a_activity a))) a))
                  (before (mark_last_action pid)
                  (commit T (pc_action_id c)
                     ((log_entry pid (pc_action_id c) (if sel = '''' then ''clear_preselection'' else ''preselect_action''))
                       \<lparr>le_selection := sel, le_amount := amount\<rparr>) [])))))))))))"

section \<open>Acting\<close>

definition handle_act :: "score_tables \<Rightarrow> nat \<Rightarrow> act_cmd \<Rightarrow> ('x, unit) cmd" where
  "handle_act T n c =
     (let once = attempt (apply_act_and_commit T c)
      in before (ensure_loaded False)
        (before (validate_action_precondition c)
        (before (mark_last_action (ac_player_id c))
        (and_then once (\<lambda>r. and_then
           (case r of
              Inl e \<Rightarrow> look (\<lambda>a.
                if e \<noteq> StoreErr DuplicateAction \<and> (e = StoreErr VersionConflict \<or> a_trust_cache a)
                then before (ensure_loaded True) (before (mark_last_action (ac_player_id c)) once)
                else ok r)
            | Inr _ \<Rightarrow> ok r)
           (\<lambda>r.
             before (case r of
                Inl e \<Rightarrow> if e = StoreErr DuplicateAction then ensure_loaded True else fail e
              | Inr _ \<Rightarrow> skip)
            (before (commit_outcome_log_entries T n)
                    (broadcast_all T n))))))))"

definition timeout_act :: "string \<Rightarrow> 'x actor \<Rightarrow> table \<Rightarrow> act_cmd option" where
  "timeout_act pid a t = map_option (\<lambda>owed.
     act_by_system pid (''turn-timeout-'' @ pid @ ''-'' @ decimal (a_version a))
       (if owed = 0 then ActionCheck else ActionFold) 0) (prospective_call_amount t pid)"

definition apply_timeout :: "score_tables \<Rightarrow> string \<Rightarrow> ('x, actor_error + bool \<times> bool) cmd" where
  "apply_timeout T pid = look (\<lambda>a. cached (\<lambda>t. total (timeout_act pid a t) (\<lambda>c. attempt (apply_act_and_commit T c))))"

definition handle_turn_timeout :: "score_tables \<Rightarrow> nat \<Rightarrow> string \<Rightarrow> ('x, unit) cmd" where
  "handle_turn_timeout T n pid =
     before (ensure_loaded True)
    (cached (\<lambda>t. total (current_player_to_act t) (\<lambda>current. look (\<lambda>a.
       if current \<noteq> pid then skip
       else if a_disconnected_since a pid \<noteq> None
       then and_then (attempt (mutate (consume_time_bank_of T pid (\<lambda>spent.
              before (engine_opt (sit_out T pid))
                (commit T '''' ((log_entry pid '''' ''disconnect_sit_out'')\<lparr>le_time_bank_ms := spent\<rparr>) [])))))
            (\<lambda>r. before (case r of
                Inr _ \<Rightarrow> skip
              | Inl e \<Rightarrow> if e = StoreErr VersionConflict then ensure_loaded True else fail e)
              (broadcast_all T n))
       else and_then (apply_timeout T pid) (\<lambda>r.
         case r of
           Inl e \<Rightarrow>
             if e = StoreErr VersionConflict
             then before (ensure_loaded True) (cached (\<lambda>t. total (current_player_to_act t) (\<lambda>current.
                    if current \<noteq> pid then broadcast_all T n
                    else and_then (apply_timeout T pid) (\<lambda>r.
                      case r of
                        Inl e \<Rightarrow> if e \<noteq> StoreErr DuplicateAction then fail e else broadcast_all T n
                      | Inr _ \<Rightarrow> broadcast_all T n))))
             else if e \<noteq> StoreErr DuplicateAction then fail e else broadcast_all T n
         | Inr _ \<Rightarrow> broadcast_all T n)))))"

section \<open>The next hand and the runout\<close>

definition retry_next_hand :: "actor_error \<Rightarrow> ('x, unit) cmd" where
  "retry_next_hand e = look (\<lambda>a.
     if a_next_hand_retries a \<ge> max_next_hand_retries
     then before (change (\<lambda>a. a\<lparr>a_next_hand_retries := 0\<rparr>)) (fail e)
     else clock (\<lambda>now. before (change (\<lambda>a. a\<lparr>a_next_hand_retries := a_next_hand_retries a + 1,
         a_next_hand_timer := Some (now + int (a_next_hand_retries a + 1) * a_next_hand_retry_delay a)\<rparr>)) (fail e)))"

text \<open>A best-effort copy; whether it was written does not matter.\<close>

definition save_hand_history_snapshot :: "('x, unit) cmd" where
  "save_hand_history_snapshot = clock (\<lambda>now. cached (\<lambda>t a.
     io_bind (save_table_state_history (a_id a) (unix_sec now) (export_state t)) (\<lambda>_. Return (Ok (), a))))"

definition settle_failed :: "(actor_error \<Rightarrow> ('x, unit) cmd) \<Rightarrow> (actor_error + unit) \<Rightarrow> ('x, unit) cmd" where
  "settle_failed retry r =
     (case r of
        Inr _ \<Rightarrow> skip
      | Inl e \<Rightarrow> if e = StoreErr VersionConflict
                 then and_then (attempt (ensure_loaded True)) (\<lambda>r. case r of Inr _ \<Rightarrow> skip | Inl e \<Rightarrow> retry e)
                 else retry e)"

definition handle_next_hand :: "score_tables \<Rightarrow> nat \<Rightarrow> ('x, unit) cmd" where
  "handle_next_hand T n =
     before (change (\<lambda>a. a\<lparr>a_next_hand_armed_for := ''''\<rparr>))
    (and_then (attempt (ensure_loaded True)) (\<lambda>r.
     case r of
       Inl e \<Rightarrow> retry_next_hand e
     | Inr _ \<Rightarrow>
         let settled = change (\<lambda>a. a\<lparr>a_next_hand_retries := 0\<rparr>)
         in cached (\<lambda>t.
              if t_stage t \<noteq> Complete then settled
              else before save_hand_history_snapshot
                  (before (remove_idle_players_between_hands T n)
                  (cached (\<lambda>t.
                    if t_stage t \<noteq> Complete then settled
                    else and_then (attempt (mutate (before (start_new_hand T) (commit_plain T '''' '''' ''next_hand''))))
                      (\<lambda>r. before (settle_failed retry_next_hand r)
                          (before settled (broadcast_all T n)))))))))"

definition retry_runout_step :: "actor_error \<Rightarrow> ('x, unit) cmd" where
  "retry_runout_step e = look (\<lambda>a.
     if a_runout_retries a \<ge> max_runout_retries
     then before (change (\<lambda>a. a\<lparr>a_runout_retries := 0\<rparr>)) (fail e)
     else clock (\<lambda>now. before (change (\<lambda>a. a\<lparr>a_runout_retries := a_runout_retries a + 1,
         a_runout_timer := Some (now + int (a_runout_retries a + 1) * a_runout_street_delay a)\<rparr>)) (fail e)))"

definition handle_runout_step :: "score_tables \<Rightarrow> nat \<Rightarrow> ('x, unit) cmd" where
  "handle_runout_step T n =
     before (change (\<lambda>a. a\<lparr>a_runout_timer_hand_id := ''''\<rparr>))
    (and_then (attempt (ensure_loaded True)) (\<lambda>r.
     case r of
       Inl e \<Rightarrow> retry_runout_step e
     | Inr _ \<Rightarrow>
         let settled = change (\<lambda>a. a\<lparr>a_runout_retries := 0\<rparr>)
         in cached (\<lambda>t.
              if \<not> is_awaiting_runout t then settled
              else and_then (attempt (mutate (before (engine_opt (advance_runout_street T))
                     (commit_plain T '''' '''' ''runout_step''))))
                (\<lambda>r. before (settle_failed retry_runout_step r)
                    (before settled
                    (before (commit_outcome_log_entries T n)
                            (broadcast_all T n)))))))"

section \<open>Joining\<close>

record 'x join_cmd =
  jn_player_id :: string
  jn_stack :: int
  jn_max_seats :: int
  jn_hold_id :: string
  jn_auto_rebuy :: bool
  jn_settlement_intent :: "'x other_item option option"

definition joining_player :: "'x join_cmd \<Rightarrow> int \<Rightarrow> player" where
  "joining_player c now = no_player\<lparr>p_id := jn_player_id c, p_stack := jn_stack c, p_hold_id := jn_hold_id c,
     p_last_action_at := unix_milli now, p_auto_rebuy := jn_auto_rebuy c, p_buy_in_amount := jn_stack c\<rparr>"

definition seat_joiner :: "player \<Rightarrow> table \<Rightarrow> hand_error + table" where
  "seat_joiner p t =
     (if t_stage t \<noteq> WaitingForPlayers \<and> t_stage t \<noteq> Complete then add_mid_hand_joiner p t else add_waiting_player p t)"

definition apply_join_and_commit :: "score_tables \<Rightarrow> 'x join_cmd \<Rightarrow> ('x, unit) cmd" where
  "apply_join_and_commit T c = cached (\<lambda>t.
     if jn_player_id c \<notin> set (seat_ids t) \<and> jn_max_seats c > 0 \<and> int (length (t_players t)) \<ge> jn_max_seats c
     then fail NoSeatsAvailable
     else mutate (clock (\<lambda>now.
       before (engine_try (seat_joiner (joining_player c now)))
      (before (if t_stage t = WaitingForPlayers then try_start_hand T else skip)
        (case jn_settlement_intent c of
           Some None \<Rightarrow> fail IntentFailed
         | Some (Some i) \<Rightarrow> commit T '''' (log_entry (jn_player_id c) '''' ''join'') [i]
         | None \<Rightarrow> commit_plain T (jn_player_id c) '''' ''join'')))))"

definition handle_join :: "score_tables \<Rightarrow> nat \<Rightarrow> 'x join_cmd \<Rightarrow> ('x, unit) cmd" where
  "handle_join T n c =
     before (ensure_loaded True)
    (before (retry_on_conflict (apply_join_and_commit T c))
    (before notify_seats_changed
            (broadcast_all T n)))"

section \<open>Presence\<close>

definition clear_disconnect_mark :: "string \<Rightarrow> (bool \<Rightarrow> ('x, unit) cmd) \<Rightarrow> ('x, unit) cmd" where
  "clear_disconnect_mark pid f = look (\<lambda>a.
     before (change (\<lambda>a. a\<lparr>a_kick_timers := (a_kick_timers a)(pid := None),
         a_disconnected_since := (a_disconnected_since a)(pid := None)\<rparr>))
       (f (a_disconnected_since a pid \<noteq> None)))"

definition handle_connect :: "score_tables \<Rightarrow> nat \<Rightarrow> string \<Rightarrow> string \<Rightarrow> ('x, unit) cmd" where
  "handle_connect T n pid conn =
     (if conn = '''' then fail ConnIdMissing
      else before (change (\<lambda>a. a\<lparr>a_active_conns := (a_active_conns a)(pid := insert conn (a_active_conns a pid))\<rparr>))
        (clear_disconnect_mark pid (\<lambda>cleared. if cleared then broadcast_all T n else skip)))"

definition handle_disconnect :: "score_tables \<Rightarrow> nat \<Rightarrow> string \<Rightarrow> string \<Rightarrow> ('x, unit) cmd" where
  "handle_disconnect T n pid conn = look (\<lambda>a.
     if conn \<noteq> '''' \<and> conn \<notin> a_active_conns a pid then skip
     else before (change (\<lambda>a. a\<lparr>a_active_conns := (a_active_conns a)(pid := a_active_conns a pid - {conn})\<rparr>))
       (look (\<lambda>a. if a_active_conns a pid \<noteq> {} then skip
         else clock (\<lambda>now. clock (\<lambda>now'.
           before (change (\<lambda>a. a\<lparr>a_disconnected_since := (a_disconnected_since a)(pid \<mapsto> now),
               a_kick_timers := (a_kick_timers a)(pid \<mapsto> now' + a_kick_grace a)\<rparr>))
             (broadcast_all T n))))))"

definition handle_reconnect :: "score_tables \<Rightarrow> nat \<Rightarrow> string \<Rightarrow> ('x, unit) cmd" where
  "handle_reconnect T n pid =
     before (ensure_loaded False)
       (clear_disconnect_mark pid (\<lambda>cleared. if cleared then broadcast_all T n else skip))"

definition handle_external_change :: "score_tables \<Rightarrow> nat \<Rightarrow> ('x, unit) cmd" where
  "handle_external_change T n = before (ensure_loaded True) (sync T n False)"

definition arm_kick_retry :: "string \<Rightarrow> ('x, unit) cmd" where
  "arm_kick_retry pid = clock (\<lambda>now. change (\<lambda>a.
     a\<lparr>a_kick_timers := (a_kick_timers a)(pid \<mapsto> now + a_afk_sweep_interval a)\<rparr>))"

definition kick_player :: "score_tables \<Rightarrow> nat \<Rightarrow> string \<Rightarrow> ('x, unit) cmd" where
  "kick_player T n pid =
     before (change (\<lambda>a. a\<lparr>a_kick_timers := (a_kick_timers a)(pid := None)\<rparr>))
    (ulid (\<lambda>nonce. look (\<lambda>a.
       and_then (attempt (handle_leave_then (broadcast_all T n) T (system_leave_cmd a pid ''disconnected'' nonce))) (\<lambda>r.
         case r of
           Inr (stack, hold_id) \<Rightarrow> emit (PlayerRemoved pid ''disconnected'' nonce stack hold_id)
         | Inl (EngineErr (PlayerNotFound _)) \<Rightarrow>
             change (\<lambda>a. a\<lparr>a_disconnected_since := (a_disconnected_since a)(pid := None)\<rparr>)
         | Inl e \<Rightarrow> before (arm_kick_retry pid) (fail e)))))"

definition handle_kick_timeout :: "score_tables \<Rightarrow> nat \<Rightarrow> string \<Rightarrow> ('x, unit) cmd" where
  "handle_kick_timeout T n pid = look (\<lambda>a.
     if a_disconnected_since a pid = None then skip
     else and_then (attempt (ensure_loaded False)) (\<lambda>r.
       case r of
         Inl _ \<Rightarrow> skip
       | Inr _ \<Rightarrow> look (\<lambda>a.
           case seated_player pid a of
             None \<Rightarrow> kick_player T n pid
           | Some p \<Rightarrow>
               if p_last_action_at p \<le> 0 then kick_player T n pid
               else clock (\<lambda>now.
                 if now - milliseconds (p_last_action_at p) < a_kick_grace a
                 then clear_disconnect_mark pid (\<lambda>_. broadcast_all T n)
                 else kick_player T n pid))))"

definition arm_afk_sweep_timer :: "('x, unit) cmd" where
  "arm_afk_sweep_timer = clock (\<lambda>now. change (\<lambda>a. a\<lparr>a_afk_sweep_timer := now + a_afk_sweep_interval a\<rparr>))"

definition afk_seats :: "int \<Rightarrow> 'x actor \<Rightarrow> table \<Rightarrow> string list" where
  "afk_seats now a t =
     map (\<lambda>r. p_id (pl t r))
       (filter (\<lambda>r. p_last_action_at (pl t r) \<noteq> 0 \<and> now - milliseconds (p_last_action_at (pl t r)) \<ge> a_kick_grace a)
         (t_players t))"

text \<open>\<open>defer\<close>: runs last, also when the body panics.\<close>

definition deferring :: "('x, unit) cmd \<Rightarrow> ('x, unit) cmd \<Rightarrow> ('x, unit) cmd" where
  "deferring k m a = io_bind (m a) (\<lambda>(r, a'). io_bind (k a') (\<lambda>(_, a''). Return (r, a'')))"

definition handle_afk_sweep :: "score_tables \<Rightarrow> nat \<Rightarrow> ('x, unit) cmd" where
  "handle_afk_sweep T n =
     deferring arm_afk_sweep_timer (and_then (attempt (ensure_loaded False)) (\<lambda>r.
       case r of
         Inl _ \<Rightarrow> skip
       | Inr _ \<Rightarrow>
           before rearm_timers_from_cache
             (clock (\<lambda>now. look (\<lambda>a. cached (\<lambda>t.
               each (remove_by_system (broadcast_all T n) T ''idle'') (afk_seats now a t)))))))"

section \<open>Snapshots\<close>

definition snapshot_reload_interval :: int where "snapshot_reload_interval = seconds 2"

definition handle_snapshot :: "score_tables \<Rightarrow> string \<Rightarrow> bool \<Rightarrow> ('x, unit) cmd" where
  "handle_snapshot T pid allow_cached =
     before (look (\<lambda>a.
       if allow_cached \<and> a_cached a \<noteq> None
       then clock (\<lambda>now. if (case a_last_loaded_at a of None \<Rightarrow> False | Some at \<Rightarrow> now - at < snapshot_reload_interval)
              then skip else ensure_loaded True)
       else ensure_loaded True))
    (cached (\<lambda>t. total (view_for T pid t) (\<lambda>(snap, t'). total (current_player_to_act t') (\<lambda>current.
       before (put_table t') (clock (\<lambda>now. clock (\<lambda>now'. look (\<lambda>a.
         emit (Answered (frame_of pid snap now
           (case player_by_id t' pid of None \<Rightarrow> 0 | Some r \<Rightarrow> p_last_action_at (pl t' r)) (a_kick_grace a)
           (live_reactions now' (a_activity a)) current (t_stage t') a))))))))))"

section \<open>Dispatch\<close>

datatype 'x command =
    ReadyCmd string string bool
  | ActCmd act_cmd
  | ChatCmd string string string
  | ReactionCmd string string string string
  | PreselectCmd preselect_cmd
  | ConnectCmd string string
  | DisconnectCmd string string
  | ReconnectCmd string
  | ExternalChangeCmd
  | SitOutCmd string
  | ShowCardsCmd string string "int option"
  | RequestRabbitHuntCmd string string "int option"
  | RequestExitCmd string string
  | CancelExitCmd string string
  | RequestWinnerCardsCmd string string
  | AcceptWinnerCardsCmd string string
  | DeclineWinnerCardsCmd string string
  | ExpireWinnerCardsCmd
  | RabbitHuntVerifyFailedCmd string string "int option"
  | SetRunItTwiceCmd string bool
  | KeepSeatCmd string string
  | PeekCardsCmd string string
  | JoinCmd "'x join_cmd"
  | LeaveCmd "'x leave_cmd"
  | PostBigBlindCmd string string
  | SnapshotCmd string bool
  | SetIdentityCmd string string string string
  | TurnTimeoutCmd string
  | NextHandCmd
  | RunoutStepCmd
  | KickTimeoutCmd string
  | AfkSweepCmd
  | EscalateCmd

fun handle :: "score_tables \<Rightarrow> nat \<Rightarrow> 'x command \<Rightarrow> ('x, unit) cmd" where
  "handle T n (ReadyCmd pid aid ready) = handle_ready T n pid aid ready"
| "handle T n (ActCmd c) = handle_act T n c"
| "handle T n (ChatCmd pid aid msg) = handle_chat T n pid aid msg"
| "handle T n (ReactionCmd pid aid rid target) = handle_reaction T n pid aid rid target"
| "handle T n (PreselectCmd c) = handle_preselect T n c"
| "handle T n (ConnectCmd pid conn) = handle_connect T n pid conn"
| "handle T n (DisconnectCmd pid conn) = handle_disconnect T n pid conn"
| "handle T n (ReconnectCmd pid) = handle_reconnect T n pid"
| "handle T n ExternalChangeCmd = handle_external_change T n"
| "handle T n (SitOutCmd pid) = handle_sit_out T n pid"
| "handle T n (ShowCardsCmd pid aid index) = handle_show_cards T n pid aid index"
| "handle T n (RequestRabbitHuntCmd pid aid slot) = handle_request_rabbit_hunt T n pid aid slot"
| "handle T n (RequestExitCmd pid aid) = handle_request_exit T n pid aid"
| "handle T n (CancelExitCmd pid aid) = handle_cancel_exit T n pid aid"
| "handle T n (RequestWinnerCardsCmd pid aid) = handle_request_winner_cards T n pid aid"
| "handle T n (AcceptWinnerCardsCmd pid aid) = handle_accept_winner_cards T n pid aid"
| "handle T n (DeclineWinnerCardsCmd pid aid) = handle_decline_winner_cards T n pid aid"
| "handle T n ExpireWinnerCardsCmd = handle_expire_winner_cards T n"
| "handle T n (RabbitHuntVerifyFailedCmd pid aid slot) = handle_rabbit_hunt_verify_failed T n pid aid slot"
| "handle T n (SetRunItTwiceCmd pid enabled) = handle_set_run_it_twice T n pid enabled"
| "handle T n (KeepSeatCmd pid aid) = handle_keep_seat T n pid aid"
| "handle T n (PeekCardsCmd pid aid) = handle_peek_cards T pid aid"
| "handle T n (JoinCmd c) = handle_join T n c"
| "handle T n (LeaveCmd c) = handle_leave T n c"
| "handle T n (PostBigBlindCmd pid aid) = handle_post_big_blind T n pid aid"
| "handle T n (SnapshotCmd pid allow_cached) = handle_snapshot T pid allow_cached"
| "handle T n (SetIdentityCmd pid name avatar badge) = handle_set_identity T n pid name avatar badge"
| "handle T n (TurnTimeoutCmd pid) = handle_turn_timeout T n pid"
| "handle T n NextHandCmd = handle_next_hand T n"
| "handle T n RunoutStepCmd = handle_runout_step T n"
| "handle T n (KickTimeoutCmd pid) = handle_kick_timeout T n pid"
| "handle T n AfkSweepCmd = handle_afk_sweep T n"
| "handle T n EscalateCmd = handle_escalate T n"

text \<open>After a panic the cache is dropped and the command is reported as reaching no verdict.\<close>

definition drop_cache :: "'x actor \<Rightarrow> 'x actor" where
  "drop_cache a = a\<lparr>a_cached := None, a_version := 0, a_hand_id := '''', a_activity := no_activity\<rparr>"

definition handle_safely :: "score_tables \<Rightarrow> nat \<Rightarrow> 'x command \<Rightarrow> 'x actor \<Rightarrow> ('x, actor_error option \<times> 'x actor) io" where
  "handle_safely T n c a = io_bind (handle T n c a) (\<lambda>(r, a').
     Return (case r of
         Ok _ \<Rightarrow> (None, a')
       | Err e \<Rightarrow> (Some e, a')
       | Panic \<Rightarrow> (Some (StoreErr Unavailable), drop_cache a')))"

end
