(* ===== verification/Table_Effects.thy ===== *)
theory Table_Effects
  imports Actor_Handlers
begin

text \<open>
  What a commit may do to a table: one engine operation, named by the row of the action log the commit
  writes, between bookkeeping steps (activity stamps, time banks, the run-it-twice switch of the room,
  showing cards already shown, and a round trip through the encoding). This is the sequential table the fleet is compared with.
\<close>

section \<open>Bookkeeping\<close>

inductive quiet_step :: "table \<Rightarrow> table \<Rightarrow> bool" where
  stamped: "quiet_step t (stamp_last_action pid ms t)"
| configured: "quiet_step t (configure_run_it_twice b t)"
| bank_read: "quiet_step t (fst (time_bank pid t))"
| banks_read: "quiet_step t (init_time_banks t)"
| bank_charged: "quiet_step t (fst (consume_time_bank pid ms t))"
| reshown: "reveal_hole_card pid index t = Inr (False, t') \<Longrightarrow> quiet_step t t'"
| reloaded: "quiet_step t (reload t)"

abbreviation quiet :: "table \<Rightarrow> table \<Rightarrow> bool" where
  "quiet \<equiv> quiet_step\<^sup>*\<^sup>*"

inductive_cases quiet_stepE: "quiet_step t t'"

lemmas quiet_once = r_into_rtranclp [of quiet_step]

lemma view_quiet: "view_for T viewer t = Some (snap, t') \<Longrightarrow> t' = init_time_banks t"
  by (auto simp: view_for_def Let_def split: prod.splits bind_splits)

lemma view_quiet_step: "view_for T viewer t = Some (snap, t') \<Longrightarrow> quiet t t'"
  using view_quiet quiet_once quiet_step.banks_read by metis

text \<open>Bookkeeping leaves the seats alone.\<close>

lemma seat_ids_bank: "seat_ids (fst (time_bank pid t)) = seat_ids t"
  by (auto simp: time_bank_def initialize_time_bank_def Let_def split: option.splits intro!: same_seats_ids same_seats_upd)

lemma seat_ids_banks: "seat_ids (fold (\<lambda>r u. fst (time_bank (f r) u)) rs t) = seat_ids t"
  by (induction rs arbitrary: t) (simp_all add: seat_ids_bank)

lemma seat_ids_reload: "seat_ids (reload t) = seat_ids t"
  by (rule nth_equalityI) (simp_all add: seat_ids_def reload_players stored_seat_def)

lemma seat_ids_reveal: "reveal_hole_card pid index t = Inr (shown, t') \<Longrightarrow> seat_ids t' = seat_ids t"
proof -
  have shown: "seat_ids (show_outcome pid f (upd r (set_shown cards) t)) = seat_ids t" for f r cards
    by (auto simp: show_outcome_def set_shown_def Let_def seat_ids_def upd_field split: option.split)
  show "reveal_hole_card pid index t = Inr (shown, t') \<Longrightarrow> seat_ids t' = seat_ids t"
    by (auto simp: reveal_hole_card_def Let_def shown split: if_splits option.splits)
qed

lemma quiet_step_seats: "quiet_step t t' \<Longrightarrow> seat_ids t' = seat_ids t"
proof (induction rule: quiet_step.induct)
  case (stamped t pid ms)
  show ?case by (auto simp: stamp_last_action_def split: option.split intro!: same_seats_ids same_seats_upd)
next
  case (configured t b)
  show ?case by (simp add: configure_run_it_twice_def seat_ids_def)
next
  case (bank_read t pid)
  show ?case by (rule seat_ids_bank)
next
  case (banks_read t)
  show ?case by (simp add: init_time_banks_def seat_ids_banks)
next
  case (bank_charged t pid ms)
  show ?case
    by (auto simp: consume_time_bank_def initialize_time_bank_def Let_def seat_ids_def upd_field split: option.split)
next
  case (reshown pid index t t')
  then show ?case by (rule seat_ids_reveal)
next
  case (reloaded t)
  show ?case by (rule seat_ids_reload)
qed

lemma quiet_seats: "quiet t t' \<Longrightarrow> seat_ids t' = seat_ids t"
  by (induction rule: rtranclp_induct) (simp_all add: quiet_step_seats)

lemma no_duplicate_seat: "\<not> snd (duplicate_seat t) \<longleftrightarrow> distinct (seat_ids t)"
proof -
  have "\<not> snd (duplicate_seat_id seen ids) \<longleftrightarrow> distinct ids \<and> set ids \<inter> seen = {}" for seen ids
    by (induction seen ids rule: duplicate_seat_id.induct) auto
  then show ?thesis by (simp add: duplicate_seat_def seat_ids_def)
qed

section \<open>One command\<close>

text \<open>\<open>StartHand\<close>, whether it deals or refuses.\<close>

inductive deals :: "table \<Rightarrow> table \<Rightarrow> bool" where
  refused: "start_hand seed draws t = Some (Inl (e, t')) \<Longrightarrow> deals t t'"
| dealt: "start_hand seed draws t = Some (Inr t') \<Longrightarrow> deals t t'"

inductive tries_to_deal :: "table \<Rightarrow> table \<Rightarrow> bool" where
  between_hands: "t_stage t = WaitingForPlayers \<Longrightarrow> deals t t' \<Longrightarrow> tries_to_deal t t'"
| mid_hand: "t_stage t \<noteq> WaitingForPlayers \<Longrightarrow> tries_to_deal t t"

text \<open>Rows that leave the table as it is.\<close>

definition note_rows :: "string set" where
  "note_rows = {''keep_seat'', ''peek_cards'', ''chat'', ''reaction'', ''preselect_action'', ''clear_preselection'',
     ''won'', ''tie'', ''lost''}"

inductive table_op :: "score_tables \<Rightarrow> action_log_entry \<Rightarrow> table \<Rightarrow> table \<Rightarrow> bool" for T e where
  noted: "le_action e \<in> note_rows \<Longrightarrow> table_op T e t t"
| acted: "le_action e = action_name x \<or> le_action e = ''all_in'' \<Longrightarrow>
    le_betting_action e = action_name (normalized_action t (le_player_id e) x) \<Longrightarrow>
    act_idempotent T (le_action_id e) (le_player_id e) x (le_amount e) t = Some (Inr (True, t')) \<Longrightarrow> table_op T e t t'"
| sat_out: "le_action e = ''sit_out'' \<or> le_action e = ''disconnect_sit_out'' \<Longrightarrow>
    sit_out T (le_player_id e) t = Some t' \<Longrightarrow> table_op T e t t'"
| got_ready: "le_action e = ''ready'' \<Longrightarrow>
    tries_to_deal (request_return (le_player_id e) (set_ready (le_player_id e) True t)) t' \<Longrightarrow> table_op T e t t'"
| not_ready: "le_action e = ''not_ready'' \<Longrightarrow>
    sit_out T (le_player_id e) (set_ready (le_player_id e) False t) = Some t' \<Longrightarrow> table_op T e t t'"
| showed: "le_action e = ''show_cards'' \<Longrightarrow>
    reveal_hole_card (le_player_id e) index t = Inr (True, t') \<Longrightarrow> table_op T e t t'"
| hunted: "le_action e = ''request_rabbit_hunt'' \<Longrightarrow>
    request_rabbit_hunt (le_player_id e) slot t = Inr (fee, t') \<Longrightarrow> table_op T e t t'"
| hunt_refunded: "le_action e = ''rabbit_hunt_verify_failed'' \<Longrightarrow>
    refund_rabbit_hunt (le_player_id e) slot t = Inr t' \<Longrightarrow> table_op T e t t'"
| exit_requested: "le_action e = ''request_exit'' \<Longrightarrow>
    request_exit T (le_player_id e) t = Some (Inr t') \<Longrightarrow> table_op T e t t'"
| exit_cancelled: "le_action e = ''cancel_exit'' \<Longrightarrow>
    cancel_exit (le_player_id e) t = Inr u \<Longrightarrow> tries_to_deal u t' \<Longrightarrow> table_op T e t t'"
| cards_requested: "le_action e = ''request_winner_cards'' \<Longrightarrow>
    request_winner_cards (le_player_id e) now t = (Inr fee, t') \<Longrightarrow> table_op T e t t'"
| cards_accepted: "le_action e = ''accept_winner_cards'' \<Longrightarrow>
    accept_winner_cards (le_player_id e) now t = (None, t') \<Longrightarrow> table_op T e t t'"
| cards_declined: "le_action e = ''decline_winner_cards'' \<Longrightarrow>
    decline_winner_cards (le_player_id e) t = (None, t') \<Longrightarrow> table_op T e t t'"
| cards_expired: "le_action e = ''expire_winner_cards'' \<Longrightarrow>
    expire_winner_cards now t = (True, t') \<Longrightarrow> table_op T e t t'"
| ran_twice: "le_action e = ''set_run_it_twice'' \<Longrightarrow>
    set_player_run_it_twice (le_player_id e) enabled t = (t', True) \<Longrightarrow> table_op T e t t'"
| posts_blind: "le_action e = ''post_big_blind'' \<Longrightarrow> table_op T e t (mark_ready_to_post (le_player_id e) t)"
| identified: "le_action e = ''set_identity'' \<Longrightarrow>
    set_player_identity (le_player_id e) name avatar badge t = (t', True) \<Longrightarrow> table_op T e t t'"
| escalated: "le_action e = ''escalate_blinds'' \<Longrightarrow> table_op T e t (escalate_blinds pct max_big t)"
| joined: "le_action e = ''join'' \<Longrightarrow> p_id p = le_player_id e \<Longrightarrow> seat_joiner p t = Inr u \<Longrightarrow>
    (if t_stage t = WaitingForPlayers then tries_to_deal u t' else t' = u) \<Longrightarrow> table_op T e t t'"
| left: "le_action e = ''leave'' \<Longrightarrow>
    remove_player (le_player_id e) t = Inr (paid, t') \<Longrightarrow> table_op T e t t'"
| next_dealt: "le_action e = ''next_hand'' \<Longrightarrow> deals t t' \<Longrightarrow> table_op T e t t'"
| ran_out: "le_action e = ''runout_step'' \<Longrightarrow> advance_runout_street T t = Some t' \<Longrightarrow> table_op T e t t'"

text \<open>What one commit makes of a stored table.\<close>

definition committed_step :: "score_tables \<Rightarrow> action_log_entry \<Rightarrow> table \<Rightarrow> table \<Rightarrow> bool" where
  "committed_step T e t t' \<longleftrightarrow> (\<exists>u u'. quiet t u \<and> table_op T e u u' \<and> quiet u' t')"

end
