(* ===== verification/Actor_Logic.thy ===== *)
theory Actor_Logic
  imports Table_Effects
begin

text \<open>
  A program logic for the commands of the actor. A history records, per table and version, the state the
  store has held; it only grows. \<open>wp\<close> is the weakest precondition of a program against every answer
  the outside may give and every growth of the history meanwhile, and it asks of each write that it is a
  legitimate commit. \<open>loaded\<close> says that what an actor has in its cache comes, by bookkeeping alone, from
  the state stored under the version it holds; the lemmas show that every command keeps that, and that
  nothing else is ever written.
\<close>

section \<open>Histories and writes\<close>

type_synonym history = "string \<Rightarrow> nat \<Rightarrow> saved_state option"

definition grows :: "history \<Rightarrow> history \<Rightarrow> bool" where
  "grows H H' \<longleftrightarrow> (\<forall>tid v s. H tid v = Some s \<longrightarrow> H' tid v = Some s)"

lemma grows_refl [simp]: "grows H H" by (simp add: grows_def)

lemma grows_trans: "grows H H' \<Longrightarrow> grows H' H'' \<Longrightarrow> grows H H''" by (simp add: grows_def)

lemma growsD: "grows H H' \<Longrightarrow> H tid v = Some s \<Longrightarrow> H' tid v = Some s" by (simp add: grows_def)

text \<open>A commit of one operation to the state of the version it names.\<close>

definition legitimate :: "score_tables \<Rightarrow> history \<Rightarrow> 'x tx_item list \<Rightarrow> bool" where
  "legitimate T H items \<longleftrightarrow> (\<exists>tid hand_id action_id v cv e extra t0 t.
     items = commit_items tid hand_id action_id v cv e extra \<and> cv_version cv = v + 1 \<and> cv_hand_id cv = hand_id \<and>
     le_version e = v + 1 \<and> le_table_id e = tid \<and> le_hand_id e = hand_id \<and> le_action_id e = action_id \<and>
     H tid v = Some (export_state t0) \<and> committed_step T e t0 t \<and> distinct (seat_ids t) \<and> cv_state cv = export_state t)"

text \<open>What the writer of an accepted transaction knows afterwards.\<close>

definition written :: "'x tx_item list \<Rightarrow> history \<Rightarrow> bool" where
  "written items H \<longleftrightarrow> (\<forall>tid hand_id action_id v cv e extra.
     items = commit_items tid hand_id action_id v cv e extra \<longrightarrow> H tid (cv_version cv) = Some (cv_state cv))"

primrec wp :: "score_tables \<Rightarrow> ('x, 'a) io \<Rightarrow> (history \<Rightarrow> 'a \<Rightarrow> bool) \<Rightarrow> history \<Rightarrow> bool" where
  "wp T (Return v) Q = (\<lambda>H. Q H v)"
| "wp T (Transact items k) Q = (\<lambda>H. \<forall>H'. grows H H' \<longrightarrow> legitimate T H' items \<and>
     (\<forall>r H''. grows H' H'' \<longrightarrow> (r = TxOk \<longrightarrow> written items H'') \<longrightarrow> wp T (k r) Q H''))"
| "wp T (BatchGet pk k) Q = (\<lambda>H. \<forall>H'. grows H H' \<longrightarrow>
     (\<forall>r. (\<forall>s. r = GetItem s \<longrightarrow> H' pk (st_version s) = Some (st_state s) \<and> st_state s \<in> range export_state) \<longrightarrow>
        wp T (k r) Q H'))"
| "wp T (GetGuard key k) Q = (\<lambda>H. \<forall>H' r. grows H H' \<longrightarrow> wp T (k r) Q H')"
| "wp T (PutHistory pk sk s k) Q = (\<lambda>H. \<forall>H' r. grows H H' \<longrightarrow> wp T (k r) Q H')"
| "wp T (Clock k) Q = (\<lambda>H. \<forall>H' r. grows H H' \<longrightarrow> wp T (k r) Q H')"
| "wp T (NewULID k) Q = (\<lambda>H. \<forall>H' r. grows H H' \<longrightarrow> wp T (k r) Q H')"
| "wp T (Entropy k) Q = (\<lambda>H. \<forall>H' r. grows H H' \<longrightarrow> wp T (k r) Q H')"
| "wp T (Hook c k) Q = (\<lambda>H. \<forall>H' r. grows H H' \<longrightarrow> wp T (k r) Q H')"

lemma wp_mono:
  assumes "wp T m Q H" and "\<And>H v. Q H v \<Longrightarrow> R H v"
  shows "wp T m R H"
  using assms(1) by (induction m arbitrary: H) (simp_all, (use assms(2) in blast)+)

lemma wp_bind: "wp T (io_bind m f) Q H = wp T m (\<lambda>H v. wp T (f v) Q H) H"
  by (induction m arbitrary: H) simp_all

text \<open>A precondition that holds keeps holding while others write.\<close>

definition stable :: "(history \<Rightarrow> 'a \<Rightarrow> bool) \<Rightarrow> bool" where
  "stable Q \<longleftrightarrow> (\<forall>H H' v. grows H H' \<longrightarrow> Q H v \<longrightarrow> Q H' v)"

lemma wp_grows:
  assumes "stable Q" and "wp T m Q H" and "grows H H'"
  shows "wp T m Q H'"
  using assms(2,3) 
proof (induction m arbitrary: H H')
  case (Return v)
  then show ?case using assms(1) by (simp add: stable_def)
qed (simp_all, (meson grows_trans)+)

section \<open>Triples\<close>

definition holds_for :: "score_tables \<Rightarrow> (history \<Rightarrow> 'x actor \<Rightarrow> bool) \<Rightarrow> ('x, 'a) cmd \<Rightarrow>
    ('a result \<Rightarrow> history \<Rightarrow> 'x actor \<Rightarrow> bool) \<Rightarrow> bool" where
  "holds_for T P m Q \<longleftrightarrow> (\<forall>H a. P H a \<longrightarrow> wp T (m a) (\<lambda>H (r, a'). Q r H a') H)"

text \<open>
  \<open>triple T P m Q\<close>: started in \<open>P\<close> by the actor of some table with some version \<open>v\<close>, \<open>m\<close> stays with that
  table and ends in \<open>Q v\<close>.
\<close>

definition triple :: "score_tables \<Rightarrow> (history \<Rightarrow> 'x actor \<Rightarrow> bool) \<Rightarrow> ('x, 'a) cmd \<Rightarrow>
    (nat \<Rightarrow> 'a result \<Rightarrow> history \<Rightarrow> 'x actor \<Rightarrow> bool) \<Rightarrow> bool" where
  "triple T P m Q \<longleftrightarrow> (\<forall>i v. holds_for T (\<lambda>H a. a_id a = i \<and> a_version a = v \<and> P H a) m
     (\<lambda>r H a. a_id a = i \<and> Q v r H a))"

lemma tripleI:
  assumes "\<And>H a. P H a \<Longrightarrow> wp T (m a) (\<lambda>H (r, a'). a_id a' = a_id a \<and> Q (a_version a) r H a') H"
  shows "triple T P m Q"
  using assms by (auto simp: triple_def holds_for_def)

lemma tripleD: "triple T P m Q \<Longrightarrow> P H a \<Longrightarrow>
  wp T (m a) (\<lambda>H (r, a'). a_id a' = a_id a \<and> Q (a_version a) r H a') H"
  by (simp add: triple_def holds_for_def)

lemma triple_pre: "triple T P m Q \<Longrightarrow> (\<And>H a. P' H a \<Longrightarrow> P H a) \<Longrightarrow> triple T P' m Q"
  by (auto intro!: tripleI dest: tripleD)

lemma triple_post:
  assumes "triple T P m Q" and "\<And>v r H a. Q v r H a \<Longrightarrow> Q' v r H a"
  shows "triple T P m Q'"
proof (rule tripleI)
  fix H a assume "P H a"
  then show "wp T (m a) (\<lambda>H (r, a'). a_id a' = a_id a \<and> Q' (a_version a) r H a') H"
    by (rule wp_mono [OF tripleD [OF assms(1)]]) (use assms(2) in auto)
qed

section \<open>What a cache may hold\<close>

text \<open>
  \<open>dirty R\<close>: the cached table comes from the stored one by a step \<open>R\<close> between bookkeeping steps;
  \<open>dirty_in K R\<close> also bounds the table, the hand and the version.
\<close>

definition comes_from :: "(table \<Rightarrow> table \<Rightarrow> bool) \<Rightarrow> saved_state option \<Rightarrow> table option \<Rightarrow> bool" where
  "comes_from R s c \<longleftrightarrow> (\<exists>t t0 u u'. c = Some t \<and> s = Some (export_state t0) \<and> quiet t0 u \<and> R u u' \<and> quiet u' t)"

definition dirty_in :: "(string \<times> string \<times> nat) set \<Rightarrow> (table \<Rightarrow> table \<Rightarrow> bool) \<Rightarrow> history \<Rightarrow> 'x actor \<Rightarrow> bool" where
  "dirty_in K R H a \<longleftrightarrow>
     comes_from R (H (a_id a) (a_version a)) (a_cached a) \<and> (a_id a, a_hand_id a, a_version a) \<in> K"

abbreviation dirty :: "(table \<Rightarrow> table \<Rightarrow> bool) \<Rightarrow> history \<Rightarrow> 'x actor \<Rightarrow> bool" where
  "dirty \<equiv> dirty_in UNIV"

lemma comes_fromI: "quiet t0 u \<Longrightarrow> R u u' \<Longrightarrow> quiet u' t \<Longrightarrow> comes_from R (Some (export_state t0)) (Some t)"
  by (auto simp: comes_from_def)

lemma comes_fromE:
  assumes "comes_from R s c"
  obtains t t0 u u' where "c = Some t" "s = Some (export_state t0)" "quiet t0 u" "R u u'" "quiet u' t"
  using assms by (auto simp: comes_from_def)

lemma comes_from_put:
  assumes "comes_from (=) s (Some t)" and "S t t'"
  shows "comes_from S s (Some t')"
  using assms(1)
proof (rule comes_fromE)
  fix t1 t0 u u' assume "Some t = Some t1" "s = Some (export_state t0)" "quiet t0 u" "u = u'" "quiet u' t1"
  then show ?thesis using comes_fromI [of t0 t S t' t'] assms(2) by (simp add: rtranclp_trans)
qed

lemma comes_from_quiet:
  assumes "comes_from R s (Some t)" and "quiet t t'"
  shows "comes_from R s (Some t')"
  using assms(1)
proof (rule comes_fromE)
  fix t1 t0 u u' assume "Some t = Some t1" "s = Some (export_state t0)" "quiet t0 u" "R u u'" "quiet u' t1"
  then show ?thesis using comes_fromI [of t0 u R u' t'] assms(2) by (simp add: rtranclp_trans)
qed

lemma comes_from_cached: "comes_from R s c \<Longrightarrow> c \<noteq> None"
  by (auto simp: comes_from_def)

lemma comes_from_stored: "comes_from R s c \<Longrightarrow> \<exists>t0. s = Some (export_state t0)"
  by (auto simp: comes_from_def)

lemma comes_from_grows: "comes_from R (H i v) c \<Longrightarrow> grows H H' \<Longrightarrow> comes_from R (H' i v) c"
  by (metis comes_from_stored growsD)

abbreviation loaded :: "history \<Rightarrow> 'x actor \<Rightarrow> bool" where
  "loaded \<equiv> dirty (=)"

definition coherent :: "history \<Rightarrow> 'x actor \<Rightarrow> bool" where
  "coherent H a \<longleftrightarrow> a_cached a = None \<or> loaded H a"

definition holding_in :: "(string \<times> string \<times> nat) set \<Rightarrow> (table \<Rightarrow> table \<Rightarrow> bool) \<Rightarrow> table \<Rightarrow> history \<Rightarrow> 'x actor \<Rightarrow> bool" where
  "holding_in K R t H a \<longleftrightarrow> dirty_in K R H a \<and> a_cached a = Some t"

abbreviation holding :: "(table \<Rightarrow> table \<Rightarrow> bool) \<Rightarrow> table \<Rightarrow> history \<Rightarrow> 'x actor \<Rightarrow> bool" where
  "holding \<equiv> holding_in UNIV"

lemma stable_dirty [simp]: "stable (dirty_in K R)"
  unfolding stable_def dirty_in_def by (metis comes_from_stored growsD)

lemma stable_holding [simp]: "stable (holding_in K R t)"
  using stable_dirty [of K R] by (auto simp: stable_def holding_in_def)

lemma stable_coherent [simp]: "stable coherent"
  using stable_dirty [of UNIV "(=)"] by (auto simp: stable_def coherent_def)

lemma stableD: "stable P \<Longrightarrow> grows H H' \<Longrightarrow> P H v \<Longrightarrow> P H' v"
  by (simp add: stable_def)

text \<open>Fields that do not matter.\<close>

definition same_cache :: "('x actor \<Rightarrow> 'x actor) \<Rightarrow> bool" where
  "same_cache f \<longleftrightarrow> (\<forall>a. a_id (f a) = a_id a \<and> a_version (f a) = a_version a \<and> a_cached (f a) = a_cached a \<and>
     a_hand_id (f a) = a_hand_id a)"

definition about_cache :: "(history \<Rightarrow> 'x actor \<Rightarrow> bool) \<Rightarrow> bool" where
  "about_cache P \<longleftrightarrow> (\<forall>H a a'. a_id a' = a_id a \<longrightarrow> a_version a' = a_version a \<longrightarrow> a_cached a' = a_cached a \<longrightarrow>
     a_hand_id a' = a_hand_id a \<longrightarrow> P H a \<longrightarrow> P H a')"

lemma about_cache_preds [simp]:
  "about_cache (dirty_in K R)" "about_cache (holding_in K R t)" "about_cache coherent"
  by (auto simp: about_cache_def dirty_in_def holding_in_def coherent_def)

section \<open>Rules\<close>

named_theorems triple_intros

lemma triple_look [triple_intros]: "(\<And>a. triple T P (f a) Q) \<Longrightarrow> triple T P (look f) Q"
  by (auto simp: triple_def holds_for_def look_def)

lemma triple_clock [triple_intros]:
  assumes "stable P" and "\<And>now. triple T P (f now) Q"
  shows "triple T P (clock f) Q"
  using assms(1) by (auto intro!: tripleI tripleD [OF assms(2)] simp: clock_def dest: stableD)

lemma triple_ulid [triple_intros]:
  assumes "stable P" and "\<And>s. triple T P (f s) Q"
  shows "triple T P (ulid f) Q"
  using assms(1) by (auto intro!: tripleI tripleD [OF assms(2)] simp: ulid_def dest: stableD)

lemma triple_entropy [triple_intros]:
  assumes "stable P" and "\<And>r. triple T P (f r) Q"
  shows "triple T P (entropy f) Q"
  using assms(1) by (auto intro!: tripleI tripleD [OF assms(2)] simp: entropy_def dest: stableD)

lemma triple_panic [triple_intros]:
  assumes "\<And>v H a. Q v Panic H a"
  shows "triple T P panic Q"
  using assms by (auto intro!: tripleI simp: panic_def)

lemma triple_total [triple_intros]:
  assumes "\<And>v H a. Q v Panic H a" and "\<And>w. x = Some w \<Longrightarrow> triple T P (f w) Q"
  shows "triple T P (total x f) Q"
  using assms triple_panic [of Q T P] by (simp add: total_def split: option.split)

lemma triple_if [triple_intros]:
  "(b \<Longrightarrow> triple T P m Q) \<Longrightarrow> (\<not> b \<Longrightarrow> triple T P m' Q) \<Longrightarrow> triple T P (if b then m else m') Q"
  by simp

lemma triple_option [triple_intros]:
  "(x = None \<Longrightarrow> triple T P m Q) \<Longrightarrow> (\<And>w. x = Some w \<Longrightarrow> triple T P (f w) Q) \<Longrightarrow>
    triple T P (case x of None \<Rightarrow> m | Some w \<Rightarrow> f w) Q"
  by (auto split: option.split)

lemma triple_sum [triple_intros]:
  "(\<And>e. x = Inl e \<Longrightarrow> triple T P (f e) Q) \<Longrightarrow> (\<And>w. x = Inr w \<Longrightarrow> triple T P (g w) Q) \<Longrightarrow>
    triple T P (case x of Inl e \<Rightarrow> f e | Inr w \<Rightarrow> g w) Q"
  by (auto split: sum.split)

lemma triple_prod [triple_intros]:
  "(\<And>v w. x = (v, w) \<Longrightarrow> triple T P (f v w) Q) \<Longrightarrow> triple T P (case x of (v, w) \<Rightarrow> f v w) Q"
  by (auto split: prod.split)

lemma triple_bool [triple_intros]:
  "(b \<Longrightarrow> triple T P m Q) \<Longrightarrow> (\<not> b \<Longrightarrow> triple T P m' Q) \<Longrightarrow> triple T P (case b of True \<Rightarrow> m | False \<Rightarrow> m') Q"
  by (auto split: bool.split)

lemma triple_let [triple_intros]: "(\<And>w. w = x \<Longrightarrow> triple T P (f w) Q) \<Longrightarrow> triple T P (Let x f) Q"
  by (simp add: Let_def)

lemma triple_cached [triple_intros]:
  assumes "\<And>t. triple T (holding_in K R t) (f t) Q"
  shows "triple T (dirty_in K R) (cached f) Q"
proof (rule tripleI)
  fix H and a :: "'a actor" assume d: "dirty_in K R H a"
  then obtain t where "a_cached a = Some t" using comes_from_cached by (fastforce simp: dirty_in_def)
  then show "wp T (cached f a) (\<lambda>H (r, a'). a_id a' = a_id a \<and> Q (a_version a) r H a') H"
    using tripleD [OF assms, of t H a] d by (simp add: cached_def holding_in_def)
qed

lemma triple_cached_holding [triple_intros]:
  "triple T (holding_in K R t) (f t) Q \<Longrightarrow> triple T (holding_in K R t) (cached f) Q"
  by (auto intro!: tripleI simp: cached_def holding_in_def dest: tripleD)

lemma triple_holding: "triple T (dirty_in K R) m Q \<Longrightarrow> triple T (holding_in K R t) m Q"
  by (erule triple_pre) (simp add: holding_in_def)

lemma wp_before_change: "wp T (before (change f) k a) Q H = wp T (k (f a)) Q H"
  by (simp add: before_def and_then_def change_def)

lemma triple_change [triple_intros]:
  assumes "same_cache f" and "about_cache P" and "triple T P k Q"
  shows "triple T P (before (change f) k) Q"
proof (rule tripleI)
  fix H a assume "P H a"
  then have "P H (f a)" "a_id (f a) = a_id a" "a_version (f a) = a_version a"
    using assms(1,2) by (auto simp: same_cache_def about_cache_def)
  then show "wp T (before (change f) k a) (\<lambda>H (r, a'). a_id a' = a_id a \<and> Q (a_version a) r H a') H"
    using tripleD [OF assms(3), of H "f a"] by (simp add: wp_before_change)
qed

lemma triple_put:
  assumes "S t t'" and "triple T (holding_in K S t') k Q"
  shows "triple T (holding_in K (=) t) (before (put_table t') k) Q"
proof (rule tripleI)
  fix H and a :: "'a actor" assume "holding_in K (=) t H a"
  then have "holding_in K S t' H (a\<lparr>a_cached := Some t'\<rparr>)" using assms(1) comes_from_put by (fastforce simp: holding_in_def dirty_in_def)
  then show "wp T (before (put_table t') k a) (\<lambda>H (r, a'). a_id a' = a_id a \<and> Q (a_version a) r H a') H"
    using tripleD [OF assms(2)] by (fastforce simp: put_table_def wp_before_change)
qed

lemma triple_put_quiet:
  assumes "quiet t t'" and "triple T (holding_in K R t') k Q"
  shows "triple T (holding_in K R t) (before (put_table t') k) Q"
proof (rule tripleI)
  fix H and a :: "'a actor" assume "holding_in K R t H a"
  then have "holding_in K R t' H (a\<lparr>a_cached := Some t'\<rparr>)"
    using assms(1) comes_from_quiet by (fastforce simp: holding_in_def dirty_in_def)
  then show "wp T (before (put_table t') k a) (\<lambda>H (r, a'). a_id a' = a_id a \<and> Q (a_version a) r H a') H"
    using tripleD [OF assms(2)] by (fastforce simp: put_table_def wp_before_change)
qed

lemma wp_history_from:
  assumes "wp T m Q H" and "grows H0 H"
  shows "wp T m (\<lambda>H' v. grows H0 H' \<and> Q H' v) H"
  using assms
proof (induction m arbitrary: H)
  case (Return v)
  then show ?case by simp
next
  case (Transact items k)
  have "wp T (k r) (\<lambda>H' v. grows H0 H' \<and> Q H' v) H''"
    if "grows H H'" "grows H' H''" "r = TxOk \<longrightarrow> written items H''" for H' H'' r
    using Transact.IH [OF rangeI, of r H''] Transact.prems that grows_trans [of H0 H H''] grows_trans [of H H' H''] by simp
  then show ?case using Transact.prems by simp
next
  case (BatchGet pk k)
  then show ?case using BatchGet.IH [OF rangeI] grows_trans [of H0 H] by simp
next
  case (GetGuard key k)
  then show ?case using GetGuard.IH [OF rangeI] grows_trans [of H0 H] by simp
next
  case (PutHistory pk sk s k)
  then show ?case using PutHistory.IH [OF rangeI] grows_trans [of H0 H] by simp
next
  case (Clock k)
  then show ?case using Clock.IH [OF rangeI] grows_trans [of H0 H] by simp
next
  case (NewULID k)
  then show ?case using NewULID.IH [OF rangeI] grows_trans [of H0 H] by simp
next
  case (Hook c k)
  then show ?case using Hook.IH [OF rangeI] grows_trans [of H0 H] by simp
next
  case (Entropy k)
  have "wp T (k r) (\<lambda>H' v. grows H0 H' \<and> Q H' v) H'" if "grows H H'" for r H'
    using Entropy.IH [of "k r" H'] Entropy.prems that grows_trans [of H0 H H'] by (cases r) simp
  then show ?case by simp
qed

lemmas wp_history = wp_history_from [OF _ grows_refl]

section \<open>Outcomes\<close>

text \<open>
  \<open>keeps\<close>: the cache is as good as before. \<open>ends\<close>: the body of a \<open>mutate\<close>, which commits or leaves the
  version alone. \<open>checks R\<close>: a step that leaves the uncommitted change \<open>R\<close> as it is.
\<close>

definition keeps :: "nat \<Rightarrow> 'a result \<Rightarrow> history \<Rightarrow> 'x actor \<Rightarrow> bool" where
  "keeps v r H a \<longleftrightarrow> r = Panic \<or> loaded H a"

definition ends :: "nat \<Rightarrow> 'a result \<Rightarrow> history \<Rightarrow> 'x actor \<Rightarrow> bool" where
  "ends v r H a \<longleftrightarrow> (case r of Ok _ \<Rightarrow> loaded H a | Err _ \<Rightarrow> a_version a = v | Panic \<Rightarrow> True)"

definition checks :: "(table \<Rightarrow> table \<Rightarrow> bool) \<Rightarrow> nat \<Rightarrow> 'a result \<Rightarrow> history \<Rightarrow> 'x actor \<Rightarrow> bool" where
  "checks R v r H a \<longleftrightarrow> r = Panic \<or> a_version a = v \<and> dirty R H a"

lemma outcome_panic [simp]: "keeps v Panic H a" "ends v Panic H a" "checks R v Panic H a"
  by (simp_all add: keeps_def ends_def checks_def)

lemma triple_ok [triple_intros]:
  "triple T loaded (ok w) keeps" "triple T loaded (ok w) ends" "triple T (dirty R) (ok w) (checks R)"
  by (auto intro!: tripleI simp: ok_def keeps_def ends_def checks_def)

lemma triple_skip [triple_intros]:
  "triple T loaded skip keeps" "triple T loaded skip ends" "triple T (dirty R) skip (checks R)"
  unfolding skip_def by (rule triple_ok)+

lemma triple_fail [triple_intros]:
  "triple T loaded (fail e) keeps" "triple T P (fail e) ends" "triple T (dirty R) (fail e) (checks R)"
  by (auto intro!: tripleI simp: fail_def keeps_def ends_def checks_def)

text \<open>Sequencing, and the recovery from an error.\<close>

lemma and_then_attempt: "and_then (attempt m) f = (\<lambda>a. io_bind (m a) (\<lambda>(r, a'). case r of Ok w \<Rightarrow> f (Inr w) a'
    | Err e \<Rightarrow> f (Inl e) a' | Panic \<Rightarrow> Return (Panic, a')))"
  by (simp add: fun_eq_iff and_then_def attempt_def io_bind_assoc case_prod_beta)
    (intro allI arg_cong [where f = "io_bind _"], auto simp: fun_eq_iff split: result.split)

lemma triple_at:
  "triple T P m (\<lambda>_. Q) \<Longrightarrow> P H a \<Longrightarrow> a_id a = i \<Longrightarrow> wp T (m a) (\<lambda>H (r, a'). a_id a' = i \<and> Q r H a') H"
  by (auto dest: tripleD)

lemma triple_bind:
  assumes "triple T P m Q" and "\<And>v w. triple T (Q v (Ok w)) (f w) (\<lambda>_. R v)"
    and "\<And>v e H a. Q v (Err e) H a \<Longrightarrow> R v (Err e) H a" and "\<And>v H a. R v Panic H a"
  shows "triple T P (and_then m f) R"
  by (rule tripleI, unfold and_then_def wp_bind, rule wp_mono [OF tripleD [OF assms(1)]], assumption)
    (use assms(3,4) triple_at [OF assms(2)] in \<open>auto split: result.splits\<close>)

lemma triple_bind_attempt:
  assumes "triple T P m Q" and "\<And>v w. triple T (Q v (Ok w)) (f (Inr w)) (\<lambda>_. R v)"
    and "\<And>v e. triple T (Q v (Err e)) (f (Inl e)) (\<lambda>_. R v)" and "\<And>v H a. R v Panic H a"
  shows "triple T P (and_then (attempt m) f) R"
  by (rule tripleI, unfold and_then_attempt wp_bind, rule wp_mono [OF tripleD [OF assms(1)]], assumption)
    (use assms(4) triple_at [OF assms(2)] triple_at [OF assms(3)] in \<open>auto split: result.splits\<close>)

lemma triple_then:
  assumes m: "triple T P m (checks R)" and f: "\<And>w. triple T (dirty R) (f w) Q"
    and "\<And>v e H a. a_version a = v \<Longrightarrow> dirty R H a \<Longrightarrow> Q v (Err e) H a" and "\<And>v H a. Q v Panic H a"
  shows "triple T P (and_then m f) Q"
proof (rule triple_bind [OF m])
  fix v w
  show "triple T (checks R v (Ok w)) (f w) (\<lambda>_. Q v)"
    by (rule tripleI) (use tripleD [OF f] in \<open>auto simp: checks_def\<close>)
qed (use assms(3,4) in \<open>auto simp: checks_def\<close>)

lemma triple_then_keeps:
  assumes m: "triple T P m keeps" and f: "\<And>w. triple T loaded (f w) keeps"
  shows "triple T P (and_then m f) keeps"
proof (rule triple_bind [OF m])
  fix v w
  show "triple T (keeps v (Ok w)) (f w) (\<lambda>_. keeps v)"
    by (rule triple_pre [OF triple_post [OF f]]) (auto simp: keeps_def)
qed (auto simp: keeps_def)

lemma triple_attempt:
  assumes "triple T P m keeps"
  shows "triple T P (attempt m) keeps"
  by (rule tripleI, unfold attempt_def wp_bind, rule wp_mono [OF tripleD [OF assms]], assumption)
    (auto simp: keeps_def split: result.split)

lemma triple_before_keeps: "triple T P m keeps \<Longrightarrow> triple T loaded k keeps \<Longrightarrow> triple T P (before m k) keeps"
  unfolding before_def by (rule triple_then_keeps)

lemma triple_before_ends: "triple T P m (checks R) \<Longrightarrow> triple T (dirty R) k ends \<Longrightarrow> triple T P (before m k) ends"
  unfolding before_def by (rule triple_then) (auto simp: ends_def)

lemma triple_before_checks: "triple T P m (checks R) \<Longrightarrow> triple T (dirty R) k (checks R) \<Longrightarrow> triple T P (before m k) (checks R)"
  unfolding before_def by (rule triple_then) (auto simp: checks_def)

lemma checks_keeps: "triple T P m (checks (=)) \<Longrightarrow> triple T P m keeps"
  by (erule triple_post) (auto simp: checks_def keeps_def)

text \<open>The rollback: what a failed body leaves behind is a copy of what it found.\<close>

lemma triple_mutate_from:
  fixes m :: "('x, 'a) cmd"
  assumes "triple T P m ends" and P: "\<And>H a. P H a \<Longrightarrow> loaded H a"
  shows "triple T P (mutate m) keeps"
proof (rule tripleI)
  fix H and a :: "'x actor" assume p: "P H a"
  then have l: "loaded H a" by (rule P)
  then obtain t where t: "a_cached a = Some t" using comes_from_cached by (fastforce simp: dirty_in_def)
  from wp_history [OF tripleD [OF assms(1) p]]
  show "wp T (mutate m a) (\<lambda>H (r, a'). a_id a' = a_id a \<and> keeps (a_version a) r H a') H"
    unfolding mutate_def t option.case wp_bind
  proof (rule wp_mono, clarify)
    fix H' r and a' :: "'x actor" assume r: "grows H H'" "a_id a' = a_id a" "ends (a_version a) r H' a'"
    have "comes_from (=) (H' (a_id a) (a_version a)) (Some (reload t))"
      using stableD [OF stable_dirty r(1) l] t comes_from_quiet quiet_once [OF quiet_step.reloaded]
      by (simp add: dirty_in_def)
    then show "wp T (Return (r, case r of Err e \<Rightarrow> restore (export_state t) (a_hand_id a) (a_activity a) a' | _ \<Rightarrow> a'))
      (\<lambda>H (r, a'). a_id a' = a_id a \<and> keeps (a_version a) r H a') H'"
      using r(2,3) by (cases r) (auto simp: keeps_def ends_def restore_def dirty_in_def reload_def)
  qed
qed

lemma triple_mutate: "triple T loaded m ends \<Longrightarrow> triple T loaded (mutate m) keeps"
  by (rule triple_mutate_from)

end
