(* ===== verification/Actor_Rules.thy ===== *)
theory Actor_Rules
  imports Actor_Logic
begin

text \<open>
  The rules of \<open>Actor_Logic\<close> for the building blocks of the handlers: committing, loading, timers, the
  bookkeeping calls of the engine, the retries, and the sweeps and the broadcast that end a command.
\<close>

section \<open>Committing\<close>

lemma table_op_stamp [simp]:
  "table_op T (e\<lparr>le_timestamp := ms\<rparr>) = table_op T e" "table_op T (e\<lparr>le_frame := f\<rparr>) = table_op T e"
  "table_op T (e\<lparr>le_table_id := tid, le_hand_id := h, le_version := v\<rparr>) = table_op T e"
  by (simp_all add: fun_eq_iff table_op.simps)

lemma committed_step_stamp [simp]: "committed_step T (e\<lparr>le_timestamp := ms\<rparr>) = committed_step T e"
  by (simp add: fun_eq_iff committed_step_def)

lemma wp_resolve_commit_err:
  assumes "\<And>H' e. grows H H' \<Longrightarrow> Q H' e"
  shows "wp T (resolve_commit_err tid h aid r) Q H"
  using assms grows_refl [of H] by (auto simp: resolve_commit_err_def split: guard_result.split option.split)

lemma commit_items_legitimate:
  assumes "H tid v = Some (export_state t0)" "committed_step T e t0 t" "distinct (seat_ids t)"
    "le_version e = v + 1" "le_table_id e = tid" "le_hand_id e = h" "le_action_id e = aid" "cv_version cv = v + 1" "cv_hand_id cv = h" "cv_state cv = export_state t"
  shows "legitimate T H (commit_items tid h aid v cv e extra)"
  unfolding legitimate_def using assms by (intro exI conjI) (rule refl | assumption)+

lemma wp_commit_action:
  assumes "H tid v = Some (export_state t0)" "committed_step T e t0 t" "distinct (seat_ids t)"
    and "le_version e = v + 1" "le_table_id e = tid" "le_hand_id e = h" "le_action_id e = aid"
  shows "wp T (commit_action tid h aid v (export_state t) w td nd e extra b)
    (\<lambda>H' (err, b'). err = None \<longrightarrow> H' tid (v + 1) = Some (export_state t)) H"
proof -
  have ok: "wp T (Transact (commit_items tid h aid v cv (e\<lparr>le_timestamp := ms\<rparr>) extra) k)
      (\<lambda>H' (err, b'). err = None \<longrightarrow> H' tid (Suc v) = Some (export_state t)) H'"
    if g: "grows H H'" and cv: "cv_version cv = Suc v" "cv_hand_id cv = h" "cv_state cv = export_state t"
      and k: "k = (\<lambda>r. if r = TxOk then Clock (\<lambda>later. Return (None, f later))
        else io_bind (resolve_commit_err tid h aid r) (\<lambda>e. Clock (\<lambda>later. Return (Some e, g' e later))))"
    for H' cv ms k and f :: "int \<Rightarrow> breaker" and g' :: "store_error \<Rightarrow> int \<Rightarrow> breaker"
  proof -
    have "legitimate T H'' (commit_items tid h aid v cv (e\<lparr>le_timestamp := ms\<rparr>) extra)" if "grows H' H''" for H''
      by (rule commit_items_legitimate) (use assms cv growsD [OF grows_trans [OF g that] assms(1)] in simp_all)
    moreover have "H'' tid (Suc v) = Some (export_state t)"
      if "written (commit_items tid h aid v cv (e\<lparr>le_timestamp := ms\<rparr>) extra) H''" for H''
      using that cv unfolding written_def by metis
    ultimately show ?thesis
      unfolding k by (auto simp: wp_bind intro!: wp_resolve_commit_err) (metis growsD)
  qed
  show ?thesis
    unfolding commit_action_def Let_def
    by (auto simp del: wp.simps(2) split: prod.split intro!: ok [OF _ _ _ _ refl]) ((erule grows_trans)+, rule grows_refl)
qed

text \<open>
  \<open>commits R\<close>: the uncommitted change is stored, or it is still there and the version is the old one.
\<close>

definition commits :: "(table \<Rightarrow> table \<Rightarrow> bool) \<Rightarrow> nat \<Rightarrow> 'a result \<Rightarrow> history \<Rightarrow> 'x actor \<Rightarrow> bool" where
  "commits R v r H a \<longleftrightarrow> (case r of Ok _ \<Rightarrow> loaded H a | Err _ \<Rightarrow> a_version a = v \<and> dirty R H a | Panic \<Rightarrow> True)"


section \<open>What a commit does on its way\<close>

lemma stamp_quiet: "quiet t (stamp_last_action pid ms t)" by (rule quiet_once [OF quiet_step.stamped])
lemma configured_quiet: "quiet t (configure_run_it_twice b t)" by (rule quiet_once [OF quiet_step.configured])
lemma bank_quiet: "time_bank pid t = (t', ms) \<Longrightarrow> quiet t t'" using quiet_once [OF quiet_step.bank_read [of t pid]] by simp
lemma charge_quiet: "consume_time_bank pid ms t = (t', left) \<Longrightarrow> quiet t t'"
  using quiet_once [OF quiet_step.bank_charged [of t pid ms]] by simp

lemma triple_change_last:
  assumes "same_cache f" and "about_cache P" and "triple T P skip Q"
  shows "triple T P (change f) Q"
proof (rule tripleI)
  fix H a assume "P H a"
  then have "P H (f a)" "a_id (f a) = a_id a" "a_version (f a) = a_version a"
    using assms(1,2) by (auto simp: same_cache_def about_cache_def)
  then show "wp T (change f a) (\<lambda>H (r, a'). a_id a' = a_id a \<and> Q (a_version a) r H a') H"
    using tripleD [OF assms(3), of H "f a"] by (simp add: change_def skip_def ok_def)
qed

lemma triple_time_bank_for:
  assumes "\<And>bank. triple T (dirty_in K R) (f bank) Q"
  shows "triple T (dirty_in K R) (time_bank_for pid f) Q"
  unfolding time_bank_for_def
  by (intro triple_look triple_if triple_cached triple_let triple_prod assms)
    (metis triple_put_quiet triple_holding assms bank_quiet)

lemma triple_turn_deadline:
  assumes "\<And>ms. triple T (dirty_in K R) (f ms) Q" and "\<And>v H a. Q v Panic H a"
  shows "triple T (dirty_in K R) (turn_deadline_for_persist f) Q"
  unfolding turn_deadline_for_persist_def Let_def
  by (intro triple_cached triple_total triple_look triple_if triple_holding triple_clock triple_time_bank_for triple_change
      assms stable_dirty about_cache_preds) (auto simp: same_cache_def)

lemma triple_next_hand_deadline:
  assumes "\<And>ms. triple T (dirty_in K R) (f ms) Q"
  shows "triple T (dirty_in K R) (next_hand_deadline_for_persist f) Q"
  unfolding next_hand_deadline_for_persist_def Let_def
  by (intro triple_look triple_option triple_if triple_clock triple_change assms stable_dirty about_cache_preds)
    (auto simp: same_cache_def)

lemma triple_frame_for:
  assumes "\<And>fr. triple T (dirty_in K R) (f (e\<lparr>le_frame := fr\<rparr>)) Q" and "\<And>v H a. Q v Panic H a"
  shows "triple T (dirty_in K R) (frame_for T e f) Q"
  unfolding frame_for_def using assms(1) [of "le_frame e"]
  by (intro triple_if triple_cached triple_total triple_prod assms(2)) (auto intro!: triple_put_quiet [OF view_quiet_step] triple_holding [OF assms(1)])


section \<open>The commit\<close>

lemma committed_stepI: "quiet t u \<Longrightarrow> table_op T e u u' \<Longrightarrow> quiet u' t' \<Longrightarrow> committed_step T e t t'"
  by (auto simp: committed_step_def)

lemma triple_write:
  assumes R: "\<And>t t'. R t t' \<Longrightarrow> table_op T e t t' \<and> distinct (seat_ids t')"
    and e: "le_version e = v + 1" "le_table_id e = i" "le_hand_id e = h" "le_action_id e = aid"
  shows "triple T (dirty_in {(i, h, v)} R) (before (write_state aid e extra td nd)
     (before (change (advance_version e')) (emit ChangeNotified))) (commits R)"
proof (rule tripleI)
  fix H and a :: "'a actor" assume d: "dirty_in {(i, h, v)} R H a"
  then have a: "a_id a = i" "a_hand_id a = h" "a_version a = v" by (simp_all add: dirty_in_def)
  from d have "comes_from R (H i v) (a_cached a)" by (auto simp: dirty_in_def a)
  then obtain t t0 u u' where t: "a_cached a = Some t" "H i v = Some (export_state t0)"
      and "quiet t0 u" "R u u'" "quiet u' t" by (rule comes_fromE)
  then have step: "committed_step T e t0 t" "distinct (seat_ids t)" using R [of u u'] committed_stepI [of t0 u T e u' t] quiet_seats [of u' t] by auto
  let ?Q = "\<lambda>H (r, a'). a_id a' = a_id a \<and> commits R (a_version a) r H a'"
  let ?rest = "\<lambda>(r, a'). case r of Ok w \<Rightarrow> and_then (change (advance_version e')) (\<lambda>_. emit ChangeNotified) a'
    | Err e \<Rightarrow> Return (Err e, a') | Panic \<Rightarrow> Return (Panic, a')"
  have rest: "wp T (?rest (case err of None \<Rightarrow> Ok () | Some e \<Rightarrow> Err (StoreErr e), a\<lparr>a_breaker := b\<rparr>)) ?Q H'"
    if g: "grows H H'" and w: "err = None \<longrightarrow> H' i (v + 1) = Some (export_state t)" for H' err b
  proof (cases err)
    case None
    then have "comes_from (=) (H' i (Suc v)) (Some t)" using w comes_fromI [of t t "(=)" t t] by simp
    then show ?thesis
      using None a t by (simp add: before_def and_then_def change_def emit_def advance_version_def commits_def dirty_in_def)
  next
    case (Some err)
    then show ?thesis
      using a t stableD [OF stable_dirty g d] by (simp add: commits_def dirty_in_def)
  qed
  have "wp T (commit_action i h aid v (export_state t) (a_activity a) td nd e extra (a_breaker a))
    (\<lambda>H' r. wp T (?rest (case fst r of None \<Rightarrow> Ok () | Some e \<Rightarrow> Err (StoreErr e), a\<lparr>a_breaker := snd r\<rparr>)) ?Q H') H"
    by (rule wp_mono [OF wp_history [OF wp_commit_action [where H = H and tid = i and v = v and h = h and aid = aid, OF t(2) step]]]) (use rest e in force)+
  then show "wp T (before (write_state aid e extra td nd) (before (change (advance_version e')) (emit ChangeNotified)) a) ?Q H"
    using a t by (simp add: before_def and_then_def write_state_def cached_def wp_bind case_prod_beta)
qed

lemma commits_mono: "triple T P m (commits R) \<Longrightarrow> (\<And>t t'. R t t' \<Longrightarrow> R' t t') \<Longrightarrow> triple T P m (commits R')"
  by (erule triple_post) (auto simp: commits_def dirty_in_def elim!: comes_fromE intro!: comes_fromI split: result.splits)

lemma triple_commit:
  assumes R: "\<And>t t'. R t t' \<Longrightarrow> table_op T e t t'" and "aid = le_action_id e"
  shows "triple T (dirty R) (commit T aid e extra) (commits R)"
proof (rule tripleI)
  fix H and a :: "'a actor" assume d: "dirty R H a"
  let ?K = "{(a_id a, a_hand_id a, a_version a)}"
  let ?R = "\<lambda>t t'. R t t' \<and> distinct (seat_ids t')"
  let ?tail = "look (\<lambda>a'. let entry = e\<lparr>le_table_id := a_id a, le_hand_id := a_hand_id a, le_version := a_version a + 1\<rparr>
       in frame_for T entry (\<lambda>entry.
          turn_deadline_for_persist (\<lambda>turn_deadline.
          next_hand_deadline_for_persist (\<lambda>next_hand_deadline.
            before (write_state aid entry extra turn_deadline next_hand_deadline)
           (before (change (advance_version entry))
                   (emit ChangeNotified))))))"
  have "triple T (dirty_in ?K ?R) ?tail (commits ?R)"
    unfolding Let_def
    by (intro triple_look triple_frame_for triple_turn_deadline triple_next_hand_deadline triple_write)
      (auto simp: assms commits_def)
  then have tail: "triple T (dirty_in ?K ?R) ?tail (commits R)" by (rule commits_mono) simp
  from d obtain t t0 u u' where t: "a_cached a = Some t" "H (a_id a) (a_version a) = Some (export_state t0)"
    "quiet t0 u" "R u u'" "quiet u' t" unfolding dirty_in_def by (auto elim: comes_fromE)
  show "wp T (commit T aid e extra a) (\<lambda>H (r, a'). a_id a' = a_id a \<and> commits R (a_version a) r H a') H"
  proof (cases "snd (duplicate_seat t)")
    case True
    then show ?thesis using d t(1) by (simp add: commit_def cached_def fail_def commits_def)
  next
    case False
    then have "dirty_in ?K ?R H a"
      using t comes_fromI [OF t(3) _ t(5), of ?R] quiet_seats [OF t(5)] no_duplicate_seat [of t] by (simp add: dirty_in_def)
    from tripleD [OF tail this] show ?thesis using False t(1) by (simp add: commit_def cached_def look_def Let_def)
  qed
qed

section \<open>Results\<close>

lemma commits_ends: "triple T P m (commits R) \<Longrightarrow> triple T P m ends"
  by (erule triple_post) (auto simp: commits_def ends_def split: result.splits)

lemma commits_keeps: "triple T P m (commits (=)) \<Longrightarrow> triple T P m keeps"
  by (erule triple_post) (auto simp: commits_def keeps_def split: result.splits)

lemma keeps_ends_fail: "triple T P (fail e) ends"
  by (rule triple_fail)

text \<open>\<open>settles\<close>: a command that may find no cache, and leaves a coherent one or none.\<close>

definition settles :: "nat \<Rightarrow> 'a result \<Rightarrow> history \<Rightarrow> 'x actor \<Rightarrow> bool" where
  "settles v r H a \<longleftrightarrow> r = Panic \<or> coherent H a"

definition opens :: "nat \<Rightarrow> 'a result \<Rightarrow> history \<Rightarrow> 'x actor \<Rightarrow> bool" where
  "opens v r H a \<longleftrightarrow> (case r of Ok _ \<Rightarrow> loaded H a | Err _ \<Rightarrow> coherent H a | Panic \<Rightarrow> True)"

lemma settles_panic [simp]: "settles v Panic H a" "opens v Panic H a"
  by (simp_all add: settles_def opens_def)

lemma keeps_settles: "triple T P m keeps \<Longrightarrow> triple T P m settles"
  by (erule triple_post) (auto simp: keeps_def settles_def coherent_def)

lemma triple_settles [triple_intros]:
  "triple T coherent (ok w) settles" "triple T coherent skip settles" "triple T coherent (fail e) settles"
  by (auto intro!: tripleI simp: ok_def skip_def fail_def settles_def)

lemma triple_open:
  assumes "triple T P m opens" and "\<And>w. triple T loaded (f w) settles"
  shows "triple T P (and_then m f) settles"
proof (rule triple_bind [OF assms(1)])
  fix v w
  show "triple T (opens v (Ok w)) (f w) (\<lambda>_. settles v)"
    by (rule triple_pre [OF triple_post [OF assms(2)]]) (auto simp: opens_def settles_def)
qed (auto simp: opens_def settles_def)

lemma triple_open_before:
  "triple T P m opens \<Longrightarrow> triple T loaded k settles \<Longrightarrow> triple T P (before m k) settles"
  unfolding before_def by (rule triple_open)

lemma triple_then_settles:
  assumes "triple T P m settles" and "\<And>w. triple T coherent (f w) settles"
  shows "triple T P (and_then m f) settles"
proof (rule triple_bind [OF assms(1)])
  fix v w
  show "triple T (settles v (Ok w)) (f w) (\<lambda>_. settles v)"
    by (rule triple_pre [OF triple_post [OF assms(2)]]) (auto simp: settles_def)
qed (auto simp: settles_def)

lemma triple_before_settles: "triple T P m settles \<Longrightarrow> triple T coherent k settles \<Longrightarrow> triple T P (before m k) settles"
  unfolding before_def by (rule triple_then_settles)

lemma triple_attempt_opens:
  assumes "triple T P m opens" and "\<And>w. triple T loaded (f (Inr w)) settles" and "\<And>e. triple T coherent (f (Inl e)) settles"
  shows "triple T P (and_then (attempt m) f) settles"
proof (rule triple_bind_attempt [OF assms(1)])
  fix v w
  show "triple T (opens v (Ok w)) (f (Inr w)) (\<lambda>_. settles v)"
    by (rule triple_pre [OF triple_post [OF assms(2)]]) (auto simp: opens_def settles_def)
next
  fix v e
  show "triple T (opens v (Err e)) (f (Inl e)) (\<lambda>_. settles v)"
    by (rule triple_pre [OF triple_post [OF assms(3)]]) (auto simp: opens_def settles_def)
qed (auto simp: settles_def)

lemma triple_attempt_settles:
  assumes "triple T P m settles" and "\<And>r. triple T coherent (f r) settles"
  shows "triple T P (and_then (attempt m) f) settles"
proof (rule triple_bind_attempt [OF assms(1)])
  fix v w
  show "triple T (settles v (Ok w)) (f (Inr w)) (\<lambda>_. settles v)"
    by (rule triple_pre [OF triple_post [OF assms(2)]]) (auto simp: settles_def)
next
  fix v e
  show "triple T (settles v (Err e)) (f (Inl e)) (\<lambda>_. settles v)"
    by (rule triple_pre [OF triple_post [OF assms(2)]]) (auto simp: settles_def)
qed (auto simp: settles_def)

lemma triple_attempt_keeps:
  assumes "triple T P m keeps" and "\<And>r. triple T loaded (f r) keeps"
  shows "triple T P (and_then (attempt m) f) keeps"
proof (rule triple_bind_attempt [OF assms(1)])
  fix v w
  show "triple T (keeps v (Ok w)) (f (Inr w)) (\<lambda>_. keeps v)"
    by (rule triple_pre [OF triple_post [OF assms(2)]]) (auto simp: keeps_def)
next
  fix v e
  show "triple T (keeps v (Err e)) (f (Inl e)) (\<lambda>_. keeps v)"
    by (rule triple_pre [OF triple_post [OF assms(2)]]) (auto simp: keeps_def)
qed (auto simp: keeps_def)

section \<open>Bookkeeping calls\<close>

lemmas triple_simps = Let_def

lemma checks_put_quiet: "quiet t t' \<Longrightarrow> triple T (holding R t) (put_table t') (checks R)"
proof (rule tripleI)
  fix H and a :: "'a actor" assume "quiet t t'" "holding R t H a"
  then show "wp T (put_table t' a) (\<lambda>H (r, a'). a_id a' = a_id a \<and> checks R (a_version a) r H a') H"
    using comes_from_quiet by (fastforce simp: put_table_def change_def checks_def holding_in_def dirty_in_def)
qed

lemma checks_change: "same_cache f \<Longrightarrow> triple T (dirty R) (change f) (checks R)"
  by (rule triple_change_last) (auto intro: triple_skip)

lemma checks_emit: "triple T (dirty R) (emit e) (checks R)"
  unfolding emit_def by (rule checks_change) (simp add: same_cache_def)

lemmas checks_intros = triple_look triple_if triple_option triple_sum triple_prod triple_let triple_cached
  triple_cached_holding triple_total triple_clock triple_ulid triple_ok(3) triple_skip(3) triple_fail(3)
  stable_dirty stable_holding outcome_panic

lemma checks_require_seated: "triple T (dirty R) (require_seated pid) (checks R)"
  unfolding require_seated_def by (intro checks_intros)

lemma checks_mark_last_action: "triple T (dirty R) (mark_last_action pid) (checks R)"
  unfolding mark_last_action_def
  by (intro checks_intros triple_holding [OF triple_skip(3)] checks_put_quiet stamp_quiet)

lemma checks_arm_turn_timer: "triple T (dirty R) (arm_turn_timer current s grace) (checks R)"
  unfolding arm_turn_timer_def Let_def
  by (intro checks_intros checks_change triple_before_checks triple_time_bank_for)
    (auto simp: same_cache_def clear_pending_def)

lemma checks_arm_next_hand_timer: "triple T (dirty R) (arm_next_hand_timer c) (checks R)"
  unfolding arm_next_hand_timer_def Let_def
  by (intro checks_intros checks_change triple_before_checks) (auto simp: same_cache_def)

lemma checks_arm_winner_cards_timer: "triple T (dirty R) (arm_winner_cards_timer batch) (checks R)"
proof (cases batch)
  case Nil
  then show ?thesis by (auto simp: arm_winner_cards_timer_def same_cache_def intro!: checks_change)
next
  case (Cons req rest)
  then show ?thesis
    unfolding arm_winner_cards_timer_def Cons list.case
    by (intro checks_intros checks_change) (auto simp: same_cache_def)
qed

lemma checks_arm_runout_timer: "triple T (dirty R) (arm_runout_timer w s) (checks R)"
  unfolding arm_runout_timer_def
  by (intro checks_intros triple_holding [OF triple_skip(3)] triple_holding [OF checks_change] checks_change)
    (auto simp: same_cache_def)

lemma checks_arm_timers: "triple T (dirty R) (arm_timers grace) (checks R)"
  unfolding arm_timers_def
  by (intro checks_intros triple_holding triple_before_checks checks_arm_turn_timer checks_arm_runout_timer
      checks_arm_next_hand_timer checks_arm_winner_cards_timer)

lemma checks_rearm: "triple T (dirty R) rearm_timers_from_cache (checks R)"
  unfolding rearm_timers_from_cache_def by (intro checks_intros checks_arm_timers)

lemma checks_prune: "triple T (dirty R) (prune_preselections T) (checks R)"
  unfolding prune_preselections_def
  by (intro checks_intros) (auto intro!: triple_put_quiet [OF view_quiet_step] triple_holding [OF checks_change]
      simp: same_cache_def set_preselections_def)

lemma checks_cancel: "triple T (dirty R) (cancel_preselections T pid) (checks R)"
  unfolding cancel_preselections_def
  by (intro checks_intros triple_holding triple_before_checks checks_change checks_prune)
    (auto simp: same_cache_def set_preselections_def)

lemma triple_consume_time_bank:
  assumes "\<And>ms. triple T (dirty R) (f ms) Q" and "\<And>v H a. Q v Panic H a"
  shows "triple T (dirty R) (consume_time_bank_of T pid f) Q"
proof -
  have charge: "triple T (holding R t) (before (put_table t3) (f ms)) Q"
    if "time_bank pid t = (t1, b1)" "consume_time_bank pid e t1 = (t2, b2)" "view_for T '''' t2 = Some (snap, t3)"
    for t t1 b1 e t2 b2 snap t3 ms
    using bank_quiet [OF that(1)] charge_quiet [OF that(2)] view_quiet_step [OF that(3)]
    by (intro triple_put_quiet triple_holding assms(1)) (meson rtranclp_trans)
  show ?thesis
    unfolding consume_time_bank_of_def Let_def
    by (intro triple_look triple_option triple_if assms triple_clock stable_dirty triple_cached triple_prod triple_total charge)
      (assumption | simp)+
qed

section \<open>Loading\<close>

definition stored :: "stored_table \<Rightarrow> history \<Rightarrow> 'x actor \<Rightarrow> bool" where
  "stored s H a \<longleftrightarrow> H (a_id a) (st_version s) = Some (st_state s) \<and> st_state s \<in> range export_state"

lemma stable_stored [simp]: "stable (stored s)"
  by (auto simp: stable_def stored_def dest: growsD)

lemma wp_load_attempts:
  assumes "\<And>H' r. grows H H' \<Longrightarrow> (\<And>s. r = Inr (Some s) \<Longrightarrow> H' tid (st_version s) = Some (st_state s) \<and>
     st_state s \<in> range export_state) \<Longrightarrow> Q H' r"
  shows "wp T (load_attempts n tid :: ('x, _) io) Q H"
  using assms
proof (induction n arbitrary: H)
  case 0
  from 0 [OF grows_refl, of "Inl Unavailable"] show ?case by simp
next
  case (Suc n)
  have "wp T (load_attempts n tid :: ('x, _) io) Q H'" if "grows H H'" for H'
    by (rule Suc.IH) (use Suc.prems grows_trans [OF that] in blast)
  moreover have "Q H' (Inr (Some s))" if "grows H H'" "H' tid (st_version s) = Some (st_state s)" "st_state s \<in> range export_state" for H' s
    using Suc.prems [of H' "Inr (Some s)"] that by simp
  moreover have "Q H' (Inl e)" "Q H' (Inr None)" if "grows H H'" for H' e
    using Suc.prems [of H' "Inl e"] Suc.prems [of H' "Inr None"] that by simp_all
  ultimately show ?case by (auto split: get_result.split)
qed

lemma triple_load_stored:
  assumes "stable P"
  shows "triple T P load_stored (\<lambda>v r H a. P H a \<and> (\<forall>s. r = Ok s \<longrightarrow> stored s H a))"
proof (rule tripleI)
  fix H and a :: "'a actor" assume "P H a"
  then show "wp T (load_stored a) (\<lambda>H (r, a'). a_id a' = a_id a \<and> P H a' \<and> (\<forall>s. r = Ok s \<longrightarrow> stored s H a')) H"
    unfolding load_stored_def load_table_def wp_bind
    by (intro wp_load_attempts) (use stableD [OF assms] in \<open>auto simp: stored_def split: sum.splits option.splits\<close>)
qed

lemma triple_adopt:
  assumes "triple T loaded k (\<lambda>_. Q)"
  shows "triple T (stored s) (before (change (adopt_stored now s)) k) (\<lambda>_. Q)"
proof (rule tripleI)
  fix H and a :: "'a actor" assume "stored s H a"
  then obtain t0 where t0: "H (a_id a) (st_version s) = Some (export_state t0)" "st_state s = export_state t0"
    by (auto simp: stored_def)
  have "quiet t0 (configure_run_it_twice (a_run_it_twice_enabled a) (reload t0))"
    using quiet_once [OF quiet_step.reloaded] configured_quiet by (rule rtranclp_trans)
  then have "comes_from (=) (Some (export_state t0)) (Some (configure_run_it_twice (a_run_it_twice_enabled a) (reload t0)))"
    by (blast intro: comes_fromI)
  then have "loaded H (adopt_stored now s a)" "a_id (adopt_stored now s a) = a_id a"
    using t0 by (simp_all add: dirty_in_def adopt_stored_def Let_def reload_def)
  from triple_at [OF assms this]
  show "wp T (before (change (adopt_stored now s)) k a) (\<lambda>H (r, a'). a_id a' = a_id a \<and> Q r H a') H"
    by (simp add: wp_before_change)
qed

text \<open>Whatever \<open>P\<close> a failed load leaves as it was.\<close>

definition opens_or :: "(history \<Rightarrow> 'x actor \<Rightarrow> bool) \<Rightarrow> nat \<Rightarrow> 'a result \<Rightarrow> history \<Rightarrow> 'x actor \<Rightarrow> bool" where
  "opens_or P v r H a \<longleftrightarrow> (case r of Ok _ \<Rightarrow> loaded H a | Err _ \<Rightarrow> P H a | Panic \<Rightarrow> True)"

lemma checks_opens_or:
  "triple T loaded m (checks (=)) \<Longrightarrow> (\<And>H a. loaded H a \<Longrightarrow> P H a) \<Longrightarrow> triple T loaded m (\<lambda>_. opens_or P v)"
  by (erule triple_post) (auto simp: checks_def opens_or_def split: result.split)

lemma triple_ensure_loaded_or:
  fixes P :: "history \<Rightarrow> 'x actor \<Rightarrow> bool"
  assumes P: "stable P" "\<And>H a. loaded H a \<Longrightarrow> P H a" "\<And>H a. P H a \<Longrightarrow> a_cached a \<noteq> None \<Longrightarrow> loaded H a"
  shows "triple T P (ensure_loaded force :: ('x, unit) cmd) (opens_or P)"
proof -
  let ?tail = "cached (\<lambda>t. total (current_player_to_act t) (\<lambda>current.
    before (change (\<lambda>a. prune_stale_presence (a\<lparr>a_pending_deadline_for := current\<rparr>))) rearm_timers_from_cache)) :: ('x, unit) cmd"
  have "triple T loaded ?tail (checks (=))"
    by (intro checks_intros triple_holding triple_change checks_rearm) (auto simp: same_cache_def prune_stale_presence_def)
  then have tail: "triple T loaded ?tail (\<lambda>_. opens_or P v)" for v by (rule checks_opens_or) (rule P(2))
  have slow: "triple T P (and_then load_stored (\<lambda>s. clock (\<lambda>now. before (change (adopt_stored now s)) ?tail))) (opens_or P)"
  proof (rule triple_bind [OF triple_load_stored [OF P(1)]])
    fix v s
    have "triple T (stored s) (clock (\<lambda>now. before (change (adopt_stored now s)) ?tail)) (\<lambda>_. opens_or P v)"
      by (intro triple_clock stable_stored triple_adopt tail)
    then show "triple T (\<lambda>H a. P H a \<and> (\<forall>s'. Ok s = Ok s' \<longrightarrow> stored s' H a))
      (clock (\<lambda>now. before (change (adopt_stored now s)) ?tail)) (\<lambda>_. opens_or P v)"
      by (rule triple_pre) simp
  qed (auto simp: opens_or_def)
  have "triple T loaded (engine (configure_run_it_twice b) :: ('x, unit) cmd) (checks (=))" for b
    unfolding engine_def by (intro checks_intros checks_put_quiet configured_quiet)
  then have fast: "triple T loaded (engine (configure_run_it_twice b) :: ('x, unit) cmd) (\<lambda>_. opens_or P v)" for b v
    by (rule checks_opens_or) (rule P(2))
  show ?thesis
  proof (rule tripleI)
    fix H and a :: "'x actor" assume p: "P H a"
    show "wp T (ensure_loaded force a) (\<lambda>H (r, a'). a_id a' = a_id a \<and> opens_or P (a_version a) r H a') H"
      using tripleD [OF slow p] P(3) [OF p] triple_at [OF fast _ refl, of H a]
      by (auto simp: ensure_loaded_def look_def Let_def)
  qed
qed

lemma loaded_coherent: "loaded H a \<Longrightarrow> coherent H a"
  by (simp add: coherent_def)

lemma triple_ensure_loaded: "triple T coherent (ensure_loaded force) opens"
  by (rule triple_post [OF triple_ensure_loaded_or [of coherent]])
    (auto simp: coherent_def opens_or_def opens_def split: result.splits)

lemma keeps_ensure_loaded: "triple T loaded (ensure_loaded force) keeps"
  by (rule triple_post [OF triple_ensure_loaded_or [of loaded]])
    (auto simp: opens_or_def keeps_def split: result.splits)

section \<open>Retries\<close>

lemma keeps_retry: "triple T loaded m keeps \<Longrightarrow> triple T loaded (retry_on_conflict m) keeps"
  unfolding retry_on_conflict_def
  by (intro triple_attempt_keeps triple_sum triple_if triple_skip triple_fail triple_before_keeps keeps_ensure_loaded)

lemma keeps_accept_duplicate: "triple T loaded m keeps \<Longrightarrow> triple T loaded (accept_duplicate m) keeps"
  unfolding accept_duplicate_def
  by (intro triple_attempt_keeps triple_sum triple_if triple_skip triple_fail keeps_ensure_loaded)

lemma ends_commit_ok: "triple T P m (commits R) \<Longrightarrow> triple T P (before m (ok w)) ends"
  unfolding before_def
  by (erule triple_bind) (auto intro!: tripleI simp: ok_def ends_def commits_def)

text \<open>One operation under a \<open>mutate\<close>: apply it, do bookkeeping, commit it.\<close>

lemma ends_commit: "(\<And>t t'. R t t' \<Longrightarrow> table_op T e t t') \<Longrightarrow> aid = le_action_id e \<Longrightarrow> triple T (dirty R) (commit T aid e extra) ends"
  by (rule commits_ends [OF triple_commit])

lemma ends_commit_plain:
  "(\<And>t t'. R t t' \<Longrightarrow> table_op T (log_entry pid aid w) t t') \<Longrightarrow> triple T (dirty R) (commit_plain T pid aid w) ends"
  unfolding commit_plain_def by (rule ends_commit) (simp_all add: log_entry_def)

lemmas triple_apply = triple_put [OF _ triple_holding]

section \<open>Acting and leaving\<close>

lemma keeps_apply_act: "triple T loaded (apply_act_and_commit T c :: ('x, _) cmd) keeps"
proof -
  define S where "S b t t' \<longleftrightarrow> act_idempotent T (ac_action_id c) (ac_player_id c) (ac_action c) (ac_amount c) t = Some (Inr (True, t')) \<and>
    normalized_action t (ac_player_id c) (ac_action c) = b" for b t t'
  let ?row = "\<lambda>b spent. cached (\<lambda>t. before (commit T (ac_action_id c)
       ((log_entry (ac_player_id c) (ac_action_id c)
           (if player_all_in t (ac_player_id c) then ''all_in'' else action_name (ac_action c)))
         \<lparr>le_betting_action := action_name b, le_amount := ac_amount c, le_time_bank_ms := spent\<rparr>) []) (ok True)) :: ('x, bool) cmd"
  have row: "triple T (dirty (S b)) (?row b spent) ends" for b spent
    by (intro triple_cached triple_holding ends_commit_ok [OF triple_commit])
      (auto simp: S_def log_entry_def intro: table_op.acted)
  have acted: "triple T (holding (=) t) (before (put_table t') (before (cancel_preselections T (ac_player_id c))
      (consume_time_bank_of T (ac_player_id c) (\<lambda>spent. ?row (normalized_action t (ac_player_id c) (ac_action c)) spent)))) ends"
    if "act_idempotent T (ac_action_id c) (ac_player_id c) (ac_action c) (ac_amount c) t = Some (Inr (True, t'))" for t t'
    by (rule triple_apply [where S = "S (normalized_action t (ac_player_id c) (ac_action c))"])
      (use that in \<open>auto simp: S_def intro!: triple_before_ends [OF checks_cancel] triple_consume_time_bank row\<close>)
  show ?thesis
    unfolding apply_act_and_commit_def Let_def
    by (intro triple_then_keeps [OF triple_mutate] triple_cached triple_total triple_sum triple_prod triple_bool triple_fail
        triple_holding [OF triple_ok(1)] triple_holding [OF triple_ok(2)] acted outcome_panic) simp_all
qed

section \<open>The outcome rows\<close>

lemma keeps_commit_note: "le_action e \<in> note_rows \<Longrightarrow> triple T loaded (commit T (le_action_id e) e extra) keeps"
  by (rule commits_keeps [OF triple_commit]) (auto intro: table_op.noted)

lemma keeps_outcome_entry: "le_action e \<in> note_rows \<Longrightarrow> triple T loaded (commit_outcome_entry T n e) keeps"
  by (induction n) (auto intro!: triple_fail triple_attempt_keeps keeps_commit_note triple_skip triple_before_keeps
      keeps_ensure_loaded split: sum.split)

lemma keeps_each: "(\<And>v. v \<in> set vs \<Longrightarrow> triple T loaded (f v) keeps) \<Longrightarrow> triple T loaded (each f vs) keeps"
  by (induction vs) (auto intro: triple_skip triple_before_keeps)

lemma outcome_entries_noted: "e \<in> set (outcome_entries ho) \<Longrightarrow> le_action e \<in> note_rows"
  by (auto simp: outcome_entries_def log_entry_def note_rows_def showdown_action_def split: if_splits option.splits)

lemma keeps_change: "same_cache f \<Longrightarrow> triple T loaded (change f) keeps"
  by (rule checks_keeps [OF checks_change])

lemma keeps_emit: "triple T loaded (emit e) keeps"
  by (rule checks_keeps [OF checks_emit])

lemma keeps_outcome_log: "triple T loaded (commit_outcome_log_entries T n) keeps"
  unfolding commit_outcome_log_entries_def
  by (intro triple_look triple_option triple_if triple_skip triple_before_keeps keeps_each keeps_outcome_entry keeps_change)
    (auto simp: same_cache_def dest: outcome_entries_noted)

section \<open>Leaving and the sweeps\<close>

lemma keeps_apply_leave: "triple T loaded (apply_leave_and_commit T c :: ('x, _) cmd) keeps"
proof -
  define S where "S t t' \<longleftrightarrow> (\<exists>paid. remove_player (lv_player_id c) t = Inr (paid, t'))" for t t'
  have row: "triple T (dirty S) (before (commit T '''' (log_entry (lv_player_id c) '''' ''leave'') extra) (ok w) :: ('x, int \<times> string) cmd) ends"
    for extra w
    by (rule ends_commit_ok [OF triple_commit]) (auto simp: S_def log_entry_def intro: table_op.left)
  show ?thesis
    unfolding apply_leave_and_commit_def
    by (intro triple_mutate triple_cached triple_sum triple_prod triple_fail triple_apply [where S = S] triple_option row outcome_panic)
      (auto simp: S_def)
qed

lemma keeps_notify_seats: "triple T loaded notify_seats_changed keeps"
  unfolding notify_seats_changed_def by (intro triple_look triple_option triple_skip keeps_emit)

lemma keeps_leave_loaded:
  assumes "triple T loaded broadcast keeps"
  shows "triple T loaded (and_then (attempt (apply_leave_and_commit T c)) (\<lambda>r.
     and_then (case r of
         Inr left \<Rightarrow> ok left
       | Inl e \<Rightarrow> if e = StoreErr VersionConflict then before (ensure_loaded True) (apply_leave_and_commit T c)
                  else fail e) (\<lambda>(stack, hold_id).
       before (change (forget_presence (lv_player_id c)))
      (before (emit (LeaveReplied stack hold_id))
      (before notify_seats_changed
      (before broadcast
              (ok (stack, hold_id)))))))) keeps"
  by (intro triple_attempt_keeps keeps_apply_leave triple_then_keeps triple_sum triple_ok triple_if triple_before_keeps
      keeps_ensure_loaded triple_fail triple_prod keeps_change keeps_emit keeps_notify_seats assms)
    (simp add: same_cache_def forget_presence_def)

lemma keeps_leave: "triple T loaded broadcast keeps \<Longrightarrow> triple T loaded (handle_leave_then broadcast T c) keeps"
  unfolding handle_leave_then_def by (intro triple_before_keeps keeps_ensure_loaded keeps_leave_loaded)

lemma settles_leave: "triple T loaded broadcast keeps \<Longrightarrow> triple T coherent (handle_leave_then broadcast T c) settles"
  unfolding handle_leave_then_def by (intro triple_open_before triple_ensure_loaded keeps_settles keeps_leave_loaded)

lemma keeps_remove_by_system:
  "triple T loaded broadcast keeps \<Longrightarrow> triple T loaded (remove_by_system broadcast T reason pid) keeps"
  unfolding remove_by_system_def
  by (intro triple_ulid stable_dirty triple_look triple_attempt_keeps keeps_leave triple_sum triple_skip triple_prod keeps_emit)

lemma keeps_remove_exits:
  "triple T loaded broadcast keeps \<Longrightarrow> triple T loaded (remove_eligible_pending_exits broadcast T) keeps"
  unfolding remove_eligible_pending_exits_def
  by (intro triple_cached triple_holding keeps_each keeps_remove_by_system)

lemma keeps_sweep_act: "triple T loaded continue keeps \<Longrightarrow> triple T loaded (sweep_act T n c continue) keeps"
  unfolding sweep_act_def
  by (intro triple_attempt_keeps keeps_apply_act triple_sum triple_prod triple_bool triple_before_keeps
      keeps_outcome_log triple_skip keeps_ensure_loaded)

lemma keeps_auto_folds: "triple T loaded (process_pending_exit_auto_folds T n) keeps"
  by (induction n) (auto intro!: triple_skip triple_look triple_total keeps_sweep_act split: option.split)

lemma keeps_inline_loop: "triple T loaded (process_inline_loop T n) keeps"
  by (induction n) (auto intro!: triple_skip triple_look triple_total keeps_sweep_act triple_before_keeps keeps_change
      simp: Let_def same_cache_def set_preselections_def split: option.split)

section \<open>Broadcasting\<close>

lemma keeps_publish_to: "triple T loaded (publish_to T s current rs w) keeps"
  unfolding publish_to_def
  by (intro triple_prod triple_cached triple_total outcome_panic triple_put_quiet triple_clock triple_look triple_holding [OF keeps_emit]
      stable_holding) (simp add: view_quiet_step)

lemma keeps_publish: "triple T loaded (publish_snapshots T) keeps"
  unfolding publish_snapshots_def
  by (intro triple_cached triple_total outcome_panic triple_clock stable_holding triple_look triple_holding keeps_each keeps_publish_to)

lemma triple_claim:
  assumes "stable P" and "\<And>b. triple T P (f b) Q"
  shows "triple T P (claim_hand_hooks f) Q"
  using assms(1) by (auto intro!: tripleI tripleD [OF assms(2)] simp: claim_hand_hooks_def dest: stableD)

lemma keeps_notify:
  assumes "\<And>b. triple T loaded (f b) keeps"
  shows "triple T loaded (notify_hand_complete f) keeps"
  unfolding notify_hand_complete_def
  by (intro triple_look triple_option triple_if assms triple_before_keeps keeps_change triple_claim stable_dirty keeps_emit)
    (simp add: same_cache_def)

lemma keeps_sync_then:
  assumes "triple T loaded remove_exits keeps"
  shows "triple T loaded (sync_then remove_exits T n publish) keeps"
  unfolding sync_then_def process_inline_preselections_def Let_def
  by (intro triple_look triple_if triple_skip triple_before_keeps keeps_auto_folds keeps_inline_loop assms checks_keeps [OF checks_prune]
      triple_cached triple_holding checks_keeps [OF checks_arm_timers] keeps_change keeps_publish keeps_notify)
    (simp add: same_cache_def)

lemma keeps_sync: "triple T loaded (sync T n publish) keeps"
proof (induction n arbitrary: publish)
  case 0
  show ?case by (simp add: keeps_sync_then triple_skip)
next
  case (Suc n)
  show ?case by (simp add: keeps_sync_then keeps_remove_exits Suc.IH)
qed

lemma keeps_broadcast: "triple T loaded (broadcast_all T n) keeps"
  unfolding broadcast_all_def by (rule keeps_sync)

end
