(* ===== verification/Actor_Correct.thy ===== *)
theory Actor_Correct
  imports Actor_Rules
begin

text \<open>
  Every command keeps the cache coherent and writes nothing but commits of one operation: the rules of
  \<open>Actor_Rules\<close> handler by handler.
\<close>

section \<open>One operation under way\<close>

text \<open>\<open>pinned u t\<close>: the actor loaded \<open>u\<close> and has made \<open>t\<close> of it so far.\<close>

definition pinned :: "table \<Rightarrow> table \<Rightarrow> history \<Rightarrow> 'x actor \<Rightarrow> bool" where
  "pinned u t H a \<longleftrightarrow> comes_from (=) (H (a_id a) (a_version a)) (Some u) \<and> a_cached a = Some t"

lemma stable_pinned [simp]: "stable (pinned u t)"
  unfolding stable_def pinned_def by (metis comes_from_stored growsD)

lemma about_cache_pinned [simp]: "about_cache (pinned u t)"
  by (auto simp: about_cache_def pinned_def)

lemma triple_pin:
  assumes "\<And>t. triple T (pinned t t) m Q"
  shows "triple T loaded m Q"
proof (rule tripleI)
  fix H and a :: "'a actor" assume d: "loaded H a"
  then obtain t where "a_cached a = Some t" using comes_from_cached by (fastforce simp: dirty_in_def)
  then have "pinned t t H a" using d by (simp add: pinned_def dirty_in_def)
  then show "wp T (m a) (\<lambda>H (r, a'). a_id a' = a_id a \<and> Q (a_version a) r H a') H" by (rule tripleD [OF assms])
qed

lemma pinned_dirty: "S u t \<Longrightarrow> pinned u t H a \<Longrightarrow> dirty S H a"
  using comes_from_put by (fastforce simp: pinned_def dirty_in_def)

lemma triple_unpin: "S u t \<Longrightarrow> triple T (dirty S) m Q \<Longrightarrow> triple T (pinned u t) m Q"
  by (erule triple_pre) (rule pinned_dirty)

lemma pinned_cached: "triple T (pinned u t) (f t) Q \<Longrightarrow> triple T (pinned u t) (cached f) Q"
  by (auto intro!: tripleI simp: cached_def pinned_def dest: tripleD)

lemma pinned_put:
  assumes "triple T (pinned u t') k Q"
  shows "triple T (pinned u t) (before (put_table t') k) Q"
proof (rule tripleI)
  fix H and a :: "'a actor" assume "pinned u t H a"
  then have "pinned u t' H (a\<lparr>a_cached := Some t'\<rparr>)" by (simp add: pinned_def)
  from tripleD [OF assms this]
  show "wp T (before (put_table t') k a) (\<lambda>H (r, a'). a_id a' = a_id a \<and> Q (a_version a) r H a') H"
    by (simp add: put_table_def wp_before_change)
qed

text \<open>Pushing what follows into a step.\<close>

lemma before_push:
  "before (cached f) k = cached (\<lambda>t. before (f t) k)" "before (total v g) k = total v (\<lambda>w. before (g w) k)"
  "before (before m m') k = before m (before m' k)" "before skip k = k"
  "before (case x of Inl e \<Rightarrow> c e | Inr w \<Rightarrow> d w) k = (case x of Inl e \<Rightarrow> before (c e) k | Inr w \<Rightarrow> before (d w) k)"
  "before (entropy h) k = entropy (\<lambda>r. before (h r) k)" "before (ulid h') k = ulid (\<lambda>r. before (h' r) k)"
  by (auto simp: fun_eq_iff before_def and_then_def cached_def total_def panic_def skip_def ok_def entropy_def ulid_def
      io_bind_assoc case_prod_beta split: option.split result.split sum.split intro!: arg_cong [where f = "io_bind _"])

lemma ends_fail_before: "triple T P (before (fail e) k) ends"
  by (auto intro!: tripleI simp: before_def and_then_def fail_def ends_def)

lemma pinned_engine: "triple T (pinned u (f t)) k Q \<Longrightarrow> triple T (pinned u t) (before (engine f) k) Q"
  unfolding engine_def before_push by (intro pinned_cached pinned_put)

lemma pinned_engine_opt:
  "(\<And>t'. f t = Some t' \<Longrightarrow> triple T (pinned u t') k ends) \<Longrightarrow> triple T (pinned u t) (before (engine_opt f) k) ends"
  unfolding engine_opt_def before_push by (intro pinned_cached triple_total pinned_put outcome_panic)

lemma pinned_engine_try:
  "(\<And>t'. f t = Inr t' \<Longrightarrow> triple T (pinned u t') k ends) \<Longrightarrow> triple T (pinned u t) (before (engine_try f) k) ends"
  unfolding engine_try_def before_push
  by (intro pinned_cached) (auto split: sum.split intro: pinned_put ends_fail_before)

lemma triple_any_change:
  assumes "\<And>a. a_id (f a) = a_id a \<and> a_version (f a) = a_version a \<and> a_cached (f a) = a_cached a"
    and "triple T (dirty R) k Q"
  shows "triple T (dirty R) (before (change f) k) Q"
proof (rule tripleI)
  fix H and a :: "'a actor" assume "dirty R H a"
  then have "dirty R H (f a)" using assms(1) by (simp add: dirty_in_def)
  from tripleD [OF assms(2) this]
  show "wp T (before (change f) k a) (\<lambda>H (r, a'). a_id a' = a_id a \<and> Q (a_version a) r H a') H"
    using assms(1) by (simp add: wp_before_change)
qed

lemma pinned_start:
  assumes "\<And>t'. deals t t' \<Longrightarrow> S u t'" and "triple T (dirty S) k ends"
  shows "triple T (pinned u t) (before (start_new_hand T) k) ends"
proof -
  have refused: "triple T (pinned u t) (before (put_table t') k) ends"
    if "start_hand seed draws t = Some (Inl (e, t'))" for seed draws e t'
    using assms(1) deals.refused [OF that] by (intro pinned_put triple_unpin [OF _ assms(2)])
  have dealt: "triple T (pinned u t) (before (put_table t') (ulid (\<lambda>hand_id.
      before (change (\<lambda>a. a\<lparr>a_hand_id := hand_id\<rparr>)) (before (prune_preselections T) k)))) ends"
    if "start_hand seed draws t = Some (Inr t')" for seed draws t'
    using assms(1) deals.dealt [OF that]
    by (intro pinned_put triple_unpin [where S = S] triple_ulid stable_dirty triple_any_change
        triple_before_ends [OF checks_prune assms(2)]) simp_all
  show ?thesis
    unfolding start_new_hand_def before_push
    by (intro pinned_cached triple_entropy stable_pinned)
      (auto simp: before_push case_prod_beta intro!: triple_total outcome_panic refused dealt split: sum.split)
qed

lemma pinned_try_start:
  assumes "\<And>t'. tries_to_deal t t' \<Longrightarrow> S u t'" and "triple T (dirty S) k ends"
  shows "triple T (pinned u t) (before (try_start_hand T) k) ends"
proof -
  have "triple T (pinned u t) (before (if t_stage t = WaitingForPlayers then start_new_hand T else skip) k) ends"
  proof (cases "t_stage t = WaitingForPlayers")
    case True
    then show ?thesis using pinned_start [OF _ assms(2)] assms(1) tries_to_deal.between_hands by simp
  next
    case False
    then show ?thesis using triple_unpin [OF _ assms(2)] assms(1) tries_to_deal.mid_hand by (simp add: before_push)
  qed
  then show ?thesis unfolding try_start_hand_def before_push by (rule pinned_cached)
qed

lemma pinned_commit: "table_op T e u t \<Longrightarrow> aid = le_action_id e \<Longrightarrow> triple T (pinned u t) (commit T aid e extra) ends"
  by (rule triple_unpin [where S = "table_op T e"]) (auto intro: ends_commit)

lemma pinned_commit_plain:
  "table_op T (log_entry pid aid w) u t \<Longrightarrow> triple T (pinned u t) (commit_plain T pid aid w) ends"
  unfolding commit_plain_def by (rule pinned_commit) (simp_all add: log_entry_def)

lemma ends_commit_row: "triple T (dirty (table_op T (log_entry pid aid w))) (commit_plain T pid aid w) ends"
  by (rule ends_commit_plain)

section \<open>The bodies of the handlers\<close>

lemmas row_simps = log_entry_def note_rows_def

lemma checks_note: "triple T (dirty R) note_change (checks R)"
  unfolding note_change_def by (rule checks_change) (simp add: same_cache_def)

lemma pinned_note: "triple T (pinned u t) k Q \<Longrightarrow> triple T (pinned u t) (before note_change k) Q"
  unfolding note_change_def by (rule triple_change) (simp_all add: same_cache_def)

lemmas body_intros = triple_before_ends [OF checks_require_seated] triple_before_ends [OF checks_mark_last_action]
  triple_before_ends [OF checks_note] triple_pin pinned_note pinned_cached pinned_put pinned_engine pinned_engine_opt
  pinned_engine_try pinned_commit_plain pinned_commit triple_look triple_let triple_prod triple_if triple_clock
  triple_fail(2) triple_skip(2) triple_total stable_dirty stable_pinned outcome_panic

lemma map_sum_eq_Inr: "map_sum id snd x = Inr w \<Longrightarrow> \<exists>v. x = Inr (v, w)"
  by (cases x) auto

lemma ends_sit_out: "triple T loaded (before (require_seated pid) (before (mark_last_action pid)
    (before (engine_opt (sit_out T pid)) (commit_plain T pid '''' ''sit_out'')))) ends"
  by (intro body_intros table_op.sat_out) (auto simp: row_simps)

lemma ends_keep_seat: "triple T loaded (before (require_seated pid) (before (mark_last_action pid)
    (commit_plain T pid aid ''keep_seat''))) ends"
  by (intro body_intros table_op.noted) (auto simp: row_simps)

lemma keeps_peek: "triple T loaded (before (require_seated pid) (commit_plain T pid aid ''peek_cards'')) keeps"
  unfolding commit_plain_def
  by (intro triple_before_keeps checks_keeps [OF checks_require_seated] commits_keeps [OF triple_commit])
    (auto simp: row_simps intro: table_op.noted)

lemma ends_show_cards: "triple T loaded (cached (\<lambda>t.
     case reveal_hole_card pid index t of
       Inl e \<Rightarrow> fail (EngineErr e)
     | Inr (applied, t') \<Rightarrow> before (put_table t')
         (if \<not> applied then skip else before note_change (commit_plain T pid aid ''show_cards'')))) ends"
proof (rule triple_cached)
  fix t :: table
  show "triple T (holding (=) t) (case reveal_hole_card pid index t of
       Inl e \<Rightarrow> fail (EngineErr e)
     | Inr (applied, t') \<Rightarrow> before (put_table t')
         (if \<not> applied then skip else before note_change (commit_plain T pid aid ''show_cards''))) ends"
  proof (cases "reveal_hole_card pid index t")
    case (Inr res)
    obtain applied t' where r: "res = (applied, t')" by force
    show ?thesis
    proof (cases applied)
      case True
      then show ?thesis
        using Inr r table_op.showed [of "log_entry pid aid ''show_cards''"]
        by (auto simp: row_simps intro!: triple_apply [where S = "table_op T (log_entry pid aid ''show_cards'')"]
            triple_before_ends [OF checks_note] ends_commit_row)
    next
      case False
      then show ?thesis
        using Inr r by simp (rule triple_put_quiet [OF quiet_once [OF quiet_step.reshown]], auto intro: triple_holding triple_skip(2))
    qed
  qed (simp add: triple_fail)
qed

lemma hunted_row: "map_sum id snd (request_rabbit_hunt pid slot t) = Inr t' \<Longrightarrow>
    table_op T (log_entry pid aid ''request_rabbit_hunt'') t t'"
  by (drule map_sum_eq_Inr) (auto intro: table_op.hunted simp: row_simps)

lemma ends_hunt: "triple T loaded (before (engine_try (\<lambda>t. map_sum id snd (request_rabbit_hunt pid slot t)))
    (before note_change (commit_plain T pid aid ''request_rabbit_hunt''))) ends"
  by (intro body_intros hunted_row)

lemma ends_hunt_refund: "triple T loaded (before (engine_try (refund_rabbit_hunt pid slot))
    (before note_change (commit_plain T pid aid ''rabbit_hunt_verify_failed''))) ends"
  by (intro body_intros, rule table_op.hunt_refunded [where slot = slot]) (auto simp: row_simps)

lemma ends_request_exit: "triple T loaded (before (require_seated pid) (before (mark_last_action pid)
    (before (cached (\<lambda>t. total (request_exit T pid t) (\<lambda>res.
       case res of Inl e \<Rightarrow> fail (EngineErr e) | Inr t' \<Rightarrow> put_table t')))
    (before note_change (commit_plain T pid aid ''request_exit''))))) ends"
  unfolding before_push
  by (intro body_intros triple_sum ends_fail_before table_op.exit_requested) (auto simp: row_simps)

lemma ends_cancel_exit: "triple T loaded (before (require_seated pid) (before (mark_last_action pid)
    (before (engine_try (cancel_exit pid)) (before note_change (before (try_start_hand T)
    (commit_plain T pid aid ''cancel_exit'')))))) ends"
  by (intro body_intros pinned_try_start [OF _ ends_commit_row] table_op.exit_cancelled) (auto simp: row_simps)

lemma ends_request_cards: "triple T loaded (cached (\<lambda>t. clock (\<lambda>now.
       let (res, t') = request_winner_cards pid (unix_milli now) t
       in before (put_table t')
            (case res of
               Inl e \<Rightarrow> fail (EngineErr e)
             | Inr _ \<Rightarrow> before note_change (commit_plain T pid aid ''request_winner_cards''))))) ends"
  unfolding Let_def
  by (intro body_intros triple_sum, rule table_op.cards_requested) (auto simp: row_simps)

lemma ends_answer:
  assumes "\<And>now t t'. answer now t = (None, t') \<Longrightarrow> table_op T (log_entry pid aid w) t t'"
  shows "triple T loaded (cached (\<lambda>t. clock (\<lambda>now.
       let (res, t') = answer (unix_milli now) t
       in before (put_table t')
            (case res of
               Some e \<Rightarrow> fail (EngineErr e)
             | None \<Rightarrow> before note_change (commit_plain T pid aid w))))) ends"
  unfolding Let_def
  by (intro body_intros triple_option, rule assms) simp

lemma ends_post_blind: "triple T loaded (before (require_seated pid) (before (engine (mark_ready_to_post pid))
    (commit_plain T pid aid ''post_big_blind''))) ends"
  using table_op.posts_blind [of "log_entry pid aid ''post_big_blind''" T]
  by (intro body_intros) (simp add: row_simps)

lemma ends_ready: "triple T loaded (before (require_seated pid) (before (mark_last_action pid)
    (before (engine (set_ready pid ready))
    (if ready
     then before (engine (request_return pid)) (before (try_start_hand T) (commit_plain T pid aid ''ready''))
     else before (engine_opt (sit_out T pid)) (commit_plain T pid aid ''not_ready''))))) ends"
  by (intro body_intros pinned_try_start [OF _ ends_commit_row])
    (auto simp: row_simps intro: table_op.got_ready table_op.not_ready)

lemma ends_escalate: "triple T loaded (look (\<lambda>a.
    before (engine (escalate_blinds (a_escalation_multiplier a) (a_escalation_max a)))
           (commit_plain T '''' '''' ''escalate_blinds''))) ends"
  using table_op.escalated [of "log_entry '''' '''' ''escalate_blinds''" T]
  by (intro body_intros) (simp add: row_simps)

lemma ends_chat: "same_cache f \<Longrightarrow> le_action e \<in> note_rows \<Longrightarrow> aid = le_action_id e \<Longrightarrow>
  triple T loaded (before (change f) (commit T aid e extra)) ends"
  by (intro triple_before_ends [OF checks_change] ends_commit) (auto intro: table_op.noted)

section \<open>The shapes of the handlers\<close>

lemma triple_command: "triple T loaded k keeps \<Longrightarrow> triple T coherent (before (ensure_loaded force) k) settles"
  by (intro triple_open_before triple_ensure_loaded keeps_settles)

lemma keeps_if_changed: "triple T loaded m keeps \<Longrightarrow> triple T loaded (if_changed m) keeps"
  unfolding if_changed_def by (intro triple_look triple_if triple_skip)

lemma keeps_forget: "triple T loaded forget_change keeps"
  unfolding forget_change_def by (rule keeps_change) (simp add: same_cache_def)

lemma settles_answer: "triple T loaded body ends \<Longrightarrow> triple T coherent (answer_if_changed T n body) settles"
  unfolding answer_if_changed_def
  by (intro triple_command triple_before_keeps keeps_forget keeps_accept_duplicate keeps_retry triple_mutate
      keeps_if_changed keeps_broadcast)

lemma triple_cached_coherent:
  assumes "\<And>t. triple T (holding (=) t) (f t) Q" and "\<And>v H a. Q v Panic H a"
  shows "triple T coherent (cached f) Q"
proof (rule tripleI)
  fix H and a :: "'a actor" assume "coherent H a"
  then show "wp T (cached f a) (\<lambda>H (r, a'). a_id a' = a_id a \<and> Q (a_version a) r H a') H"
    using tripleD [OF assms(1), of _ H a] assms(2)
    by (auto simp: coherent_def cached_def holding_in_def panic_def split: option.split)
qed

lemma settles_emit: "triple T coherent (emit e) settles"
  by (auto intro!: tripleI simp: emit_def change_def settles_def coherent_def dirty_in_def)

lemma triple_coherent: "triple T coherent m Q \<Longrightarrow> triple T (holding_in K (=) t) m Q"
  by (erule triple_pre) (auto simp: holding_in_def dirty_in_def coherent_def)

lemmas loop_intros = triple_command triple_before_keeps keeps_retry triple_mutate keeps_accept_duplicate keeps_broadcast
  keeps_forget keeps_if_changed

lemma settles_sit_out: "triple T coherent (handle_sit_out T n pid) settles"
  unfolding handle_sit_out_def by (intro loop_intros ends_sit_out)

lemma settles_keep_seat: "triple T coherent (handle_keep_seat T n pid aid) settles"
  unfolding handle_keep_seat_def by (intro loop_intros ends_keep_seat)

lemma settles_peek_cards: "triple T coherent (handle_peek_cards T pid aid) settles"
  unfolding handle_peek_cards_def by (intro loop_intros(1) keeps_accept_duplicate keeps_retry keeps_peek)

lemma settles_show_cards: "triple T coherent (handle_show_cards T n pid aid index) settles"
  unfolding handle_show_cards_def if_changed_def
  by (intro triple_before_settles settles_answer ends_show_cards triple_look triple_if triple_cached_coherent triple_option
      triple_coherent triple_settles settles_emit settles_panic)

lemma settles_hunt: "triple T coherent (handle_request_rabbit_hunt T n pid aid slot) settles"
  unfolding handle_request_rabbit_hunt_def by (intro settles_answer ends_hunt)

lemma settles_hunt_refund: "triple T coherent (handle_rabbit_hunt_verify_failed T n pid aid slot) settles"
  unfolding handle_rabbit_hunt_verify_failed_def by (intro settles_answer ends_hunt_refund)

lemma settles_request_exit: "triple T coherent (handle_request_exit T n pid aid) settles"
  unfolding handle_request_exit_def by (intro settles_answer ends_request_exit)

lemma settles_cancel_exit: "triple T coherent (handle_cancel_exit T n pid aid) settles"
  unfolding handle_cancel_exit_def by (intro settles_answer ends_cancel_exit)

lemma settles_request_cards: "triple T coherent (handle_request_winner_cards T n pid aid) settles"
  unfolding handle_request_winner_cards_def by (intro settles_answer ends_request_cards)

lemma settles_accept_cards: "triple T coherent (handle_accept_winner_cards T n pid aid) settles"
  unfolding handle_accept_winner_cards_def apply_winner_cards_answer_def
  by (intro settles_answer ends_answer table_op.cards_accepted) (auto simp: row_simps)

lemma settles_decline_cards: "triple T coherent (handle_decline_winner_cards T n pid aid) settles"
  unfolding handle_decline_winner_cards_def apply_winner_cards_answer_def
  by (intro settles_answer ends_answer table_op.cards_declined) (auto simp: row_simps)

lemma settles_post_blind: "triple T coherent (handle_post_big_blind T n pid aid) settles"
  unfolding handle_post_big_blind_def by (intro loop_intros ends_post_blind)

lemma settles_ready: "triple T coherent (handle_ready T n pid aid ready) settles"
  unfolding handle_ready_def by (intro loop_intros ends_ready)

lemma settles_escalate: "triple T coherent (handle_escalate T n) settles"
  unfolding handle_escalate_def by (intro loop_intros ends_escalate)

section \<open>The other handlers\<close>

lemma expire_none: "expire_winner_cards now t = (False, t') \<Longrightarrow> t' = t"
  by (auto simp: expire_winner_cards_def expire_pending_winner_cards_def refund_pending_winner_cards_def Let_def split: if_splits list.splits)

lemma run_twice_none: "set_player_run_it_twice pid b t = (t', False) \<Longrightarrow> t' = t"
  by (auto simp: set_player_run_it_twice_def Let_def split: if_splits option.splits)

lemma identity_none: "set_player_identity pid n w g t = (t', False) \<Longrightarrow> t' = t"
  by (auto simp: set_player_identity_def Let_def split: if_splits option.splits)

lemma ends_maybe:
  assumes "\<And>t t'. f t = (t', True) \<Longrightarrow> table_op T (log_entry pid aid w) t t'" and "\<And>t t'. f t = (t', False) \<Longrightarrow> t' = t"
    and "m = commit_plain T pid aid w \<or> m = before note_change (commit_plain T pid aid w)"
  shows "triple T (holding (=) t) (case f t of (t', changed) \<Rightarrow> before (put_table t') (if changed then m else skip)) ends"
proof (cases "f t")
  case (Pair t' changed)
  show ?thesis
  proof (cases changed)
    case True
    then show ?thesis
      using Pair assms(1,3)
      by (auto intro!: triple_apply [where S = "table_op T (log_entry pid aid w)"] triple_before_ends [OF checks_note] ends_commit_row)
  next
    case False
    then show ?thesis
      using Pair assms(2) [of t t'] by simp (rule triple_put_quiet [OF rtranclp.rtrancl_refl], auto intro: triple_holding triple_skip(2))
  qed
qed

lemma ends_expire: "triple T loaded (cached (\<lambda>t. clock (\<lambda>now.
    let (expired, t') = expire_winner_cards (unix_milli now) t
    in before (put_table t')
         (if expired then before note_change (commit_plain T '''' '''' ''expire_winner_cards'') else skip)))) ends"
proof (intro triple_cached triple_clock stable_holding)
  fix t now
  have "triple T (holding (=) t) (case prod.swap (expire_winner_cards (unix_milli now) t) of (t', expired) \<Rightarrow> before (put_table t')
    (if expired then before note_change (commit_plain T '''' '''' ''expire_winner_cards'') else skip)) ends"
    by (rule ends_maybe [where f = "\<lambda>t. prod.swap (expire_winner_cards (unix_milli now) t)" and pid = "''''" and aid = "''''"])
      (auto simp: row_simps prod.swap_def prod_eq_iff intro: table_op.cards_expired expire_none)
  then show "triple T (holding (=) t) (let (expired, t') = expire_winner_cards (unix_milli now) t in before (put_table t')
    (if expired then before note_change (commit_plain T '''' '''' ''expire_winner_cards'') else skip)) ends"
    by (simp add: case_prod_beta)
qed

lemma settles_expire: "triple T coherent (handle_expire_winner_cards T n) settles"
  unfolding handle_expire_winner_cards_def
  by (intro loop_intros triple_attempt_keeps triple_sum triple_skip triple_if triple_fail keeps_ensure_loaded ends_expire)

lemma ends_run_twice: "triple T loaded (before (require_seated pid)
    (cached (\<lambda>t. let (t', changed) = set_player_run_it_twice pid enabled t
       in before (put_table t')
            (if changed then before note_change (commit_plain T pid '''' ''set_run_it_twice'') else skip)))) ends"
  unfolding Let_def
  by (intro body_intros(1) triple_cached ends_maybe) (auto simp: row_simps intro: table_op.ran_twice run_twice_none)

lemma settles_run_twice: "triple T coherent (handle_set_run_it_twice T n pid enabled) settles"
  unfolding handle_set_run_it_twice_def by (intro loop_intros ends_run_twice)

lemma ends_identity: "triple T loaded (cached (\<lambda>t.
    let (t', changed) = set_player_identity pid name avatar badge t
    in before (put_table t') (if changed then commit_plain T pid '''' ''set_identity'' else skip))) ends"
  unfolding Let_def
  by (intro triple_cached ends_maybe) (auto simp: row_simps intro: table_op.identified identity_none)

lemma settles_identity: "triple T coherent (handle_set_identity T n pid name avatar badge) settles"
  unfolding handle_set_identity_def by (intro triple_if triple_settles loop_intros ends_identity)

lemma settles_activity: "triple T loaded m ends \<Longrightarrow> triple T coherent (commit_activity T n b (mutate m)) settles"
  unfolding commit_activity_def by (intro loop_intros triple_if triple_skip)

lemma settles_chat: "triple T coherent (handle_chat T n pid aid msg) settles"
  unfolding handle_chat_def
  by (intro triple_if triple_settles settles_activity body_intros(1,2) triple_clock stable_dirty ends_chat)
    (auto simp: same_cache_def row_simps)

lemma triple_hook:
  assumes "stable P" and "\<And>r. triple T P (f r) Q"
  shows "triple T P (\<lambda>a. Hook c (\<lambda>r. f r a)) Q"
  using assms(1) by (auto intro!: tripleI tripleD [OF assms(2)] dest: stableD)

lemma triple_reply:
  assumes "triple T P (m True) Q" "triple T P (m False) Q" "triple T P m' Q"
  shows "triple T P (case r of HookAnswer True \<Rightarrow> m True | HookAnswer False \<Rightarrow> m False | _ \<Rightarrow> m') Q"
  using assms by (auto split: hook_reply.split bool.split)

lemma triple_usage:
  assumes "\<And>extra. triple T loaded (f extra) ends"
  shows "triple T loaded (reaction_usage pid rid f) ends"
proof -
  have "triple T loaded (case r of HookItem (Some i) \<Rightarrow> f [i] | HookItem None \<Rightarrow> f [] | _ \<Rightarrow> fail HookErr) ends" for r
    using assms by (auto intro: triple_fail split: hook_reply.split option.split)
  then show ?thesis
    unfolding reaction_usage_def by (intro triple_if assms triple_look triple_fail triple_hook stable_dirty)
qed

lemma triple_owned:
  assumes "triple T coherent m settles"
  shows "triple T coherent (reaction_owned pid rid m) settles"
proof -
  have "triple T coherent (case r of HookAnswer True \<Rightarrow> m | HookAnswer False \<Rightarrow> fail ReactionNotOwned | _ \<Rightarrow> fail HookErr) settles" for r
    using assms by (auto intro: triple_settles split: hook_reply.split bool.split)
  then show ?thesis
    unfolding reaction_owned_def by (intro triple_if assms triple_look triple_settles triple_hook stable_coherent)
qed

lemma checks_target: "triple T (dirty R) (look (\<lambda>a. if b a then fail InvalidTarget else skip)) (checks R)"
  by (intro triple_look triple_if triple_fail triple_skip)

lemma settles_reaction: "triple T coherent (handle_reaction T n pid aid rid target) settles"
  unfolding handle_reaction_def
  by (intro triple_if triple_settles triple_owned settles_activity body_intros(1,2) triple_before_ends [OF checks_target]
      triple_usage triple_clock stable_dirty ends_chat)
    (auto simp: same_cache_def row_simps)

lemma ends_preselect_tail:
  assumes "le_action e \<in> note_rows" and "aid = le_action_id e"
  shows "triple T loaded (before (change (\<lambda>a. set_preselections (f a) a)) (before (mark_last_action pid) (commit T aid e extra))) ends"
  using assms
  by (intro triple_before_ends [OF checks_change] body_intros(2) ends_commit)
    (auto simp: same_cache_def set_preselections_def intro: table_op.noted)

lemma checks_current: "triple T (dirty R) (look (\<lambda>a. if b a then skip else fail StaleActionState)) (checks R)"
  by (intro triple_look triple_if triple_fail triple_skip)

lemma settles_preselect: "triple T coherent (handle_preselect T n c) settles"
  unfolding handle_preselect_def Let_def
  by (intro triple_if triple_settles settles_activity body_intros(1) triple_cached triple_total triple_prod outcome_panic
      triple_put_quiet triple_holding triple_before_ends [OF checks_current] triple_fail ends_preselect_tail)
    (auto simp: view_quiet_step row_simps)

section \<open>Acting\<close>

lemma keeps_precondition: "triple T loaded (validate_action_precondition c) keeps"
  unfolding validate_action_precondition_def
  by (intro triple_if triple_skip triple_fail triple_before_keeps triple_look keeps_ensure_loaded)

lemma settles_act: "triple T coherent (handle_act T n c) settles"
  unfolding handle_act_def Let_def
  by (intro triple_command triple_before_keeps keeps_precondition checks_keeps [OF checks_mark_last_action] triple_then_keeps
      triple_attempt keeps_apply_act triple_sum triple_look triple_if keeps_ensure_loaded triple_ok triple_fail triple_skip
      keeps_outcome_log keeps_broadcast)

lemma keeps_apply_timeout: "triple T loaded (apply_timeout T pid) keeps"
  unfolding apply_timeout_def
  by (intro triple_look triple_cached triple_total outcome_panic triple_holding triple_attempt keeps_apply_act)

lemma ends_disconnect: "triple T loaded (consume_time_bank_of T pid (\<lambda>spent.
    before (engine_opt (sit_out T pid))
      (commit T '''' ((log_entry pid '''' ''disconnect_sit_out'')\<lparr>le_time_bank_ms := spent\<rparr>) []))) ends"
  by (intro triple_consume_time_bank outcome_panic triple_pin pinned_engine_opt pinned_commit table_op.sat_out)
    (auto simp: row_simps)

lemma settles_turn_timeout: "triple T coherent (handle_turn_timeout T n pid) settles"
  unfolding handle_turn_timeout_def
  by (intro triple_command triple_cached triple_total outcome_panic triple_look triple_holding triple_if triple_skip
      triple_attempt_keeps triple_mutate ends_disconnect triple_before_keeps triple_sum keeps_ensure_loaded triple_fail
      keeps_broadcast triple_then_keeps keeps_apply_timeout)

section \<open>The next hand, the runout and joining\<close>

lemma settles_quiet: "same_cache f \<Longrightarrow> triple T coherent k settles \<Longrightarrow> triple T coherent (before (change f) k) settles"
  by (rule triple_change) simp_all

lemma retry_next: "triple T coherent (retry_next_hand e) settles" "triple T loaded (retry_next_hand e) keeps"
  unfolding retry_next_hand_def
  by (intro triple_look triple_if triple_clock stable_coherent settles_quiet triple_settles; simp add: same_cache_def)
    (intro triple_look triple_if triple_clock stable_dirty triple_change about_cache_preds triple_fail; simp add: same_cache_def)

lemma retry_runout: "triple T coherent (retry_runout_step e) settles" "triple T loaded (retry_runout_step e) keeps"
  unfolding retry_runout_step_def
  by (intro triple_look triple_if triple_clock stable_coherent settles_quiet triple_settles; simp add: same_cache_def)
    (intro triple_look triple_if triple_clock stable_dirty triple_change about_cache_preds triple_fail; simp add: same_cache_def)

lemma keeps_settle_failed:
  "(\<And>e. triple T loaded (retry e) keeps) \<Longrightarrow> triple T loaded (settle_failed retry r) keeps"
  unfolding settle_failed_def
  by (intro triple_sum triple_skip triple_if triple_attempt_keeps keeps_ensure_loaded)

lemma keeps_save_history: "triple T loaded save_hand_history_snapshot keeps"
proof -
  have "triple T (holding (=) t) (\<lambda>a. io_bind (save_table_state_history (a_id a) s (export_state t)) (\<lambda>_. Return (Ok (), a))) keeps" for t s
    by (rule tripleI) (auto simp: save_table_state_history_def keeps_def holding_in_def dest: stableD [OF stable_dirty])
  then show ?thesis
    unfolding save_hand_history_snapshot_def by (intro triple_clock stable_dirty triple_cached)
qed

lemma keeps_remove_idle: "triple T loaded (remove_idle_players_between_hands T n) keeps"
  unfolding remove_idle_players_between_hands_def remove_idle_players_def
  by (intro triple_clock stable_dirty triple_look triple_cached triple_holding keeps_each keeps_remove_by_system keeps_broadcast)

lemma ends_next_hand: "triple T loaded (before (start_new_hand T) (commit_plain T '''' '''' ''next_hand'')) ends"
  by (intro triple_pin pinned_start [OF _ ends_commit_row] table_op.next_dealt) (auto simp: row_simps)

lemma settles_next_hand: "triple T coherent (handle_next_hand T n) settles"
proof -
  have settled: "triple T loaded (change (\<lambda>a. a\<lparr>a_next_hand_retries := 0\<rparr>)) keeps"
    by (rule keeps_change) (simp add: same_cache_def)
  show ?thesis
    unfolding handle_next_hand_def Let_def
    by (intro settles_quiet triple_attempt_opens triple_ensure_loaded; (simp add: retry_next(1))?)
      (auto simp: same_cache_def intro!: keeps_settles triple_cached triple_holding settled triple_before_keeps keeps_save_history
        keeps_remove_idle triple_attempt_keeps triple_mutate ends_next_hand keeps_settle_failed retry_next(2) keeps_broadcast)
qed

lemma ends_runout: "triple T loaded (before (engine_opt (advance_runout_street T)) (commit_plain T '''' '''' ''runout_step'')) ends"
  by (intro body_intros table_op.ran_out) (auto simp: row_simps)

lemma settles_runout: "triple T coherent (handle_runout_step T n) settles"
proof -
  have settled: "triple T loaded (change (\<lambda>a. a\<lparr>a_runout_retries := 0\<rparr>)) keeps"
    by (rule keeps_change) (simp add: same_cache_def)
  show ?thesis
    unfolding handle_runout_step_def Let_def
    by (intro settles_quiet triple_attempt_opens triple_ensure_loaded; (simp add: retry_runout(1))?)
      (auto simp: same_cache_def intro!: keeps_settles triple_cached triple_holding settled triple_before_keeps
        triple_attempt_keeps triple_mutate ends_runout keeps_settle_failed retry_runout(2) keeps_outcome_log keeps_broadcast)
qed

lemma before_if: "before (if b then m else m') k = (if b then before m k else before m' k)"
  by simp

lemma ends_join:
  assumes "le_action e = ''join''" "p_id p = le_player_id e" "aid = le_action_id e"
  shows "triple T (pinned t t) (before (engine_try (seat_joiner p))
    (before (if t_stage t = WaitingForPlayers then try_start_hand T else skip) (commit T aid e extra))) ends"
proof (intro pinned_engine_try)
  fix u assume u: "seat_joiner p t = Inr u"
  show "triple T (pinned t u) (before (if t_stage t = WaitingForPlayers then try_start_hand T else skip) (commit T aid e extra)) ends"
  proof (cases "t_stage t = WaitingForPlayers")
    case True
    then have "table_op T e t t'" if "tries_to_deal u t'" for t'
      using table_op.joined [OF assms(1,2) u, of t'] that by simp
    then show ?thesis
      using True assms(3) by (auto intro!: pinned_try_start [where S = "table_op T e"] ends_commit)
  next
    case False
    then have "table_op T e t u" using table_op.joined [OF assms(1,2) u, of u] by simp
    then show ?thesis using False assms(3) by (simp add: before_push pinned_commit)
  qed
qed

lemma ends_join_failed:
  "triple T (pinned t t) (before (engine_try f) (before (if b then try_start_hand T else skip) (fail e))) ends"
  by (rule pinned_engine_try, cases b)
    (auto simp: before_push intro!: pinned_try_start [where S = "\<lambda>_ _. True"] triple_fail)

lemma ends_join_body: "triple T (pinned t t) (clock (\<lambda>now.
    before (engine_try (seat_joiner (joining_player c now)))
   (before (if t_stage t = WaitingForPlayers then try_start_hand T else skip)
     (case jn_settlement_intent c of
        Some None \<Rightarrow> fail IntentFailed
      | Some (Some i) \<Rightarrow> commit T '''' (log_entry (jn_player_id c) '''' ''join'') [i]
      | None \<Rightarrow> commit_plain T (jn_player_id c) '''' ''join'')))) ends"
proof (intro triple_clock stable_pinned)
  fix now
  have join: "triple T (pinned t t) (before (engine_try (seat_joiner (joining_player c now)))
    (before (if t_stage t = WaitingForPlayers then try_start_hand T else skip)
      (commit T '''' (log_entry (jn_player_id c) '''' ''join'') extra))) ends" for extra
    by (rule ends_join) (simp_all add: row_simps joining_player_def)
  show "triple T (pinned t t) (before (engine_try (seat_joiner (joining_player c now)))
   (before (if t_stage t = WaitingForPlayers then try_start_hand T else skip)
     (case jn_settlement_intent c of
        Some None \<Rightarrow> fail IntentFailed
      | Some (Some i) \<Rightarrow> commit T '''' (log_entry (jn_player_id c) '''' ''join'') [i]
      | None \<Rightarrow> commit_plain T (jn_player_id c) '''' ''join''))) ends"
  proof (cases "jn_settlement_intent c")
    case None
    then show ?thesis using join by (simp only: option.case commit_plain_def)
  next
    case (Some intent)
    then show ?thesis using join ends_join_failed by (cases intent) (simp_all only: option.case)
  qed
qed

lemma holding_pinned: "holding (=) t H a \<Longrightarrow> pinned t t H a"
  by (auto simp: pinned_def holding_in_def dirty_in_def)

lemma keeps_apply_join: "triple T loaded (apply_join_and_commit T c) keeps"
  unfolding apply_join_and_commit_def
  by (intro triple_cached triple_if triple_holding [OF triple_fail(1)]
      triple_mutate_from [OF triple_pre [OF ends_join_body holding_pinned]]) (auto simp: holding_in_def)

lemma settles_join: "triple T coherent (handle_join T n c) settles"
  unfolding handle_join_def by (intro triple_command triple_before_keeps keeps_retry keeps_apply_join keeps_notify_seats keeps_broadcast)

section \<open>Presence\<close>

lemma settles_handle_leave: "triple T coherent (handle_leave T n c) settles"
  unfolding handle_leave_def
  by (intro triple_then_settles settles_leave keeps_broadcast triple_settles)

lemma settles_sync: "triple T coherent (sync T n publish) settles"
proof (rule tripleI)
  fix H and a :: "'a actor" assume c: "coherent H a"
  show "wp T (sync T n publish a) (\<lambda>H (r, a'). a_id a' = a_id a \<and> settles (a_version a) r H a') H"
  proof (cases "a_cached a")
    case None
    then show ?thesis using c by (cases n) (simp_all add: sync_then_def look_def skip_def ok_def settles_def)
  next
    case (Some t)
    then have "loaded H a" using c by (simp add: coherent_def)
    then show ?thesis by (rule tripleD [OF keeps_settles [OF keeps_sync]])
  qed
qed

lemma settles_broadcast: "triple T coherent (broadcast_all T n) settles"
  unfolding broadcast_all_def by (rule settles_sync)

lemma settles_change: "same_cache f \<Longrightarrow> triple T coherent (change f) settles"
  by (rule triple_change_last) (auto intro: triple_settles)

lemma settles_clear_mark:
  "(\<And>b. triple T coherent (f b) settles) \<Longrightarrow> triple T coherent (clear_disconnect_mark pid f) settles"
  unfolding clear_disconnect_mark_def by (intro triple_look settles_quiet) (simp_all add: same_cache_def)

lemma settles_connect: "triple T coherent (handle_connect T n pid conn) settles"
  unfolding handle_connect_def
  by (intro triple_if triple_settles settles_quiet settles_clear_mark settles_broadcast) (simp add: same_cache_def)

lemma settles_disconnect: "triple T coherent (handle_disconnect T n pid conn) settles"
  unfolding handle_disconnect_def
  by (intro triple_look triple_if triple_settles settles_quiet triple_clock stable_coherent settles_broadcast; simp add: same_cache_def)

lemma settles_reconnect: "triple T coherent (handle_reconnect T n pid) settles"
  unfolding handle_reconnect_def
  by (rule triple_open_before [OF triple_ensure_loaded], rule triple_pre [OF settles_clear_mark])
    (auto intro: triple_settles settles_broadcast loaded_coherent)

lemma settles_external_change: "triple T coherent (handle_external_change T n) settles"
  unfolding handle_external_change_def by (intro triple_command keeps_sync)

lemma settles_kick: "triple T coherent (kick_player T n pid) settles"
proof -
  have after: "triple T coherent (case r of
      Inr (stack, hold_id) \<Rightarrow> emit (PlayerRemoved pid ''disconnected'' nonce stack hold_id)
    | Inl (EngineErr (PlayerNotFound _)) \<Rightarrow> change (\<lambda>a. a\<lparr>a_disconnected_since := (a_disconnected_since a)(pid := None)\<rparr>)
    | Inl e \<Rightarrow> before (arm_kick_retry pid) (fail e)) settles" for r nonce
  proof -
    have retry: "triple T coherent (before (arm_kick_retry pid) (fail e)) settles" for e
      unfolding arm_kick_retry_def
      by (intro triple_before_settles triple_clock stable_coherent settles_change triple_settles) (simp add: same_cache_def)
    show ?thesis
      by (auto intro!: settles_emit settles_change retry simp: same_cache_def split: sum.split actor_error.split hand_error.split)
  qed
  show ?thesis
    unfolding kick_player_def
    by (intro settles_quiet triple_ulid stable_coherent triple_look triple_attempt_settles settles_leave keeps_broadcast after)
      (simp add: same_cache_def)
qed

lemma settles_kick_timeout: "triple T coherent (handle_kick_timeout T n pid) settles"
proof -
  have kick: "triple T loaded (kick_player T n pid) settles" by (rule triple_pre [OF settles_kick]) (rule loaded_coherent)
  have clear: "triple T loaded (clear_disconnect_mark pid (\<lambda>_. broadcast_all T n)) settles"
    by (rule triple_pre [OF settles_clear_mark [OF settles_broadcast]]) (rule loaded_coherent)
  show ?thesis
    unfolding handle_kick_timeout_def
    by (intro triple_look triple_if triple_settles triple_attempt_opens triple_ensure_loaded; simp add: triple_settles)
      (intro triple_look triple_option triple_if triple_clock stable_dirty kick clear)
qed

lemma settles_afk_sweep: "triple T coherent (handle_afk_sweep T n) settles"
proof -
  have "triple T loaded (before rearm_timers_from_cache (clock (\<lambda>now. look (\<lambda>a. cached (\<lambda>t.
      each (remove_by_system (broadcast_all T n) T ''idle'') (afk_seats now a t)))))) keeps"
    by (intro triple_before_keeps checks_keeps [OF checks_rearm] triple_clock stable_dirty triple_look triple_cached
        triple_holding keeps_each keeps_remove_by_system keeps_broadcast)
  then have sweep: "triple T coherent (and_then (attempt (ensure_loaded False)) (\<lambda>r. case r of Inl _ \<Rightarrow> skip | Inr _ \<Rightarrow>
      before rearm_timers_from_cache (clock (\<lambda>now. look (\<lambda>a. cached (\<lambda>t.
        each (remove_by_system (broadcast_all T n) T ''idle'') (afk_seats now a t))))))) settles"
    by (intro triple_attempt_opens triple_ensure_loaded; simp add: triple_settles) (rule keeps_settles)
  show ?thesis
    unfolding handle_afk_sweep_def deferring_def
    by (rule tripleI, unfold wp_bind, rule wp_mono [OF tripleD [OF sweep]], assumption)
      (auto simp: arm_afk_sweep_timer_def clock_def change_def settles_def coherent_def dirty_in_def intro: comes_from_grows)
qed

lemma settles_snapshot: "triple T coherent (handle_snapshot T pid allow_cached) settles"
proof -
  have reload: "triple T coherent (look (\<lambda>a.
       if allow_cached \<and> a_cached a \<noteq> None
       then clock (\<lambda>now. if (case a_last_loaded_at a of None \<Rightarrow> False | Some at \<Rightarrow> now - at < snapshot_reload_interval)
              then skip else ensure_loaded True)
       else ensure_loaded True)) settles"
    by (intro triple_look triple_if triple_clock stable_coherent triple_settles triple_post [OF triple_ensure_loaded])
      (auto simp: opens_def settles_def coherent_def split: result.splits)
  have answer: "triple T (holding (=) t) (total (view_for T pid t) (\<lambda>(snap, t'). total (current_player_to_act t') (\<lambda>current.
       before (put_table t') (clock (\<lambda>now. clock (\<lambda>now'. look (\<lambda>a. emit (f snap t' current now now' a)))))))) settles" for t f
    by (intro triple_total triple_prod settles_panic triple_put_quiet triple_clock triple_look stable_holding
        keeps_settles [OF triple_holding [OF keeps_emit]]) (simp add: view_quiet_step)
  show ?thesis
    unfolding handle_snapshot_def by (intro triple_before_settles reload triple_cached_coherent settles_panic answer)
qed

section \<open>Every command\<close>

theorem settles_handle: "triple T coherent (handle T n c) settles"
  by (cases c) (simp_all add: settles_ready settles_act settles_chat settles_reaction settles_preselect settles_connect
    settles_disconnect settles_reconnect settles_external_change settles_sit_out settles_show_cards settles_hunt
    settles_request_exit settles_cancel_exit settles_request_cards settles_accept_cards settles_decline_cards settles_expire
    settles_hunt_refund settles_run_twice settles_keep_seat settles_peek_cards settles_join settles_handle_leave
    settles_post_blind settles_snapshot settles_identity settles_turn_timeout settles_next_hand settles_runout
    settles_kick_timeout settles_afk_sweep settles_escalate)

lemma drop_coherent: "coherent H (drop_cache a)" "a_id (drop_cache a) = a_id a"
  by (simp_all add: coherent_def drop_cache_def)

theorem safely_coherent:
  assumes "coherent H a"
  shows "wp T (handle_safely T n c a) (\<lambda>H (e, a'). a_id a' = a_id a \<and> coherent H a') H"
  unfolding handle_safely_def wp_bind
  by (rule wp_mono [OF tripleD [OF settles_handle assms]])
    (auto simp: settles_def drop_coherent split: result.splits)

end
