(* ===== verification/Fleet.thy ===== *)
theory Fleet
  imports Actor_Correct
begin

text \<open>
  Many instances, one table. Any instance may run the actor of any table against the shared database, with
  no other coordination than the conditional writes of the store. A process is such an actor; its calls to
  the database interleave with those of the others, it may be restarted at any time, and tables are seeded
  and archived meanwhile. The theorems say that the stored table moves as if one table had been operated
  step by step: \<open>fleet_refines_table\<close>, and what follows from it.
\<close>

section \<open>What DynamoDB promises\<close>

text \<open>
  A transaction applies all of its items or none, only when their conditions hold, and an accepted one was
  applied; one that fails without a verdict may have been applied all the same. A consistent read returns
  the item that is stored.
\<close>

type_synonym 'x writer = "'x database \<Rightarrow> 'x tx_item list \<Rightarrow> tx_result \<Rightarrow> 'x database \<Rightarrow> bool"
type_synonym 'x reader = "'x database \<Rightarrow> string \<Rightarrow> get_result \<Rightarrow> bool"

inductive io_step :: "'x writer \<Rightarrow> 'x reader \<Rightarrow> 'x database \<times> ('x, 'a) io \<Rightarrow> 'x database \<times> ('x, 'a) io \<Rightarrow> bool"
  for W G where
  transacted: "W d items r d' \<Longrightarrow> io_step W G (d, Transact items k) (d', k r)"
| read_table: "G d pk r \<Longrightarrow> io_step W G (d, BatchGet pk k) (d, k r)"
| read_guard: "io_step W G (d, GetGuard key k) (d, k r)"
| put_history: "h = db_history d \<or> h = db_history d @ [(pk, sk, s)] \<Longrightarrow>
    io_step W G (d, PutHistory pk sk s k) (d\<lparr>db_history := h\<rparr>, k r)"
| read_clock: "io_step W G (d, Clock k) (d, k now)"
| made_ulid: "io_step W G (d, NewULID k) (d, k name)"
| drew_entropy: "io_step W G (d, Entropy k) (d, k draws)"
| hooked: "io_step W G (d, Hook c k) (d, k reply)"

inductive_simps io_step_simps [simp]:
  "io_step W G (d, Return v) (d', m')" "io_step W G (d, Transact items k) (d', m')" "io_step W G (d, BatchGet pk k) (d', m')"
  "io_step W G (d, GetGuard key k) (d', m')" "io_step W G (d, PutHistory pk sk s k) (d', m')" "io_step W G (d, Clock k) (d', m')"
  "io_step W G (d, NewULID k) (d', m')" "io_step W G (d, Entropy k) (d', m')" "io_step W G (d, Hook c k) (d', m')"

definition runs :: "'x writer \<Rightarrow> 'x reader \<Rightarrow> 'x database \<Rightarrow> ('x, 'a) io \<Rightarrow> 'x database \<Rightarrow> 'a \<Rightarrow> bool" where
  "runs W G d m d' v \<longleftrightarrow> (io_step W G)\<^sup>*\<^sup>* (d, m) (d', Return v)"

section \<open>The fleet\<close>

datatype 'x process = Idle "'x actor" | Busy string "('x, actor_error option \<times> 'x actor) io"

record 'x fleet =
  f_db :: "'x database"
  f_procs :: "nat \<Rightarrow> 'x process"

text \<open>Settings other goroutines change, and timers that fire, touch nothing a command rests on.\<close>

definition retuned :: "'x actor \<Rightarrow> 'x actor \<Rightarrow> bool" where
  "retuned a a' \<longleftrightarrow> a_id a' = a_id a \<and> a_version a' = a_version a \<and> a_cached a' = a_cached a \<and> a_hand_id a' = a_hand_id a"

inductive fleet_step :: "'x writer \<Rightarrow> 'x reader \<Rightarrow> score_tables \<Rightarrow> 'x fleet \<Rightarrow> 'x fleet \<Rightarrow> bool" for W G T where
  commanded: "f_procs f i = Idle a \<Longrightarrow>
    fleet_step W G T f (f\<lparr>f_procs := (f_procs f)(i := Busy (a_id a) (handle_safely T n c a))\<rparr>)"
| called: "f_procs f i = Busy tid m \<Longrightarrow> io_step W G (f_db f, m) (d, m') \<Longrightarrow>
    fleet_step W G T f (f\<lparr>f_db := d, f_procs := (f_procs f)(i := Busy tid m')\<rparr>)"
| returned: "f_procs f i = Busy tid (Return (e, a)) \<Longrightarrow> fleet_step W G T f (f\<lparr>f_procs := (f_procs f)(i := Idle a)\<rparr>)"
| restarted: "a_cached a = None \<Longrightarrow> fleet_step W G T f (f\<lparr>f_procs := (f_procs f)(i := Idle a)\<rparr>)"
| adjusted: "f_procs f i = Idle a \<Longrightarrow> retuned a a' \<Longrightarrow> fleet_step W G T f (f\<lparr>f_procs := (f_procs f)(i := Idle a')\<rparr>)"
| seeded: "runs W G (f_db f) (seed_table tid (export_state t)) d e \<Longrightarrow> t_players t = [] \<Longrightarrow>
    fleet_step W G T f (f\<lparr>f_db := d\<rparr>)"
| archived: "runs W G (f_db f) (mark_archived tid v) d e \<Longrightarrow> fleet_step W G T f (f\<lparr>f_db := d\<rparr>)"
| elsewhere: "fleet_step W G T f (f\<lparr>f_db := (f_db f)\<lparr>db_other := x\<rparr>\<rparr>)"

definition fleet_start :: "'x fleet \<Rightarrow> bool" where
  "fleet_start f \<longleftrightarrow> db_tables (f_db f) = Map.empty \<and> db_log (f_db f) = Map.empty \<and>
     (\<forall>i. \<exists>a. f_procs f i = Idle a \<and> a_cached a = None)"

abbreviation reachable :: "'x writer \<Rightarrow> 'x reader \<Rightarrow> score_tables \<Rightarrow> 'x fleet \<Rightarrow> bool" where
  "reachable W G T f \<equiv> \<exists>f0. fleet_start f0 \<and> (fleet_step W G T)\<^sup>*\<^sup>* f0 f"

section \<open>What may happen to a stored table\<close>

inductive stored_step :: "score_tables \<Rightarrow> 'x database \<Rightarrow> string \<Rightarrow> stored_table option \<Rightarrow> stored_table option \<Rightarrow> bool"
  for T d tid where
  untouched: "stored_step T d tid s s"
| created: "t_players t = [] \<Longrightarrow> st_version s = 1 \<Longrightarrow> st_state s = export_state t \<Longrightarrow> stored_step T d tid None (Some s)"
| shelved: "stored_step T d tid (Some s) (Some (s\<lparr>st_archived := True, st_gsi_active := False\<rparr>))"
| committed: "db_log d (hand_key tid (st_hand_id s'), log_sk (st_version s')) = Some e \<Longrightarrow>
    le_table_id e = tid \<Longrightarrow> le_hand_id e = st_hand_id s' \<Longrightarrow> le_version e = st_version s' \<Longrightarrow>
    st_version s' = Suc (st_version s) \<Longrightarrow> st_state s = export_state t \<Longrightarrow> committed_step T e t t' \<Longrightarrow>
    distinct (seat_ids t') \<Longrightarrow> st_state s' = export_state t' \<Longrightarrow> stored_step T d tid (Some s) (Some s')"

section \<open>The history behind the database\<close>

definition table_recorded :: "history \<Rightarrow> 'x database \<Rightarrow> string \<Rightarrow> bool" where
  "table_recorded H d tid \<longleftrightarrow> (case db_tables d tid of
     None \<Rightarrow> \<forall>v. H tid v = None
   | Some s \<Rightarrow> H tid (st_version s) = Some (st_state s) \<and> (\<forall>v. H tid v \<noteq> None \<longrightarrow> v \<le> st_version s))"

definition rows_guarded :: "'x database \<Rightarrow> bool" where
  "rows_guarded d \<longleftrightarrow> (\<forall>k e. db_log d k = Some e \<longrightarrow> k = (hand_key (le_table_id e) (le_hand_id e), log_sk (le_version e)) \<and>
     (le_action_id e \<noteq> '''' \<longrightarrow> db_guards d (guard_key (le_table_id e) (le_hand_id e) (le_action_id e)) = Some (le_version e)))"

definition recorded :: "history \<Rightarrow> 'x database \<Rightarrow> bool" where
  "recorded H d \<longleftrightarrow> (\<forall>tid. table_recorded H d tid) \<and> (\<forall>tid v s. H tid v = Some s \<longrightarrow> s \<in> range export_state) \<and>
     rows_guarded d"

text \<open>The effect of a commit.\<close>

lemma apply_others:
  "db_tables (fold item_apply (map (\<lambda>(c, f). OtherItem c f) xs) d) = db_tables d"
  "db_log (fold item_apply (map (\<lambda>(c, f). OtherItem c f) xs) d) = db_log d"
  "db_guards (fold item_apply (map (\<lambda>(c, f). OtherItem c f) xs) d) = db_guards d"
  by (induction xs arbitrary: d) (simp_all add: case_prod_beta)

lemma apply_commit:
  "db_tables (tx_apply (commit_items tid h aid v cv e extra) d) =
     (db_tables d)(tid := map_option (set_committed cv (cosmetic_action (le_action e))) (db_tables d tid))"
  "db_log (tx_apply (commit_items tid h aid v cv e extra) d) =
     (db_log d)((hand_key tid h, log_sk (le_version e)) \<mapsto> e)"
  "db_guards (tx_apply (commit_items tid h aid v cv e extra) d) =
     (if aid = '''' then db_guards d else (db_guards d)(guard_key tid h aid \<mapsto> le_version e))"
  by (simp_all add: tx_apply_def commit_items_def apply_others)

lemma commit_holds:
  assumes "tx_holds d (commit_items tid h aid v cv e extra)"
  shows "\<exists>s. db_tables d tid = Some s \<and> st_version s = v" and "aid \<noteq> '''' \<Longrightarrow> db_guards d (guard_key tid h aid) = None"
  using assms by (auto simp: tx_holds_def commit_items_def split: option.splits if_splits)

lemma set_committed_simps [simp]:
  "st_version (set_committed cv b s) = cv_version cv" "st_state (set_committed cv b s) = cv_state cv"
  "st_hand_id (set_committed cv b s) = cv_hand_id cv"
  by (simp_all add: set_committed_def)

lemma commit_items_inj:
  assumes "commit_items tid h aid v cv e extra = commit_items tid' h' aid' v' cv' e' extra'"
  shows "tid' = tid" "cv_version cv' = cv_version cv" "cv_state cv' = cv_state cv"
proof -
  from assms have "set_committed cv (cosmetic_action (le_action e)) = set_committed cv' (cosmetic_action (le_action e'))" "tid' = tid"
    by (auto simp: commit_items_def)
  from fun_cong [OF this(1)] this(2) show "tid' = tid" "cv_version cv' = cv_version cv" "cv_state cv' = cv_state cv"
    by (metis set_committed_simps)+
qed

section \<open>One commit\<close>

lemma commit_recorded:
  assumes rec: "recorded H d" and leg: "legitimate T H items" and holds: "tx_holds d items"
  obtains H' where "grows H H'" "written items H'" "recorded H' (tx_apply items d)"
    "\<And>tid. stored_step T (tx_apply items d) tid (db_tables d tid) (db_tables (tx_apply items d) tid)"
proof -
  from leg obtain tid h aid v cv e extra t0 t where items: "items = commit_items tid h aid v cv e extra"
    and cv: "cv_version cv = v + 1" "cv_hand_id cv = h" "cv_state cv = export_state t"
    and e: "le_version e = v + 1" "le_table_id e = tid" "le_hand_id e = h" "le_action_id e = aid"
    and step: "H tid v = Some (export_state t0)" "committed_step T e t0 t" "distinct (seat_ids t)"
    unfolding legitimate_def by blast
  from commit_holds(1) holds obtain s where s: "db_tables d tid = Some s" "st_version s = v" unfolding items by blast
  have rs: "H tid v = Some (st_state s)" and top: "\<And>v'. H tid v' \<noteq> None \<Longrightarrow> v' \<le> v"
    using rec [unfolded recorded_def] s by (auto simp: table_recorded_def dest!: conjunct1 spec [of _ tid])
  let ?d = "tx_apply items d" and ?s = "set_committed cv (cosmetic_action (le_action e)) s"
  define H' where "H' = H(tid := (H tid)(Suc v \<mapsto> export_state t))"
  have new: "H tid (Suc v) = None" using top [of "Suc v"] by fastforce
  have grows: "grows H H'" using new by (auto simp: grows_def H'_def)
  have "written items H'"
    unfolding written_def items
  proof (intro allI impI)
    fix tid' h' aid' v' cv' e' extra'
    assume "commit_items tid h aid v cv e extra = commit_items tid' h' aid' v' cv' e' extra'"
    from commit_items_inj [OF this] show "H' tid' (cv_version cv') = Some (cv_state cv')" by (simp add: H'_def cv)
  qed
  moreover have tables: "db_tables ?d = (db_tables d)(tid \<mapsto> ?s)" by (simp add: items apply_commit s)
  have "recorded H' ?d"
    unfolding recorded_def
  proof (intro conjI allI impI)
    fix tid'
    have "table_recorded H d tid'" using rec by (simp add: recorded_def)
    then show "table_recorded H' ?d tid'"
      using top by (cases "tid' = tid") (auto simp: table_recorded_def tables H'_def cv intro: le_SucI split: option.splits)
  next
    fix tid' v' s' assume "H' tid' v' = Some s'"
    then show "s' \<in> range export_state" using rec by (auto simp: recorded_def H'_def split: if_splits)
  next
    have old: "rows_guarded d" using rec by (simp add: recorded_def)
    have "aid \<noteq> '''' \<Longrightarrow> db_guards d (guard_key tid h aid) = None" using commit_holds(2) holds unfolding items by blast
    then show "rows_guarded ?d"
      using old e by (auto simp: rows_guarded_def items apply_commit) (metis option.distinct(1))+
  qed
  moreover have "stored_step T ?d tid' (db_tables d tid') (db_tables ?d tid')" for tid'
  proof (cases "tid' = tid")
    case True
    have "stored_step T ?d tid (Some s) (Some ?s)"
      by (rule stored_step.committed [where e = e and t = t0 and t' = t]) (use step rs s cv e in \<open>simp_all add: items apply_commit\<close>)
    then show ?thesis using True s(1) by (simp add: tables)
  next
    case False
    then show ?thesis by (simp add: tables stored_step.untouched)
  qed
  ultimately show ?thesis using grows that by blast
qed

section \<open>The interface of the store\<close>

locale dynamo =
  fixes W :: "'x writer" and G :: "'x reader"
  assumes atomic: "W d items r d' \<Longrightarrow> d' = d \<and> r \<noteq> TxOk \<or> tx_holds d items \<and> d' = tx_apply items d"
    and consistent: "G d pk (GetItem s) \<Longrightarrow> db_tables d pk = Some s"
begin

lemma io_step_recorded:
  assumes "io_step W G (d, m) (d', m')" and rec: "recorded H d" and wp: "wp T m Q H"
  obtains H' where "grows H H'" "recorded H' d'" "wp T m' Q H'"
    "\<And>tid. stored_step T d' tid (db_tables d tid) (db_tables d' tid)"
proof -
  note finish = that
  have stay: thesis if "d' = d" "wp T m' Q H"
    by (rule finish [of H]) (use that rec in \<open>simp_all add: stored_step.untouched\<close>)
  show ?thesis
  proof (cases m)
    case (Transact items k)
    with assms(1) obtain r where r: "W d items r d'" "m' = k r" by auto
    from wp have leg: "legitimate T H items" and k: "\<And>r H'. grows H H' \<Longrightarrow> (r = TxOk \<longrightarrow> written items H') \<Longrightarrow> wp T (k r) Q H'"
      using grows_refl unfolding Transact by simp_all
    from atomic [OF r(1)] show ?thesis
    proof (elim disjE conjE)
      assume "d' = d" "r \<noteq> TxOk"
      then show ?thesis using k [of H r] stay r(2) by simp
    next
      assume h: "tx_holds d items" "d' = tx_apply items d"
      from commit_recorded [OF rec leg h(1)] obtain H' where "grows H H'" "written items H'" "recorded H' d'"
        "\<And>tid. stored_step T d' tid (db_tables d tid) (db_tables d' tid)" unfolding h(2) by blast
      then show ?thesis using finish [of H'] k [of H' r] r(2) by simp
    qed
  next
    case (BatchGet pk k)
    with assms(1) obtain r where r: "G d pk r" "d' = d" "m' = k r" by auto
    have "H pk (st_version s) = Some (st_state s) \<and> st_state s \<in> range export_state" if "r = GetItem s" for s
    proof -
      have s: "db_tables d pk = Some s" using consistent r(1) that by simp
      have "table_recorded H d pk" using rec by (simp add: recorded_def)
      then have "H pk (st_version s) = Some (st_state s)" using s by (simp add: table_recorded_def)
      then show ?thesis using rec by (auto simp: recorded_def)
    qed
    then show ?thesis using wp stay r grows_refl unfolding BatchGet by simp
  next
    case (PutHistory pk sk s k)
    with assms(1) obtain h r where r: "d' = d\<lparr>db_history := h\<rparr>" "m' = k r" by auto
    show ?thesis
      by (rule finish [of H]) (use r wp rec grows_refl PutHistory in
        \<open>auto simp: recorded_def table_recorded_def rows_guarded_def stored_step.untouched\<close>)
  qed (use assms(1) wp stay grows_refl in auto)
qed

end

section \<open>Seeding and archiving\<close>

lemma runs_step:
  "runs W G d m d' w \<longleftrightarrow> (d, m) = (d', Return w) \<or> (\<exists>d1 m1. io_step W G (d, m) (d1, m1) \<and> runs W G d1 m1 d' w)"
proof
  assume "runs W G d m d' w"
  then show "(d, m) = (d', Return w) \<or> (\<exists>d1 m1. io_step W G (d, m) (d1, m1) \<and> runs W G d1 m1 d' w)"
    unfolding runs_def by (cases rule: converse_rtranclpE) auto
next
  assume "(d, m) = (d', Return w) \<or> (\<exists>d1 m1. io_step W G (d, m) (d1, m1) \<and> runs W G d1 m1 d' w)"
  then show "runs W G d m d' w" unfolding runs_def by (auto intro: converse_rtranclp_into_rtranclp)
qed

lemma runs_simps [simp]:
  "runs W G d (Return v) d' w \<longleftrightarrow> d' = d \<and> w = v"
  "runs W G d (Clock k) d' w \<longleftrightarrow> (\<exists>now. runs W G d (k now) d' w)"
  "runs W G d (Transact items k') d' w \<longleftrightarrow> (\<exists>r d1. W d items r d1 \<and> runs W G d1 (k' r) d' w)"
  by (subst runs_step, force)+

lemma seeded_recorded:
  assumes rec: "recorded H d" and none: "db_tables d tid = None" and row: "st_version row = 1" "st_state row = export_state t" "t_players t = []"
    and d': "d' = d\<lparr>db_tables := (db_tables d)(tid \<mapsto> row)\<rparr>"
  obtains H' where "grows H H'" "recorded H' d'" "\<And>tid. stored_step T d' tid (db_tables d tid) (db_tables d' tid)"
proof -
  let ?H = "H(tid := (H tid)(1 \<mapsto> export_state t))"
  have "table_recorded H d tid" using rec by (simp add: recorded_def)
  then have empty: "H tid v = None" for v using none by (simp add: table_recorded_def)
  have "table_recorded ?H d' tid'" for tid'
    using rec [unfolded recorded_def, THEN conjunct1, rule_format, of tid'] empty row
    by (cases "tid' = tid") (auto simp: table_recorded_def d' split: option.splits)
  moreover have "s \<in> range export_state" if "?H tid' v = Some s" for tid' v s
    using that rec by (auto simp: recorded_def split: if_splits)
  moreover have "rows_guarded d'" using rec by (simp add: recorded_def rows_guarded_def d')
  ultimately have "recorded ?H d'" by (simp add: recorded_def)
  moreover have "stored_step T d' tid' (db_tables d tid') (db_tables d' tid')" for tid'
    using none row by (cases "tid' = tid") (auto simp: d' intro: stored_step.intros)
  moreover have "grows H ?H" using empty by (auto simp: grows_def)
  ultimately show ?thesis using that by blast
qed

lemma archived_recorded:
  assumes "recorded H d" and "db_tables d tid = Some s"
    and d': "d' = d\<lparr>db_tables := (db_tables d)(tid \<mapsto> s\<lparr>st_archived := True, st_gsi_active := False\<rparr>)\<rparr>"
  shows "recorded H d'" and "stored_step T d' tid' (db_tables d tid') (db_tables d' tid')"
proof -
  have "table_recorded H d' tid'" for tid'
    using assms by (cases "tid' = tid") (auto simp: recorded_def table_recorded_def dest!: spec [of _ tid])
  then show "recorded H d'" using assms(1) by (simp add: recorded_def rows_guarded_def d')
  show "stored_step T d' tid' (db_tables d tid') (db_tables d' tid')"
    using assms(2) by (cases "tid' = tid") (auto simp: d' intro: stored_step.intros)
qed

section \<open>The invariant of the fleet\<close>

definition process_ok :: "score_tables \<Rightarrow> history \<Rightarrow> 'x process \<Rightarrow> bool" where
  "process_ok T H p \<longleftrightarrow> (case p of
     Idle a \<Rightarrow> coherent H a
   | Busy tid m \<Rightarrow> wp T m (\<lambda>H (e, a). a_id a = tid \<and> coherent H a) H)"

definition fleet_inv :: "score_tables \<Rightarrow> history \<Rightarrow> 'x fleet \<Rightarrow> bool" where
  "fleet_inv T H f \<longleftrightarrow> recorded H (f_db f) \<and> (\<forall>i. process_ok T H (f_procs f i))"

lemma process_ok_grows: "process_ok T H p \<Longrightarrow> grows H H' \<Longrightarrow> process_ok T H' p"
  by (auto simp: process_ok_def stable_def split: process.splits intro: stableD [OF stable_coherent] elim!: wp_grows [rotated])

lemma fleet_inv_start: "fleet_start f \<Longrightarrow> fleet_inv T (\<lambda>_ _. None) f"
proof -
  assume f: "fleet_start f"
  have "process_ok T (\<lambda>_ _. None) (f_procs f i)" for i
    using f by (auto simp: fleet_start_def process_ok_def coherent_def dest!: spec [of _ i])
  then show "fleet_inv T (\<lambda>_ _. None) f"
    using f by (simp add: fleet_start_def fleet_inv_def recorded_def table_recorded_def rows_guarded_def)
qed

lemma fleet_inv_process:
  "fleet_inv T H f \<Longrightarrow> process_ok T H p \<Longrightarrow> fleet_inv T H (f\<lparr>f_procs := (f_procs f)(i := p)\<rparr>)"
  by (simp add: fleet_inv_def)

lemma fleet_inv_grows:
  "fleet_inv T H f \<Longrightarrow> grows H H' \<Longrightarrow> recorded H' d \<Longrightarrow> fleet_inv T H' (f\<lparr>f_db := d\<rparr>)"
  by (auto simp: fleet_inv_def intro: process_ok_grows)

context dynamo begin

lemma fleet_step_inv:
  assumes "fleet_step W G T f f'" and inv: "fleet_inv T H f"
  obtains H' where "grows H H'" "fleet_inv T H' f'"
    "\<And>tid. stored_step T (f_db f') tid (db_tables (f_db f) tid) (db_tables (f_db f') tid)"
proof -
  note finish = that
  have rec: "recorded H (f_db f)" and ok: "process_ok T H (f_procs f i)" for i using inv by (simp_all add: fleet_inv_def)
  have stay: thesis if "f' = f\<lparr>f_procs := (f_procs f)(i := p)\<rparr>" "process_ok T H p" for i p
    by (rule finish [of H]) (use fleet_inv_process [OF inv that(2)] that(1) in \<open>simp_all add: stored_step.untouched\<close>)
  have here: thesis if "f' = f\<lparr>f_db := d\<rparr>" "grows H H'" "recorded H' d"
    "\<And>tid. stored_step T d tid (db_tables (f_db f) tid) (db_tables d tid)" for d H'
    by (rule finish [of H']) (use fleet_inv_grows [OF inv that(2,3)] that in simp_all)
  show ?thesis
    using assms(1)
  proof (cases rule: fleet_step.cases)
    case (commanded i a n c)
    have "coherent H a" using ok [of i] commanded by (simp add: process_ok_def)
    from safely_coherent [OF this] show ?thesis by (intro stay [OF commanded(1)]) (simp add: process_ok_def)
  next
    case (called i tid m d m')
    have "wp T m (\<lambda>H (e, a). a_id a = tid \<and> coherent H a) H" using ok [of i] called by (simp add: process_ok_def)
    from io_step_recorded [OF called(3) rec this] obtain H' where H': "grows H H'" "recorded H' d"
      "wp T m' (\<lambda>H (e, a). a_id a = tid \<and> coherent H a) H'"
      "\<And>tid. stored_step T d tid (db_tables (f_db f) tid) (db_tables d tid)" by blast
    have "fleet_inv T H' f'"
      using fleet_inv_process [OF fleet_inv_grows [OF inv H'(1,2)], of "Busy tid m'" i] H'(3) called(1) by (simp add: process_ok_def)
    then show ?thesis using finish [OF H'(1)] H'(4) called(1) by simp
  next
    case (returned i tid e a)
    then show ?thesis using ok [of i] by (intro stay [OF returned(1)]) (simp add: process_ok_def)
  next
    case (restarted a i)
    then show ?thesis by (intro stay [OF restarted(1)]) (simp add: process_ok_def coherent_def)
  next
    case (adjusted i a a')
    have "coherent H a" using ok [of i] adjusted by (simp add: process_ok_def)
    then have "coherent H a'" using adjusted(3) by (simp add: coherent_def retuned_def dirty_in_def)
    then show ?thesis by (intro stay [OF adjusted(1)]) (simp add: process_ok_def)
  next
    case (seeded tid t d e)
    then obtain items r row where tx: "W (f_db f) items r d" "items = [PutStateIfAbsent tid row]"
      and row: "st_version row = 1" "st_state row = export_state t"
      by (auto simp: seed_table_def)
    from atomic [OF tx(1)] show ?thesis
    proof (elim disjE conjE)
      assume "d = f_db f"
      then show ?thesis using rec by (intro here [OF seeded(1) grows_refl]) (simp_all add: stored_step.untouched)
    next
      assume h: "tx_holds (f_db f) items" "d = tx_apply items (f_db f)"
      have "db_tables (f_db f) tid = None" using h(1) tx(2) by (simp add: tx_holds_def)
      from seeded_recorded [OF rec this row seeded(3), of d T] obtain H' where "grows H H'" "recorded H' d"
        "\<And>tid. stored_step T d tid (db_tables (f_db f) tid) (db_tables d tid)"
        using h(2) tx(2) by (auto simp: tx_apply_def)
      then show ?thesis by (rule here [OF seeded(1)])
    qed
  next
    case (archived tid v d e)
    then obtain items r where tx: "W (f_db f) items r d" "items = [UpdateState tid v (\<lambda>s. s\<lparr>st_archived := True, st_gsi_active := False\<rparr>)]"
      by (auto simp: mark_archived_def)
    from atomic [OF tx(1)] show ?thesis
    proof (elim disjE conjE)
      assume "d = f_db f"
      then show ?thesis using rec by (intro here [OF archived(1) grows_refl]) (simp_all add: stored_step.untouched)
    next
      assume h: "tx_holds (f_db f) items" "d = tx_apply items (f_db f)"
      then obtain s where "db_tables (f_db f) tid = Some s" using tx(2) by (auto simp: tx_holds_def split: option.splits)
      then show ?thesis
        using archived_recorded [OF rec, of tid s d] h(2) tx(2) by (intro here [OF archived(1) grows_refl]) (simp_all add: tx_apply_def)
    qed
  next
    case (elsewhere x)
    have "recorded H ((f_db f)\<lparr>db_other := x\<rparr>)" using rec by (simp add: recorded_def table_recorded_def rows_guarded_def)
    then show ?thesis by (rule here [OF elsewhere grows_refl]) (simp add: stored_step.untouched)
  qed
qed

lemma reachable_inv:
  assumes "reachable W G T f"
  shows "\<exists>H. fleet_inv T H f"
proof -
  from assms obtain f0 where "fleet_start f0" "(fleet_step W G T)\<^sup>*\<^sup>* f0 f" by blast
  from this(2,1) show ?thesis
    by (induction rule: rtranclp_induct) (use fleet_inv_start fleet_step_inv in blast)+
qed

end

section \<open>The most liberal service\<close>

text \<open>
  A service that may refuse, or lose the verdict of, any transaction and may fail any read keeps the
  contract, and whatever keeps it answers as this one may.
\<close>

definition may_write :: "'x writer" where
  "may_write d items r d' \<longleftrightarrow> d' = d \<and> r \<noteq> TxOk \<or> tx_holds d items \<and> d' = tx_apply items d"

definition may_read :: "'x reader" where
  "may_read d pk r \<longleftrightarrow> (\<forall>s. r = GetItem s \<longrightarrow> db_tables d pk = Some s)"

interpretation liberal: dynamo may_write may_read
  by unfold_locales (auto simp: may_write_def may_read_def)

section \<open>What the fleet keeps\<close>

text \<open>The encoding of a table whose seats hold different players, under a version.\<close>

definition well_stored :: "stored_table \<Rightarrow> bool" where
  "well_stored s \<longleftrightarrow> (\<exists>t. st_state s = export_state t \<and> distinct (seat_ids t)) \<and> 1 \<le> st_version s"

lemma stored_step_well:
  assumes "stored_step T d tid old new" and "pred_option well_stored old"
  shows "pred_option well_stored new"
  using assms
proof (induction rule: stored_step.induct)
  case (created t s)
  then have "distinct (seat_ids t)" by (simp add: seat_ids_def)
  with created show ?case by (auto simp: well_stored_def)
next
  case (committed s' e s t t')
  then show ?case by (auto simp: well_stored_def)
qed (simp_all add: well_stored_def)

context dynamo begin

lemma reachable_stored_step:
  "reachable W G T f \<Longrightarrow> fleet_step W G T f f' \<Longrightarrow>
     stored_step T (f_db f') tid (db_tables (f_db f) tid) (db_tables (f_db f') tid)"
  using reachable_inv fleet_step_inv by blast

lemma reachable_well:
  assumes "reachable W G T f"
  shows "pred_option well_stored (db_tables (f_db f) tid)"
proof -
  from assms obtain f0 where "fleet_start f0" "(fleet_step W G T)\<^sup>*\<^sup>* f0 f" by blast
  from this(2,1) show ?thesis
  proof (induction rule: rtranclp_induct)
    case base
    then show ?case by (simp add: fleet_start_def)
  next
    case (step f f')
    then have "stored_step T (f_db f') tid (db_tables (f_db f) tid) (db_tables (f_db f') tid)"
      by (intro reachable_stored_step) blast+
    from stored_step_well [OF this] step show ?case by blast
  qed
qed

lemma reachable_rows: "reachable W G T f \<Longrightarrow> rows_guarded (f_db f)"
  using reachable_inv by (force simp: fleet_inv_def recorded_def)

end

section \<open>A service that never fails\<close>

text \<open>One answer the contract allows at every call, so that a command runs to its end.\<close>

primrec run_alone :: "('x, 'a) io \<Rightarrow> 'x database \<Rightarrow> 'x database \<times> 'a" where
  "run_alone (Return v) d = (d, v)"
| "run_alone (Transact items k) d =
     (if tx_holds d items then run_alone (k TxOk) (tx_apply items d) else run_alone (k TxConditionFailed) d)"
| "run_alone (BatchGet pk k) d =
     run_alone (k (case db_tables d pk of None \<Rightarrow> GetMissing | Some s \<Rightarrow> GetItem s)) d"
| "run_alone (GetGuard key k) d = run_alone (k (GuardItem (db_guards d key))) d"
| "run_alone (PutHistory pk sk s k) d = run_alone (k True) (d\<lparr>db_history := db_history d @ [(pk, sk, s)]\<rparr>)"
| "run_alone (Clock k) d = run_alone (k 1000000000) d"
| "run_alone (NewULID k) d = run_alone (k ''U'') d"
| "run_alone (Entropy k) d = run_alone (k (ReadFailed, [])) d"
| "run_alone (Hook c k) d = run_alone (k HookFailed) d"

lemma runs_first:
  "io_step W G (d, m) (d1, m1) \<Longrightarrow> runs W G d1 m1 d' v \<Longrightarrow> runs W G d m d' v"
  unfolding runs_def by (rule converse_rtranclp_into_rtranclp)

lemma run_alone_runs: "run_alone m d = (d', v) \<Longrightarrow> runs may_write may_read d m d' v"
proof (induction m arbitrary: d)
  case (Return w)
  then show ?case by (simp add: runs_def)
next
  case (Transact items k)
  show ?case
  proof (cases "tx_holds d items")
    case True
    show ?thesis
      by (rule runs_first [OF io_step.transacted [where r = TxOk and d' = "tx_apply items d"] Transact.IH])
        (use Transact.prems True in \<open>simp_all add: may_write_def\<close>)
  next
    case False
    show ?thesis
      by (rule runs_first [OF io_step.transacted [where r = TxConditionFailed and d' = d] Transact.IH])
        (use Transact.prems False in \<open>simp_all add: may_write_def\<close>)
  qed
next
  case (BatchGet pk k)
  show ?case
    by (rule runs_first [OF io_step.read_table [where r = "case db_tables d pk of None \<Rightarrow> GetMissing | Some s \<Rightarrow> GetItem s"] BatchGet.IH])
      (use BatchGet.prems in \<open>auto simp: may_read_def split: option.splits\<close>)
next
  case (GetGuard key k)
  show ?case by (rule runs_first [OF io_step.read_guard [where r = "GuardItem (db_guards d key)"] GetGuard.IH]) (use GetGuard.prems in simp_all)
next
  case (PutHistory pk sk s k)
  show ?case
    by (rule runs_first [OF io_step.put_history [where h = "db_history d @ [(pk, sk, s)]" and r = True] PutHistory.IH])
      (use PutHistory.prems in simp_all)
next
  case (Clock k)
  show ?case by (rule runs_first [OF io_step.read_clock [where now = 1000000000] Clock.IH]) (use Clock.prems in simp_all)
next
  case (NewULID k)
  show ?case by (rule runs_first [OF io_step.made_ulid [where name = "''U''"] NewULID.IH]) (use NewULID.prems in simp_all)
next
  case (Entropy k)
  show ?case by (rule runs_first [OF io_step.drew_entropy [where draws = "(ReadFailed, [])"] Entropy.IH]) (use Entropy.prems in simp_all)
next
  case (Hook c k)
  show ?case by (rule runs_first [OF io_step.hooked [where reply = HookFailed] Hook.IH]) (use Hook.prems in simp_all)
qed

lemma command_steps:
  assumes "(io_step W G)\<^sup>*\<^sup>* (d, m) (d', m')"
  shows "(fleet_step W G T)\<^sup>*\<^sup>* (f\<lparr>f_db := d, f_procs := g(i := Busy tid m)\<rparr>) (f\<lparr>f_db := d', f_procs := g(i := Busy tid m')\<rparr>)"
  using assms
proof (induction rule: rtranclp_induct2)
  case (step d1 m1 d2 m2)
  have "fleet_step W G T (f\<lparr>f_db := d1, f_procs := g(i := Busy tid m1)\<rparr>) (f\<lparr>f_db := d2, f_procs := g(i := Busy tid m2)\<rparr>)"
    using fleet_step.called [of "f\<lparr>f_db := d1, f_procs := g(i := Busy tid m1)\<rparr>" i tid m1 W G d2 m2 T] step(2)
    by (simp del: fun_upd_apply add: fun_upd_same)
  with step.IH show ?case by (rule rtranclp.rtrancl_into_rtrancl)
qed simp

text \<open>A process that runs one command with nobody else around.\<close>

lemma command_run:
  assumes "r = run_alone (handle_safely T n c a) (f_db f)" and "f_procs f i = Idle a"
  shows "(fleet_step may_write may_read T)\<^sup>*\<^sup>* f (f\<lparr>f_db := fst r, f_procs := (f_procs f)(i := Idle (snd (snd r)))\<rparr>)"
proof -
  obtain d e a' where r: "r = (d, e, a')" by (cases r)
  let ?at = "\<lambda>d m. f\<lparr>f_db := d, f_procs := (f_procs f)(i := Busy (a_id a) m)\<rparr>"
  have "fleet_step may_write may_read T f (?at (f_db f) (handle_safely T n c a))"
    using fleet_step.commanded [of f i a may_write may_read T n c] assms(2) by simp
  moreover have "runs may_write may_read (f_db f) (handle_safely T n c a) d (e, a')"
    by (rule run_alone_runs) (use assms(1) r in simp)
  then have "(fleet_step may_write may_read T)\<^sup>*\<^sup>* (?at (f_db f) (handle_safely T n c a)) (?at d (Return (e, a')))"
    unfolding runs_def by (rule command_steps)
  moreover have "fleet_step may_write may_read T (?at d (Return (e, a'))) (f\<lparr>f_db := d, f_procs := (f_procs f)(i := Idle a')\<rparr>)"
    using fleet_step.returned [of "?at d (Return (e, a'))" i "a_id a" e a' may_write may_read T] by simp
  ultimately show ?thesis by (simp add: r converse_rtranclp_into_rtranclp rtranclp.rtrancl_into_rtrancl)
qed

section \<open>One table, three commands\<close>

text \<open>
  The table ''t1'' is seeded in an empty database; one player buys in, which deals nothing yet, and
  declares to be ready under the action ID ''r1''.
\<close>

definition no_tables :: score_tables where
  "no_tables = \<lparr>flush_table = [], no_flush_table = [], category_table = []\<rparr>"

definition first_fleet :: "unit fleet" where
  "first_fleet = \<lparr>f_db = \<lparr>db_tables = Map.empty, db_log = Map.empty, db_guards = Map.empty, db_history = [], db_other = ()\<rparr>,
     f_procs = (\<lambda>_. Idle (new_actor ''t1'' True 0))\<rparr>"

definition seeded_db :: "unit database" where
  "seeded_db = fst (run_alone (seed_table ''t1'' (export_state (seed_for_room ''sandbox'' '''' 5 10))) (f_db first_fleet))"

definition joined :: "unit database \<times> actor_error option \<times> unit actor" where
  "joined = run_alone (handle_safely no_tables 3 (JoinCmd \<lparr>jn_player_id = ''a'', jn_stack = 1000, jn_max_seats = 6,
     jn_hold_id = ''h'', jn_auto_rebuy = False, jn_settlement_intent = None\<rparr>) (new_actor ''t1'' True 0)) seeded_db"

definition readied :: "unit database \<times> actor_error option \<times> unit actor" where
  "readied = run_alone (handle_safely no_tables 3 (ReadyCmd ''a'' ''r1'' True) (snd (snd joined))) (fst joined)"

definition readied_fleet :: "unit fleet" where
  "readied_fleet = first_fleet\<lparr>f_db := fst readied, f_procs := (f_procs first_fleet)(0 := Idle (snd (snd readied)))\<rparr>"

declare best_loop.simps [code] next_index.simps [code]

lemma readied_run:
  "(case readied of (d, e, a) \<Rightarrow>
      (map_option (\<lambda>s. (st_version s, map p_id (sv_players (st_state s)))) (db_tables d ''t1''),
       map_option (\<lambda>e. (le_table_id e, le_hand_id e, le_action_id e, le_action e)) (db_log d (''t1#'', ''0000000003'')),
       a_id a, a_version a, a_cached a = None)) =
   (Some (3, [''a'']), Some (''t1'', '''', ''r1'', ''ready''), ''t1'', 3, False)"
  by code_simp

text \<open>What the examples below need of it.\<close>

lemma readied_values:
  obtains s e t where "db_tables (f_db readied_fleet) ''t1'' = Some s" "st_version s = 3" "map p_id (sv_players (st_state s)) = [''a'']"
    "db_log (f_db readied_fleet) (''t1#'', ''0000000003'') = Some e" "le_table_id e = ''t1''" "le_hand_id e = ''''"
    "le_action_id e = ''r1''" "le_action e = ''ready''" "f_procs readied_fleet 0 = Idle (snd (snd readied))"
    "a_id (snd (snd readied)) = ''t1''" "a_version (snd (snd readied)) = 3" "a_cached (snd (snd readied)) = Some t"
proof -
  obtain d r a where r: "readied = (d, r, a)" by (cases readied)
  from readied_run [unfolded r] obtain s e t where
    "db_tables d ''t1'' = Some s" "st_version s = 3" "map p_id (sv_players (st_state s)) = [''a'']"
    "db_log d (''t1#'', ''0000000003'') = Some e" "le_table_id e = ''t1''" "le_hand_id e = ''''"
    "le_action_id e = ''r1''" "le_action e = ''ready''" "a_id a = ''t1''" "a_version a = 3" "a_cached a = Some t" by auto
  then show thesis by (intro that [of s e t]) (simp_all add: readied_fleet_def r)
qed

lemma first_start: "fleet_start first_fleet"
  by (simp add: fleet_start_def first_fleet_def new_actor_def)

lemma first_seeded: "fleet_step may_write may_read no_tables first_fleet (first_fleet\<lparr>f_db := seeded_db\<rparr>)"
proof (rule fleet_step.seeded)
  show "runs may_write may_read (f_db first_fleet) (seed_table ''t1'' (export_state (seed_for_room ''sandbox'' '''' 5 10))) seeded_db
      (snd (run_alone (seed_table ''t1'' (export_state (seed_for_room ''sandbox'' '''' 5 10))) (f_db first_fleet)))"
    by (rule run_alone_runs) (simp add: seeded_db_def)
  show "t_players (seed_for_room ''sandbox'' '''' 5 10) = []" by (rule seed_for_room_players)
qed

lemma readied_reachable: "reachable may_write may_read no_tables readied_fleet"
proof -
  let ?seeded = "first_fleet\<lparr>f_db := seeded_db\<rparr>"
  let ?joined = "?seeded\<lparr>f_db := fst joined, f_procs := (f_procs ?seeded)(0 := Idle (snd (snd joined)))\<rparr>"
  let ?readied = "?joined\<lparr>f_db := fst readied, f_procs := (f_procs ?joined)(0 := Idle (snd (snd readied)))\<rparr>"
  note first_start
  moreover note first_seeded
  moreover have "(fleet_step may_write may_read no_tables)\<^sup>*\<^sup>* ?seeded ?joined"
    by (rule command_run) (simp_all add: joined_def first_fleet_def)
  moreover have "(fleet_step may_write may_read no_tables)\<^sup>*\<^sup>* ?joined ?readied"
    by (rule command_run) (simp_all add: readied_def)
  moreover have "?readied = readied_fleet" by (simp add: readied_fleet_def)
  ultimately show ?thesis by (metis (no_types, lifting) converse_rtranclp_into_rtranclp rtranclp_trans)
qed

section \<open>Theorems\<close>

text \<open>C1: the stored table moves as if one table had been operated step by step. Whatever instances run its
  actor, however their calls to DynamoDB interleave, and whether calls fail, lose their verdict or are retried,
  a step of the fleet leaves the item of a table as it is, creates it without seats, marks it archived, or
  replaces version v by version v+1, where the new state comes from the stored one by the one engine operation
  that the row of the action log written with it names, between bookkeeping steps, and seats no player twice.\<close>

theorem fleet_refines_table:
  assumes "dynamo W G" and "reachable W G T f" and "fleet_step W G T f f'"
  shows "stored_step T (f_db f') tid (db_tables (f_db f) tid) (db_tables (f_db f') tid)"
  using assms by (rule dynamo.reachable_stored_step)

lemma fleet_refines_table_witness:
  "\<exists>f' s. fleet_step may_write may_read no_tables first_fleet f' \<and> db_tables (f_db f') ''t1'' = Some s \<and>
     stored_step no_tables (f_db f') ''t1'' None (Some s)"
proof -
  let ?f = "first_fleet\<lparr>f_db := seeded_db\<rparr>"
  have step: "fleet_step may_write may_read no_tables first_fleet ?f" by (rule first_seeded)
  have start: "reachable may_write may_read no_tables first_fleet"
    using first_start by blast
  obtain s where s: "db_tables seeded_db ''t1'' = Some s"
    by (simp add: seeded_db_def seed_table_def first_fleet_def tx_holds_def tx_apply_def)
  have "stored_step no_tables (f_db ?f) ''t1'' (db_tables (f_db first_fleet) ''t1'') (db_tables (f_db ?f) ''t1'')"
    using fleet_refines_table [OF liberal.dynamo_axioms start step] .
  then show ?thesis using step s by (intro exI [of _ ?f] exI [of _ s]) (simp add: first_fleet_def)
qed

text \<open>C13: every table the store ever holds is well-formed: its state is the encoding of a table, no player has
  two seats in it, and its version counts from 1.\<close>

theorem stored_tables_well_formed:
  assumes "dynamo W G" and "reachable W G T f" and "db_tables (f_db f) tid = Some s"
  shows "(\<exists>t. st_state s = export_state t \<and> distinct (seat_ids t)) \<and> 1 \<le> st_version s"
  using dynamo.reachable_well [OF assms(1,2), of tid] assms(3) by (simp add: well_stored_def)

lemma stored_tables_well_formed_witness:
  "\<exists>s t. db_tables (f_db readied_fleet) ''t1'' = Some s \<and> st_state s = export_state t \<and> seat_ids t = [''a''] \<and>
     distinct (seat_ids t)"
proof (rule readied_values)
  fix s e t assume s: "db_tables (f_db readied_fleet) ''t1'' = Some s" "map p_id (sv_players (st_state s)) = [''a'']"
  obtain t' where t': "st_state s = export_state t'" "distinct (seat_ids t')"
    using stored_tables_well_formed [OF liberal.dynamo_axioms readied_reachable s(1)] by blast
  have "seat_ids t' = map p_id (sv_players (export_state t'))" by (simp add: export_state_def seat_ids_def comp_def)
  then show ?thesis using s t' by auto
qed

text \<open>C7: an action is applied once. No two rows of the action log carry the same table, hand and action ID,
  so a command that is retried after its reply was lost, on any instance, is never booked a second time.\<close>

theorem action_logged_once:
  assumes "dynamo W G" and "reachable W G T f" and "db_log (f_db f) k = Some e" and "le_action_id e \<noteq> ''''"
  shows "{k'. \<exists>e'. db_log (f_db f) k' = Some e' \<and> le_table_id e' = le_table_id e \<and> le_hand_id e' = le_hand_id e \<and>
     le_action_id e' = le_action_id e} = {k}"
proof -
  have rows: "k' = (hand_key (le_table_id e') (le_hand_id e'), log_sk (le_version e'))"
    "db_guards (f_db f) (guard_key (le_table_id e') (le_hand_id e') (le_action_id e')) = Some (le_version e')"
    if "db_log (f_db f) k' = Some e'" "le_action_id e' \<noteq> ''''" for k' e'
    using dynamo.reachable_rows [OF assms(1,2), unfolded rows_guarded_def, rule_format, OF that(1)] that(2) by blast+
  have "k' = k" if "db_log (f_db f) k' = Some e'" "le_table_id e' = le_table_id e" "le_hand_id e' = le_hand_id e"
    "le_action_id e' = le_action_id e" for k' e'
  proof -
    have ne: "le_action_id e' \<noteq> ''''" using that(4) assms(4) by simp
    have "Some (le_version e') = Some (le_version e)"
      unfolding rows(2) [OF that(1) ne, symmetric] rows(2) [OF assms(3,4), symmetric] that(2-4) ..
    then show ?thesis unfolding rows(1) [OF that(1) ne] rows(1) [OF assms(3,4)] that(2,3) by simp
  qed
  then show ?thesis using assms(3) by blast
qed

lemma action_logged_once_witness:
  "{k'. \<exists>e'. db_log (f_db readied_fleet) k' = Some e' \<and> le_table_id e' = ''t1'' \<and> le_hand_id e' = '''' \<and>
     le_action_id e' = ''r1''} = {(''t1#'', ''0000000003'')}"
proof (rule readied_values)
  fix s e t assume e: "db_log (f_db readied_fleet) (''t1#'', ''0000000003'') = Some e" "le_table_id e = ''t1''" "le_hand_id e = ''''"
    "le_action_id e = ''r1''"
  show ?thesis using action_logged_once [OF liberal.dynamo_axioms readied_reachable e(1)] by (simp add: e)
qed

text \<open>C5: between commands the cache of an actor is never ahead of the store and never wrong. Its table comes,
  by bookkeeping alone, from the state the store has held under the version the actor holds; so either the
  version has moved on, which the condition of its next commit will find, or the cache is the stored table.\<close>

theorem idle_cache_current:
  assumes "dynamo W G" and "reachable W G T f" and "f_procs f i = Idle a" and "a_cached a = Some t"
  shows "\<exists>s. db_tables (f_db f) (a_id a) = Some s \<and> a_version a \<le> st_version s \<and>
     (st_version s = a_version a \<longrightarrow> (\<exists>t0. st_state s = export_state t0 \<and> quiet t0 t))"
proof -
  obtain H where H: "fleet_inv T H f" using dynamo.reachable_inv [OF assms(1,2)] by blast
  then have "process_ok T H (f_procs f i)" by (simp add: fleet_inv_def)
  then have "coherent H a" using assms(3) by (simp add: process_ok_def)
  then have "comes_from (=) (H (a_id a) (a_version a)) (Some t)" using assms(4) by (simp add: coherent_def dirty_in_def)
  then obtain t0 where t0: "H (a_id a) (a_version a) = Some (export_state t0)" "quiet t0 t"
    by (elim comes_fromE) (auto intro: rtranclp_trans)
  have "table_recorded H (f_db f) (a_id a)" using H by (simp add: fleet_inv_def recorded_def)
  then obtain s where s: "db_tables (f_db f) (a_id a) = Some s" "H (a_id a) (st_version s) = Some (st_state s)"
    "a_version a \<le> st_version s"
    using t0(1) by (auto simp: table_recorded_def split: option.splits)
  then show ?thesis using t0 by (intro exI [of _ s]) (auto intro: exI [of _ t0])
qed

lemma idle_cache_current_witness:
  "\<exists>t s t0. a_cached (snd (snd readied)) = Some t \<and> db_tables (f_db readied_fleet) ''t1'' = Some s \<and>
     st_state s = export_state t0 \<and> quiet t0 t"
proof (rule readied_values)
  fix s e t assume s: "db_tables (f_db readied_fleet) ''t1'' = Some s" "st_version s = 3"
    and a: "f_procs readied_fleet 0 = Idle (snd (snd readied))" "a_id (snd (snd readied)) = ''t1''"
      "a_version (snd (snd readied)) = 3" "a_cached (snd (snd readied)) = Some t"
  show ?thesis using idle_cache_current [OF liberal.dynamo_axioms readied_reachable a(1,4)] s a by auto
qed

end
