(* ===== verification/Buyin.thy ===== *)
theory Buyin
  imports Actor_Handlers
begin

text \<open>
  Chips between the wallet and the seats: \<open>api/internal/buyin/service.go\<close> with the stores it writes,
  \<open>api/internal/reconcile/pending.go\<close> and \<open>api/internal/entitlement\<close>. The wallet is another service; it,
  DynamoDB, the actors and the stores of other packages are reached through the nodes of \<open>svc\<close>, one per
  call, with one subtree per answer. Texts of statements and log lines are left out.
\<close>

section \<open>Data\<close>

record blind_escalation =
  be_interval_minutes :: int
  be_multiplier :: int
  be_max :: int

record room =
  rm_id :: string
  rm_visibility :: string
  rm_currency_mode :: string
  rm_small_blind :: int
  rm_big_blind :: int
  rm_max_seats :: int
  rm_buy_in_min :: int
  rm_buy_in_max :: int
  rm_entry_fee_cents :: int
  rm_tier :: string
  rm_variant :: string
  rm_share_code :: string
  rm_blind_escalation :: "blind_escalation option"
  rm_turn_timeout_seconds :: int
  rm_equity_display_enabled :: bool
  rm_run_it_twice_enabled :: bool
  rm_status :: string
  rm_seats_taken :: int
  rm_created_by :: string
  rm_created_at :: string

text \<open>A row of \<open>poker_pending_cashouts\<close>; times in nanoseconds, an absent or unreadable one is \<open>None\<close>.\<close>

record pending_cashout =
  pc_id :: string
  pc_player_id :: string
  pc_amount :: int
  pc_currency_mode :: string
  pc_kind :: string
  pc_hold_ids :: "string list"
  pc_table_ref :: string
  pc_idempotency_key :: string
  pc_recorded_at :: "int option"
  pc_resolved :: bool
  pc_resolved_at :: "int option"
  pc_gsi_status :: string
  pc_attempts :: int
  pc_last_attempt_at :: "int option"
  pc_ttl :: int

definition no_cashout :: pending_cashout where
  "no_cashout = \<lparr>pc_id = '''', pc_player_id = '''', pc_amount = 0, pc_currency_mode = '''', pc_kind = '''',
     pc_hold_ids = [], pc_table_ref = '''', pc_idempotency_key = '''', pc_recorded_at = None, pc_resolved = False,
     pc_resolved_at = None, pc_gsi_status = '''', pc_attempts = 0, pc_last_attempt_at = None, pc_ttl = 0\<rparr>"

record entitlement =
  en_player_id :: string
  en_origin_table_id :: string
  en_bound_table_id :: string
  en_tier :: string
  en_fee_cents :: int
  en_expires_at :: int
  en_created_at :: "int option"

definition kind_fee_debit :: string where "kind_fee_debit = ''fee_debit''"
definition pending_open :: string where "pending_open = ''open''"
definition pending_manual_review :: string where "pending_manual_review = ''manual_review''"
definition max_attempts :: int where "max_attempts = 5"
definition hours :: "int \<Rightarrow> int" where "hours n = n * 3600 * 1000000000"
definition entitlement_window :: int where "entitlement_window = hours 3"

section \<open>Programs\<close>

text \<open>The table the recovery rows live in; a removal writes its row in the transaction of its commit.\<close>

type_synonym pending_table = "string \<rightharpoonup> pending_cashout"

datatype wallet_op =
    Credit | Debit | DebitReal
  | HoldGame string
  | ReleaseHold string
  | CashoutGame string "string list"

record wallet_call =
  wc_client :: nat
  wc_op :: wallet_op
  wc_user :: string
  wc_amount :: int
  wc_key :: string
  wc_reason :: string

text \<open>An accepted \<open>HoldGame\<close> answers with the hold.\<close>

datatype wallet_reply = WalletFailed | WalletDone string

datatype pending_call =
    PutRowIfAbsent pending_cashout
  | GetRow string
  | UpdateRow string "pending_cashout \<Rightarrow> pending_cashout"
  | OpenRows

datatype pending_reply =
    PendingFailed | PendingRefused | PendingDone | PendingMissing
  | PendingRow "pending_cashout option" | PendingRows "pending_cashout list"

datatype entitlement_call =
    PutEntitlement entitlement int
  | ListEntitlements string
  | MoveEntitlement string string string string int

datatype entitlement_reply = EntitlementFailed | EntitlementRefused | EntitlementDone | EntitlementRows "entitlement list"

datatype table_call = FindActor string table | Dispatch string "pending_table command"

datatype table_reply = TableFailed | TableFound | TableRefused actor_error | TableDone "event list"

record session_item =
  se_player_id :: string
  se_sk :: string
  se_table_id :: string
  se_buyin_amount :: int
  se_cashout_amount :: int
  se_net_pnl :: int
  se_joined_at :: int
  se_ended_at :: int

datatype query =
    AskRoom string | AskTerms string | AskEligible string int | AskInflow string int string | AskArchived string
  | AskProfile string | AskStats string string
  | AskOpenSession string string | AddSessionBuyin string string int string | RecordSession session_item
  | CloseSession session_item
  | SetInTable string string | ReconcilePresence string | AskBalances string
  | AskStale int nat | ArchiveTable string nat | DeleteRoom string

datatype answer =
    AnswerFailed | AnswerDone | AnswerRoom "room option" | AnswerBool bool | AnswerSession "session_item option"
  | AnswerProfile "(string \<times> string \<times> bool) option" | AnswerBadges "string list" | AnswerInt int
  | AnswerTables "(string \<times> stored_table) list"

datatype 'a svc =
    Done 'a
  | Wallet wallet_call "wallet_reply \<Rightarrow> 'a svc"
  | Pending pending_call "pending_reply \<Rightarrow> 'a svc"
  | Entitlements entitlement_call "entitlement_reply \<Rightarrow> 'a svc"
  | Tables table_call "table_reply \<Rightarrow> 'a svc"
  | Ask query "answer \<Rightarrow> 'a svc"
  | Now "int \<Rightarrow> 'a svc"

primrec svc_bind :: "'a svc \<Rightarrow> ('a \<Rightarrow> 'b svc) \<Rightarrow> 'b svc" where
  "svc_bind (Done v) f = f v"
| "svc_bind (Wallet c k) f = Wallet c (\<lambda>r. svc_bind (k r) f)"
| "svc_bind (Pending c k) f = Pending c (\<lambda>r. svc_bind (k r) f)"
| "svc_bind (Entitlements c k) f = Entitlements c (\<lambda>r. svc_bind (k r) f)"
| "svc_bind (Tables c k) f = Tables c (\<lambda>r. svc_bind (k r) f)"
| "svc_bind (Ask c k) f = Ask c (\<lambda>r. svc_bind (k r) f)"
| "svc_bind (Now k) f = Now (\<lambda>r. svc_bind (k r) f)"

datatype buyin_error =
    RoomLookupFailed | RoomNotFound | AmountOutsideLimits | TermsNotAccepted | TableUnavailable
  | SeatCheckFailed | NoSeatsLeft | NotWiredForRealMoney | NotEligible | LimitBreached | LimitCheckFailed
  | HoldFailed | DebitFailed | SeatFailed | ManualReconciliation
  | EntitlementStoreUnavailable | EntitlementsFailed | RebindFailed | ClaimFailed | WinnerUnreadable
  | SettlementStoreUnavailable | FeeRowFailed | FeeIntentFailed | FeeChargeFailed
  | BalancesFailed | LeaveFailed | IntentNotPersisted | NoHoldFound | CashoutFailed | FinalizationFailed
  | NilDereference

type_synonym 'a prog = "(buyin_error + 'a) svc"

definition give :: "'a \<Rightarrow> 'a prog" where "give v = Done (Inr v)"
definition refuse :: "buyin_error \<Rightarrow> 'a prog" where "refuse e = Done (Inl e)"

definition and_so :: "'a prog \<Rightarrow> ('a \<Rightarrow> 'b prog) \<Rightarrow> 'b prog" where
  "and_so m f = svc_bind m (\<lambda>r. case r of Inl e \<Rightarrow> refuse e | Inr v \<Rightarrow> f v)"

text \<open>Calls whose failure is logged and otherwise ignored.\<close>

definition best_effort :: "query \<Rightarrow> 'a svc \<Rightarrow> 'a svc" where
  "best_effort q k = Ask q (\<lambda>_. k)"

section \<open>Recovery rows\<close>

definition open_row :: "int \<Rightarrow> pending_cashout \<Rightarrow> pending_cashout" where
  "open_row now p = p\<lparr>pc_recorded_at := (if pc_recorded_at p = None then Some now else pc_recorded_at p),
     pc_gsi_status := pending_open\<rparr>"

definition build_record_tx :: "int \<Rightarrow> pending_cashout \<Rightarrow> pending_table other_item" where
  "build_record_tx now p = (\<lambda>rows. rows (pc_id p) = None, \<lambda>rows. rows(pc_id p \<mapsto> open_row now p))"

text \<open>Whether the row is there now, written by this call or by an earlier one.\<close>

definition record_pending :: "pending_cashout \<Rightarrow> bool svc" where
  "record_pending p = Now (\<lambda>now. Pending (PutRowIfAbsent (open_row now p)) (\<lambda>r.
     Done (r = PendingDone \<or> r = PendingRefused)))"

definition get_pending :: "string \<Rightarrow> (unit + pending_cashout option) svc" where
  "get_pending i = Pending (GetRow i) (\<lambda>r. Done (case r of PendingRow p \<Rightarrow> Inr p | _ \<Rightarrow> Inl ()))"

definition mark_resolved :: "string \<Rightarrow> bool svc" where
  "mark_resolved i = Now (\<lambda>at. Now (\<lambda>now.
     Pending (UpdateRow i (\<lambda>p. p\<lparr>pc_resolved := True, pc_resolved_at := Some at,
         pc_ttl := unix_sec (now + hours (24 * 30)), pc_gsi_status := ''''\<rparr>))
       (\<lambda>r. Done (r = PendingDone \<or> r = PendingMissing))))"

definition record_failed_attempt :: "pending_cashout \<Rightarrow> (unit + int \<times> bool) svc" where
  "record_failed_attempt e =
     (let attempts = pc_attempts e + 1; quarantined = (attempts \<ge> max_attempts)
      in Now (\<lambda>at. Pending (UpdateRow (pc_id e) (\<lambda>p. p\<lparr>pc_attempts := attempts, pc_last_attempt_at := Some at,
             pc_gsi_status := (if quarantined then pending_manual_review else pc_gsi_status p)\<rparr>))
           (\<lambda>r. Done (if r = PendingDone then Inr (attempts, quarantined) else Inl ()))))"

definition list_unresolved :: "int \<Rightarrow> (unit + pending_cashout list) svc" where
  "list_unresolved older_than = Now (\<lambda>now. Pending OpenRows (\<lambda>r. Done (case r of
     PendingRows rows \<Rightarrow> Inr (filter (\<lambda>p. \<not> pc_resolved p \<and>
         \<not> (older_than > 0 \<and> (case pc_recorded_at p of None \<Rightarrow> False | Some at \<Rightarrow> at > now - older_than))) rows)
   | _ \<Rightarrow> Inl ())))"

datatype settlement_status = StatusPending | StatusResolved | StatusManualReview

record settlement_view =
  sv_id :: string
  sv_kind :: string
  sv_amount :: int
  sv_currency_mode :: string
  sv_table_ref :: string
  sv_status :: settlement_status
  sv_recorded_at :: "int option"
  sv_resolved_at :: "int option"

definition settlement_view_of :: "pending_cashout \<Rightarrow> settlement_view" where
  "settlement_view_of p =
     \<lparr>sv_id = pc_id p, sv_kind = (if pc_kind p = '''' then ''cashout'' else pc_kind p), sv_amount = pc_amount p,
      sv_currency_mode = pc_currency_mode p, sv_table_ref = pc_table_ref p,
      sv_status = (if pc_resolved p then StatusResolved
                   else if pc_gsi_status p = pending_manual_review then StatusManualReview else StatusPending),
      sv_recorded_at = pc_recorded_at p, sv_resolved_at = pc_resolved_at p\<rparr>"

section \<open>Entitlements\<close>

text \<open>An entitlement is stored with its times in whole seconds.\<close>

definition whole_seconds :: "int \<Rightarrow> int" where "whole_seconds t = seconds (unix_sec t)"

definition claim_entitlement :: "entitlement \<Rightarrow> (bool + unit) svc" where
  "claim_entitlement e =
     (let stored = (\<lambda>created. e\<lparr>en_expires_at := whole_seconds (en_expires_at e),
            en_created_at := Some (whole_seconds created)\<rparr>);
          put = (\<lambda>created. Now (\<lambda>now. Entitlements (PutEntitlement (stored created) (unix_sec now)) (\<lambda>r. Done (case r of
            EntitlementDone \<Rightarrow> Inr () | EntitlementRefused \<Rightarrow> Inl True | _ \<Rightarrow> Inl False))))
      in case en_created_at e of None \<Rightarrow> Now put | Some created \<Rightarrow> put created)"

definition active_for :: "string \<Rightarrow> (unit + entitlement list) svc" where
  "active_for pid = Entitlements (ListEntitlements pid) (\<lambda>r. case r of
     EntitlementRows rows \<Rightarrow> Now (\<lambda>now. Done (Inr (filter (\<lambda>e. en_expires_at e > now) rows)))
   | _ \<Rightarrow> Done (Inl ()))"

text \<open>\<open>Some True\<close> when moved, \<open>Some False\<close> when there is nothing left to move.\<close>

definition rebind :: "string \<Rightarrow> string \<Rightarrow> string \<Rightarrow> string \<Rightarrow> bool option svc" where
  "rebind pid origin expected_bound moved_to = Now (\<lambda>now.
     Entitlements (MoveEntitlement pid origin expected_bound moved_to (unix_sec now)) (\<lambda>r. Done (case r of
       EntitlementDone \<Rightarrow> Some True | EntitlementRefused \<Rightarrow> Some False | _ \<Rightarrow> None)))"

text \<open>What the conditions of the two writes say; a player has one row per table of origin.\<close>

definition put_entitlement_holds :: "entitlement \<Rightarrow> int \<Rightarrow> (string \<times> string \<rightharpoonup> entitlement) \<Rightarrow> bool" where
  "put_entitlement_holds e now rows \<longleftrightarrow>
     (case rows (en_player_id e, en_origin_table_id e) of None \<Rightarrow> True | Some old \<Rightarrow> unix_sec (en_expires_at old) \<le> now)"

definition move_entitlement_holds :: "string \<Rightarrow> string \<Rightarrow> string \<Rightarrow> int \<Rightarrow> (string \<times> string \<rightharpoonup> entitlement) \<Rightarrow> bool" where
  "move_entitlement_holds pid origin expected now rows \<longleftrightarrow>
     (case rows (pid, origin) of None \<Rightarrow> False
      | Some e \<Rightarrow> unix_sec (en_expires_at e) > now \<and> en_bound_table_id e = expected)"

section \<open>The service\<close>

text \<open>
  How the service is put together: the clients it calls the sandbox wallet and the game wallet with, as
  identities, since the code compares the two, and which of its optional parts are there.
\<close>

record service =
  sv_wallet :: nat
  sv_game :: "nat option"
  sv_has_rooms :: bool
  sv_has_rules :: bool
  sv_has_pending :: bool
  sv_has_entitlements :: bool
  sv_has_sessions :: bool
  sv_has_players :: bool
  sv_has_stats :: bool
  sv_has_presence :: bool

definition is_game :: "service \<Rightarrow> nat \<Rightarrow> bool" where
  "is_game s mover \<longleftrightarrow> sv_game s = Some mover"

definition real_room :: "room \<Rightarrow> bool" where
  "real_room r \<longleftrightarrow> rm_currency_mode r = ''real''"

definition seed_for :: "room option \<Rightarrow> table" where
  "seed_for r = (case r of
     Some r \<Rightarrow> seed_for_room (rm_currency_mode r) (rm_variant r) (rm_small_blind r) (rm_big_blind r)
   | None \<Rightarrow> new_table [] 10 20)"

definition get_room :: "service \<Rightarrow> string \<Rightarrow> (room option \<Rightarrow> 'a prog) \<Rightarrow> 'a prog" where
  "get_room s rid f =
     (if \<not> sv_has_rooms s then refuse NilDereference
      else Ask (AskRoom rid) (\<lambda>r. case r of AnswerRoom room \<Rightarrow> f room | _ \<Rightarrow> refuse RoomLookupFailed))"

text \<open>
  A failed lookup of the room gives the default stakes. The code looks the room up on the first touch of a
  table only; here it is always read.
\<close>

definition find_actor :: "service \<Rightarrow> string \<Rightarrow> 'a prog \<Rightarrow> 'a prog" where
  "find_actor s rid f =
     (let find = (\<lambda>room. Tables (FindActor rid (seed_for room)) (\<lambda>r. if r = TableFound then f else refuse TableUnavailable))
      in if sv_has_rooms s then Ask (AskRoom rid) (\<lambda>r. find (case r of AnswerRoom room \<Rightarrow> room | _ \<Rightarrow> None)) else find None)"

definition wallet_for :: "service \<Rightarrow> string \<Rightarrow> (nat \<Rightarrow> 'a prog) \<Rightarrow> 'a prog" where
  "wallet_for s rid f = get_room s rid (\<lambda>room.
     case room of
       None \<Rightarrow> f (sv_wallet s)
     | Some r \<Rightarrow>
         if \<not> real_room r then f (sv_wallet s)
         else case sv_game s of
                Some g \<Rightarrow> if sv_has_rules s then f g else refuse NotWiredForRealMoney
              | None \<Rightarrow> refuse NotWiredForRealMoney)"

text \<open>The frame a snapshot command is answered with.\<close>

definition answered :: "event list \<Rightarrow> snapshot option" where
  "answered evs = (case List.find (\<lambda>e. case e of Answered _ \<Rightarrow> True | _ \<Rightarrow> False) evs of
     Some (Answered fr) \<Rightarrow> Some (fr_snapshot fr) | _ \<Rightarrow> None)"

definition seat_of :: "string \<Rightarrow> snapshot \<Rightarrow> seat_view option" where
  "seat_of pid snap = List.find (\<lambda>w. sw_player_id w = pid) (sn_seats snap)"

text \<open>Whether the player is seated, with which stack, and how many seats are taken.\<close>

definition is_seated_at :: "string \<Rightarrow> string \<Rightarrow> (unit + bool \<times> int \<times> nat) svc" where
  "is_seated_at rid pid = Tables (Dispatch rid (SnapshotCmd pid False)) (\<lambda>r. Done (case r of
     TableDone evs \<Rightarrow> Inr (case answered evs of
         None \<Rightarrow> (False, 0, 0)
       | Some snap \<Rightarrow> (case seat_of pid snap of
             Some w \<Rightarrow> (True, sw_stack w, length (sn_seats snap))
           | None \<Rightarrow> (False, 0, length (sn_seats snap))))
   | _ \<Rightarrow> Inl ()))"

definition wallet_call_of :: "nat \<Rightarrow> wallet_op \<Rightarrow> string \<Rightarrow> int \<Rightarrow> string \<Rightarrow> string \<Rightarrow> wallet_call" where
  "wallet_call_of client op user amount key reason =
     \<lparr>wc_client = client, wc_op = op, wc_user = user, wc_amount = amount, wc_key = key, wc_reason = reason\<rparr>"

definition wallet :: "wallet_call \<Rightarrow> (string option \<Rightarrow> 'a svc) \<Rightarrow> 'a svc" where
  "wallet c f = Wallet c (\<lambda>r. case r of WalletFailed \<Rightarrow> f None | WalletDone h \<Rightarrow> f (Some h))"

section \<open>The entry fee\<close>

definition entitlement_fee_key :: "string \<Rightarrow> entitlement \<Rightarrow> string" where
  "entitlement_fee_key pid e =
     en_origin_table_id e @ ''#'' @ pid @ ''#buyinfee#'' @ decimal_int (unix_sec (en_expires_at e))"

definition fee_row :: "string \<Rightarrow> entitlement \<Rightarrow> string \<Rightarrow> pending_cashout" where
  "fee_row pid e fee_key = no_cashout\<lparr>pc_id := fee_key, pc_player_id := pid, pc_amount := en_fee_cents e,
     pc_currency_mode := ''real'', pc_kind := kind_fee_debit, pc_table_ref := en_origin_table_id e,
     pc_idempotency_key := fee_key\<rparr>"

definition pay_entry_fee :: "service \<Rightarrow> string \<Rightarrow> entitlement \<Rightarrow> string \<Rightarrow> unit prog" where
  "pay_entry_fee s pid e fee_key =
     svc_bind (record_pending (fee_row pid e fee_key)) (\<lambda>recorded.
       if \<not> recorded then refuse FeeIntentFailed
       else case sv_game s of
              None \<Rightarrow> refuse NilDereference
            | Some g \<Rightarrow> wallet (wallet_call_of g DebitReal pid (en_fee_cents e) fee_key ''poker_table_fee'') (\<lambda>paid.
                if paid = None then refuse FeeChargeFailed
                else svc_bind (mark_resolved fee_key) (\<lambda>_. give ())))"

definition confirm_fee_charged :: "service \<Rightarrow> string \<Rightarrow> entitlement \<Rightarrow> unit prog" where
  "confirm_fee_charged s pid e =
     (if \<not> sv_has_pending s then refuse SettlementStoreUnavailable
      else if en_fee_cents e \<le> 0 then give ()
      else let fee_key = entitlement_fee_key pid e
        in svc_bind (get_pending fee_key) (\<lambda>row. case row of
             Inl _ \<Rightarrow> refuse FeeRowFailed
           | Inr (Some p) \<Rightarrow> if pc_resolved p then give () else pay_entry_fee s pid e fee_key
           | Inr None \<Rightarrow> pay_entry_fee s pid e fee_key))"

definition active_entitlement_at :: "string \<Rightarrow> string \<Rightarrow> entitlement option prog" where
  "active_entitlement_at pid origin = svc_bind (active_for pid) (\<lambda>r. case r of
     Inl _ \<Rightarrow> refuse EntitlementsFailed
   | Inr ents \<Rightarrow> give (List.find (\<lambda>e. en_origin_table_id e = origin) ents))"

definition charge_entry_fee :: "service \<Rightarrow> room \<Rightarrow> string \<Rightarrow> unit prog" where
  "charge_entry_fee s r pid =
     (if \<not> sv_has_pending s then refuse SettlementStoreUnavailable
      else Now (\<lambda>now.
        let e = \<lparr>en_player_id = pid, en_origin_table_id = rm_id r, en_bound_table_id = rm_id r, en_tier = rm_tier r,
                 en_fee_cents = rm_entry_fee_cents r, en_expires_at = now + entitlement_window, en_created_at = None\<rparr>
        in svc_bind (claim_entitlement e) (\<lambda>c. case c of
             Inr _ \<Rightarrow> pay_entry_fee s pid e (entitlement_fee_key pid e)
           | Inl False \<Rightarrow> refuse ClaimFailed
           | Inl True \<Rightarrow> and_so (active_entitlement_at pid (rm_id r)) (\<lambda>winner. case winner of
               None \<Rightarrow> refuse WinnerUnreadable
             | Some e \<Rightarrow> confirm_fee_charged s pid e))))"

text \<open>A room that is gone, archived or full; \<open>None\<close> when that cannot be found out.\<close>

definition table_unavailable :: "service \<Rightarrow> string \<Rightarrow> bool option svc" where
  "table_unavailable s tid = Ask (AskRoom tid) (\<lambda>r. case r of
     AnswerRoom None \<Rightarrow> Done (Some True)
   | AnswerRoom (Some room) \<Rightarrow> Ask (AskArchived tid) (\<lambda>a. Done (case a of
         AnswerBool archived \<Rightarrow> Some (archived \<or> (rm_max_seats room > 0 \<and> rm_seats_taken room \<ge> rm_max_seats room))
       | _ \<Rightarrow> None))
   | _ \<Rightarrow> Done None)"

primrec rebind_first :: "service \<Rightarrow> room \<Rightarrow> string \<Rightarrow> entitlement list \<Rightarrow> unit prog" where
  "rebind_first s r pid [] = charge_entry_fee s r pid"
| "rebind_first s r pid (e # es) =
     (if en_tier e \<noteq> rm_tier r \<or> en_bound_table_id e = rm_id r then rebind_first s r pid es
      else svc_bind (table_unavailable s (en_bound_table_id e)) (\<lambda>u.
        if u \<noteq> Some True then rebind_first s r pid es
        else svc_bind (rebind pid (en_origin_table_id e) (en_bound_table_id e) (rm_id r)) (\<lambda>moved. case moved of
               None \<Rightarrow> refuse RebindFailed
             | Some False \<Rightarrow> rebind_first s r pid es
             | Some True \<Rightarrow> confirm_fee_charged s pid e)))"

definition resolve_entitlement :: "service \<Rightarrow> room \<Rightarrow> string \<Rightarrow> unit prog" where
  "resolve_entitlement s r pid =
     (if \<not> sv_has_entitlements s then refuse EntitlementStoreUnavailable
      else svc_bind (active_for pid) (\<lambda>ents. case ents of
        Inl _ \<Rightarrow> refuse EntitlementsFailed
      | Inr es \<Rightarrow> (case List.find (\<lambda>e. en_tier e = rm_tier r \<and> en_bound_table_id e = rm_id r) es of
            Some e \<Rightarrow> confirm_fee_charged s pid e
          | None \<Rightarrow> rebind_first s r pid es)))"

text \<open>The fee shown before a buy-in: due or not, and when the reservation that covers it ends.\<close>

definition fee_settled :: "service \<Rightarrow> string \<Rightarrow> entitlement \<Rightarrow> bool prog" where
  "fee_settled s pid e =
     (if en_fee_cents e \<le> 0 then give True
      else if \<not> sv_has_pending s then give False
      else svc_bind (get_pending (entitlement_fee_key pid e)) (\<lambda>row. case row of
             Inl _ \<Rightarrow> refuse FeeRowFailed
           | Inr p \<Rightarrow> give (case p of None \<Rightarrow> False | Some p \<Rightarrow> pc_resolved p)))"

definition fee_status :: "service \<Rightarrow> room option \<Rightarrow> string \<Rightarrow> (bool \<times> int) prog" where
  "fee_status s room pid = (case room of
     None \<Rightarrow> give (False, 0)
   | Some r \<Rightarrow>
       if \<not> real_room r \<or> rm_entry_fee_cents r \<le> 0 then give (False, 0)
       else if \<not> sv_has_entitlements s then give (True, 0)
       else svc_bind (active_for pid) (\<lambda>ents. case ents of
         Inl _ \<Rightarrow> refuse EntitlementsFailed
       | Inr es \<Rightarrow> (case List.find (\<lambda>e. en_tier e = rm_tier r \<and> en_bound_table_id e = rm_id r) es of
             None \<Rightarrow> give (True, 0)
           | Some e \<Rightarrow> and_so (fee_settled s pid e) (\<lambda>paid.
               if paid then give (False, unix_sec (en_expires_at e)) else give (True, 0)))))"

section \<open>Buying in\<close>

definition buyin_key :: "string \<Rightarrow> string \<Rightarrow> string \<Rightarrow> string" where
  "buyin_key rid pid idem_key =
     rid @ ''#'' @ pid @ ''#buyin#'' @ (if idem_key = '''' then pid else idem_key)"

definition amount_allowed :: "room \<Rightarrow> int \<Rightarrow> bool" where
  "amount_allowed r amount \<longleftrightarrow> rm_big_blind r > 0 \<and> rm_buy_in_min r \<le> amount \<and> amount \<le> rm_buy_in_max r \<and>
     amount > 0 \<and> amount mod rm_big_blind r = 0"

text \<open>Taking the money: a hold of the game wallet that passes the limits, or a debit of the sandbox wallet.\<close>

definition release_hold :: "nat \<Rightarrow> string \<Rightarrow> string \<Rightarrow> string \<Rightarrow> buyin_error \<Rightarrow> 'a prog" where
  "release_hold mover pid hold_id key e =
     wallet (wallet_call_of mover (ReleaseHold hold_id) pid 0 (key @ '':release'') '''') (\<lambda>released.
       refuse (if released = None then ManualReconciliation else e))"

definition take_stake :: "service \<Rightarrow> nat \<Rightarrow> string \<Rightarrow> string \<Rightarrow> int \<Rightarrow> string \<Rightarrow> string prog" where
  "take_stake s mover rid pid amount key =
     (if is_game s mover
      then wallet (wallet_call_of mover (HoldGame rid) pid amount key ''poker_buyin'') (\<lambda>held. case held of
             None \<Rightarrow> refuse HoldFailed
           | Some hold_id \<Rightarrow>
               if \<not> sv_has_rules s then refuse NilDereference
               else Ask (AskInflow pid amount key) (\<lambda>a. case a of
                 AnswerBool breached \<Rightarrow> if breached then release_hold mover pid hold_id key LimitBreached else give hold_id
               | _ \<Rightarrow> release_hold mover pid hold_id key LimitCheckFailed))
      else wallet (wallet_call_of mover Debit pid amount key ''poker_buyin'') (\<lambda>done. case done of
             None \<Rightarrow> refuse DebitFailed
           | Some _ \<Rightarrow> give ''''))"

text \<open>Giving it back after a join that failed.\<close>

definition return_stake :: "service \<Rightarrow> nat \<Rightarrow> string \<Rightarrow> int \<Rightarrow> string \<Rightarrow> string \<Rightarrow> 'a prog" where
  "return_stake s mover pid amount hold_id key =
     (if is_game s mover then release_hold mover pid hold_id key SeatFailed
      else wallet (wallet_call_of mover Credit pid amount (key @ '':refund'') ''poker_buyin_refund'') (\<lambda>refunded.
             refuse (if refunded = None then ManualReconciliation else SeatFailed)))"

definition joining :: "string \<Rightarrow> int \<Rightarrow> int \<Rightarrow> string \<Rightarrow> bool \<Rightarrow> pending_table join_cmd" where
  "joining pid amount max_seats hold_id auto_rebuy =
     \<lparr>jn_player_id = pid, jn_stack = amount, jn_max_seats = max_seats, jn_hold_id = hold_id, jn_auto_rebuy = auto_rebuy,
      jn_settlement_intent = None\<rparr>"

text \<open>What follows a seat: identity, session, presence; none of it can fail the buy-in.\<close>

definition seed_identity :: "service \<Rightarrow> room option \<Rightarrow> string \<Rightarrow> string \<Rightarrow> unit prog \<Rightarrow> unit prog" where
  "seed_identity s room rid pid k =
     (if \<not> sv_has_players s then k
      else Ask (AskProfile pid) (\<lambda>a. case a of
        AnswerProfile (Some (name, avatar, public)) \<Rightarrow>
          (let send = (\<lambda>badge. Tables (Dispatch rid (SetIdentityCmd pid name avatar badge)) (\<lambda>_. k))
           in if \<not> (public \<and> sv_has_stats s) then send ''''
              else case room of
                     None \<Rightarrow> refuse NilDereference
                   | Some r \<Rightarrow> Ask (AskStats pid (rm_currency_mode r)) (\<lambda>b. send (case b of
                       AnswerBadges (badge # _) \<Rightarrow> badge | _ \<Rightarrow> '''')))
      | _ \<Rightarrow> k))"

definition open_session :: "service \<Rightarrow> string \<Rightarrow> string \<Rightarrow> int \<Rightarrow> string \<Rightarrow> unit prog \<Rightarrow> unit prog" where
  "open_session s rid pid amount key k =
     (if \<not> sv_has_sessions s then k
      else Ask (AskOpenSession pid rid) (\<lambda>a. case a of
        AnswerSession (Some ses) \<Rightarrow> best_effort (AddSessionBuyin pid (se_sk ses) amount key) k
      | _ \<Rightarrow> Now (\<lambda>now. best_effort (RecordSession \<lparr>se_player_id = pid, se_sk = '''', se_table_id = rid,
                 se_buyin_amount = amount, se_cashout_amount = 0, se_net_pnl = 0, se_joined_at = unix_milli now,
                 se_ended_at = 0\<rparr>) k)))"

definition mark_in_table :: "service \<Rightarrow> string \<Rightarrow> string \<Rightarrow> unit prog \<Rightarrow> unit prog" where
  "mark_in_table s rid pid k = (if sv_has_presence s then best_effort (SetInTable pid rid) k else k)"

text \<open>
  The seat: the stake is taken, the player joins, and a refused join gives the stake back. Before it come the checks.
\<close>

definition seat_player :: "service \<Rightarrow> room option \<Rightarrow> int \<Rightarrow> string \<Rightarrow> string \<Rightarrow> int \<Rightarrow> bool \<Rightarrow> string \<Rightarrow> unit prog" where
  "seat_player s room max_seats rid pid amount auto_rebuy key =
     wallet_for s rid (\<lambda>mover. and_so (take_stake s mover rid pid amount key) (\<lambda>hold_id.
       Tables (Dispatch rid (JoinCmd (joining pid amount max_seats hold_id auto_rebuy))) (\<lambda>r. case r of
         TableDone _ \<Rightarrow> seed_identity s room rid pid (open_session s rid pid amount key (mark_in_table s rid pid (give ())))
       | _ \<Rightarrow> return_stake s mover pid amount hold_id key)))"

definition check_real :: "service \<Rightarrow> room option \<Rightarrow> string \<Rightarrow> int \<Rightarrow> unit prog \<Rightarrow> unit prog" where
  "check_real s room pid amount k = (case room of
     None \<Rightarrow> k
   | Some r \<Rightarrow>
       if \<not> real_room r then k
       else if \<not> sv_has_rules s then refuse NotWiredForRealMoney
       else Ask (AskEligible pid amount) (\<lambda>a.
         if a \<noteq> AnswerDone then refuse NotEligible
         else if rm_entry_fee_cents r > 0 then and_so (resolve_entitlement s r pid) (\<lambda>_. k)
         else k))"

definition check_seat :: "string \<Rightarrow> string \<Rightarrow> int \<Rightarrow> unit prog \<Rightarrow> unit prog" where
  "check_seat rid pid max_seats k =
     svc_bind (is_seated_at rid pid) (\<lambda>r. case r of
       Inl _ \<Rightarrow> refuse SeatCheckFailed
     | Inr (seated, stack, occupied) \<Rightarrow>
         if seated \<and> stack > 0 then give ()
         else if \<not> seated \<and> max_seats > 0 \<and> int occupied \<ge> max_seats then refuse NoSeatsLeft
         else k)"

definition check_terms :: "service \<Rightarrow> string \<Rightarrow> unit prog \<Rightarrow> unit prog" where
  "check_terms s pid k =
     (if sv_has_players s then Ask (AskTerms pid) (\<lambda>a. if a = AnswerDone then k else refuse TermsNotAccepted) else k)"

definition buy_in :: "service \<Rightarrow> string \<Rightarrow> string \<Rightarrow> int \<Rightarrow> bool \<Rightarrow> string \<Rightarrow> unit prog" where
  "buy_in s rid pid amount auto_rebuy idem_key =
     (let enter = (\<lambda>room max_seats.
            check_terms s pid
           (find_actor s rid
           (check_seat rid pid max_seats
           (check_real s room pid amount
           (seat_player s room max_seats rid pid amount auto_rebuy (buyin_key rid pid idem_key))))))
      in if \<not> sv_has_rooms s then enter None 0
         else get_room s rid (\<lambda>room. case room of
           None \<Rightarrow> refuse RoomNotFound
         | Some r \<Rightarrow> if amount_allowed r amount then enter room (rm_max_seats r) else refuse AmountOutsideLimits))"

section \<open>Leaving with the chips\<close>

definition cashout_row :: "string \<Rightarrow> string \<Rightarrow> string \<Rightarrow> string \<Rightarrow> int \<Rightarrow> string \<Rightarrow> pending_cashout" where
  "cashout_row key mode rid pid stack hold_id = no_cashout\<lparr>pc_id := key, pc_player_id := pid, pc_amount := stack,
     pc_currency_mode := mode, pc_hold_ids := (if hold_id = '''' then [] else [hold_id]), pc_table_ref := rid,
     pc_idempotency_key := key\<rparr>"

definition mode_of :: "room option \<Rightarrow> string" where
  "mode_of room = (case room of None \<Rightarrow> ''sandbox'' | Some r \<Rightarrow> rm_currency_mode r)"

definition pay_out_stack :: "service \<Rightarrow> nat \<Rightarrow> string \<Rightarrow> string \<Rightarrow> int \<Rightarrow> string \<Rightarrow> string \<Rightarrow> (buyin_error option \<Rightarrow> 'a svc) \<Rightarrow> 'a svc" where
  "pay_out_stack s mover rid pid stack hold_id key f =
     (if stack \<le> 0 then f None
      else if is_game s mover
      then if hold_id = '''' then f (Some NoHoldFound)
           else wallet (wallet_call_of mover (CashoutGame rid [hold_id]) pid stack key ''poker_cashout'') (\<lambda>paid.
                  f (if paid = None then Some CashoutFailed else None))
      else wallet (wallet_call_of mover Credit pid stack key ''poker_cashout'') (\<lambda>paid.
             f (if paid = None then Some CashoutFailed else None)))"

definition close_session :: "service \<Rightarrow> string \<Rightarrow> string \<Rightarrow> int \<Rightarrow> 'a svc \<Rightarrow> 'a svc" where
  "close_session s rid pid stack k =
     (if \<not> sv_has_sessions s then k
      else Ask (AskOpenSession pid rid) (\<lambda>a. case a of
        AnswerSession (Some ses) \<Rightarrow> Now (\<lambda>now. best_effort (CloseSession (ses\<lparr>se_ended_at := unix_milli now,
            se_cashout_amount := stack, se_net_pnl := stack - se_buyin_amount ses\<rparr>)) k)
      | _ \<Rightarrow> k))"

text \<open>
  A failed payment is remembered, not returned at once; the row stays open for the sweep.
\<close>

definition settle :: "service \<Rightarrow> string \<Rightarrow> string \<Rightarrow> int \<Rightarrow> string \<Rightarrow> nat \<Rightarrow> string \<Rightarrow> unit prog" where
  "settle s rid pid stack hold_id mover key =
     (if \<not> sv_has_pending s then refuse SettlementStoreUnavailable
      else get_room s rid (\<lambda>room.
        svc_bind (record_pending (cashout_row key (mode_of room) rid pid stack hold_id)) (\<lambda>recorded.
          if \<not> recorded then refuse IntentNotPersisted
          else pay_out_stack s mover rid pid stack hold_id key (\<lambda>failed.
            let rest = (\<lambda>e. close_session s rid pid stack
                  (let answer = (case e of None \<Rightarrow> give () | Some e \<Rightarrow> refuse e)
                   in if sv_has_presence s then best_effort (ReconcilePresence pid) answer else answer))
            in case failed of
                 Some e \<Rightarrow> rest (Some e)
               | None \<Rightarrow> svc_bind (mark_resolved key) (\<lambda>fin. rest (if fin then None else Some FinalizationFailed))))))"

definition cashout_key :: "string \<Rightarrow> string \<Rightarrow> string \<Rightarrow> string" where
  "cashout_key rid pid idem_key =
     rid @ ''#'' @ pid @ ''#cashout'' @ (if idem_key = '''' then '''' else ''#'' @ idem_key)"

definition leaving :: "int \<Rightarrow> string \<Rightarrow> string \<Rightarrow> string \<Rightarrow> string \<Rightarrow> pending_table leave_cmd" where
  "leaving now key mode rid pid = \<lparr>lv_player_id = pid, lv_settlement_intent =
     Some (\<lambda>stack hold_id. Some (build_record_tx now (cashout_row key mode rid pid stack hold_id)))\<rparr>"

definition left_with :: "event list \<Rightarrow> (int \<times> string) option" where
  "left_with evs = (case List.find (\<lambda>e. case e of LeaveReplied _ _ \<Rightarrow> True | _ \<Rightarrow> False) evs of
     Some (LeaveReplied stack hold_id) \<Rightarrow> Some (stack, hold_id) | _ \<Rightarrow> None)"

definition cash_out :: "service \<Rightarrow> string \<Rightarrow> string \<Rightarrow> string \<Rightarrow> int prog" where
  "cash_out s rid pid idem_key =
     wallet_for s rid (\<lambda>mover.
       if \<not> sv_has_pending s then refuse SettlementStoreUnavailable
       else get_room s rid (\<lambda>room.
         let key = cashout_key rid pid idem_key
         in find_actor s rid (Now (\<lambda>now.
           Tables (Dispatch rid (LeaveCmd (leaving now key (mode_of room) rid pid))) (\<lambda>r. case r of
             TableDone evs \<Rightarrow> (case left_with evs of
                 Some (stack, hold_id) \<Rightarrow> and_so (settle s rid pid stack hold_id mover key) (\<lambda>_. give stack)
               | None \<Rightarrow> refuse NilDereference)
           | _ \<Rightarrow> refuse LeaveFailed)))))"

definition system_leave_key :: "string \<Rightarrow> string \<Rightarrow> string \<Rightarrow> string \<Rightarrow> string" where
  "system_leave_key rid pid reason nonce =
     rid @ ''#'' @ pid @ ''#system_leave#'' @ reason @ (if nonce = '''' then '''' else ''#'' @ nonce)"

text \<open>The row an actor writes with the removal of a player nobody asked for, and the payment that follows.\<close>

definition build_system_settlement_intent ::
    "service \<Rightarrow> string \<Rightarrow> string \<Rightarrow> string \<Rightarrow> string \<Rightarrow> int \<Rightarrow> string \<Rightarrow> pending_table other_item prog" where
  "build_system_settlement_intent s rid pid reason nonce stack hold_id =
     (if \<not> sv_has_pending s then refuse SettlementStoreUnavailable
      else get_room s rid (\<lambda>room. Now (\<lambda>now. give (build_record_tx now
        (cashout_row (system_leave_key rid pid reason nonce) (mode_of room) rid pid stack hold_id)))))"

definition settle_system_removal :: "service \<Rightarrow> string \<Rightarrow> string \<Rightarrow> int \<Rightarrow> string \<Rightarrow> string \<Rightarrow> string \<Rightarrow> unit prog" where
  "settle_system_removal s rid pid stack hold_id reason nonce =
     wallet_for s rid (\<lambda>mover. settle s rid pid stack hold_id mover (system_leave_key rid pid reason nonce))"

section \<open>Reading\<close>

definition sandbox_balance :: "service \<Rightarrow> string \<Rightarrow> int prog" where
  "sandbox_balance s pid = Ask (AskBalances pid) (\<lambda>a. case a of AnswerInt n \<Rightarrow> give n | _ \<Rightarrow> refuse BalancesFailed)"

record seat_summary =
  ss_seated :: bool
  ss_stack :: int
  ss_auto_rebuy :: bool
  ss_buy_in_amount :: int

definition seated_summary :: "service \<Rightarrow> string \<Rightarrow> string \<Rightarrow> seat_summary prog" where
  "seated_summary s rid pid = find_actor s rid (Tables (Dispatch rid (SnapshotCmd pid False)) (\<lambda>r. case r of
     TableDone evs \<Rightarrow> give (case Option.bind (answered evs) (seat_of pid) of
         Some w \<Rightarrow> \<lparr>ss_seated = True, ss_stack = sw_stack w, ss_auto_rebuy = sw_auto_rebuy w,
                    ss_buy_in_amount = sw_buy_in_amount w\<rparr>
       | None \<Rightarrow> \<lparr>ss_seated = False, ss_stack = 0, ss_auto_rebuy = False, ss_buy_in_amount = 0\<rparr>)
   | _ \<Rightarrow> refuse SeatCheckFailed))"

definition seated :: "service \<Rightarrow> string \<Rightarrow> string \<Rightarrow> (bool \<times> int) prog" where
  "seated s rid pid = and_so (seated_summary s rid pid) (\<lambda>v. give (ss_seated v, ss_stack v))"

text \<open>Busted players of a finished hand buy in again under a key made of the hand.\<close>

primrec auto_rebuy_players :: "service \<Rightarrow> string \<Rightarrow> string \<Rightarrow> string list \<Rightarrow> unit svc" where
  "auto_rebuy_players s tid hand_id [] = Done ()"
| "auto_rebuy_players s tid hand_id (pid # pids) =
     svc_bind (seated_summary s tid pid) (\<lambda>r.
       case r of
         Inl _ \<Rightarrow> auto_rebuy_players s tid hand_id pids
       | Inr w \<Rightarrow>
           if \<not> ss_seated w \<or> ss_stack w \<noteq> 0 \<or> \<not> ss_auto_rebuy w \<or> ss_buy_in_amount w \<le> 0
           then auto_rebuy_players s tid hand_id pids
           else svc_bind (sandbox_balance s pid) (\<lambda>b.
             case b of
               Inl _ \<Rightarrow> auto_rebuy_players s tid hand_id pids
             | Inr balance \<Rightarrow>
                 if balance < ss_buy_in_amount w then auto_rebuy_players s tid hand_id pids
                 else svc_bind (buy_in s tid pid (ss_buy_in_amount w) False (hand_id @ ''-auto'')) (\<lambda>_.
                   auto_rebuy_players s tid hand_id pids)))"

definition auto_rebuy_sweep :: "service \<Rightarrow> string \<Rightarrow> string \<Rightarrow> hand_outcome \<Rightarrow> unit svc" where
  "auto_rebuy_sweep s tid hand_id outcome = Ask (AskRoom tid) (\<lambda>a. case a of
     AnswerRoom (Some r) \<Rightarrow> if rm_currency_mode r = ''sandbox''
       then auto_rebuy_players s tid hand_id (ho_participants outcome) else Done ()
   | _ \<Rightarrow> Done ())"

end
