(* ===== verification/Settlement_Jobs.thy ===== *)
theory Settlement_Jobs
  imports Buyin
begin

text \<open>
  The two scheduled jobs that move chips: \<open>api/cmd/reconcile\<close>, which retries what a cash-out or an entry
  fee left open, and \<open>api/cmd/tablecleanup\<close>, which pays out and archives tables nobody plays at. Log lines
  and alerts are left out; both run against one wallet client \<open>w\<close>.
\<close>

section \<open>Reconciliation\<close>

definition grace_period :: int where "grace_period = 120 * 1000000000"

definition reconcile_op :: "nat \<Rightarrow> pending_cashout \<Rightarrow> wallet_call" where
  "reconcile_op w e =
     (if pc_kind e = kind_fee_debit
      then wallet_call_of w DebitReal (pc_player_id e) (pc_amount e) (pc_idempotency_key e) ''poker_table_fee_reconcile''
      else if pc_currency_mode e = ''real''
      then wallet_call_of w (CashoutGame (if pc_table_ref e = '''' then ''unknown'' else pc_table_ref e) (pc_hold_ids e))
             (pc_player_id e) (pc_amount e) (pc_idempotency_key e) ''poker_cashout_reconcile''
      else wallet_call_of w Credit (pc_player_id e) (pc_amount e) (pc_idempotency_key e) ''poker_cashout_reconcile'')"

text \<open>The entries that need attention; the others are done or will be retried.\<close>

primrec reconcile_entries :: "nat \<Rightarrow> pending_cashout list \<Rightarrow> string list svc" where
  "reconcile_entries w [] = Done []"
| "reconcile_entries w (e # es) =
     (let go_on = (\<lambda>failed. svc_bind (reconcile_entries w es) (\<lambda>fs. Done (if failed then pc_id e # fs else fs)))
      in wallet (reconcile_op w e) (\<lambda>done.
        if done = None
        then svc_bind (record_failed_attempt e) (\<lambda>r. go_on (case r of Inl _ \<Rightarrow> True | Inr (_, quarantined) \<Rightarrow> quarantined))
        else svc_bind (mark_resolved (pc_id e)) (\<lambda>resolved. go_on (\<not> resolved))))"

definition reconcile_run :: "nat \<Rightarrow> (unit + string list) svc" where
  "reconcile_run w = svc_bind (list_unresolved grace_period) (\<lambda>r. case r of
     Inl _ \<Rightarrow> Done (Inl ())
   | Inr es \<Rightarrow> svc_bind (reconcile_entries w es) (\<lambda>fs. Done (Inr fs)))"

section \<open>Stale tables\<close>

definition stale_cutoff :: int where "stale_cutoff = 15 * 60 * 1000000000"
definition query_batch_limit :: nat where "query_batch_limit = 25"

definition archive_table_and_room :: "string \<Rightarrow> stored_table \<Rightarrow> bool svc" where
  "archive_table_and_room tid st = Ask (ArchiveTable tid (st_version st)) (\<lambda>a.
     if a \<noteq> AnswerDone then Done False else best_effort (DeleteRoom tid) (Done True))"

text \<open>Each seat with chips is paid; \<open>False\<close> when one of them could not be.\<close>

primrec refund_seats :: "nat \<Rightarrow> string \<Rightarrow> player list \<Rightarrow> bool svc" where
  "refund_seats w tid [] = Done True"
| "refund_seats w tid (p # ps) =
     (if p_stack p \<le> 0 then refund_seats w tid ps
      else wallet (wallet_call_of w Credit (p_id p) (p_stack p) (tid @ ''#'' @ p_id p @ ''#stale_archive_refund'')
             ''poker_stale_table_refund'') (\<lambda>done.
        svc_bind (refund_seats w tid ps) (\<lambda>ok. Done (done \<noteq> None \<and> ok))))"

definition refund_sandbox_and_archive :: "nat \<Rightarrow> string \<Rightarrow> stored_table \<Rightarrow> bool svc" where
  "refund_sandbox_and_archive w tid st = svc_bind (refund_seats w tid (sv_players (st_state st))) (\<lambda>ok.
     if ok then archive_table_and_room tid st else Done False)"

text \<open>A real-money seat is recorded before it is paid, and a recorded one does not keep the table.\<close>

primrec settle_seats :: "nat \<Rightarrow> string \<Rightarrow> player list \<Rightarrow> bool svc" where
  "settle_seats w tid [] = Done True"
| "settle_seats w tid (p # ps) =
     (if p_stack p \<le> 0 then settle_seats w tid ps
      else let key = tid @ ''#'' @ p_id p @ ''#stale_archive_cashout''; row = cashout_row key ''real'' tid (p_id p) (p_stack p) (p_hold_id p)
        in svc_bind (record_pending row) (\<lambda>recorded.
          if \<not> recorded then svc_bind (settle_seats w tid ps) (\<lambda>_. Done False)
          else wallet (wallet_call_of w (CashoutGame tid (pc_hold_ids row)) (p_id p) (p_stack p) key ''poker_stale_table_refund'') (\<lambda>done.
            if done = None then settle_seats w tid ps
            else svc_bind (mark_resolved key) (\<lambda>_. settle_seats w tid ps))))"

definition settle_real_money_and_archive :: "nat \<Rightarrow> string \<Rightarrow> stored_table \<Rightarrow> bool svc" where
  "settle_real_money_and_archive w tid st = svc_bind (settle_seats w tid (sv_players (st_state st))) (\<lambda>ok.
     if ok then archive_table_and_room tid st else Done False)"

primrec cleanup_tables :: "nat \<Rightarrow> (string \<times> stored_table) list \<Rightarrow> unit svc" where
  "cleanup_tables w [] = Done ()"
| "cleanup_tables w (t # ts) = (case t of (tid, st) \<Rightarrow>
     Ask (AskRoom tid) (\<lambda>a. case a of
       AnswerRoom (Some r) \<Rightarrow>
         if rm_currency_mode r = ''sandbox''
         then svc_bind (refund_sandbox_and_archive w tid st) (\<lambda>_. cleanup_tables w ts)
         else if real_room r then svc_bind (settle_real_money_and_archive w tid st) (\<lambda>_. cleanup_tables w ts)
         else cleanup_tables w ts
     | _ \<Rightarrow> cleanup_tables w ts))"

definition cleanup_run :: "nat \<Rightarrow> bool svc" where
  "cleanup_run w = Now (\<lambda>now. Ask (AskStale (unix_sec (now - stale_cutoff)) query_batch_limit) (\<lambda>a. case a of
     AnswerTables ts \<Rightarrow> svc_bind (cleanup_tables w ts) (\<lambda>_. Done True)
   | _ \<Rightarrow> Done False))"

end
