(* ===== verification/Buyin_Flow.thy ===== *)
theory Buyin_Flow
  imports Settlement_Jobs
begin

text \<open>
  What a run of the buy-in does, whatever it is answered: the stake is on its way at most once and never
  lost, and nobody takes a seat at a table with an entry fee that was not paid.
\<close>

section \<open>Runs\<close>

datatype step =
    DidWallet wallet_call wallet_reply
  | DidPending pending_call pending_reply
  | DidEntitlement entitlement_call entitlement_reply
  | DidTable table_call table_reply
  | DidAsk query answer
  | DidNow int

primrec traces :: "'a svc \<Rightarrow> step list \<Rightarrow> 'a \<Rightarrow> bool" where
  "traces (Done v) tr w \<longleftrightarrow> tr = [] \<and> w = v"
| "traces (Wallet c k) tr w \<longleftrightarrow> (\<exists>r tr'. tr = DidWallet c r # tr' \<and> traces (k r) tr' w)"
| "traces (Pending c k) tr w \<longleftrightarrow> (\<exists>r tr'. tr = DidPending c r # tr' \<and> traces (k r) tr' w)"
| "traces (Entitlements c k) tr w \<longleftrightarrow> (\<exists>r tr'. tr = DidEntitlement c r # tr' \<and> traces (k r) tr' w)"
| "traces (Tables c k) tr w \<longleftrightarrow> (\<exists>r tr'. tr = DidTable c r # tr' \<and> traces (k r) tr' w)"
| "traces (Ask q k) tr w \<longleftrightarrow> (\<exists>r tr'. tr = DidAsk q r # tr' \<and> traces (k r) tr' w)"
| "traces (Now k) tr w \<longleftrightarrow> (\<exists>r tr'. tr = DidNow r # tr' \<and> traces (k r) tr' w)"

lemma traces_bind:
  "traces (svc_bind m f) tr w \<longleftrightarrow> (\<exists>tr1 tr2 v. tr = tr1 @ tr2 \<and> traces m tr1 v \<and> traces (f v) tr2 w)"
proof (induction m arbitrary: tr)
  case (Done v)
  then show ?case by auto
next
  case (Wallet c k)
  then show ?case by (auto simp: Cons_eq_append_conv) (metis append_Cons)+
next
  case (Pending c k)
  then show ?case by (auto simp: Cons_eq_append_conv) (metis append_Cons)+
next
  case (Entitlements c k)
  then show ?case by (auto simp: Cons_eq_append_conv) (metis append_Cons)+
next
  case (Tables c k)
  then show ?case by (auto simp: Cons_eq_append_conv) (metis append_Cons)+
next
  case (Ask c k)
  then show ?case by (auto simp: Cons_eq_append_conv) (metis append_Cons)+
next
  case (Now k)
  then show ?case by (auto simp: Cons_eq_append_conv) (metis append_Cons)+
qed

lemma traces_give [simp]: "traces (give v) tr w \<longleftrightarrow> tr = [] \<and> w = Inr v" by (simp add: give_def)
lemma traces_refuse [simp]: "traces (refuse e) tr w \<longleftrightarrow> tr = [] \<and> w = Inl e" by (simp add: refuse_def)

lemma traces_and_so:
  "traces (and_so m f) tr w \<longleftrightarrow>
     (\<exists>e. w = Inl e \<and> traces m tr (Inl e)) \<or> (\<exists>tr1 tr2 v. tr = tr1 @ tr2 \<and> traces m tr1 (Inr v) \<and> traces (f v) tr2 w)"
proof
  assume "traces (and_so m f) tr w"
  then obtain tr1 tr2 v where t: "tr = tr1 @ tr2" "traces m tr1 v"
    "traces (case v of Inl e \<Rightarrow> refuse e | Inr v \<Rightarrow> f v) tr2 w" unfolding and_so_def traces_bind by blast
  show "(\<exists>e. w = Inl e \<and> traces m tr (Inl e)) \<or> (\<exists>tr1 tr2 v. tr = tr1 @ tr2 \<and> traces m tr1 (Inr v) \<and> traces (f v) tr2 w)"
  proof (cases v)
    case (Inl e)
    then show ?thesis using t by simp
  next
    case (Inr u)
    then have "traces (f u) tr2 w" using t(3) by simp
    then show ?thesis using t(1,2) Inr by blast
  qed
next
  assume "(\<exists>e. w = Inl e \<and> traces m tr (Inl e)) \<or> (\<exists>tr1 tr2 v. tr = tr1 @ tr2 \<and> traces m tr1 (Inr v) \<and> traces (f v) tr2 w)"
  then show "traces (and_so m f) tr w"
  proof (elim disjE exE conjE)
    fix e assume "w = Inl e" "traces m tr (Inl e)"
    then show ?thesis unfolding and_so_def traces_bind by (intro exI [of _ tr] exI [of _ "[]"] exI [of _ "Inl e"]) simp
  next
    fix tr1 tr2 v assume "tr = tr1 @ tr2" "traces m tr1 (Inr v)" "traces (f v) tr2 w"
    then show ?thesis unfolding and_so_def traces_bind by (intro exI [of _ tr1] exI [of _ tr2] exI [of _ "Inr v"]) simp
  qed
qed

lemma traces_wallet:
  "traces (wallet c f) tr w \<longleftrightarrow>
     (\<exists>tr'. tr = DidWallet c WalletFailed # tr' \<and> traces (f None) tr' w) \<or>
     (\<exists>h tr'. tr = DidWallet c (WalletDone h) # tr' \<and> traces (f (Some h)) tr' w)"
proof -
  have "(\<exists>r tr'. tr = DidWallet c r # tr' \<and> P r tr') \<longleftrightarrow>
      (\<exists>tr'. tr = DidWallet c WalletFailed # tr' \<and> P WalletFailed tr') \<or>
      (\<exists>h tr'. tr = DidWallet c (WalletDone h) # tr' \<and> P (WalletDone h) tr')" for P
    by (metis wallet_reply.exhaust)
  then show ?thesis by (simp add: wallet_def)
qed

text \<open>The steps the stake is about: every call of the wallet but the fee, and the join.\<close>

fun stake_call :: "step \<Rightarrow> bool" where
  "stake_call (DidWallet c r) \<longleftrightarrow> wc_op c \<noteq> DebitReal"
| "stake_call _ \<longleftrightarrow> False"

fun seats :: "step \<Rightarrow> bool" where
  "seats (DidTable (Dispatch rid (JoinCmd c)) (TableDone evs)) \<longleftrightarrow> True"
| "seats _ \<longleftrightarrow> False"

definition stakes :: "step list \<Rightarrow> step list" where "stakes tr = filter stake_call tr"
definition clean :: "step list \<Rightarrow> bool" where "clean tr \<longleftrightarrow> stakes tr = [] \<and> \<not> list_ex seats tr"

lemma clean_simps [simp]:
  "clean []" "clean (a @ b) \<longleftrightarrow> clean a \<and> clean b"
  "clean (x # tr) \<longleftrightarrow> \<not> stake_call x \<and> \<not> seats x \<and> clean tr"
  by (auto simp: clean_def stakes_def)

lemma stakes_simps [simp]:
  "stakes [] = []" "stakes (a @ b) = stakes a @ stakes b"
  "stakes (x # tr) = (if stake_call x then [x] else []) @ stakes tr"
  by (auto simp: stakes_def)

section \<open>The parts of a buy-in that move nothing\<close>

text \<open>Every step a program can take satisfies \<open>P\<close>.\<close>

primrec only :: "(step \<Rightarrow> bool) \<Rightarrow> 'a svc \<Rightarrow> bool" where
  "only P (Done v) \<longleftrightarrow> True"
| "only P (Wallet c k) \<longleftrightarrow> (\<forall>r. P (DidWallet c r) \<and> only P (k r))"
| "only P (Pending c k) \<longleftrightarrow> (\<forall>r. P (DidPending c r) \<and> only P (k r))"
| "only P (Entitlements c k) \<longleftrightarrow> (\<forall>r. P (DidEntitlement c r) \<and> only P (k r))"
| "only P (Tables c k) \<longleftrightarrow> (\<forall>r. P (DidTable c r) \<and> only P (k r))"
| "only P (Ask q k) \<longleftrightarrow> (\<forall>r. P (DidAsk q r) \<and> only P (k r))"
| "only P (Now k) \<longleftrightarrow> (\<forall>r. P (DidNow r) \<and> only P (k r))"

lemma only_traces: "only P m \<Longrightarrow> traces m tr w \<Longrightarrow> list_all P tr"
  by (induction m arbitrary: tr) (auto, (meson rangeI)+)

lemma only_bind: "only P m \<Longrightarrow> (\<And>v. only P (f v)) \<Longrightarrow> only P (svc_bind m f)"
  by (induction m) auto

lemma only_and_so: "only P m \<Longrightarrow> (\<And>v. only P (f v)) \<Longrightarrow> only P (and_so m f)"
  unfolding and_so_def by (rule only_bind) (auto simp: refuse_def split: sum.split)

lemma only_simps [simp]: "only P (give v)" "only P (refuse e)" "only P (best_effort q k) \<longleftrightarrow> (\<forall>r. P (DidAsk q r) \<and> only P k)"
  by (simp_all add: give_def refuse_def best_effort_def)

lemma only_wallet: "(\<And>r. P (DidWallet c r)) \<Longrightarrow> (\<And>h. only P (f h)) \<Longrightarrow> only P (wallet c f)"
  by (simp add: wallet_def split: wallet_reply.split)

definition harmless :: "step \<Rightarrow> bool" where "harmless x \<longleftrightarrow> \<not> stake_call x \<and> \<not> seats x"

lemma harmless_simps [simp]:
  "harmless (DidPending c r)" "harmless (DidEntitlement c' r')" "harmless (DidAsk q a)" "harmless (DidNow t)"
  "harmless (DidWallet w x) \<longleftrightarrow> wc_op w = DebitReal" "harmless (DidTable (FindActor rid seed) y)"
  "harmless (DidTable (Dispatch rid (SnapshotCmd pid b)) z)" "harmless (DidTable (Dispatch rid (SetIdentityCmd pid name av ba)) z)"
  by (simp_all add: harmless_def)

lemma harmless_clean: "list_all harmless tr \<Longrightarrow> clean tr"
  by (induction tr) (auto simp: harmless_def)

lemma only_clean: "only harmless m \<Longrightarrow> traces m tr w \<Longrightarrow> clean tr"
  by (rule harmless_clean) (rule only_traces)

named_theorems quiet_parts

lemma quiet_record [quiet_parts]: "only harmless (record_pending p)" by (simp add: record_pending_def)
lemma quiet_get [quiet_parts]: "only harmless (get_pending i)" by (simp add: get_pending_def)
lemma quiet_resolved [quiet_parts]: "only harmless (mark_resolved i)" by (simp add: mark_resolved_def)

lemma quiet_pay_fee [quiet_parts]: "only harmless (pay_entry_fee s pid e k)"
  by (auto simp: pay_entry_fee_def wallet_call_of_def intro!: only_bind only_wallet quiet_parts split: option.split)

lemma quiet_confirm [quiet_parts]: "only harmless (confirm_fee_charged s pid e)"
  by (auto simp: confirm_fee_charged_def Let_def intro!: only_bind quiet_parts split: sum.split option.split)

lemma quiet_active [quiet_parts]: "only harmless (active_for pid)"
  by (auto simp: active_for_def split: entitlement_reply.split)

lemma quiet_claim [quiet_parts]: "only harmless (claim_entitlement e)"
  by (auto simp: claim_entitlement_def Let_def split: option.split)

lemma quiet_rebind [quiet_parts]: "only harmless (rebind a b c d)" by (simp add: rebind_def)

lemma quiet_unavailable [quiet_parts]: "only harmless (table_unavailable s tid)"
  by (auto simp: table_unavailable_def split: answer.split option.split)

lemma quiet_winner [quiet_parts]: "only harmless (active_entitlement_at pid origin)"
  by (auto simp: active_entitlement_at_def intro!: only_bind quiet_parts split: sum.split)

lemma quiet_charge [quiet_parts]: "only harmless (charge_entry_fee s rm pid)"
  by (auto simp: charge_entry_fee_def Let_def intro!: only_bind only_and_so quiet_parts split: sum.split option.split bool.split)

lemma quiet_rebind_first [quiet_parts]: "only harmless (rebind_first s rm pid es)"
  by (induction es) (auto intro!: only_bind quiet_parts split: option.split bool.split)

lemma quiet_resolve [quiet_parts]: "only harmless (resolve_entitlement s rm pid)"
  by (auto simp: resolve_entitlement_def intro!: only_bind quiet_parts split: sum.split option.split)

lemma quiet_seated [quiet_parts]: "only harmless (is_seated_at rid pid)"
  by (simp add: is_seated_at_def)

lemma quiet_open_session: "only harmless k \<Longrightarrow> only harmless (open_session s rid pid amount key k)"
  by (auto simp: open_session_def split: answer.split option.split)

lemma quiet_in_table: "only harmless k \<Longrightarrow> only harmless (mark_in_table s rid pid k)"
  by (simp add: mark_in_table_def)

lemma quiet_identity: "only harmless k \<Longrightarrow> only harmless (seed_identity s room rid pid k)"
  by (auto simp: seed_identity_def Let_def split: answer.split option.split)

section \<open>Where the stake goes\<close>

definition takes_stake :: "string \<Rightarrow> int \<Rightarrow> wallet_call \<Rightarrow> bool" where
  "takes_stake pid amount c \<longleftrightarrow> wc_user c = pid \<and> wc_amount c = amount \<and> (wc_op c = Debit \<or> (\<exists>t. wc_op c = HoldGame t))"

text \<open>\<open>c'\<close> gives back what \<open>c\<close> took, \<open>h\<close> being what \<open>c\<close> was answered with.\<close>

definition gives_back :: "wallet_call \<Rightarrow> string \<Rightarrow> wallet_call \<Rightarrow> bool" where
  "gives_back c h c' \<longleftrightarrow> wc_user c' = wc_user c \<and> wc_client c' = wc_client c \<and>
     (wc_op c = Debit \<and> wc_op c' = Credit \<and> wc_amount c' = wc_amount c \<and> wc_key c' = wc_key c @ '':refund'' \<or>
      (\<exists>t. wc_op c = HoldGame t) \<and> wc_op c' = ReleaseHold h \<and> wc_key c' = wc_key c @ '':release'')"

text \<open>The whole story of a stake: not taken; taken for a seat; given back; or stuck, and reported as such.\<close>

definition stake_accounted :: "string \<Rightarrow> int \<Rightarrow> step list \<Rightarrow> buyin_error + unit \<Rightarrow> bool" where
  "stake_accounted pid amount tr r \<longleftrightarrow>
     (list_all (\<lambda>x. \<exists>c. x = DidWallet c WalletFailed) (stakes tr) \<and> \<not> list_ex seats tr) \<or>
     (\<exists>c h. takes_stake pid amount c \<and> stakes tr = [DidWallet c (WalletDone h)] \<and> list_ex seats tr \<and> r = Inr ()) \<or>
     (\<exists>c h c' h' e. takes_stake pid amount c \<and> gives_back c h c' \<and> \<not> list_ex seats tr \<and>
        stakes tr = [DidWallet c (WalletDone h), DidWallet c' (WalletDone h')] \<and> r = Inl e \<and> e \<noteq> ManualReconciliation) \<or>
     (\<exists>c h c'. takes_stake pid amount c \<and> gives_back c h c' \<and> \<not> list_ex seats tr \<and>
        stakes tr = [DidWallet c (WalletDone h), DidWallet c' WalletFailed] \<and> r = Inl ManualReconciliation)"

lemma clean_accounted: "clean tr \<Longrightarrow> stake_accounted pid amount tr r"
  by (simp add: stake_accounted_def clean_def)

lemma clean_before: "clean tr \<Longrightarrow> stake_accounted pid amount tr' r \<Longrightarrow> stake_accounted pid amount (tr @ tr') r"
  by (simp add: stake_accounted_def clean_def)

lemma step_before: "harmless x \<Longrightarrow> stake_accounted pid amount tr r \<Longrightarrow> stake_accounted pid amount (x # tr) r"
  by (simp add: stake_accounted_def harmless_def)

text \<open>Programs all of whose runs account for the stake.\<close>

definition accounts :: "string \<Rightarrow> int \<Rightarrow> unit prog \<Rightarrow> bool" where
  "accounts pid amount m \<longleftrightarrow> (\<forall>tr r. traces m tr r \<longrightarrow> stake_accounted pid amount tr r)"

lemma accounts_bind: "only harmless m \<Longrightarrow> (\<And>v. accounts pid amount (f v)) \<Longrightarrow> accounts pid amount (svc_bind m f)"
  unfolding accounts_def traces_bind by (blast intro: clean_before dest: only_clean)

lemma accounts_and_so:
  assumes "only harmless m" and "\<And>v. accounts pid amount (f v)"
  shows "accounts pid amount (and_so m f)"
  unfolding and_so_def
  by (rule accounts_bind [OF assms(1)]) (auto simp: accounts_def assms(2) [unfolded accounts_def] clean_accounted split: sum.split)

lemma accounts_refuse [simp]: "accounts pid amount (refuse e)" by (simp add: accounts_def clean_accounted)
lemma accounts_give [simp]: "accounts pid amount (give v)" by (simp add: accounts_def clean_accounted)

lemma accounts_ask: "(\<And>r. accounts pid amount (k r)) \<Longrightarrow> accounts pid amount (Ask q k)"
  by (auto simp: accounts_def intro: step_before)

lemma accounts_find: "(\<And>r. accounts pid amount (k r)) \<Longrightarrow> accounts pid amount (Tables (FindActor rid seed) k)"
  by (auto simp: accounts_def intro: step_before)

text \<open>Every run ends with a value that satisfies \<open>Q\<close>.\<close>

primrec ends :: "('a \<Rightarrow> bool) \<Rightarrow> 'a svc \<Rightarrow> bool" where
  "ends Q (Done v) \<longleftrightarrow> Q v"
| "ends Q (Wallet c k) \<longleftrightarrow> (\<forall>r. ends Q (k r))"
| "ends Q (Pending c k) \<longleftrightarrow> (\<forall>r. ends Q (k r))"
| "ends Q (Entitlements c k) \<longleftrightarrow> (\<forall>r. ends Q (k r))"
| "ends Q (Tables c k) \<longleftrightarrow> (\<forall>r. ends Q (k r))"
| "ends Q (Ask q k) \<longleftrightarrow> (\<forall>r. ends Q (k r))"
| "ends Q (Now k) \<longleftrightarrow> (\<forall>r. ends Q (k r))"

lemma ends_traces: "ends Q m \<Longrightarrow> traces m tr w \<Longrightarrow> Q w"
  by (induction m arbitrary: tr) auto

definition after_seat :: "service \<Rightarrow> room option \<Rightarrow> string \<Rightarrow> string \<Rightarrow> int \<Rightarrow> string \<Rightarrow> unit prog" where
  "after_seat s room rid pid amount key =
     seed_identity s room rid pid (open_session s rid pid amount key (mark_in_table s rid pid (give ())))"

lemma after_seat_quiet: "only harmless (after_seat s room rid pid amount key)"
  unfolding after_seat_def by (intro quiet_identity quiet_open_session quiet_in_table) simp

lemma after_seat_ok: "ends (\<lambda>r. r = Inr ()) (after_seat s (Some rm) rid pid amount key)"
  by (auto simp: after_seat_def seed_identity_def open_session_def mark_in_table_def give_def best_effort_def Let_def
    split: answer.split option.split)

text \<open>A service with a game wallet has the rules of responsible gaming.\<close>

definition wired :: "service \<Rightarrow> bool" where
  "wired s \<longleftrightarrow> (sv_game s \<noteq> None \<longrightarrow> sv_has_rules s)"

lemma release_traces:
  assumes "traces (release_hold mover pid hold_id key e) tr r"
  shows "\<exists>x. tr = [DidWallet (wallet_call_of mover (ReleaseHold hold_id) pid 0 (key @ '':release'') '''') x] \<and>
    r = Inl (if x = WalletFailed then ManualReconciliation else e)"
  using assms by (force simp: release_hold_def traces_wallet)

text \<open>Taking the stake: it is held, or every trace of it is gone.\<close>

lemma take_stake_traces:
  assumes "wired s" and "traces (take_stake s mover rid pid amount key) tr r"
  shows "(case r of
      Inl _ \<Rightarrow> stake_accounted pid amount tr (map_sum id (\<lambda>_. ()) r)
    | Inr hold_id \<Rightarrow> \<exists>c h. c = wallet_call_of mover (if is_game s mover then HoldGame rid else Debit) pid amount key ''poker_buyin'' \<and>
        stakes tr = [DidWallet c (WalletDone h)] \<and> \<not> list_ex seats tr \<and> (is_game s mover \<longrightarrow> hold_id = h))"
proof (cases "is_game s mover")
  case True
  then have rules: "sv_has_rules s" using assms(1) by (auto simp: wired_def is_game_def)
  let ?c = "wallet_call_of mover (HoldGame rid) pid amount key ''poker_buyin''"
  let ?judge = "\<lambda>h a. case a of AnswerBool breached \<Rightarrow> if breached then release_hold mover pid h key LimitBreached else give h
        | _ \<Rightarrow> release_hold mover pid h key LimitCheckFailed"
  from assms(2) True rules consider "tr = [DidWallet ?c WalletFailed]" "r = Inl HoldFailed"
    | h a tr2 where "tr = DidWallet ?c (WalletDone h) # DidAsk (AskInflow pid amount key) a # tr2" "traces (?judge h a) tr2 r"
    by (auto simp: take_stake_def traces_wallet)
  then show ?thesis
  proof cases
    case 1
    then show ?thesis by (simp add: stake_accounted_def wallet_call_of_def)
  next
    case (2 h a tr2)
    have undone: ?thesis if b: "traces (release_hold mover pid h key e) tr2 r" "e \<noteq> ManualReconciliation" for e
    proof -
      from release_traces [OF b(1)] obtain y where y: "tr2 = [DidWallet (wallet_call_of mover (ReleaseHold h) pid 0 (key @ '':release'') '''') y]"
        "r = Inl (if y = WalletFailed then ManualReconciliation else e)" by blast
      show ?thesis
        using b(2) by (cases y) (auto simp: y 2(1) stake_accounted_def takes_stake_def gives_back_def wallet_call_of_def)
    qed
    show ?thesis
    proof (cases "a = AnswerBool False")
      case True
      then show ?thesis using 2 \<open>is_game s mover\<close> by (simp add: wallet_call_of_def)
    next
      case False
      then have "\<exists>e. e \<noteq> ManualReconciliation \<and> traces (release_hold mover pid h key e) tr2 r"
        using 2(2) by (cases a) (auto split: if_splits)
      then show ?thesis using undone by blast
    qed
  qed
next
  case False
  then show ?thesis
    using assms(2) by (auto simp: take_stake_def traces_wallet stake_accounted_def wallet_call_of_def)
qed

lemma return_traces:
  assumes "traces (return_stake s mover pid amount hold_id key) tr r"
  shows "\<exists>c' x. tr = [DidWallet c' x] \<and> r = Inl (if x = WalletFailed then ManualReconciliation else SeatFailed) \<and>
    c' = (if is_game s mover then wallet_call_of mover (ReleaseHold hold_id) pid 0 (key @ '':release'') ''''
          else wallet_call_of mover Credit pid amount (key @ '':refund'') ''poker_buyin_refund'')"
  using assms by (force simp: return_stake_def traces_wallet dest!: release_traces split: if_splits)

lemma join_accounted:
  assumes "stakes tr1 = [DidWallet c (WalletDone h)]" and "\<not> list_ex seats tr1" and "is_game s mover \<longrightarrow> hold_id = h"
    and c: "c = wallet_call_of mover (if is_game s mover then HoldGame rid else Debit) pid amount key ''poker_buyin''"
    and "traces (Tables (Dispatch rid (JoinCmd j)) (\<lambda>r. case r of
         TableDone _ \<Rightarrow> after_seat s (Some rm) rid pid amount key
       | _ \<Rightarrow> return_stake s mover pid amount hold_id key)) tr2 r"
  shows "stake_accounted pid amount (tr1 @ tr2) r"
proof -
  from assms(5) obtain x tr3 where x: "tr2 = DidTable (Dispatch rid (JoinCmd j)) x # tr3"
    "traces (case x of TableDone _ \<Rightarrow> after_seat s (Some rm) rid pid amount key
       | _ \<Rightarrow> return_stake s mover pid amount hold_id key) tr3 r" by auto
  show ?thesis
  proof (cases "\<exists>evs. x = TableDone evs")
    case True
    then have "traces (after_seat s (Some rm) rid pid amount key) tr3 r" and seat: "seats (DidTable (Dispatch rid (JoinCmd j)) x)"
      using x(2) by auto
    then have "clean tr3" "r = Inr ()" using only_clean [OF after_seat_quiet] ends_traces [OF after_seat_ok] by auto
    then show ?thesis
      using assms(1,2) c seat by (auto simp: x(1) clean_def stake_accounted_def takes_stake_def wallet_call_of_def)
  next
    case False
    then have undo: "traces (return_stake s mover pid amount hold_id key) tr3 r" and no: "\<not> seats (DidTable (Dispatch rid (JoinCmd j)) x)"
      using x(2) by (cases x; simp)+
    from return_traces [OF undo] obtain c' y where y: "tr3 = [DidWallet c' y]"
      "r = Inl (if y = WalletFailed then ManualReconciliation else SeatFailed)"
      "c' = (if is_game s mover then wallet_call_of mover (ReleaseHold hold_id) pid 0 (key @ '':release'') ''''
          else wallet_call_of mover Credit pid amount (key @ '':refund'') ''poker_buyin_refund'')" by blast
    have "gives_back c h c'" "takes_stake pid amount c"
      using assms(3) by (simp_all add: y(3) c gives_back_def takes_stake_def wallet_call_of_def)
    moreover have "stakes (tr1 @ tr2) = [DidWallet c (WalletDone h), DidWallet c' y]" "\<not> list_ex seats (tr1 @ tr2)"
      using assms(1,2) no by (auto simp: x(1) y(1,3) wallet_call_of_def)
    ultimately show ?thesis using y(2) by (cases y) (auto simp: stake_accounted_def)
  qed
qed

lemma accounts_seat_player:
  assumes "wired s"
  shows "accounts pid amount (seat_player s (Some rm) max_seats rid pid amount auto_rebuy key)"
proof -
  let ?join = "\<lambda>mover hold_id. Tables (Dispatch rid (JoinCmd (joining pid amount max_seats hold_id auto_rebuy))) (\<lambda>r. case r of
         TableDone _ \<Rightarrow> after_seat s (Some rm) rid pid amount key
       | _ \<Rightarrow> return_stake s mover pid amount hold_id key)"
  have go: "accounts pid amount (and_so (take_stake s mover rid pid amount key) (?join mover))" for mover
    unfolding accounts_def
  proof (intro allI impI)
    fix tr r assume "traces (and_so (take_stake s mover rid pid amount key) (?join mover)) tr r"
    then consider e where "r = Inl e" "traces (take_stake s mover rid pid amount key) tr (Inl e)"
      | tr1 tr2 hold_id where "tr = tr1 @ tr2" "traces (take_stake s mover rid pid amount key) tr1 (Inr hold_id)"
          "traces (?join mover hold_id) tr2 r" unfolding traces_and_so by blast
    then show "stake_accounted pid amount tr r"
    proof cases
      case 1
      then show ?thesis using take_stake_traces [OF assms 1(2)] by simp
    next
      case 2
      from take_stake_traces [OF assms 2(2)] obtain c h where
        "c = wallet_call_of mover (if is_game s mover then HoldGame rid else Debit) pid amount key ''poker_buyin''"
        "stakes tr1 = [DidWallet c (WalletDone h)]" "\<not> list_ex seats tr1" "is_game s mover \<longrightarrow> hold_id = h" by auto
      then show ?thesis using join_accounted 2(1,3) by blast
    qed
  qed
  show ?thesis
    unfolding seat_player_def wallet_for_def get_room_def after_seat_def [symmetric]
    by (auto intro!: accounts_ask go split: answer.split option.split)
qed

lemma accounts_buy_in:
  assumes "wired s"
  shows "accounts pid amount (buy_in s rid pid amount auto_rebuy idem_key)"
proof -
  let ?key = "buyin_key rid pid idem_key"
  have seat: "accounts pid amount (seat_player s room max_seats rid pid amount auto_rebuy ?key)"
    if "room = None \<longrightarrow> \<not> sv_has_rooms s" for room max_seats
    using that accounts_seat_player [OF assms] by (cases room) (simp_all add: seat_player_def wallet_for_def get_room_def)
  have real: "accounts pid amount (check_real s room pid amount k)" if "accounts pid amount k" for room k
    using that by (auto simp: check_real_def intro!: accounts_ask accounts_and_so quiet_parts split: option.split)
  have check: "accounts pid amount (check_seat rid pid max_seats k)" if "accounts pid amount k" for max_seats k
    using that by (auto simp: check_seat_def intro!: accounts_bind quiet_parts split: sum.split)
  have find: "accounts pid amount (find_actor s rid k)" if "accounts pid amount k" for k
    using that by (auto simp: find_actor_def Let_def intro!: accounts_ask accounts_find)
  have terms: "accounts pid amount (check_terms s pid k)" if "accounts pid amount k" for k
    using that by (auto simp: check_terms_def intro!: accounts_ask)
  show ?thesis
    unfolding buy_in_def get_room_def Let_def
    by (auto intro!: accounts_ask terms find check real seat split: answer.split option.split)
qed

section \<open>The fee before the seat\<close>

text \<open>What a program knows when it ends, from the steps it took.\<close>

primrec knowing :: "('a \<Rightarrow> step set \<Rightarrow> bool) \<Rightarrow> 'a svc \<Rightarrow> step set \<Rightarrow> bool" where
  "knowing Q (Done v) S = Q v S"
| "knowing Q (Wallet c k) S = (\<forall>r. knowing Q (k r) (insert (DidWallet c r) S))"
| "knowing Q (Pending c k) S = (\<forall>r. knowing Q (k r) (insert (DidPending c r) S))"
| "knowing Q (Entitlements c k) S = (\<forall>r. knowing Q (k r) (insert (DidEntitlement c r) S))"
| "knowing Q (Tables c k) S = (\<forall>r. knowing Q (k r) (insert (DidTable c r) S))"
| "knowing Q (Ask q k) S = (\<forall>r. knowing Q (k r) (insert (DidAsk q r) S))"
| "knowing Q (Now k) S = (\<forall>r. knowing Q (k r) (insert (DidNow r) S))"

lemma knowing_bind: "knowing Q (svc_bind m f) S = knowing (\<lambda>v S. knowing Q (f v) S) m S"
  by (induction m arbitrary: S) simp_all

lemma knowing_traces: "knowing Q m S \<Longrightarrow> traces m tr w \<Longrightarrow> Q w (S \<union> set tr)"
  by (induction m arbitrary: tr S) (auto, (metis Un_insert_left rangeI)+)

lemma knowing_anything:
  assumes "\<And>v S'. S \<subseteq> S' \<Longrightarrow> Q v S'"
  shows "knowing Q m S"
  using assms by (induction m arbitrary: S) fastforce+

lemma knowing_weaken:
  assumes "knowing P m S" and "\<And>v S. P v S \<Longrightarrow> Q v S"
  shows "knowing Q m S"
  using assms by (induction m arbitrary: S) auto

lemma knowing_wallet:
  "knowing Q (wallet c f) S \<longleftrightarrow> knowing Q (f None) (insert (DidWallet c WalletFailed) S) \<and>
     (\<forall>h. knowing Q (f (Some h)) (insert (DidWallet c (WalletDone h)) S))"
  by (auto simp: wallet_def split: wallet_reply.split)

text \<open>
  The reservation that lets a player sit down in a room, read off the steps of the run: one of the player's
  rows, still running when it was read, of the room's tier and bound to the room, or moved to the room by an
  accepted write; or one made for this room by an accepted write, with the room's fee; or, when that write
  was refused because there is one already, a row of the player whose table of origin is this room.
\<close>

definition listed :: "string \<Rightarrow> step set \<Rightarrow> entitlement \<Rightarrow> bool" where
  "listed pid S e \<longleftrightarrow> (\<exists>rows at. DidEntitlement (ListEntitlements pid) (EntitlementRows rows) \<in> S \<and> e \<in> set rows \<and>
     DidNow at \<in> S \<and> at < en_expires_at e)"

definition made_for :: "room \<Rightarrow> string \<Rightarrow> entitlement \<Rightarrow> bool" where
  "made_for rm pid e \<longleftrightarrow> en_player_id e = pid \<and> en_origin_table_id e = rm_id rm \<and> en_bound_table_id e = rm_id rm \<and>
     en_tier e = rm_tier rm \<and> en_fee_cents e = rm_entry_fee_cents rm"

definition reserved_here :: "room \<Rightarrow> string \<Rightarrow> step set \<Rightarrow> entitlement \<Rightarrow> bool" where
  "reserved_here rm pid S e \<longleftrightarrow>
     listed pid S e \<and> en_tier e = rm_tier rm \<and>
       (en_bound_table_id e = rm_id rm \<or>
        (\<exists>at. DidEntitlement (MoveEntitlement pid (en_origin_table_id e) (en_bound_table_id e) (rm_id rm) at) EntitlementDone \<in> S)) \<or>
     (\<exists>at. DidEntitlement (PutEntitlement e at) EntitlementDone \<in> S) \<and> made_for rm pid e \<or>
     (\<exists>e' at. DidEntitlement (PutEntitlement e' at) EntitlementRefused \<in> S \<and> made_for rm pid e') \<and>
       listed pid S e \<and> en_origin_table_id e = rm_id rm"

text \<open>
  The fee of a reservation is covered: it has none, its recovery row is settled, or the game wallet has been
  charged under the key of the reservation.
\<close>

definition fee_covered :: "service \<Rightarrow> string \<Rightarrow> entitlement \<Rightarrow> step set \<Rightarrow> bool" where
  "fee_covered s pid e S \<longleftrightarrow> en_fee_cents e \<le> 0 \<or>
     (\<exists>p. DidPending (GetRow (entitlement_fee_key pid e)) (PendingRow (Some p)) \<in> S \<and> pc_resolved p) \<or>
     (\<exists>g h. sv_game s = Some g \<and>
        DidWallet (wallet_call_of g DebitReal pid (en_fee_cents e) (entitlement_fee_key pid e) ''poker_table_fee'')
          (WalletDone h) \<in> S)"

definition covered :: "service \<Rightarrow> room \<Rightarrow> string \<Rightarrow> step set \<Rightarrow> bool" where
  "covered s rm pid S \<longleftrightarrow> (\<exists>e. reserved_here rm pid S e \<and> fee_covered s pid e S)"

lemma listed_mono: "listed pid S e \<Longrightarrow> S \<subseteq> S' \<Longrightarrow> listed pid S' e"
  unfolding listed_def by blast

lemma reserved_mono: "reserved_here rm pid S e \<Longrightarrow> S \<subseteq> S' \<Longrightarrow> reserved_here rm pid S' e"
  unfolding reserved_here_def by (meson listed_mono subsetD)

lemma covered_mono: "covered s rm pid S \<Longrightarrow> S \<subseteq> S' \<Longrightarrow> covered s rm pid S'"
  unfolding covered_def fee_covered_def by (meson reserved_mono subsetD)

text \<open>Programs that end well only when the fee of a reservation for the room is covered.\<close>

abbreviation covers :: "service \<Rightarrow> room \<Rightarrow> string \<Rightarrow> unit prog \<Rightarrow> step set \<Rightarrow> bool" where
  "covers s rm pid \<equiv> knowing (\<lambda>v S. v = Inr () \<longrightarrow> covered s rm pid S)"

lemma knowing_refuse: "knowing Q (refuse x) S = Q (Inl x) S" by (simp add: refuse_def)

lemma covers_refuse [simp]: "covers s rm pid (refuse x) S" by (simp add: refuse_def)

lemma covers_bind: "(\<And>v S'. S \<subseteq> S' \<Longrightarrow> covers s rm pid (f v) S') \<Longrightarrow> covers s rm pid (svc_bind m f) S"
  unfolding knowing_bind by (rule knowing_anything)

text \<open>The row that was stored has its times in whole seconds, which leaves its key as it is.\<close>

lemma covers_pay:
  assumes "reserved_here rm pid S e'" and "entitlement_fee_key pid e' = entitlement_fee_key pid e"
    and "en_fee_cents e' = en_fee_cents e"
  shows "covers s rm pid (pay_entry_fee s pid e (entitlement_fee_key pid e)) S"
proof -
  let ?k = "entitlement_fee_key pid e"
  have paid: "covers s rm pid (svc_bind (mark_resolved ?k) (\<lambda>_. give ())) (insert (DidWallet
      (wallet_call_of g DebitReal pid (en_fee_cents e) ?k ''poker_table_fee'') (WalletDone h)) S')"
    if "S \<subseteq> S'" "sv_game s = Some g" for g h S'
    unfolding knowing_bind
  proof (rule knowing_anything)
    fix v S'' assume S: "insert (DidWallet (wallet_call_of g DebitReal pid (en_fee_cents e) ?k ''poker_table_fee'')
      (WalletDone h)) S' \<subseteq> S''"
    have "reserved_here rm pid S'' e'" using reserved_mono [OF assms(1)] that(1) S by blast
    moreover have "fee_covered s pid e' S''" using S assms(2,3) that(2) unfolding fee_covered_def by auto
    ultimately show "covers s rm pid (give ()) S''" by (auto simp: give_def covered_def)
  qed
  show ?thesis
    unfolding pay_entry_fee_def
    by (rule covers_bind) (auto simp: knowing_wallet paid split: option.split)
qed

lemma covers_confirm:
  assumes "reserved_here rm pid S e"
  shows "covers s rm pid (confirm_fee_charged s pid e) S"
proof -
  let ?k = "entitlement_fee_key pid e"
  have free: "covers s rm pid (give ()) S" if "en_fee_cents e \<le> 0"
    using that assms by (auto simp: give_def covered_def fee_covered_def)
  have settled: "covers s rm pid (give ()) (insert (DidPending (GetRow ?k) (PendingRow (Some p))) S)" if "pc_resolved p" for p
    using that reserved_mono [OF assms, of "insert (DidPending (GetRow ?k) (PendingRow (Some p))) S"]
    by (auto simp: give_def covered_def fee_covered_def)
  have pay: "covers s rm pid (pay_entry_fee s pid e ?k) (insert x S)" for x
    by (rule covers_pay [OF reserved_mono [OF assms] refl refl]) blast
  show ?thesis
    using free settled pay
    by (auto simp: confirm_fee_charged_def Let_def get_pending_def split: pending_reply.split option.split)
qed

lemma whole_seconds_key: "entitlement_fee_key pid (e\<lparr>en_expires_at := whole_seconds (en_expires_at e), en_created_at := c\<rparr>) =
    entitlement_fee_key pid e"
  by (simp add: entitlement_fee_key_def whole_seconds_def unix_sec_def seconds_def)

lemma found: "List.find P xs = Some x \<Longrightarrow> x \<in> set xs \<and> P x"
  by (auto simp: find_Some_iff)

text \<open>A reservation of the player's that was claimed before.\<close>

lemma covers_winner:
  assumes "DidEntitlement (PutEntitlement e' at) EntitlementRefused \<in> S" and "made_for rm pid e'"
  shows "covers s rm pid (and_so (active_entitlement_at pid (rm_id rm)) (\<lambda>winner. case winner of
      None \<Rightarrow> refuse WinnerUnreadable | Some e \<Rightarrow> confirm_fee_charged s pid e)) S"
proof -
  have "covers s rm pid (case List.find (\<lambda>e. en_origin_table_id e = rm_id rm) (filter (\<lambda>e. now < en_expires_at e) rows) of
      None \<Rightarrow> refuse WinnerUnreadable | Some e \<Rightarrow> confirm_fee_charged s pid e)
      (insert (DidNow now) (insert (DidEntitlement (ListEntitlements pid) (EntitlementRows rows)) S))" (is "covers s rm pid ?m ?S") for rows now
  proof (cases "List.find (\<lambda>e. en_origin_table_id e = rm_id rm) (filter (\<lambda>e. now < en_expires_at e) rows)")
    case (Some e)
    then have "e \<in> set rows" "now < en_expires_at e" "en_origin_table_id e = rm_id rm"
      by (auto dest: found)
    then have "listed pid ?S e" by (auto simp: listed_def)
    then have "reserved_here rm pid ?S e"
      using assms \<open>en_origin_table_id e = rm_id rm\<close> unfolding reserved_here_def by blast
    then show ?thesis using Some covers_confirm by simp
  qed simp
  then show ?thesis
    by (auto simp: and_so_def active_entitlement_at_def active_for_def knowing_bind give_def
      knowing_refuse split: entitlement_reply.split)
qed

lemma covers_charge: "covers s rm pid (charge_entry_fee s rm pid) S"
proof (cases "sv_has_pending s")
  case True
  have "covers s rm pid (svc_bind (claim_entitlement e) (\<lambda>c. case c of
             Inr _ \<Rightarrow> pay_entry_fee s pid e (entitlement_fee_key pid e)
           | Inl False \<Rightarrow> refuse ClaimFailed
           | Inl True \<Rightarrow> and_so (active_entitlement_at pid (rm_id rm)) (\<lambda>winner. case winner of
               None \<Rightarrow> refuse WinnerUnreadable | Some e \<Rightarrow> confirm_fee_charged s pid e))) S'"
    if e: "made_for rm pid e" "en_created_at e = None" for e S'
  proof -
    let ?e = "\<lambda>created. e\<lparr>en_expires_at := whole_seconds (en_expires_at e), en_created_at := Some (whole_seconds created)\<rparr>"
    let ?S = "\<lambda>created now r. insert (DidEntitlement (PutEntitlement (?e created) (unix_sec now)) r)
      (insert (DidNow now) (insert (DidNow created) S'))"
    have made: "made_for rm pid (?e created)" for created using e(1) by (simp add: made_for_def)
    have "reserved_here rm pid (?S created now EntitlementDone) (?e created)" for created now
      using made unfolding reserved_here_def by blast
    then have pay: "covers s rm pid (pay_entry_fee s pid e (entitlement_fee_key pid e)) (?S created now EntitlementDone)" for created now
      by (rule covers_pay) (simp_all add: whole_seconds_key)
    have win: "covers s rm pid (and_so (active_entitlement_at pid (rm_id rm)) (\<lambda>winner. case winner of
               None \<Rightarrow> refuse WinnerUnreadable | Some e \<Rightarrow> confirm_fee_charged s pid e)) (?S created now EntitlementRefused)" for created now
      by (rule covers_winner [OF _ made]) blast
    show ?thesis
      using pay win e(2)
      by (auto simp: claim_entitlement_def Let_def knowing_bind split: entitlement_reply.split)
  qed
  then show ?thesis
    using True by (simp add: charge_entry_fee_def Let_def made_for_def)
qed (simp add: charge_entry_fee_def)

lemma covers_rebind_first:
  assumes "\<forall>e\<in>set es. listed pid S e"
  shows "covers s rm pid (rebind_first s rm pid es) S"
  using assms
proof (induction es arbitrary: S)
  case Nil
  then show ?case by (simp add: covers_charge)
next
  case (Cons e es)
  have later: "covers s rm pid (rebind_first s rm pid es) S'" if "S \<subseteq> S'" for S'
    using Cons.IH [of S'] Cons.prems listed_mono [OF _ that] by auto
  have moved: "covers s rm pid (svc_bind (rebind pid (en_origin_table_id e) (en_bound_table_id e) (rm_id rm)) (\<lambda>moved. case moved of
      None \<Rightarrow> refuse RebindFailed | Some False \<Rightarrow> rebind_first s rm pid es | Some True \<Rightarrow> confirm_fee_charged s pid e)) S'"
    if "S \<subseteq> S'" "en_tier e = rm_tier rm" for S'
  proof -
    have "covers s rm pid (confirm_fee_charged s pid e) (insert (DidEntitlement
        (MoveEntitlement pid (en_origin_table_id e) (en_bound_table_id e) (rm_id rm) at) EntitlementDone) (insert (DidNow now) S'))"
      (is "covers s rm pid _ ?S") for at now
    proof (rule covers_confirm)
      have "listed pid ?S e" using Cons.prems listed_mono [of pid S e ?S] that(1) by auto
      then show "reserved_here rm pid ?S e" using that(2) unfolding reserved_here_def by blast
    qed
    moreover have "covers s rm pid (rebind_first s rm pid es) (insert x (insert y S'))" for x y
      by (rule later) (use that(1) in blast)
    ultimately show ?thesis
      by (auto simp: rebind_def knowing_bind split: entitlement_reply.split)
  qed
  show ?case
  proof (cases "en_tier e \<noteq> rm_tier rm \<or> en_bound_table_id e = rm_id rm")
    case True
    then show ?thesis using later [of S] by simp
  next
    case False
    then show ?thesis
      unfolding rebind_first.simps if_not_P [OF False]
      by (intro covers_bind) (simp add: later moved)
  qed
qed

lemma covers_resolve: "covers s rm pid (resolve_entitlement s rm pid) S"
proof (cases "sv_has_entitlements s")
  case True
  have "covers s rm pid (case List.find (\<lambda>e. en_tier e = rm_tier rm \<and> en_bound_table_id e = rm_id rm)
        (filter (\<lambda>e. now < en_expires_at e) rows) of
      Some e \<Rightarrow> confirm_fee_charged s pid e
    | None \<Rightarrow> rebind_first s rm pid (filter (\<lambda>e. now < en_expires_at e) rows))
      (insert (DidNow now) (insert (DidEntitlement (ListEntitlements pid) (EntitlementRows rows)) S))" (is "covers s rm pid ?m ?S") for rows now
  proof (cases "List.find (\<lambda>e. en_tier e = rm_tier rm \<and> en_bound_table_id e = rm_id rm) (filter (\<lambda>e. now < en_expires_at e) rows)")
    case None
    have "\<forall>e\<in>set (filter (\<lambda>e. now < en_expires_at e) rows). listed pid ?S e" by (auto simp: listed_def)
    then show ?thesis using None covers_rebind_first by simp
  next
    case (Some e)
    then have e: "e \<in> set rows" "now < en_expires_at e" "en_tier e = rm_tier rm" "en_bound_table_id e = rm_id rm"
      by (auto dest: found)
    then have "listed pid ?S e" by (auto simp: listed_def)
    then have "reserved_here rm pid ?S e" using e(3,4) unfolding reserved_here_def by blast
    then show ?thesis using Some covers_confirm by simp
  qed
  then show ?thesis
    using True by (auto simp: resolve_entitlement_def active_for_def knowing_bind split: entitlement_reply.split)
qed (simp add: resolve_entitlement_def)

text \<open>What holds whenever a step is taken, from the steps before it.\<close>

primrec guarded :: "(step set \<Rightarrow> step \<Rightarrow> bool) \<Rightarrow> 'a svc \<Rightarrow> step set \<Rightarrow> bool" where
  "guarded G (Done v) S = True"
| "guarded G (Wallet c k) S = (\<forall>r. G S (DidWallet c r) \<and> guarded G (k r) (insert (DidWallet c r) S))"
| "guarded G (Pending c k) S = (\<forall>r. G S (DidPending c r) \<and> guarded G (k r) (insert (DidPending c r) S))"
| "guarded G (Entitlements c k) S = (\<forall>r. G S (DidEntitlement c r) \<and> guarded G (k r) (insert (DidEntitlement c r) S))"
| "guarded G (Tables c k) S = (\<forall>r. G S (DidTable c r) \<and> guarded G (k r) (insert (DidTable c r) S))"
| "guarded G (Ask q k) S = (\<forall>r. G S (DidAsk q r) \<and> guarded G (k r) (insert (DidAsk q r) S))"
| "guarded G (Now k) S = (\<forall>r. G S (DidNow r) \<and> guarded G (k r) (insert (DidNow r) S))"

primrec stepwise :: "(step set \<Rightarrow> step \<Rightarrow> bool) \<Rightarrow> step set \<Rightarrow> step list \<Rightarrow> bool" where
  "stepwise G S [] \<longleftrightarrow> True"
| "stepwise G S (x # xs) \<longleftrightarrow> G S x \<and> stepwise G (insert x S) xs"

lemma stepwise_at: "stepwise G S (earlier @ x # rest) \<Longrightarrow> G (S \<union> set earlier) x"
proof (induction earlier arbitrary: S)
  case (Cons a earlier)
  then show ?case using Cons.IH [of "insert a S"] by simp
qed simp

lemma guarded_stepwise: "guarded G m S \<Longrightarrow> traces m tr w \<Longrightarrow> stepwise G S tr"
  by (induction m arbitrary: S tr) (auto, (meson rangeI)+)

lemma guarded_traces: "guarded G m S \<Longrightarrow> traces m (earlier @ x # rest) w \<Longrightarrow> G (S \<union> set earlier) x"
  by (rule stepwise_at) (rule guarded_stepwise)

lemma guarded_bind:
  "guarded G (svc_bind m f) S \<longleftrightarrow> guarded G m S \<and> knowing (\<lambda>v S. guarded G (f v) S) m S"
  by (induction m arbitrary: S) (simp_all, blast+)

lemma guarded_only: "only P m \<Longrightarrow> (\<And>S x. P x \<Longrightarrow> G S x) \<Longrightarrow> guarded G m S"
  by (induction m arbitrary: S) simp_all

lemma guarded_ever: "\<forall>S' x. S \<subseteq> S' \<longrightarrow> G S' x \<Longrightarrow> guarded G m S"
  by (induction m arbitrary: S) simp_all

text \<open>A seat needs the fee.\<close>

definition fee_first :: "service \<Rightarrow> room \<Rightarrow> string \<Rightarrow> step set \<Rightarrow> step \<Rightarrow> bool" where
  "fee_first s rm pid S x \<longleftrightarrow> (seats x \<longrightarrow> covered s rm pid S)"

lemma fee_first_harmless: "only harmless m \<Longrightarrow> guarded (fee_first s rm pid) m S"
  by (erule guarded_only) (simp add: fee_first_def harmless_def)

lemma fee_first_covered: "covered s rm pid S \<Longrightarrow> guarded (fee_first s rm pid) m S"
  by (rule guarded_ever) (blast intro: covered_mono fee_first_def [THEN iffD2])

lemma fee_first_check_real:
  assumes "real_room rm" and "rm_entry_fee_cents rm > 0"
  shows "guarded (fee_first s rm pid) (check_real s (Some rm) pid amount k) S"
proof -
  have "knowing (\<lambda>r. guarded (fee_first s rm pid) (case r of Inl e \<Rightarrow> refuse e | Inr _ \<Rightarrow> k)) (resolve_entitlement s rm pid) S'" for S'
  proof -
    have "guarded (fee_first s rm pid) (case r of Inl e \<Rightarrow> refuse e | Inr _ \<Rightarrow> k) S''"
      if "r = Inr () \<longrightarrow> covered s rm pid S''" for r S''
      using that fee_first_covered by (cases r) (simp_all add: refuse_def)
    then show ?thesis
      by (rule knowing_weaken [OF covers_resolve]) blast
  qed
  then show ?thesis
    using assms by (auto simp: check_real_def and_so_def guarded_bind fee_first_harmless quiet_parts refuse_def fee_first_def)
qed

text \<open>C19: the entry fee comes before the seat. In a room for real money with an entry fee nobody is
  seated unless, at that moment of the run, there is a reservation for the room and its fee is covered.
  The reservation is a running row of the player, as listed in this run, of the room's tier and bound to the
  room or moved to it by an accepted write; or it was made for the room, with its fee, by an accepted write;
  or that write was refused and the reservation is a running row of the player that originates at the room.
  Its fee is covered when it has none, when its recovery row was read as settled, or when the game wallet
  has been charged under its key, in this very run.\<close>

theorem fee_paid_before_seat:
  assumes "traces (buy_in s rid pid amount auto_rebuy idem_key)
      (DidAsk (AskRoom rid) (AnswerRoom (Some rm)) # earlier @ DidTable (Dispatch tid (JoinCmd c)) (TableDone evs) # rest) r"
    and "real_room rm" and "rm_entry_fee_cents rm > 0"
  shows "\<exists>e. reserved_here rm pid (set earlier) e \<and> fee_covered s pid e (set earlier)"
proof -
  let ?G = "fee_first s rm pid"
  have "sv_has_rooms s" using assms(1) by (auto simp: buy_in_def get_room_def Let_def check_terms_def find_actor_def split: if_splits)
  then obtain max_seats where run: "traces (check_terms s pid (find_actor s rid (check_seat rid pid max_seats
      (check_real s (Some rm) pid amount (seat_player s (Some rm) max_seats rid pid amount auto_rebuy (buyin_key rid pid idem_key))))))
      (earlier @ DidTable (Dispatch tid (JoinCmd c)) (TableDone evs) # rest) r"
    using assms(1) by (auto simp: buy_in_def get_room_def Let_def split: if_splits)
  have seat: "guarded ?G (check_seat rid pid max_seats (check_real s (Some rm) pid amount k)) S" for k S
    unfolding check_seat_def guarded_bind
    by (auto simp: fee_first_harmless quiet_parts refuse_def give_def fee_first_check_real [OF assms(2,3)]
      intro!: knowing_anything split: sum.split)
  have "guarded ?G (check_terms s pid (find_actor s rid (check_seat rid pid max_seats (check_real s (Some rm) pid amount k)))) {}" for k
    by (auto simp: check_terms_def find_actor_def Let_def refuse_def seat fee_first_def)
  from guarded_traces [OF this run] show ?thesis by (simp add: fee_first_def covered_def)
qed

text \<open>C18: the stake of a buy-in is accounted for. Whatever the wallet, the store, the table and the other
  services answer, a buy-in either takes nothing and seats nobody; or takes the amount once and the join is
  accepted, and reports success; or takes it, fails to seat the player and gives it back to the same player,
  by a refund of the same amount or the release of the same hold under a key of its own; or the giving back
  fails too, which is reported as needing manual reconciliation.\<close>

theorem buy_in_accounts_for_stake:
  assumes "wired s" and "traces (buy_in s rid pid amount auto_rebuy idem_key) tr r"
  shows "stake_accounted pid amount tr r"
  using accounts_buy_in [OF assms(1)] assms(2) by (simp add: accounts_def)

text \<open>A run that is given step by step is one the program can take.\<close>

primrec follow :: "'a svc \<Rightarrow> step list \<Rightarrow> 'a option" where
  "follow (Done v) tr = (if tr = [] then Some v else None)"
| "follow (Wallet c k) tr = (case tr of DidWallet c' r # rest \<Rightarrow> if c' = c then follow (k r) rest else None | _ \<Rightarrow> None)"
| "follow (Pending c k) tr = (case tr of DidPending c' r # rest \<Rightarrow> if c' = c then follow (k r) rest else None | _ \<Rightarrow> None)"
| "follow (Entitlements c k) tr =
     (case tr of DidEntitlement c' r # rest \<Rightarrow> if c' = c then follow (k r) rest else None | _ \<Rightarrow> None)"
| "follow (Tables c k) tr = (case tr of DidTable c' r # rest \<Rightarrow> if c' = c then follow (k r) rest else None | _ \<Rightarrow> None)"
| "follow (Ask q k) tr = (case tr of DidAsk q' r # rest \<Rightarrow> if q' = q then follow (k r) rest else None | _ \<Rightarrow> None)"
| "follow (Now k) tr = (case tr of DidNow r # rest \<Rightarrow> follow (k r) rest | _ \<Rightarrow> None)"

lemma follow_traces: "follow m tr = Some w \<Longrightarrow> traces m tr w"
  by (induction m arbitrary: tr) (auto split: if_splits list.splits step.splits)

definition plain_service :: service where
  "plain_service = \<lparr>sv_wallet = 0, sv_game = None, sv_has_rooms = True, sv_has_rules = False, sv_has_pending = True,
     sv_has_entitlements = False, sv_has_sessions = False, sv_has_players = False, sv_has_stats = False,
     sv_has_presence = False\<rparr>"

definition sandbox_room :: room where
  "sandbox_room = \<lparr>rm_id = ''t1'', rm_visibility = ''public'', rm_currency_mode = ''sandbox'', rm_small_blind = 5,
     rm_big_blind = 10, rm_max_seats = 6, rm_buy_in_min = 200, rm_buy_in_max = 1000, rm_entry_fee_cents = 0,
     rm_tier = '''', rm_variant = '''', rm_share_code = '''', rm_blind_escalation = None, rm_turn_timeout_seconds = 0,
     rm_equity_display_enabled = False, rm_run_it_twice_enabled = False, rm_status = ''waiting'', rm_seats_taken = 0,
     rm_created_by = '''', rm_created_at = ''''\<rparr>"

text \<open>A buy-in whose join fails.\<close>

definition failed_buy_in :: "step list" where
  "failed_buy_in = [DidAsk (AskRoom ''t1'') (AnswerRoom (Some sandbox_room)), DidAsk (AskRoom ''t1'') (AnswerRoom (Some sandbox_room)),
     DidTable (FindActor ''t1'' (seed_for (Some sandbox_room))) TableFound,
     DidTable (Dispatch ''t1'' (SnapshotCmd ''a'' False)) (TableDone []), DidAsk (AskRoom ''t1'') (AnswerRoom (Some sandbox_room)),
     DidWallet (wallet_call_of 0 Debit ''a'' 1000 ''t1#a#buyin#k'' ''poker_buyin'') (WalletDone ''''),
     DidTable (Dispatch ''t1'' (JoinCmd (joining ''a'' 1000 6 '''' False))) TableFailed,
     DidWallet (wallet_call_of 0 Credit ''a'' 1000 ''t1#a#buyin#k:refund'' ''poker_buyin_refund'') (WalletDone '''')]"

lemma buy_in_accounts_for_stake_witness: "stake_accounted ''a'' 1000 failed_buy_in (Inl SeatFailed)"
proof (rule buy_in_accounts_for_stake)
  show "wired plain_service" by (simp add: wired_def plain_service_def)
  show "traces (buy_in plain_service ''t1'' ''a'' 1000 False ''k'') failed_buy_in (Inl SeatFailed)"
    by (rule follow_traces) (simp add: buy_in_def get_room_def amount_allowed_def check_terms_def find_actor_def check_seat_def is_seated_at_def
      answered_def check_real_def real_room_def seat_player_def wallet_for_def take_stake_def return_stake_def is_game_def
      and_so_def wallet_def give_def refuse_def wallet_call_of_def buyin_key_def joining_def failed_buy_in_def plain_service_def sandbox_room_def Let_def)
qed

text \<open>A room for real money, its service, and the steps of a buy-in up to the seat.\<close>

definition real_service :: service where
  "real_service = plain_service\<lparr>sv_wallet := 1, sv_game := Some 0, sv_has_rules := True, sv_has_entitlements := True\<rparr>"

definition cash_room :: room where
  "cash_room = sandbox_room\<lparr>rm_currency_mode := ''real'', rm_entry_fee_cents := 50, rm_tier := ''micro''\<rparr>"

definition reservation :: entitlement where
  "reservation = \<lparr>en_player_id = ''a'', en_origin_table_id = ''t1'', en_bound_table_id = ''t1'', en_tier = ''micro'',
     en_fee_cents = 50, en_expires_at = 10000000000, en_created_at = None\<rparr>"

definition settled_fee :: pending_cashout where
  "settled_fee = (fee_row ''a'' reservation ''t1#a#buyinfee#10'')\<lparr>pc_resolved := True\<rparr>"

definition until_seat :: "step list" where
  "until_seat = [DidAsk (AskRoom ''t1'') (AnswerRoom (Some cash_room)),
     DidTable (FindActor ''t1'' (seed_for (Some cash_room))) TableFound,
     DidTable (Dispatch ''t1'' (SnapshotCmd ''a'' False)) (TableDone []), DidAsk (AskEligible ''a'' 1000) AnswerDone,
     DidEntitlement (ListEntitlements ''a'') (EntitlementRows [reservation]), DidNow 0,
     DidPending (GetRow ''t1#a#buyinfee#10'') (PendingRow (Some settled_fee)), DidAsk (AskRoom ''t1'') (AnswerRoom (Some cash_room)),
     DidWallet (wallet_call_of 0 (HoldGame ''t1'') ''a'' 1000 ''t1#a#buyin#k'' ''poker_buyin'') (WalletDone ''h''),
     DidAsk (AskInflow ''a'' 1000 ''t1#a#buyin#k'') (AnswerBool False)]"

lemma fee_paid_before_seat_witness:
  "\<exists>e. reserved_here cash_room ''a'' (set until_seat) e \<and> fee_covered real_service ''a'' e (set until_seat)"
proof (rule fee_paid_before_seat)
  have ten: "entitlement_fee_key ''a'' reservation = ''t1#a#buyinfee#10''"
    by (simp add: entitlement_fee_key_def reservation_def decimal_int_def unix_sec_def decimal.simps)
  show "traces (buy_in real_service ''t1'' ''a'' 1000 False ''k'')
      (DidAsk (AskRoom ''t1'') (AnswerRoom (Some cash_room)) # until_seat @
       DidTable (Dispatch ''t1'' (JoinCmd (joining ''a'' 1000 6 ''h'' False))) (TableDone []) # []) (Inr ())"
    by (rule follow_traces) (simp add: ten [unfolded reservation_def] buy_in_def get_room_def amount_allowed_def check_terms_def find_actor_def check_seat_def is_seated_at_def
      answered_def check_real_def real_room_def seat_player_def wallet_for_def take_stake_def is_game_def resolve_entitlement_def
      active_for_def confirm_fee_charged_def get_pending_def settled_fee_def seed_identity_def open_session_def mark_in_table_def
      and_so_def wallet_def give_def refuse_def wallet_call_of_def buyin_key_def joining_def until_seat_def real_service_def plain_service_def
      cash_room_def sandbox_room_def reservation_def Let_def)
  show "real_room cash_room" "rm_entry_fee_cents cash_room > 0" by (simp_all add: real_room_def cash_room_def)
qed

section \<open>One client for both wallets\<close>

text \<open>A service built with one client for both wallets takes every stake for the game wallet: the comparison of
  \<open>mover\<close> with \<open>s.game\<close> holds in sandbox rooms as well.\<close>

definition game_step :: "step \<Rightarrow> bool" where
  "game_step x \<longleftrightarrow> (case x of DidWallet c _ \<Rightarrow> wc_op c \<noteq> Debit \<and> wc_op c \<noteq> Credit | _ \<Rightarrow> True)"

lemma game_step_simps [simp]:
  "game_step (DidPending c r)" "game_step (DidEntitlement c' r')" "game_step (DidAsk q a)" "game_step (DidNow t)"
  "game_step (DidTable d x)" "game_step (DidWallet w y) \<longleftrightarrow> wc_op w \<noteq> Debit \<and> wc_op w \<noteq> Credit"
  by (simp_all add: game_step_def)

lemma only_mono: "only P m \<Longrightarrow> (\<And>x. P x \<Longrightarrow> Q x) \<Longrightarrow> only Q m"
  by (induction m) simp_all

lemma harmless_game_step: "only harmless m \<Longrightarrow> only game_step m"
  by (erule only_mono) (auto simp: harmless_def game_step_def split: step.splits)

lemma game_step_release: "only game_step (release_hold mover pid hold_id key e)"
  by (auto simp: release_hold_def wallet_call_of_def intro!: only_wallet)

lemma game_step_seat:
  assumes "is_game s (sv_wallet s)"
  shows "only game_step (seat_player s room max_seats rid pid amount auto_rebuy key)"
proof -
  have take: "only game_step (take_stake s (sv_wallet s) rid pid amount key)"
    using assms by (auto simp: take_stake_def wallet_call_of_def game_step_release intro!: only_wallet split: answer.split option.split)
  have after: "only game_step (seed_identity s room rid pid (open_session s rid pid amount key (mark_in_table s rid pid (give ()))))"
    by (intro harmless_game_step quiet_identity quiet_open_session quiet_in_table) simp
  have "only game_step (return_stake s (sv_wallet s) pid amount hold_id key)" for hold_id
    using assms by (simp add: return_stake_def game_step_release)
  then show ?thesis
    using assms take after
    by (auto simp: seat_player_def wallet_for_def get_room_def is_game_def intro!: only_and_so split: answer.split option.split table_reply.split)
qed

lemma shared_client_holds_sandbox_stakes:
  assumes "sv_game s = Some (sv_wallet s)"
  shows "only game_step (buy_in s rid pid amount auto_rebuy idem_key)"
proof -
  have seat: "only game_step (seat_player s room max_seats rid pid amount auto_rebuy key)" for room max_seats key
    using assms by (intro game_step_seat) (simp add: is_game_def)
  have real: "only game_step (check_real s room pid amount k)" if "only game_step k" for room k
    using that by (auto simp: check_real_def harmless_game_step quiet_resolve intro!: only_and_so split: option.split)
  have room: "only game_step (check_seat rid pid max_seats k)" if "only game_step k" for max_seats k
    using that by (auto simp: check_seat_def harmless_game_step quiet_seated intro!: only_bind split: sum.split)
  show ?thesis
    by (auto simp: buy_in_def get_room_def check_terms_def find_actor_def Let_def seat real room split: answer.split option.split)
qed

end
