(* ===== verification/Calendar.thy ===== *)
theory Calendar
  imports Buyin
begin

text \<open>
  The windows of the limits, \<open>WindowKeys\<close> in \<open>api/internal/responsible/domain.go\<close>: the day, week and month of a moment
  in Sao Paulo as texts, and what makes them windows: equal texts are the same day, week or month, and the moments with one
  text are an interval.
\<close>

section \<open>The calendar\<close>

text \<open>
  The Gregorian calendar counts days from 1 January of year 1, a Monday. The offset of Sao Paulo, seconds east of
  UTC at a moment, is data of the time-zone database and an argument here.
\<close>

definition local_day :: "(int \<Rightarrow> int) \<Rightarrow> int \<Rightarrow> int" where
  "local_day off t = (unix_sec t + off (unix_sec t)) div 86400 + 719162"

definition year_and_day :: "int \<Rightarrow> int \<times> int" where
  "year_and_day d =
     (let c = d div 146097; d1 = d mod 146097;
          h = min 3 (d1 div 36524); d2 = d1 - 36524 * h;
          q = d2 div 1461; d3 = d2 mod 1461;
          n = min 3 (d3 div 365)
      in (400 * c + 100 * h + 4 * q + n + 1, d3 - 365 * n))"

definition leap :: "int \<Rightarrow> bool" where
  "leap y \<longleftrightarrow> y mod 4 = 0 \<and> (y mod 100 \<noteq> 0 \<or> y mod 400 = 0)"

definition month_lengths :: "int \<Rightarrow> int list" where
  "month_lengths y = [31, if leap y then 29 else 28, 31, 30, 31, 30, 31, 31, 30, 31, 30, 31]"

primrec month_and_day :: "int list \<Rightarrow> int \<Rightarrow> int \<Rightarrow> int \<times> int" where
  "month_and_day [] m d = (m, d + 1)"
| "month_and_day (l # ls) m d = (if d < l then (m, d + 1) else month_and_day ls (m + 1) (d - l))"

text \<open>The year and week of a day are those of the Thursday of its week.\<close>

definition iso_week :: "int \<Rightarrow> int \<times> int" where
  "iso_week d = (let yd = year_and_day (d - d mod 7 + 3) in (fst yd, snd yd div 7 + 1))"

definition padded :: "nat \<Rightarrow> int \<Rightarrow> string" where
  "padded w i = (let d = decimal_int i in replicate (w - length d) (CHR ''0'') @ d)"

definition month_key :: "int \<times> int \<Rightarrow> string" where
  "month_key ym = padded 4 (fst ym) @ ''-'' @ padded 2 (snd ym)"

definition window_keys :: "(int \<Rightarrow> int) \<Rightarrow> int \<Rightarrow> string \<times> string \<times> string" where
  "window_keys off now =
     (let d = local_day off now; yd = year_and_day d; md = month_and_day (month_lengths (fst yd)) 1 (snd yd);
          yw = iso_week d; month = month_key (fst yd, fst md)
      in (month @ ''-'' @ padded 2 (snd md), padded 4 (fst yw) @ ''-W'' @ padded 2 (snd yw), month))"

section \<open>Digits\<close>

lemma decimal_nonempty [simp]: "decimal n \<noteq> []"
  by (subst decimal.simps) simp

lemma decimal_digits: "set (decimal n) \<subseteq> set ''0123456789''"
proof (induction n rule: decimal.induct)
  case (1 n)
  have digit: "''0123456789'' ! k \<in> set ''0123456789''" if "k < 10" for k :: nat
    using that by (intro nth_mem) simp
  show ?case
  proof (cases "n < 10")
    case True
    then show ?thesis using digit [OF True] by (subst decimal.simps) simp
  next
    case False
    then show ?thesis using 1 [OF False] digit [of "n mod 10"] by (subst decimal.simps) simp
  qed
qed

definition digit_value :: "char \<Rightarrow> nat" where "digit_value c = of_char c - 48"

definition number_of :: "string \<Rightarrow> nat" where "number_of s = foldl (\<lambda>v c. 10 * v + digit_value c) 0 s"

lemma digit_value_nth: "k < 10 \<Longrightarrow> digit_value (''0123456789'' ! k) = k"
proof -
  assume "k < 10"
  moreover have "\<forall>k \<in> set [0..<10]. digit_value (''0123456789'' ! k) = k" by (simp add: upt_rec digit_value_def)
  ultimately show ?thesis by simp
qed

lemma number_of_decimal: "number_of (decimal n) = n"
proof (induction n rule: decimal.induct)
  case (1 n)
  show ?case
  proof (cases "n < 10")
    case True
    then show ?thesis by (subst decimal.simps) (simp add: number_of_def digit_value_nth)
  next
    case False
    have "number_of (decimal n) = 10 * number_of (decimal (n div 10)) + n mod 10"
      using False by (subst decimal.simps) (simp add: number_of_def digit_value_nth)
    then show ?thesis using 1 [OF False] by simp
  qed
qed

lemma number_of_zeros: "number_of (replicate k (CHR ''0'') @ s) = number_of s"
  by (induction k) (simp_all add: number_of_def digit_value_def)

lemma number_of_padded: "0 \<le> i \<Longrightarrow> number_of (padded w i) = nat i"
  by (simp add: padded_def decimal_int_def Let_def number_of_zeros number_of_decimal)

lemma padded_inj: "0 \<le> i \<Longrightarrow> 0 \<le> j \<Longrightarrow> padded w i = padded w j \<longleftrightarrow> i = j"
  by (metis number_of_padded nat_eq_iff2 nat_0_le)

lemma padded_no_dash: "0 \<le> i \<Longrightarrow> CHR ''-'' \<notin> set (padded w i)"
  using decimal_digits [of "nat i"] by (auto simp: padded_def decimal_int_def Let_def)

lemma split_at_dash:
  assumes "CHR ''-'' \<notin> set a" and "CHR ''-'' \<notin> set c"
  shows "a @ CHR ''-'' # b = c @ CHR ''-'' # d \<longleftrightarrow> a = c \<and> b = d"
  using assms
proof (induction a arbitrary: c)
  case Nil
  then show ?case by (cases c) auto
next
  case (Cons x a)
  then show ?case by (cases c) auto
qed

section \<open>Years, months and weeks\<close>

definition year_start :: "int \<Rightarrow> int" where
  "year_start y = 365 * (y - 1) + (y - 1) div 4 - (y - 1) div 100 + (y - 1) div 400"

lemma div_by: "a = b * q + r \<Longrightarrow> 0 \<le> r \<Longrightarrow> r < b \<Longrightarrow> a div b = q" for a b q r :: int
  by (rule int_div_pos_eq)

lemma year_start_step: "year_start y + 365 \<le> year_start (y + 1)"
proof -
  define p u where "p = (y - 1) div 100" and "u = (y - 1) mod 100"
  have u: "y - 1 = 100 * p + u" "0 \<le> u" "u < 100" by (simp_all add: p_def u_def)
  then have "y = 100 * p + (u + 1)" by simp
  then have "(y - 1) div 4 = 25 * p + u div 4" "y div 4 = 25 * p + (u + 1) div 4" "y div 100 = p + (u + 1) div 100"
    using u(1) mult_div_mod_eq [of 4 u] mult_div_mod_eq [of 4 "u + 1"] mult_div_mod_eq [of 100 "u + 1"]
    by (auto intro!: div_by [where r = "u mod 4"] div_by [where r = "(u + 1) mod 4"] div_by [where r = "(u + 1) mod 100"]
      simp del: mult_div_mod_eq)
  moreover have "u div 4 + (u + 1) div 100 \<le> (u + 1) div 4"
  proof (cases "u = 99")
    case False
    then have "(u + 1) div 100 = 0" using u by simp
    then show ?thesis by (simp add: zdiv_mono1)
  qed simp
  moreover have "(y - 1) div 400 \<le> y div 400" by (rule zdiv_mono1) simp_all
  ultimately show ?thesis by (simp add: year_start_def p_def)
qed

lemma year_start_mono: "y \<le> y' \<Longrightarrow> year_start y \<le> year_start y'"
proof (induction y' rule: int_ge_induct)
  case (step i)
  then show ?case using year_start_step [of i] by simp
qed simp

lemma century_digits:
  fixes c h q r :: int
  assumes "0 \<le> h" and "h \<le> 3" and "0 \<le> q" and "q \<le> 24" and "0 \<le> r" and "r \<le> 3"
  shows "(400 * c + 100 * h + 4 * q + r) div 4 = 100 * c + 25 * h + q"
    and "(400 * c + 100 * h + 4 * q + r) div 100 = 4 * c + h"
    and "(400 * c + 100 * h + 4 * q + r) div 400 = c"
  using assms by (linarith | rule div_by [where r = r] div_by [where r = "4 * q + r"] div_by [where r = "100 * h + 4 * q + r"])+

text \<open>A division whose last part may be one too long.\<close>

lemma capped_division:
  fixes a b k :: int
  assumes "0 \<le> a" and "a \<le> (k + 1) * b" and "0 < b" and "0 \<le> k"
  shows "0 \<le> a - b * min k (a div b)" and "a - b * min k (a div b) \<le> b"
    and "min k (a div b) < k \<Longrightarrow> a - b * min k (a div b) < b"
proof -
  have e: "a = b * (a div b) + a mod b" "0 \<le> a mod b" "a mod b < b" using assms(3) by simp_all
  have "0 \<le> a div b" using assms by (simp add: pos_imp_zdiv_nonneg_iff)
  have "0 \<le> a - b * min k (a div b) \<and> a - b * min k (a div b) \<le> b \<and>
      (min k (a div b) < k \<longrightarrow> a - b * min k (a div b) < b)"
  proof (cases "a div b \<le> k")
    case True
    then have m: "min k (a div b) = a div b" by simp
    show ?thesis unfolding m using e by (intro conjI impI) linarith+
  next
    case False
    then have "b * (k + 1) \<le> b * (a div b)" using assms(3) by simp
    then have "b * (k + 1) \<le> a" using e by linarith
    then have "a = b * k + b" using assms(2) by (simp add: algebra_simps)
    then show ?thesis using False assms(3) by (simp add: min_absorb1)
  qed
  then show "0 \<le> a - b * min k (a div b)" and "a - b * min k (a div b) \<le> b"
    and "min k (a div b) < k \<Longrightarrow> a - b * min k (a div b) < b" by simp_all
qed

text \<open>The number of a day splits into its year and the days before it in the year.\<close>

lemma year_and_day:
  assumes "year_and_day d = (y, n)"
  shows "d = year_start y + n" and "0 \<le> n" and "d < year_start (y + 1)"
proof -
  define c d1 where "c = d div 146097" and "d1 = d mod 146097"
  define h where "h = min 3 (d1 div 36524)"
  define d2 where "d2 = d1 - 36524 * h"
  define q d3 where "q = d2 div 1461" and "d3 = d2 mod 1461"
  define r where "r = min 3 (d3 div 365)"
  have "(y, n) = (400 * c + 100 * h + 4 * q + r + 1, d3 - 365 * r)"
    using assms [symmetric] unfolding year_and_day_def Let_def c_def d1_def h_def d2_def q_def d3_def r_def .
  then have y: "y - 1 = 400 * c + 100 * h + 4 * q + r" and n: "n = d3 - 365 * r" by simp_all
  have d: "d = 146097 * c + d1" "0 \<le> d1" "d1 < 146097" by (simp_all add: c_def d1_def)
  have h: "0 \<le> h" "h \<le> 3" using d(2) by (simp_all add: h_def)
  have d2: "0 \<le> d2" "d2 \<le> 36524" "h < 3 \<Longrightarrow> d2 < 36524"
    using capped_division [of d1 3 36524] d(2,3) by (simp_all add: d2_def h_def)
  have q: "d2 = 1461 * q + d3" "0 \<le> d3" "d3 < 1461" unfolding q_def d3_def by (rule mult_div_mod_eq [symmetric], simp_all only: pos_mod_sign pos_mod_bound zero_less_numeral)
  have q24: "0 \<le> q" "q \<le> 24" using q d2(1,2) by simp_all
  have r: "0 \<le> r" "r \<le> 3" using q(2) by (simp_all add: r_def)
  have n0: "0 \<le> n" "n \<le> 365" "r < 3 \<Longrightarrow> n < 365" using capped_division [of d3 3 365] q(2,3) by (simp_all add: n r_def)
  note digits = century_digits [OF h q24 r, of c]
  show eq: "d = year_start y + n"
    using d(1) q(1) n by (simp add: year_start_def y digits d2_def)
  show "0 \<le> n" by (fact n0(1))
  show "d < year_start (y + 1)"
  proof (cases "n = 365")
    case False
    then show ?thesis using n0(2) year_start_step [of y] eq by linarith
  next
    case True
    have full: "r = 3" using n0(3) r(2) True by force
    then have full: "r = 3" "d3 = 1460" using n True by simp_all
    have "year_start (y + 1) = year_start y + 366"
    proof (cases "q = 24")
      case False
      then have "0 \<le> q + 1" "q + 1 \<le> 24" using q24 by auto
      from century_digits [OF h this order_refl, of c] y full have
        "y div 4 = 100 * c + 25 * h + q + 1" "y div 100 = 4 * c + h" "y div 400 = c"
        by (simp_all add: algebra_simps)
      then show ?thesis using y digits by (simp add: year_start_def)
    next
      case True
      then have "h = 3" using full q(1) d2(3) h(2) by fastforce
      then have "y = 400 * (c + 1)" using y full True by simp
      then have "y div 4 = 100 * (c + 1)" "y div 100 = 4 * (c + 1)" "y div 400 = c + 1"
        by (auto intro!: div_by [where r = 0])
      then show ?thesis unfolding year_start_def y digits using True \<open>h = 3\<close> y full by simp
    qed
    then show ?thesis using True eq by simp
  qed
qed

lemma year_mono:
  assumes "d \<le> d'"
  shows "fst (year_and_day d) \<le> fst (year_and_day d')"
proof (rule ccontr)
  obtain y n y' n' where s: "year_and_day d = (y, n)" "year_and_day d' = (y', n')" by fastforce
  assume "\<not> ?thesis"
  then have "y' + 1 \<le> y" using s by simp
  then have "year_start (y' + 1) \<le> year_start y" by (rule year_start_mono)
  then show False using year_and_day [OF s(1)] year_and_day(3) [OF s(2)] assms by linarith
qed

lemma year_and_day_inj: "year_and_day d = year_and_day d' \<Longrightarrow> d = d'"
  by (metis surj_pair year_and_day(1))

lemma month_and_day:
  "month_and_day ls m n = (m', md) \<Longrightarrow> m \<le> m' \<and> n = sum_list (take (nat (m' - m)) ls) + md - 1"
proof (induction ls arbitrary: m n)
  case (Cons l ls)
  show ?case
  proof (cases "n < l")
    case True
    then show ?thesis using Cons.prems by auto
  next
    case False
    then have "month_and_day ls (m + 1) (n - l) = (m', md)" using Cons.prems by simp
    from Cons.IH [OF this] have "m + 1 \<le> m'" "n - l = sum_list (take (nat (m' - (m + 1))) ls) + md - 1" by auto
    moreover have "nat (m' - m) = Suc (nat (m' - (m + 1)))" using \<open>m + 1 \<le> m'\<close> by simp
    ultimately show ?thesis by simp
  qed
qed simp

lemma month_and_day_inj: "month_and_day ls m n = month_and_day ls m n' \<Longrightarrow> n = n'"
  by (metis month_and_day surj_pair)

lemma month_pos: "m \<le> fst (month_and_day ls m n)"
  by (metis month_and_day prod.collapse)

lemma month_mono: "n \<le> n' \<Longrightarrow> fst (month_and_day ls m n) \<le> fst (month_and_day ls m n')"
proof (induction ls arbitrary: m n n')
  case (Cons l ls)
  show ?case
  proof (cases "n < l")
    case True
    have "m \<le> fst (month_and_day (l # ls) m n')" by (rule month_pos)
    then show ?thesis using True by simp
  next
    case False
    then show ?thesis using Cons.IH [of "n - l" "n' - l" "m + 1"] Cons.prems by simp
  qed
qed simp

section \<open>The windows\<close>

definition day_text :: "int \<Rightarrow> string" where "day_text d =
  (let yd = year_and_day d; md = month_and_day (month_lengths (fst yd)) 1 (snd yd)
   in month_key (fst yd, fst md) @ ''-'' @ padded 2 (snd md))"

definition week_text :: "int \<Rightarrow> string" where "week_text d =
  padded 4 (fst (iso_week d)) @ ''-W'' @ padded 2 (snd (iso_week d))"

definition month_of :: "int \<Rightarrow> int \<times> int" where "month_of d =
  (let yd = year_and_day d in (fst yd, fst (month_and_day (month_lengths (fst yd)) 1 (snd yd))))"

lemma window_keys_texts:
  "window_keys off t = (day_text (local_day off t), week_text (local_day off t), month_key (month_of (local_day off t)))"
  by (simp add: window_keys_def day_text_def week_text_def month_of_def Let_def)

lemma year_and_day_zero: "year_and_day 0 = (1, 0)"
  by (simp add: year_and_day_def)

lemma year_pos: "0 \<le> d \<Longrightarrow> 1 \<le> fst (year_and_day d)"
  using year_mono [of 0 d] year_and_day_zero by simp

lemma month_key_inj:
  assumes "0 \<le> fst a" and "0 \<le> snd a" and "0 \<le> fst b" and "0 \<le> snd b"
  shows "month_key a = month_key b \<longleftrightarrow> a = b"
  using split_at_dash [of "padded 4 (fst a)" "padded 4 (fst b)"] assms
  by (auto simp: month_key_def padded_inj padded_no_dash prod_eq_iff)

lemma month_of_pos: "0 \<le> d \<Longrightarrow> 0 \<le> fst (month_of d) \<and> 0 \<le> snd (month_of d)"
  using year_pos [of d] month_pos [of 1 "month_lengths (fst (year_and_day d))" "snd (year_and_day d)"]
  by (simp add: month_of_def Let_def)

lemma day_of_month_pos: "0 \<le> n \<Longrightarrow> 0 \<le> snd (month_and_day ls m n)"
  by (induction ls arbitrary: m n) auto

lemma day_text_inj:
  assumes "0 \<le> d" and "0 \<le> d'" and "day_text d = day_text d'"
  shows "d = d'"
proof -
  obtain y n y' n' where s: "year_and_day d = (y, n)" "year_and_day d' = (y', n')" by fastforce
  note n = year_and_day(2) [OF s(1)] year_and_day(2) [OF s(2)]
  obtain m k m' k' where t: "month_and_day (month_lengths y) 1 n = (m, k)" "month_and_day (month_lengths y') 1 n' = (m', k')"
    by fastforce
  have pos: "1 \<le> y" "1 \<le> y'" "1 \<le> m" "1 \<le> m'" "0 \<le> k" "0 \<le> k'"
    using year_pos [OF assms(1)] year_pos [OF assms(2)] s t month_pos [of 1 "month_lengths y" n] month_pos [of 1 "month_lengths y'" n']
      day_of_month_pos [OF n(1), of "month_lengths y" 1] day_of_month_pos [OF n(2), of "month_lengths y'" 1] by auto
  have "padded 4 y @ CHR ''-'' # padded 2 m @ CHR ''-'' # padded 2 k = padded 4 y' @ CHR ''-'' # padded 2 m' @ CHR ''-'' # padded 2 k'"
    using assms(3) by (simp add: day_text_def month_key_def s t)
  then have "y = y'" "m = m'" "k = k'"
    using pos by (simp_all add: split_at_dash padded_no_dash padded_inj)
  then have "n = n'" using t month_and_day_inj [of "month_lengths y" 1 n n'] by simp
  then show ?thesis using s \<open>y = y'\<close> year_and_day_inj by simp
qed

lemma monday: "d - d mod 7 = 7 * (d div 7)" for d :: int
  by (rule minus_mod_eq_mult_div)

lemma week_text_iff:
  assumes "0 \<le> d" and "0 \<le> d'"
  shows "week_text d = week_text d' \<longleftrightarrow> d div 7 = d' div 7"
proof
  assume "d div 7 = d' div 7"
  then have "d - d mod 7 = d' - d' mod 7" unfolding monday by (rule arg_cong)
  then show "week_text d = week_text d'" by (simp add: week_text_def iso_week_def)
next
  let ?t = "d - d mod 7 + 3" and ?t' = "d' - d' mod 7 + 3"
  obtain y n y' n' where s: "year_and_day ?t = (y, n)" "year_and_day ?t' = (y', n')" by fastforce
  have "0 \<le> d div 7" "0 \<le> d' div 7" using assms by (simp_all only: pos_imp_zdiv_nonneg_iff zero_less_numeral)
  then have t: "0 \<le> ?t" "0 \<le> ?t'" unfolding monday by linarith+
  assume "week_text d = week_text d'"
  then have "padded 4 y @ CHR ''-'' # CHR ''W'' # padded 2 (n div 7 + 1) = padded 4 y' @ CHR ''-'' # CHR ''W'' # padded 2 (n' div 7 + 1)"
    by (simp add: week_text_def iso_week_def s)
  moreover have "1 \<le> y" "1 \<le> y'" using year_pos [OF t(1)] year_pos [OF t(2)] s by simp_all
  moreover have n: "0 \<le> n" "0 \<le> n'" using year_and_day(2) [OF s(1)] year_and_day(2) [OF s(2)] .
  moreover have "0 \<le> n div 7" "0 \<le> n' div 7" using n by (simp_all add: pos_imp_zdiv_nonneg_iff)
  ultimately have same: "y = y'" "n div 7 = n' div 7"
    by (simp_all add: split_at_dash padded_no_dash padded_inj)
  have "?t = year_start y + n" "?t' = year_start y + n'" using year_and_day(1) [OF s(1)] year_and_day(1) [OF s(2)] same by simp_all
  then have "7 * (d div 7) - 7 * (d' div 7) = n - n'" unfolding monday by linarith
  moreover have "7 * (n div 7) + n mod 7 = n" "7 * (n' div 7) + n' mod 7 = n'" by (rule mult_div_mod_eq)+
  moreover have "n mod 7 < 7" "0 \<le> n mod 7" "n' mod 7 < 7" "0 \<le> n' mod 7"
    by (simp_all only: pos_mod_sign pos_mod_bound zero_less_numeral)
  ultimately show "d div 7 = d' div 7" using same(2) by linarith
qed

lemma month_of_convex:
  assumes "d \<le> e" and "e \<le> d'" and "month_of d = month_of d'"
  shows "month_of e = month_of d"
proof -
  obtain y n y' n' u k where s: "year_and_day d = (y, n)" "year_and_day d' = (y', n')" "year_and_day e = (u, k)" by fastforce
  have y: "y = y'" using assms(3) s by (simp add: month_of_def)
  then have u: "u = y" using year_mono [OF assms(1)] year_mono [OF assms(2)] s by simp
  have "n \<le> k" "k \<le> n'"
    using year_and_day(1) [OF s(1)] year_and_day(1) [OF s(2)] year_and_day(1) [OF s(3)] assms(1,2) y u by simp_all
  then show ?thesis
    using month_mono [of n k "month_lengths y" 1] month_mono [of k n' "month_lengths y" 1] assms(3) s y u by (simp add: month_of_def)
qed

text \<open>Local time may repeat an hour, but no day begins twice.\<close>

definition steady :: "(int \<Rightarrow> int) \<Rightarrow> bool" where
  "steady off \<longleftrightarrow> (\<forall>t t'. 0 \<le> t \<and> t \<le> t' \<longrightarrow> 0 \<le> local_day off t \<and> local_day off t \<le> local_day off t')"

lemma keys_convex:
  assumes "steady off" and "0 \<le> t" and "t \<le> u" and "u \<le> t'"
  shows "fst (window_keys off t) = fst (window_keys off t') \<Longrightarrow> fst (window_keys off u) = fst (window_keys off t)"
    and "fst (snd (window_keys off t)) = fst (snd (window_keys off t')) \<Longrightarrow>
      fst (snd (window_keys off u)) = fst (snd (window_keys off t))"
    and "snd (snd (window_keys off t)) = snd (snd (window_keys off t')) \<Longrightarrow>
      snd (snd (window_keys off u)) = snd (snd (window_keys off t))"
proof -
  let ?d = "local_day off"
  have le: "?d t \<le> ?d u" "?d u \<le> ?d t'" and pos: "0 \<le> ?d t" "0 \<le> ?d u" "0 \<le> ?d t'"
    using assms unfolding steady_def by (meson order_trans)+
  show "fst (window_keys off t) = fst (window_keys off t') \<Longrightarrow> fst (window_keys off u) = fst (window_keys off t)"
    using day_text_inj [OF pos(1,3)] le by (simp add: window_keys_texts)
  show "fst (snd (window_keys off t)) = fst (snd (window_keys off t')) \<Longrightarrow>
      fst (snd (window_keys off u)) = fst (snd (window_keys off t))"
    using zdiv_mono1 [OF le(1), of 7] zdiv_mono1 [OF le(2), of 7] by (simp add: window_keys_texts week_text_iff pos)
  show "snd (snd (window_keys off t)) = snd (snd (window_keys off t')) \<Longrightarrow>
      snd (snd (window_keys off u)) = snd (snd (window_keys off t))"
    using month_of_convex [OF le] by (simp add: window_keys_texts month_key_inj month_of_pos pos)
qed

text \<open>Sao Paulo has kept three hours behind UTC since 2019.\<close>

lemma steady_offset: "- 86400 \<le> c \<Longrightarrow> steady (\<lambda>_. c)"
  unfolding steady_def local_day_def unix_sec_def
proof (intro allI impI conjI)
  fix t t' :: int assume c: "- 86400 \<le> c" and t: "0 \<le> t \<and> t \<le> t'"
  have "0 \<le> t div 1000000000" using t by (simp add: pos_imp_zdiv_nonneg_iff)
  then have "- 86400 \<le> t div 1000000000 + c" using c by simp
  then have "(- 86400) div 86400 \<le> (t div 1000000000 + c) div 86400" by (rule zdiv_mono1) simp
  then show "0 \<le> (t div 1000000000 + c) div 86400 + 719162" by simp
  show "(t div 1000000000 + c) div 86400 + 719162 \<le> (t' div 1000000000 + c) div 86400 + 719162"
    using t by (simp add: zdiv_mono1)
qed

end
