(* ===== verification/Responsible.thy ===== *)
theory Responsible
  imports Calendar
begin

text \<open>
  The rules of play for real money, \<open>api/internal/responsible\<close>: consent, the limits a player sets, exclusions,
  and the meter of what goes to the tables. One row per player, written under its version. The store, the lookup
  of the CPF digest and the clock are nodes of a program; audit rows carry no detail here.
\<close>

section \<open>The state of a player\<close>

text \<open>A time is stored as a text: absent, readable and then a whole second, or not readable.\<close>

datatype stamp = Unset | At int | Unreadable

definition stamped :: "int \<Rightarrow> stamp" where "stamped t = At (whole_seconds t)"

record self_exclusion =
  ex_period :: string
  ex_requested_at :: stamp
  ex_until :: stamp

record pending_limits =
  pn_daily :: int
  pn_weekly :: int
  pn_monthly :: int
  pn_applies_at :: stamp

record game_limits =
  gl_daily :: int
  gl_weekly :: int
  gl_monthly :: int
  gl_pending :: "pending_limits option"

record deposit_counters =
  dc_day_key :: string
  dc_day_sum :: int
  dc_week_key :: string
  dc_week_sum :: int
  dc_month_key :: string
  dc_month_sum :: int

definition no_counters :: deposit_counters where
  "no_counters = \<lparr>dc_day_key = '''', dc_day_sum = 0, dc_week_key = '''', dc_week_sum = 0, dc_month_key = '''', dc_month_sum = 0\<rparr>"

datatype window = Daily | Weekly | Monthly

record limit_breach =
  lb_window :: window
  lb_limit :: int
  lb_used :: int

record rg_state =
  rg_user :: string
  rg_version :: nat
  rg_addendum :: string
  rg_accepted_at :: stamp
  rg_exclusion :: "self_exclusion option"
  rg_limits :: "game_limits option"
  rg_counters :: "deposit_counters option"
  rg_carried_checked :: bool

definition new_state :: "string \<Rightarrow> rg_state" where
  "new_state uid = \<lparr>rg_user = uid, rg_version = 0, rg_addendum = '''', rg_accepted_at = Unset, rg_exclusion = None,
     rg_limits = None, rg_counters = None, rg_carried_checked = False\<rparr>"

definition current_addendum :: string where "current_addendum = ''2.1''"
definition exclusion_revoke_floor :: int where "exclusion_revoke_floor = hours (90 * 24)"
definition cooldown_increase :: int where "cooldown_increase = hours (7 * 24)"
definition cooldown_monthly :: int where "cooldown_monthly = hours (14 * 24)"

section \<open>The rules\<close>

definition gambling_accepted :: "rg_state \<Rightarrow> bool" where
  "gambling_accepted st \<longleftrightarrow> rg_addendum st = current_addendum"

definition sums_for :: "deposit_counters \<Rightarrow> string \<times> string \<times> string \<Rightarrow> int \<times> int \<times> int" where
  "sums_for c keys = (case keys of (day, week, month) \<Rightarrow>
     (if dc_day_key c = day then dc_day_sum c else 0, if dc_week_key c = week then dc_week_sum c else 0,
      if dc_month_key c = month then dc_month_sum c else 0))"

text \<open>The first window an amount would overflow. When the window ends is left out.\<close>

definition check_deposit :: "(int \<Rightarrow> int) \<Rightarrow> game_limits \<Rightarrow> deposit_counters \<Rightarrow> int \<Rightarrow> int \<Rightarrow> limit_breach option" where
  "check_deposit off lim c amount now = (case sums_for c (window_keys off now) of (d, w, m) \<Rightarrow>
     if amount > gl_daily lim - d then Some \<lparr>lb_window = Daily, lb_limit = gl_daily lim, lb_used = d\<rparr>
     else if amount > gl_weekly lim - w then Some \<lparr>lb_window = Weekly, lb_limit = gl_weekly lim, lb_used = w\<rparr>
     else if amount > gl_monthly lim - m then Some \<lparr>lb_window = Monthly, lb_limit = gl_monthly lim, lb_used = m\<rparr>
     else None)"

definition in_force :: "self_exclusion \<Rightarrow> int \<Rightarrow> bool" where
  "in_force ex now \<longleftrightarrow> (case ex_until ex of Unset \<Rightarrow> True | At t \<Rightarrow> now < t | Unreadable \<Rightarrow> True)"

definition self_excluded :: "rg_state \<Rightarrow> int \<Rightarrow> bool" where
  "self_excluded st now \<longleftrightarrow> (case rg_exclusion st of None \<Rightarrow> False | Some ex \<Rightarrow> in_force ex now)"

definition limits_configured :: "rg_state \<Rightarrow> bool" where
  "limits_configured st \<longleftrightarrow> (case rg_limits st of None \<Rightarrow> False
     | Some l \<Rightarrow> gl_daily l > 0 \<and> gl_weekly l > 0 \<and> gl_monthly l > 0)"

definition no_limits :: game_limits where
  "no_limits = \<lparr>gl_daily = 0, gl_weekly = 0, gl_monthly = 0, gl_pending = None\<rparr>"

text \<open>The limits with a matured increase applied, and whether there was one.\<close>

definition effective_limits :: "rg_state \<Rightarrow> int \<Rightarrow> game_limits \<times> bool" where
  "effective_limits st now = (case rg_limits st of
     None \<Rightarrow> (no_limits, False)
   | Some l \<Rightarrow> (case gl_pending l of
         None \<Rightarrow> (l, False)
       | Some p \<Rightarrow> (case pn_applies_at p of
             At t \<Rightarrow> if \<not> now < t
               then (\<lparr>gl_daily = pn_daily p, gl_weekly = pn_weekly p, gl_monthly = pn_monthly p, gl_pending = None\<rparr>, True)
               else (l, False)
           | _ \<Rightarrow> (l, False))))"

definition valid_limits :: "int \<Rightarrow> int \<Rightarrow> int \<Rightarrow> bool" where
  "valid_limits d w m \<longleftrightarrow> \<not> (d \<le> 0 \<or> w < d \<or> m < w)"

definition exclusion_until :: "string \<Rightarrow> int \<Rightarrow> stamp option" where
  "exclusion_until period now =
     (if period = ''30d'' then Some (stamped (now + hours (30 * 24)))
      else if period = ''90d'' then Some (stamped (now + hours (90 * 24)))
      else if period = ''indefinite'' then Some Unset
      else None)"

section \<open>Programs\<close>

datatype rg_error =
    StoreFailed | Conflict | ConsentRequired | LimitsNotConfigured | Excluded stamp | Breached limit_breach
  | RuleRefused string | NoHashLookup

datatype rg_call =
    GetState string
  | PutState rg_state nat
  | CommitInflow rg_state nat string int
  | GetMarker string string
  | AppendAudit string string
  | GetCarried string
  | PutCarried string self_exclusion int
  | CpfHash string

datatype rg_reply =
    Failed | Refused | Written
  | StateIs "rg_state option" | MarkerIs bool | CarriedIs "(self_exclusion \<times> int) option" | HashIs string

datatype 'a rg =
    Finish 'a
  | Call rg_call "rg_reply \<Rightarrow> 'a rg"
  | Clock "int \<Rightarrow> 'a rg"

primrec rg_bind :: "'a rg \<Rightarrow> ('a \<Rightarrow> 'b rg) \<Rightarrow> 'b rg" where
  "rg_bind (Finish v) f = f v"
| "rg_bind (Call c k) f = Call c (\<lambda>r. rg_bind (k r) f)"
| "rg_bind (Clock k) f = Clock (\<lambda>t. rg_bind (k t) f)"

type_synonym 'a rules = "(rg_error + 'a) rg"

definition rg_then :: "'a rules \<Rightarrow> ('a \<Rightarrow> 'b rules) \<Rightarrow> 'b rules" where
  "rg_then m f = rg_bind m (\<lambda>r. case r of Inl e \<Rightarrow> Finish (Inl e) | Inr v \<Rightarrow> f v)"

definition get_state :: "string \<Rightarrow> rg_state option rules" where
  "get_state uid = Call (GetState uid) (\<lambda>r. Finish (case r of StateIs st \<Rightarrow> Inr st | _ \<Rightarrow> Inl StoreFailed))"

text \<open>The state a change starts from: the stored one, or a new one.\<close>

definition state_or_new :: "string \<Rightarrow> rg_state option \<Rightarrow> rg_state" where
  "state_or_new uid o' = (case o' of None \<Rightarrow> new_state uid | Some st \<Rightarrow> st)"

text \<open>The condition of a write of the state, and what it writes.\<close>

definition put_state_holds :: "nat \<Rightarrow> rg_state option \<Rightarrow> bool" where
  "put_state_holds prev row \<longleftrightarrow> (case row of None \<Rightarrow> prev = 0 | Some old \<Rightarrow> prev \<noteq> 0 \<and> rg_version old = prev)"

definition written_state :: "rg_state \<Rightarrow> nat \<Rightarrow> rg_state" where
  "written_state st prev = st\<lparr>rg_version := prev + 1\<rparr>"

definition rg_attempts :: nat where "rg_attempts = 5"

primrec update_from :: "nat \<Rightarrow> string \<Rightarrow> (rg_state \<Rightarrow> int \<Rightarrow> rg_error + rg_state) \<Rightarrow> rg_state rules" where
  "update_from 0 uid fn = Finish (Inl Conflict)"
| "update_from (Suc n) uid fn = rg_then (get_state uid) (\<lambda>got.
     let st = state_or_new uid got
     in Clock (\<lambda>now. case fn st now of
          Inl e \<Rightarrow> Finish (Inl e)
        | Inr st' \<Rightarrow> Call (PutState st' (rg_version st)) (\<lambda>r.
            if r = Written then Finish (Inr (written_state st' (rg_version st)))
            else if r = Refused then update_from n uid fn
            else Finish (Inl StoreFailed))))"

definition update :: "string \<Rightarrow> (rg_state \<Rightarrow> int \<Rightarrow> rg_error + rg_state) \<Rightarrow> rg_state rules" where
  "update uid fn = update_from rg_attempts uid fn"

definition audited :: "string \<Rightarrow> string \<Rightarrow> unit rules" where
  "audited uid event = Clock (\<lambda>now. Call (AppendAudit uid event) (\<lambda>r. Finish (if r = Written then Inr () else Inl StoreFailed)))"

section \<open>Changes of the settings\<close>

definition accept_change :: "rg_state \<Rightarrow> int \<Rightarrow> rg_error + rg_state" where
  "accept_change st now = Inr (st\<lparr>rg_addendum := current_addendum, rg_accepted_at := stamped now\<rparr>)"

definition accept_gambling :: "string \<Rightarrow> unit rules" where
  "accept_gambling uid = rg_then (update uid accept_change) (\<lambda>_. audited uid ''gambling_accepted'')"

definition extends :: "stamp \<Rightarrow> stamp \<Rightarrow> bool" where
  "extends new cur = (case new of At n \<Rightarrow> (case cur of At c \<Rightarrow> n > c | _ \<Rightarrow> False) | _ \<Rightarrow> False)"

definition exclude_change :: "string \<Rightarrow> rg_state \<Rightarrow> int \<Rightarrow> rg_error + rg_state" where
  "exclude_change period st now = (case exclusion_until period now of
     None \<Rightarrow> Inl (RuleRefused ''unknown exclusion period'')
   | Some until \<Rightarrow>
       let accepted = Inr (st\<lparr>rg_exclusion := Some \<lparr>ex_period = period, ex_requested_at = stamped now, ex_until = until\<rparr>\<rparr>)
       in case rg_exclusion st of
            None \<Rightarrow> accepted
          | Some cur \<Rightarrow>
              if \<not> self_excluded st now then accepted
              else if ex_until cur = Unset then Inl (RuleRefused ''already self-excluded indefinitely'')
              else if until \<noteq> Unset \<and> \<not> extends until (ex_until cur)
              then Inl (RuleRefused ''a self-exclusion can only be extended, never shortened'')
              else accepted)"

definition self_exclude :: "string \<Rightarrow> string \<Rightarrow> unit rules" where
  "self_exclude uid period = rg_then (update uid (exclude_change period)) (\<lambda>_. audited uid ''self_excluded'')"

definition revoke_change :: "rg_state \<Rightarrow> int \<Rightarrow> rg_error + rg_state" where
  "revoke_change st now = (case rg_exclusion st of
     None \<Rightarrow> Inl (RuleRefused ''no active self-exclusion'')
   | Some ex \<Rightarrow>
       if \<not> self_excluded st now then Inl (RuleRefused ''no active self-exclusion'')
       else if ex_until ex \<noteq> Unset
       then Inl (RuleRefused ''a fixed-period self-exclusion expires on its own and cannot be revoked'')
       else (case ex_requested_at ex of
           At t \<Rightarrow> if now - t < exclusion_revoke_floor
             then Inl (RuleRefused ''an indefinite self-exclusion can only be revoked after 90 days'')
             else Inr (st\<lparr>rg_exclusion := None\<rparr>)
         | _ \<Rightarrow> Inl (RuleRefused ''an indefinite self-exclusion can only be revoked after 90 days'')))"

definition revoke_self_exclusion :: "string \<Rightarrow> unit rules" where
  "revoke_self_exclusion uid = rg_then (update uid revoke_change) (\<lambda>_. audited uid ''self_exclusion_revoked'')"

text \<open>The first limits and every decrease apply at once; an increase waits.\<close>

definition limits_change :: "int \<Rightarrow> int \<Rightarrow> int \<Rightarrow> rg_state \<Rightarrow> int \<Rightarrow> rg_error + rg_state" where
  "limits_change d w m st now = (case effective_limits st now of (cur, matured) \<Rightarrow>
     let st = (if matured then st\<lparr>rg_limits := Some cur\<rparr> else st);
         following = (if limits_configured st \<or> matured
           then \<lparr>gl_daily = min d (gl_daily cur), gl_weekly = min w (gl_weekly cur), gl_monthly = min m (gl_monthly cur),
                 gl_pending =
                   (if d > gl_daily cur \<or> w > gl_weekly cur \<or> m > gl_monthly cur
                    then Some \<lparr>pn_daily = d, pn_weekly = w, pn_monthly = m, pn_applies_at =
                        stamped (now + (if m > gl_monthly cur then cooldown_monthly else cooldown_increase))\<rparr>
                    else None)\<rparr>
           else \<lparr>gl_daily = d, gl_weekly = w, gl_monthly = m, gl_pending = None\<rparr>)
     in Inr (st\<lparr>rg_limits := Some following\<rparr>))"

definition set_limits :: "string \<Rightarrow> int \<Rightarrow> int \<Rightarrow> int \<Rightarrow> unit rules" where
  "set_limits uid d w m =
     (if \<not> valid_limits d w m then Finish (Inl (RuleRefused ''limits must satisfy 0 < daily <= weekly <= monthly''))
      else rg_then (update uid (limits_change d w m)) (\<lambda>_. audited uid ''limits_changed''))"

definition cancel_change :: "rg_state \<Rightarrow> int \<Rightarrow> rg_error + rg_state" where
  "cancel_change st now = (case rg_limits st of
     None \<Rightarrow> Inl LimitsNotConfigured
   | Some l \<Rightarrow> (case effective_limits st now of (lim, matured) \<Rightarrow>
       Inr (st\<lparr>rg_limits := Some (if matured then lim else l\<lparr>gl_pending := None\<rparr>)\<rparr>)))"

definition cancel_pending_limits :: "string \<Rightarrow> unit rules" where
  "cancel_pending_limits uid = rg_then (update uid cancel_change) (\<lambda>_. Finish (Inr ()))"

section \<open>Exclusions of erased accounts\<close>

definition lasts_longer :: "self_exclusion option \<Rightarrow> self_exclusion \<Rightarrow> bool" where
  "lasts_longer current candidate = (case current of
     None \<Rightarrow> False
   | Some cur \<Rightarrow>
       if ex_until cur = Unset then True
       else (case ex_until candidate of
           At cand \<Rightarrow> (case ex_until cur of At c \<Rightarrow> \<not> cand > c | _ \<Rightarrow> False)
         | _ \<Rightarrow> False))"

definition carry_change :: "self_exclusion option \<Rightarrow> rg_state \<Rightarrow> int \<Rightarrow> rg_error + rg_state" where
  "carry_change carried st now =
     (let st = st\<lparr>rg_carried_checked := True\<rparr>
      in Inr (case carried of
           Some ex \<Rightarrow> if \<not> (self_excluded st now \<and> lasts_longer (rg_exclusion st) ex)
             then st\<lparr>rg_exclusion := Some ex\<rparr> else st
         | None \<Rightarrow> st))"

text \<open>A row is found until its end, whether or not it has been deleted by then.\<close>

definition get_carried :: "string \<Rightarrow> self_exclusion option rules" where
  "get_carried digest = Clock (\<lambda>now. Call (GetCarried digest) (\<lambda>r. Finish (case r of
     CarriedIs row \<Rightarrow> Inr (case row of None \<Rightarrow> None | Some (ex, ttl) \<Rightarrow> if ttl \<le> unix_sec now then None else Some ex)
   | _ \<Rightarrow> Inl StoreFailed)))"

definition cpf_hash :: "string \<Rightarrow> string rules" where
  "cpf_hash uid = Call (CpfHash uid) (\<lambda>r. Finish (case r of HashIs h \<Rightarrow> Inr h | _ \<Rightarrow> Inl StoreFailed))"

definition carried_for :: "string \<Rightarrow> self_exclusion option rules" where
  "carried_for uid = rg_then (cpf_hash uid) (\<lambda>digest. if digest = '''' then Finish (Inr None) else get_carried digest)"

definition apply_carried :: "bool \<Rightarrow> string \<Rightarrow> rg_state rules" where
  "apply_carried has_cpf uid = rg_then (get_state uid) (\<lambda>got.
     let st = state_or_new uid got
     in if \<not> has_cpf \<or> rg_carried_checked st then Finish (Inr st)
        else rg_then (carried_for uid) (\<lambda>carried. rg_then (update uid (carry_change carried)) (\<lambda>st'.
          if carried = None then Finish (Inr st')
          else rg_bind (audited uid ''self_exclusion_carried'') (\<lambda>_. Finish (Inr st')))))"

text \<open>What outlives an account, and until when. Five years are counted by the calendar, given as a function.\<close>

definition carried_self_exclusion :: "(int \<Rightarrow> int) \<Rightarrow> self_exclusion \<Rightarrow> int \<Rightarrow> (self_exclusion \<times> int) option" where
  "carried_self_exclusion five_years_on ex now = (case ex_until ex of
     Unset \<Rightarrow> Some (ex, five_years_on now)
   | Unreadable \<Rightarrow> Some (ex, five_years_on now)
   | At t \<Rightarrow> if \<not> now < t then None else Some (ex, t))"

definition carry_on_erase :: "(int \<Rightarrow> int) \<Rightarrow> bool \<Rightarrow> string \<Rightarrow> bool rules" where
  "carry_on_erase five_years_on has_cpf uid = rg_then (get_state uid) (\<lambda>got.
     case Option.bind got rg_exclusion of
       None \<Rightarrow> Finish (Inr False)
     | Some ex \<Rightarrow> Clock (\<lambda>now. case carried_self_exclusion five_years_on ex now of
         None \<Rightarrow> Finish (Inr False)
       | Some (ex, until) \<Rightarrow>
           if \<not> has_cpf then Finish (Inl NoHashLookup)
           else rg_then (cpf_hash uid) (\<lambda>digest.
             if digest = '''' then Finish (Inr False)
             else Call (PutCarried digest ex (unix_sec until)) (\<lambda>r.
               Finish (if r = Written \<or> r = Refused then Inr True else Inl StoreFailed)))))"

text \<open>The condition of that write: the row that lasts longer stays.\<close>

definition put_carried_holds :: "int \<Rightarrow> (self_exclusion \<times> int) option \<Rightarrow> bool" where
  "put_carried_holds ttl row \<longleftrightarrow> (case row of None \<Rightarrow> True | Some (_, old) \<Rightarrow> old < ttl)"

section \<open>Putting money on a table\<close>

definition counters_of :: "rg_state \<Rightarrow> deposit_counters" where
  "counters_of st = (case rg_counters st of None \<Rightarrow> no_counters | Some c \<Rightarrow> c)"

definition eligibility :: "(int \<Rightarrow> int) \<Rightarrow> bool \<Rightarrow> string \<Rightarrow> int \<Rightarrow> unit rules" where
  "eligibility off has_cpf uid amount = rg_then (apply_carried has_cpf uid) (\<lambda>st. Clock (\<lambda>now. Finish (
     if \<not> gambling_accepted st then Inl ConsentRequired
     else if self_excluded st now then Inl (Excluded (case rg_exclusion st of Some ex \<Rightarrow> ex_until ex | None \<Rightarrow> Unset))
     else if \<not> limits_configured st then Inl LimitsNotConfigured
     else case check_deposit off (fst (effective_limits st now)) (counters_of st) amount now of
            Some b \<Rightarrow> Inl (Breached b) | None \<Rightarrow> Inr ())))"

definition counted :: "string \<Rightarrow> string \<Rightarrow> bool rules" where
  "counted uid key = Call (GetMarker uid key) (\<lambda>r. Finish (case r of MarkerIs b \<Rightarrow> Inr b | _ \<Rightarrow> Inl StoreFailed))"

text \<open>The state after an amount is metered.\<close>

definition add_inflow :: "(int \<Rightarrow> int) \<Rightarrow> int \<Rightarrow> rg_state \<Rightarrow> int \<Rightarrow> rg_state" where
  "add_inflow off amount st now =
     (case window_keys off now of (day, week, month) \<Rightarrow>
      case sums_for (counters_of st) (day, week, month) of (d, w, m) \<Rightarrow>
        st\<lparr>rg_counters := Some \<lparr>dc_day_key = day, dc_day_sum = d + amount, dc_week_key = week, dc_week_sum = w + amount,
             dc_month_key = month, dc_month_sum = m + amount\<rparr>\<rparr>)"

text \<open>
  A refused commit is a lost race, or a key that was counted before. \<open>Inr None\<close> is an accepted amount,
  \<open>Inr (Some b)\<close> the limit it breaches.
\<close>

definition commit_inflow :: "rg_state \<Rightarrow> nat \<Rightarrow> string \<Rightarrow> int \<Rightarrow> (rg_error + bool \<Rightarrow> 'a rules) \<Rightarrow> 'a rules" where
  "commit_inflow st prev key now f = Call (CommitInflow st prev key now) (\<lambda>r.
     if r = Written then f (Inr True)
     else if r = Refused then rg_bind (counted (rg_user st) key) (\<lambda>c. f (case c of
         Inl e \<Rightarrow> Inl e | Inr True \<Rightarrow> Inr False | Inr False \<Rightarrow> Inl Conflict))
     else f (Inl StoreFailed))"

primrec record_inflow_from :: "nat \<Rightarrow> (int \<Rightarrow> int) \<Rightarrow> string \<Rightarrow> int \<Rightarrow> string \<Rightarrow> limit_breach option rules" where
  "record_inflow_from 0 off uid amount key = Finish (Inl Conflict)"
| "record_inflow_from (Suc n) off uid amount key = rg_then (counted uid key) (\<lambda>before_now.
     if before_now then Finish (Inr None)
     else rg_then (get_state uid) (\<lambda>got.
       let st = state_or_new uid got
       in Clock (\<lambda>now.
         if \<not> limits_configured st then Finish (Inl LimitsNotConfigured)
         else case effective_limits st now of (lim, matured) \<Rightarrow>
           let st' = (if matured then st\<lparr>rg_limits := Some lim\<rparr> else st)
           in case check_deposit off lim (counters_of st) amount now of
                Some b \<Rightarrow> Finish (Inr (Some b))
              | None \<Rightarrow> commit_inflow (add_inflow off amount st' now) (rg_version st) key now (\<lambda>r. case r of
                  Inr _ \<Rightarrow> Finish (Inr None)
                | Inl e \<Rightarrow> if e = Conflict then record_inflow_from n off uid amount key else Finish (Inl e)))))"

definition record_inflow :: "(int \<Rightarrow> int) \<Rightarrow> string \<Rightarrow> int \<Rightarrow> string \<Rightarrow> limit_breach option rules" where
  "record_inflow off uid amount key = record_inflow_from rg_attempts off uid amount key"

section \<open>The settings page\<close>

record rg_status =
  rs_accepted :: bool
  rs_limits :: "game_limits option"
  rs_usage :: "int \<times> int \<times> int"
  rs_excluded :: "self_exclusion option"

definition status :: "(int \<Rightarrow> int) \<Rightarrow> string \<Rightarrow> rg_status rules" where
  "status off uid = rg_then (get_state uid) (\<lambda>got. Clock (\<lambda>now.
     let c = (case got of None \<Rightarrow> no_counters | Some st \<Rightarrow> counters_of st)
     in Finish (Inr \<lparr>rs_accepted = (case got of None \<Rightarrow> False | Some st \<Rightarrow> gambling_accepted st),
          rs_limits = Option.bind got (\<lambda>st. map_option (\<lambda>_. fst (effective_limits st now)) (rg_limits st)),
          rs_usage = sums_for c (window_keys off now),
          rs_excluded = Option.bind got (\<lambda>st. if self_excluded st now then rg_exclusion st else None)\<rparr>)))"

end
