(* ===== verification/Responsible_Runs.thy ===== *)
theory Responsible_Runs
  imports Responsible
begin

text \<open>
  Any number of requests to the rules of responsible gaming at once, over one table of states: each call of the
  store is one step, requests interleave as they like, answers get lost, and the clock goes on. Imports from the
  wallet and the erasure of an account are left out.
\<close>

section \<open>Requests\<close>

record rg_service =
  rs_offset :: "int \<Rightarrow> int"
  rs_five_years_on :: "int \<Rightarrow> int"
  rs_has_cpf :: bool

datatype request =
    AcceptReq string
  | ExcludeReq string string
  | RevokeReq string
  | LimitsReq string int int int
  | CancelReq string
  | EligibleReq string int
  | InflowReq string int string
  | StatusReq string
  | CarryReq string

text \<open>The program of a request; only a metered amount has an answer that matters here.\<close>

definition silent :: "'a rules \<Rightarrow> limit_breach option rules" where
  "silent m = rg_then m (\<lambda>_. Finish (Inr None))"

primrec serve_request :: "rg_service \<Rightarrow> request \<Rightarrow> limit_breach option rules" where
  "serve_request S (AcceptReq uid) = silent (accept_gambling uid)"
| "serve_request S (ExcludeReq uid period) = silent (self_exclude uid period)"
| "serve_request S (RevokeReq uid) = silent (revoke_self_exclusion uid)"
| "serve_request S (LimitsReq uid d w m) = silent (set_limits uid d w m)"
| "serve_request S (CancelReq uid) = silent (cancel_pending_limits uid)"
| "serve_request S (EligibleReq uid amount) = silent (eligibility (rs_offset S) (rs_has_cpf S) uid amount)"
| "serve_request S (InflowReq uid amount key) = record_inflow (rs_offset S) uid amount key"
| "serve_request S (StatusReq uid) = silent (status (rs_offset S) uid)"
| "serve_request S (CarryReq uid) = silent (carry_on_erase (rs_five_years_on S) (rs_has_cpf S) uid)"

section \<open>The world\<close>

text \<open>The log of metered amounts, newest first, is not part of the store: it is what the counters are about.\<close>

record inflow =
  in_user :: string
  in_key :: string
  in_amount :: int
  in_at :: int
  in_limits :: game_limits

record rg_world =
  rw_states :: "string \<rightharpoonup> rg_state"
  rw_markers :: "(string \<times> string) set"
  rw_carried :: "string \<rightharpoonup> self_exclusion \<times> int"
  rw_now :: int
  rw_log :: "inflow list"
  rw_jobs :: "nat \<rightharpoonup> request \<times> limit_breach option rules"

definition amount_of :: "request \<Rightarrow> int" where
  "amount_of req = (case req of InflowReq _ amount _ \<Rightarrow> amount | _ \<Rightarrow> 0)"

definition the_limits :: "rg_state \<Rightarrow> game_limits" where
  "the_limits st = (case rg_limits st of None \<Rightarrow> no_limits | Some l \<Rightarrow> l)"

text \<open>What DynamoDB does with a call.\<close>

fun answer_call :: "request \<Rightarrow> rg_call \<Rightarrow> rg_world \<Rightarrow> rg_reply \<times> rg_world" where
  "answer_call req (GetState uid) w = (StateIs (rw_states w uid), w)"
| "answer_call req (PutState st prev) w =
     (if put_state_holds prev (rw_states w (rg_user st))
      then (Written, w\<lparr>rw_states := (rw_states w)(rg_user st \<mapsto> written_state st prev)\<rparr>) else (Refused, w))"
| "answer_call req (CommitInflow st prev key now) w =
     (if put_state_holds prev (rw_states w (rg_user st)) \<and> (rg_user st, key) \<notin> rw_markers w
      then (Written, w\<lparr>rw_states := (rw_states w)(rg_user st \<mapsto> written_state st prev),
          rw_markers := insert (rg_user st, key) (rw_markers w),
          rw_log := \<lparr>in_user = rg_user st, in_key = key, in_amount = amount_of req, in_at = now, in_limits = the_limits st\<rparr> # rw_log w\<rparr>)
      else (Refused, w))"
| "answer_call req (GetMarker uid key) w = (MarkerIs ((uid, key) \<in> rw_markers w), w)"
| "answer_call req (AppendAudit uid event) w = (Written, w)"
| "answer_call req (GetCarried h) w = (CarriedIs (rw_carried w h), w)"
| "answer_call req (PutCarried h ex ttl) w =
     (if put_carried_holds ttl (rw_carried w h) then (Written, w\<lparr>rw_carried := (rw_carried w)(h \<mapsto> (ex, ttl))\<rparr>) else (Refused, w))"
| "answer_call req (CpfHash uid) w = (Failed, w)"

abbreviation resume :: "nat \<Rightarrow> request \<Rightarrow> limit_breach option rules \<Rightarrow> rg_world \<Rightarrow> rg_world" where
  "resume i req p w \<equiv> w\<lparr>rw_jobs := (rw_jobs w)(i \<mapsto> (req, p))\<rparr>"

inductive rg_step :: "rg_service \<Rightarrow> rg_world \<Rightarrow> rg_world \<Rightarrow> bool" for S where
  tick: "rw_now w \<le> t \<Longrightarrow> rg_step S w (w\<lparr>rw_now := t\<rparr>)"
| arrive: "rw_jobs w i = None \<Longrightarrow> rg_step S w (resume i req (serve_request S req) w)"
| look: "rw_jobs w i = Some (req, Clock k) \<Longrightarrow> rg_step S w (resume i req (k (rw_now w)) w)"
| answered: "rw_jobs w i = Some (req, Call c k) \<Longrightarrow> answer_call req c w = (r, w') \<Longrightarrow> rg_step S w (resume i req (k r) w')"
| lost: "rw_jobs w i = Some (req, Call c k) \<Longrightarrow> answer_call req c w = (r, w') \<Longrightarrow> rg_step S w (resume i req (k Failed) w')"
| unsent: "rw_jobs w i = Some (req, Call c k) \<Longrightarrow> rg_step S w (resume i req (k Failed) w)"
| contended: "rw_jobs w i = Some (req, Call (CommitInflow st prev key now) k) \<Longrightarrow> rg_step S w (resume i req (k Refused) w)"
| hashed: "rw_jobs w i = Some (req, Call (CpfHash uid) k) \<Longrightarrow> rg_step S w (resume i req (k (HashIs h)) w)"

definition first_world :: "int \<Rightarrow> rg_world" where
  "first_world t = \<lparr>rw_states = (\<lambda>_. None), rw_markers = {}, rw_carried = (\<lambda>_. None), rw_now = t, rw_log = [], rw_jobs = (\<lambda>_. None)\<rparr>"

inductive rg_reachable :: "rg_service \<Rightarrow> rg_world \<Rightarrow> bool" for S where
  first: "0 \<le> t \<Longrightarrow> rg_reachable S (first_world t)"
| later: "rg_reachable S w \<Longrightarrow> rg_step S w w' \<Longrightarrow> rg_reachable S w'"

section \<open>What a request knows\<close>

record knowledge =
  kn_got :: "rg_state option"
  kn_got_at :: int
  kn_clock :: int
  kn_counted :: bool

text \<open>A state that the rules have written.\<close>

definition limits_proper :: "game_limits \<Rightarrow> bool" where
  "limits_proper l \<longleftrightarrow> valid_limits (gl_daily l) (gl_weekly l) (gl_monthly l) \<and>
     (case gl_pending l of None \<Rightarrow> True | Some p \<Rightarrow> valid_limits (pn_daily p) (pn_weekly p) (pn_monthly p))"

definition readable :: "self_exclusion \<Rightarrow> bool" where
  "readable ex \<longleftrightarrow> ex_until ex \<noteq> Unreadable"

definition proper :: "rg_state \<Rightarrow> bool" where
  "proper st \<longleftrightarrow> (case rg_limits st of None \<Rightarrow> True | Some l \<Rightarrow> limits_proper l) \<and>
     (case rg_exclusion st of None \<Rightarrow> True | Some ex \<Rightarrow> readable ex)"

definition plausible :: "rg_call \<Rightarrow> rg_reply \<Rightarrow> bool" where
  "plausible c r \<longleftrightarrow> (case (c, r) of
     (GetState uid, StateIs (Some st)) \<Rightarrow> rg_user st = uid \<and> proper st
   | (GetCarried h, CarriedIs (Some (ex, ttl))) \<Rightarrow> readable ex
   | _ \<Rightarrow> True)"

fun learn :: "int \<Rightarrow> rg_call \<Rightarrow> rg_reply \<Rightarrow> knowledge \<Rightarrow> knowledge" where
  "learn t (GetState uid) (StateIs got) K = K\<lparr>kn_got := Some (state_or_new uid got), kn_got_at := t\<rparr>"
| "learn t (GetMarker uid key) (MarkerIs b) K = K\<lparr>kn_counted := b\<rparr>"
| "learn t (CommitInflow st prev key now) Written K = K\<lparr>kn_counted := True\<rparr>"
| "learn t c r K = K"

text \<open>A program that only asks for what is permitted, and ends as it should.\<close>

primrec lawful :: "(knowledge \<Rightarrow> rg_call \<Rightarrow> bool) \<Rightarrow> (knowledge \<Rightarrow> 'a \<Rightarrow> bool) \<Rightarrow> 'a rg \<Rightarrow> knowledge \<Rightarrow> bool" where
  "lawful P Q (Finish v) K \<longleftrightarrow> Q K v"
| "lawful P Q (Call c k) K \<longleftrightarrow> P K c \<and> (\<forall>r t. plausible c r \<longrightarrow> lawful P Q (k r) (learn t c r K))"
| "lawful P Q (Clock k) K \<longleftrightarrow> (\<forall>t. kn_got_at K \<le> t \<longrightarrow> lawful P Q (k t) (K\<lparr>kn_clock := t\<rparr>))"

lemma lawful_bind: "lawful P Q (rg_bind m f) K \<longleftrightarrow> lawful P (\<lambda>K v. lawful P Q (f v) K) m K"
  by (induction m arbitrary: K) simp_all

lemma lawful_then:
  "lawful P Q (rg_then m f) K \<longleftrightarrow>
     lawful P (\<lambda>K r. case r of Inl e \<Rightarrow> Q K (Inl e) | Inr v \<Rightarrow> lawful P Q (f v) K) m K"
proof -
  have "(\<lambda>K v. lawful P Q (case v of Inl e \<Rightarrow> Finish (Inl e) | Inr v \<Rightarrow> f v) K) =
      (\<lambda>K r. case r of Inl e \<Rightarrow> Q K (Inl e) | Inr v \<Rightarrow> lawful P Q (f v) K)"
    by (auto simp: fun_eq_iff split: sum.split)
  then show ?thesis by (simp add: rg_then_def lawful_bind)
qed

lemma lawful_weaken: "lawful P Q m K \<Longrightarrow> (\<And>K v. Q K v \<Longrightarrow> R K v) \<Longrightarrow> lawful P R m K"
  by (induction m arbitrary: K) simp_all

section \<open>What a request may ask for\<close>

definition lifted :: "rg_state \<Rightarrow> int \<Rightarrow> bool" where
  "lifted g now \<longleftrightarrow> (\<exists>ex t. rg_exclusion g = Some ex \<and> ex_until ex = Unset \<and> ex_requested_at ex = At t \<and>
     t + exclusion_revoke_floor \<le> now)"

definition exclusion_kept :: "rg_state \<Rightarrow> rg_state \<Rightarrow> int \<Rightarrow> bool" where
  "exclusion_kept g st now \<longleftrightarrow> (\<forall>t. now \<le> t \<and> self_excluded g t \<longrightarrow> self_excluded st t) \<or> rg_exclusion st = None \<and> lifted g now"

definition settings_change :: "rg_state \<Rightarrow> rg_state \<Rightarrow> int \<Rightarrow> bool" where
  "settings_change g st now \<longleftrightarrow> rg_user st = rg_user g \<and> rg_counters st = rg_counters g \<and>
     (proper g \<longrightarrow> proper st \<and> exclusion_kept g st now)"

definition metered :: "(int \<Rightarrow> int) \<Rightarrow> int \<Rightarrow> rg_state \<Rightarrow> rg_state \<Rightarrow> int \<Rightarrow> bool" where
  "metered off amount g st now \<longleftrightarrow> rg_user st = rg_user g \<and> rg_exclusion st = rg_exclusion g \<and> (proper g \<longrightarrow> proper st) \<and>
     rg_counters st = rg_counters (add_inflow off amount g now) \<and>
     check_deposit off (the_limits st) (counters_of g) amount now = None \<and> the_limits st = fst (effective_limits g now)"

definition permitted :: "(int \<Rightarrow> int) \<Rightarrow> request \<Rightarrow> knowledge \<Rightarrow> rg_call \<Rightarrow> bool" where
  "permitted off req K c \<longleftrightarrow> (case c of
     PutState st prev \<Rightarrow> \<exists>g. kn_got K = Some g \<and> prev = rg_version g \<and> kn_got_at K \<le> kn_clock K \<and> settings_change g st (kn_clock K)
   | CommitInflow st prev key now \<Rightarrow> \<exists>g amount. req = InflowReq (rg_user g) amount key \<and> kn_got K = Some g \<and>
       prev = rg_version g \<and> now = kn_clock K \<and> kn_got_at K \<le> now \<and> metered off amount g st now
   | GetMarker uid key \<Rightarrow> \<exists>amount. req = InflowReq uid amount key
   | PutCarried h ex ttl \<Rightarrow> readable ex
   | _ \<Rightarrow> True)"

definition finished :: "request \<Rightarrow> knowledge \<Rightarrow> rg_error + limit_breach option \<Rightarrow> bool" where
  "finished req K v \<longleftrightarrow> (case req of InflowReq _ _ _ \<Rightarrow> v = Inr None \<longrightarrow> kn_counted K | _ \<Rightarrow> True)"

lemma permitted_simps [simp]:
  "permitted off req K (GetState uid)" "permitted off req K (AppendAudit uid ev)" "permitted off req K (GetCarried h)"
  "permitted off req K (CpfHash uid)" "permitted off req K (PutCarried h ex ttl) \<longleftrightarrow> readable ex"
  "permitted off req K (GetMarker uid key) \<longleftrightarrow> (\<exists>amount. req = InflowReq uid amount key)"
  "permitted off req K (PutState st prev) \<longleftrightarrow>
     (\<exists>g. kn_got K = Some g \<and> prev = rg_version g \<and> kn_got_at K \<le> kn_clock K \<and> settings_change g st (kn_clock K))"
  "permitted off req K (CommitInflow st prev key now) \<longleftrightarrow>
     (\<exists>g amount. req = InflowReq (rg_user g) amount key \<and> kn_got K = Some g \<and> prev = rg_version g \<and> now = kn_clock K \<and>
       kn_got_at K \<le> now \<and> metered off amount g st now)"
  by (simp_all add: permitted_def)

lemma user_of_got: "plausible (GetState uid) (StateIs got) \<Longrightarrow> rg_user (state_or_new uid got) = uid"
  by (auto simp: plausible_def state_or_new_def new_state_def split: option.splits)

section \<open>Changes of the settings are lawful\<close>

lemma exclusion_kept_same: "rg_exclusion st = rg_exclusion g \<Longrightarrow> exclusion_kept g st now"
  by (simp add: exclusion_kept_def self_excluded_def)

lemma in_force_later: "in_force ex t \<Longrightarrow> now \<le> t \<Longrightarrow> in_force ex now"
  by (auto simp: in_force_def split: stamp.splits)

lemma excluded_earlier: "self_excluded g t \<Longrightarrow> now \<le> t \<Longrightarrow> self_excluded g now"
  by (auto simp: self_excluded_def split: option.splits intro: in_force_later)

lemma exclusion_until_readable: "exclusion_until period now = Some u \<Longrightarrow> u \<noteq> Unreadable"
  by (auto simp: exclusion_until_def stamped_def split: if_splits)

lemma accept_lawful: "accept_change g now = Inr st \<Longrightarrow> settings_change g st now"
  by (auto simp: accept_change_def settings_change_def proper_def exclusion_kept_same)

lemma longer_exclusion:
  assumes "rg_exclusion g = Some cur" and "rg_exclusion st = Some ex" and "in_force cur now" and "ex_until cur \<noteq> Unset"
    and "ex_until cur \<noteq> Unreadable" and "\<And>n. ex_until ex = At n \<Longrightarrow> \<exists>c. ex_until cur = At c \<and> c < n"
  shows "exclusion_kept g st now"
  using assms by (cases "ex_until ex"; cases "ex_until cur") (auto simp: exclusion_kept_def self_excluded_def in_force_def)

lemma not_excluded_kept: "\<not> self_excluded g now \<Longrightarrow> exclusion_kept g st now"
  using excluded_earlier by (auto simp: exclusion_kept_def)

lemma exclude_lawful:
  assumes "exclude_change period g now = Inr st"
  shows "settings_change g st now"
proof -
  obtain until where u: "exclusion_until period now = Some until" and
    st: "st = g\<lparr>rg_exclusion := Some \<lparr>ex_period = period, ex_requested_at = stamped now, ex_until = until\<rparr>\<rparr>"
    using assms by (auto simp: exclude_change_def Let_def split: option.splits if_splits)
  have "exclusion_kept g st now" if "proper g"
  proof (cases "self_excluded g now")
    case False
    then show ?thesis by (rule not_excluded_kept)
  next
    case True
    then obtain cur where cur: "rg_exclusion g = Some cur" "in_force cur now"
      by (auto simp: self_excluded_def split: option.splits)
    then have "ex_until cur \<noteq> Unset" "until \<noteq> Unset \<Longrightarrow> extends until (ex_until cur)"
      using assms u True by (auto simp: exclude_change_def Let_def split: if_splits)
    moreover have "ex_until cur \<noteq> Unreadable" using that cur(1) by (simp add: proper_def readable_def)
    ultimately show ?thesis
      using longer_exclusion [OF cur(1) _ cur(2), of st] by (force simp: st extends_def split: stamp.splits)
  qed
  then show ?thesis
    using exclusion_until_readable [OF u] by (auto simp: settings_change_def st proper_def readable_def)
qed

lemma revoke_lawful: "revoke_change g now = Inr st \<Longrightarrow> settings_change g st now"
  by (auto simp: revoke_change_def settings_change_def exclusion_kept_def lifted_def proper_def split: option.splits if_splits stamp.splits)

lemma effective_limits_proper:
  "rg_limits g = Some l \<Longrightarrow> limits_proper l \<Longrightarrow> limits_proper (fst (effective_limits g now))"
  by (auto simp: effective_limits_def limits_proper_def split: option.splits stamp.splits)

lemma limits_lawful:
  assumes "valid_limits d w m" and "limits_change d w m g now = Inr st"
  shows "settings_change g st now"
proof -
  obtain cur matured where e: "effective_limits g now = (cur, matured)" by fastforce
  have cur: "limits_proper cur" if "proper g" "rg_limits g \<noteq> None"
    using that effective_limits_proper [of g _ now] e by (auto simp: proper_def)
  have none: "matured = False" if "rg_limits g = None" using that e by (auto simp: effective_limits_def)
  have applied: "limits_proper \<lparr>gl_daily = min d (gl_daily cur), gl_weekly = min w (gl_weekly cur), gl_monthly = min m (gl_monthly cur),
      gl_pending = p\<rparr>" if "limits_proper cur" "p = None \<or> (\<exists>t. p = Some \<lparr>pn_daily = d, pn_weekly = w, pn_monthly = m, pn_applies_at = t\<rparr>)" for p
    using that assms(1) by (auto simp: limits_proper_def valid_limits_def split: option.splits)
  have first: "limits_proper \<lparr>gl_daily = d, gl_weekly = w, gl_monthly = m, gl_pending = None\<rparr>"
    using assms(1) by (simp add: limits_proper_def)
  have conf: "rg_limits g \<noteq> None \<or> \<not> limits_configured (if matured then g\<lparr>rg_limits := Some cur\<rparr> else g) \<and> \<not> matured"
    using none by (cases "rg_limits g") (auto simp: limits_configured_def)
  have "\<exists>l. rg_limits st = Some l \<and> limits_proper l" if "proper g"
  proof (cases "limits_configured (if matured then g\<lparr>rg_limits := Some cur\<rparr> else g) \<or> matured")
    case True
    define p where "p = (if d > gl_daily cur \<or> w > gl_weekly cur \<or> m > gl_monthly cur
      then Some \<lparr>pn_daily = d, pn_weekly = w, pn_monthly = m,
        pn_applies_at = stamped (now + (if m > gl_monthly cur then cooldown_monthly else cooldown_increase))\<rparr> else None)"
    have "rg_limits st = Some \<lparr>gl_daily = min d (gl_daily cur), gl_weekly = min w (gl_weekly cur), gl_monthly = min m (gl_monthly cur),
        gl_pending = p\<rparr>"
      using assms(2) e True by (simp only: limits_change_def Let_def p_def prod.case if_True) auto
    moreover have "limits_proper cur" using cur [OF that] conf True by blast
    ultimately show ?thesis using applied [of p] by (simp add: p_def)
  next
    case False
    then show ?thesis using assms(2) e first by (auto simp: limits_change_def Let_def)
  qed
  moreover have "proper g \<Longrightarrow> rg_exclusion st = rg_exclusion g" using assms(2) e by (auto simp: limits_change_def Let_def)
  ultimately have "proper st" if "proper g" using that by (auto simp: proper_def)
  moreover have "rg_user st = rg_user g" "rg_counters st = rg_counters g" "rg_exclusion st = rg_exclusion g"
    using assms(2) e by (auto simp: limits_change_def Let_def)
  ultimately show ?thesis by (simp add: settings_change_def exclusion_kept_same)
qed

lemma cancel_lawful: "cancel_change g now = Inr st \<Longrightarrow> settings_change g st now"
  using effective_limits_proper [of g _ now]
  by (auto simp: cancel_change_def settings_change_def exclusion_kept_same proper_def limits_proper_def split: option.splits prod.splits if_splits)

lemma carry_lawful:
  assumes "carry_change carried g now = Inr st" and "\<And>ex. carried = Some ex \<Longrightarrow> readable ex"
  shows "settings_change g st now"
proof -
  let ?new = "\<lambda>ex. \<not> (self_excluded g now \<and> lasts_longer (rg_exclusion g) ex)"
  have same: "self_excluded (g\<lparr>rg_carried_checked := True\<rparr>) now = self_excluded g now" by (simp add: self_excluded_def)
  have st: "st = (let g = g\<lparr>rg_carried_checked := True\<rparr> in case carried of None \<Rightarrow> g
      | Some ex \<Rightarrow> if ?new ex then g\<lparr>rg_exclusion := Some ex\<rparr> else g)"
    using assms(1) by (auto simp: carry_change_def Let_def same split: option.splits)
  show ?thesis
  proof (cases "\<exists>ex. carried = Some ex \<and> ?new ex")
    case False
    then have "rg_exclusion st = rg_exclusion g" "rg_limits st = rg_limits g" "rg_user st = rg_user g" "rg_counters st = rg_counters g"
      using st False by (cases carried; simp add: Let_def)+
    then show ?thesis by (simp add: settings_change_def exclusion_kept_same proper_def)
  next
    case True
    then obtain ex where ex: "carried = Some ex" "?new ex" by blast
    then have st: "st = g\<lparr>rg_carried_checked := True, rg_exclusion := Some ex\<rparr>" using st by simp
    have "exclusion_kept g st now" if "proper g"
    proof (cases "self_excluded g now")
      case False
      then show ?thesis by (rule not_excluded_kept)
    next
      case True
      then obtain cur where cur: "rg_exclusion g = Some cur" "in_force cur now" by (auto simp: self_excluded_def split: option.splits)
      then have longer: "\<not> lasts_longer (Some cur) ex" using ex True by simp
      then have "ex_until cur \<noteq> Unset" by (auto simp: lasts_longer_def)
      moreover have "ex_until cur \<noteq> Unreadable" using that cur(1) by (simp add: proper_def readable_def)
      ultimately show ?thesis
        using longer longer_exclusion [OF cur(1) _ cur(2), of st ex]
        by (cases "ex_until cur"; cases "ex_until ex") (auto simp: st lasts_longer_def)
    qed
    then show ?thesis using assms(2) [OF ex(1)] by (auto simp: settings_change_def st proper_def)
  qed
qed

section \<open>Requests are lawful\<close>

lemma update_lawful:
  assumes "\<And>g now st. rg_user g = uid \<Longrightarrow> fn g now = Inr st \<Longrightarrow> settings_change g st now"
  shows "lawful (permitted off req) (\<lambda>_ _. True) (update_from n uid fn) K"
proof (induction n arbitrary: K)
  case (Suc n)
  have "lawful (permitted off req) (\<lambda>_ _. True) (case fn g t of Inl e \<Rightarrow> Finish (Inl e)
      | Inr st \<Rightarrow> Call (PutState st (rg_version g)) (\<lambda>r. if r = Written then Finish (Inr (written_state st (rg_version g)))
            else if r = Refused then update_from n uid fn else Finish (Inl StoreFailed))) (K'\<lparr>kn_clock := t\<rparr>)"
    if "kn_got K' = Some g" "kn_got_at K' \<le> t" "rg_user g = uid" for K' g t
  proof (cases "fn g t")
    case (Inr st)
    then show ?thesis using that assms [OF that(3) Inr] Suc.IH by simp
  qed simp
  then show ?case
    by (auto simp: lawful_then get_state_def Let_def user_of_got split: rg_reply.split)
qed simp

lemma audited_lawful: "lawful (permitted off req) (\<lambda>_ _. True) (audited uid ev) K"
  by (simp add: audited_def)

lemma lawful_True_then:
  "lawful P (\<lambda>_ _. True) m K \<Longrightarrow> (\<And>v K. lawful P (\<lambda>_ _. True) (f v) K) \<Longrightarrow> lawful P (\<lambda>_ _. True) (rg_then m f) K"
  unfolding lawful_then by (erule lawful_weaken) (simp split: sum.split)

lemma lawful_True_bind:
  "lawful P (\<lambda>_ _. True) m K \<Longrightarrow> (\<And>v K. lawful P (\<lambda>_ _. True) (f v) K) \<Longrightarrow> lawful P (\<lambda>_ _. True) (rg_bind m f) K"
  unfolding lawful_bind by (erule lawful_weaken) simp

lemma get_state_lawful: "lawful (permitted off req) (\<lambda>_ _. True) (get_state uid) K"
  by (simp add: get_state_def)

lemma cpf_hash_lawful: "lawful (permitted off req) (\<lambda>_ _. True) (cpf_hash uid) K"
  by (simp add: cpf_hash_def)

lemma carried_for_lawful:
  "lawful (permitted off req) (\<lambda>_ r. \<forall>ex. r = Inr (Some ex) \<longrightarrow> readable ex) (carried_for uid) K"
  by (auto simp: carried_for_def lawful_then cpf_hash_def get_carried_def plausible_def split: rg_reply.split option.split)

lemma apply_carried_lawful: "lawful (permitted off req) (\<lambda>_ _. True) (apply_carried has_cpf uid) K"
proof -
  have change: "lawful (permitted off req) (\<lambda>_ _. True) (rg_then (update uid (carry_change carried)) (\<lambda>st'.
      if carried = None then Finish (Inr st') else rg_bind (audited uid ''self_exclusion_carried'') (\<lambda>_. Finish (Inr st')))) K"
    if "\<forall>ex. carried = Some ex \<longrightarrow> readable ex" for carried K
    using that unfolding update_def
    by (intro lawful_True_then update_lawful) (auto intro!: carry_lawful lawful_True_bind audited_lawful)
  have "lawful (permitted off req) (\<lambda>_ _. True) (rg_then (carried_for uid) (\<lambda>carried. rg_then (update uid (carry_change carried)) (\<lambda>st'.
      if carried = None then Finish (Inr st') else rg_bind (audited uid ''self_exclusion_carried'') (\<lambda>_. Finish (Inr st'))))) K" for K
    unfolding lawful_then [of _ _ "carried_for uid"]
    by (rule lawful_weaken [OF carried_for_lawful]) (simp add: change split: sum.split)
  then show ?thesis
    unfolding apply_carried_def by (intro lawful_True_then get_state_lawful) (simp add: Let_def)
qed

lemma carry_on_erase_lawful: "lawful (permitted off req) (\<lambda>_ _. True) (carry_on_erase five has_cpf uid) K"
proof -
  have put: "lawful (permitted off req) (\<lambda>_ _. True) (Clock (\<lambda>now. case carried_self_exclusion five ex now of
         None \<Rightarrow> Finish (Inr False)
       | Some (ex, until) \<Rightarrow>
           if \<not> has_cpf then Finish (Inl NoHashLookup)
           else rg_then (cpf_hash uid) (\<lambda>digest.
             if digest = '''' then Finish (Inr False)
             else Call (PutCarried digest ex (unix_sec until)) (\<lambda>r.
               Finish (if r = Written \<or> r = Refused then Inr True else Inl StoreFailed))))) K"
    if "readable ex" for ex K
  proof -
    have "readable ex'" if "carried_self_exclusion five ex t = Some (ex', u)" for ex' u t
      using that \<open>readable ex\<close> by (auto simp: carried_self_exclusion_def split: stamp.splits if_splits)
    then show ?thesis
      by (auto split: option.split intro!: lawful_True_then cpf_hash_lawful)
  qed
  have "readable ex" if "plausible (GetState uid) (StateIs got)" "Option.bind got rg_exclusion = Some ex" for got ex
    using that by (auto simp: plausible_def proper_def split: option.splits)
  then show ?thesis
    unfolding carry_on_erase_def lawful_then [of _ _ "get_state uid"]
    by (auto simp: get_state_def put split: rg_reply.split option.split simp del: lawful.simps(3))
qed

lemma metered_inflow:
  assumes "limits_configured g" and "effective_limits g now = (lim, matured)"
    and "check_deposit off lim (counters_of g) amount now = None"
  shows "metered off amount g (add_inflow off amount (if matured then g\<lparr>rg_limits := Some lim\<rparr> else g) now) now"
proof -
  obtain day week month where k: "window_keys off now = (day, week, month)" by (metis prod_cases3)
  obtain d w m where u: "sums_for (counters_of g) (day, week, month) = (d, w, m)" by (metis prod_cases3)
  have same: "counters_of (g\<lparr>rg_limits := Some lim\<rparr>) = counters_of g" by (simp add: counters_of_def)
  obtain l where l: "rg_limits g = Some l" using assms(1) by (auto simp: limits_configured_def split: option.splits)
  have lim: "proper g \<Longrightarrow> limits_proper lim" "\<not> matured \<Longrightarrow> lim = l"
    using effective_limits_proper [OF l, of now] assms(2) l
    by (auto simp: proper_def effective_limits_def split: option.splits stamp.splits if_splits)
  show ?thesis
    using lim l assms(2,3) by (auto simp: metered_def add_inflow_def k u same proper_def the_limits_def)
qed

lemma finished_inflow [simp]: "finished (InflowReq uid amount key) = (\<lambda>K v. v = Inr None \<longrightarrow> kn_counted K)"
  by (simp add: finished_def fun_eq_iff)

lemma record_inflow_lawful:
  "lawful (permitted off (InflowReq uid amount key)) (finished (InflowReq uid amount key)) (record_inflow_from n off uid amount key) K"
proof (induction n arbitrary: K)
  case (Suc n)
  let ?P = "permitted off (InflowReq uid amount key)" and ?Q = "finished (InflowReq uid amount key)"
  have commit: "lawful ?P ?Q (commit_inflow st (rg_version g) key t (\<lambda>r. case r of
        Inr _ \<Rightarrow> Finish (Inr None)
      | Inl e \<Rightarrow> if e = Conflict then record_inflow_from n off uid amount key else Finish (Inl e))) (K'\<lparr>kn_clock := t\<rparr>)"
    if "kn_got K' = Some g" "kn_got_at K' \<le> t" "rg_user g = uid" "metered off amount g st t" for K' g st t
  proof -
    have "rg_user st = uid" using that(3,4) by (simp add: metered_def)
    then show ?thesis
      using that Suc.IH
      by (auto simp: commit_inflow_def lawful_bind counted_def split: rg_reply.split bool.split)
  qed
  define M where "M = (\<lambda>g t. if \<not> limits_configured g then Finish (Inl LimitsNotConfigured)
         else case effective_limits g t of (lim, matured) \<Rightarrow>
           let st' = (if matured then g\<lparr>rg_limits := Some lim\<rparr> else g)
           in case check_deposit off lim (counters_of g) amount t of
                Some b \<Rightarrow> Finish (Inr (Some b))
              | None \<Rightarrow> commit_inflow (add_inflow off amount st' t) (rg_version g) key t (\<lambda>r. case r of
                  Inr _ \<Rightarrow> Finish (Inr None)
                | Inl e \<Rightarrow> if e = Conflict then record_inflow_from n off uid amount key else Finish (Inl e)))"
  have meter: "lawful ?P ?Q (M g t) (K'\<lparr>kn_clock := t\<rparr>)"
    if "kn_got K' = Some g" "kn_got_at K' \<le> t" "rg_user g = uid" for K' g t
  proof (cases "limits_configured g")
    case True
    obtain lim matured where e: "effective_limits g t = (lim, matured)" by fastforce
    show ?thesis
    proof (cases "check_deposit off lim (counters_of g) amount t")
      case None
      show ?thesis using commit [OF that metered_inflow [OF True e None]] True None by (simp add: M_def e Let_def)
    qed (simp add: M_def True e)
  qed (simp add: M_def)
  have got: "lawful ?P ?Q (rg_then (get_state uid) (\<lambda>got. Clock (M (state_or_new uid got)))) K'" for K'
    using meter unfolding lawful_then
    by (auto simp: get_state_def user_of_got split: rg_reply.split)
  have same: "record_inflow_from (Suc n) off uid amount key = rg_then (counted uid key) (\<lambda>before_now.
      if before_now then Finish (Inr None) else rg_then (get_state uid) (\<lambda>got. Clock (M (state_or_new uid got))))"
    by (simp only: record_inflow_from.simps M_def Let_def)
  show ?case
    unfolding same lawful_then [of _ _ "counted uid key"] using got by (auto simp: counted_def split: rg_reply.split)
qed simp

text \<open>Everything a request may do, whatever it is answered.\<close>

lemma eligibility_lawful: "lawful (permitted off req) (\<lambda>_ _. True) (eligibility off' has_cpf uid amount) K"
  unfolding eligibility_def by (intro lawful_True_then apply_carried_lawful) simp

lemma silent_lawful:
  "lawful (permitted off req) (\<lambda>_ _. True) m K \<Longrightarrow> \<forall>uid amount key. req \<noteq> InflowReq uid amount key \<Longrightarrow>
    lawful (permitted off req) (finished req) (silent m) K"
proof -
  assume m: "lawful (permitted off req) (\<lambda>_ _. True) m K" and r: "\<forall>uid amount key. req \<noteq> InflowReq uid amount key"
  have "finished req K' v" for K' v using r by (cases req) (simp_all add: finished_def)
  then show ?thesis
    unfolding silent_def by (intro lawful_weaken [OF lawful_True_then [OF m]]) simp_all
qed

lemma change_lawful:
  "(\<And>g now st. fn g now = Inr st \<Longrightarrow> settings_change g st now) \<Longrightarrow>
    lawful (permitted off req) (\<lambda>_ _. True) (rg_then (update uid fn) (\<lambda>_. audited uid ev)) K"
  unfolding update_def by (intro lawful_True_then update_lawful audited_lawful) blast

lemma serve_lawful: "lawful (permitted (rs_offset S) req) (finished req) (serve_request S req) K"
proof (cases req)
  case (InflowReq uid amount key)
  then show ?thesis by (simp only: serve_request.simps record_inflow_def record_inflow_lawful)
next
  case (AcceptReq uid)
  then show ?thesis by (simp add: accept_gambling_def silent_lawful change_lawful accept_lawful)
next
  case (ExcludeReq uid period)
  then show ?thesis by (simp add: self_exclude_def silent_lawful change_lawful exclude_lawful)
next
  case (RevokeReq uid)
  then show ?thesis by (simp add: revoke_self_exclusion_def silent_lawful change_lawful revoke_lawful)
next
  case (LimitsReq uid d w m)
  have "lawful (permitted (rs_offset S) req) (\<lambda>_ _. True) (set_limits uid d w m) K"
    by (cases "valid_limits d w m") (simp_all add: set_limits_def change_lawful limits_lawful)
  then show ?thesis by (simp add: LimitsReq silent_lawful)
next
  case (CancelReq uid)
  have "lawful (permitted (rs_offset S) req) (\<lambda>_ _. True) (cancel_pending_limits uid) K"
    unfolding cancel_pending_limits_def update_def by (intro lawful_True_then update_lawful) (auto intro: cancel_lawful)
  then show ?thesis by (simp add: CancelReq silent_lawful)
next
  case (EligibleReq uid amount)
  then show ?thesis by (simp add: silent_lawful eligibility_lawful)
next
  case (StatusReq uid)
  have "lawful (permitted (rs_offset S) req) (\<lambda>_ _. True) (status (rs_offset S) uid) K"
    unfolding status_def by (intro lawful_True_then get_state_lawful) simp
  then show ?thesis by (simp add: StatusReq silent_lawful)
next
  case (CarryReq uid)
  then show ?thesis by (simp add: silent_lawful carry_on_erase_lawful)
qed

section \<open>The counters and the log\<close>

text \<open>What a player put on the tables in a window, by the log; \<open>f\<close> picks the window of a key.\<close>

definition used :: "(string \<times> string \<times> string \<Rightarrow> string) \<Rightarrow> (int \<Rightarrow> int) \<Rightarrow> string \<Rightarrow> string \<Rightarrow> inflow list \<Rightarrow> int" where
  "used f off uid key log = sum_list (map in_amount (filter (\<lambda>e. in_user e = uid \<and> f (window_keys off (in_at e)) = key) log))"

lemma used_simps [simp]:
  "used f off uid key [] = 0"
  "used f off uid key (e # es) = (if in_user e = uid \<and> f (window_keys off (in_at e)) = key then in_amount e else 0) + used f off uid key es"
  by (simp_all add: used_def)

lemma used_none: "(\<And>e. e \<in> set log \<Longrightarrow> in_user e = uid \<Longrightarrow> f (window_keys off (in_at e)) \<noteq> key) \<Longrightarrow> used f off uid key log = 0"
  by (induction log) auto

abbreviation "day_key \<equiv> (fst :: string \<times> string \<times> string \<Rightarrow> string)"
abbreviation "week_key \<equiv> (\<lambda>keys :: string \<times> string \<times> string. fst (snd keys))"
abbreviation "month_key_of \<equiv> (\<lambda>keys :: string \<times> string \<times> string. snd (snd keys))"

text \<open>Newest first, and within the limits of each moment.\<close>

primrec in_order :: "inflow list \<Rightarrow> bool" where
  "in_order [] \<longleftrightarrow> True"
| "in_order (e # es) \<longleftrightarrow> (\<forall>x \<in> set es. in_user x = in_user e \<longrightarrow> in_at x \<le> in_at e) \<and> in_order es"

definition fits :: "(int \<Rightarrow> int) \<Rightarrow> inflow \<Rightarrow> inflow list \<Rightarrow> bool" where
  "fits off e log \<longleftrightarrow> (let keys = window_keys off (in_at e) in
     used day_key off (in_user e) (day_key keys) log \<le> gl_daily (in_limits e) \<and>
     used week_key off (in_user e) (week_key keys) log \<le> gl_weekly (in_limits e) \<and>
     used month_key_of off (in_user e) (month_key_of keys) log \<le> gl_monthly (in_limits e))"

primrec all_fit :: "(int \<Rightarrow> int) \<Rightarrow> inflow list \<Rightarrow> bool" where
  "all_fit off [] \<longleftrightarrow> True"
| "all_fit off (e # es) \<longleftrightarrow> fits off e (e # es) \<and> all_fit off es"

text \<open>The counters hold the windows of the latest amount.\<close>

definition covers :: "(int \<Rightarrow> int) \<Rightarrow> inflow list \<Rightarrow> string \<Rightarrow> deposit_counters \<Rightarrow> bool" where
  "covers off log uid c \<longleftrightarrow> (case List.find (\<lambda>e. in_user e = uid) log of
     None \<Rightarrow> dc_day_sum c = 0 \<and> dc_week_sum c = 0 \<and> dc_month_sum c = 0
   | Some e \<Rightarrow> (dc_day_key c, dc_week_key c, dc_month_key c) = window_keys off (in_at e)) \<and>
     dc_day_sum c = used day_key off uid (dc_day_key c) log \<and>
     dc_week_sum c = used week_key off uid (dc_week_key c) log \<and>
     dc_month_sum c = used month_key_of off uid (dc_month_key c) log"

lemma latest_first:
  assumes "in_order log" and "List.find (\<lambda>e. in_user e = uid) log = Some e0" and "e \<in> set log" and "in_user e = uid"
  shows "in_at e \<le> in_at e0"
  using assms by (induction log) (auto split: if_splits)

lemma find_user: "List.find (\<lambda>e. in_user e = uid) log = Some e0 \<Longrightarrow> e0 \<in> set log \<and> in_user e0 = uid"
  by (induction log) (auto split: if_splits)

lemma find_none: "List.find (\<lambda>e. in_user e = uid) log = None \<Longrightarrow> e \<in> set log \<Longrightarrow> in_user e \<noteq> uid"
  by (induction log) (auto split: if_splits)

text \<open>Hence what the rules read off the counters is what the log says of the current windows.\<close>

lemma window_sum:
  assumes "\<And>t u t'. 0 \<le> t \<Longrightarrow> t \<le> u \<Longrightarrow> u \<le> t' \<Longrightarrow> f (window_keys off t) = f (window_keys off t') \<Longrightarrow>
      f (window_keys off u) = f (window_keys off t)"
    and "in_order log" and "\<forall>e \<in> set log. 0 \<le> in_at e" and "\<forall>e \<in> set log. in_user e = uid \<longrightarrow> in_at e \<le> now"
    and "\<And>e. List.find (\<lambda>e. in_user e = uid) log = Some e \<Longrightarrow> key = f (window_keys off (in_at e))"
    and "List.find (\<lambda>e. in_user e = uid) log = None \<Longrightarrow> s = 0" and "s = used f off uid key log"
  shows "(if key = f (window_keys off now) then s else 0) = used f off uid (f (window_keys off now)) log"
proof (cases "List.find (\<lambda>e. in_user e = uid) log")
  case None
  then have "used f off uid k log = 0" for k using find_none by (intro used_none) blast
  then show ?thesis using assms(7) by simp
next
  case (Some e0)
  show ?thesis
  proof (cases "key = f (window_keys off now)")
    case False
    have "f (window_keys off (in_at e)) \<noteq> f (window_keys off now)" if "e \<in> set log" "in_user e = uid" for e
    proof
      assume eq: "f (window_keys off (in_at e)) = f (window_keys off now)"
      have "in_at e \<le> in_at e0" "in_at e0 \<le> now" "0 \<le> in_at e"
        using latest_first [OF assms(2) Some that] find_user [OF Some] assms(3,4) that by auto
      from assms(1) [OF this(3,1,2) eq] show False using False assms(5) [OF Some] eq by simp
    qed
    then show ?thesis using False by (simp add: used_none)
  qed (simp add: assms(7))
qed

lemma sums_for_alt:
  "sums_for c keys = (if dc_day_key c = day_key keys then dc_day_sum c else 0,
     if dc_week_key c = week_key keys then dc_week_sum c else 0, if dc_month_key c = month_key_of keys then dc_month_sum c else 0)"
  by (cases keys) (simp add: sums_for_def)

lemma sums_exact:
  assumes "steady off" and "covers off log uid c" and "in_order log" and "\<forall>e \<in> set log. 0 \<le> in_at e"
    and "\<forall>e \<in> set log. in_user e = uid \<longrightarrow> in_at e \<le> now"
  shows "sums_for c (window_keys off now) =
    (used day_key off uid (day_key (window_keys off now)) log, used week_key off uid (week_key (window_keys off now)) log,
     used month_key_of off uid (month_key_of (window_keys off now)) log)"
proof -
  let ?k = "window_keys off now"
  have latest: "dc_day_key c = day_key (window_keys off (in_at e))" "dc_week_key c = week_key (window_keys off (in_at e))"
    "dc_month_key c = month_key_of (window_keys off (in_at e))"
    if "List.find (\<lambda>e. in_user e = uid) log = Some e" for e
    using that assms(2) by (auto simp: covers_def split: prod.splits) (metis fst_conv snd_conv)+
  have none: "dc_day_sum c = 0" "dc_week_sum c = 0" "dc_month_sum c = 0"
    if "List.find (\<lambda>e. in_user e = uid) log = None" using that assms(2) by (simp_all add: covers_def)
  have all: "dc_day_sum c = used day_key off uid (dc_day_key c) log" "dc_week_sum c = used week_key off uid (dc_week_key c) log"
    "dc_month_sum c = used month_key_of off uid (dc_month_key c) log" using assms(2) by (simp_all add: covers_def)
  have d: "(if dc_day_key c = day_key ?k then dc_day_sum c else 0) = used day_key off uid (day_key ?k) log"
    by (rule window_sum [OF keys_convex(1) [OF assms(1)] assms(3,4,5) latest(1) none(1) all(1)])
  have w: "(if dc_week_key c = week_key ?k then dc_week_sum c else 0) = used week_key off uid (week_key ?k) log"
    by (rule window_sum [where f = week_key, OF keys_convex(2) [OF assms(1)] assms(3,4,5) latest(2) none(2) all(2)])
  have m: "(if dc_month_key c = month_key_of ?k then dc_month_sum c else 0) = used month_key_of off uid (month_key_of ?k) log"
    by (rule window_sum [where f = month_key_of, OF keys_convex(3) [OF assms(1)] assms(3,4,5) latest(3) none(3) all(3)])
  show ?thesis unfolding sums_for_alt d w m by (rule refl)
qed

lemma check_passed:
  assumes "check_deposit off l c amount now = None" and "sums_for c (window_keys off now) = (d, w, m)"
  shows "d + amount \<le> gl_daily l \<and> w + amount \<le> gl_weekly l \<and> m + amount \<le> gl_monthly l"
  using assms by (auto simp: check_deposit_def split: if_splits)

text \<open>A metered amount keeps the counters in step with the log, and fits.\<close>

lemma metered_log:
  assumes "steady off" and "covers off log uid (counters_of g)" and "in_order log" and "\<forall>e \<in> set log. 0 \<le> in_at e"
    and "\<forall>e \<in> set log. in_user e = uid \<longrightarrow> in_at e \<le> now" and "metered off amount g st now"
    and "e = \<lparr>in_user = uid, in_key = key, in_amount = amount, in_at = now, in_limits = the_limits st\<rparr>"
  shows "covers off (e # log) uid (counters_of st)" and "fits off e (e # log)"
proof -
  let ?k = "window_keys off now"
  obtain day week month where k: "?k = (day, week, month)" by (metis prod_cases3)
  note sums = sums_exact [OF assms(1-5)]
  have c: "counters_of st = \<lparr>dc_day_key = day, dc_day_sum = used day_key off uid day log + amount, dc_week_key = week,
      dc_week_sum = used week_key off uid week log + amount, dc_month_key = month,
      dc_month_sum = used month_key_of off uid month log + amount\<rparr>"
    using assms(6) sums by (simp add: metered_def add_inflow_def k counters_of_def)
  then show "covers off (e # log) uid (counters_of st)" by (simp add: covers_def assms(7) k)
  have "check_deposit off (the_limits st) (counters_of g) amount now = None" using assms(6) unfolding metered_def by blast
  from check_passed [OF this sums] show "fits off e (e # log)" by (simp add: fits_def Let_def assms(7) k)
qed

section \<open>The invariant\<close>

definition state_of :: "rg_world \<Rightarrow> string \<Rightarrow> rg_state" where
  "state_of w uid = state_or_new uid (rw_states w uid)"

definition rg_data :: "(int \<Rightarrow> int) \<Rightarrow> rg_world \<Rightarrow> bool" where
  "rg_data off w \<longleftrightarrow> 0 \<le> rw_now w \<and>
     (\<forall>uid st. rw_states w uid = Some st \<longrightarrow> rg_user st = uid \<and> proper st \<and> rg_version st \<noteq> 0) \<and>
     (\<forall>h ex ttl. rw_carried w h = Some (ex, ttl) \<longrightarrow> readable ex) \<and>
     (\<forall>e \<in> set (rw_log w). 0 \<le> in_at e \<and> in_at e \<le> rw_now w) \<and> in_order (rw_log w) \<and> all_fit off (rw_log w) \<and>
     rw_markers w = (\<lambda>e. (in_user e, in_key e)) ` set (rw_log w) \<and> distinct (map (\<lambda>e. (in_user e, in_key e)) (rw_log w)) \<and>
     (\<forall>uid. covers off (rw_log w) uid (counters_of (state_of w uid)))"

definition knows :: "rg_world \<Rightarrow> request \<Rightarrow> knowledge \<Rightarrow> bool" where
  "knows w req K \<longleftrightarrow> 0 \<le> kn_got_at K \<and> kn_got_at K \<le> rw_now w \<and> kn_clock K \<le> rw_now w \<and>
     (kn_counted K \<longrightarrow> (\<exists>uid amount key. req = InflowReq uid amount key \<and> (uid, key) \<in> rw_markers w)) \<and>
     (\<forall>g. kn_got K = Some g \<longrightarrow> rg_version g \<le> rg_version (state_of w (rg_user g)) \<and>
        (rg_version g = rg_version (state_of w (rg_user g)) \<longrightarrow> g = state_of w (rg_user g) \<and>
           (\<forall>e \<in> set (rw_log w). in_user e = rg_user g \<longrightarrow> in_at e \<le> kn_got_at K)))"

definition rg_inv :: "rg_service \<Rightarrow> rg_world \<Rightarrow> bool" where
  "rg_inv S w \<longleftrightarrow> rg_data (rs_offset S) w \<and> (\<forall>i req p. rw_jobs w i = Some (req, p) \<longrightarrow>
     (\<exists>K. lawful (permitted (rs_offset S) req) (finished req) p K \<and> knows w req K))"

text \<open>The store and the log only move on.\<close>

definition moves_on :: "rg_world \<Rightarrow> rg_world \<Rightarrow> bool" where
  "moves_on w w' \<longleftrightarrow> rw_now w \<le> rw_now w' \<and> rw_markers w \<subseteq> rw_markers w' \<and>
     (\<forall>uid. rg_version (state_of w uid) < rg_version (state_of w' uid) \<or>
        state_of w' uid = state_of w uid \<and> (\<forall>e \<in> set (rw_log w'). in_user e = uid \<longrightarrow> e \<in> set (rw_log w)))"

lemma knows_moves_on:
  assumes "knows w req K" and "moves_on w w'"
  shows "knows w' req K"
proof -
  have "rg_version g \<le> rg_version (state_of w' (rg_user g)) \<and>
      (rg_version g = rg_version (state_of w' (rg_user g)) \<longrightarrow> g = state_of w' (rg_user g) \<and>
         (\<forall>e \<in> set (rw_log w'). in_user e = rg_user g \<longrightarrow> in_at e \<le> kn_got_at K))" if "kn_got K = Some g" for g
  proof (cases "rg_version (state_of w (rg_user g)) < rg_version (state_of w' (rg_user g))")
    case True
    then show ?thesis using that assms(1) by (auto simp: knows_def)
  next
    case False
    then have "state_of w' (rg_user g) = state_of w (rg_user g)"
        "\<forall>e \<in> set (rw_log w'). in_user e = rg_user g \<longrightarrow> e \<in> set (rw_log w)" using assms(2) by (auto simp: moves_on_def)
    then show ?thesis using that assms(1) by (auto simp: knows_def)
  qed
  then show ?thesis using assms by (auto simp: knows_def moves_on_def)
qed

lemma proper_new: "proper (new_state uid)"
  by (simp add: proper_def new_state_def)

lemma state_of_proper:
  assumes "rg_data off w"
  shows "rg_user (state_of w uid) = uid" and "proper (state_of w uid)"
  using assms by (cases "rw_states w uid"; simp add: rg_data_def state_of_def state_or_new_def proper_new; simp add: new_state_def)+

lemma put_holds_version: "rg_data off w \<Longrightarrow> put_state_holds prev (rw_states w uid) \<Longrightarrow> rg_version (state_of w uid) = prev"
  by (cases "rw_states w uid") (simp_all add: put_state_holds_def state_of_def state_or_new_def new_state_def)

text \<open>A write under the version that was read starts from the state that is there.\<close>

lemma knows_current:
  assumes "rg_data off w" and "knows w req K" and "kn_got K = Some g" and "put_state_holds (rg_version g) (rw_states w (rg_user g))"
  shows "g = state_of w (rg_user g)" and "\<forall>e \<in> set (rw_log w). in_user e = rg_user g \<longrightarrow> in_at e \<le> kn_got_at K"
  using assms(2,3) put_holds_version [OF assms(1,4)] by (auto simp: knows_def)

lemma state_of_update:
  "state_of (w\<lparr>rw_states := (rw_states w)(uid \<mapsto> st)\<rparr>) v = (if v = uid then st else state_of w v)"
  by (simp add: state_of_def state_or_new_def)

lemma counters_written [simp]: "counters_of (written_state st prev) = counters_of st"
  by (simp add: counters_of_def written_state_def)

lemma moves_on_refl [simp]: "moves_on w w"
  by (simp add: moves_on_def)

lemma put_moves_on:
  assumes "rg_data off w" and "put_state_holds prev (rw_states w (rg_user st))"
    and "state_of w' = (\<lambda>v. if v = rg_user st then written_state st prev else state_of w v)"
    and "rw_now w' = rw_now w" and "rw_markers w \<subseteq> rw_markers w'" and "\<forall>e \<in> set (rw_log w'). in_user e \<noteq> rg_user st \<longrightarrow> e \<in> set (rw_log w)"
  shows "moves_on w w'"
  using assms put_holds_version [OF assms(1,2)] by (auto simp: moves_on_def written_state_def)

lemma written_simps [simp]:
  "rg_user (written_state st prev) = rg_user st" "rg_version (written_state st prev) = Suc prev"
  "proper (written_state st prev) = proper st"
  by (simp_all add: written_state_def proper_def)

lemma put_state_data:
  assumes d: "rg_data off w" and k: "knows w req K" and p: "permitted off req K (PutState st prev)"
    and h: "put_state_holds prev (rw_states w (rg_user st))" and w': "w' = w\<lparr>rw_states := (rw_states w)(rg_user st \<mapsto> written_state st prev)\<rparr>"
  shows "rg_data off w'" and "moves_on w w'"
proof -
  obtain g where g: "kn_got K = Some g" "prev = rg_version g" "settings_change g st (kn_clock K)" using p by auto
  have u: "rg_user st = rg_user g" using g(3) by (simp add: settings_change_def)
  have cur: "g = state_of w (rg_user g)" using knows_current(1) [OF d k g(1)] h g(2) u by simp
  have st: "proper st" "counters_of st = counters_of g"
    using g(3) state_of_proper(2) [OF d, of "rg_user g"] cur by (auto simp: settings_change_def counters_of_def)
  have states: "state_of w' = (\<lambda>v. if v = rg_user st then written_state st prev else state_of w v)"
    by (simp add: w' state_of_update fun_eq_iff)
  have "covers off (rw_log w) uid (counters_of (state_of w' uid))" for uid
  proof (cases "uid = rg_user st")
    case True
    have "covers off (rw_log w) (rg_user g) (counters_of (state_of w (rg_user g)))" using d by (simp add: rg_data_def)
    then show ?thesis using True st(2) cur u by (simp add: states)
  next
    case False
    then show ?thesis using d by (simp add: states rg_data_def)
  qed
  then show "rg_data off w'" using d st(1) by (auto simp: rg_data_def w')
  show "moves_on w w'" by (rule put_moves_on [OF d h states]) (simp_all add: w')
qed

lemma commit_data:
  assumes s: "steady off" and d: "rg_data off w" and k: "knows w req K" and p: "permitted off req K (CommitInflow st prev key now)"
    and h: "put_state_holds prev (rw_states w (rg_user st))" and new: "(rg_user st, key) \<notin> rw_markers w"
    and e: "e = \<lparr>in_user = rg_user st, in_key = key, in_amount = amount_of req, in_at = now, in_limits = the_limits st\<rparr>"
    and w': "w' = w\<lparr>rw_states := (rw_states w)(rg_user st \<mapsto> written_state st prev),
      rw_markers := insert (rg_user st, key) (rw_markers w), rw_log := e # rw_log w\<rparr>"
  shows "rg_data off w'" and "moves_on w w'"
proof -
  obtain g amount where g: "req = InflowReq (rg_user g) amount key" "kn_got K = Some g" "prev = rg_version g" "now = kn_clock K"
    "kn_got_at K \<le> now" "metered off amount g st now" using p by auto
  have u: "rg_user st = rg_user g" using g(6) by (simp add: metered_def)
  have hold: "put_state_holds (rg_version g) (rw_states w (rg_user g))" using h g(3) u by simp
  have cur: "g = state_of w (rg_user g)" and at: "\<forall>e \<in> set (rw_log w). in_user e = rg_user g \<longrightarrow> in_at e \<le> kn_got_at K"
    using knows_current [OF d k g(2) hold] by auto
  have "covers off (rw_log w) (rg_user g) (counters_of (state_of w (rg_user g)))" using d by (simp add: rg_data_def)
  then have old: "in_order (rw_log w)" "\<forall>e \<in> set (rw_log w). 0 \<le> in_at e" "covers off (rw_log w) (rg_user g) (counters_of g)"
    "all_fit off (rw_log w)" using d unfolding cur [symmetric] by (simp_all add: rg_data_def)
  have before_now: "\<forall>e \<in> set (rw_log w). in_user e = rg_user g \<longrightarrow> in_at e \<le> now" using at g(5) by fastforce
  have e': "e = \<lparr>in_user = rg_user g, in_key = key, in_amount = amount, in_at = now, in_limits = the_limits st\<rparr>"
    using e u g(1) by (simp add: amount_of_def)
  note step = metered_log [OF s old(3,1,2) before_now g(6) e']
  have now: "0 \<le> now" "now \<le> rw_now w" using k g(4,5) by (auto simp: knows_def)
  have states: "state_of w' = (\<lambda>v. if v = rg_user st then written_state st prev else state_of w v)"
    by (simp add: w' state_of_update fun_eq_iff) (simp add: state_of_def state_or_new_def)
  have proper: "proper st" using g(6) state_of_proper(2) [OF d, of "rg_user g"] cur by (simp add: metered_def)
  have cov: "covers off (e # rw_log w) uid (counters_of (state_of w' uid))" for uid
  proof (cases "uid = rg_user st")
    case True
    then show ?thesis using step(1) u by (simp add: states)
  next
    case False
    then have "covers off (rw_log w) uid (counters_of (state_of w uid))" using d by (simp add: rg_data_def)
    then show ?thesis using False by (simp add: covers_def e states)
  qed
  have "in_order (e # rw_log w)" using old(1) before_now by (simp add: e' u)
  moreover have "all_fit off (e # rw_log w)" using old(4) step(2) by simp
  moreover have "rw_markers w' = (\<lambda>e. (in_user e, in_key e)) ` set (e # rw_log w)" using d by (simp add: w' rg_data_def e)
  moreover have "distinct (map (\<lambda>e. (in_user e, in_key e)) (e # rw_log w))" using d new by (auto simp: rg_data_def e)
  ultimately show "rg_data off w'" using d proper now cov by (auto simp: rg_data_def w' e)
  show "moves_on w w'" by (rule put_moves_on [OF d h states]) (auto simp: w' e)
qed

lemma answer_data:
  assumes s: "steady off" and d: "rg_data off w" and k: "knows w req K" and p: "permitted off req K c"
    and a: "answer_call req c w = (r, w')"
  shows "rg_data off w'" and "moves_on w w'" and "plausible c r" and "knows w' req (learn (rw_now w) c r K)"
proof -
  have "rg_data off w' \<and> moves_on w w' \<and> plausible c r \<and> knows w' req (learn (rw_now w) c r K)"
  proof (cases c)
    case (GetState uid)
    have "knows w req (learn (rw_now w) c r K)"
      using k d a GetState state_of_proper(1) [OF d, of uid] by (auto simp: knows_def rg_data_def state_of_def [symmetric])
    moreover have "plausible c r" using d a GetState by (auto simp: plausible_def rg_data_def split: option.splits)
    ultimately show ?thesis using d a GetState by simp
  next
    case (PutState st prev)
    show ?thesis
    proof (cases "put_state_holds prev (rw_states w (rg_user st))")
      case True
      note step = put_state_data [OF d k p [unfolded PutState] True]
      show ?thesis using a True step knows_moves_on [OF k step(2)] by (auto simp: PutState plausible_def)
    next
      case False
      then show ?thesis using a d k by (auto simp: PutState plausible_def)
    qed
  next
    case (CommitInflow st prev key now)
    show ?thesis
    proof (cases "put_state_holds prev (rw_states w (rg_user st)) \<and> (rg_user st, key) \<notin> rw_markers w")
      case True
      note step = commit_data [OF s d k p [unfolded CommitInflow] conjunct1 [OF True] conjunct2 [OF True] refl refl]
      have r: "r = Written" and w': "w' = w\<lparr>rw_states := (rw_states w)(rg_user st \<mapsto> written_state st prev),
          rw_markers := insert (rg_user st, key) (rw_markers w),
          rw_log := \<lparr>in_user = rg_user st, in_key = key, in_amount = amount_of req, in_at = now, in_limits = the_limits st\<rparr> # rw_log w\<rparr>"
        using a True by (auto simp: CommitInflow)
      have "\<exists>amount. req = InflowReq (rg_user st) amount key" using p by (auto simp: CommitInflow metered_def)
      then have "knows w' req (K\<lparr>kn_counted := True\<rparr>)"
        using knows_moves_on [OF k step(2)] by (auto simp: knows_def w')
      then show ?thesis using step by (simp add: r w' CommitInflow plausible_def)
    next
      case False
      then have "r = Refused" "w' = w" using a by (auto simp: CommitInflow)
      then show ?thesis using d k by (simp add: CommitInflow plausible_def)
    qed
  next
    case (GetMarker uid key)
    then show ?thesis using a d k p by (auto simp: plausible_def knows_def)
  next
    case (PutCarried h ex ttl)
    let ?w = "w\<lparr>rw_carried := (rw_carried w)(h \<mapsto> (ex, ttl))\<rparr>"
    have states: "state_of ?w = state_of w" by (simp add: state_of_def fun_eq_iff)
    have d1: "rg_data off ?w" using d p by (simp add: PutCarried rg_data_def states)
    have m1: "moves_on w ?w" by (simp add: moves_on_def states)
    have "w' = w \<and> r = Refused \<or> w' = ?w \<and> r = Written" using a by (auto simp: PutCarried split: if_splits)
    then show ?thesis
    proof (elim disjE conjE)
      assume "w' = w" "r = Refused"
      then show ?thesis using d k by (simp add: PutCarried plausible_def)
    next
      assume "w' = ?w" "r = Written"
      then show ?thesis using d1 m1 knows_moves_on [OF k m1] by (simp add: PutCarried plausible_def)
    qed
  qed (use a d k in \<open>auto simp: plausible_def rg_data_def split: option.splits\<close>)
  then show "rg_data off w'" and "moves_on w w'" and "plausible c r" and "knows w' req (learn (rw_now w) c r K)" by auto
qed

lemma learn_nothing [simp]: "learn t c Failed K = K"
  by (cases "(t, c, Failed, K)" rule: learn.cases) auto

lemma plausible_failed [simp]: "plausible c Failed" "plausible (CommitInflow st prev key now) Refused" "plausible (CpfHash uid) (HashIs h)"
  by (cases c) (auto simp: plausible_def)

text \<open>A request goes on with what it has learnt.\<close>

lemma resume_inv:
  assumes "rg_inv S w" and "rg_data (rs_offset S) w'" and "moves_on w w'" and "rw_jobs w' = rw_jobs w"
    and "lawful (permitted (rs_offset S) req) (finished req) p K" and "knows w' req K"
  shows "rg_inv S (resume i req p w')"
proof -
  have same: "state_of (resume i req p w') = state_of w'" by (simp add: state_of_def fun_eq_iff)
  have k: "knows (resume i req p w') req' K' = knows w' req' K'" for req' K' by (simp add: knows_def same)
  have "rg_data (rs_offset S) (resume i req p w')" using assms(2) by (simp add: rg_data_def same)
  moreover have "\<exists>K. lawful (permitted (rs_offset S) req') (finished req') p' K \<and> knows w' req' K"
    if job: "((rw_jobs w)(i \<mapsto> (req, p))) j = Some (req', p')" for j req' p'
  proof (cases "j = i")
    case True
    then show ?thesis using job assms(5,6) by auto
  next
    case False
    then have "rw_jobs w j = Some (req', p')" using job by simp
    then obtain K' where "lawful (permitted (rs_offset S) req') (finished req') p' K'" "knows w req' K'"
      using assms(1) unfolding rg_inv_def by blast
    then show ?thesis using knows_moves_on [OF _ assms(3)] by blast
  qed
  ultimately show ?thesis unfolding rg_inv_def k using assms(4) by simp
qed

lemma job_lawful:
  assumes "rg_inv S w" and "rw_jobs w i = Some (req, p)"
  obtains K where "lawful (permitted (rs_offset S) req) (finished req) p K" and "knows w req K"
  using assms unfolding rg_inv_def by blast

lemma answer_jobs: "answer_call req c w = (r, w') \<Longrightarrow> rw_jobs w' = rw_jobs w \<and> rw_now w' = rw_now w"
  by (cases "(req, c, w)" rule: answer_call.cases) (auto split: if_splits)

lemma rg_step_inv:
  assumes s: "steady (rs_offset S)" and "rg_step S w w'" and inv: "rg_inv S w"
  shows "rg_inv S w'"
  using assms(2) inv
proof cases
  case (tick t)
  have states: "state_of (w\<lparr>rw_now := t\<rparr>) = state_of w" by (simp add: state_of_def fun_eq_iff)
  have "moves_on w w'" using tick by (simp add: moves_on_def states)
  moreover have "rg_data (rs_offset S) w'" using tick inv by (fastforce simp: rg_inv_def rg_data_def states)
  moreover have "rw_jobs w' = rw_jobs w" by (simp add: tick(1))
  ultimately show ?thesis using inv knows_moves_on unfolding rg_inv_def by metis
next
  case (arrive i req)
  have now: "0 \<le> rw_now w" using inv by (simp add: rg_inv_def rg_data_def)
  have "knows w req \<lparr>kn_got = None, kn_got_at = 0, kn_clock = 0, kn_counted = False\<rparr>" using now by (simp add: knows_def)
  then show ?thesis
    unfolding arrive(1) using inv by (intro resume_inv [OF inv _ _ _ serve_lawful]) (auto simp: rg_inv_def)
next
  case (look i req k)
  obtain K where K: "lawful (permitted (rs_offset S) req) (finished req) (Clock k) K" "knows w req K" by (rule job_lawful [OF inv look(2)])
  have l: "lawful (permitted (rs_offset S) req) (finished req) (k (rw_now w)) (K\<lparr>kn_clock := rw_now w\<rparr>)"
    using K by (simp add: knows_def)
  have "knows w req (K\<lparr>kn_clock := rw_now w\<rparr>)" using K(2) by (simp add: knows_def)
  then show ?thesis unfolding look(1) using inv by (intro resume_inv [OF inv _ _ _ l]) (auto simp: rg_inv_def)
next
  case (answered i req c k r w1)
  obtain K where K: "lawful (permitted (rs_offset S) req) (finished req) (Call c k) K" "knows w req K" by (rule job_lawful [OF inv answered(2)])
  have d: "rg_data (rs_offset S) w" and p: "permitted (rs_offset S) req K c" using inv K(1) by (simp_all add: rg_inv_def)
  note a = answer_data [OF s d K(2) p answered(3)]
  have l: "lawful (permitted (rs_offset S) req) (finished req) (k r) (learn (rw_now w) c r K)" using K(1) a(3) by simp
  show ?thesis unfolding answered(1) using answer_jobs [OF answered(3)] a by (intro resume_inv [OF inv _ _ _ l]) auto
next
  case (lost i req c k r w1)
  obtain K where K: "lawful (permitted (rs_offset S) req) (finished req) (Call c k) K" "knows w req K" by (rule job_lawful [OF inv lost(2)])
  have d: "rg_data (rs_offset S) w" and p: "permitted (rs_offset S) req K c" using inv K(1) by (simp_all add: rg_inv_def)
  note a = answer_data [OF s d K(2) p lost(3)]
  have "lawful (permitted (rs_offset S) req) (finished req) (k Failed) (learn 0 c Failed K)" using K(1) plausible_failed(1) unfolding lawful.simps by blast
  then have l: "lawful (permitted (rs_offset S) req) (finished req) (k Failed) K" by simp
  show ?thesis
    unfolding lost(1) using answer_jobs [OF lost(3)] a knows_moves_on [OF K(2) a(2)] by (intro resume_inv [OF inv _ _ _ l]) auto
next
  case (unsent i req c k)
  obtain K where K: "lawful (permitted (rs_offset S) req) (finished req) (Call c k) K" "knows w req K" by (rule job_lawful [OF inv unsent(2)])
  have "lawful (permitted (rs_offset S) req) (finished req) (k Failed) (learn 0 c Failed K)" using K(1) plausible_failed(1) unfolding lawful.simps by blast
  then have l: "lawful (permitted (rs_offset S) req) (finished req) (k Failed) K" by simp
  show ?thesis unfolding unsent(1) using inv K(2) by (intro resume_inv [OF inv _ _ _ l]) (auto simp: rg_inv_def)
next
  case (contended i req st prev key now k)
  obtain K where K: "lawful (permitted (rs_offset S) req) (finished req) (Call (CommitInflow st prev key now) k) K" "knows w req K"
    by (rule job_lawful [OF inv contended(2)])
  have "lawful (permitted (rs_offset S) req) (finished req) (k Refused) (learn 0 (CommitInflow st prev key now) Refused K)"
    using K(1) plausible_failed(2) unfolding lawful.simps by blast
  then have l: "lawful (permitted (rs_offset S) req) (finished req) (k Refused) K" by simp
  show ?thesis unfolding contended(1) using inv K(2) by (intro resume_inv [OF inv _ _ _ l]) (auto simp: rg_inv_def)
next
  case (hashed i req uid k h)
  obtain K where K: "lawful (permitted (rs_offset S) req) (finished req) (Call (CpfHash uid) k) K" "knows w req K"
    by (rule job_lawful [OF inv hashed(2)])
  have "lawful (permitted (rs_offset S) req) (finished req) (k (HashIs h)) (learn 0 (CpfHash uid) (HashIs h) K)"
    using K(1) plausible_failed(3) unfolding lawful.simps by blast
  then have l: "lawful (permitted (rs_offset S) req) (finished req) (k (HashIs h)) K" by simp
  show ?thesis unfolding hashed(1) using inv K(2) by (intro resume_inv [OF inv _ _ _ l]) (auto simp: rg_inv_def)
qed

lemma rg_reachable_inv:
  assumes "steady (rs_offset S)" and "rg_reachable S w"
  shows "rg_inv S w"
  using assms(2)
proof induction
  case (first t)
  have "covers (rs_offset S) [] uid (counters_of (state_of (first_world t) uid))" for uid
    by (simp add: covers_def counters_of_def state_of_def state_or_new_def new_state_def first_world_def no_counters_def)
  then show ?case using first by (simp add: rg_inv_def rg_data_def first_world_def)
next
  case (later w w')
  then show ?case using rg_step_inv [OF assms(1)] by blast
qed

section \<open>What the players can rely on\<close>



lemma found_once: "distinct (map f xs) \<Longrightarrow> k \<in> set (map f xs) \<Longrightarrow> length (filter (\<lambda>x. f x = k) xs) = 1"
proof (induction xs)
  case (Cons x xs)
  have "filter (\<lambda>y. f y = k) xs = []" if "f x = k" using Cons.prems(1) that by (auto simp: filter_empty_conv) (metis imageI)
  then show ?case using Cons by auto
qed simp

text \<open>An accepted amount has been counted. When the meter accepts an amount under a key, the log holds exactly one
  entry of that player and key, whatever retries, lost answers and other requests there were.\<close>

theorem accepted_inflow_counted:
  assumes "steady (rs_offset S)" and "rg_reachable S w" and "rw_jobs w i = Some (InflowReq uid amount key, Finish (Inr None))"
  shows "length (filter (\<lambda>e. in_user e = uid \<and> in_key e = key) (rw_log w)) = 1"
proof -
  have inv: "rg_inv S w" by (rule rg_reachable_inv [OF assms(1,2)])
  obtain K where "lawful (permitted (rs_offset S) (InflowReq uid amount key)) (finished (InflowReq uid amount key))
      (Finish (Inr None)) K" "knows w (InflowReq uid amount key) K" by (rule job_lawful [OF inv assms(3)])
  then have "(uid, key) \<in> rw_markers w" by (auto simp: knows_def)
  then have "(uid, key) \<in> set (map (\<lambda>e. (in_user e, in_key e)) (rw_log w))"
    and "distinct (map (\<lambda>e. (in_user e, in_key e)) (rw_log w))" using inv by (auto simp: rg_inv_def rg_data_def)
  from found_once [OF this(2,1)] show ?thesis by simp
qed

lemma exclusion_kept_later: "exclusion_kept g st t \<Longrightarrow> t \<le> now \<Longrightarrow> exclusion_kept g st now"
  by (auto simp: exclusion_kept_def lifted_def dest: order_trans)

lemma answer_exclusion:
  assumes d: "rg_data off w" and k: "knows w req K" and p: "permitted off req K c" and a: "answer_call req c w = (r, w')"
  shows "exclusion_kept (state_of w uid) (state_of w' uid) (rw_now w)"
proof -
  have same: ?thesis if "state_of w' uid = state_of w uid" using that by (simp add: exclusion_kept_same)
  have written: ?thesis if h: "put_state_holds prev (rw_states w (rg_user st))" and g: "kn_got K = Some g" "prev = rg_version g"
    and u: "rg_user st = rg_user g" and kept: "proper g \<Longrightarrow> exclusion_kept g st (kn_clock K)"
    and w': "rw_states w' = (rw_states w)(rg_user st \<mapsto> written_state st prev)" for st prev g
  proof (cases "uid = rg_user st")
    case True
    have cur: "g = state_of w (rg_user g)" using knows_current(1) [OF d k g(1)] h g(2) u by simp
    have "proper g" using state_of_proper(2) [OF d, of "rg_user g"] cur by simp
    then have "exclusion_kept g st (rw_now w)" using kept k exclusion_kept_later by (auto simp: knows_def)
    moreover have "state_of w' uid = written_state st prev" using True w' by (simp add: state_of_def state_or_new_def)
    moreover have "state_of w uid = g" using True u cur by simp
    ultimately show ?thesis by (simp add: exclusion_kept_def self_excluded_def written_state_def)
  next
    case False
    then show ?thesis using w' same by (simp add: state_of_def)
  qed
  show ?thesis
  proof (cases c)
    case (PutState st prev)
    obtain g where g: "kn_got K = Some g" "prev = rg_version g" "settings_change g st (kn_clock K)" using p by (auto simp: PutState)
    show ?thesis
    proof (cases "put_state_holds prev (rw_states w (rg_user st))")
      case True
      show ?thesis
        by (rule written [OF True g(1,2)]) (use g(3) a True in \<open>auto simp: settings_change_def PutState\<close>)
    next
      case False
      then show ?thesis using a by (intro same) (simp add: PutState)
    qed
  next
    case (CommitInflow st prev key now)
    obtain g amount where g: "kn_got K = Some g" "prev = rg_version g" "metered off amount g st now" using p by (auto simp: CommitInflow)
    show ?thesis
    proof (cases "put_state_holds prev (rw_states w (rg_user st)) \<and> (rg_user st, key) \<notin> rw_markers w")
      case True
      show ?thesis
        by (rule written [OF conjunct1 [OF True] g(1,2)]) (use g(3) a True in \<open>auto simp: metered_def CommitInflow exclusion_kept_same\<close>)
    next
      case False
      then have "w' = w" using a by (auto simp: CommitInflow)
      then show ?thesis by (intro same) simp
    qed
  qed (use a same in \<open>auto simp: state_of_def split: if_splits\<close>)
qed

text \<open>An exclusion is only ever extended. If a player is excluded at some time to come, then after any step of any
  request the player still is; unless the step lifts an exclusion without an end that was requested at least ninety
  days before.\<close>

theorem exclusion_only_extended:
  assumes "steady (rs_offset S)" and "rg_reachable S w" and "rg_step S w w'" and "rw_now w' \<le> t" and "self_excluded (state_of w uid) t"
  shows "self_excluded (state_of w' uid) t \<or> rg_exclusion (state_of w' uid) = None \<and> lifted (state_of w uid) (rw_now w)"
proof -
  have inv: "rg_inv S w" by (rule rg_reachable_inv [OF assms(1,2)])
  then have d: "rg_data (rs_offset S) w" by (simp add: rg_inv_def)
  have later: "rw_now w \<le> t" if "rw_now w' = rw_now w" using that assms(4) by simp
  have by_answer: ?thesis if job: "rw_jobs w i = Some (req, Call c k)" and a: "answer_call req c w = (r, w1)"
    and w': "w' = resume i req p w1" for i req c k r w1 p
  proof -
    obtain K where K: "lawful (permitted (rs_offset S) req) (finished req) (Call c k) K" "knows w req K"
      by (rule job_lawful [OF inv job])
    then have "exclusion_kept (state_of w uid) (state_of w1 uid) (rw_now w)" using answer_exclusion [OF d K(2) _ a] by simp
    moreover have "state_of w' uid = state_of w1 uid" by (simp add: w' state_of_def)
    moreover have "rw_now w \<le> t" using later answer_jobs [OF a] w' by simp
    ultimately show ?thesis using assms(5) by (auto simp: exclusion_kept_def)
  qed
  have idle: ?thesis if "rw_states w' = rw_states w" using that assms(5) by (simp add: state_of_def)
  show ?thesis
    using assms(3)
  proof cases
    case (answered i req c k r w1)
    show ?thesis by (rule by_answer [OF answered(2,3,1)])
  next
    case (lost i req c k r w1)
    show ?thesis by (rule by_answer [OF lost(2,3,1)])
  qed (rule idle, simp)+
qed

text \<open>Limits fall at once and rise late. After a player with limits in force asks for new ones, nothing is allowed
  for a week (in whole seconds) that was not allowed before, and no higher monthly limit for two weeks; after two
  weeks, if nothing else was asked for, the new limits are in force.\<close>

theorem limits_rise_after_cooldown:
  assumes "limits_change d w m st now = Inr st'" and "valid_limits d w m" and "proper st" and "rg_limits st \<noteq> None" and "now \<le> t"
    and "effective_limits st now = (cur, matured)" and "effective_limits st' t = (later, matured')"
  shows "(t < whole_seconds (now + cooldown_increase) \<longrightarrow>
      gl_daily later \<le> gl_daily cur \<and> gl_weekly later \<le> gl_weekly cur \<and> gl_monthly later \<le> gl_monthly cur) \<and>
    (t < whole_seconds (now + cooldown_monthly) \<longrightarrow> gl_monthly later \<le> gl_monthly cur) \<and>
    (whole_seconds (now + cooldown_monthly) \<le> t \<longrightarrow> gl_daily later = d \<and> gl_weekly later = w \<and> gl_monthly later = m)"
proof -
  define at where "at = now + (if m > gl_monthly cur then cooldown_monthly else cooldown_increase)"
  define p where "p = (if d > gl_daily cur \<or> w > gl_weekly cur \<or> m > gl_monthly cur
    then Some \<lparr>pn_daily = d, pn_weekly = w, pn_monthly = m, pn_applies_at = stamped at\<rparr> else None)"
  let ?conf = "limits_configured (if matured then st\<lparr>rg_limits := Some cur\<rparr> else st) \<or> matured"
  have conf: ?conf
  proof -
    obtain l where l: "rg_limits st = Some l" "limits_proper l" using assms(3,4) by (auto simp: proper_def split: option.splits)
    then have "0 < gl_daily l" "0 < gl_weekly l" "0 < gl_monthly l" by (auto simp: limits_proper_def valid_limits_def)
    then show ?thesis using l by (simp add: limits_configured_def)
  qed
  have st': "rg_limits st' = Some \<lparr>gl_daily = min d (gl_daily cur), gl_weekly = min w (gl_weekly cur),
      gl_monthly = min m (gl_monthly cur), gl_pending = p\<rparr>"
    using assms(1,6) conf by (simp only: limits_change_def Let_def p_def at_def prod.case if_True) auto
  have cooled: "whole_seconds (now + cooldown_increase) \<le> whole_seconds (now + cooldown_monthly)"
    by (simp add: whole_seconds_def seconds_def unix_sec_def cooldown_increase_def cooldown_monthly_def hours_def zdiv_mono1)
  show ?thesis
  proof (cases "p = None")
    case True
    then have "later = \<lparr>gl_daily = d, gl_weekly = w, gl_monthly = m, gl_pending = None\<rparr>"
        "d \<le> gl_daily cur" "w \<le> gl_weekly cur" "m \<le> gl_monthly cur"
      using assms(7) st' by (auto simp: effective_limits_def p_def split: if_splits)
    then show ?thesis by simp
  next
    case False
    then have p: "p = Some \<lparr>pn_daily = d, pn_weekly = w, pn_monthly = m, pn_applies_at = At (whole_seconds at)\<rparr>"
      by (simp add: p_def stamped_def split: if_splits)
    show ?thesis
    proof (cases "t < whole_seconds at")
      case True
      then have "later = \<lparr>gl_daily = min d (gl_daily cur), gl_weekly = min w (gl_weekly cur), gl_monthly = min m (gl_monthly cur),
          gl_pending = p\<rparr>" using assms(7) st' by (simp add: effective_limits_def p)
      moreover have "\<not> whole_seconds (now + cooldown_monthly) \<le> t" using True cooled by (auto simp: at_def split: if_splits)
      ultimately show ?thesis by simp
    next
      case False
      then have later: "gl_daily later = d" "gl_weekly later = w" "gl_monthly later = m"
        using assms(7) st' by (auto simp: effective_limits_def p)
      have "\<not> t < whole_seconds (now + cooldown_increase)" using False cooled by (auto simp: at_def split: if_splits)
      moreover have "t < whole_seconds (now + cooldown_monthly) \<Longrightarrow> m \<le> gl_monthly cur" using False by (auto simp: at_def split: if_splits)
      ultimately show ?thesis using later by simp
    qed
  qed
qed

section \<open>Examples\<close>

text \<open>A request that runs alone.\<close>

primrec run_request :: "limit_breach option rules \<Rightarrow> nat \<Rightarrow> request \<Rightarrow> rg_world \<Rightarrow> rg_world" where
  "run_request (Finish v) i req w = w"
| "run_request (Call c k) i req w = (case answer_call req c w of (r, w') \<Rightarrow> run_request (k r) i req (resume i req (k r) w'))"
| "run_request (Clock k) i req w = run_request (k (rw_now w)) i req (resume i req (k (rw_now w)) w)"

definition perform :: "rg_service \<Rightarrow> nat \<Rightarrow> request \<Rightarrow> rg_world \<Rightarrow> rg_world" where
  "perform S i req w = run_request (serve_request S req) i req (resume i req (serve_request S req) w)"

lemma run_request_reachable:
  "rg_reachable S w \<Longrightarrow> rw_jobs w i = Some (req, p) \<Longrightarrow> rg_reachable S (run_request p i req w)"
proof (induction p arbitrary: w)
  case (Call c k)
  obtain r w' where a: "answer_call req c w = (r, w')" by fastforce
  have "rg_reachable S (resume i req (k r) w')" by (rule rg_reachable.later [OF Call.prems(1) rg_step.answered [OF Call.prems(2) a]])
  then show ?case using Call.IH by (simp add: a)
next
  case (Clock k)
  have "rg_reachable S (resume i req (k (rw_now w)) w)" by (rule rg_reachable.later [OF Clock.prems(1) rg_step.look [OF Clock.prems(2)]])
  then show ?case using Clock.IH by simp
qed simp

lemma perform_reachable: "rg_reachable S w \<Longrightarrow> rw_jobs w i = None \<Longrightarrow> rg_reachable S (perform S i req w)"
  unfolding perform_def by (rule run_request_reachable) (simp_all add: rg_reachable.later rg_step.arrive)

definition brazil :: rg_service where
  "brazil = \<lparr>rs_offset = (\<lambda>_. - 10800), rs_five_years_on = (\<lambda>t. t + hours (5 * 365 * 24)), rs_has_cpf = True\<rparr>"

definition limited :: rg_world where
  "limited = perform brazil 0 (LimitsReq ''a'' 1000 5000 20000) (first_world 0)"

definition paid_in :: rg_world where
  "paid_in = perform brazil 1 (InflowReq ''a'' 700 ''k'') limited"

lemmas attempts = rg_attempts_def update_from.simps(2) [of 4, simplified] record_inflow_from.simps(2) [of 4, simplified]

lemma limited_world:
  "limited = (resume 0 (LimitsReq ''a'' 1000 5000 20000) (Finish (Inr None)) (first_world 0))
     \<lparr>rw_states := [''a'' \<mapsto> (new_state ''a'')\<lparr>rg_version := 1, rg_limits :=
        Some \<lparr>gl_daily = 1000, gl_weekly = 5000, gl_monthly = 20000, gl_pending = None\<rparr>\<rparr>]\<rparr>"
  by (simp add: limited_def perform_def silent_def set_limits_def valid_limits_def rg_then_def update_def attempts
    get_state_def state_or_new_def Let_def limits_change_def effective_limits_def limits_configured_def put_state_holds_def
    written_state_def audited_def first_world_def new_state_def)

lemma first_days: "year_and_day 719161 = (1969, 364)" "year_and_day 719162 = (1970, 0)"
  by (simp_all add: year_and_day_def)

lemma first_month: "month_and_day (month_lengths 1969) 1 364 = (12, 31)"
  by (simp add: month_lengths_def leap_def)

lemma first_texts:
  "padded 4 1969 = ''1969''" "padded 4 1970 = ''1970''" "padded 2 12 = ''12''" "padded 2 31 = ''31''" "padded 2 1 = ''01''"
  by (simp_all add: padded_def decimal_int_def decimal.simps)

lemma first_keys: "window_keys (\<lambda>_. - 10800) 0 = (''1969-12-31'', ''1970-W01'', ''1969-12'')"
proof -
  have "local_day (\<lambda>_. - 10800) 0 = 719161" by (simp add: local_day_def unix_sec_def)
  moreover have "iso_week 719161 = (1970, 1)" by (simp add: iso_week_def first_days)
  ultimately show ?thesis
    by (simp add: window_keys_def first_days first_month month_key_def first_texts)
qed

definition first_inflow :: inflow where
  "first_inflow = \<lparr>in_user = ''a'', in_key = ''k'', in_amount = 700, in_at = 0,
     in_limits = \<lparr>gl_daily = 1000, gl_weekly = 5000, gl_monthly = 20000, gl_pending = None\<rparr>\<rparr>"

lemma paid_in_world:
  "rw_log paid_in = [] @ first_inflow # []" "rw_jobs paid_in 1 = Some (InflowReq ''a'' 700 ''k'', Finish (Inr None))"
  by (simp_all add: paid_in_def limited_world perform_def rg_then_def record_inflow_def attempts
    counted_def get_state_def state_or_new_def Let_def limits_configured_def effective_limits_def brazil_def new_state_def
    check_deposit_def first_keys counters_of_def no_counters_def sums_for_def add_inflow_def commit_inflow_def put_state_holds_def
    first_world_def first_inflow_def the_limits_def amount_of_def)

lemma paid_in_reachable: "rg_reachable brazil paid_in"
proof -
  have "rg_reachable brazil limited"
    unfolding limited_def by (intro perform_reachable rg_reachable.first) (simp_all add: first_world_def)
  then show ?thesis unfolding paid_in_def by (rule perform_reachable) (simp add: limited_world first_world_def)
qed

lemma steady_brazil: "steady (rs_offset brazil)"
  by (simp add: brazil_def steady_offset)


lemma accepted_inflow_counted_witness: "length (filter (\<lambda>e. in_user e = ''a'' \<and> in_key e = ''k'') (rw_log paid_in)) = 1"
  by (rule accepted_inflow_counted [OF steady_brazil paid_in_reachable paid_in_world(2)])

text \<open>A month of exclusion, from 1970 on, two hours in.\<close>

definition excluded :: rg_world where
  "excluded = perform brazil 0 (ExcludeReq ''a'' ''30d'') (first_world 0)"

lemma excluded_world:
  "rw_states excluded = [''a'' \<mapsto> (new_state ''a'')\<lparr>rg_version := 1, rg_exclusion :=
     Some \<lparr>ex_period = ''30d'', ex_requested_at = At 0, ex_until = At (hours (30 * 24))\<rparr>\<rparr>]"
  "rw_now excluded = 0"
  by (simp_all add: excluded_def perform_def silent_def self_exclude_def rg_then_def update_def attempts
    get_state_def state_or_new_def Let_def exclude_change_def exclusion_until_def stamped_def whole_seconds_def seconds_def
    unix_sec_def hours_def put_state_holds_def written_state_def audited_def first_world_def new_state_def)

lemma exclusion_only_extended_witness:
  "self_excluded (state_of (excluded\<lparr>rw_now := hours 2\<rparr>) ''a'') (hours 3) \<or>
    rg_exclusion (state_of (excluded\<lparr>rw_now := hours 2\<rparr>) ''a'') = None \<and> lifted (state_of excluded ''a'') (rw_now excluded)"
proof (rule exclusion_only_extended [OF steady_brazil])
  show "rg_reachable brazil excluded"
    unfolding excluded_def by (intro perform_reachable rg_reachable.first) (simp_all add: first_world_def)
  show "rg_step brazil excluded (excluded\<lparr>rw_now := hours 2\<rparr>)" by (rule rg_step.tick) (simp add: excluded_world hours_def)
  show "rw_now (excluded\<lparr>rw_now := hours 2\<rparr>) \<le> hours 3" by (simp add: hours_def)
  show "self_excluded (state_of excluded ''a'') (hours 3)"
    by (simp add: state_of_def state_or_new_def excluded_world self_excluded_def in_force_def hours_def)
qed

definition with_limits :: rg_state where
  "with_limits = (new_state ''a'')\<lparr>rg_version := 1, rg_limits :=
     Some \<lparr>gl_daily = 1000, gl_weekly = 5000, gl_monthly = 20000, gl_pending = None\<rparr>\<rparr>"

definition raised :: rg_state where
  "raised = with_limits\<lparr>rg_limits := Some \<lparr>gl_daily = 500, gl_weekly = 5000, gl_monthly = 20000, gl_pending =
     Some \<lparr>pn_daily = 500, pn_weekly = 9000, pn_monthly = 30000, pn_applies_at = At cooldown_monthly\<rparr>\<rparr>\<rparr>"

lemma limits_rise_after_cooldown_witness:
  "gl_monthly (fst (effective_limits raised (hours 24))) \<le> gl_monthly (fst (effective_limits with_limits 0))"
proof -
  have now: "effective_limits with_limits 0 = (the (rg_limits with_limits), False)"
    by (simp add: effective_limits_def with_limits_def)
  have later: "effective_limits raised (hours 24) = (the (rg_limits raised), False)"
    by (simp add: effective_limits_def raised_def cooldown_monthly_def hours_def)
  have "limits_change 500 9000 30000 with_limits 0 = Inr raised"
    unfolding limits_change_def now prod.case
    by (simp add: limits_configured_def raised_def with_limits_def Let_def stamped_def whole_seconds_def
      seconds_def unix_sec_def cooldown_monthly_def hours_def)
  from limits_rise_after_cooldown [OF this _ _ _ _ now later] show ?thesis
    unfolding now later fst_conv
    by (simp add: valid_limits_def proper_def limits_proper_def with_limits_def new_state_def hours_def whole_seconds_def
      seconds_def unix_sec_def cooldown_monthly_def)
qed

text \<open>An exclusion a player made for a fixed time is replaced by an older one without an end, found under the same CPF,
  and that one can be lifted at once: here the ninety days are gone on their first day.\<close>

definition day_of_exclusion :: int where "day_of_exclusion = hours (200 * 24)"

definition own_exclusion :: rg_state where
  "own_exclusion = (new_state ''b'')\<lparr>rg_version := 1, rg_exclusion :=
     Some \<lparr>ex_period = ''90d'', ex_requested_at = At day_of_exclusion, ex_until = At (day_of_exclusion + hours (90 * 24))\<rparr>\<rparr>"

definition old_exclusion :: self_exclusion where
  "old_exclusion = \<lparr>ex_period = ''indefinite'', ex_requested_at = At 0, ex_until = Unset\<rparr>"

lemma carried_exclusion_lifts_own:
  "\<exists>msg st st'. revoke_change own_exclusion day_of_exclusion = Inl (RuleRefused msg) \<and>
     carry_change (Some old_exclusion) own_exclusion day_of_exclusion = Inr st \<and> revoke_change st day_of_exclusion = Inr st' \<and>
     \<not> self_excluded st' day_of_exclusion"
  by (simp add: own_exclusion_def old_exclusion_def day_of_exclusion_def revoke_change_def carry_change_def self_excluded_def
    in_force_def lasts_longer_def exclusion_revoke_floor_def hours_def Let_def)

end
